(* ===== verification/Tq_Prelude.thy ===== *)
theory Tq_Prelude imports Complex_Main "HOL-Library.Word" "HOL-Library.Log_Nat" begin

text \<open>
  Shared vocabulary of the development: the widths of the C types, the status codes of
  \<^verbatim>\<open>core/include/tq/tq.h\<close>, the result type of operations that can fail, little-endian
  reads of byte images, and the generic lemmas on words and lists that the components use.

  A C pointer to an array is a list; \<^verbatim>\<open>xs[i]\<close> inside the bounds is \<open>xs ! i\<close> and an
  assignment is a list update. A C \<^verbatim>\<open>int\<close> that only counts or indexes is \<open>int\<close> or
  \<open>nat\<close>; a fixed-width integer whose wrap-around or bit pattern matters is a word.
\<close>

unbundle bit_operations_syntax

type_synonym u8 = "8 word"
type_synonym u16 = "16 word"
type_synonym u32 = "32 word"
type_synonym u64 = "64 word"
type_synonym i8 = "8 word"

section \<open>Status codes\<close>

datatype tq_status =
  TQ_OK
| TQ_ERR_MAGIC
| TQ_ERR_VERSION
| TQ_ERR_TRUNCATED
| TQ_ERR_UNSUPPORTED
| TQ_ERR_MISSING
| TQ_ERR_SHAPE
| TQ_ERR_NOMEM
| TQ_ERR_IO
| TQ_ERR_RANGE

fun status_code :: "tq_status \<Rightarrow> int" where
  "status_code TQ_OK = 0"
| "status_code TQ_ERR_MAGIC = -1"
| "status_code TQ_ERR_VERSION = -2"
| "status_code TQ_ERR_TRUNCATED = -3"
| "status_code TQ_ERR_UNSUPPORTED = -4"
| "status_code TQ_ERR_MISSING = -5"
| "status_code TQ_ERR_SHAPE = -6"
| "status_code TQ_ERR_NOMEM = -7"
| "status_code TQ_ERR_IO = -8"
| "status_code TQ_ERR_RANGE = -9"

text \<open>
  What a call that fails reports: one of the status codes, or \<open>Undefined\<close> where C leaves
  the behaviour undefined (a float that does not fit the integer it is converted to).
\<close>

datatype fault = Status tq_status | Undefined

type_synonym 'a result = "fault + 'a"

section \<open>Words as natural numbers\<close>

text \<open>
  The component proofs work on \<open>unat\<close>. The collection \<open>word_nat\<close> turns the word operations the
  code uses into arithmetic with the wrap-around written out.
\<close>

named_theorems word_nat

lemma unat_ucast_mod [word_nat]:
  "unat (ucast (w :: 'a::len word) :: 'b::len word) = unat w mod 2 ^ LENGTH('b)"
  by (simp add: unsigned_ucast_eq take_bit_eq_mod)

lemma unat_drop_div [word_nat]: "unat (drop_bit n (w :: 'a::len word)) = unat w div 2 ^ n"
  by (simp only: unat_drop_bit_eq) (simp add: drop_bit_eq_div)

lemma unat_push_mod [word_nat]:
  "unat (push_bit n (w :: 'a::len word)) = (unat w * 2 ^ n) mod 2 ^ LENGTH('a)"
  by (simp only: unsigned_push_bit_eq push_bit_nat_eq take_bit_eq_mod) (simp add: push_bit_eq_mult)

lemmas [word_nat] = unat_div unat_mod

lemma unat_of_nat_id: "n < 2 ^ LENGTH('w) \<Longrightarrow> unat (of_nat n :: 'w::len word) = n"
  by (simp add: unsigned_of_nat take_bit_nat_eq_self)

lemma unat_bound: "unat (w :: 'a::len word) < 2 ^ LENGTH('a)"
  by (rule unsigned_less)

lemma unat8_less: "unat (w :: u8) < 256"
  using unat_bound [of w] by simp

lemma unat16_less: "unat (w :: u16) < 65536"
  using unat_bound [of w] by simp

lemma unat32_less: "unat (w :: u32) < 4294967296"
  using unat_bound [of w] by simp

lemma unat64_less: "unat (w :: u64) < 18446744073709551616"
  using unat_bound [of w] by simp

lemma unat_add_small: "unat a + unat b < 2 ^ LENGTH('a) \<Longrightarrow> unat (a + b) = unat a + unat (b :: 'a::len word)"
  by (simp add: unat_word_ariths)

lemma unat_mult_small: "unat a * unat b < 2 ^ LENGTH('a) \<Longrightarrow> unat (a * b) = unat a * unat (b :: 'a::len word)"
  by (simp add: unat_word_ariths)

lemma unat_sub_small: "unat b \<le> unat a \<Longrightarrow> unat (a - b) = unat a - unat (b :: 'a::len word)"
  by (simp add: unat_sub word_le_nat_alt)

lemma unat_pred: "w \<noteq> 0 \<Longrightarrow> unat (w :: 'a::len word) = Suc (unat (w - 1))"
  by (metis Suc_pred' unat_gt_0 unat_minus_one)

text \<open>A shifted value and a byte below it share no bit, so \<^verbatim>\<open>|\<close> adds them.\<close>

lemma push_or_add:
  fixes a b :: "'a::len word"
  assumes "unat b < 2 ^ n"
  shows "push_bit n a OR b = push_bit n a + b"
proof (rule disjunctive_add_eq_or [symmetric], rule bit_eqI)
  fix k
  have "take_bit n b = b"
    using assms by (metis take_bit_nat_eq_self_iff unsigned_take_bit_eq unsigned_word_eqI)
  then have "bit b k \<Longrightarrow> k < n" by (metis bit_take_bit_iff)
  then show "bit (push_bit n a AND b) k = bit (0 :: 'a word) k"
    by (auto simp: bit_simps)
qed

lemma unat_push_or:
  fixes a b :: "'a::len word"
  assumes "unat b < 2 ^ n" and "unat a * 2 ^ n + unat b < 2 ^ LENGTH('a)"
  shows "unat (push_bit n a OR b) = unat a * 2 ^ n + unat b"
proof -
  have "unat (push_bit n a) = unat a * 2 ^ n"
    using assms(2) by (simp add: unat_push_mod)
  then show ?thesis
    using assms by (simp add: push_or_add unat_add_small)
qed

lemma funpow2: "(f ^^ 2) x = f (f x)"
  by (simp add: numeral_2_eq_2)

lemma funpow3: "(f ^^ 3) x = f (f (f x))"
  by (simp add: numeral_3_eq_3)

section \<open>Big-endian numbers\<close>

lemma pow256 [simp]: "Suc 0 \<le> 256 ^ n"
  by simp

definition be_nat :: "u8 list \<Rightarrow> nat" where
  "be_nat bs = foldl (\<lambda>a b. 256 * a + unat b) 0 bs"

lemma be_nat_Nil [simp]: "be_nat [] = 0"
  by (simp add: be_nat_def)

lemma be_nat_snoc [simp]: "be_nat (bs @ [b]) = 256 * be_nat bs + unat b"
  by (simp add: be_nat_def)

lemma be_nat_append: "be_nat (xs @ ys) = be_nat xs * 256 ^ length ys + be_nat ys"
  by (induction ys rule: rev_induct)
    (simp_all add: append_assoc [symmetric] algebra_simps del: append_assoc)

lemma be_nat_single: "be_nat [b] = unat b"
  by (simp add: be_nat_def)

lemma be_nat_Cons: "be_nat (b # bs) = unat b * 256 ^ length bs + be_nat bs"
  using be_nat_append [of "[b]" bs] by (simp add: be_nat_single)

lemma be_nat_replicate_0 [simp]: "be_nat (replicate n 0) = 0"
  by (induction n) (simp_all add: replicate_append_same [symmetric])

lemma be_nat_replicate_255: "be_nat (replicate n 255) = 256 ^ n - 1"
proof (induction n)
  case (Suc n)
  have "be_nat (replicate (Suc n) 255) = 256 * (256 ^ n - 1) + 255"
    using Suc by (simp add: replicate_append_same [symmetric])
  moreover have "(1::nat) \<le> 256 ^ n" by simp
  ultimately show ?case by (simp add: algebra_simps)
qed simp

lemma be_nat_less: "be_nat bs < 256 ^ length bs"
proof (induction bs rule: rev_induct)
  case (snoc b bs)
  have "unat b < 256" by (rule unat8_less)
  with snoc show ?case by simp
qed simp

section \<open>Runs of partial steps\<close>

fun run_steps :: "('a \<Rightarrow> 's \<Rightarrow> 'a option) \<Rightarrow> 's list \<Rightarrow> 'a \<Rightarrow> 'a option" where
  "run_steps f [] a = Some a"
| "run_steps f (s # ss) a = (case f a s of None \<Rightarrow> None | Some b \<Rightarrow> run_steps f ss b)"

lemma run_steps_append:
  "run_steps f (xs @ ys) a = (case run_steps f xs a of None \<Rightarrow> None | Some b \<Rightarrow> run_steps f ys b)"
  by (induction xs arbitrary: a) (simp_all split: option.splits)

lemma run_steps_total: "(\<And>a s. g a s = Some (f a s)) \<Longrightarrow> run_steps g xs a = Some (foldl f a xs)"
  by (induction xs arbitrary: a) simp_all

end
