(* ===== verification/Tq_Range.thy ===== *)
theory Tq_Range imports Tq_Prelude begin

text \<open>
  The range coder of \<^verbatim>\<open>core/src/tq_ac.c\<close>: the encoder with its carry propagation through a
  cache byte and a run of deferred 0xFF bytes, the shortening flush, and the decoder that
  feeds zeroes past the end of the buffer.

  \<^verbatim>\<open>e->buf[0..len)\<close> is the list \<open>e_buf\<close> and \<^verbatim>\<open>len\<close> its length; the cells from \<^verbatim>\<open>len\<close> on are
  never read. The renormalisation loops run forever on a zero range, so they are partial
  functions: \<open>None\<close> is "does not return" (and stands for the division by a zero total, which C
  leaves undefined).
\<close>

unbundle bit_operations_syntax

definition TQ_AC_TOT :: u32 where "TQ_AC_TOT = 65536"

definition TQ_AC_TOP :: u32 where "TQ_AC_TOP = 16777216"

record tq_ac_enc =
  e_buf :: "u8 list"
  e_cap :: nat
  e_low :: u64
  e_range :: u32
  e_cache :: u8
  e_pending :: u64
  e_primed :: bool
  e_finished :: bool
  e_overflow :: bool

record tq_ac_dec =
  d_buf :: "u8 list"
  d_pos :: nat
  d_range :: u32
  d_code :: u32
  d_r :: u32
  d_starved :: bool

section \<open>The encoder\<close>

definition tq_ac_enc_init :: "nat \<Rightarrow> tq_ac_enc" where
  "tq_ac_enc_init cap =
     \<lparr>e_buf = [], e_cap = cap, e_low = 0, e_range = 0xFFFFFFFF, e_cache = 0,
      e_pending = 0, e_primed = False, e_finished = False, e_overflow = False\<rparr>"

definition tq_ac_put :: "tq_ac_enc \<Rightarrow> u8 \<Rightarrow> tq_ac_enc" where
  "tq_ac_put e byte =
     (if length (e_buf e) < e_cap e then e\<lparr>e_buf := e_buf e @ [byte]\<rparr>
      else e\<lparr>e_overflow := True\<rparr>)"

text \<open>The inner loop of \<^verbatim>\<open>tq_ac_shift_low\<close> that settles the deferred bytes.\<close>

function tq_ac_drain :: "u8 \<Rightarrow> tq_ac_enc \<Rightarrow> tq_ac_enc" where
  "tq_ac_drain carry e =
     (if e_pending e \<noteq> 0
      then tq_ac_drain carry
             ((tq_ac_put e (0xFF + carry))\<lparr>e_pending := e_pending e - 1\<rparr>)
      else e)"
  by pat_completeness auto
termination
  by (relation "measure (\<lambda>(c, e). unat (e_pending e))") (auto simp: measure_unat)

declare tq_ac_drain.simps [simp del]

definition tq_ac_shift_low :: "tq_ac_enc \<Rightarrow> tq_ac_enc" where
  "tq_ac_shift_low e =
     (let low = e_low e;
          e1 = (if (ucast (drop_bit 32 low) :: u32) \<noteq> 0 \<or> (ucast low :: u32) < 0xFF000000
                then let carry = (ucast (drop_bit 32 low) :: u8);
                         ea = (if e_primed e then tq_ac_put e (e_cache e + carry) else e);
                         eb = tq_ac_drain carry ea
                     in eb\<lparr>e_cache := ucast (drop_bit 24 low), e_primed := True\<rparr>
                else e\<lparr>e_pending := e_pending e + 1\<rparr>)
      in e1\<lparr>e_low := ucast (push_bit 8 (ucast low :: u32))\<rparr>)"

partial_function (option) tq_ac_enc_norm :: "tq_ac_enc \<Rightarrow> tq_ac_enc option" where
  "tq_ac_enc_norm e =
     (if e_range e < TQ_AC_TOP
      then tq_ac_enc_norm
             ((tq_ac_shift_low e)\<lparr>e_range := push_bit 8 (e_range (tq_ac_shift_low e))\<rparr>)
      else Some e)"

definition tq_ac_enc_sym :: "tq_ac_enc \<Rightarrow> u32 \<Rightarrow> u32 \<Rightarrow> u32 \<Rightarrow> tq_ac_enc option" where
  "tq_ac_enc_sym e cum freq tot =
     (if tot = 0 then None
      else let r = e_range e div tot
           in tq_ac_enc_norm
                (e\<lparr>e_low := e_low e + ucast r * ucast cum, e_range := r * freq\<rparr>))"

text \<open>
  \<^verbatim>\<open>tq_ac_enc_finish\<close>: the search for a value of \<open>[low, low + range)\<close> with as many trailing
  zero bytes as possible, five shifts, and the loop that drops trailing zero bytes.
\<close>

fun tq_ac_round :: "nat list \<Rightarrow> u64 \<Rightarrow> u32 \<Rightarrow> u64" where
  "tq_ac_round [] low rng = low"
| "tq_ac_round (i # is) low rng =
     (let mask = (if i = 4 then 0 else drop_bit (8 * i) (0xFFFFFFFF :: u32));
          v = (low + ucast mask) AND NOT (ucast mask)
      in if v < low + ucast rng then v else tq_ac_round is low rng)"

function tq_ac_trim :: "u8 list \<Rightarrow> u8 list" where
  "tq_ac_trim buf =
     (if 0 < length buf \<and> buf ! (length buf - 1) = 0 then tq_ac_trim (butlast buf) else buf)"
  by pat_completeness auto
termination
  by (relation "measure length") auto

declare tq_ac_trim.simps [simp del]

definition tq_ac_enc_finish :: "tq_ac_enc \<Rightarrow> nat \<times> tq_ac_enc" where
  "tq_ac_enc_finish e =
     (if e_finished e then (length (e_buf e), e)
      else let e1 = e\<lparr>e_finished := True,
                      e_low := tq_ac_round [1, 2, 3, 4] (e_low e) (e_range e)\<rparr>;
               e2 = (tq_ac_shift_low ^^ 5) e1;
               e3 = e2\<lparr>e_buf := tq_ac_trim (e_buf e2)\<rparr>
           in (length (e_buf e3), e3))"

section \<open>The decoder\<close>

text \<open>One step of the loading loop of \<^verbatim>\<open>tq_ac_dec_init\<close>; unlike \<^verbatim>\<open>tq_ac_get\<close> it sets no flag.\<close>

definition tq_ac_dec_load :: "tq_ac_dec \<Rightarrow> tq_ac_dec" where
  "tq_ac_dec_load d =
     (if d_pos d < length (d_buf d)
      then d\<lparr>d_code := push_bit 8 (d_code d) OR ucast (d_buf d ! d_pos d), d_pos := d_pos d + 1\<rparr>
      else d\<lparr>d_code := push_bit 8 (d_code d) OR 0\<rparr>)"

definition tq_ac_dec_init :: "u8 list \<Rightarrow> tq_ac_dec" where
  "tq_ac_dec_init buf =
     (tq_ac_dec_load ^^ 4)
       \<lparr>d_buf = buf, d_pos = 0, d_range = 0xFFFFFFFF, d_code = 0, d_r = 0, d_starved = False\<rparr>"

definition tq_ac_get :: "tq_ac_dec \<Rightarrow> tq_ac_dec \<times> u32" where
  "tq_ac_get d =
     (if d_pos d < length (d_buf d)
      then (d\<lparr>d_pos := d_pos d + 1\<rparr>, ucast (d_buf d ! d_pos d))
      else (d\<lparr>d_starved := True\<rparr>, 0))"

definition tq_ac_dec_target :: "tq_ac_dec \<Rightarrow> u32 \<Rightarrow> tq_ac_dec \<times> u32" where
  "tq_ac_dec_target d tot =
     (let r = d_range d div tot;
          t = d_code d div r
      in (d\<lparr>d_r := r\<rparr>, if tot \<le> t then tot - 1 else t))"

partial_function (option) tq_ac_dec_norm :: "tq_ac_dec \<Rightarrow> tq_ac_dec option" where
  "tq_ac_dec_norm d =
     (if d_range d < TQ_AC_TOP
      then tq_ac_dec_norm
             ((fst (tq_ac_get d))\<lparr>d_code := push_bit 8 (d_code d) OR snd (tq_ac_get d),
                                  d_range := push_bit 8 (d_range d)\<rparr>)
      else Some d)"

definition tq_ac_dec_update :: "tq_ac_dec \<Rightarrow> u32 \<Rightarrow> u32 \<Rightarrow> tq_ac_dec option" where
  "tq_ac_dec_update d cum freq =
     tq_ac_dec_norm (d\<lparr>d_code := d_code d - cum * d_r d, d_range := d_r d * freq\<rparr>)"

section \<open>What the proofs speak of\<close>

text \<open>
  \<open>enc_val\<close> is the number the encoder state stands for: the bytes already written, the cache
  byte, the run of deferred bytes as if no carry came, and the 64-bit \<open>low\<close>. \<open>enc_shifts\<close>
  counts the bytes shifted out of \<open>low\<close>. \<open>enc_ok e R\<close> says that an interval of \<open>R\<close> values
  from \<open>low\<close> on can still be carried into the cache.
\<close>

definition low_lo :: "tq_ac_enc \<Rightarrow> nat" where "low_lo e = unat (e_low e) mod 2 ^ 32"

definition low_hi :: "tq_ac_enc \<Rightarrow> nat" where "low_hi e = unat (e_low e) div 2 ^ 32"

definition enc_shifts :: "tq_ac_enc \<Rightarrow> nat" where
  "enc_shifts e = (if e_primed e then 1 else 0) + length (e_buf e) + unat (e_pending e)"

definition enc_val :: "tq_ac_enc \<Rightarrow> nat" where
  "enc_val e =
     ((be_nat (e_buf e) * 256 + unat (e_cache e)) * 256 ^ unat (e_pending e)
       + (256 ^ unat (e_pending e) - 1)) * 2 ^ 32 + unat (e_low e)"

definition enc_ok :: "tq_ac_enc \<Rightarrow> nat \<Rightarrow> bool" where
  "enc_ok e R \<longleftrightarrow>
     0 < R \<and> unat (e_low e) + R \<le> 2 ^ 33 \<and>
     (\<not> e_primed e \<longrightarrow> e_buf e = [] \<and> e_cache e = 0) \<and>
     (unat (e_cache e) * 256 ^ unat (e_pending e) + (256 ^ unat (e_pending e) - 1)) * 2 ^ 32
       + unat (e_low e) + R
     \<le> (if e_primed e then 256 else 1) * 256 ^ unat (e_pending e) * 2 ^ 32"

section \<open>Shifting a byte out\<close>

lemma overflow_put: "e_overflow e \<Longrightarrow> e_overflow (tq_ac_put e b)"
  by (simp add: tq_ac_put_def)

lemma put_keeps [simp]:
  "e_pending (tq_ac_put e b) = e_pending e" "e_low (tq_ac_put e b) = e_low e"
  "e_range (tq_ac_put e b) = e_range e" "e_primed (tq_ac_put e b) = e_primed e"
  "e_cache (tq_ac_put e b) = e_cache e" "e_cap (tq_ac_put e b) = e_cap e"
  "e_finished (tq_ac_put e b) = e_finished e"
  by (simp_all add: tq_ac_put_def)

lemma put_ok: "\<not> e_overflow (tq_ac_put e b) \<Longrightarrow> tq_ac_put e b = e\<lparr>e_buf := e_buf e @ [b]\<rparr>"
  by (auto simp: tq_ac_put_def split: if_splits)

lemma drain_done: "e_pending e = 0 \<Longrightarrow> tq_ac_drain c e = e"
  by (simp add: tq_ac_drain.simps)

lemma drain_step:
  "e_pending e \<noteq> 0 \<Longrightarrow>
   tq_ac_drain c e = tq_ac_drain c ((tq_ac_put e (0xFF + c))\<lparr>e_pending := e_pending e - 1\<rparr>)"
  by (simp add: tq_ac_drain.simps [of c e])

lemma overflow_drain: "e_overflow e \<Longrightarrow> e_overflow (tq_ac_drain c e)"
proof (induction c e rule: tq_ac_drain.induct)
  case (1 c e)
  then show ?case
    by (cases "e_pending e = 0") (simp_all add: drain_step [of e c] drain_done overflow_put)
qed

lemma drain_ok:
  "\<not> e_overflow (tq_ac_drain c e) \<Longrightarrow>
   tq_ac_drain c e = e\<lparr>e_buf := e_buf e @ replicate (unat (e_pending e)) (0xFF + c), e_pending := 0\<rparr>"
proof (induction c e rule: tq_ac_drain.induct)
  case (1 c e)
  show ?case
  proof (cases "e_pending e = 0")
    case True
    then show ?thesis by (simp add: drain_done)
  next
    case False
    let ?e' = "(tq_ac_put e (0xFF + c))\<lparr>e_pending := e_pending e - 1\<rparr>"
    have st: "tq_ac_drain c e = tq_ac_drain c ?e'" using False by (rule drain_step)
    have no: "\<not> e_overflow (tq_ac_drain c ?e')" using "1.prems" st by simp
    then have "\<not> e_overflow ?e'" using overflow_drain by blast
    then have put: "tq_ac_put e (0xFF + c) = e\<lparr>e_buf := e_buf e @ [0xFF + c]\<rparr>"
      by (intro put_ok) simp
    have "tq_ac_drain c ?e' = ?e'\<lparr>e_buf := e_buf ?e' @ replicate (unat (e_pending ?e')) (0xFF + c), e_pending := 0\<rparr>"
      using "1.IH" [OF False] no by simp
    with st put show ?thesis
      by (simp add: unat_pred [OF False] replicate_append_same)
  qed
qed

lemma overflow_shift: "e_overflow e \<Longrightarrow> e_overflow (tq_ac_shift_low e)"
  by (simp add: tq_ac_shift_low_def Let_def overflow_drain overflow_put)

lemma low_split: "unat (e_low e) = low_hi e * 2 ^ 32 + low_lo e"
  by (simp add: low_hi_def low_lo_def)

lemma low_lo_less: "low_lo e < 2 ^ 32"
  by (simp add: low_lo_def)

lemma shift_test:
  assumes "low_hi e < 2"
  shows "((ucast (drop_bit 32 (e_low e)) :: u32) \<noteq> 0 \<or> (ucast (e_low e) :: u32) < 0xFF000000)
           = (low_hi e = 1 \<or> low_lo e < 0xFF000000)"
proof -
  have "unat (ucast (drop_bit 32 (e_low e)) :: u32) = low_hi e"
    using assms by (simp add: word_nat low_hi_def)
  then have "((ucast (drop_bit 32 (e_low e)) :: u32) \<noteq> 0) = (low_hi e = 1)"
    using assms unat_eq_zero [of "ucast (drop_bit 32 (e_low e)) :: u32"] by linarith
  then show ?thesis
    by (simp add: word_less_nat_alt word_nat low_lo_def)
qed

lemma shift_emit:
  assumes hi: "low_hi e < 2" and emit: "low_hi e = 1 \<or> low_lo e < 0xFF000000"
    and ovf: "\<not> e_overflow (tq_ac_shift_low e)"
  shows "e_buf (tq_ac_shift_low e) = e_buf e
           @ (if e_primed e then [e_cache e + word_of_nat (low_hi e)] else [])
           @ replicate (unat (e_pending e)) (255 + word_of_nat (low_hi e))"
    and "unat (e_cache (tq_ac_shift_low e)) = low_lo e div 2 ^ 24"
    and "e_primed (tq_ac_shift_low e)" and "e_pending (tq_ac_shift_low e) = 0"
proof -
  let ?c = "ucast (drop_bit 32 (e_low e)) :: u8"
  have c: "?c = word_of_nat (low_hi e)"
  proof -
    have "unat ?c = low_hi e mod 256" by (simp add: word_nat low_hi_def)
    then have "unat ?c = unat (word_of_nat (low_hi e) :: u8)" by (simp add: unat_of_nat)
    then show ?thesis by (rule unsigned_word_eqI)
  qed
  let ?ea = "if e_primed e then tq_ac_put e (e_cache e + ?c) else e"
  have test: "(ucast (drop_bit 32 (e_low e)) :: u32) \<noteq> 0 \<or> (ucast (e_low e) :: u32) < 0xFF000000"
    using shift_test [OF hi] emit by blast
  then have sh: "tq_ac_shift_low e = (tq_ac_drain ?c ?ea)
      \<lparr>e_cache := ucast (drop_bit 24 (e_low e)), e_primed := True,
       e_low := ucast (push_bit 8 (ucast (e_low e) :: u32))\<rparr>"
    by (simp only: tq_ac_shift_low_def Let_def if_True)
  have no: "\<not> e_overflow (tq_ac_drain ?c ?ea)" using ovf sh by simp
  then have noa: "\<not> e_overflow ?ea" using overflow_drain by blast
  have ea: "?ea = e\<lparr>e_buf := e_buf e @ (if e_primed e then [e_cache e + ?c] else [])\<rparr>"
  proof (cases "e_primed e")
    case True
    then show ?thesis using put_ok [of e "e_cache e + ?c"] noa by simp
  qed simp
  have "tq_ac_drain ?c ?ea = ?ea\<lparr>e_buf := e_buf ?ea @ replicate (unat (e_pending ?ea)) (0xFF + ?c), e_pending := 0\<rparr>"
    by (rule drain_ok [OF no])
  then have dr: "tq_ac_drain ?c ?ea = e\<lparr>e_buf := (e_buf e @ (if e_primed e then [e_cache e + ?c] else []))
       @ replicate (unat (e_pending e)) (0xFF + ?c), e_pending := 0\<rparr>"
    unfolding ea by simp
  show "e_buf (tq_ac_shift_low e) = e_buf e
           @ (if e_primed e then [e_cache e + word_of_nat (low_hi e)] else [])
           @ replicate (unat (e_pending e)) (255 + word_of_nat (low_hi e))"
    by (simp only: sh dr c [symmetric]) simp
  show "e_primed (tq_ac_shift_low e)" "e_pending (tq_ac_shift_low e) = 0"
    by (simp_all add: sh dr)
  have "unat (ucast (drop_bit 24 (e_low e)) :: u8) = low_lo e div 2 ^ 24"
  proof -
    have "(unat (e_low e) div 2 ^ 24) mod 256 = (low_hi e * 256 + low_lo e div 2 ^ 24) mod 256"
    proof -
      have "low_hi e * 2 ^ 32 + low_lo e = low_lo e + (low_hi e * 256) * 2 ^ 24" by simp
      then have "(low_hi e * 2 ^ 32 + low_lo e) div 2 ^ 24 = low_lo e div 2 ^ 24 + low_hi e * 256"
        by (simp only: div_mult_self1) simp
      then show ?thesis unfolding low_split [of e] by (simp only: add.commute)
    qed
    also have "\<dots> = low_lo e div 2 ^ 24 mod 256" by (rule mod_mult_self3)
    also have "\<dots> = low_lo e div 2 ^ 24" using low_lo_less [of e] by simp
    finally show ?thesis by (simp add: word_nat)
  qed
  then show "unat (e_cache (tq_ac_shift_low e)) = low_lo e div 2 ^ 24"
    by (simp add: sh)
qed

lemma shift_hold:
  assumes hi: "low_hi e < 2" and hold: "low_hi e \<noteq> 1" "0xFF000000 \<le> low_lo e"
  shows "e_buf (tq_ac_shift_low e) = e_buf e" "e_cache (tq_ac_shift_low e) = e_cache e"
    "e_primed (tq_ac_shift_low e) = e_primed e" "e_pending (tq_ac_shift_low e) = e_pending e + 1"
    "e_overflow (tq_ac_shift_low e) = e_overflow e"
proof -
  have test: "\<not> ((ucast (drop_bit 32 (e_low e)) :: u32) \<noteq> 0 \<or> (ucast (e_low e) :: u32) < 0xFF000000)"
    using shift_test [OF hi] hold by simp
  then have "tq_ac_shift_low e = e\<lparr>e_pending := e_pending e + 1,
       e_low := ucast (push_bit 8 (ucast (e_low e) :: u32))\<rparr>"
    by (simp only: tq_ac_shift_low_def Let_def if_False)
  then show "e_buf (tq_ac_shift_low e) = e_buf e" "e_cache (tq_ac_shift_low e) = e_cache e"
    "e_primed (tq_ac_shift_low e) = e_primed e" "e_pending (tq_ac_shift_low e) = e_pending e + 1"
    "e_overflow (tq_ac_shift_low e) = e_overflow e" by simp_all
qed

lemma drain_keeps [simp]:
  "e_low (tq_ac_drain c e) = e_low e" "e_range (tq_ac_drain c e) = e_range e"
  "e_cap (tq_ac_drain c e) = e_cap e" "e_finished (tq_ac_drain c e) = e_finished e"
proof (induction c e rule: tq_ac_drain.induct)
  case (1 c e)
  { case 1 then show ?case by (cases "e_pending e = 0") (use "1.IH" in \<open>simp_all add: drain_step [of e c] drain_done\<close>) }
  { case 2 then show ?case by (cases "e_pending e = 0") (use "1.IH" in \<open>simp_all add: drain_step [of e c] drain_done\<close>) }
  { case 3 then show ?case by (cases "e_pending e = 0") (use "1.IH" in \<open>simp_all add: drain_step [of e c] drain_done\<close>) }
  { case 4 then show ?case by (cases "e_pending e = 0") (use "1.IH" in \<open>simp_all add: drain_step [of e c] drain_done\<close>) }
qed

lemma shift_keeps [simp]:
  "e_range (tq_ac_shift_low e) = e_range e" "e_cap (tq_ac_shift_low e) = e_cap e"
  "e_finished (tq_ac_shift_low e) = e_finished e"
  by (simp_all add: tq_ac_shift_low_def Let_def)

lemma shift_low_value: "unat (e_low (tq_ac_shift_low e)) = (low_lo e mod 2 ^ 24) * 256"
proof -
  have "e_low (tq_ac_shift_low e) = ucast (push_bit 8 (ucast (e_low e) :: u32))"
    by (simp add: tq_ac_shift_low_def Let_def)
  then have "unat (e_low (tq_ac_shift_low e)) = (low_lo e * 256) mod 2 ^ 32"
    by (simp add: word_nat low_lo_def)
  also have "\<dots> = (low_lo e mod 2 ^ 24) * 256"
    by (simp add: mod_mult_mult2 [of _ 256 "2^24", simplified])
  finally show ?thesis .
qed

lemma enc_okD:
  assumes "enc_ok e R"
  shows "low_hi e < 2" "low_hi e = 1 \<Longrightarrow> e_primed e \<and> unat (e_cache e) + 1 < 256"
proof -
  have lw: "unat (e_low e) < 2 ^ 33" using assms by (auto simp: enc_ok_def)
  then show "low_hi e < 2" by (simp add: low_hi_def)
  show "low_hi e = 1 \<Longrightarrow> e_primed e \<and> unat (e_cache e) + 1 < 256"
  proof -
    assume h: "low_hi e = 1"
    define P :: nat where "P = 256 ^ unat (e_pending e)"
    have P: "1 \<le> P" by (simp add: P_def)
    have b: "(unat (e_cache e) * P + (P - 1)) * 2 ^ 32 + unat (e_low e) + R
     \<le> (if e_primed e then 256 else 1) * P * 2 ^ 32" and R: "0 < R"
      and np: "\<not> e_primed e \<longrightarrow> e_cache e = 0"
      using assms by (auto simp: enc_ok_def P_def)
    have "2 ^ 32 \<le> unat (e_low e)" using h low_split [of e] by simp
    with b have "(unat (e_cache e) * P + (P - 1)) * 2 ^ 32 + 2 ^ 32 + R \<le> (if e_primed e then 256 else 1) * P * 2 ^ 32"
      by linarith
    moreover have "(unat (e_cache e) * P + (P - 1)) * 2 ^ 32 + 2 ^ 32 = (unat (e_cache e) + 1) * P * 2 ^ 32"
      using P by (simp add: algebra_simps)
    ultimately have "(unat (e_cache e) + 1) * P * 2 ^ 32 < (if e_primed e then 256 else 1) * P * 2 ^ 32"
      using R by linarith
    then show ?thesis
      by (cases "e_primed e") (simp_all only: if_True if_False mult_less_cancel2, simp_all)
  qed
qed

lemma shift_emit_buf:
  assumes ok: "enc_ok e R" and emit: "low_hi e = 1 \<or> low_lo e < 0xFF000000"
    and ovf: "\<not> e_overflow (tq_ac_shift_low e)"
  defines "P \<equiv> 256 ^ unat (e_pending e)"
  shows "be_nat (e_buf (tq_ac_shift_low e)) =
           (be_nat (e_buf e) * 256 + unat (e_cache e)) * P + (if low_hi e = 1 then P else P - 1)"
proof -
  note hi = enc_okD [OF ok]
  have np: "\<not> e_primed e \<Longrightarrow> e_buf e = [] \<and> e_cache e = 0" using ok by (simp add: enc_ok_def)
  note buf = shift_emit(1) [OF hi(1) emit ovf]
  show ?thesis
  proof (cases "low_hi e = 1")
    case True
    have z: "(255::u8) + word_of_nat (low_hi e) = 0" using True by simp
    from True hi(2) have pr: "e_primed e" and c: "unat (e_cache e + 1) = unat (e_cache e) + 1"
      by (simp_all add: unat_add_small)
    show ?thesis
      unfolding buf z using pr c True
      by (simp only: be_nat_append be_nat_replicate_0 be_nat_single if_True True) (simp add: P_def algebra_simps)
  next
    case False
    then have h: "low_hi e = 0" using hi(1) by simp
    show ?thesis
      unfolding buf using np h
      by (cases "e_primed e")
        (simp_all add: be_nat_append be_nat_Cons be_nat_replicate_255 P_def distrib_right mult.assoc
          trans_le_add2)
  qed
qed

lemma hold_arith:
  fixes lo :: nat
  assumes "0xFF000000 \<le> lo" "lo < 2 ^ 32"
  shows "(lo mod 2 ^ 24) * 256 + 255 * 2 ^ 32 = 256 * lo"
proof -
  have "lo div 2 ^ 24 = 255" using assms by simp
  moreover have "lo = (lo div 2 ^ 24) * 2 ^ 24 + lo mod 2 ^ 24" by simp
  ultimately have "lo = 255 * 2 ^ 24 + lo mod 2 ^ 24" by metis
  then show ?thesis by simp
qed

lemma emit_arith:
  fixes lo :: nat
  shows "(lo div 2 ^ 24) * 2 ^ 32 + (lo mod 2 ^ 24) * 256 = 256 * lo"
proof -
  obtain q m where q: "lo div 2 ^ 24 = q" "lo mod 2 ^ 24 = m" by simp
  have "lo = q * 2 ^ 24 + m" unfolding q [symmetric] by (simp only: div_mult_mod_eq)
  then show ?thesis unfolding q by simp
qed

lemma shift_emit_value:
  assumes ok: "enc_ok e R" and emit: "low_hi e = 1 \<or> low_lo e < 0xFF000000"
    and ovf: "\<not> e_overflow (tq_ac_shift_low e)" and R: "R \<le> 2 ^ 24"
  shows "enc_val (tq_ac_shift_low e) = 256 * enc_val e"
    and "enc_shifts (tq_ac_shift_low e) = enc_shifts e + 1"
    and "enc_ok (tq_ac_shift_low e) (256 * R)"
proof -
  let ?s = "tq_ac_shift_low e"
  define P :: nat where "P = 256 ^ unat (e_pending e)"
  define X where "X = be_nat (e_buf e) * 256 + unat (e_cache e)"
  have P: "1 \<le> P" by (simp add: P_def)
  note hi = enc_okD [OF ok]
  note em = shift_emit [OF hi(1) emit ovf]
  have buf: "be_nat (e_buf ?s) = X * P + (if low_hi e = 1 then P else P - 1)"
    using shift_emit_buf [OF ok emit ovf] by (simp add: P_def X_def)
  have "enc_val ?s = (be_nat (e_buf ?s) * 256 + low_lo e div 2 ^ 24) * 2 ^ 32 + (low_lo e mod 2 ^ 24) * 256"
    by (simp add: enc_val_def em shift_low_value)
  also have "\<dots> = be_nat (e_buf ?s) * 256 * 2 ^ 32 + 256 * low_lo e"
    using emit_arith [of "low_lo e"] by (simp add: algebra_simps)
  also have "\<dots> = 256 * ((X * P + (P - 1)) * 2 ^ 32 + (low_hi e * 2 ^ 32 + low_lo e))"
    using hi(1) P unfolding buf by (cases "low_hi e = 1") (auto simp: algebra_simps)
  also have "\<dots> = 256 * enc_val e"
    by (simp only: enc_val_def X_def P_def low_split)
  finally show "enc_val ?s = 256 * enc_val e" .
  have np: "\<not> e_primed e \<Longrightarrow> e_buf e = []" using ok by (simp add: enc_ok_def)
  show "enc_shifts ?s = enc_shifts e + 1"
    using np by (cases "e_primed e") (simp_all add: enc_shifts_def em)
  have lR: "unat (e_low e) + R \<le> 2 ^ 33" and R0: "0 < R" using ok by (simp_all add: enc_ok_def)
  have "low_lo e + R \<le> 2 ^ 32"
    using emit
  proof
    assume "low_hi e = 1" then show ?thesis using lR low_split [of e] by simp
  next
    assume "low_lo e < 0xFF000000" then show ?thesis using R by simp
  qed
  then have "256 * low_lo e + 256 * R \<le> 256 * 2 ^ 32" by simp
  then show "enc_ok ?s (256 * R)"
    using emit_arith [of "low_lo e"] R R0
    by (auto simp: enc_ok_def em shift_low_value)
qed

lemma shift_hold_value:
  assumes ok: "enc_ok e R" and hold: "low_hi e \<noteq> 1" "0xFF000000 \<le> low_lo e"
    and R: "R \<le> 2 ^ 24" and small: "enc_shifts e + 1 < 2 ^ 64"
  shows "enc_val (tq_ac_shift_low e) = 256 * enc_val e"
    and "enc_shifts (tq_ac_shift_low e) = enc_shifts e + 1"
    and "enc_ok (tq_ac_shift_low e) (256 * R)"
proof -
  let ?s = "tq_ac_shift_low e"
  define P :: nat where "P = 256 ^ unat (e_pending e)"
  define X where "X = be_nat (e_buf e) * 256 + unat (e_cache e)"
  have P: "1 \<le> P" by (simp add: P_def)
  note hi = enc_okD [OF ok]
  note h = shift_hold [OF hi(1) hold]
  have p1: "unat (e_pending e + 1) = unat (e_pending e) + 1"
    using unat_add_small [of "e_pending e" 1] small by (simp add: enc_shifts_def)
  have ar: "unat (e_low ?s) + 255 * 2 ^ 32 = 256 * low_lo e"
    using hold_arith [OF hold(2) low_lo_less] by (simp add: shift_low_value)
  have low: "unat (e_low e) = low_lo e" using hi(1) hold low_split [of e] by simp
  have "enc_val ?s = (X * (256 * P) + (256 * P - 1)) * 2 ^ 32 + unat (e_low ?s)"
    by (simp add: enc_val_def h p1 P_def X_def)
  also have "\<dots> = 256 * ((X * P + (P - 1)) * 2 ^ 32 + low_lo e)"
    using ar P by (simp add: algebra_simps)
  also have "\<dots> = 256 * enc_val e" by (simp only: enc_val_def X_def P_def low)
  finally show "enc_val ?s = 256 * enc_val e" .
  show "enc_shifts ?s = enc_shifts e + 1" by (simp add: enc_shifts_def h p1)
  have R0: "0 < R" and np: "\<not> e_primed e \<longrightarrow> e_buf e = [] \<and> e_cache e = 0"
    and b: "(unat (e_cache e) * P + (P - 1)) * 2 ^ 32 + unat (e_low e) + R
     \<le> (if e_primed e then 256 else 1) * P * 2 ^ 32"
    using ok by (auto simp: enc_ok_def P_def)
  have "unat (e_low ?s) + 256 * R \<le> 2 ^ 33" using R by (simp add: shift_low_value)
  moreover have "(unat (e_cache e) * (256 * P) + (256 * P - 1)) * 2 ^ 32 + unat (e_low ?s) + 256 * R
     \<le> (if e_primed e then 256 else 1) * (256 * P) * 2 ^ 32"
  proof -
    have "(unat (e_cache e) * (256 * P) + (256 * P - 1)) * 2 ^ 32 + unat (e_low ?s)
            = 256 * ((unat (e_cache e) * P + (P - 1)) * 2 ^ 32 + low_lo e)"
      using ar P by (simp add: algebra_simps)
    then show ?thesis using b unfolding low by (cases "e_primed e") simp_all
  qed
  ultimately show "enc_ok ?s (256 * R)"
    using R0 np by (simp add: enc_ok_def h p1 P_def)
qed

lemma shift_value:
  assumes ok: "enc_ok e R" and R: "R \<le> 2 ^ 24" and ovf: "\<not> e_overflow (tq_ac_shift_low e)"
    and small: "enc_shifts e + 1 < 2 ^ 64"
  shows "enc_val (tq_ac_shift_low e) = 256 * enc_val e"
    and "enc_shifts (tq_ac_shift_low e) = enc_shifts e + 1"
    and "enc_ok (tq_ac_shift_low e) (256 * R)"
  using shift_emit_value [OF ok _ ovf R] shift_hold_value [OF ok _ _ R small]
  by (cases "low_hi e = 1 \<or> low_lo e < 0xFF000000"; simp)+

lemma drain_room:
  "\<not> e_overflow e \<Longrightarrow> length (e_buf e) + unat (e_pending e) \<le> e_cap e \<Longrightarrow> \<not> e_overflow (tq_ac_drain c e)"
proof (induction c e rule: tq_ac_drain.induct)
  case (1 c e)
  show ?case
  proof (cases "e_pending e = 0")
    case True
    then show ?thesis using "1.prems" by (simp add: drain_done)
  next
    case False
    note p = unat_pred [OF False]
    have "tq_ac_put e (0xFF + c) = e\<lparr>e_buf := e_buf e @ [0xFF + c]\<rparr>"
      using "1.prems" p by (simp add: tq_ac_put_def)
    then show ?thesis using "1.IH" [OF False] "1.prems" p drain_step [OF False] by simp
  qed
qed

lemma shift_room:
  assumes "\<not> e_overflow e" and room: "enc_shifts e \<le> e_cap e"
  shows "\<not> e_overflow (tq_ac_shift_low e)"
proof -
  let ?c = "ucast (drop_bit 32 (e_low e)) :: u8"
  have "\<not> e_overflow (tq_ac_drain ?c (if e_primed e then tq_ac_put e (e_cache e + ?c) else e))"
    using assms by (intro drain_room) (auto simp: tq_ac_put_def enc_shifts_def)
  then show ?thesis using assms by (simp add: tq_ac_shift_low_def Let_def)
qed

lemma enc_ok_mono: "enc_ok e R \<Longrightarrow> 0 < S \<Longrightarrow> S \<le> R \<Longrightarrow> enc_ok e S"
  by (auto simp: enc_ok_def)

text \<open>The fields that matter to \<open>enc_val\<close>, \<open>enc_shifts\<close>, \<open>enc_ok\<close> do not include the range.\<close>

lemma enc_range_irrelevant [simp]:
  "enc_val (e\<lparr>e_range := r\<rparr>) = enc_val e" "enc_shifts (e\<lparr>e_range := r\<rparr>) = enc_shifts e"
  "enc_ok (e\<lparr>e_range := r\<rparr>) R = enc_ok e R"
  by (simp_all add: enc_val_def enc_shifts_def enc_ok_def)

lemma enc_finished_irrelevant [simp]:
  "enc_val (e\<lparr>e_finished := b\<rparr>) = enc_val e" "enc_shifts (e\<lparr>e_finished := b\<rparr>) = enc_shifts e"
  "enc_ok (e\<lparr>e_finished := b\<rparr>) R = enc_ok e R"
  by (simp_all add: enc_val_def enc_shifts_def enc_ok_def)

section \<open>Renormalisation\<close>

definition norm_step :: "tq_ac_enc \<Rightarrow> tq_ac_enc" where
  "norm_step e = (tq_ac_shift_low e)\<lparr>e_range := push_bit 8 (e_range e)\<rparr>"

lemma norm_again: "e_range e < TQ_AC_TOP \<Longrightarrow> tq_ac_enc_norm e = tq_ac_enc_norm (norm_step e)"
  by (simp add: tq_ac_enc_norm.simps [of e] norm_step_def)

lemma norm_done: "\<not> e_range e < TQ_AC_TOP \<Longrightarrow> tq_ac_enc_norm e = Some e"
  by (simp add: tq_ac_enc_norm.simps [of e])

lemma range_small: "(w < TQ_AC_TOP) = (unat w < 2 ^ 24)"
  by (simp add: word_less_nat_alt TQ_AC_TOP_def)

lemma unat_push8: "unat w < 2 ^ 24 \<Longrightarrow> unat (push_bit 8 (w::u32)) = 256 * unat w"
  by (simp add: unat_push_mod)

lemma norm_step_range: "unat (e_range e) < 2 ^ 24 \<Longrightarrow> unat (e_range (norm_step e)) = 256 * unat (e_range e)"
  by (simp add: norm_step_def unat_push8)

text \<open>The loop is a number of steps, at most three, determined by the range alone.\<close>

definition norm_count :: "nat \<Rightarrow> nat" where
  "norm_count r = (if 2 ^ 24 \<le> r then 0 else if 2 ^ 16 \<le> r then 1 else if 2 ^ 8 \<le> r then 2 else 3)"

lemma norm_unroll:
  assumes "0 < unat (e_range e)"
  shows "tq_ac_enc_norm e = Some ((norm_step ^^ norm_count (unat (e_range e))) e)"
proof -
  consider "2 ^ 24 \<le> unat (e_range e)" | "2 ^ 16 \<le> unat (e_range e)" "unat (e_range e) < 2 ^ 24"
    | "2 ^ 8 \<le> unat (e_range e)" "unat (e_range e) < 2 ^ 16" | "unat (e_range e) < 2 ^ 8"
    by linarith
  then show ?thesis
  proof cases
    case 1
    then show ?thesis using norm_done [of e] by (simp add: range_small norm_count_def)
  next
    case 2
    then show ?thesis
      using norm_again [of e] norm_done [of "norm_step e"] norm_step_range [of e]
      by (simp add: range_small norm_count_def)
  next
    case 3
    then show ?thesis
      using norm_again [of e] norm_again [of "norm_step e"] norm_done [of "norm_step (norm_step e)"]
        norm_step_range [of e] norm_step_range [of "norm_step e"]
      by (simp add: range_small norm_count_def funpow2)
  next
    case 4
    then show ?thesis
      using assms norm_again [of e] norm_again [of "norm_step e"] norm_again [of "norm_step (norm_step e)"]
        norm_done [of "norm_step (norm_step (norm_step e))"]
        norm_step_range [of e] norm_step_range [of "norm_step e"] norm_step_range [of "norm_step (norm_step e)"]
      by (simp add: range_small norm_count_def funpow3)
  qed
qed

lemma overflow_norm_steps: "e_overflow e \<Longrightarrow> e_overflow ((norm_step ^^ k) e)"
  by (induction k) (simp_all add: norm_step_def overflow_shift)

lemma norm_steps_keeps [simp]:
  "e_cap ((norm_step ^^ k) e) = e_cap e" "e_finished ((norm_step ^^ k) e) = e_finished e"
  by (induction k) (simp_all add: norm_step_def)

lemma norm_steps_value:
  assumes "enc_ok e (unat (e_range e))" "unat (e_range e) * 256 ^ k < 2 ^ 32"
    and "\<not> e_overflow ((norm_step ^^ k) e)" "enc_shifts e + k < 2 ^ 64"
  shows "enc_val ((norm_step ^^ k) e) = 256 ^ k * enc_val e
    \<and> enc_shifts ((norm_step ^^ k) e) = enc_shifts e + k
    \<and> unat (e_range ((norm_step ^^ k) e)) = 256 ^ k * unat (e_range e)
    \<and> enc_ok ((norm_step ^^ k) e) (256 ^ k * unat (e_range e))"
  using assms
proof (induction k)
  case (Suc k)
  let ?e = "(norm_step ^^ k) e"
  have no: "\<not> e_overflow (tq_ac_shift_low ?e)" using Suc.prems(3) by (simp add: norm_step_def [of ?e])
  then have no': "\<not> e_overflow ?e" using overflow_shift by blast
  have lt: "256 ^ k * unat (e_range e) < 2 ^ 24" using Suc.prems(2) by (simp add: mult.commute)
  have IH: "enc_val ?e = 256 ^ k * enc_val e" "enc_shifts ?e = enc_shifts e + k"
    "unat (e_range ?e) = 256 ^ k * unat (e_range e)" "enc_ok ?e (256 ^ k * unat (e_range e))"
    using Suc.IH [OF Suc.prems(1) _ no'] lt Suc.prems(4) by (simp_all add: mult.commute)
  have sv: "enc_val (tq_ac_shift_low ?e) = 256 * enc_val ?e"
    "enc_shifts (tq_ac_shift_low ?e) = enc_shifts ?e + 1"
    "enc_ok (tq_ac_shift_low ?e) (256 * (256 ^ k * unat (e_range e)))"
    using shift_value [OF IH(4) _ no] lt IH(2) Suc.prems(4) by simp_all
  show ?case
    using sv IH lt by (simp add: norm_step_def [of ?e] unat_push8 mult.assoc)
qed simp

lemma norm_steps_room:
  assumes "enc_ok e (unat (e_range e))" "unat (e_range e) * 256 ^ k < 2 ^ 32"
    and "\<not> e_overflow e" "enc_shifts e + k \<le> e_cap e" "enc_shifts e + k < 2 ^ 64"
  shows "\<not> e_overflow ((norm_step ^^ k) e)"
  using assms
proof (induction k)
  case (Suc k)
  let ?e = "(norm_step ^^ k) e"
  have lt: "unat (e_range e) * 256 ^ k < 2 ^ 32" using Suc.prems(2) by simp
  have no: "\<not> e_overflow ?e" using Suc.IH [OF Suc.prems(1) lt] Suc.prems by simp
  have "enc_shifts ?e = enc_shifts e + k"
    using norm_steps_value [OF Suc.prems(1) lt no] Suc.prems by simp
  then have "\<not> e_overflow (tq_ac_shift_low ?e)" using no Suc.prems by (intro shift_room) simp_all
  then show ?case by (simp add: norm_step_def [of ?e])
qed simp

lemma norm_count_bounds:
  assumes "0 < r" "r < 2 ^ 32"
  shows "r * 256 ^ norm_count r < 2 ^ 32" "2 ^ 24 \<le> 256 ^ norm_count r * r" "norm_count r \<le> 3"
    "2 ^ 8 \<le> r \<Longrightarrow> norm_count r \<le> 2"
  using assms by (auto simp: norm_count_def)


section \<open>Coding a symbol\<close>

text \<open>
  A symbol is a triple \<open>(cum, freq, tot)\<close>. The contract of \<^verbatim>\<open>tq_ac.h\<close>: the interval is not
  empty, lies below the total, and the total is at most \<open>TQ_AC_TOT\<close>.
\<close>

type_synonym ac_sym = "u32 \<times> u32 \<times> u32"

definition sym_ok :: "ac_sym \<Rightarrow> bool" where
  "sym_ok s = (case s of (cum, freq, tot) \<Rightarrow>
     0 < unat freq \<and> unat cum + unat freq \<le> unat tot \<and> unat tot \<le> 2 ^ 16)"

text \<open>The encoder between two symbols.\<close>

definition enc_inv :: "tq_ac_enc \<Rightarrow> bool" where
  "enc_inv e \<longleftrightarrow> enc_ok e (unat (e_range e)) \<and> 2 ^ 24 \<le> unat (e_range e)"

lemma enc_invD: "enc_inv e \<Longrightarrow> enc_ok e (unat (e_range e))" "enc_inv e \<Longrightarrow> 2 ^ 24 \<le> unat (e_range e)"
  by (simp_all add: enc_inv_def)

lemma enc_inv_init: "enc_inv (tq_ac_enc_init cap)"
  by (simp add: enc_inv_def enc_ok_def tq_ac_enc_init_def)

lemma enc_init_simps [simp]:
  "enc_val (tq_ac_enc_init cap) = 0" "enc_shifts (tq_ac_enc_init cap) = 0"
  "e_cap (tq_ac_enc_init cap) = cap" "\<not> e_overflow (tq_ac_enc_init cap)"
  "\<not> e_finished (tq_ac_enc_init cap)" "unat (e_range (tq_ac_enc_init cap)) = 2 ^ 32 - 1"
  by (simp_all add: enc_val_def enc_shifts_def tq_ac_enc_init_def)

definition sym_split :: "tq_ac_enc \<Rightarrow> ac_sym \<Rightarrow> tq_ac_enc" where
  "sym_split e s = (case s of (cum, freq, tot) \<Rightarrow>
     let r = e_range e div tot
     in e\<lparr>e_low := e_low e + ucast r * ucast cum, e_range := r * freq\<rparr>)"

lemma div_interval:
  fixes R tot cum freq :: nat
  assumes "cum + freq \<le> tot"
  shows "(R div tot) * cum + (R div tot) * freq \<le> R"
proof -
  have "(R div tot) * cum + (R div tot) * freq \<le> (R div tot) * tot"
    using assms by (simp add: distrib_left [symmetric])
  also have "\<dots> \<le> R" by simp
  finally show ?thesis .
qed

lemma sym_split_range:
  assumes R: "2 ^ 24 \<le> unat (e_range e)" and s: "sym_ok (cum, freq, tot)"
  defines "r \<equiv> unat (e_range e) div unat tot"
  shows "unat (e_range (sym_split e (cum, freq, tot))) = r * unat freq"
    and "2 ^ 8 \<le> r" and "r * unat cum + r * unat freq \<le> unat (e_range e)"
proof -
  have f: "0 < unat freq" and cf: "unat cum + unat freq \<le> unat tot" and t: "unat tot \<le> 2 ^ 16"
    using s by (simp_all add: sym_ok_def)
  have t0: "0 < unat tot" using f cf by linarith
  show r8: "2 ^ 8 \<le> r"
    using div_le_mono [OF R, of "2 ^ 16"] div_le_mono2 [OF t0 t, of "unat (e_range e)"]
    by (simp add: r_def)
  have rr: "unat (e_range e div tot) = r" by (simp add: r_def word_nat)
  show iv: "r * unat cum + r * unat freq \<le> unat (e_range e)"
    unfolding r_def using cf by (rule div_interval)
  have rl: "unat (e_range e) < 2 ^ 32" using unat32_less [of "e_range e"] by simp
  show rg: "unat (e_range (sym_split e (cum, freq, tot))) = r * unat freq"
    using unat_mult_small [of "e_range e div tot" freq] rr iv rl
    by (simp add: sym_split_def Let_def)
qed

lemma sym_split_value:
  assumes inv: "enc_inv e" and s: "sym_ok (cum, freq, tot)"
  defines "r \<equiv> unat (e_range e) div unat tot"
  shows "enc_val (sym_split e (cum, freq, tot)) = enc_val e + r * unat cum"
    and "unat (e_range (sym_split e (cum, freq, tot))) = r * unat freq"
    and "enc_ok (sym_split e (cum, freq, tot)) (r * unat freq)"
    and "2 ^ 8 \<le> r" and "enc_shifts (sym_split e (cum, freq, tot)) = enc_shifts e"
proof -
  have ok: "enc_ok e (unat (e_range e))" and R: "2 ^ 24 \<le> unat (e_range e)"
    using inv by (simp_all add: enc_inv_def)
  note rg = sym_split_range [OF R s, folded r_def]
  show "unat (e_range (sym_split e (cum, freq, tot))) = r * unat freq" "2 ^ 8 \<le> r" by (rule rg)+
  have f: "0 < unat freq" using s by (simp add: sym_ok_def)
  have rr: "unat (e_range e div tot) = r" by (simp add: r_def word_nat)
  have rl: "unat (e_range e) < 2 ^ 32" using unat32_less [of "e_range e"] by simp
  have lr: "unat (e_low e) + unat (e_range e) \<le> 2 ^ 33" using ok by (simp add: enc_ok_def)
  have m: "unat ((ucast (e_range e div tot) :: u64) * ucast cum) = r * unat cum"
    using unat_mult_small [of "ucast (e_range e div tot) :: u64" "ucast cum"] rr rg(3) rl
      unat32_less [of cum] unat32_less [of "e_range e div tot"]
    by (simp add: word_nat)
  have l: "unat (e_low e + ucast (e_range e div tot) * ucast cum) = unat (e_low e) + r * unat cum"
    using unat_add_small [of "e_low e" "ucast (e_range e div tot) * ucast cum"] m rg(3) lr by simp
  show "enc_val (sym_split e (cum, freq, tot)) = enc_val e + r * unat cum"
    using l by (simp add: sym_split_def Let_def enc_val_def)
  show "enc_shifts (sym_split e (cum, freq, tot)) = enc_shifts e"
    by (simp add: sym_split_def Let_def enc_shifts_def)
  show "enc_ok (sym_split e (cum, freq, tot)) (r * unat freq)"
    using ok f rg l by (auto simp: sym_split_def Let_def enc_ok_def)
qed

lemma sym_split_keeps [simp]:
  "e_cap (sym_split e s) = e_cap e" "e_finished (sym_split e s) = e_finished e"
  "e_overflow (sym_split e s) = e_overflow e"
  by (simp_all add: sym_split_def Let_def split: prod.splits)

text \<open>The number of bytes a symbol shifts out.\<close>

definition sym_shifts :: "tq_ac_enc \<Rightarrow> ac_sym \<Rightarrow> nat" where
  "sym_shifts e s = norm_count (unat (e_range (sym_split e s)))"

lemma enc_sym_unroll:
  assumes R: "2 ^ 24 \<le> unat (e_range e)" and s: "sym_ok (cum, freq, tot)"
  shows "tq_ac_enc_sym e cum freq tot =
           Some ((norm_step ^^ sym_shifts e (cum, freq, tot)) (sym_split e (cum, freq, tot)))"
    and "sym_shifts e (cum, freq, tot) \<le> 2"
    and "unat (e_range (sym_split e (cum, freq, tot))) * 256 ^ sym_shifts e (cum, freq, tot) < 2 ^ 32"
    and "2 ^ 24 \<le> 256 ^ sym_shifts e (cum, freq, tot) * unat (e_range (sym_split e (cum, freq, tot)))"
proof -
  note v = sym_split_range [OF R s]
  let ?s = "sym_split e (cum, freq, tot)"
  have f: "0 < unat freq" and t: "tot \<noteq> 0" using s by (auto simp: sym_ok_def)
  have lo: "2 ^ 8 \<le> unat (e_range ?s)"
    unfolding v(1) using mult_le_mono [OF v(2), of 1 "unat freq"] f by simp
  then have pos: "0 < unat (e_range ?s)" by simp
  note b = norm_count_bounds [OF pos]
  have "tq_ac_enc_sym e cum freq tot = tq_ac_enc_norm ?s"
    using t by (simp add: tq_ac_enc_sym_def sym_split_def Let_def)
  then show "tq_ac_enc_sym e cum freq tot = Some ((norm_step ^^ sym_shifts e (cum, freq, tot)) ?s)"
    using norm_unroll [OF pos] by (simp add: sym_shifts_def)
  show "sym_shifts e (cum, freq, tot) \<le> 2" "unat (e_range ?s) * 256 ^ sym_shifts e (cum, freq, tot) < 2 ^ 32"
    "2 ^ 24 \<le> 256 ^ sym_shifts e (cum, freq, tot) * unat (e_range ?s)"
    using b lo unat32_less [of "e_range ?s"] by (simp_all add: sym_shifts_def)
qed

text \<open>What one symbol does to the number the encoder stands for.\<close>

lemma enc_sym_value:
  assumes inv: "enc_inv e" and s: "sym_ok (cum, freq, tot)" and small: "enc_shifts e + 2 < 2 ^ 64"
    and e': "tq_ac_enc_sym e cum freq tot = Some e'" and ovf: "\<not> e_overflow e'"
  defines "r \<equiv> unat (e_range e) div unat tot" and "k \<equiv> sym_shifts e (cum, freq, tot)"
  shows "enc_val e' = 256 ^ k * (enc_val e + r * unat cum)"
    and "unat (e_range e') = 256 ^ k * (r * unat freq)"
    and "enc_shifts e' = enc_shifts e + k" and "enc_inv e'" and "\<not> e_overflow e"
    and "e_cap e' = e_cap e" and "e_finished e' = e_finished e"
proof -
  note v = sym_split_value [OF inv s]
  note u = enc_sym_unroll [OF enc_invD(2) [OF inv] s]
  have e'k: "e' = (norm_step ^^ k) (sym_split e (cum, freq, tot))" using u(1) e' by (simp add: k_def)
  have small': "enc_shifts e + k < 2 ^ 64" using small u(2) by (simp add: k_def)
  have nv: "enc_val e' = 256 ^ k * enc_val (sym_split e (cum, freq, tot))
    \<and> enc_shifts e' = enc_shifts (sym_split e (cum, freq, tot)) + k
    \<and> unat (e_range e') = 256 ^ k * unat (e_range (sym_split e (cum, freq, tot)))
    \<and> enc_ok e' (256 ^ k * unat (e_range (sym_split e (cum, freq, tot))))"
    using norm_steps_value [of "sym_split e (cum, freq, tot)" k] v(2,3,5) u(3) ovf small'
    by (simp add: e'k k_def)
  then show "enc_val e' = 256 ^ k * (enc_val e + r * unat cum)"
    and "unat (e_range e') = 256 ^ k * (r * unat freq)"
    and "enc_shifts e' = enc_shifts e + k" and "enc_inv e'"
    using v u(4) by (simp_all add: r_def k_def enc_inv_def)
  show "e_cap e' = e_cap e" "e_finished e' = e_finished e" by (simp_all add: e'k)
  show "\<not> e_overflow e" using ovf overflow_norm_steps [of "sym_split e (cum, freq, tot)" k] by (auto simp: e'k)
qed

lemma enc_sym_room:
  assumes inv: "enc_inv e" and s: "sym_ok (cum, freq, tot)" and small: "enc_shifts e + 2 < 2 ^ 64"
    and "\<not> e_overflow e" and "enc_shifts e + 2 \<le> e_cap e"
    and e': "tq_ac_enc_sym e cum freq tot = Some e'"
  shows "\<not> e_overflow e'"
  using norm_steps_room [of "sym_split e (cum, freq, tot)" "sym_shifts e (cum, freq, tot)"]
    sym_split_value [OF inv s] enc_sym_unroll [OF enc_invD(2) [OF inv] s] assms by simp

section \<open>The decoder's view of a message\<close>

text \<open>The first \<open>j\<close> bytes of a message that zeroes follow, as a number.\<close>

definition msg_byte :: "u8 list \<Rightarrow> nat \<Rightarrow> u8" where
  "msg_byte bs j = (if j < length bs then bs ! j else 0)"

definition msg_num :: "u8 list \<Rightarrow> nat \<Rightarrow> nat" where
  "msg_num bs j = be_nat (map (msg_byte bs) [0..<j])"

lemma msg_num_0 [simp]: "msg_num bs 0 = 0"
  by (simp add: msg_num_def)

lemma msg_num_Suc: "msg_num bs (Suc j) = 256 * msg_num bs j + unat (msg_byte bs j)"
  by (simp add: msg_num_def)

lemma msg_num_less: "msg_num bs j < 256 ^ j"
  using be_nat_less [of "map (msg_byte bs) [0..<j]"] by (simp add: msg_num_def)

lemma msg_num_div: "msg_num bs (j + k) div 256 ^ k = msg_num bs j"
proof (induction k)
  case (Suc k)
  have "msg_num bs (j + Suc k) div 256 = msg_num bs (j + k)"
    using unat8_less [of "msg_byte bs (j + k)"] by (simp add: msg_num_Suc)
  then show ?case using Suc by (simp add: div_mult2_eq)
qed simp

lemma msg_num_length: "msg_num bs (length bs) = be_nat bs"
proof -
  have "map (msg_byte bs) [0..<length bs] = bs"
    by (rule nth_equalityI) (simp_all add: msg_byte_def)
  then show ?thesis by (simp add: msg_num_def)
qed

lemma msg_num_zeroes: "msg_num (bs @ replicate k 0) = msg_num bs"
proof -
  have *: "msg_byte (bs @ replicate k 0) = msg_byte bs"
    by (auto simp: msg_byte_def nth_append fun_eq_iff)
  show ?thesis by (rule ext) (simp only: msg_num_def *)
qed

text \<open>The interval the encoder still allows contains the message.\<close>

definition msg_in :: "u8 list \<Rightarrow> tq_ac_enc \<Rightarrow> bool" where
  "msg_in bs e \<longleftrightarrow>
     enc_val e \<le> msg_num bs (4 + enc_shifts e) \<and>
     msg_num bs (4 + enc_shifts e) < enc_val e + unat (e_range e)"

lemma msg_in_back:
  assumes inv: "enc_inv e" and s: "sym_ok (cum, freq, tot)" and small: "enc_shifts e + 2 < 2 ^ 64"
    and e': "tq_ac_enc_sym e cum freq tot = Some e'" and ovf: "\<not> e_overflow e'"
    and m: "msg_in bs e'"
  defines "r \<equiv> unat (e_range e) div unat tot"
  shows "enc_val e + r * unat cum \<le> msg_num bs (4 + enc_shifts e)"
    and "msg_num bs (4 + enc_shifts e) < enc_val e + r * unat cum + r * unat freq"
    and "msg_in bs e"
proof -
  define k where "k = sym_shifts e (cum, freq, tot)"
  note v = enc_sym_value [OF inv s small e' ovf, folded k_def r_def]
  let ?D = "msg_num bs (4 + enc_shifts e)" and ?D' = "msg_num bs (4 + enc_shifts e')"
  have D: "?D = ?D' div 256 ^ k"
    using msg_num_div [of bs "4 + enc_shifts e" k] by (simp add: v(3) add.assoc)
  have lo: "256 ^ k * (enc_val e + r * unat cum) \<le> ?D'"
    and hi: "?D' < 256 ^ k * (enc_val e + r * unat cum + r * unat freq)"
    using m v(1,2) by (simp_all add: msg_in_def distrib_left)
  show 1: "enc_val e + r * unat cum \<le> ?D"
    unfolding D using lo by (simp add: less_eq_div_iff_mult_less_eq mult.commute)
  show 2: "?D < enc_val e + r * unat cum + r * unat freq"
    unfolding D using hi by (simp add: div_less_iff_less_mult mult.commute)
  have "r * unat cum + r * unat freq \<le> unat (e_range e)"
    unfolding r_def using s by (intro div_interval) (simp add: sym_ok_def)
  then show "msg_in bs e" using 1 2 by (simp add: msg_in_def)
qed

section \<open>Decoder and encoder in step\<close>

definition in_sync :: "u8 list \<Rightarrow> tq_ac_enc \<Rightarrow> tq_ac_dec \<Rightarrow> bool" where
  "in_sync bs e d \<longleftrightarrow>
     d_buf d = bs \<and> d_pos d = min (length bs) (4 + enc_shifts e) \<and>
     d_range d = e_range e \<and> unat (d_code d) + enc_val e = msg_num bs (4 + enc_shifts e)"

definition dec_step :: "tq_ac_dec \<Rightarrow> tq_ac_dec" where
  "dec_step d = (fst (tq_ac_get d))
     \<lparr>d_code := push_bit 8 (d_code d) OR snd (tq_ac_get d), d_range := push_bit 8 (d_range d)\<rparr>"

lemma dec_norm_again: "d_range d < TQ_AC_TOP \<Longrightarrow> tq_ac_dec_norm d = tq_ac_dec_norm (dec_step d)"
  by (simp add: tq_ac_dec_norm.simps [of d] dec_step_def)

lemma dec_norm_done: "\<not> d_range d < TQ_AC_TOP \<Longrightarrow> tq_ac_dec_norm d = Some d"
  by (simp add: tq_ac_dec_norm.simps [of d])

lemma dec_step_range: "unat (d_range d) < 2 ^ 24 \<Longrightarrow> unat (d_range (dec_step d)) = 256 * unat (d_range d)"
  by (simp add: dec_step_def unat_push8)

lemma dec_norm_unroll:
  assumes "0 < unat (d_range d)"
  shows "tq_ac_dec_norm d = Some ((dec_step ^^ norm_count (unat (d_range d))) d)"
proof -
  consider "2 ^ 24 \<le> unat (d_range d)" | "2 ^ 16 \<le> unat (d_range d)" "unat (d_range d) < 2 ^ 24"
    | "2 ^ 8 \<le> unat (d_range d)" "unat (d_range d) < 2 ^ 16" | "unat (d_range d) < 2 ^ 8"
    by linarith
  then show ?thesis
  proof cases
    case 1
    then show ?thesis using dec_norm_done [of d] by (simp add: range_small norm_count_def)
  next
    case 2
    then show ?thesis
      using dec_norm_again [of d] dec_norm_done [of "dec_step d"] dec_step_range [of d]
      by (simp add: range_small norm_count_def)
  next
    case 3
    then show ?thesis
      using dec_norm_again [of d] dec_norm_again [of "dec_step d"] dec_norm_done [of "dec_step (dec_step d)"]
        dec_step_range [of d] dec_step_range [of "dec_step d"]
      by (simp add: range_small norm_count_def funpow2)
  next
    case 4
    then show ?thesis
      using assms dec_norm_again [of d] dec_norm_again [of "dec_step d"] dec_norm_again [of "dec_step (dec_step d)"]
        dec_norm_done [of "dec_step (dec_step (dec_step d))"]
        dec_step_range [of d] dec_step_range [of "dec_step d"] dec_step_range [of "dec_step (dec_step d)"]
      by (simp add: range_small norm_count_def funpow3)
  qed
qed

text \<open>One byte read: the code is the message less a multiple of the number already coded.\<close>

lemma dec_step_code:
  assumes "d_buf d = bs" "d_pos d = min (length bs) p" "unat (d_code d) < 2 ^ 24"
    and "unat (d_code d) + v = msg_num bs p"
  shows "d_buf (dec_step d) = bs" "d_pos (dec_step d) = min (length bs) (p + 1)"
    and "unat (d_code (dec_step d)) + 256 * v = msg_num bs (p + 1)"
    and "unat (d_code (dec_step d)) < 256 * unat (d_code d) + 256"
proof -
  have g: "snd (tq_ac_get d) = ucast (msg_byte bs p)"
    using assms(1,2) by (auto simp: tq_ac_get_def msg_byte_def min_def)
  have b: "unat (ucast (msg_byte bs p) :: u32) = unat (msg_byte bs p)"
    using unat8_less [of "msg_byte bs p"] by (simp add: word_nat)
  have "unat (push_bit 8 (d_code d) OR (ucast (msg_byte bs p) :: u32)) = unat (d_code d) * 2 ^ 8 + unat (ucast (msg_byte bs p) :: u32)"
    using assms(3) unat8_less [of "msg_byte bs p"] by (intro unat_push_or) (simp_all add: b)
  then have c: "unat (d_code (dec_step d)) = unat (d_code d) * 256 + unat (msg_byte bs p)"
    by (simp add: dec_step_def g b)
  show "d_buf (dec_step d) = bs" "d_pos (dec_step d) = min (length bs) (p + 1)"
    using assms(1,2) by (auto simp: dec_step_def tq_ac_get_def min_def)
  show "unat (d_code (dec_step d)) + 256 * v = msg_num bs (p + 1)"
    using assms(4) c by (simp add: msg_num_Suc)
  show "unat (d_code (dec_step d)) < 256 * unat (d_code d) + 256"
    using c unat8_less [of "msg_byte bs p"] by simp
qed

lemma dec_steps_code:
  assumes "d_buf d = bs" "d_pos d = min (length bs) p" "unat (d_code d) + v = msg_num bs p"
    and "unat (d_code d) < unat (d_range d)" "unat (d_range d) * 256 ^ k < 2 ^ 32"
  shows "d_buf ((dec_step ^^ k) d) = bs \<and> d_pos ((dec_step ^^ k) d) = min (length bs) (p + k)
    \<and> unat (d_code ((dec_step ^^ k) d)) + 256 ^ k * v = msg_num bs (p + k)
    \<and> unat (d_range ((dec_step ^^ k) d)) = 256 ^ k * unat (d_range d)
    \<and> unat (d_code ((dec_step ^^ k) d)) < 256 ^ k * unat (d_range d)"
  using assms
proof (induction k)
  case (Suc k)
  let ?d = "(dec_step ^^ k) d"
  have lt: "256 ^ k * unat (d_range d) < 2 ^ 24" using Suc.prems(5) by (simp add: mult.commute)
  then have IH: "d_buf ?d = bs" "d_pos ?d = min (length bs) (p + k)"
    "unat (d_code ?d) + 256 ^ k * v = msg_num bs (p + k)"
    "unat (d_range ?d) = 256 ^ k * unat (d_range d)" "unat (d_code ?d) < 256 ^ k * unat (d_range d)"
    using Suc.IH [OF Suc.prems(1-4)] by (simp_all add: mult.commute)
  note st = dec_step_code [OF IH(1,2) _ IH(3)]
  show ?case using st IH lt dec_step_range [of ?d] by (simp add: mult.assoc)
qed simp


lemma dec_symbol:
  assumes inv: "enc_inv e" and s: "sym_ok (cum, freq, tot)" and small: "enc_shifts e + 2 < 2 ^ 64"
    and e': "tq_ac_enc_sym e cum freq tot = Some e'" and ovf: "\<not> e_overflow e'"
    and m: "msg_in bs e'" and sync: "in_sync bs e d"
  shows "cum \<le> snd (tq_ac_dec_target d tot)" "snd (tq_ac_dec_target d tot) < cum + freq"
    "\<exists>d'. tq_ac_dec_update (fst (tq_ac_dec_target d tot)) cum freq = Some d' \<and> in_sync bs e' d'"
proof -
  define r where "r = unat (e_range e) div unat tot"
  define k where "k = sym_shifts e (cum, freq, tot)"
  note v = enc_sym_value [OF inv s small e' ovf, folded k_def r_def]
  note sp = sym_split_value [OF inv s, folded r_def]
  note u = enc_sym_unroll [OF enc_invD(2) [OF inv] s]
  note b = msg_in_back [OF inv s small e' ovf m, folded r_def]
  have f: "0 < unat freq" and cf: "unat cum + unat freq \<le> unat tot" and t: "unat tot \<le> 2 ^ 16"
    using s by (simp_all add: sym_ok_def)
  have sy: "d_buf d = bs" "d_pos d = min (length bs) (4 + enc_shifts e)" "d_range d = e_range e"
    "unat (d_code d) + enc_val e = msg_num bs (4 + enc_shifts e)"
    using sync by (simp_all add: in_sync_def)
  have r: "unat (d_range d div tot) = r" by (simp add: word_nat r_def sy)
  have c1: "r * unat cum \<le> unat (d_code d)" and c2: "unat (d_code d) < r * (unat cum + unat freq)"
    using b(1,2) sy(4) by (simp_all add: distrib_left)
  define q where "q = d_code d div (d_range d div tot)"
  have uq: "unat q = unat (d_code d) div r" unfolding q_def unat_div [of "d_code d" "d_range d div tot"] r ..
  have q1: "unat cum \<le> unat q"
    unfolding uq using c1 sp(4) by (simp add: less_eq_div_iff_mult_less_eq mult.commute)
  have q2: "unat q < unat cum + unat freq"
    unfolding uq using c2 sp(4) by (simp add: div_less_iff_less_mult mult.commute)
  have nt: "\<not> tot \<le> q" using q2 cf by (simp add: word_le_nat_alt)
  then have tg: "tq_ac_dec_target d tot = (d\<lparr>d_r := d_range d div tot\<rparr>, q)"
    by (simp add: tq_ac_dec_target_def Let_def q_def)
  have ucf: "unat (cum + freq) = unat cum + unat freq"
    using cf t by (intro unat_add_small) simp
  show "cum \<le> snd (tq_ac_dec_target d tot)" "snd (tq_ac_dec_target d tot) < cum + freq"
    using q1 q2 ucf by (simp_all add: tg word_le_nat_alt word_less_nat_alt)
  let ?d = "d\<lparr>d_r := d_range d div tot, d_code := d_code d - cum * (d_range d div tot), d_range := d_range d div tot * freq\<rparr>"
  have cl: "unat (d_code d) < 2 ^ 32" using unat32_less [of "d_code d"] by simp
  have um: "unat (cum * (d_range d div tot)) = r * unat cum"
    using unat_mult_small [of cum "d_range d div tot"] c1 cl by (simp add: r mult.commute)
  have uc: "unat (d_code ?d) = unat (d_code d) - r * unat cum"
    using unat_sub_small [of "cum * (d_range d div tot)" "d_code d"] c1 by (simp add: um)
  have dr: "d_range ?d = e_range (sym_split e (cum, freq, tot))"
    by (simp add: sym_split_def Let_def sy)
  have ur: "unat (d_range ?d) = r * unat freq" unfolding dr by (rule sp(2))
  have pos: "0 < unat (d_range ?d)" unfolding ur using sp(4) f by simp
  have k: "k = norm_count (unat (d_range ?d))" by (simp add: k_def sym_shifts_def dr del: select_convs)
  have up: "tq_ac_dec_update (fst (tq_ac_dec_target d tot)) cum freq = Some ((dec_step ^^ k) ?d)"
    using dec_norm_unroll [OF pos] by (simp add: tq_ac_dec_update_def tg k)
  have st: "d_buf ((dec_step ^^ k) ?d) = bs \<and> d_pos ((dec_step ^^ k) ?d) = min (length bs) (4 + enc_shifts e + k)
    \<and> unat (d_code ((dec_step ^^ k) ?d)) + 256 ^ k * (enc_val e + r * unat cum) = msg_num bs (4 + enc_shifts e + k)
    \<and> unat (d_range ((dec_step ^^ k) ?d)) = 256 ^ k * unat (d_range ?d)
    \<and> unat (d_code ((dec_step ^^ k) ?d)) < 256 ^ k * unat (d_range ?d)"
  proof (rule dec_steps_code)
    show "d_buf ?d = bs" "d_pos ?d = min (length bs) (4 + enc_shifts e)" by (simp_all add: sy)
    show "unat (d_code ?d) + (enc_val e + r * unat cum) = msg_num bs (4 + enc_shifts e)"
      unfolding uc using sy(4) c1 by simp
    show "unat (d_code ?d) < unat (d_range ?d)"
      unfolding uc ur using c1 c2 by (simp add: distrib_left)
    show "unat (d_range ?d) * 256 ^ k < 2 ^ 32" unfolding dr k_def by (rule u(3))
  qed
  have "d_range ((dec_step ^^ k) ?d) = e_range e'"
    using st ur v(2) by (simp add: word_unat_eq_iff)
  then have "in_sync bs e' ((dec_step ^^ k) ?d)"
    using st v(1,3) by (simp add: in_sync_def add.assoc)
  then show "\<exists>d'. tq_ac_dec_update (fst (tq_ac_dec_target d tot)) cum freq = Some d' \<and> in_sync bs e' d'"
    using up by blast
qed

lemma dec_load_code:
  assumes "d_pos d = min (length (d_buf d)) p" "unat (d_code d) = msg_num (d_buf d) p" "p < 4"
  shows "d_buf (tq_ac_dec_load d) = d_buf d" "d_range (tq_ac_dec_load d) = d_range d"
    "d_pos (tq_ac_dec_load d) = min (length (d_buf d)) (Suc p)"
    "unat (d_code (tq_ac_dec_load d)) = msg_num (d_buf d) (Suc p)"
proof -
  show "d_buf (tq_ac_dec_load d) = d_buf d" "d_range (tq_ac_dec_load d) = d_range d"
    "d_pos (tq_ac_dec_load d) = min (length (d_buf d)) (Suc p)"
    using assms(1) by (auto simp: tq_ac_dec_load_def min_def)
  have c: "d_code (tq_ac_dec_load d) = push_bit 8 (d_code d) OR ucast (msg_byte (d_buf d) p)"
    using assms(1) by (auto simp: tq_ac_dec_load_def msg_byte_def min_def)
  have b: "unat (ucast (msg_byte (d_buf d) p) :: u32) = unat (msg_byte (d_buf d) p)"
    using unat8_less [of "msg_byte (d_buf d) p"] by (simp add: word_nat)
  have "(256::nat) ^ p \<le> 256 ^ 3" using assms(3) by (intro power_increasing) simp_all
  then have lt: "unat (d_code d) < 2 ^ 24" using msg_num_less [of "d_buf d" p] assms(2) by simp
  then have "unat (push_bit 8 (d_code d) OR (ucast (msg_byte (d_buf d) p) :: u32)) = unat (d_code d) * 2 ^ 8 + unat (ucast (msg_byte (d_buf d) p) :: u32)"
    using unat8_less [of "msg_byte (d_buf d) p"] by (intro unat_push_or) (simp_all add: b)
  then show "unat (d_code (tq_ac_dec_load d)) = msg_num (d_buf d) (Suc p)"
    using assms(2) by (simp add: c b msg_num_Suc)
qed

lemma dec_init_loads:
  "k \<le> 4 \<Longrightarrow> (let d = (tq_ac_dec_load ^^ k)
       \<lparr>d_buf = bs, d_pos = 0, d_range = 0xFFFFFFFF, d_code = 0, d_r = 0, d_starved = False\<rparr>
   in d_buf d = bs \<and> d_range d = 0xFFFFFFFF \<and> d_pos d = min (length bs) k \<and> unat (d_code d) = msg_num bs k)"
  by (induction k) (simp_all add: Let_def dec_load_code)

lemma dec_init_sync: "in_sync bs (tq_ac_enc_init cap) (tq_ac_dec_init bs)"
  using dec_init_loads [of 4 bs]
  by (simp add: in_sync_def tq_ac_dec_init_def Let_def) (simp add: tq_ac_enc_init_def)

section \<open>The flush\<close>

lemma round_up_24:
  fixes x :: nat
  shows "x \<le> (x + 0xFFFFFF) div 2 ^ 24 * 2 ^ 24 \<and> (x + 0xFFFFFF) div 2 ^ 24 * 2 ^ 24 < x + 2 ^ 24
    \<and> (x + 0xFFFFFF) div 2 ^ 24 * 2 ^ 24 mod 2 ^ 24 = 0"
proof -
  obtain q m where q: "(x + 0xFFFFFF) div 2 ^ 24 = q" "(x + 0xFFFFFF) mod 2 ^ 24 = m" by simp
  have "x + 0xFFFFFF = q * 2 ^ 24 + m" unfolding q [symmetric] by (simp only: div_mult_mod_eq)
  moreover have "m < 2 ^ 24" unfolding q [symmetric] by simp
  ultimately show ?thesis unfolding q by simp
qed

lemma round_first:
  assumes "enc_ok e (unat (e_range e))" "2 ^ 24 \<le> unat (e_range e)"
  defines "v \<equiv> tq_ac_round [1, 2, 3, 4] (e_low e) (e_range e)"
  shows "unat v mod 2 ^ 24 = 0" "unat (e_low e) \<le> unat v" "unat v < unat (e_low e) + unat (e_range e)"
proof -
  let ?v = "(e_low e + 0xFFFFFF) AND NOT 0xFFFFFF"
  have lr: "unat (e_low e) + unat (e_range e) \<le> 2 ^ 33" using assms(1) by (simp add: enc_ok_def)
  have a: "unat (e_low e + 0xFFFFFF) = unat (e_low e) + 0xFFFFFF"
    using unat_add_small [of "e_low e" "0xFFFFFF"] lr assms(2) by simp
  have m: "(0xFFFFFF :: u64) = mask 24" by (simp add: mask_eq_exp_minus_1)
  have "?v = push_bit 24 (drop_bit 24 (e_low e + 0xFFFFFF))"
    unfolding m by (rule bit_word_eqI) (auto simp: bit_simps)
  moreover have "unat (push_bit 24 (drop_bit 24 (e_low e + 0xFFFFFF))) = (unat (e_low e) + 0xFFFFFF) div 2 ^ 24 * 2 ^ 24"
    unfolding unat_push_mod unat_drop_div a using lr assms(2) by (intro mod_less) simp
  ultimately have v: "unat ?v = (unat (e_low e) + 0xFFFFFF) div 2 ^ 24 * 2 ^ 24" by simp
  have al: "unat (e_low e) \<le> unat ?v \<and> unat ?v < unat (e_low e) + 2 ^ 24 \<and> unat ?v mod 2 ^ 24 = 0"
    unfolding v by (rule round_up_24)
  have "unat (ucast (e_range e) :: u64) = unat (e_range e)"
    using unat32_less [of "e_range e"] by (simp add: word_nat)
  then have "unat (e_low e + ucast (e_range e)) = unat (e_low e) + unat (e_range e)"
    using unat_add_small [of "e_low e" "ucast (e_range e)"] lr by simp
  then have "?v < e_low e + ucast (e_range e)"
    using al assms(2) by (simp add: word_less_nat_alt)
  then have "v = ?v" unfolding v_def by (simp add: Let_def)
  then show "unat v mod 2 ^ 24 = 0" "unat (e_low e) \<le> unat v" "unat v < unat (e_low e) + unat (e_range e)"
    using al assms(2) by simp_all
qed

lemma shift_zero:
  assumes "e_low e = 0" and ovf: "\<not> e_overflow (tq_ac_shift_low e)"
  shows "e_low (tq_ac_shift_low e) = 0" "e_cache (tq_ac_shift_low e) = 0"
    "e_primed (tq_ac_shift_low e)" "e_pending (tq_ac_shift_low e) = 0"
    "e_buf (tq_ac_shift_low e) = e_buf e @ (if e_primed e then [e_cache e] else [])
       @ replicate (unat (e_pending e)) 255"
proof -
  have h: "low_hi e = 0" "low_lo e = 0" using assms(1) by (simp_all add: low_hi_def low_lo_def)
  then have hi: "low_hi e < 2" and em: "low_hi e = 1 \<or> low_lo e < 0xFF000000" by simp_all
  note s = shift_emit [OF hi em ovf]
  show "e_low (tq_ac_shift_low e) = 0"
    using shift_low_value [of e] h by (simp add: unat_eq_0)
  show "e_cache (tq_ac_shift_low e) = 0" using s(2) h by (simp add: unat_eq_0)
  show "e_primed (tq_ac_shift_low e)" "e_pending (tq_ac_shift_low e) = 0" by (rule s)+
  show "e_buf (tq_ac_shift_low e) = e_buf e @ (if e_primed e then [e_cache e] else [])
       @ replicate (unat (e_pending e)) 255"
    unfolding s(1) h by simp
qed

lemma funpow5: "(f ^^ 5) x = f (f (f (f (f x))))"
  by (simp add: eval_nat_numeral)

lemma flush_five:
  assumes ok: "enc_ok e 1" and al: "unat (e_low e) mod 2 ^ 24 = 0"
    and ovf: "\<not> e_overflow ((tq_ac_shift_low ^^ 5) e)" and small: "enc_shifts e + 5 < 2 ^ 64"
  shows "be_nat (e_buf ((tq_ac_shift_low ^^ 5) e)) = enc_val e"
    and "length (e_buf ((tq_ac_shift_low ^^ 5) e)) = enc_shifts e + 4"
    and "\<exists>X. e_buf ((tq_ac_shift_low ^^ 5) e) = X @ [0, 0, 0]"
proof -
  let ?s1 = "tq_ac_shift_low e" let ?s2 = "tq_ac_shift_low ?s1" let ?s3 = "tq_ac_shift_low ?s2"
  let ?s4 = "tq_ac_shift_low ?s3" let ?s5 = "tq_ac_shift_low ?s4"
  have o5: "\<not> e_overflow ?s5" using ovf by (simp add: funpow5)
  then have o4: "\<not> e_overflow ?s4" using overflow_shift by blast
  then have o3: "\<not> e_overflow ?s3" using overflow_shift by blast
  then have o2: "\<not> e_overflow ?s2" using overflow_shift by blast
  then have o1: "\<not> e_overflow ?s1" using overflow_shift by blast
  have ok': "enc_ok s (256 * 1) \<Longrightarrow> enc_ok s 1" for s using enc_ok_mono [of s "256 * 1" 1] by simp
  note v1 = shift_value [OF ok _ o1] note k1 = ok' [OF v1(3)]
  note v2 = shift_value [OF k1 _ o2] note k2 = ok' [OF v2(3)]
  note v3 = shift_value [OF k2 _ o3] note k3 = ok' [OF v3(3)]
  note v4 = shift_value [OF k3 _ o4] note k4 = ok' [OF v4(3)]
  note v5 = shift_value [OF k4 _ o5]
  have n1: "enc_shifts ?s1 = enc_shifts e + 1" and w1: "enc_val ?s1 = 256 * enc_val e"
    using v1 small by simp_all
  have n2: "enc_shifts ?s2 = enc_shifts e + 2" and w2: "enc_val ?s2 = 256 * enc_val ?s1"
    using v2 small n1 v1 by simp_all
  have n3: "enc_shifts ?s3 = enc_shifts e + 3" and w3: "enc_val ?s3 = 256 * enc_val ?s2"
    using v3 small n1 n2 v1 v2 by simp_all
  have n4: "enc_shifts ?s4 = enc_shifts e + 4" and w4: "enc_val ?s4 = 256 * enc_val ?s3"
    using v4 small n1 n2 n3 v1 v2 v3 by simp_all
  have n5: "enc_shifts ?s5 = enc_shifts e + 5" and w5: "enc_val ?s5 = 256 * enc_val ?s4"
    using v5 small n1 n2 n3 n4 v1 v2 v3 v4 by simp_all
  have "low_lo e mod 2 ^ 24 = unat (e_low e) mod 2 ^ 24"
    unfolding low_lo_def by (simp add: mod_mod_cancel)
  then have z1: "e_low ?s1 = 0" using shift_low_value [of e] al by (simp add: unat_eq_0)
  note z2 = shift_zero [OF z1 o2]
  note z3 = shift_zero [OF z2(1) o3]
  note z4 = shift_zero [OF z3(1) o4]
  note z5 = shift_zero [OF z4(1) o5]
  have f: "(tq_ac_shift_low ^^ 5) e = ?s5" by (rule funpow5)
  have "enc_val ?s5 = be_nat (e_buf ?s5) * 256 * 2 ^ 32"
    using z5 by (simp add: enc_val_def)
  moreover have "enc_val ?s5 = 256 ^ 5 * enc_val e" using w1 w2 w3 w4 w5 by simp
  ultimately show "be_nat (e_buf ((tq_ac_shift_low ^^ 5) e)) = enc_val e" unfolding f by simp
  show "length (e_buf ((tq_ac_shift_low ^^ 5) e)) = enc_shifts e + 4"
    unfolding f using n5 z5 by (simp add: enc_shifts_def)
  have "e_buf ?s5 = e_buf ?s2 @ [0, 0, 0]" using z2 z3 z4 z5 by simp
  then show "\<exists>X. e_buf ((tq_ac_shift_low ^^ 5) e) = X @ [0, 0, 0]" unfolding f by blast
qed

lemma flush_room:
  assumes ok: "enc_ok e 1" and "\<not> e_overflow e" and "enc_shifts e + 4 \<le> e_cap e" and "enc_shifts e + 5 < 2 ^ 64"
  shows "\<not> e_overflow ((tq_ac_shift_low ^^ 5) e)"
proof -
  have "k \<le> 5 \<Longrightarrow> \<not> e_overflow ((tq_ac_shift_low ^^ k) e) \<and> enc_ok ((tq_ac_shift_low ^^ k) e) 1
      \<and> enc_shifts ((tq_ac_shift_low ^^ k) e) = enc_shifts e + k \<and> e_cap ((tq_ac_shift_low ^^ k) e) = e_cap e" for k
  proof (induction k)
    case (Suc k)
    let ?e = "(tq_ac_shift_low ^^ k) e"
    have no: "\<not> e_overflow (tq_ac_shift_low ?e)" using Suc assms by (intro shift_room) auto
    have "enc_ok (tq_ac_shift_low ?e) (256 * 1)" "enc_shifts (tq_ac_shift_low ?e) = enc_shifts ?e + 1"
      using shift_value [OF _ _ no, of 1] Suc assms by simp_all
    then show ?case using Suc no enc_ok_mono [of "tq_ac_shift_low ?e" "256 * 1" 1] by simp
  qed (use assms in simp)
  then show ?thesis by blast
qed

lemma trim_zeroes: "\<exists>k. buf = tq_ac_trim buf @ replicate k 0"
proof (induction buf rule: tq_ac_trim.induct)
  case (1 buf)
  show ?case
  proof (cases "0 < length buf \<and> buf ! (length buf - 1) = 0")
    case True
    then obtain k where k: "butlast buf = tq_ac_trim (butlast buf) @ replicate k 0"
      using 1 by blast
    have t: "tq_ac_trim buf = tq_ac_trim (butlast buf)" using True by (simp add: tq_ac_trim.simps [of buf])
    have "buf = butlast buf @ [0]" using True append_butlast_last_id [of buf] by (simp add: last_conv_nth)
    then have "buf = tq_ac_trim buf @ replicate (Suc k) 0"
      using k t by (metis append_assoc replicate_append_same replicate_Suc)
    then show ?thesis by blast
  next
    case False
    then have "tq_ac_trim buf = buf" by (subst tq_ac_trim.simps) (simp only: if_False)
    then show ?thesis by (intro exI [of _ 0]) simp
  qed
qed

lemma trim_last: "tq_ac_trim buf \<noteq> [] \<Longrightarrow> last (tq_ac_trim buf) \<noteq> 0"
proof (induction buf rule: tq_ac_trim.induct)
  case (1 buf)
  then show ?case
    by (cases "0 < length buf \<and> buf ! (length buf - 1) = 0")
      (auto simp: tq_ac_trim.simps [of buf] last_conv_nth)
qed

lemma trim_snoc_0: "tq_ac_trim (xs @ [0]) = tq_ac_trim xs"
  by (simp add: tq_ac_trim.simps [of "xs @ [0]"])

lemma trim_length: "length (tq_ac_trim buf) \<le> length buf"
  using trim_zeroes [of buf] by (metis le_add1 length_append)

lemma msg_num_trim: "msg_num (tq_ac_trim buf) = msg_num buf"
  using trim_zeroes [of buf] msg_num_zeroes by metis

definition enc_rounded :: "tq_ac_enc \<Rightarrow> tq_ac_enc" where
  "enc_rounded e = e\<lparr>e_finished := True, e_low := tq_ac_round [1, 2, 3, 4] (e_low e) (e_range e)\<rparr>"

lemma enc_rounded_ok:
  assumes "enc_inv e"
  shows "enc_ok (enc_rounded e) 1" "unat (e_low (enc_rounded e)) mod 2 ^ 24 = 0"
    "enc_val e \<le> enc_val (enc_rounded e)" "enc_val (enc_rounded e) < enc_val e + unat (e_range e)"
    "enc_shifts (enc_rounded e) = enc_shifts e" "e_overflow (enc_rounded e) = e_overflow e"
    "e_cap (enc_rounded e) = e_cap e"
proof -
  have ok: "enc_ok e (unat (e_range e))" and r: "2 ^ 24 \<le> unat (e_range e)"
    using assms by (simp_all add: enc_inv_def)
  note v = round_first [OF ok r]
  show "enc_ok (enc_rounded e) 1" using ok v by (auto simp: enc_ok_def enc_rounded_def simp del: tq_ac_round.simps)
  show "unat (e_low (enc_rounded e)) mod 2 ^ 24 = 0"
    "enc_val e \<le> enc_val (enc_rounded e)" "enc_val (enc_rounded e) < enc_val e + unat (e_range e)"
    using v by (simp_all add: enc_rounded_def enc_val_def del: tq_ac_round.simps)
  show "enc_shifts (enc_rounded e) = enc_shifts e" "e_overflow (enc_rounded e) = e_overflow e"
    "e_cap (enc_rounded e) = e_cap e"
    by (simp_all add: enc_rounded_def enc_shifts_def del: tq_ac_round.simps)
qed

lemma finish_unfold:
  "\<not> e_finished e \<Longrightarrow> snd (tq_ac_enc_finish e) =
     ((tq_ac_shift_low ^^ 5) (enc_rounded e))\<lparr>e_buf := tq_ac_trim (e_buf ((tq_ac_shift_low ^^ 5) (enc_rounded e)))\<rparr>"
  by (simp add: tq_ac_enc_finish_def Let_def enc_rounded_def del: tq_ac_round.simps)

lemma finish_length: "fst (tq_ac_enc_finish e) = length (e_buf (snd (tq_ac_enc_finish e)))"
  by (simp add: tq_ac_enc_finish_def Let_def del: tq_ac_round.simps)

lemma finish_in:
  assumes inv: "enc_inv e" and nf: "\<not> e_finished e" and small: "enc_shifts e + 5 < 2 ^ 64"
    and ovf: "\<not> e_overflow (snd (tq_ac_enc_finish e))"
  defines "bs \<equiv> e_buf (snd (tq_ac_enc_finish e))"
  shows "msg_in bs e" "length bs \<le> enc_shifts e + 1" "\<not> e_overflow e"
proof -
  note r = enc_rounded_ok [OF inv]
  let ?f = "(tq_ac_shift_low ^^ 5) (enc_rounded e)"
  have o: "\<not> e_overflow ?f" using ovf by (simp add: finish_unfold [OF nf])
  have bs: "bs = tq_ac_trim (e_buf ?f)" by (simp add: bs_def finish_unfold [OF nf])
  note f = flush_five [OF r(1,2) o, unfolded r(5), OF small]
  have "msg_num bs (4 + enc_shifts e) = enc_val (enc_rounded e)"
    using msg_num_length [of "e_buf ?f"] f(1,2) by (simp add: bs msg_num_trim add.commute)
  then show "msg_in bs e" using r(3,4) by (simp add: msg_in_def)
  obtain X where X: "e_buf ?f = X @ [0, 0, 0]" using f(3) by blast
  have "X @ [0, 0, 0] = ((X @ [0]) @ [0]) @ [0]" by simp
  then have "bs = tq_ac_trim X" unfolding bs X by (simp only: trim_snoc_0)
  moreover have "length X = enc_shifts e + 1" using f(2) X by simp
  ultimately show "length bs \<le> enc_shifts e + 1" using trim_length [of X] by simp
  have "e_overflow x \<Longrightarrow> e_overflow ((tq_ac_shift_low ^^ n) x)" for x n
    by (induction n) (simp_all add: overflow_shift)
  then show "\<not> e_overflow e" using o r(6) by blast
qed

lemma finish_room:
  assumes inv: "enc_inv e" and nf: "\<not> e_finished e" and small: "enc_shifts e + 5 < 2 ^ 64"
    and "\<not> e_overflow e" "enc_shifts e + 4 \<le> e_cap e"
  shows "\<not> e_overflow (snd (tq_ac_enc_finish e))"
  using flush_room [OF enc_rounded_ok(1) [OF inv]] enc_rounded_ok(5-7) [OF inv] assms
  by (simp add: finish_unfold [OF nf])

section \<open>Coders that run in step\<close>

text \<open>
  The interface between an encoder and the decoder that reads its message. \<open>clean e\<close>: no byte
  has been lost. \<open>ready n e\<close>: the encoder is in a state from which \<open>n\<close> more symbols may be
  coded. \<open>holds m e\<close>: the message \<open>m\<close> still is one that the encoder can send from \<open>e\<close>.
  \<open>sync m e d\<close>: the decoder \<open>d\<close>, which reads \<open>m\<close>, stands where the encoder stood in \<open>e\<close>. A
  decoder that does not find the symbol it is asked for gives \<open>None\<close>.
\<close>

locale paired_coder =
  fixes enc :: "'e \<Rightarrow> 's \<Rightarrow> 'e option"
    and dec :: "'d \<Rightarrow> 's \<Rightarrow> 'd option"
    and good :: "'s \<Rightarrow> bool"
    and clean :: "'e \<Rightarrow> bool"
    and ready :: "nat \<Rightarrow> 'e \<Rightarrow> bool"
    and holds :: "'m \<Rightarrow> 'e \<Rightarrow> bool"
    and sync :: "'m \<Rightarrow> 'e \<Rightarrow> 'd \<Rightarrow> bool"
  assumes clean_back: "ready (Suc n) e \<Longrightarrow> good s \<Longrightarrow> enc e s = Some e' \<Longrightarrow> clean e' \<Longrightarrow> clean e"
    and enc_returns: "ready (Suc n) e \<Longrightarrow> good s \<Longrightarrow> \<exists>e'. enc e s = Some e'"
    and ready_step: "ready (Suc n) e \<Longrightarrow> good s \<Longrightarrow> enc e s = Some e' \<Longrightarrow> ready n e'"
    and holds_back: "ready (Suc n) e \<Longrightarrow> good s \<Longrightarrow> enc e s = Some e' \<Longrightarrow> clean e' \<Longrightarrow>
      holds m e' \<Longrightarrow> holds m e"
    and sync_step: "ready (Suc n) e \<Longrightarrow> good s \<Longrightarrow> enc e s = Some e' \<Longrightarrow> clean e' \<Longrightarrow>
      holds m e' \<Longrightarrow> sync m e d \<Longrightarrow> \<exists>d'. dec d s = Some d' \<and> sync m e' d'"
begin

lemma run_returns:
  "ready (length ss) e \<Longrightarrow> \<forall>s \<in> set ss. good s \<Longrightarrow> \<exists>e'. run_steps enc ss e = Some e' \<and> ready 0 e'"
proof (induction ss arbitrary: e)
  case (Cons s ss)
  then obtain e1 where "enc e s = Some e1" "ready (length ss) e1"
    using enc_returns ready_step by fastforce
  then show ?case using Cons by simp
qed simp

lemma run_clean:
  "ready (length ss) e \<Longrightarrow> \<forall>s \<in> set ss. good s \<Longrightarrow> run_steps enc ss e = Some e' \<Longrightarrow> clean e' \<Longrightarrow> clean e"
proof (induction ss arbitrary: e)
  case (Cons s ss)
  then obtain e1 where e1: "enc e s = Some e1" "run_steps enc ss e1 = Some e'"
    by (auto split: option.splits)
  moreover from Cons.prems e1 have "ready (length ss) e1" using ready_step by auto
  ultimately have "clean e1" using Cons by auto
  then show ?case using Cons.prems e1 clean_back by auto
qed simp

lemma run_back:
  "ready (length ss) e \<Longrightarrow> \<forall>s \<in> set ss. good s \<Longrightarrow> run_steps enc ss e = Some e' \<Longrightarrow> clean e' \<Longrightarrow>
   holds m e' \<Longrightarrow> clean e \<and> holds m e"
proof (induction ss arbitrary: e)
  case (Cons s ss)
  then obtain e1 where e1: "enc e s = Some e1" "run_steps enc ss e1 = Some e'"
    by (auto split: option.splits)
  moreover from Cons.prems e1 have "ready (length ss) e1" using ready_step by auto
  ultimately have "clean e1 \<and> holds m e1" using Cons by auto
  then show ?case using Cons.prems e1 clean_back holds_back by auto
qed simp

lemma run_round_trip:
  "ready (length ss) e \<Longrightarrow> \<forall>s \<in> set ss. good s \<Longrightarrow> run_steps enc ss e = Some e' \<Longrightarrow> clean e' \<Longrightarrow>
   holds m e' \<Longrightarrow> sync m e d \<Longrightarrow> \<exists>d'. run_steps dec ss d = Some d' \<and> sync m e' d'"
proof (induction ss arbitrary: e d)
  case (Cons s ss)
  then obtain e1 where e1: "enc e s = Some e1" "run_steps enc ss e1 = Some e'"
    by (auto split: option.splits)
  have r1: "ready (length ss) e1" using Cons.prems e1 ready_step by auto
  then have c1: "clean e1 \<and> holds m e1" using Cons.prems e1 run_back by auto
  then obtain d1 where "dec d s = Some d1" "sync m e1 d1"
    using Cons.prems e1 sync_step by fastforce
  then show ?case using Cons e1 r1 by simp
qed simp

end

lemma norm_steps_range:
  "unat (e_range e) * 256 ^ k < 2 ^ 32 \<Longrightarrow> unat (e_range ((norm_step ^^ k) e)) = 256 ^ k * unat (e_range e)"
proof (induction k)
  case (Suc k)
  have "256 ^ k * unat (e_range e) < 2 ^ 24" using Suc.prems by (simp add: mult.commute)
  then show ?case using Suc norm_step_range [of "(norm_step ^^ k) e"] by (simp add: mult.assoc mult.commute)
qed simp

definition tq_enc_sym3 :: "tq_ac_enc \<Rightarrow> ac_sym \<Rightarrow> tq_ac_enc option" where
  "tq_enc_sym3 e s = (case s of (cum, freq, tot) \<Rightarrow> tq_ac_enc_sym e cum freq tot)"

text \<open>The two decoder calls for one symbol, as the contract of \<^verbatim>\<open>tq_ac_dec_target\<close> has them.\<close>

definition tq_dec_sym3 :: "tq_ac_dec \<Rightarrow> ac_sym \<Rightarrow> tq_ac_dec option" where
  "tq_dec_sym3 d s = (case s of (cum, freq, tot) \<Rightarrow>
     let (d1, t) = tq_ac_dec_target d tot
     in if cum \<le> t \<and> t < cum + freq then tq_ac_dec_update d1 cum freq else None)"

definition enc_clean :: "tq_ac_enc \<Rightarrow> bool" where
  "enc_clean e \<longleftrightarrow> \<not> e_overflow e"

definition enc_ready :: "nat \<Rightarrow> tq_ac_enc \<Rightarrow> bool" where
  "enc_ready n e \<longleftrightarrow> 2 ^ 24 \<le> unat (e_range e) \<and>
     (enc_clean e \<longrightarrow> enc_inv e \<and> enc_shifts e + 2 * n + 5 < 2 ^ 64)"

lemma enc_readyD:
  assumes "enc_ready (Suc n) e"
  shows "2 ^ 24 \<le> unat (e_range e)" "enc_clean e \<Longrightarrow> enc_inv e" "enc_clean e \<Longrightarrow> enc_shifts e + 2 < 2 ^ 64"
  using assms by (simp_all add: enc_ready_def)

lemma enc_sym_clean_back:
  assumes "2 ^ 24 \<le> unat (e_range e)" "sym_ok s" "tq_enc_sym3 e s = Some e'" "enc_clean e'"
  shows "enc_clean e"
proof -
  obtain cum freq tot where s: "s = (cum, freq, tot)" by (cases s)
  have "e' = (norm_step ^^ sym_shifts e s) (sym_split e s)"
    using enc_sym_unroll(1) [OF assms(1) assms(2) [unfolded s]] assms(3) by (simp add: s tq_enc_sym3_def)
  then show ?thesis
    using assms(4) overflow_norm_steps [of "sym_split e s"] by (auto simp: enc_clean_def)
qed

lemma enc_sym_ready:
  assumes r: "enc_ready (Suc n) e" and s0: "sym_ok s" and e': "tq_enc_sym3 e s = Some e'"
  shows "enc_ready n e'"
proof -
  obtain cum freq tot where s: "s = (cum, freq, tot)" by (cases s)
  note rd = enc_readyD [OF r]
  have ok: "sym_ok (cum, freq, tot)" using s0 s by simp
  have en: "tq_ac_enc_sym e cum freq tot = Some e'" using e' by (simp add: s tq_enc_sym3_def)
  note u = enc_sym_unroll [OF rd(1) ok]
  have e'k: "e' = (norm_step ^^ sym_shifts e s) (sym_split e s)" using u(1) en by (simp add: s)
  have "2 ^ 24 \<le> unat (e_range e')"
    using norm_steps_range [OF u(3)] u(4) by (simp add: e'k s)
  moreover have "enc_inv e' \<and> enc_shifts e' + 2 * n + 5 < 2 ^ 64" if c: "enc_clean e'"
  proof -
    have ce: "enc_clean e" using enc_sym_clean_back [OF rd(1) s0 e' c] .
    have o: "\<not> e_overflow e'" using c by (simp add: enc_clean_def)
    note v = enc_sym_value [OF rd(2) [OF ce] ok rd(3) [OF ce] en o]
    show ?thesis using v(3,4) u(2) r ce by (simp add: enc_ready_def)
  qed
  ultimately show ?thesis by (simp add: enc_ready_def)
qed

interpretation ac_coder: paired_coder tq_enc_sym3 tq_dec_sym3 sym_ok enc_clean enc_ready msg_in in_sync
proof unfold_locales
  fix n e s e' m d
  assume r: "enc_ready (Suc n) e" and s0: "sym_ok s"
  obtain cum freq tot where s: "s = (cum, freq, tot)" by (cases s)
  note rd = enc_readyD [OF r]
  have ok: "sym_ok (cum, freq, tot)" using s0 s by simp
  show "\<exists>e'. tq_enc_sym3 e s = Some e'"
    using enc_sym_unroll(1) [OF rd(1) ok] by (simp add: s tq_enc_sym3_def)
  assume e': "tq_enc_sym3 e s = Some e'"
  show "enc_ready n e'" by (rule enc_sym_ready [OF r s0 e'])
  assume c: "enc_clean e'"
  show ce: "enc_clean e" using enc_sym_clean_back [OF rd(1) s0 e' c] .
  assume m: "msg_in m e'"
  have en: "tq_ac_enc_sym e cum freq tot = Some e'" using e' by (simp add: s tq_enc_sym3_def)
  have o: "\<not> e_overflow e'" using c by (simp add: enc_clean_def)
  note args = rd(2) [OF ce] ok rd(3) [OF ce] en o
  show "msg_in m e" by (rule msg_in_back(3) [OF args m])
  assume sy: "in_sync m e d"
  show "\<exists>d'. tq_dec_sym3 d s = Some d' \<and> in_sync m e' d'"
    using dec_symbol [OF args m sy] by (simp add: s tq_dec_sym3_def split: prod.split) (metis fst_conv snd_conv)
qed

lemma enc_ready_init: "2 * n + 5 < 2 ^ 64 \<Longrightarrow> enc_ready n (tq_ac_enc_init cap)"
  using enc_inv_init by (simp add: enc_ready_def) 

lemma overflow_finish:
  "\<not> e_finished e \<Longrightarrow> e_overflow e \<Longrightarrow> e_overflow (snd (tq_ac_enc_finish e))"
proof -
  assume nf: "\<not> e_finished e" and o: "e_overflow e"
  have "e_overflow x \<Longrightarrow> e_overflow ((tq_ac_shift_low ^^ n) x)" for x n
    by (induction n) (simp_all add: overflow_shift)
  moreover have "e_overflow (enc_rounded e)" using o by (simp add: enc_rounded_def del: tq_ac_round.simps)
  ultimately show ?thesis by (simp add: finish_unfold [OF nf])
qed

lemma enc_ready_finish:
  assumes r: "enc_ready n e" and nf: "\<not> e_finished e" and o: "\<not> e_overflow (snd (tq_ac_enc_finish e))"
  shows "enc_clean e" "msg_in (e_buf (snd (tq_ac_enc_finish e))) e"
    "length (e_buf (snd (tq_ac_enc_finish e))) \<le> enc_shifts e + 1"
proof -
  show c: "enc_clean e" using overflow_finish [OF nf] o by (auto simp: enc_clean_def)
  then have "enc_inv e" "enc_shifts e + 5 < 2 ^ 64" using r by (simp_all add: enc_ready_def)
  from finish_in [OF this(1) nf this(2) o]
  show "msg_in (e_buf (snd (tq_ac_enc_finish e))) e"
    "length (e_buf (snd (tq_ac_enc_finish e))) \<le> enc_shifts e + 1" by blast+
qed

lemma enc_run_keeps:
  "run_steps tq_enc_sym3 ss e = Some e' \<Longrightarrow> 2 ^ 24 \<le> unat (e_range e) \<Longrightarrow> \<forall>s \<in> set ss. sym_ok s \<Longrightarrow>
   e_cap e' = e_cap e \<and> e_finished e' = e_finished e"
proof (induction ss arbitrary: e)
  case (Cons s ss)
  obtain cum freq tot where s: "s = (cum, freq, tot)" by (cases s)
  obtain e1 where e1: "tq_enc_sym3 e s = Some e1" "run_steps tq_enc_sym3 ss e1 = Some e'"
    using Cons.prems by (auto split: option.splits)
  have ok: "sym_ok (cum, freq, tot)" using Cons.prems s by simp
  note u = enc_sym_unroll [OF Cons.prems(2) ok]
  have "e1 = (norm_step ^^ sym_shifts e s) (sym_split e s)"
    using u(1) e1 by (simp add: s tq_enc_sym3_def)
  then show ?case
    using Cons.IH [OF e1(2)] Cons.prems(3) norm_steps_range [OF u(3)] u(4) by (simp add: s)
qed simp

text \<open>With two bytes of room for a symbol and four for the flush nothing is lost.\<close>

lemma enc_run_room:
  assumes "enc_ready (length ss) e" "\<forall>s \<in> set ss. sym_ok s" "enc_clean e"
    and "enc_shifts e + 2 * length ss \<le> e_cap e" and "run_steps tq_enc_sym3 ss e = Some e'"
  shows "enc_clean e' \<and> enc_shifts e' \<le> enc_shifts e + 2 * length ss"
  using assms
proof (induction ss arbitrary: e)
  case (Cons s ss)
  obtain cum freq tot where s: "s = (cum, freq, tot)" by (cases s)
  obtain e1 where e1: "tq_enc_sym3 e s = Some e1" "run_steps tq_enc_sym3 ss e1 = Some e'"
    using Cons.prems by (auto split: option.splits)
  have ok: "sym_ok (cum, freq, tot)" and ss: "\<forall>s \<in> set ss. sym_ok s" and sk: "sym_ok s"
    using Cons.prems s by simp_all
  have rd: "enc_ready (Suc (length ss)) e" using Cons.prems by simp
  note d = enc_readyD [OF rd]
  have en: "tq_ac_enc_sym e cum freq tot = Some e1" using e1 by (simp add: s tq_enc_sym3_def)
  have o: "\<not> e_overflow e1"
    using enc_sym_room [OF d(2) ok d(3) _ _ en] Cons.prems by (simp add: enc_clean_def)
  note v = enc_sym_value [OF d(2) ok d(3) en o]
  have "enc_ready (length ss) e1" by (rule enc_sym_ready [OF rd sk e1(1)])
  moreover have "enc_shifts e1 \<le> enc_shifts e + 2" "e_cap e1 = e_cap e"
    using v(3,6) enc_sym_unroll(2) [OF d(1) ok] Cons.prems by simp_all
  ultimately have "enc_clean e' \<and> enc_shifts e' \<le> enc_shifts e1 + 2 * length ss"
    using Cons.IH [OF _ ss _ _ e1(2)] Cons.prems o by (simp add: enc_clean_def)
  then show ?case using \<open>enc_shifts e1 \<le> enc_shifts e + 2\<close> by simp
qed simp

section \<open>Whole messages\<close>

definition ac_encode :: "nat \<Rightarrow> ac_sym list \<Rightarrow> tq_ac_enc option" where
  "ac_encode cap ss =
     map_option (\<lambda>e. snd (tq_ac_enc_finish e)) (run_steps tq_enc_sym3 ss (tq_ac_enc_init cap))"

definition ac_decode :: "u8 list \<Rightarrow> ac_sym list \<Rightarrow> tq_ac_dec option" where
  "ac_decode bs ss = run_steps tq_dec_sym3 ss (tq_ac_dec_init bs)"

lemma ac_run_init:
  assumes "\<forall>s \<in> set ss. sym_ok s" "2 * length ss + 5 < 2 ^ 64"
  obtains e where "run_steps tq_enc_sym3 ss (tq_ac_enc_init cap) = Some e" "enc_ready 0 e"
    "e_cap e = cap" "\<not> e_finished e"
proof -
  obtain e where e: "run_steps tq_enc_sym3 ss (tq_ac_enc_init cap) = Some e" "enc_ready 0 e"
    using ac_coder.run_returns [OF enc_ready_init [OF assms(2)] assms(1)] by blast
  then show ?thesis using that enc_run_keeps [OF e(1) _ assms(1)] by simp
qed

lemma ac_encode_room:
  assumes ok: "\<forall>s \<in> set ss. sym_ok s" and small: "2 * length ss + 5 < 2 ^ 64"
    and room: "2 * length ss + 4 \<le> cap"
  shows "\<exists>e. ac_encode cap ss = Some e \<and> \<not> e_overflow e \<and> length (e_buf e) \<le> 2 * length ss + 1"
proof -
  obtain e where e: "run_steps tq_enc_sym3 ss (tq_ac_enc_init cap) = Some e" "enc_ready 0 e"
    "e_cap e = cap" "\<not> e_finished e"
    using ac_run_init [OF ok small] by blast
  have c: "enc_clean e \<and> enc_shifts e \<le> 2 * length ss"
    using enc_run_room [OF enc_ready_init [OF small] ok _ _ e(1)] room by (simp add: enc_clean_def)
  then have "\<not> e_overflow (snd (tq_ac_enc_finish e))"
    using e room by (intro finish_room) (simp_all add: enc_ready_def enc_clean_def)
  then show ?thesis
    using e enc_ready_finish(3) [OF e(2,4)] c by (fastforce simp: ac_encode_def)
qed

lemma ac_message_decodes:
  assumes ok: "\<forall>s \<in> set ss. sym_ok s" and small: "2 * length ss + 5 < 2 ^ 64"
    and e: "ac_encode cap ss = Some e" and o: "\<not> e_overflow e"
  shows "\<exists>d. ac_decode (e_buf e) ss = Some d"
proof -
  obtain e0 where e0: "run_steps tq_enc_sym3 ss (tq_ac_enc_init cap) = Some e0" "enc_ready 0 e0"
    "e_cap e0 = cap" "\<not> e_finished e0"
    using ac_run_init [OF ok small] by blast
  have e1: "e = snd (tq_ac_enc_finish e0)" using e e0 by (simp add: ac_encode_def)
  note f = enc_ready_finish [OF e0(2,4), folded e1, OF o]
  show ?thesis
    using ac_coder.run_round_trip [OF enc_ready_init [OF small] ok e0(1) f(1,2) dec_init_sync]
    by (auto simp: ac_decode_def)
qed

section \<open>The properties of the coder\<close>

lemma norm_zero_range:
  assumes "tq_ac_enc_norm e = Some e'"
  shows "e_range e \<noteq> 0"
proof (rule tq_ac_enc_norm.raw_induct [where P = "\<lambda>e e'. e_range e \<noteq> 0", OF _ assms])
  fix f :: "tq_ac_enc \<Rightarrow> tq_ac_enc option" and e e'
  assume IH: "\<And>x y. f x = Some y \<Longrightarrow> e_range x \<noteq> 0"
    and f: "(if e_range e < TQ_AC_TOP
             then f ((tq_ac_shift_low e)\<lparr>e_range := push_bit 8 (e_range (tq_ac_shift_low e))\<rparr>)
             else Some e) = Some e'"
  show "e_range e \<noteq> 0"
  proof (cases "e_range e < TQ_AC_TOP")
    case True
    with f have "push_bit 8 (e_range (tq_ac_shift_low e)) \<noteq> 0" using IH by fastforce
    then show ?thesis by auto
  next
    case False
    then show ?thesis by (auto simp: range_small)
  qed
qed

lemma norm_returns_iff: "(tq_ac_enc_norm e \<noteq> None) = (e_range e \<noteq> 0)"
proof
  show "tq_ac_enc_norm e \<noteq> None \<Longrightarrow> e_range e \<noteq> 0" using norm_zero_range [of e] by blast
  show "e_range e \<noteq> 0 \<Longrightarrow> tq_ac_enc_norm e \<noteq> None"
    using norm_unroll [of e] by (simp add: unat_gt_0)
qed

text \<open>
  Termination of the encoder's renormalisation. \<^verbatim>\<open>tq_ac_enc_sym\<close> returns exactly when the
  total is not zero and the new range, computed with the wrap-around of 32 bits, is not zero;
  for a zero frequency, and for a total above the range, its loop shifts zeroes for ever.
\<close>

theorem enc_sym_returns_iff:
  "(tq_ac_enc_sym e cum freq tot \<noteq> None) = (tot \<noteq> 0 \<and> e_range e div tot * freq \<noteq> 0)"
  using norm_returns_iff by (auto simp: tq_ac_enc_sym_def Let_def)

text \<open>
  What coding one symbol does. From a state that satisfies the encoder's invariant, a
  symbol whose interval lies below a total of at most \<open>TQ_AC_TOT\<close> cuts the coder's interval
  down to the symbol's share of it, \<open>[val + r * cum, val + r * (cum + freq))\<close> with
  \<open>r = range div tot\<close>, scaled by the \<open>k\<close> bytes shifted out. No carry is lost, \<open>k\<close> is at most
  two, and the invariant holds again.
\<close>

theorem enc_sym_narrows:
  assumes "enc_inv e" and "sym_ok (cum, freq, tot)" and "enc_shifts e + 2 < 2 ^ 64"
    and "tq_ac_enc_sym e cum freq tot = Some e'" and "\<not> e_overflow e'"
  shows "\<exists>k \<le> 2. enc_val e' = 256 ^ k * (enc_val e + unat (e_range e) div unat tot * unat cum)
    \<and> unat (e_range e') = 256 ^ k * (unat (e_range e) div unat tot * unat freq)
    \<and> enc_shifts e' = enc_shifts e + k \<and> enc_inv e'"
  using enc_sym_value [OF assms] enc_sym_unroll(2) [OF enc_invD(2) [OF assms(1)] assms(2)] by blast

theorem enc_sym_narrows_witness:
  "\<exists>e'. tq_ac_enc_sym (tq_ac_enc_init 8) 1 2 4 = Some e' \<and>
    (\<exists>k \<le> 2. enc_val e' = 256 ^ k * 1073741823 \<and> unat (e_range e') = 256 ^ k * 2147483646
      \<and> enc_shifts e' = k \<and> enc_inv e')"
proof -
  have s: "sym_ok (1, 2, 4)" by (simp add: sym_ok_def)
  obtain e' where e': "tq_ac_enc_sym (tq_ac_enc_init 8) 1 2 4 = Some e'"
    using enc_sym_unroll(1) [OF enc_invD(2) [OF enc_inv_init] s] by blast
  have "\<not> e_overflow e'" by (rule enc_sym_room [OF enc_inv_init s _ _ _ e']) simp_all
  from enc_sym_narrows [OF enc_inv_init s _ e' this] e' show ?thesis by simp
qed

text \<open>
  The flush. The message that \<^verbatim>\<open>tq_ac_enc_finish\<close> leaves, followed by zeroes, lies in the
  interval of the encoder; it is at most one byte longer than the bytes already shifted out,
  and its last byte is not zero.
\<close>

theorem enc_finish_message:
  assumes "enc_inv e" and "\<not> e_finished e" and "enc_shifts e + 5 < 2 ^ 64"
    and "tq_ac_enc_finish e = (n, f)" and "\<not> e_overflow f"
  shows "msg_in (e_buf f) e \<and> n = length (e_buf f) \<and> n \<le> enc_shifts e + 1
    \<and> (e_buf f \<noteq> [] \<longrightarrow> last (e_buf f) \<noteq> 0)"
proof -
  have f: "f = snd (tq_ac_enc_finish e)" and n: "n = length (e_buf f)"
    using assms(4) finish_length [of e] by auto
  have "e_buf f = tq_ac_trim (e_buf ((tq_ac_shift_low ^^ 5) (enc_rounded e)))"
    by (simp add: f finish_unfold [OF assms(2)])
  then show ?thesis
    using finish_in [OF assms(1-3), folded f, OF assms(5)] trim_last n by metis
qed

theorem enc_finish_message_witness:
  "\<exists>n f. tq_ac_enc_finish (tq_ac_enc_init 8) = (n, f) \<and> msg_in (e_buf f) (tq_ac_enc_init 8) \<and> n \<le> 1"
proof -
  obtain n f where f: "tq_ac_enc_finish (tq_ac_enc_init 8) = (n, f)" by fastforce
  have "\<not> e_overflow f"
    using finish_room [OF enc_inv_init, of 8] by (simp add: f)
  from enc_finish_message [OF enc_inv_init _ _ f this] f show ?thesis by auto
qed

text \<open>
  The flush is idempotent, as \<^verbatim>\<open>tq_ac.h\<close> promises: a second call changes nothing and
  returns the same length.
\<close>

theorem enc_finish_idempotent:
  "tq_ac_enc_finish (snd (tq_ac_enc_finish e)) = tq_ac_enc_finish e"
proof (cases "e_finished e")
  case True
  then show ?thesis by (simp add: tq_ac_enc_finish_def)
next
  case False
  have "e_finished ((tq_ac_shift_low ^^ n) x) = e_finished x" for n x by (induction n) simp_all
  then show ?thesis using False by (simp add: tq_ac_enc_finish_def Let_def del: tq_ac_round.simps)
qed

text \<open>
  C12: the round trip of the range coder. When no byte was lost to a full buffer, the decoder
  that reads the flushed message (with zeroes after its end) finds for every symbol a target
  inside that symbol's interval, through carries, deferred 0xFF bytes and the shortened tail.
\<close>

theorem range_coder_round_trip:
  assumes "\<forall>s \<in> set ss. sym_ok s" and "2 * length ss + 5 < 2 ^ 64"
    and "ac_encode cap ss = Some e" and "\<not> e_overflow e"
  shows "\<exists>d. ac_decode (e_buf e) ss = Some d"
  using assms by (rule ac_message_decodes)

theorem range_coder_round_trip_witness:
  "\<exists>e d. ac_encode 64 [(1, 2, 4), (65535, 1, 65536), (0, 1, 3)] = Some e \<and>
     ac_decode (e_buf e) [(1, 2, 4), (65535, 1, 65536), (0, 1, 3)] = Some d"
proof -
  let ?ss = "[(1, 2, 4), (65535, 1, 65536), (0, 1, 3)] :: ac_sym list"
  have ok: "\<forall>s \<in> set ?ss. sym_ok s" by (simp add: sym_ok_def)
  obtain e where e: "ac_encode 64 ?ss = Some e" "\<not> e_overflow e"
    using ac_encode_room [OF ok, of 64] by auto
  show ?thesis using range_coder_round_trip [OF ok _ e] e by auto
qed

text \<open>
  The size of a message. A buffer of two bytes for each symbol and four for the flush
  never overflows, and the message has at most two bytes for each symbol and one more.
\<close>

theorem range_coder_size:
  assumes "\<forall>s \<in> set ss. sym_ok s" and "2 * length ss + 5 < 2 ^ 64" and "2 * length ss + 4 \<le> cap"
  shows "\<exists>e. ac_encode cap ss = Some e \<and> \<not> e_overflow e \<and> length (e_buf e) \<le> 2 * length ss + 1"
  using assms by (rule ac_encode_room)

theorem range_coder_size_witness:
  "\<exists>e. ac_encode 8 [(1, 2, 4), (0, 1, 3)] = Some e \<and> \<not> e_overflow e \<and> length (e_buf e) \<le> 5"
  using range_coder_size [of "[(1, 2, 4), (0, 1, 3)]" 8] by (simp add: sym_ok_def)

end
