(* ===== verification/Tq_Ieee.thy ===== *)
theory Tq_Ieee imports Tq_Prelude begin

text \<open>
  The C types \<^verbatim>\<open>float\<close> and \<^verbatim>\<open>double\<close>: IEEE-754 binary32 and binary64 in round to nearest,
  ties to even, as executable operations on bit patterns. The engine relies on the exact bits
  (\<^verbatim>\<open>tq_math.h\<close>: two machines must compute bit-identical logits) and reinterprets them with
  \<^verbatim>\<open>memcpy\<close>, so a \<^verbatim>\<open>float\<close> is its 32-bit word here and a \<^verbatim>\<open>double\<close> its 64-bit word.

  An operation decodes its arguments, computes exactly on integers (division and square root
  keep a sticky bit below the rounding position) and encodes with one rounding. Every NaN
  result is the quiet NaN with an empty payload; the code never looks at a payload.

  A format is given by its fraction bits \<open>mb\<close> and exponent bits \<open>eb\<close>: (23, 8) for binary32,
  (52, 11) for binary64, (10, 5) for binary16.
\<close>

unbundle bit_operations_syntax

section \<open>Unpacked numbers\<close>

text \<open>\<open>FFin s m e\<close> is the number \<open>(-1)^s * m * 2^e\<close>; a zero keeps its sign.\<close>

datatype fp = FNan | FInf bool | FFin bool int int

definition fl_emin :: "nat \<Rightarrow> nat \<Rightarrow> int" where
  "fl_emin mb eb = 2 - 2 ^ (eb - 1) - int mb"

definition fl_inf :: "nat \<Rightarrow> nat \<Rightarrow> int" where
  "fl_inf mb eb = (2 ^ eb - 1) * 2 ^ mb"

definition fl_decode :: "nat \<Rightarrow> nat \<Rightarrow> int \<Rightarrow> fp" where
  "fl_decode mb eb b =
     (let s = (b div 2 ^ (mb + eb)) mod 2 = 1;
          a = b mod 2 ^ (mb + eb);
          x = a div 2 ^ mb;
          f = a mod 2 ^ mb
      in if a > fl_inf mb eb then FNan
         else if a = fl_inf mb eb then FInf s
         else if x = 0 then FFin s f (fl_emin mb eb)
         else FFin s (f + 2 ^ mb) (fl_emin mb eb + x - 1))"

section \<open>Rounding\<close>

text \<open>\<open>n / 2^k\<close> to the nearest integer, ties to even.\<close>

definition rne :: "int \<Rightarrow> nat \<Rightarrow> int" where
  "rne n k =
     (let q = n div 2 ^ k; r = n mod 2 ^ k
      in if 2 * r > 2 ^ k \<or> (2 * r = 2 ^ k \<and> odd q) then q + 1 else q)"

text \<open>
  The magnitude bits of \<open>m * 2^e\<close>. \<open>E\<close> is the exponent of the last kept bit. Because the
  exponent field sits right above the fraction field, \<open>(E - emin) * 2^mb + q\<close> is the
  encoding for subnormals, normals and a carry out of the fraction alike.
\<close>

definition fl_top :: "nat \<Rightarrow> nat \<Rightarrow> int \<Rightarrow> int \<Rightarrow> int" where
  "fl_top mb eb m e = max (fl_emin mb eb) (e + bitlen m - (int mb + 1))"

definition fl_mag :: "nat \<Rightarrow> nat \<Rightarrow> int \<Rightarrow> int \<Rightarrow> int" where
  "fl_mag mb eb m e =
     (if m = 0 then 0
      else let E = fl_top mb eb m e;
               q = (if e \<le> E then rne m (nat (E - e)) else m * 2 ^ nat (e - E))
           in min (fl_inf mb eb) ((E - fl_emin mb eb) * 2 ^ mb + q))"

definition fl_encode :: "nat \<Rightarrow> nat \<Rightarrow> fp \<Rightarrow> int" where
  "fl_encode mb eb v =
     (case v of
        FNan \<Rightarrow> fl_inf mb eb + 2 ^ (mb - 1)
      | FInf s \<Rightarrow> (if s then 2 ^ (mb + eb) else 0) + fl_inf mb eb
      | FFin s m e \<Rightarrow> (if s then 2 ^ (mb + eb) else 0) + fl_mag mb eb m e)"

section \<open>Exact arithmetic on unpacked numbers\<close>

definition sgn_int :: "bool \<Rightarrow> int \<Rightarrow> int" where
  "sgn_int s m = (if s then - m else m)"

definition fp_neg :: "fp \<Rightarrow> fp" where
  "fp_neg v = (case v of FNan \<Rightarrow> FNan | FInf s \<Rightarrow> FInf (\<not> s) | FFin s m e \<Rightarrow> FFin (\<not> s) m e)"

fun fp_add :: "fp \<Rightarrow> fp \<Rightarrow> fp" where
  "fp_add FNan _ = FNan"
| "fp_add _ FNan = FNan"
| "fp_add (FInf s) (FInf t) = (if s = t then FInf s else FNan)"
| "fp_add (FInf s) (FFin _ _ _) = FInf s"
| "fp_add (FFin _ _ _) (FInf t) = FInf t"
| "fp_add (FFin s m e) (FFin t n f) =
     (let g = min e f;
          v = sgn_int s m * 2 ^ nat (e - g) + sgn_int t n * 2 ^ nat (f - g)
      in if v = 0 then FFin (s \<and> t) 0 g else FFin (v < 0) \<bar>v\<bar> g)"

fun fp_mul :: "fp \<Rightarrow> fp \<Rightarrow> fp" where
  "fp_mul FNan _ = FNan"
| "fp_mul _ FNan = FNan"
| "fp_mul (FInf s) (FInf t) = FInf (s \<noteq> t)"
| "fp_mul (FInf s) (FFin t n _) = (if n = 0 then FNan else FInf (s \<noteq> t))"
| "fp_mul (FFin s m _) (FInf t) = (if m = 0 then FNan else FInf (s \<noteq> t))"
| "fp_mul (FFin s m e) (FFin t n f) = FFin (s \<noteq> t) (m * n) (e + f)"

text \<open>
  \<open>p\<close> extra bits of quotient, the last of which is sticky: it is set when the division left
  a remainder. With \<open>p\<close> above the precision of the format the later rounding is the
  rounding of the exact quotient.
\<close>

fun fp_div :: "nat \<Rightarrow> fp \<Rightarrow> fp \<Rightarrow> fp" where
  "fp_div p FNan _ = FNan"
| "fp_div p _ FNan = FNan"
| "fp_div p (FInf s) (FInf t) = FNan"
| "fp_div p (FInf s) (FFin t _ _) = FInf (s \<noteq> t)"
| "fp_div p (FFin s _ e) (FInf t) = FFin (s \<noteq> t) 0 e"
| "fp_div p (FFin s m e) (FFin t n f) =
     (if n = 0 then (if m = 0 then FNan else FInf (s \<noteq> t))
      else let k = p + nat (bitlen n);
               a = m * 2 ^ k
           in FFin (s \<noteq> t) (2 * (a div n) + (if a mod n = 0 then 0 else 1))
                (e - f - int k - 1))"

function isqrt :: "int \<Rightarrow> int" where
  "isqrt n =
     (if n \<le> 0 then 0
      else let r = 2 * isqrt (n div 4) in if (r + 1) * (r + 1) \<le> n then r + 1 else r)"
  by pat_completeness auto
termination
  by (relation "measure nat") auto

declare isqrt.simps [simp del]

fun fp_sqrt :: "nat \<Rightarrow> fp \<Rightarrow> fp" where
  "fp_sqrt p FNan = FNan"
| "fp_sqrt p (FInf s) = (if s then FNan else FInf False)"
| "fp_sqrt p (FFin s m e) =
     (if m = 0 then FFin s 0 e
      else if s then FNan
      else let k = 2 * p + (if even e then 0 else 1);
               a = m * 2 ^ k;
               r = isqrt a
           in FFin False (2 * r + (if r * r = a then 0 else 1)) ((e - int k) div 2 - 1))"

text \<open>Conversion to an integer type with the given range: truncation; outside it C says nothing.\<close>

definition fp_trunc :: "fp \<Rightarrow> int option" where
  "fp_trunc v =
     (case v of FFin s m e \<Rightarrow>
        Some (sgn_int s (if 0 \<le> e then m * 2 ^ nat e else m div 2 ^ nat (- e)))
      | _ \<Rightarrow> None)"

definition in_range :: "int \<Rightarrow> int \<Rightarrow> int option \<Rightarrow> int option" where
  "in_range lo hi v = (case v of None \<Rightarrow> None | Some n \<Rightarrow> if lo \<le> n \<and> n \<le> hi then Some n else None)"

definition fp_of_int :: "int \<Rightarrow> fp" where
  "fp_of_int n = FFin (n < 0) \<bar>n\<bar> 0"

text \<open>The decimal constant \<open>m * 10^(-k)\<close> of the source, correctly rounded.\<close>

definition fp_dec :: "nat \<Rightarrow> int \<Rightarrow> nat \<Rightarrow> fp" where
  "fp_dec p m k = fp_div p (fp_of_int m) (FFin False (10 ^ k) 0)"

section \<open>binary32\<close>

type_synonym f32 = "32 word"

definition f32_decode :: "f32 \<Rightarrow> fp" where
  "f32_decode a = fl_decode 23 8 (uint a)"

definition f32_encode :: "fp \<Rightarrow> f32" where
  "f32_encode v = word_of_int (fl_encode 23 8 v)"

definition f32_neg :: "f32 \<Rightarrow> f32" where
  "f32_neg a = a XOR 0x80000000"

definition f32_add :: "f32 \<Rightarrow> f32 \<Rightarrow> f32" where
  "f32_add a b = f32_encode (fp_add (f32_decode a) (f32_decode b))"

definition f32_sub :: "f32 \<Rightarrow> f32 \<Rightarrow> f32" where
  "f32_sub a b = f32_encode (fp_add (f32_decode a) (fp_neg (f32_decode b)))"

definition f32_mul :: "f32 \<Rightarrow> f32 \<Rightarrow> f32" where
  "f32_mul a b = f32_encode (fp_mul (f32_decode a) (f32_decode b))"

definition f32_div :: "f32 \<Rightarrow> f32 \<Rightarrow> f32" where
  "f32_div a b = f32_encode (fp_div 26 (f32_decode a) (f32_decode b))"

definition f32_sqrt :: "f32 \<Rightarrow> f32" where
  "f32_sqrt a = f32_encode (fp_sqrt 26 (f32_decode a))"

definition f32_is_nan :: "f32 \<Rightarrow> bool" where
  "f32_is_nan a \<longleftrightarrow> 0x7F800000 < (a AND 0x7FFFFFFF)"

text \<open>
  Comparison: the magnitude bits order like the magnitudes, so negating them for a set sign
  bit gives an integer key that orders all numbers and identifies the two zeros.
\<close>

definition f32_key :: "f32 \<Rightarrow> int" where
  "f32_key a = sgn_int (bit a 31) (uint (a AND 0x7FFFFFFF))"

definition f32_lt :: "f32 \<Rightarrow> f32 \<Rightarrow> bool" where
  "f32_lt a b \<longleftrightarrow> \<not> f32_is_nan a \<and> \<not> f32_is_nan b \<and> f32_key a < f32_key b"

definition f32_le :: "f32 \<Rightarrow> f32 \<Rightarrow> bool" where
  "f32_le a b \<longleftrightarrow> \<not> f32_is_nan a \<and> \<not> f32_is_nan b \<and> f32_key a \<le> f32_key b"

definition f32_eq :: "f32 \<Rightarrow> f32 \<Rightarrow> bool" where
  "f32_eq a b \<longleftrightarrow> \<not> f32_is_nan a \<and> \<not> f32_is_nan b \<and> f32_key a = f32_key b"

definition f32_of_int :: "int \<Rightarrow> f32" where
  "f32_of_int n = f32_encode (fp_of_int n)"

definition f32_to_i32 :: "f32 \<Rightarrow> int option" where
  "f32_to_i32 a = in_range (- (2 ^ 31)) (2 ^ 31 - 1) (fp_trunc (f32_decode a))"

definition f32_dec :: "int \<Rightarrow> nat \<Rightarrow> f32" where
  "f32_dec m k = f32_encode (fp_dec 26 m k)"

section \<open>binary64\<close>

type_synonym f64 = "64 word"

definition f64_decode :: "f64 \<Rightarrow> fp" where
  "f64_decode a = fl_decode 52 11 (uint a)"

definition f64_encode :: "fp \<Rightarrow> f64" where
  "f64_encode v = word_of_int (fl_encode 52 11 v)"

definition f64_neg :: "f64 \<Rightarrow> f64" where
  "f64_neg a = a XOR 0x8000000000000000"

definition f64_add :: "f64 \<Rightarrow> f64 \<Rightarrow> f64" where
  "f64_add a b = f64_encode (fp_add (f64_decode a) (f64_decode b))"

definition f64_sub :: "f64 \<Rightarrow> f64 \<Rightarrow> f64" where
  "f64_sub a b = f64_encode (fp_add (f64_decode a) (fp_neg (f64_decode b)))"

definition f64_mul :: "f64 \<Rightarrow> f64 \<Rightarrow> f64" where
  "f64_mul a b = f64_encode (fp_mul (f64_decode a) (f64_decode b))"

definition f64_div :: "f64 \<Rightarrow> f64 \<Rightarrow> f64" where
  "f64_div a b = f64_encode (fp_div 55 (f64_decode a) (f64_decode b))"

definition f64_is_nan :: "f64 \<Rightarrow> bool" where
  "f64_is_nan a \<longleftrightarrow> 0x7FF0000000000000 < (a AND 0x7FFFFFFFFFFFFFFF)"

definition f64_key :: "f64 \<Rightarrow> int" where
  "f64_key a = sgn_int (bit a 63) (uint (a AND 0x7FFFFFFFFFFFFFFF))"

definition f64_lt :: "f64 \<Rightarrow> f64 \<Rightarrow> bool" where
  "f64_lt a b \<longleftrightarrow> \<not> f64_is_nan a \<and> \<not> f64_is_nan b \<and> f64_key a < f64_key b"

definition f64_le :: "f64 \<Rightarrow> f64 \<Rightarrow> bool" where
  "f64_le a b \<longleftrightarrow> \<not> f64_is_nan a \<and> \<not> f64_is_nan b \<and> f64_key a \<le> f64_key b"

definition f64_of_int :: "int \<Rightarrow> f64" where
  "f64_of_int n = f64_encode (fp_of_int n)"

definition f64_to_i32 :: "f64 \<Rightarrow> int option" where
  "f64_to_i32 a = in_range (- (2 ^ 31)) (2 ^ 31 - 1) (fp_trunc (f64_decode a))"

definition f64_dec :: "int \<Rightarrow> nat \<Rightarrow> f64" where
  "f64_dec m k = f64_encode (fp_dec 55 m k)"

definition f64_of_f32 :: "f32 \<Rightarrow> f64" where
  "f64_of_f32 a = f64_encode (f32_decode a)"

definition f32_of_f64 :: "f64 \<Rightarrow> f32" where
  "f32_of_f64 a = f32_encode (f64_decode a)"

end
