(* ===== verification/Tq_Rounding.thy ===== *)
theory Tq_Rounding imports Tq_Ieee begin

text \<open>
  What the executable operations of \<open>Tq_Ieee\<close> compute: rounding to nearest even of the exact
  real result (\<open>fl_mag_real\<close>), monotone in it (\<open>fl_mag_le\<close>), exact on numbers of the format
  (\<open>fl_mag_id\<close>); and comparison through the integer key orders finite numbers by their
  values (\<open>f32_key_val\<close>). The component proofs bound float results with these lemmas.
\<close>

unbundle bit_operations_syntax

section \<open>Rounding a real number\<close>

definition rne_real :: "real \<Rightarrow> int" where
  "rne_real x =
     (if x - of_int \<lfloor>x\<rfloor> > 1 / 2 \<or> (x - of_int \<lfloor>x\<rfloor> = 1 / 2 \<and> odd \<lfloor>x\<rfloor>) then \<lfloor>x\<rfloor> + 1 else \<lfloor>x\<rfloor>)"

lemma rne_real_mono: "x \<le> y \<Longrightarrow> rne_real x \<le> rne_real y"
proof -
  assume le: "x \<le> y"
  show ?thesis
  proof (cases "\<lfloor>x\<rfloor> = \<lfloor>y\<rfloor>")
    case True
    then show ?thesis using le by (auto simp: rne_real_def)
  next
    case False
    then have "\<lfloor>x\<rfloor> + 1 \<le> \<lfloor>y\<rfloor>" using floor_mono [OF le] by linarith
    then show ?thesis by (auto simp: rne_real_def)
  qed
qed

lemma rne_real_int [simp]: "rne_real (of_int n) = n"
  by (simp add: rne_real_def)

lemma rne_real_near: "\<bar>of_int (rne_real x) - x\<bar> \<le> 1 / 2"
  unfolding rne_real_def by (auto simp: abs_le_iff)

lemma rne_eq_real: "rne n k = rne_real (of_int n / 2 ^ k)"
proof -
  let ?q = "n div 2 ^ k" and ?r = "n mod 2 ^ k"
  have n: "n = ?q * 2 ^ k + ?r" by (simp only: div_mult_mod_eq)
  have r: "0 \<le> ?r" "?r < 2 ^ k" by simp_all
  have x: "of_int n / 2 ^ k = (of_int ?q + of_int ?r / 2 ^ k :: real)"
  proof -
    have "(of_int n :: real) = of_int ?q * 2 ^ k + of_int ?r"
      by (subst n) (simp only: of_int_add of_int_mult of_int_power of_int_numeral)
    then show ?thesis by (simp add: add_divide_distrib)
  qed
  have f: "(of_int ?r :: real) / 2 ^ k < 1" "0 \<le> (of_int ?r :: real) / 2 ^ k"
    using r by (simp_all add: divide_less_eq) 
  have fl: "\<lfloor>of_int n / (2 ^ k :: real)\<rfloor> = ?q"
    unfolding x using f by (simp add: floor_eq_iff)
  have half: "((of_int ?r :: real) / 2 ^ k > 1 / 2) = (2 * ?r > 2 ^ k)"
    "((of_int ?r :: real) / 2 ^ k = 1 / 2) = (2 * ?r = 2 ^ k)"
  proof -
    have "((of_int ?r :: real) / 2 ^ k > 1 / 2) = ((2::real) ^ k < 2 * of_int ?r)"
      by (simp add: less_divide_eq mult.commute)
    also have "\<dots> = (of_int (2 ^ k) < (of_int (2 * ?r) :: real))" by simp
    finally show "((of_int ?r :: real) / 2 ^ k > 1 / 2) = (2 * ?r > 2 ^ k)" by (simp only: of_int_less_iff)
    have "((of_int ?r :: real) / 2 ^ k = 1 / 2) = (2 * of_int ?r = (2::real) ^ k)"
      by (simp add: divide_eq_eq mult.commute) 
    also have "\<dots> = (of_int (2 * ?r) = (of_int (2 ^ k) :: real))" by simp
    finally show "((of_int ?r :: real) / 2 ^ k = 1 / 2) = (2 * ?r = 2 ^ k)" by (simp only: of_int_eq_iff)
  qed
  have d: "of_int n / 2 ^ k - of_int ?q = (of_int ?r :: real) / 2 ^ k"
    by (subst x) simp
  show ?thesis
    unfolding rne_def rne_real_def Let_def by (simp only: fl d half)
qed

section \<open>Encoding a magnitude\<close>

text \<open>The exponent of the last kept bit, and the bits, of a positive real number.\<close>

definition mag_exp :: "nat \<Rightarrow> nat \<Rightarrow> real \<Rightarrow> int" where
  "mag_exp mb eb x = max (fl_emin mb eb) (\<lfloor>log 2 x\<rfloor> - int mb)"

definition mag_real :: "nat \<Rightarrow> nat \<Rightarrow> real \<Rightarrow> int" where
  "mag_real mb eb x =
     (if x = 0 then 0
      else (mag_exp mb eb x - fl_emin mb eb) * 2 ^ mb
             + rne_real (x / 2 powr of_int (mag_exp mb eb x)))"

lemma bitlen_log: "0 < m \<Longrightarrow> bitlen m - 1 = \<lfloor>log 2 (of_int m)\<rfloor>"
  by (simp add: bitlen_alt_def)

lemma fl_mag_real:
  assumes "0 \<le> m"
  shows "fl_mag mb eb m e = min (fl_inf mb eb) (mag_real mb eb (of_int m * 2 powr of_int e))"
proof (cases "m = 0")
  case True
  then show ?thesis by (simp add: fl_mag_def mag_real_def fl_inf_def)
next
  case False
  then have m: "0 < m" using assms by simp
  let ?x = "of_int m * 2 powr of_int e :: real"
  have "log 2 ?x = log 2 (of_int m) + of_int e" using m by (simp add: log_mult)
  then have "\<lfloor>log 2 ?x\<rfloor> = bitlen m - 1 + e"
    using bitlen_log [OF m] by simp
  then have E: "mag_exp mb eb ?x = fl_top mb eb m e" by (simp add: mag_exp_def fl_top_def algebra_simps)
  have sc: "?x / 2 powr of_int (fl_top mb eb m e) = of_int m * 2 powr of_int (e - fl_top mb eb m e)"
    by (simp add: powr_diff)
  have q: "(if e \<le> fl_top mb eb m e then rne m (nat (fl_top mb eb m e - e)) else m * 2 ^ nat (e - fl_top mb eb m e))
      = rne_real (?x / 2 powr of_int (fl_top mb eb m e))"
  proof (cases "e \<le> fl_top mb eb m e")
    case True
    then have "of_int (e - fl_top mb eb m e) = - real (nat (fl_top mb eb m e - e))" by simp
    then have "(2::real) powr of_int (e - fl_top mb eb m e) = 1 / 2 ^ nat (fl_top mb eb m e - e)"
      by (simp only: powr_minus_divide powr_realpow zero_less_numeral)
    then show ?thesis unfolding sc using True by (simp add: rne_eq_real)
  next
    case False
    then have "(2::real) powr of_int (e - fl_top mb eb m e) = 2 ^ nat (e - fl_top mb eb m e)"
      by (simp add: powr_realpow [symmetric])
    then have "of_int m * (2::real) powr of_int (e - fl_top mb eb m e) = of_int (m * 2 ^ nat (e - fl_top mb eb m e))"
      by simp
    then show ?thesis unfolding sc using False by (simp only: rne_real_int if_False)
  qed
  show ?thesis
    using False m by (simp add: fl_mag_def mag_real_def E Let_def q)
qed

lemma rne_real_le: "x \<le> of_int n \<Longrightarrow> rne_real x \<le> n"
  using rne_real_mono [of x "of_int n"] by simp

lemma rne_real_ge: "of_int n \<le> x \<Longrightarrow> n \<le> rne_real x"
  using rne_real_mono [of "of_int n" x] by simp

lemma mag_exp_mono: "0 < x \<Longrightarrow> x \<le> y \<Longrightarrow> mag_exp mb eb x \<le> mag_exp mb eb y"
  using floor_mono [of "log 2 x" "log 2 y"] by (auto simp: mag_exp_def max_def)

lemma mag_exp_upper: "0 < x \<Longrightarrow> x < 2 powr (of_int (mag_exp mb eb x + int mb + 1))"
proof -
  assume x: "0 < x"
  have "log 2 x < of_int (\<lfloor>log 2 x\<rfloor> + 1)" by linarith
  also have "of_int (\<lfloor>log 2 x\<rfloor> + 1) \<le> (of_int (mag_exp mb eb x + int mb + 1) :: real)"
    by (simp only: of_int_le_iff) (simp add: mag_exp_def)
  finally have "2 powr log 2 x < 2 powr (of_int (mag_exp mb eb x + int mb + 1))"
    by simp
  then show ?thesis using x by simp
qed

lemma mag_exp_lower:
  "0 < x \<Longrightarrow> fl_emin mb eb < mag_exp mb eb x \<Longrightarrow> 2 powr (of_int (mag_exp mb eb x + int mb)) \<le> x"
proof -
  assume x: "0 < x" and "fl_emin mb eb < mag_exp mb eb x"
  then have "mag_exp mb eb x + int mb = \<lfloor>log 2 x\<rfloor>" by (auto simp: mag_exp_def max_def split: if_splits)
  then have "(2::real) powr (of_int (mag_exp mb eb x + int mb)) \<le> 2 powr log 2 x" by simp
  then show ?thesis using x by simp
qed

lemma mag_real_mono:
  assumes "0 \<le> x" "x \<le> y"
  shows "mag_real mb eb x \<le> mag_real mb eb y"
proof -
  let ?E = "mag_exp mb eb" and ?m = "fl_emin mb eb"
  have nonneg: "0 \<le> mag_real mb eb z" if "0 \<le> z" for z
  proof (cases "z = 0")
    case False
    have "0 \<le> rne_real (z / 2 powr of_int (?E z))" using that by (intro rne_real_ge) simp
    moreover have "0 \<le> (?E z - ?m) * 2 ^ mb" by (simp add: mag_exp_def)
    ultimately show ?thesis using False by (simp add: mag_real_def)
  qed (simp add: mag_real_def)
  show ?thesis
  proof (cases "x = 0")
    case True
    then show ?thesis using nonneg [of y] assms by (simp add: mag_real_def)
  next
    case False
    then have x: "0 < x" and y: "0 < y" using assms by simp_all
    show ?thesis
    proof (cases "?E x = ?E y")
      case True
      have "rne_real (x / 2 powr of_int (?E y)) \<le> rne_real (y / 2 powr of_int (?E y))"
        using assms by (intro rne_real_mono divide_right_mono) simp_all
      then show ?thesis using x y True by (simp add: mag_real_def)
    next
      case False
      then have lt: "?E x + 1 \<le> ?E y" using mag_exp_mono [OF x assms(2), of mb eb] by simp
      then have em: "?m < ?E y" by (auto simp: mag_exp_def)
      have "x / 2 powr of_int (?E x) \<le> 2 powr (of_int (?E x + int mb + 1)) / 2 powr of_int (?E x)"
        using mag_exp_upper [OF x, of mb eb] by (intro divide_right_mono) simp_all
      also have "\<dots> = 2 powr (of_int (int mb + 1))" by (simp add: powr_diff [symmetric])
      also have "\<dots> = of_int (2 ^ (mb + 1))" by (simp add: powr_realpow [symmetric] powr_add)
      finally have q1: "rne_real (x / 2 powr of_int (?E x)) \<le> 2 ^ (mb + 1)" by (rule rne_real_le)
      have "(of_int (2 ^ mb) :: real) = 2 powr (of_int (?E y + int mb)) / 2 powr of_int (?E y)"
        by (simp add: powr_diff [symmetric] powr_realpow)
      also have "\<dots> \<le> y / 2 powr of_int (?E y)"
        using mag_exp_lower [OF y em] by (intro divide_right_mono) simp_all
      finally have q2: "2 ^ mb \<le> rne_real (y / 2 powr of_int (?E y))" by (rule rne_real_ge)
      have "(?E x - ?m) * 2 ^ mb + 2 ^ (mb + 1) = (?E x + 1 - ?m) * 2 ^ mb + 2 ^ mb" by (simp add: algebra_simps)
      also have "\<dots> \<le> (?E y - ?m) * 2 ^ mb + 2 ^ mb" using lt by (intro add_mono mult_right_mono) simp_all
      finally show ?thesis using q1 q2 x y by (simp add: mag_real_def)
    qed
  qed
qed

section \<open>Decoding undoes encoding\<close>

definition fp_val :: "fp \<Rightarrow> real" where
  "fp_val v = (case v of FFin s m e \<Rightarrow> (if s then -1 else 1) * (of_int m * 2 powr of_int e) | _ \<Rightarrow> 0)"

text \<open>The magnitude bits \<open>a\<close> of a finite number as a significand and an exponent.\<close>

definition mag_m :: "nat \<Rightarrow> int \<Rightarrow> int" where
  "mag_m mb a = (if a div 2 ^ mb = 0 then a mod 2 ^ mb else a mod 2 ^ mb + 2 ^ mb)"

definition mag_e :: "nat \<Rightarrow> nat \<Rightarrow> int \<Rightarrow> int" where
  "mag_e mb eb a = fl_emin mb eb + (if a div 2 ^ mb = 0 then 0 else a div 2 ^ mb - 1)"

definition mag_val :: "nat \<Rightarrow> nat \<Rightarrow> int \<Rightarrow> real" where
  "mag_val mb eb a = of_int (mag_m mb a) * 2 powr of_int (mag_e mb eb a)"

lemma fl_decode_finite:
  assumes "b mod 2 ^ (mb + eb) < fl_inf mb eb"
  shows "fl_decode mb eb b = FFin ((b div 2 ^ (mb + eb)) mod 2 = 1)
           (mag_m mb (b mod 2 ^ (mb + eb))) (mag_e mb eb (b mod 2 ^ (mb + eb)))"
  using assms by (simp add: fl_decode_def Let_def mag_m_def mag_e_def)

lemma mag_m_nonneg: "0 \<le> a \<Longrightarrow> 0 \<le> mag_m mb a"
  by (simp add: mag_m_def)

lemma mag_val_nonneg: "0 \<le> a \<Longrightarrow> 0 \<le> mag_val mb eb a"
  by (simp add: mag_val_def mag_m_nonneg)

lemma mag_real_val:
  assumes a: "0 \<le> a"
  shows "mag_real mb eb (mag_val mb eb a) = a"
proof (cases "a div 2 ^ mb = 0")
  case True
  have sm: "a < 2 ^ mb" using True a by (simp add: zdiv_eq_0_iff) (smt (verit) zero_less_power)
  have e: "mag_e mb eb a = fl_emin mb eb" "mag_m mb a = a" using True a sm by (simp_all add: mag_e_def mag_m_def)
  show ?thesis
  proof (cases "a = 0")
    case True
    then show ?thesis by (simp add: mag_real_def mag_val_def mag_m_def)
  next
    case False
    then have a0: "0 < a" using a by simp
    have "(of_int a :: real) < of_int (2 ^ mb)" using sm by (simp only: of_int_less_iff)
    then have "(of_int a :: real) < 2 powr of_int (int mb)" by (simp add: powr_realpow)
    then have "log 2 (of_int a) < of_int (int mb)" using a0 by (simp add: log_less_iff)
    then have "log 2 (mag_val mb eb a) < of_int (int mb + fl_emin mb eb)"
      using a0 by (simp add: mag_val_def e log_mult)
    then have "mag_exp mb eb (mag_val mb eb a) = fl_emin mb eb" by (simp add: mag_exp_def) linarith
    then show ?thesis using a0 by (simp add: mag_real_def) (simp add: mag_val_def e)
  qed
next
  case False
  let ?x = "a div 2 ^ mb" and ?m = "mag_m mb a" and ?e = "mag_e mb eb a"
  have x: "1 \<le> ?x" using False a by (smt (verit) pos_imp_zdiv_nonneg_iff zero_less_power)
  have m: "?m = a mod 2 ^ mb + 2 ^ mb" and e: "?e = fl_emin mb eb + ?x - 1"
    using False by (simp_all add: mag_m_def mag_e_def)
  have mb: "2 ^ mb \<le> ?m" "?m < 2 ^ (mb + 1)" unfolding m by simp_all
  have m1: "2 powr of_int (int mb) \<le> (of_int ?m :: real)"
  proof -
    have "of_int (2 ^ mb) \<le> (of_int ?m :: real)" using mb(1) by (simp only: of_int_le_iff)
    then show ?thesis by (simp add: powr_realpow)
  qed
  have m2: "(of_int ?m :: real) < 2 powr of_int (int mb + 1)"
  proof -
    have "(of_int ?m :: real) < of_int (2 ^ (mb + 1))" using mb(2) by (simp only: of_int_less_iff)
    then show ?thesis by (simp add: powr_add powr_realpow)
  qed
  have m0: "0 < ?m" using mb by (smt (verit) zero_less_power)
  have "\<lfloor>log 2 (of_int ?m)\<rfloor> = int mb"
    using m0 m1 m2 by (simp add: floor_log_eq_powr_iff)
  then have "\<lfloor>log 2 (mag_val mb eb a)\<rfloor> = int mb + ?e"
    using m0 by (simp add: mag_val_def log_mult)
  then have E: "mag_exp mb eb (mag_val mb eb a) = ?e" using x e by (simp add: mag_exp_def)
  have "mag_val mb eb a \<noteq> 0" using m0 by (simp add: mag_val_def)
  then have "mag_real mb eb (mag_val mb eb a) = (?e - fl_emin mb eb) * 2 ^ mb + ?m"
    by (simp add: mag_real_def E) (simp add: mag_val_def)
  also have "\<dots> = ?x * 2 ^ mb + a mod 2 ^ mb" unfolding e m by (simp add: algebra_simps)
  also have "\<dots> = a" by (simp only: div_mult_mod_eq)
  finally show ?thesis .
qed

lemma mag_val_mono_iff:
  assumes "0 \<le> a" "0 \<le> b"
  shows "mag_val mb eb a \<le> mag_val mb eb b \<longleftrightarrow> a \<le> b"
proof
  assume "mag_val mb eb a \<le> mag_val mb eb b"
  from mag_real_mono [OF mag_val_nonneg [OF assms(1)] this, of mb eb] show "a \<le> b"
    using assms by (simp add: mag_real_val)
next
  assume ab: "a \<le> b"
  show "mag_val mb eb a \<le> mag_val mb eb b"
  proof (rule ccontr)
    assume "\<not> ?thesis"
    then have "mag_val mb eb b \<le> mag_val mb eb a" "mag_val mb eb b \<noteq> mag_val mb eb a" by auto
    from mag_real_mono [OF mag_val_nonneg [OF assms(2)] this(1), of mb eb] have "b \<le> a"
      using assms by (simp add: mag_real_val)
    then show False using ab \<open>mag_val mb eb b \<noteq> mag_val mb eb a\<close> by simp
  qed
qed

lemma fl_mag_bounds: "0 \<le> m \<Longrightarrow> 0 \<le> fl_mag mb eb m e" "fl_mag mb eb m e \<le> fl_inf mb eb"
proof -
  show "0 \<le> m \<Longrightarrow> 0 \<le> fl_mag mb eb m e"
    using mag_real_mono [of 0 "of_int m * 2 powr of_int e" mb eb]
    by (simp add: fl_mag_real mag_real_def fl_inf_def)
  show "fl_mag mb eb m e \<le> fl_inf mb eb"
    by (simp add: fl_mag_def Let_def fl_inf_def)
qed

text \<open>Rounding is monotone: a bound on the exact magnitude is a bound on the bits.\<close>

lemma fl_mag_le:
  assumes "0 \<le> m" "0 \<le> n" "of_int m * 2 powr of_int e \<le> (of_int n * 2 powr of_int f :: real)"
  shows "fl_mag mb eb m e \<le> fl_mag mb eb n f"
  using mag_real_mono [OF _ assms(3), of mb eb] assms by (simp add: fl_mag_real)

lemma fl_mag_le_bits:
  assumes "0 \<le> m" "0 \<le> a" "of_int m * 2 powr of_int e \<le> mag_val mb eb a"
  shows "fl_mag mb eb m e \<le> a"
  using mag_real_mono [OF _ assms(3), of mb eb] assms by (simp add: fl_mag_real mag_real_val)

lemma fl_mag_ge_bits:
  assumes "0 \<le> m" "0 \<le> a" "a \<le> fl_inf mb eb" "mag_val mb eb a \<le> of_int m * 2 powr of_int e"
  shows "a \<le> fl_mag mb eb m e"
  using mag_real_mono [OF mag_val_nonneg [OF assms(2)] assms(4), of mb eb] assms by (simp add: fl_mag_real mag_real_val)

lemma fl_mag_id:
  assumes "0 \<le> a" "a \<le> fl_inf mb eb"
  shows "fl_mag mb eb (mag_m mb a) (mag_e mb eb a) = a"
  using assms mag_real_val [OF assms(1), of mb eb] by (simp add: fl_mag_real mag_m_nonneg mag_val_def)


section \<open>The two formats on words\<close>

lemma and_mask31: "uint (a AND (0x7FFFFFFF :: u32)) = uint a mod 2 ^ 31"
proof -
  have "(0x7FFFFFFF :: u32) = mask 31" by (simp add: mask_eq_exp_minus_1)
  then have "a AND 0x7FFFFFFF = take_bit 31 a" by (simp only: take_bit_eq_mask)
  then show ?thesis by (simp only: unsigned_take_bit_eq) (simp add: take_bit_eq_mod)
qed

definition f32_mag :: "f32 \<Rightarrow> int" where
  "f32_mag a = uint a mod 2 ^ 31"

definition f32_sign :: "f32 \<Rightarrow> bool" where
  "f32_sign a \<longleftrightarrow> uint a div 2 ^ 31 = 1"

definition f32_finite :: "f32 \<Rightarrow> bool" where
  "f32_finite a \<longleftrightarrow> f32_mag a < 0x7F800000"

definition f32_val :: "f32 \<Rightarrow> real" where
  "f32_val a = fp_val (f32_decode a)"

lemma f32_top: "uint (a :: f32) div 2 ^ 31 \<in> {0, 1}"
proof -
  have "uint a < 2 ^ 32" "0 \<le> uint a" using uint_bounded [of a] by simp_all
  then have "uint a div 2 ^ 31 < 2" "0 \<le> uint a div 2 ^ 31"
    by (simp_all add: div_less_iff_less_mult pos_imp_zdiv_nonneg_iff)
  then show ?thesis by auto
qed

lemma f32_mag_nonneg [simp]: "0 \<le> f32_mag a"
  by (simp add: f32_mag_def)

lemma fl_inf_32 [simp]: "fl_inf 23 8 = 0x7F800000"
  by (simp add: fl_inf_def)

lemma f32_decode_finite:
  "f32_finite a \<Longrightarrow> f32_decode a = FFin (f32_sign a) (mag_m 23 (f32_mag a)) (mag_e 23 8 (f32_mag a))"
  using f32_top [of a] fl_decode_finite [of "uint a" 23 8]
  by (auto simp: f32_decode_def f32_finite_def f32_mag_def f32_sign_def)

lemma f32_val_finite:
  "f32_finite a \<Longrightarrow> f32_val a = (if f32_sign a then -1 else 1) * mag_val 23 8 (f32_mag a)"
  by (simp add: f32_val_def f32_decode_finite fp_val_def mag_val_def)

lemma bit31: "bit (a :: f32) 31 = f32_sign a"
proof -
  have "bit a 31 = bit (uint a) 31" by (simp add: bit_uint_iff)
  also have "\<dots> = odd (uint a div 2 ^ 31)" by (simp add: bit_iff_odd)
  finally show ?thesis using f32_top [of a] by (auto simp: f32_sign_def)
qed

lemma f32_key_eq: "f32_key a = sgn_int (f32_sign a) (f32_mag a)"
  by (simp add: f32_key_def bit31 and_mask31 f32_mag_def)

lemma f32_is_nan_iff: "f32_is_nan a = (0x7F800000 < f32_mag a)"
  by (simp add: f32_is_nan_def word_less_def and_mask31 f32_mag_def)

lemma f32_finite_not_nan: "f32_finite a \<Longrightarrow> \<not> f32_is_nan a"
  by (simp add: f32_is_nan_iff f32_finite_def)

lemma mag_val_strict: "0 \<le> a \<Longrightarrow> 0 \<le> b \<Longrightarrow> mag_val mb eb a < mag_val mb eb b \<longleftrightarrow> a < b"
  by (metis mag_val_mono_iff not_le)

lemma mag_val_0 [simp]: "mag_val mb eb 0 = 0"
  by (simp add: mag_val_def mag_m_def)

text \<open>The key orders the finite numbers as their values.\<close>

lemma f32_key_val:
  assumes "f32_finite a" "f32_finite b"
  shows "f32_key a \<le> f32_key b \<longleftrightarrow> f32_val a \<le> f32_val b"
proof -
  have *: "mag_val 23 8 (f32_mag a) \<le> mag_val 23 8 (f32_mag b) \<longleftrightarrow> f32_mag a \<le> f32_mag b"
    "mag_val 23 8 (f32_mag b) \<le> mag_val 23 8 (f32_mag a) \<longleftrightarrow> f32_mag b \<le> f32_mag a"
    by (simp_all add: mag_val_mono_iff)
  have z: "mag_val 23 8 (f32_mag a) = 0 \<longleftrightarrow> f32_mag a = 0" for a
    using mag_val_mono_iff [of "f32_mag a" 0 23 8] mag_val_nonneg [of "f32_mag a" 23 8]
    by (auto simp: order.antisym)
  have n: "0 \<le> mag_val 23 8 (f32_mag a)" "0 \<le> mag_val 23 8 (f32_mag b)"
    by (simp_all add: mag_val_nonneg)
  define p where "p = mag_val 23 8 (f32_mag a)"
  define q where "q = mag_val 23 8 (f32_mag b)"
  define x where "x = f32_mag a"
  define y where "y = f32_mag b"
  have f: "p \<le> q \<longleftrightarrow> x \<le> y" "q \<le> p \<longleftrightarrow> y \<le> x" "0 \<le> p" "0 \<le> q" "p = 0 \<longleftrightarrow> x = 0" "q = 0 \<longleftrightarrow> y = 0"
    "0 \<le> x" "0 \<le> y"
    using * n z by (simp_all add: p_def q_def x_def y_def)
  have m: "x \<le> - y \<longleftrightarrow> p \<le> - q" using f by linarith
  have k: "f32_key a = sgn_int (f32_sign a) x" "f32_key b = sgn_int (f32_sign b) y"
    by (simp_all add: f32_key_eq x_def y_def)
  have v: "f32_val a = (if f32_sign a then -1 else 1) * p" "f32_val b = (if f32_sign b then -1 else 1) * q"
    by (simp_all add: f32_val_finite assms p_def q_def)
  show ?thesis
    unfolding k v using f m by (cases "f32_sign a"; cases "f32_sign b") (simp_all add: sgn_int_def)
qed

lemma f32_encode_finite:
  assumes "0 \<le> m"
  shows "f32_mag (f32_encode (FFin s m e)) = fl_mag 23 8 m e"
    and "f32_sign (f32_encode (FFin s m e)) = s"
proof -
  let ?g = "fl_mag 23 8 m e"
  have b: "0 \<le> ?g" "?g \<le> 0x7F800000" using fl_mag_bounds(1) [OF assms, of 23 8 e] fl_mag_bounds(2) [of 23 8 m e] by simp_all
  have u: "uint (f32_encode (FFin s m e)) = (if s then 2 ^ 31 else 0) + ?g"
    unfolding f32_encode_def fl_encode_def fp.case uint_word_of_int using b by (cases s) simp_all
  show "f32_mag (f32_encode (FFin s m e)) = ?g"
    using b unfolding f32_mag_def u by (cases s) simp_all
  show "f32_sign (f32_encode (FFin s m e)) = s"
    using b unfolding f32_sign_def u by (cases s) simp_all
qed

lemma f32_encode_nan [simp]: "f32_encode FNan = 0x7FC00000"
  by (simp add: f32_encode_def fl_encode_def)

section \<open>Bounds on results\<close>

lemma fp_trunc_finite:
  assumes "0 \<le> m" "of_int m * 2 powr of_int e \<le> (of_int B :: real)"
  shows "\<exists>n. fp_trunc (FFin s m e) = Some (sgn_int s n) \<and> 0 \<le> n \<and> n \<le> B"
proof (cases "0 \<le> e")
  case True
  then have "of_int m * 2 powr of_int e = (of_int (m * 2 ^ nat e) :: real)"
    by (simp add: powr_realpow [symmetric])
  then have "m * 2 ^ nat e \<le> B" using assms(2) by (simp only: of_int_le_iff)
  then show ?thesis
    using True assms(1) by (intro exI [of _ "m * 2 ^ nat e"]) (simp add: fp_trunc_def)
next
  case False
  then have e: "of_int e = - real (nat (- e))" by simp
  have "(of_int m :: real) * 2 powr of_int e = of_int m / of_int (2 ^ nat (- e))"
    unfolding e by (simp add: powr_minus powr_realpow divide_inverse)
  then have "of_int m / of_int (2 ^ nat (- e)) \<le> (of_int B :: real)" using assms(2) by simp
  then have "\<lfloor>of_int m / (of_int (2 ^ nat (- e)) :: real)\<rfloor> \<le> B" by linarith
  then have "m div 2 ^ nat (- e) \<le> B" by (simp only: floor_divide_of_int_eq)
  moreover have "0 \<le> m div 2 ^ nat (- e)" using assms(1) by (simp add: pos_imp_zdiv_nonneg_iff)
  ultimately show ?thesis
    using False by (intro exI [of _ "m div 2 ^ nat (- e)"]) (simp add: fp_trunc_def)
qed

lemma mag_val_neg:
  "mag_m mb a = m \<Longrightarrow> mag_e mb eb a = - int k \<Longrightarrow> mag_val mb eb a = of_int m / 2 ^ k"
  by (simp add: mag_val_def powr_minus_divide powr_realpow)

lemma mag_val_2p21: "mag_val 23 8 0x4A000000 = of_int (2 ^ 21)"
  using mag_val_neg [of 23 "0x4A000000" 8388608 8 2] by (simp add: mag_m_def mag_e_def fl_emin_def)

text \<open>The product of two finite magnitudes and its bits.\<close>

lemma f32_mul_finite:
  assumes "f32_finite a" "f32_finite b"
  shows "f32_sign (f32_mul a b) = (f32_sign a \<noteq> f32_sign b)"
    and "0 \<le> K \<Longrightarrow> mag_val 23 8 (f32_mag a) * mag_val 23 8 (f32_mag b) \<le> mag_val 23 8 K \<Longrightarrow>
         f32_mag (f32_mul a b) \<le> K"
proof -
  let ?m = "mag_m 23 (f32_mag a) * mag_m 23 (f32_mag b)"
  let ?e = "mag_e 23 8 (f32_mag a) + mag_e 23 8 (f32_mag b)"
  have p: "f32_mul a b = f32_encode (FFin (f32_sign a \<noteq> f32_sign b) ?m ?e)"
    using assms by (simp add: f32_mul_def f32_decode_finite)
  have m: "0 \<le> ?m" by (simp add: mag_m_nonneg)
  show "f32_sign (f32_mul a b) = (f32_sign a \<noteq> f32_sign b)"
    unfolding p by (rule f32_encode_finite(2) [OF m])
  assume K: "0 \<le> K" "mag_val 23 8 (f32_mag a) * mag_val 23 8 (f32_mag b) \<le> mag_val 23 8 K"
  have "of_int ?m * 2 powr of_int ?e = mag_val 23 8 (f32_mag a) * mag_val 23 8 (f32_mag b)"
    by (simp add: mag_val_def powr_add)
  then show "f32_mag (f32_mul a b) \<le> K"
    unfolding p f32_encode_finite(1) [OF m] using K by (intro fl_mag_le_bits [OF m]) simp_all
qed

lemma f32_to_i32_bounded:
  assumes "f32_mag a \<le> K" "mag_val 23 8 K = of_int B" "B \<le> 2 ^ 31 - 1" "K < 0x7F800000"
  shows "\<exists>n. f32_to_i32 a = Some (sgn_int (f32_sign a) n) \<and> 0 \<le> n \<and> n \<le> B"
proof -
  have fin: "f32_finite a" using assms by (simp add: f32_finite_def)
  have "0 \<le> K" using assms(1) f32_mag_nonneg [of a] by linarith
  then have "mag_val 23 8 (f32_mag a) \<le> of_int B"
    using mag_val_mono_iff [of "f32_mag a" K 23 8] assms by simp
  then obtain n where n: "fp_trunc (f32_decode a) = Some (sgn_int (f32_sign a) n)" "0 \<le> n" "n \<le> B"
    using fp_trunc_finite [of "mag_m 23 (f32_mag a)" "mag_e 23 8 (f32_mag a)" B "f32_sign a"]
    by (auto simp: f32_decode_finite [OF fin] mag_val_def mag_m_nonneg)
  then have "f32_to_i32 a = Some (sgn_int (f32_sign a) n)"
    using assms(3) by (auto simp: f32_to_i32_def in_range_def sgn_int_def)
  then show ?thesis using n by blast
qed

lemma key_le_0: "f32_key d \<le> 0 \<longleftrightarrow> f32_sign d \<or> f32_mag d = 0"
  using f32_mag_nonneg [of d] by (auto simp: f32_key_eq sgn_int_def simp del: f32_mag_nonneg)

section \<open>Neighbours and quotients\<close>

lemma mag_val_Suc:
  assumes "1 \<le> a" "0 < mb"
  shows "mag_val mb eb (a + 1) \<le> 2 * mag_val mb eb a"
proof -
  obtain x f where xf: "a div 2 ^ mb = x" "a mod 2 ^ mb = f" by simp
  have a: "a = x * 2 ^ mb + f" unfolding xf [symmetric] by (simp only: div_mult_mod_eq)
  have f: "0 \<le> f" "f < 2 ^ mb" unfolding xf [symmetric] by simp_all
  have x: "0 \<le> x" unfolding xf [symmetric] using assms(1) by (simp add: pos_imp_zdiv_nonneg_iff)
  have two: "(2::int) \<le> 2 ^ mb" using assms(2) by (cases mb) simp_all
  show ?thesis
  proof (cases "f + 1 = 2 ^ mb")
    case False
    have "(a + 1) div 2 ^ mb = x" "(a + 1) mod 2 ^ mb = f + 1"
    proof -
      have e: "a + 1 = (f + 1) + x * 2 ^ mb" using a by simp
      have "f + 1 < 2 ^ mb" using f False by simp
      then show "(a + 1) div 2 ^ mb = x" "(a + 1) mod 2 ^ mb = f + 1"
        unfolding e using f by simp_all
    qed
    then have "mag_m mb (a + 1) = mag_m mb a + 1" "mag_e mb eb (a + 1) = mag_e mb eb a"
      by (simp_all add: mag_m_def mag_e_def xf)
    moreover have "1 \<le> mag_m mb a" using assms(1) a f two by (auto simp: mag_m_def xf)
    ultimately show ?thesis
      by (simp add: mag_val_def)
  next
    case True
    have n: "(a + 1) div 2 ^ mb = x + 1" "(a + 1) mod 2 ^ mb = 0"
    proof -
      have e: "a + 1 = (x + 1) * 2 ^ mb" using a True by (simp add: distrib_right)
      show "(a + 1) div 2 ^ mb = x + 1" "(a + 1) mod 2 ^ mb = 0" unfolding e by simp_all
    qed
    have x1: "x + 1 \<noteq> 0" using x by simp
    have m': "mag_m mb (a + 1) = 2 ^ mb" using n x1 by (simp add: mag_m_def)
    have e': "mag_e mb eb (a + 1) = fl_emin mb eb + x" using n x1 by (simp add: mag_e_def)
    show ?thesis
    proof (cases "x = 0")
      case x0: True
      have "mag_m mb a = f" "mag_e mb eb a = fl_emin mb eb" by (simp_all add: mag_m_def mag_e_def xf x0)
      moreover have "(2::int) ^ mb \<le> 2 * f" using True two by simp
      then have "of_int (2 ^ mb) \<le> (of_int (2 * f) :: real)" by (simp only: of_int_le_iff)
      ultimately show ?thesis by (simp add: mag_val_def m' e' x0)
    next
      case x1: False
      have "mag_m mb a = f + 2 ^ mb" "mag_e mb eb a = fl_emin mb eb + x - 1" using x1 by (simp_all add: mag_m_def mag_e_def xf)
      moreover have "(2::int) ^ mb \<le> f + 2 ^ mb" using f by simp
      then have "of_int (2 ^ mb) \<le> (of_int (f + 2 ^ mb) :: real)" by (simp only: of_int_le_iff)
      moreover have "(2::real) powr (real_of_int (fl_emin mb eb) + real_of_int x) =
          2 * 2 powr (real_of_int (fl_emin mb eb) + real_of_int x - 1)"
        by (simp add: powr_diff)
      ultimately show ?thesis
        by (simp add: mag_val_def m' e')
    qed
  qed
qed

text \<open>The exact magnitude and the rounded one are within a factor of two.\<close>

lemma fl_mag_near:
  assumes m: "0 \<le> m" and mb: "0 < mb" and lt: "fl_mag mb eb m e < fl_inf mb eb"
  defines "V \<equiv> of_int m * 2 powr of_int e" and "B \<equiv> fl_mag mb eb m e"
  shows "1 \<le> B \<Longrightarrow> V \<le> 2 * mag_val mb eb B" and "2 \<le> B \<Longrightarrow> mag_val mb eb B \<le> 2 * V"
proof -
  have V: "0 \<le> V" using m by (simp add: V_def)
  have B: "mag_real mb eb V = B"
    using lt fl_mag_real [OF m, of mb eb e] by (simp add: B_def V_def min_def split: if_splits)
  show "V \<le> 2 * mag_val mb eb B" if "1 \<le> B"
  proof -
    have "V \<le> mag_val mb eb (B + 1)"
    proof (rule ccontr)
      assume "\<not> ?thesis"
      then have "mag_val mb eb (B + 1) \<le> V" by simp
      from mag_real_mono [OF mag_val_nonneg this, of mb eb] have "B + 1 \<le> B"
        using that by (simp add: mag_real_val B)
      then show False by simp
    qed
    then show ?thesis using mag_val_Suc [OF that mb, of eb] by linarith
  qed
  show "mag_val mb eb B \<le> 2 * V" if "2 \<le> B"
  proof -
    have "mag_val mb eb (B - 1) \<le> V"
    proof (rule ccontr)
      assume "\<not> ?thesis"
      then have "V \<le> mag_val mb eb (B - 1)" by simp
      from mag_real_mono [OF V this, of mb eb] have "B \<le> B - 1"
        using that by (simp add: mag_real_val B)
      then show False by simp
    qed
    then show ?thesis using mag_val_Suc [of "B - 1" mb eb] mb that by simp
  qed
qed

lemma bitlen_gt: "0 < n \<Longrightarrow> n < 2 ^ nat (bitlen n)"
  using bitlen_bounds [of n] by simp

text \<open>The quotient with its sticky bit is within a factor of two of the exact one.\<close>

lemma fp_div_finite:
  assumes m: "0 \<le> m" and n: "0 < n"
  shows "\<exists>q g. fp_div p (FFin s m e) (FFin t n f) = FFin (s \<noteq> t) q g \<and> 0 \<le> q \<and>
    of_int q * 2 powr of_int g \<le> (2 * ((of_int m * 2 powr of_int e) / (of_int n * 2 powr of_int f)) :: real) \<and>
    (of_int m * 2 powr of_int e) / (of_int n * 2 powr of_int f) \<le> 2 * (of_int q * 2 powr of_int g :: real)"
proof -
  define k where "k = p + nat (bitlen n)"
  define a where "a = m * 2 ^ k"
  define st :: int where "st = (if a mod n = 0 then 0 else 1)"
  define q where "q = a div n"
  have a0: "0 \<le> a" using m by (simp add: a_def)
  have q0: "0 \<le> q" using a0 n by (simp add: q_def pos_imp_zdiv_nonneg_iff)
  have d: "fp_div p (FFin s m e) (FFin t n f) = FFin (s \<noteq> t) (2 * q + st) (e - f - int k - 1)"
    using n by (simp add: Let_def k_def a_def st_def q_def)
  have an: "a = q * n + a mod n" by (simp add: q_def)
  have lo: "of_int q \<le> (of_int a / of_int n :: real)"
  proof -
    have "q * n \<le> a" using an n by (simp add: q_def minus_mod_eq_div_mult [symmetric])
    then have "of_int q * of_int n \<le> (of_int a :: real)" by (metis of_int_le_iff of_int_mult)
    then show ?thesis using n by (simp add: pos_le_divide_eq)
  qed
  have hi: "(of_int a / of_int n :: real) \<le> of_int q + 1"
  proof -
    have "a mod n < n" using n by simp
    then have "a \<le> (q + 1) * n" using an by (simp add: distrib_right)
    then have "of_int a \<le> (of_int ((q + 1) * n) :: real)" by (simp only: of_int_le_iff)
    then show ?thesis using n by (simp add: pos_divide_le_eq)
  qed
  have q1: "1 \<le> q" if "st = 1"
  proof -
    have "m \<noteq> 0" using that by (auto simp: st_def a_def split: if_splits)
    then have "1 \<le> m" using m by simp
    have "n \<le> 2 ^ nat (bitlen n)" using bitlen_gt [OF n] by simp
    also have "\<dots> \<le> 2 ^ k" by (intro power_increasing) (simp_all add: k_def)
    also have "\<dots> \<le> a" using \<open>1 \<le> m\<close> by (simp add: a_def)
    finally have "n \<le> a" .
    from zdiv_mono1 [OF this n] show ?thesis using n by (simp add: q_def)
  qed
  have st: "st = 0 \<or> st = 1" by (simp add: st_def)
  define W where "W = (2 * of_int q + of_int st) / (2::real)"
  have W1: "W \<le> 2 * (of_int a / of_int n)"
    using st lo q1 q0 by (auto simp: W_def)
  have W2: "of_int a / of_int n \<le> 2 * W"
  proof (cases "st = 1")
    case True
    then have "W = of_int q + 1 / 2" by (simp add: W_def)
    moreover have "(1::real) \<le> of_int q" using q1 [OF True] by simp
    ultimately show ?thesis using hi by linarith
  next
    case False
    then have "a mod n = 0" by (simp add: st_def split: if_splits)
    then have "a = q * n" using an by simp
    then have "of_int a / of_int n = (of_int q :: real)" using n by simp
    then show ?thesis using False st q0 by (simp add: W_def)
  qed
  define S where "S = (2::real) powr of_int (e - f - int k)"
  have S: "0 < S" by (simp add: S_def)
  have vq: "of_int (2 * q + st) * 2 powr of_int (e - f - int k - 1) = W * S"
    by (simp add: W_def S_def powr_diff)
  have vr: "(of_int m * 2 powr of_int e) / (of_int n * 2 powr of_int f) = (of_int a / of_int n) * S"
    using n by (simp add: a_def S_def powr_diff powr_realpow)
  have "W * S \<le> 2 * (of_int a / of_int n) * S" "of_int a / of_int n * S \<le> 2 * W * S"
    using W1 W2 S by (intro mult_right_mono; simp)+
  then show ?thesis
    unfolding d vr using q0 st
    by - (rule exI [of _ "2 * q + st"], rule exI [of _ "e - f - int k - 1"],
        unfold vq, auto simp: mult.assoc)
qed


lemma f32_div_finite:
  assumes fin: "f32_finite a" "f32_finite b" and b: "f32_mag b \<noteq> 0"
  defines "Q \<equiv> mag_val 23 8 (f32_mag a) / mag_val 23 8 (f32_mag b)"
  shows "f32_sign (f32_div a b) = (f32_sign a \<noteq> f32_sign b)"
    and "\<exists>m e. 0 \<le> m \<and> f32_mag (f32_div a b) = fl_mag 23 8 m e
      \<and> of_int m * 2 powr of_int e \<le> 2 * Q \<and> Q \<le> 2 * (of_int m * 2 powr of_int e :: real)"
proof -
  let ?n = "mag_m 23 (f32_mag b)"
  have n: "0 < ?n"
  proof -
    have "mag_val 23 8 (f32_mag b) \<noteq> 0"
      using b mag_val_mono_iff [of "f32_mag b" 0 23 8] f32_mag_nonneg [of b] by auto
    then have "?n \<noteq> 0" by (auto simp: mag_val_def)
    then show ?thesis using mag_m_nonneg [of "f32_mag b" 23] by simp
  qed
  have "\<exists>q g. fp_div 26 (f32_decode a) (f32_decode b) = FFin (f32_sign a \<noteq> f32_sign b) q g \<and> 0 \<le> q \<and>
    of_int q * 2 powr of_int g \<le> 2 * Q \<and> Q \<le> 2 * (of_int q * 2 powr of_int g :: real)"
    unfolding f32_decode_finite [OF fin(1)] f32_decode_finite [OF fin(2)] Q_def mag_val_def
    by (rule fp_div_finite [OF mag_m_nonneg n]) simp
  then obtain q g where qg: "fp_div 26 (f32_decode a) (f32_decode b) = FFin (f32_sign a \<noteq> f32_sign b) q g" "0 \<le> q"
    "of_int q * 2 powr of_int g \<le> 2 * Q" "Q \<le> 2 * (of_int q * 2 powr of_int g :: real)"
    by blast
  have d: "f32_div a b = f32_encode (FFin (f32_sign a \<noteq> f32_sign b) q g)"
    by (simp only: f32_div_def qg(1))
  show "f32_sign (f32_div a b) = (f32_sign a \<noteq> f32_sign b)" unfolding d by (rule f32_encode_finite(2) [OF qg(2)])
  show "\<exists>m e. 0 \<le> m \<and> f32_mag (f32_div a b) = fl_mag 23 8 m e
      \<and> of_int m * 2 powr of_int e \<le> 2 * Q \<and> Q \<le> 2 * (of_int m * 2 powr of_int e :: real)"
    unfolding d f32_encode_finite(1) [OF qg(2)] using qg by blast
qed

lemma f32_neg_fields: "f32_mag (f32_neg a) = f32_mag a" "f32_sign (f32_neg a) = (\<not> f32_sign a)"
proof -
  have p: "bit (0x80000000 :: int) n \<longleftrightarrow> n = 31" for n
    using bit_exp_iff [of 31 n, where 'a = int] by simp
  have "take_bit 31 (a XOR 0x80000000) = take_bit 31 a"
    by (intro bit_word_eqI) (auto simp: bit_simps p)
  then have "uint (take_bit 31 (a XOR 0x80000000)) = uint (take_bit 31 a)" by simp
  then show "f32_mag (f32_neg a) = f32_mag a"
    unfolding f32_neg_def f32_mag_def by (simp only: unsigned_take_bit_eq) (simp only: take_bit_eq_mod)
  have "bit (a XOR 0x80000000) 31 = (\<not> bit a 31)" by (simp add: bit_simps p)
  then show "f32_sign (f32_neg a) = (\<not> f32_sign a)" by (simp only: f32_neg_def bit31 [symmetric])
qed

text \<open>Adding a number of magnitude at most a half to one of magnitude at most \<open>B\<close>.\<close>

lemma f32_add_bound:
  assumes fin: "f32_finite a" "f32_finite b" and K: "0 \<le> K"
    "mag_val 23 8 (f32_mag a) + mag_val 23 8 (f32_mag b) \<le> mag_val 23 8 K"
  shows "f32_mag (f32_add a b) \<le> K" "f32_mag (f32_sub a b) \<le> K"
proof -
  have add: "f32_mag (f32_encode (fp_add (FFin s m e) (FFin t n f))) \<le> K"
    if m: "0 \<le> m" "0 \<le> n" and v: "of_int m * 2 powr of_int e + of_int n * 2 powr of_int f \<le> mag_val 23 8 K"
    for s t m n e f
  proof -
    define g where "g = min e f"
    define w where "w = sgn_int s m * 2 ^ nat (e - g) + sgn_int t n * 2 ^ nat (f - g)"
    have dec: "\<exists>u. fp_add (FFin s m e) (FFin t n f) = FFin u \<bar>w\<bar> g"
      by (simp add: Let_def g_def [symmetric] w_def [symmetric])
    then obtain u where u: "fp_add (FFin s m e) (FFin t n f) = FFin u \<bar>w\<bar> g" by blast
    have "\<bar>w\<bar> \<le> m * 2 ^ nat (e - g) + n * 2 ^ nat (f - g)"
      unfolding w_def sgn_int_def using m by (cases s; cases t) (simp_all add: abs_if)
    then have "of_int \<bar>w\<bar> \<le> (of_int (m * 2 ^ nat (e - g) + n * 2 ^ nat (f - g)) :: real)" by (simp only: of_int_le_iff)
    then have "of_int \<bar>w\<bar> * 2 powr of_int g \<le> (of_int m * 2 ^ nat (e - g) + of_int n * 2 ^ nat (f - g)) * (2 powr of_int g :: real)"
      by (intro mult_right_mono) simp_all
    also have "\<dots> = of_int m * 2 powr of_int e + of_int n * 2 powr of_int f"
    proof -
      have "(2::real) ^ nat (h - g) * 2 powr of_int g = 2 powr of_int h" if "g \<le> h" for h
        using that by (simp add: powr_realpow [symmetric] powr_add [symmetric])
      from this [of e] this [of f] show ?thesis by (simp add: g_def distrib_right mult.assoc)
    qed
    finally have "of_int \<bar>w\<bar> * 2 powr of_int g \<le> mag_val 23 8 K" using v by linarith
    then show ?thesis unfolding u using K(1) by (subst f32_encode_finite) (auto intro: fl_mag_le_bits)
  qed
  have v: "of_int (mag_m 23 (f32_mag a)) * 2 powr of_int (mag_e 23 8 (f32_mag a)) +
      of_int (mag_m 23 (f32_mag b)) * 2 powr of_int (mag_e 23 8 (f32_mag b)) \<le> mag_val 23 8 K"
    using K(2) by (simp add: mag_val_def)
  show "f32_mag (f32_add a b) \<le> K"
    unfolding f32_add_def f32_decode_finite [OF fin(1)] f32_decode_finite [OF fin(2)]
    by (rule add [OF _ _ v]) (simp_all add: mag_m_nonneg)
  show "f32_mag (f32_sub a b) \<le> K"
    unfolding f32_sub_def f32_decode_finite [OF fin(1)] f32_decode_finite [OF fin(2)] fp_neg_def fp.case
    by (rule add [OF _ _ v]) (simp_all add: mag_m_nonneg)
qed

end
