(* ===== verification/Tq_Prob.thy ===== *)
theory Tq_Prob imports Tq_Range Tq_Rounding begin

text \<open>
  The integer probability tables of \<^verbatim>\<open>core/src/tq_ac.c\<close>: the fixed-point power of two, the
  clamped logit difference, the counts that sum to \<open>TQ_AC_TOT\<close>, and the searches in them.

  \<^verbatim>\<open>x_q16\<close> and the Horner accumulator are \<open>int\<close>; \<open>horner_bounds\<close> shows that the 64-bit
  accumulator of the code never comes near its limits. The conversion of a float to \<^verbatim>\<open>int32_t\<close>
  is partial; \<open>delta_range\<close> shows that the clamp keeps it defined.
\<close>

unbundle bit_operations_syntax

section \<open>Fixed-point powers of two\<close>

definition TQ_EXP2_C :: "int list" where
  "TQ_EXP2_C = [16777216, 11629076, 4030398, 930811, 162474, 20789, 3668]"

text \<open>The Horner loop: \<open>k\<close> counts down from 5.\<close>

definition exp2_horner :: "int \<Rightarrow> int" where
  "exp2_horner f =
     foldl (\<lambda>acc k. acc * f div 2 ^ 16 + TQ_EXP2_C ! k) (TQ_EXP2_C ! 6) [5, 4, 3, 2, 1, 0]"

definition tq_ac_exp2_q24 :: "int \<Rightarrow> u32" where
  "tq_ac_exp2_q24 x_q16 =
     (let x = (if x_q16 > 0 then 0 else x_q16);
          ip = x div 2 ^ 16;
          f = x mod 2 ^ 16;
          acc = exp2_horner f;
          sh = - ip
      in if sh \<ge> 32 then 0 else word_of_int (acc div 2 ^ nat sh))"

definition TQ_AC_MIN_DELTA :: f32 where
  "TQ_AC_MIN_DELTA = f32_neg (f32_dec 18 0)"

definition TQ_AC_LOG2E_Q16 :: f32 where
  "TQ_AC_LOG2E_Q16 = f32_mul (f32_dec 14426950408889634 16) (f32_dec 65536 0)"

text \<open>\<open>None\<close>: the conversion to \<^verbatim>\<open>int32_t\<close> would be undefined.\<close>

definition tq_ac_delta_q16 :: "f32 \<Rightarrow> f32 \<Rightarrow> int option" where
  "tq_ac_delta_q16 logit mx =
     (let d = f32_sub logit mx;
          d = (if \<not> f32_lt TQ_AC_MIN_DELTA d then TQ_AC_MIN_DELTA else d);
          d = (if f32_lt (f32_dec 0 0) d then f32_dec 0 0 else d)
      in f32_to_i32 (f32_mul d TQ_AC_LOG2E_Q16))"

section \<open>The probability tables\<close>

definition TQ_AC_BUCKET :: nat where "TQ_AC_BUCKET = 128"

definition TQ_AC_MAX_BUCKETS :: nat where "TQ_AC_MAX_BUCKETS = 512"

definition TQ_AC_MAX_VOCAB :: nat where "TQ_AC_MAX_VOCAB = TQ_AC_BUCKET * TQ_AC_MAX_BUCKETS"

record tq_ac_model =
  pm_vocab :: nat
  pm_nbuckets :: nat
  pm_bucket :: int
  pm_bcnt :: "u32 list"
  pm_scnt :: "u32 list"
  pm_w :: "u64 list"

definition tq_ac_model_init :: "int \<Rightarrow> tq_status + tq_ac_model" where
  "tq_ac_model_init vocab =
     (if vocab < 1 \<or> vocab > int TQ_AC_MAX_VOCAB then Inl TQ_ERR_RANGE
      else Inr \<lparr>pm_vocab = nat vocab, pm_nbuckets = (nat vocab + TQ_AC_BUCKET - 1) div TQ_AC_BUCKET,
                pm_bucket = -1, pm_bcnt = replicate TQ_AC_MAX_BUCKETS 0,
                pm_scnt = replicate TQ_AC_BUCKET 0, pm_w = replicate TQ_AC_MAX_BUCKETS 0\<rparr>)"

text \<open>
  The first loop sums the weights and finds the heaviest symbol; without any weight every
  symbol gets one count, otherwise one and its share of the rest. What truncation leaves goes
  to the heaviest symbol.
\<close>

definition tq_ac_normalize :: "u32 list \<Rightarrow> u64 list \<Rightarrow> nat \<Rightarrow> u32 list" where
  "tq_ac_normalize cnt w n =
     (let (sum, top) = foldl (\<lambda>(sum, top) i. (sum + w ! i, if w ! top < w ! i then i else top))
                         (0, 0) [0..<n];
          spread = TQ_AC_TOT - of_nat n
      in if sum = 0
         then let cnt1 = foldl (\<lambda>c i. c[i := 1]) cnt [0..<n]
              in cnt1[top := cnt1 ! top + spread]
         else let (cnt1, used) =
                    foldl (\<lambda>(c, used) i.
                             let v = 1 + ucast ((w ! i * ucast spread) div sum)
                             in (c[i := v], used + v)) (cnt, 0) [0..<n]
              in cnt1[top := cnt1 ! top + (TQ_AC_TOT - used)])"

text \<open>The loop for the largest logit of \<^verbatim>\<open>logits[base .. base + n)\<close>.\<close>

definition max_logit :: "f32 list \<Rightarrow> nat \<Rightarrow> nat \<Rightarrow> f32" where
  "max_logit logits base n =
     foldl (\<lambda>mx i. if f32_lt mx (logits ! (base + i)) then logits ! (base + i) else mx)
       (logits ! base) [1..<n]"

definition tq_ac_weight :: "f32 \<Rightarrow> f32 \<Rightarrow> u32 option" where
  "tq_ac_weight logit mx = map_option tq_ac_exp2_q24 (tq_ac_delta_q16 logit mx)"

definition tq_ac_bucket_counts :: "tq_ac_model \<Rightarrow> f32 list \<Rightarrow> tq_ac_model option" where
  "tq_ac_bucket_counts pm logits =
     (let mx = max_logit logits 0 (pm_vocab pm);
          w0 = foldl (\<lambda>w b. w[b := 0]) (pm_w pm) [0..<pm_nbuckets pm]
      in case run_steps (\<lambda>w i. map_option (\<lambda>x. w[i div TQ_AC_BUCKET := w ! (i div TQ_AC_BUCKET) + ucast x])
                                  (tq_ac_weight (logits ! i) mx))
                [0..<pm_vocab pm] w0 of
           None \<Rightarrow> None
         | Some w \<Rightarrow> Some (pm\<lparr>pm_w := w, pm_bcnt := tq_ac_normalize (pm_bcnt pm) w (pm_nbuckets pm)\<rparr>))"

definition tq_ac_symbol_counts :: "tq_ac_model \<Rightarrow> f32 list \<Rightarrow> nat \<Rightarrow> tq_ac_model option" where
  "tq_ac_symbol_counts pm logits bucket =
     (let base = bucket * TQ_AC_BUCKET;
          n = (if pm_vocab pm - base > TQ_AC_BUCKET then TQ_AC_BUCKET else pm_vocab pm - base);
          mx = max_logit logits base n
      in case run_steps (\<lambda>w i. map_option (\<lambda>x. w[i := ucast x]) (tq_ac_weight (logits ! (base + i)) mx))
                [0..<n] (pm_w pm) of
           None \<Rightarrow> None
         | Some w \<Rightarrow> Some (pm\<lparr>pm_w := w, pm_scnt := tq_ac_normalize (pm_scnt pm) w n,
                               pm_bucket := int bucket\<rparr>))"

definition tq_ac_cum :: "u32 list \<Rightarrow> nat \<Rightarrow> u32" where
  "tq_ac_cum cnt i = foldl (\<lambda>c k. c + cnt ! k) 0 [0..<i]"

text \<open>\<^verbatim>\<open>tq_ac_find\<close> with the loop's index and running count; it returns the index and \<^verbatim>\<open>*cum\<close>.\<close>

function tq_ac_find_from :: "u32 list \<Rightarrow> nat \<Rightarrow> u32 \<Rightarrow> nat \<Rightarrow> u32 \<Rightarrow> nat \<times> u32" where
  "tq_ac_find_from cnt n target i c =
     (if i < n
      then if target < c + cnt ! i then (i, c) else tq_ac_find_from cnt n target (i + 1) (c + cnt ! i)
      else (n - 1, c - cnt ! (n - 1)))"
  by pat_completeness auto
termination
  by (relation "measure (\<lambda>(cnt, n, target, i, c). n - i)") auto

declare tq_ac_find_from.simps [simp del]

definition tq_ac_find :: "u32 list \<Rightarrow> nat \<Rightarrow> u32 \<Rightarrow> nat \<times> u32" where
  "tq_ac_find cnt n target = tq_ac_find_from cnt n target 0 0"

section \<open>The exponential and the logit difference\<close>

lemma eighteen_bits: "f32_dec 18 0 = 0x41900000"
  by code_simp

lemma min_delta_bits: "TQ_AC_MIN_DELTA = 0xC1900000"
  by (simp add: TQ_AC_MIN_DELTA_def f32_neg_def eighteen_bits)

lemma log2e_bits: "TQ_AC_LOG2E_Q16 = 0x47B8AA3B"
  unfolding TQ_AC_LOG2E_Q16_def by code_simp

lemma zero_bits: "f32_dec 0 0 = 0"
  by code_simp

lemma exp2_coefficients:
  "TQ_EXP2_C ! 0 = 16777216" "TQ_EXP2_C ! 1 = 11629076" "TQ_EXP2_C ! 2 = 4030398"
  "TQ_EXP2_C ! 3 = 930811" "TQ_EXP2_C ! 4 = 162474" "TQ_EXP2_C ! 5 = 20789" "TQ_EXP2_C ! 6 = 3668"
  by (simp_all add: TQ_EXP2_C_def)

lemma horner_unfold:
  "exp2_horner f = (((((3668 * f div 65536 + 20789) * f div 65536 + 162474) * f div 65536 + 930811)
     * f div 65536 + 4030398) * f div 65536 + 11629076) * f div 65536 + 16777216"
proof -
  have "(2::int) ^ 16 = 65536" by simp
  then show ?thesis by (simp only: exp2_horner_def foldl.simps exp2_coefficients)
qed

lemma horner_step_mono:
  fixes a b f g c :: int
  assumes "0 \<le> a" "a \<le> b" "0 \<le> f" "f \<le> g"
  shows "a * f div 65536 + c \<le> b * g div 65536 + c"
  using mult_mono [OF assms(2,4)] assms by (simp add: zdiv_mono1)

lemma horner_step_nonneg: "0 \<le> a \<Longrightarrow> 0 \<le> f \<Longrightarrow> 0 \<le> c \<Longrightarrow> 0 \<le> a * f div 65536 + (c::int)"
  by (simp add: pos_imp_zdiv_nonneg_iff)

lemma horner_mono: "0 \<le> f \<Longrightarrow> f \<le> g \<Longrightarrow> exp2_horner f \<le> exp2_horner g"
  unfolding horner_unfold by (intro horner_step_mono horner_step_nonneg) simp_all

lemma horner_0: "exp2_horner 0 = 2 ^ 24"
  by (simp add: horner_unfold)

text \<open>The coefficients sum to exactly \<open>2^25\<close>, the value the next octave starts with.\<close>

lemma horner_65536: "exp2_horner 65536 = 2 ^ 25"
  by (simp add: horner_unfold)

lemma horner_bounds: "0 \<le> f \<Longrightarrow> f \<le> 65536 \<Longrightarrow> 2 ^ 24 \<le> exp2_horner f \<and> exp2_horner f \<le> 2 ^ 25"
  using horner_mono [of 0 f] horner_mono [of f 65536] by (simp add: horner_0 horner_65536)

lemma octave_part: "0 \<le> (x::int) mod 2 ^ 16" "x mod 2 ^ 16 \<le> 65536"
  using pos_mod_bound [of "2 ^ 16" x] by simp_all

lemma exp2_zero: "x \<le> - (32 * 2 ^ 16) \<Longrightarrow> tq_ac_exp2_q24 x = 0"
proof -
  assume x: "x \<le> - (32 * 2 ^ 16)"
  then have "x div 2 ^ 16 \<le> - 32" using zdiv_mono1 [OF x, of "2 ^ 16"] by simp
  then show ?thesis using x by (simp add: tq_ac_exp2_q24_def Let_def)
qed

lemma exp2_value:
  assumes x: "x \<le> 0"
  shows "uint (tq_ac_exp2_q24 x) =
    (if 32 \<le> - (x div 2 ^ 16) then 0 else exp2_horner (x mod 2 ^ 16) div 2 ^ nat (- (x div 2 ^ 16)))"
proof -
  have b: "0 \<le> exp2_horner (x mod 2 ^ 16)" "exp2_horner (x mod 2 ^ 16) \<le> 2 ^ 25"
    using horner_bounds [of "x mod 2 ^ 16", OF octave_part] by simp_all
  have "exp2_horner (x mod 2 ^ 16) div 2 ^ n \<le> exp2_horner (x mod 2 ^ 16)" for n
    using b zdiv_mono2 [of "exp2_horner (x mod 2 ^ 16)" 1 "2 ^ n"] by simp
  moreover have "0 \<le> exp2_horner (x mod 2 ^ 16) div 2 ^ n" for n
    using b by (simp add: pos_imp_zdiv_nonneg_iff)
  moreover have "exp2_horner (x mod 2 ^ 16) div 2 ^ n < 2 ^ 32" for n
    using order_trans [OF calculation(1) b(2), of n] by simp
  ultimately have "uint (word_of_int (exp2_horner (x mod 2 ^ 16) div 2 ^ n) :: u32) =
      exp2_horner (x mod 2 ^ 16) div 2 ^ n" for n
    unfolding uint_word_of_int by (intro mod_pos_pos_trivial) simp_all
  then show ?thesis using x by (simp add: tq_ac_exp2_q24_def Let_def)
qed

lemma octave_le:
  fixes a b :: int
  assumes "a \<le> 2 ^ 25" "2 ^ 24 \<le> b" "Suc m \<le> n"
  shows "a div 2 ^ n \<le> b div 2 ^ m"
proof -
  have "a div 2 ^ n \<le> 2 ^ 25 div 2 ^ n" using assms(1) by (rule zdiv_mono1) simp
  also have "\<dots> \<le> 2 ^ 25 div 2 ^ Suc m"
    using power_increasing [OF assms(3), of "2::int"] by (intro zdiv_mono2) simp_all
  also have "\<dots> = (2 ^ 25 div 2) div 2 ^ m" by (simp only: power_Suc zdiv_zmult2_eq zero_le_power zero_le_numeral)
  also have "\<dots> \<le> b div 2 ^ m" using assms(2) by (intro zdiv_mono1) simp_all
  finally show ?thesis .
qed

lemma exp2_mono_value:
  assumes "x \<le> y" "y \<le> 0"
  shows "uint (tq_ac_exp2_q24 x) \<le> uint (tq_ac_exp2_q24 y)"
proof -
  let ?i = "x div 2 ^ 16" and ?j = "y div 2 ^ 16" and ?f = "x mod 2 ^ 16" and ?g = "y mod 2 ^ 16"
  have ij: "?i \<le> ?j" using assms by (intro zdiv_mono1) simp_all
  have x0: "x \<le> 0" using assms by linarith
  have j: "?j \<le> 0" using zdiv_mono1 [OF assms(2), of "2 ^ 16"] by simp
  show ?thesis
  proof (cases "32 \<le> - ?i")
    case True
    then show ?thesis unfolding exp2_value [OF x0] by simp
  next
    case False
    have xy: "x = ?i * 2 ^ 16 + ?f" "y = ?j * 2 ^ 16 + ?g" by (simp_all only: div_mult_mod_eq)
    have "exp2_horner ?f div 2 ^ nat (- ?i) \<le> exp2_horner ?g div 2 ^ nat (- ?j)"
    proof (cases "?i = ?j")
      case True
      then have "?f \<le> ?g" using xy assms(1) by (metis add_le_cancel_left)
      then have "exp2_horner ?f \<le> exp2_horner ?g" by (intro horner_mono) simp_all
      then show ?thesis using True by (simp add: zdiv_mono1)
    next
      case ne: False
      then have lt: "Suc (nat (- ?j)) \<le> nat (- ?i)" using ij j by linarith
      show ?thesis using horner_bounds [OF octave_part, of x] horner_bounds [OF octave_part, of y] lt
        by (intro octave_le) simp_all
    qed
    moreover have "\<not> 32 \<le> - ?j" using False ij by linarith
    ultimately show ?thesis unfolding exp2_value [OF x0] exp2_value [OF assms(2)] by (simp only: False if_False)
  qed
qed

lemma exp2_0: "uint (tq_ac_exp2_q24 0) = 2 ^ 24"
  using exp2_value [of 0] by (simp add: horner_0)

lemma exp2_clamped: "0 \<le> x \<Longrightarrow> tq_ac_exp2_q24 x = tq_ac_exp2_q24 0"
  by (simp add: tq_ac_exp2_q24_def)

lemma exp2_le: "unat (tq_ac_exp2_q24 x) \<le> 2 ^ 24"
proof (cases "x \<le> 0")
  case True
  then have "uint (tq_ac_exp2_q24 x) \<le> 2 ^ 24"
    using exp2_mono_value [of x 0] by (simp only: exp2_0 order_refl)
  from nat_mono [OF this] show ?thesis unfolding unat_eq_nat_uint by simp
next
  case False
  then have "uint (tq_ac_exp2_q24 x) = 2 ^ 24" using exp2_clamped [of x] exp2_0 by simp
  then show ?thesis unfolding unat_eq_nat_uint by simp
qed

lemma key_neg: "f32_mag K = k \<Longrightarrow> f32_sign K \<Longrightarrow> f32_key K = - k"
  by (simp add: f32_key_eq sgn_int_def)

lemma delta_clamp:
  fixes l m :: f32
  defines "d0 \<equiv> f32_sub l m"
  defines "d1 \<equiv> (if \<not> f32_lt TQ_AC_MIN_DELTA d0 then TQ_AC_MIN_DELTA else d0)"
  defines "d \<equiv> (if f32_lt (f32_dec 0 0) d1 then f32_dec 0 0 else d1)"
  shows "f32_finite d" "f32_mag d \<le> 0x41900000" "f32_sign d \<or> f32_mag d = 0"
proof -
  have k: "f32_key TQ_AC_MIN_DELTA = - 0x41900000" "f32_mag TQ_AC_MIN_DELTA = 0x41900000"
    "f32_sign TQ_AC_MIN_DELTA"
    by (simp_all add: min_delta_bits f32_key_eq f32_mag_def f32_sign_def sgn_int_def)
  have z: "f32_key (f32_dec 0 0) = 0" "f32_mag (f32_dec 0 0) = 0" "\<not> f32_is_nan (f32_dec 0 0)"
    by (simp_all add: zero_bits f32_key_eq f32_mag_def f32_sign_def sgn_int_def f32_is_nan_iff)
  have n1: "\<not> f32_is_nan d1" "- 0x41900000 \<le> f32_key d1"
    using k by (auto simp: d1_def f32_lt_def f32_is_nan_iff)
  have dk: "f32_key d \<le> 0" "- 0x41900000 \<le> f32_key d"
    using n1 z by (auto simp: d_def f32_lt_def)
  show s: "f32_sign d \<or> f32_mag d = 0" using dk(1) by (simp add: key_le_0)
  show m: "f32_mag d \<le> 0x41900000" using dk(2) s by (auto simp: f32_key_eq sgn_int_def)
  then show "f32_finite d" by (simp add: f32_finite_def)
qed

lemma delta_range:
  "\<exists>q. tq_ac_delta_q16 l m = Some q \<and> - (2 ^ 21) \<le> q \<and> q \<le> 0"
proof -
  define d0 where "d0 = f32_sub l m"
  define d1 where "d1 = (if \<not> f32_lt TQ_AC_MIN_DELTA d0 then TQ_AC_MIN_DELTA else d0)"
  define d where "d = (if f32_lt (f32_dec 0 0) d1 then f32_dec 0 0 else d1)"
  note c = delta_clamp [of l m, folded d0_def, folded d1_def, folded d_def]
  let ?p = "f32_mul d TQ_AC_LOG2E_Q16"
  have L: "f32_finite TQ_AC_LOG2E_Q16" "f32_mag TQ_AC_LOG2E_Q16 = 0x47B8AA3B" "\<not> f32_sign TQ_AC_LOG2E_Q16"
    by (simp_all add: log2e_bits f32_finite_def f32_mag_def f32_sign_def)
  have "mag_val 23 8 (f32_mag d) \<le> mag_val 23 8 0x41900000"
    using c(2) by (simp add: mag_val_mono_iff)
  also have "mag_val 23 8 0x41900000 = 18"
    using mag_val_neg [of 23 "0x41900000" 9437184 8 19] by (simp add: mag_m_def mag_e_def fl_emin_def)
  finally have v1: "mag_val 23 8 (f32_mag d) \<le> 18" .
  have v2: "mag_val 23 8 0x47B8AA3B \<le> 100000"
    using mag_val_neg [of 23 "0x47B8AA3B" 12102203 8 7] by (simp add: mag_m_def mag_e_def fl_emin_def)
  have "mag_val 23 8 (f32_mag d) * mag_val 23 8 0x47B8AA3B \<le> 18 * 100000"
    using v1 v2 by (intro mult_mono) (simp_all add: mag_val_nonneg)
  then have "mag_val 23 8 (f32_mag d) * mag_val 23 8 (f32_mag TQ_AC_LOG2E_Q16) \<le> mag_val 23 8 0x4A000000"
    by (simp only: L mag_val_2p21) simp
  then have pm: "f32_mag ?p \<le> 0x4A000000" by (intro f32_mul_finite(2) [OF c(1) L(1)]) simp_all
  have ps: "f32_sign ?p = f32_sign d" using f32_mul_finite(1) [OF c(1) L(1)] L(3) by simp
  obtain n where n: "f32_to_i32 ?p = Some (sgn_int (f32_sign d) n)" "0 \<le> n" "n \<le> 2 ^ 21"
    using f32_to_i32_bounded [OF pm mag_val_2p21] ps by auto
  have D: "tq_ac_delta_q16 l m = f32_to_i32 ?p"
    by (simp only: tq_ac_delta_q16_def Let_def d0_def d1_def d_def)
  show ?thesis
  proof (cases "f32_sign d")
    case True
    then show ?thesis using n D by (simp add: sgn_int_def)
  next
    case False
    then have "f32_mag d = 0" using c(3) by simp
    then have "f32_mag ?p \<le> 0" by (intro f32_mul_finite(2) [OF c(1) L(1)]) simp_all
    then have "\<exists>n. f32_to_i32 ?p = Some (sgn_int (f32_sign ?p) n) \<and> 0 \<le> n \<and> n \<le> 0"
      by (rule f32_to_i32_bounded) simp_all
    then show ?thesis using D False ps by (auto simp: sgn_int_def)
  qed
qed

section \<open>The counts\<close>

lemma weight_some: "\<exists>x. tq_ac_weight l m = Some x \<and> unat x \<le> 2 ^ 24"
  using delta_range [of l m] exp2_le by (auto simp: tq_ac_weight_def)

definition weight :: "f32 \<Rightarrow> f32 \<Rightarrow> u32" where
  "weight l m = the (tq_ac_weight l m)"

lemma tq_ac_weight_eq: "tq_ac_weight l m = Some (weight l m)"
  using weight_some [of l m] by (auto simp: weight_def)

lemma weight_le: "unat (weight l m) \<le> 2 ^ 24"
  using weight_some [of l m] by (auto simp: weight_def)

lemma fill_loop:
  "n \<le> length cnt \<Longrightarrow> foldl (\<lambda>c i. c[i := g i]) cnt [0..<n] = map g [0..<n] @ drop n cnt"
proof (induction n)
  case (Suc n)
  then have "drop n cnt = cnt ! n # drop (Suc n) cnt" by (simp add: Cons_nth_drop_Suc)
  then show ?case using Suc by (simp add: list_update_append)
qed simp

lemma fill_loop_sum:
  "n \<le> length cnt \<Longrightarrow>
   foldl (\<lambda>(c, u) i. (c[i := g i], u + g i)) (cnt, 0) [0..<n] =
     (map g [0..<n] @ drop n cnt, (\<Sum>i\<leftarrow>[0..<n]. g i))"
proof (induction n)
  case (Suc n)
  then have "drop n cnt = cnt ! n # drop (Suc n) cnt" by (simp add: Cons_nth_drop_Suc)
  then show ?case using Suc by (simp add: list_update_append)
qed simp

definition wsum :: "u64 list \<Rightarrow> nat \<Rightarrow> nat" where
  "wsum w n = (\<Sum>i\<leftarrow>[0..<n]. unat (w ! i))"

lemma wsum_le: "\<forall>i<n. unat (w ! i) \<le> B \<Longrightarrow> wsum w n \<le> n * B"
  by (induction n) (auto simp: wsum_def add.commute intro: add_mono)

lemma scan_loop:
  assumes "\<forall>i<n. unat (w ! i) \<le> 2 ^ 40" "n \<le> 2 ^ 16" "k \<le> n"
  shows "\<exists>sm t. foldl (\<lambda>(sm, t) i. (sm + w ! i, if w ! t < w ! i then i else t)) (0, 0) [0..<k] = (sm, t)
    \<and> unat sm = wsum w k \<and> (0 < k \<longrightarrow> t < k)"
  using assms(3)
proof (induction k)
  case (Suc k)
  then obtain sm t where st: "foldl (\<lambda>(sm, t) i. (sm + w ! i, if w ! t < w ! i then i else t)) (0, 0) [0..<k] = (sm, t)"
    "unat sm = wsum w k" "0 < k \<longrightarrow> t < k" by auto
  have t0: "k = 0 \<Longrightarrow> t = 0" using st(1) by simp
  have "wsum w k \<le> k * 2 ^ 40" "unat (w ! k) \<le> 2 ^ 40" using assms(1) Suc.prems by (auto intro: wsum_le)
  moreover have "k * 2 ^ 40 \<le> 2 ^ 16 * 2 ^ 40" using Suc.prems assms(2) by simp
  ultimately have "unat (sm + w ! k) = unat sm + unat (w ! k)"
    using st(2) by (intro unat_add_small) simp
  then show ?case using st t0 by (auto simp: wsum_def)
qed (simp add: wsum_def)

text \<open>A table: \<open>n\<close> positive counts that sum to the total.\<close>

definition table_ok :: "u32 list \<Rightarrow> nat \<Rightarrow> bool" where
  "table_ok cnt n \<longleftrightarrow> n \<le> length cnt \<and> 0 < n \<and> (\<forall>i<n. 0 < unat (cnt ! i)) \<and>
     (\<Sum>c\<leftarrow>take n cnt. unat c) = 2 ^ 16"

definition share :: "u64 list \<Rightarrow> nat \<Rightarrow> nat \<Rightarrow> nat" where
  "share w n i = 1 + unat (w ! i) * (2 ^ 16 - n) div wsum w n"

lemma sum_div_le:
  fixes f :: "'a \<Rightarrow> nat"
  shows "(\<Sum>i\<leftarrow>xs. f i div s) \<le> (\<Sum>i\<leftarrow>xs. f i) div s"
proof (induction xs)
  case (Cons x xs)
  have "f x div s + (\<Sum>i\<leftarrow>xs. f i) div s \<le> (f x + (\<Sum>i\<leftarrow>xs. f i)) div s"
    using div_add1_eq [of "f x" "\<Sum>i\<leftarrow>xs. f i" s] by linarith
  with Cons show ?case by simp
qed simp

lemma share_sum: "n \<le> 2 ^ 16 \<Longrightarrow> (\<Sum>i\<leftarrow>[0..<n]. share w n i) \<le> 2 ^ 16"
proof -
  assume n: "n \<le> 2 ^ 16"
  have one: "(\<Sum>i\<leftarrow>xs. share w n i) = length xs + (\<Sum>i\<leftarrow>xs. unat (w ! i) * (2 ^ 16 - n) div wsum w n)" for xs
    by (induction xs) (simp_all add: share_def)
  have "(\<Sum>i\<leftarrow>[0..<n]. unat (w ! i) * (2 ^ 16 - n)) = wsum w n * (2 ^ 16 - n)"
    by (simp add: wsum_def sum_list_mult_const)
  then have "(\<Sum>i\<leftarrow>[0..<n]. unat (w ! i) * (2 ^ 16 - n) div wsum w n) \<le> (wsum w n * (2 ^ 16 - n)) div wsum w n"
    using sum_div_le [of "\<lambda>i. unat (w ! i) * (2 ^ 16 - n)" "wsum w n" "[0..<n]"] by simp
  also have "\<dots> \<le> 2 ^ 16 - n" by simp
  finally show ?thesis using n by (simp add: one)
qed

lemma sum_word_list:
  fixes g :: "nat \<Rightarrow> u32"
  assumes "(\<Sum>i\<leftarrow>xs. unat (g i)) < 2 ^ 32"
  shows "unat (\<Sum>i\<leftarrow>xs. g i) = (\<Sum>i\<leftarrow>xs. unat (g i))"
  using assms
proof (induction xs)
  case (Cons x xs)
  then have "unat (g x + (\<Sum>i\<leftarrow>xs. g i)) = unat (g x) + unat (\<Sum>i\<leftarrow>xs. g i)"
    by (intro unat_add_small) simp
  with Cons show ?case by simp
qed simp

text \<open>What is left over goes to one symbol, and then the total is exact.\<close>

lemma give_rest:
  assumes n: "n \<le> length cnt" "0 < n" "t < n" and pos: "\<forall>i<n. 0 < unat (g i)"
    and sm: "(\<Sum>i\<leftarrow>[0..<n]. unat (g i)) \<le> 2 ^ 16"
    and d: "unat d = 2 ^ 16 - (\<Sum>i\<leftarrow>[0..<n]. unat (g i))"
  defines "c \<equiv> map g [0..<n] @ drop n cnt"
  shows "table_ok (c[t := c ! t + d]) n"
proof -
  let ?g = "\<lambda>i. unat (g i)"
  have ct: "c ! t = g t" using n by (simp add: c_def nth_append)
  have gt: "?g t \<le> (\<Sum>i\<leftarrow>[0..<n]. ?g i)"
    using n by (intro member_le_sum_list) auto
  have ad: "unat (g t + d) = ?g t + unat d"
    using gt sm d by (intro unat_add_small) simp
  have tk: "take n (c[t := c ! t + d]) = (map g [0..<n])[t := g t + d]"
    using n unfolding ct by (simp add: c_def take_update_swap)
  have "map unat ((map g [0..<n])[t := g t + d]) = (map ?g [0..<n])[t := unat (g t + d)]"
    by (simp add: map_update o_def)
  then have "(\<Sum>x\<leftarrow>take n (c[t := c ! t + d]). unat x) = sum_list ((map ?g [0..<n])[t := unat (g t + d)])"
    by (simp add: tk)
  also have "\<dots> = sum_list (map ?g [0..<n]) + unat (g t + d) - map ?g [0..<n] ! t"
    using n by (intro sum_list_update) simp
  also have "\<dots> = 2 ^ 16" using n ad d sm by simp
  finally have s: "(\<Sum>x\<leftarrow>take n (c[t := c ! t + d]). unat x) = 2 ^ 16" .
  have p: "0 < unat (c[t := c ! t + d] ! i)" if "i < n" for i
  proof (cases "i = t")
    case True
    then show ?thesis using that n pos ad ct by (simp add: c_def)
  next
    case False
    then show ?thesis using that n pos by (simp add: c_def nth_append)
  qed
  show ?thesis using s p n by (simp add: table_ok_def c_def)
qed

lemma share_word:
  assumes w: "unat (w ! i) \<le> 2 ^ 40" and sm: "unat sm = wsum w n" and n: "n \<le> 2 ^ 16"
    and sh: "share w n i \<le> 2 ^ 16" and sp: "unat sp = 2 ^ 16 - n"
  shows "unat (1 + ucast ((w ! i * ucast (sp :: u32)) div sm) :: u32) = share w n i"
proof -
  have u: "unat (ucast sp :: u64) = 2 ^ 16 - n" using sp n by (simp add: word_nat)
  have "unat (w ! i) * (2 ^ 16 - n) \<le> 2 ^ 40 * 2 ^ 16" using w by (intro mult_mono) simp_all
  then have "unat (w ! i * ucast sp) = unat (w ! i) * (2 ^ 16 - n)"
    using unat_mult_small [of "w ! i" "ucast sp"] u by simp
  then have d: "unat ((w ! i * ucast sp) div sm) = unat (w ! i) * (2 ^ 16 - n) div wsum w n"
    using sm by (simp add: unat_div)
  have "unat (w ! i) * (2 ^ 16 - n) div wsum w n < 2 ^ 32" using sh by (simp add: share_def)
  then have "unat (ucast ((w ! i * ucast sp) div sm) :: u32) = unat (w ! i) * (2 ^ 16 - n) div wsum w n"
    by (simp add: unat_ucast_mod d)
  then show ?thesis using sh unat_add_small [of 1 "ucast ((w ! i * ucast sp) div sm) :: u32"] by (simp add: share_def)
qed

lemma normalize_ok:
  assumes n: "0 < n" "n \<le> 512" "n \<le> length cnt" and w: "\<forall>i<n. unat (w ! i) \<le> 2 ^ 40"
  shows "table_ok (tq_ac_normalize cnt w n) n" "length (tq_ac_normalize cnt w n) = length cnt"
proof -
  obtain sm t where st: "foldl (\<lambda>(sm, t) i. (sm + w ! i, if w ! t < w ! i then i else t)) (0, 0) [0..<n] = (sm, t)"
    "unat sm = wsum w n" "t < n"
    using scan_loop [OF w, of n] n by auto
  have sp: "unat (TQ_AC_TOT - of_nat n :: u32) = 2 ^ 16 - n"
    using n by (simp add: TQ_AC_TOT_def unat_sub_small unat_of_nat)
  have len: "\<And>c :: u32 list. \<And>v. length c = length cnt \<Longrightarrow> length (c[t := v]) = length cnt" by simp
  have "table_ok (tq_ac_normalize cnt w n) n \<and> length (tq_ac_normalize cnt w n) = length cnt"
  proof (cases "sm = 0")
    case True
    let ?c = "map (\<lambda>i. 1 :: u32) [0..<n] @ drop n cnt"
    have e: "tq_ac_normalize cnt w n = ?c[t := ?c ! t + (TQ_AC_TOT - of_nat n)]"
      using True n by (simp add: tq_ac_normalize_def st(1) Let_def fill_loop)
    have s1: "(\<Sum>i\<leftarrow>[0..<n]. unat (1 :: u32)) = n" by (simp add: sum_list_triv)
    have "table_ok (?c[t := ?c ! t + (TQ_AC_TOT - of_nat n)]) n"
      using n st(3) sp s1 by (intro give_rest) simp_all
    then show ?thesis using e n by simp
  next
    case False
    let ?g = "\<lambda>i. 1 + ucast ((w ! i * ucast (TQ_AC_TOT - of_nat n :: u32)) div sm) :: u32"
    let ?c = "map ?g [0..<n] @ drop n cnt"
    let ?u = "\<Sum>i\<leftarrow>[0..<n]. ?g i"
    have e: "tq_ac_normalize cnt w n = ?c[t := ?c ! t + (TQ_AC_TOT - ?u)]"
      using False n fill_loop_sum [of n cnt ?g] by (simp add: tq_ac_normalize_def st(1) Let_def)
    have shs: "(\<Sum>i\<leftarrow>[0..<n]. share w n i) \<le> 2 ^ 16" using n by (intro share_sum) simp
    have g: "unat (?g i) = share w n i" if "i < n" for i
    proof (rule share_word [OF _ st(2) _ _ sp])
      show "unat (w ! i) \<le> 2 ^ 40" using w that by simp
      have "share w n i \<le> (\<Sum>i\<leftarrow>[0..<n]. share w n i)" using that by (intro member_le_sum_list) auto
      then show "share w n i \<le> 2 ^ 16" using shs by simp
      show "n \<le> 2 ^ 16" using n by simp
    qed
    have gs: "(\<Sum>i\<leftarrow>[0..<n]. unat (?g i)) = (\<Sum>i\<leftarrow>[0..<n]. share w n i)"
      by (intro arg_cong [of _ _ sum_list] map_cong) (simp_all only: g set_upt atLeastLessThan_iff refl)
    have u: "unat ?u = (\<Sum>i\<leftarrow>[0..<n]. unat (?g i))"
      using shs gs by (intro sum_word_list) simp
    have "unat (TQ_AC_TOT - ?u) = 2 ^ 16 - (\<Sum>i\<leftarrow>[0..<n]. unat (?g i))"
      using u shs gs by (simp add: TQ_AC_TOT_def unat_sub_small)
    then have "table_ok (?c[t := ?c ! t + (TQ_AC_TOT - ?u)]) n"
      using n st(3) shs gs g by (intro give_rest) (simp_all add: share_def)
    then show ?thesis using e n by simp
  qed
  then show "table_ok (tq_ac_normalize cnt w n) n" "length (tq_ac_normalize cnt w n) = length cnt" by blast+
qed

section \<open>Searching a table\<close>

definition cum_nat :: "u32 list \<Rightarrow> nat \<Rightarrow> nat" where
  "cum_nat cnt i = (\<Sum>c\<leftarrow>take i cnt. unat c)"

lemma cum_nat_Suc: "i < length cnt \<Longrightarrow> cum_nat cnt (Suc i) = cum_nat cnt i + unat (cnt ! i)"
  by (simp add: cum_nat_def take_Suc_conv_app_nth)

lemma cum_nat_mono: "i \<le> j \<Longrightarrow> cum_nat cnt i \<le> cum_nat cnt j"
proof -
  assume ij: "i \<le> j"
  then obtain k where j: "j = i + k" using le_Suc_ex by blast
  show ?thesis unfolding j cum_nat_def by (simp add: take_add)
qed

lemma cum_nat_total: "table_ok cnt n \<Longrightarrow> i \<le> n \<Longrightarrow> cum_nat cnt i \<le> 2 ^ 16"
  using cum_nat_mono [of i n cnt] by (simp add: table_ok_def cum_nat_def)

lemma cum_value:
  assumes "table_ok cnt n" "i \<le> n"
  shows "unat (tq_ac_cum cnt i) = cum_nat cnt i"
  using assms(2)
proof (induction i)
  case 0
  then show ?case by (simp add: tq_ac_cum_def cum_nat_def)
next
  case (Suc i)
  have len: "i < length cnt" using Suc.prems assms(1) by (simp add: table_ok_def)
  have "unat (tq_ac_cum cnt i + cnt ! i) = unat (tq_ac_cum cnt i) + unat (cnt ! i)"
    using Suc cum_nat_total [OF assms(1) Suc.prems] cum_nat_Suc [OF len] by (intro unat_add_small) simp
  then show ?case using Suc cum_nat_Suc [OF len] by (simp add: tq_ac_cum_def)
qed

lemma cum_step:
  assumes "table_ok cnt n" "i < n"
  shows "unat (tq_ac_cum cnt i + cnt ! i) = cum_nat cnt (Suc i)"
    and "tq_ac_cum cnt (Suc i) = tq_ac_cum cnt i + cnt ! i"
proof -
  show e: "tq_ac_cum cnt (Suc i) = tq_ac_cum cnt i + cnt ! i" by (simp add: tq_ac_cum_def)
  show "unat (tq_ac_cum cnt i + cnt ! i) = cum_nat cnt (Suc i)"
    using cum_value [OF assms(1), of "Suc i"] assms(2) by (simp add: e [symmetric])
qed

text \<open>Starting at or below the right symbol, the loop stops exactly there.\<close>

lemma find_from:
  assumes t: "table_ok cnt n" and s: "s < n" and lo: "cum_nat cnt s \<le> unat target"
    and hi: "unat target < cum_nat cnt (Suc s)"
  shows "i \<le> s \<Longrightarrow> tq_ac_find_from cnt n target i (tq_ac_cum cnt i) = (s, tq_ac_cum cnt s)"
proof (induction "s - i" arbitrary: i)
  case 0
  then have i: "i = s" by simp
  have "target < tq_ac_cum cnt s + cnt ! s"
    using hi cum_step(1) [OF t s] by (simp add: word_less_nat_alt)
  then show ?case using s by (simp add: i tq_ac_find_from.simps [of cnt n target s])
next
  case (Suc k)
  then have i: "i < s" "i < n" using s by simp_all
  have "cum_nat cnt (Suc i) \<le> cum_nat cnt s" using i by (intro cum_nat_mono) simp
  then have "\<not> target < tq_ac_cum cnt i + cnt ! i"
    using lo cum_step(1) [OF t i(2)] by (simp add: word_less_nat_alt)
  then have "tq_ac_find_from cnt n target i (tq_ac_cum cnt i) =
      tq_ac_find_from cnt n target (Suc i) (tq_ac_cum cnt (Suc i))"
    using i(2) cum_step(2) [OF t i(2)] by (simp add: tq_ac_find_from.simps [of cnt n target i])
  then show ?case using Suc i by simp
qed

lemma find_value:
  assumes "table_ok cnt n" "s < n" "cum_nat cnt s \<le> unat target" "unat target < cum_nat cnt (Suc s)"
  shows "tq_ac_find cnt n target = (s, tq_ac_cum cnt s)"
  using find_from [OF assms, of 0] by (simp add: tq_ac_find_def tq_ac_cum_def)

lemma find_symbol:
  assumes "table_ok cnt n" "s < n" "tq_ac_cum cnt s \<le> target" "target < tq_ac_cum cnt s + cnt ! s"
  shows "tq_ac_find cnt n target = (s, tq_ac_cum cnt s)"
  using assms cum_step(1) [OF assms(1,2)] cum_value [OF assms(1), of s]
  by (intro find_value) (simp_all add: word_le_nat_alt word_less_nat_alt)

lemma table_symbol:
  assumes "table_ok cnt n" "s < n"
  shows "sym_ok (tq_ac_cum cnt s, cnt ! s, TQ_AC_TOT)"
proof -
  have "unat (tq_ac_cum cnt s) + unat (cnt ! s) \<le> 2 ^ 16"
    using cum_value [OF assms(1), of s] cum_nat_Suc [of s cnt] cum_nat_total [OF assms(1), of "Suc s"] assms
    by (simp add: table_ok_def)
  then show ?thesis using assms by (simp add: sym_ok_def TQ_AC_TOT_def table_ok_def)
qed

text \<open>The tables depend on the vocabulary and the logits only.\<close>

lemma normalize_cong:
  assumes n: "0 < n" "n \<le> length cnt" "n \<le> length cnt'" and w: "\<forall>i<n. w ! i = w' ! i"
    and b: "n \<le> 512" "\<forall>i<n. unat (w ! i) \<le> 2 ^ 40"
  shows "take n (tq_ac_normalize cnt w n) = take n (tq_ac_normalize cnt' w' n)"
proof -
  have w0: "\<forall>i<n. unat (w' ! i) \<le> 2 ^ 40" using w b by simp
  obtain sm t where st: "foldl (\<lambda>(sm, t) i. (sm + w ! i, if w ! t < w ! i then i else t)) (0, 0) [0..<n] = (sm, t)"
    "t < n"
    using scan_loop [OF b(2), of n] n b by auto
  have "k \<le> n \<Longrightarrow> foldl (\<lambda>(sm, t) i. (sm + w ! i, if w ! t < w ! i then i else t)) (0, 0) [0..<k] =
     foldl (\<lambda>(sm, t) i. (sm + w' ! i, if w' ! t < w' ! i then i else t)) (0, 0) [0..<k]" for k
  proof (induction k)
    case (Suc k)
    obtain sm t where st: "foldl (\<lambda>(sm, t) i. (sm + w' ! i, if w' ! t < w' ! i then i else t)) (0, 0) [0..<k] = (sm, t)"
      "0 < k \<longrightarrow> t < k"
      using scan_loop [OF w0, of k] Suc.prems b by auto
    have "t < n" using st n Suc.prems by (cases k) auto
    then show ?case using Suc st w by simp
  qed simp
  from this [of n] have st': "foldl (\<lambda>(sm, t) i. (sm + w' ! i, if w' ! t < w' ! i then i else t)) (0, 0) [0..<n] = (sm, t)"
    using st by simp
  have g: "map (\<lambda>i. 1 + ucast ((w ! i * ucast (TQ_AC_TOT - of_nat n :: u32)) div sm) :: u32) [0..<n] =
    map (\<lambda>i. 1 + ucast ((w' ! i * ucast (TQ_AC_TOT - of_nat n :: u32)) div sm)) [0..<n]"
    using w by simp
  have tk: "take n ((map g [0..<n] @ drop n c)[t := (map g [0..<n] @ drop n c) ! t + d]) = (map g [0..<n])[t := g t + d]"
    if "n \<le> length c" for g :: "nat \<Rightarrow> u32" and c d
    using that st(2) by (simp add: take_update_swap nth_append)
  show ?thesis
  proof (cases "sm = 0")
    case True
    then show ?thesis using n by (simp add: tq_ac_normalize_def st(1) st' Let_def fill_loop tk)
  next
    case False
    have gt: "w ! t = w' ! t" using w st(2) by simp
    show ?thesis
      using False n fill_loop_sum [of n _ "\<lambda>i. 1 + ucast ((w ! i * ucast (TQ_AC_TOT - of_nat n :: u32)) div sm) :: u32"]
        fill_loop_sum [of n _ "\<lambda>i. 1 + ucast ((w' ! i * ucast (TQ_AC_TOT - of_nat n :: u32)) div sm) :: u32"]
      by (simp add: tq_ac_normalize_def st(1) st' Let_def tk g gt)
  qed
qed

section \<open>The two tables of a token\<close>

definition pm_ok :: "nat \<Rightarrow> tq_ac_model \<Rightarrow> bool" where
  "pm_ok V pm \<longleftrightarrow> pm_vocab pm = V \<and> 0 < V \<and> V \<le> TQ_AC_MAX_VOCAB \<and>
     pm_nbuckets pm = (V + TQ_AC_BUCKET - 1) div TQ_AC_BUCKET \<and>
     length (pm_bcnt pm) = TQ_AC_MAX_BUCKETS \<and> length (pm_scnt pm) = TQ_AC_BUCKET \<and>
     length (pm_w pm) = TQ_AC_MAX_BUCKETS"

lemmas ac_sizes = TQ_AC_BUCKET_def TQ_AC_MAX_BUCKETS_def TQ_AC_MAX_VOCAB_def

lemma model_init_ok:
  "0 < V \<Longrightarrow> V \<le> TQ_AC_MAX_VOCAB \<Longrightarrow> \<exists>pm. tq_ac_model_init (int V) = Inr pm \<and> pm_ok V pm"
  by (simp add: tq_ac_model_init_def pm_ok_def)

lemma pm_nbuckets:
  assumes "pm_ok V pm"
  shows "0 < pm_nbuckets pm" "pm_nbuckets pm \<le> 512" "i < V \<Longrightarrow> i div TQ_AC_BUCKET < pm_nbuckets pm"
proof -
  have V: "0 < V" "V \<le> 65536" and nb: "pm_nbuckets pm = (V + 127) div 128"
    using assms by (simp_all add: pm_ok_def ac_sizes)
  show "0 < pm_nbuckets pm" unfolding nb using V by (simp add: div_greater_zero_iff)
  show "pm_nbuckets pm \<le> 512" unfolding nb using div_le_mono [of "V + 127" "65663" 128] V by simp
  show "i div TQ_AC_BUCKET < pm_nbuckets pm" if "i < V"
  proof -
    have "i div 128 + 1 = (i + 128) div 128" by simp
    also have "\<dots> \<le> (V + 127) div 128" using that by (intro div_le_mono) simp
    finally show ?thesis unfolding nb by (simp add: ac_sizes)
  qed
qed

definition bucket_weights :: "nat \<Rightarrow> f32 list \<Rightarrow> u64 list \<Rightarrow> nat \<Rightarrow> u64 list" where
  "bucket_weights V logits w0 k =
     foldl (\<lambda>w i. w[i div TQ_AC_BUCKET := w ! (i div TQ_AC_BUCKET) + ucast (weight (logits ! i) (max_logit logits 0 V))])
       w0 [0..<k]"

lemma ucast_weight: "unat (ucast (weight l m) :: u64) \<le> 2 ^ 24"
  using weight_le [of l m] by (simp add: word_nat)

lemma bucket_weights_bound:
  assumes "\<forall>b<nb. unat (w0 ! b) = 0" "k \<le> 65536" "\<forall>i<k. i div TQ_AC_BUCKET < nb" "nb \<le> length w0"
  shows "\<forall>b<nb. unat (bucket_weights V logits w0 k ! b) \<le> k * 2 ^ 24"
    "length (bucket_weights V logits w0 k) = length w0"
proof -
  have "k \<le> 65536 \<Longrightarrow> \<forall>i<k. i div TQ_AC_BUCKET < nb \<Longrightarrow>
    (\<forall>b<nb. unat (bucket_weights V logits w0 k ! b) \<le> k * 2 ^ 24) \<and> length (bucket_weights V logits w0 k) = length w0"
  proof (induction k)
    case 0
    then show ?case using assms(1) by (simp add: bucket_weights_def)
  next
    case (Suc k)
    let ?w = "bucket_weights V logits w0 k"
    let ?x = "ucast (weight (logits ! k) (max_logit logits 0 V)) :: u64"
    have IH: "\<forall>b<nb. unat (?w ! b) \<le> k * 2 ^ 24" "length ?w = length w0" using Suc by auto
    have kb: "k div TQ_AC_BUCKET < nb" using Suc.prems by simp
    have s: "bucket_weights V logits w0 (Suc k) = ?w[k div TQ_AC_BUCKET := ?w ! (k div TQ_AC_BUCKET) + ?x]"
      by (simp add: bucket_weights_def)
    have "unat (?w ! (k div TQ_AC_BUCKET)) \<le> k * 2 ^ 24" using IH kb by blast
    moreover have "unat ?x \<le> 2 ^ 24" by (rule ucast_weight)
    moreover have "k * 2 ^ 24 \<le> 65536 * 2 ^ 24" using Suc.prems by simp
    ultimately have "unat (?w ! (k div TQ_AC_BUCKET) + ?x) \<le> Suc k * 2 ^ 24"
      using unat_add_small [of "?w ! (k div TQ_AC_BUCKET)" ?x] by simp
    moreover have "unat (?w ! b) \<le> Suc k * 2 ^ 24" if "b < nb" for b
      using IH(1) that by (meson le_trans mult_le_mono1 le_SucI order_refl)
    ultimately show ?case using IH kb assms(4) unfolding s
      by (auto simp: nth_list_update)
  qed
  then show "\<forall>b<nb. unat (bucket_weights V logits w0 k ! b) \<le> k * 2 ^ 24"
    "length (bucket_weights V logits w0 k) = length w0" using assms by blast+
qed

lemma bucket_weights_cong:
  assumes "\<forall>b<nb. w0 ! b = w1 ! b" "nb \<le> length w0" "nb \<le> length w1" "\<forall>i<k. i div TQ_AC_BUCKET < nb"
  shows "\<forall>b<nb. bucket_weights V logits w0 k ! b = bucket_weights V logits w1 k ! b"
proof -
  have "\<forall>i<k. i div TQ_AC_BUCKET < nb \<Longrightarrow> length (bucket_weights V logits w0 k) = length w0 \<and>
    length (bucket_weights V logits w1 k) = length w1 \<and>
    (\<forall>b<nb. bucket_weights V logits w0 k ! b = bucket_weights V logits w1 k ! b)"
  proof (induction k)
    case 0
    then show ?case using assms by (simp add: bucket_weights_def)
  next
    case (Suc k)
    then have "k div TQ_AC_BUCKET < nb" by simp
    then show ?case using Suc assms(2,3) by (auto simp: bucket_weights_def nth_list_update)
  qed
  then show ?thesis using assms(4) by blast
qed

definition bucket_table :: "nat \<Rightarrow> f32 list \<Rightarrow> u32 list" where
  "bucket_table V logits =
     (let nb = (V + TQ_AC_BUCKET - 1) div TQ_AC_BUCKET
      in take nb (tq_ac_normalize (replicate nb 0) (bucket_weights V logits (replicate nb 0) V) nb))"

lemma bucket_counts_value:
  assumes "pm_ok V pm"
  shows "\<exists>pm'. tq_ac_bucket_counts pm logits = Some pm' \<and> pm_ok V pm' \<and> pm_scnt pm' = pm_scnt pm
    \<and> pm_nbuckets pm' = pm_nbuckets pm
    \<and> table_ok (pm_bcnt pm') (pm_nbuckets pm) \<and> take (pm_nbuckets pm) (pm_bcnt pm') = bucket_table V logits"
proof -
  let ?nb = "pm_nbuckets pm"
  let ?z = "map (\<lambda>i. 0 :: u64) [0..<?nb] @ drop ?nb (pm_w pm)"
  let ?w = "bucket_weights V logits ?z V"
  let ?w1 = "bucket_weights V logits (replicate ?nb 0) V"
  note nb = pm_nbuckets [OF assms]
  have len: "length (pm_w pm) = 512" "length (pm_bcnt pm) = 512" "pm_vocab pm = V" "V \<le> 65536"
    "?nb = (V + TQ_AC_BUCKET - 1) div TQ_AC_BUCKET"
    using assms by (simp_all add: pm_ok_def ac_sizes)
  have run: "run_steps (\<lambda>w i. map_option (\<lambda>x. w[i div TQ_AC_BUCKET := w ! (i div TQ_AC_BUCKET) + ucast x])
       (tq_ac_weight (logits ! i) (max_logit logits 0 V))) [0..<V] ?z = Some ?w"
    unfolding bucket_weights_def by (rule run_steps_total) (simp add: tq_ac_weight_eq)
  have e: "tq_ac_bucket_counts pm logits = Some (pm\<lparr>pm_w := ?w, pm_bcnt := tq_ac_normalize (pm_bcnt pm) ?w ?nb\<rparr>)"
    using nb len run by (simp add: tq_ac_bucket_counts_def Let_def fill_loop)
  have z0: "\<forall>b<?nb. unat (?z ! b) = 0" by (simp add: nth_append)
  have iv: "\<forall>i<V. i div TQ_AC_BUCKET < ?nb" using nb(3) by blast
  have zl: "?nb \<le> length ?z" "length ?z = 512" using nb len by simp_all
  note bw = bucket_weights_bound [OF z0 len(4) iv zl(1), of V logits]
  have "V * 2 ^ 24 \<le> 2 ^ 40" using len(4) by simp
  then have wb: "\<forall>i<?nb. unat (?w ! i) \<le> 2 ^ 40" using bw(1) order_trans by blast
  have ok: "table_ok (tq_ac_normalize (pm_bcnt pm) ?w ?nb) ?nb" "length (tq_ac_normalize (pm_bcnt pm) ?w ?nb) = 512"
    using normalize_ok [OF nb(1,2) _ wb, of "pm_bcnt pm"] nb len by simp_all
  have wc: "\<forall>b<?nb. ?w ! b = ?w1 ! b"
    by (rule bucket_weights_cong) (use z0 zl iv in \<open>simp_all add: nth_append\<close>)
  have "take ?nb (tq_ac_normalize (pm_bcnt pm) ?w ?nb) = take ?nb (tq_ac_normalize (replicate ?nb 0) ?w1 ?nb)"
    using nb len by (intro normalize_cong [OF _ _ _ wc _ wb]) simp_all
  then have "take ?nb (tq_ac_normalize (pm_bcnt pm) ?w ?nb) = bucket_table V logits"
    by (simp add: bucket_table_def Let_def len(5))
  then show ?thesis using e ok assms bw(2) zl by (simp add: pm_ok_def ac_sizes)
qed

definition bucket_size :: "nat \<Rightarrow> nat \<Rightarrow> nat" where
  "bucket_size V b = (if V - b * TQ_AC_BUCKET > TQ_AC_BUCKET then TQ_AC_BUCKET else V - b * TQ_AC_BUCKET)"

lemma bucket_size_le: "bucket_size V b \<le> TQ_AC_BUCKET"
  by (simp add: bucket_size_def)

lemma bucket_size_symbol: "t < V \<Longrightarrow> t mod TQ_AC_BUCKET < bucket_size V (t div TQ_AC_BUCKET)"
proof -
  assume "t < V"
  moreover obtain q r where q: "t div TQ_AC_BUCKET = q" "t mod TQ_AC_BUCKET = r" by simp
  moreover have "t = q * TQ_AC_BUCKET + r" unfolding q [symmetric] by (simp only: div_mult_mod_eq)
  then have "\<And>W. t < W \<Longrightarrow> r < W - q * TQ_AC_BUCKET" by arith
  moreover have "r < TQ_AC_BUCKET" unfolding q [symmetric] by (simp add: ac_sizes)
  ultimately have "r < TQ_AC_BUCKET" "r < V - q * TQ_AC_BUCKET" by simp_all
  then show ?thesis using q by (simp add: bucket_size_def)
qed

definition symbol_weights :: "nat \<Rightarrow> f32 list \<Rightarrow> nat \<Rightarrow> nat \<Rightarrow> u64" where
  "symbol_weights V logits b i =
     ucast (weight (logits ! (b * TQ_AC_BUCKET + i)) (max_logit logits (b * TQ_AC_BUCKET) (bucket_size V b)))"

definition symbol_table :: "nat \<Rightarrow> f32 list \<Rightarrow> nat \<Rightarrow> u32 list" where
  "symbol_table V logits b =
     (let n = bucket_size V b
      in take n (tq_ac_normalize (replicate n 0) (map (symbol_weights V logits b) [0..<n]) n))"

lemma symbol_counts_value:
  assumes "pm_ok V pm" and b: "0 < bucket_size V b"
  shows "\<exists>pm'. tq_ac_symbol_counts pm logits b = Some pm' \<and> pm_ok V pm' \<and> pm_bcnt pm' = pm_bcnt pm
    \<and> pm_nbuckets pm' = pm_nbuckets pm
    \<and> table_ok (pm_scnt pm') (bucket_size V b) \<and> take (bucket_size V b) (pm_scnt pm') = symbol_table V logits b"
proof -
  let ?n = "bucket_size V b"
  let ?g = "symbol_weights V logits b"
  let ?w = "map ?g [0..<?n] @ drop ?n (pm_w pm)"
  have n: "?n \<le> 128" using bucket_size_le [of V b] by (simp add: ac_sizes)
  have len: "length (pm_w pm) = 512" "length (pm_scnt pm) = 128" "pm_vocab pm = V"
    using assms by (simp_all add: pm_ok_def ac_sizes)
  have "run_steps (\<lambda>w i. map_option (\<lambda>x. w[i := ucast x])
       (tq_ac_weight (logits ! (b * TQ_AC_BUCKET + i)) (max_logit logits (b * TQ_AC_BUCKET) ?n))) [0..<?n] (pm_w pm)
     = Some (foldl (\<lambda>w i. w[i := ?g i]) (pm_w pm) [0..<?n])"
    by (rule run_steps_total) (simp add: tq_ac_weight_eq symbol_weights_def)
  then have run: "run_steps (\<lambda>w i. map_option (\<lambda>x. w[i := ucast x])
       (tq_ac_weight (logits ! (b * TQ_AC_BUCKET + i)) (max_logit logits (b * TQ_AC_BUCKET) ?n))) [0..<?n] (pm_w pm)
     = Some ?w"
    using n len by (simp add: fill_loop)
  have nn: "(if pm_vocab pm - b * TQ_AC_BUCKET > TQ_AC_BUCKET then TQ_AC_BUCKET else pm_vocab pm - b * TQ_AC_BUCKET) = ?n"
    by (simp add: bucket_size_def len)
  have e: "tq_ac_symbol_counts pm logits b =
      Some (pm\<lparr>pm_w := ?w, pm_scnt := tq_ac_normalize (pm_scnt pm) ?w ?n, pm_bucket := int b\<rparr>)"
    by (simp only: tq_ac_symbol_counts_def Let_def nn run option.case)
  have wb: "\<forall>i<?n. unat (?w ! i) \<le> 2 ^ 40"
  proof (intro allI impI)
    fix i assume "i < ?n"
    then have "unat (?w ! i) \<le> 2 ^ 24" using ucast_weight by (simp add: nth_append symbol_weights_def)
    then show "unat (?w ! i) \<le> 2 ^ 40" by simp
  qed
  have ok: "table_ok (tq_ac_normalize (pm_scnt pm) ?w ?n) ?n" "length (tq_ac_normalize (pm_scnt pm) ?w ?n) = 128"
    using normalize_ok [OF b _ _ wb, of "pm_scnt pm"] n len by simp_all
  have "take ?n (tq_ac_normalize (pm_scnt pm) ?w ?n) = take ?n (tq_ac_normalize (replicate ?n 0) (map ?g [0..<?n]) ?n)"
    using n len b by (intro normalize_cong [OF _ _ _ _ _ wb]) (simp_all add: nth_append)
  then have "take ?n (tq_ac_normalize (pm_scnt pm) ?w ?n) = symbol_table V logits b"
    by (simp add: symbol_table_def Let_def)
  then show ?thesis using e ok assms n len by (simp add: pm_ok_def ac_sizes)
qed

lemma take_table:
  assumes "take n c = take n c'" "i < n"
  shows "tq_ac_cum c i = tq_ac_cum c' i" "c ! i = c' ! i"
proof -
  have nth: "c ! k = c' ! k" if "k < n" for k using assms(1) that by (metis nth_take)
  then show "c ! i = c' ! i" using assms(2) by blast
  have "j \<le> n \<Longrightarrow> tq_ac_cum c j = tq_ac_cum c' j" for j
    using nth by (induction j) (simp_all add: tq_ac_cum_def)
  then show "tq_ac_cum c i = tq_ac_cum c' i" using assms(2) by simp
qed

section \<open>The properties of the tables\<close>

text \<open>
  The fixed-point exponential is monotone on all arguments, gives exactly 1.0 at zero and
  never more. Within an octave the truncating Horner steps are monotone; between octaves the
  coefficients sum to exactly \<open>2^25\<close>.
\<close>

theorem exp2_q24_monotone:
  "mono (\<lambda>x. tq_ac_exp2_q24 x) \<and> tq_ac_exp2_q24 0 = 0x1000000 \<and> tq_ac_exp2_q24 x \<le> 0x1000000"
proof -
  have m: "mono (\<lambda>x. tq_ac_exp2_q24 x)"
  proof (rule monoI)
    fix x y :: int
    assume xy: "x \<le> y"
    have c: "tq_ac_exp2_q24 z = tq_ac_exp2_q24 (min z 0)" for z
      using exp2_clamped [of z] by (cases "0 \<le> z") (simp_all add: min_def)
    have "uint (tq_ac_exp2_q24 (min x 0)) \<le> uint (tq_ac_exp2_q24 (min y 0))"
      using xy by (intro exp2_mono_value) simp_all
    then show "tq_ac_exp2_q24 x \<le> tq_ac_exp2_q24 y"
      unfolding c [of x] c [of y] word_le_def .
  qed
  moreover have "tq_ac_exp2_q24 0 = 0x1000000"
    using exp2_0 by (simp add: word_uint_eq_iff)
  moreover have "tq_ac_exp2_q24 x \<le> 0x1000000" using exp2_le [of x] by (simp add: word_le_nat_alt)
  ultimately show ?thesis by blast
qed

text \<open>
  The conversion of a logit difference to \<^verbatim>\<open>int32_t\<close> is defined for all bit patterns of the
  two floats, NaN and infinities included, and gives a value in \<open>[-2^21, 0]\<close>.
\<close>

theorem delta_q16_defined:
  "\<exists>q. tq_ac_delta_q16 logit mx = Some q \<and> - (2 ^ 21) \<le> q \<and> q \<le> 0"
  by (rule delta_range)

text \<open>
  Normalisation. From any weights below \<open>2^40\<close> the counts of \<open>n\<close> symbols are all positive
  and sum to exactly \<open>TQ_AC_TOT\<close>; no step wraps around.
\<close>

theorem normalize_exact:
  assumes "0 < n" and "n \<le> 512" and "n \<le> length cnt" and "\<forall>i<n. unat (w ! i) \<le> 2 ^ 40"
  shows "(\<forall>i<n. 1 \<le> unat (tq_ac_normalize cnt w n ! i)) \<and>
    (\<Sum>c\<leftarrow>take n (tq_ac_normalize cnt w n). unat c) = 65536"
  using normalize_ok [OF assms] by (auto simp: table_ok_def Suc_le_eq)

theorem normalize_exact_witness:
  "1 \<le> unat (tq_ac_normalize [0, 0, 0] [5, 0, 7] 3 ! 1) \<and>
    (\<Sum>c\<leftarrow>take 3 (tq_ac_normalize [0, 0, 0] [5, 0, 7] 3). unat c) = 65536"
proof -
  have "\<forall>i<3. unat ([5, 0, 7] ! i :: u64) \<le> 2 ^ 40"
    by (auto simp: less_Suc_eq numeral_3_eq_3)
  from normalize_exact [OF _ _ _ this, of "[0, 0, 0]"] show ?thesis by simp
qed

text \<open>
  C40: both tables of a token, for every table state of the vocabulary and all logits. The
  counts exist (no conversion is undefined), every one is positive, and each table sums to
  exactly \<open>TQ_AC_TOT\<close>, the contract the range coder needs.
\<close>

theorem token_tables_exact:
  assumes "pm_ok V pm" and "tok < V"
  shows "\<exists>pm1 pm2. tq_ac_bucket_counts pm logits = Some pm1
    \<and> tq_ac_symbol_counts pm1 logits (tok div TQ_AC_BUCKET) = Some pm2
    \<and> pm_ok V pm2 \<and> table_ok (pm_bcnt pm2) (pm_nbuckets pm)
    \<and> table_ok (pm_scnt pm2) (bucket_size V (tok div TQ_AC_BUCKET))"
proof -
  obtain pm1 where p1: "tq_ac_bucket_counts pm logits = Some pm1" "pm_ok V pm1"
    "table_ok (pm_bcnt pm1) (pm_nbuckets pm)"
    using bucket_counts_value [OF assms(1)] by blast
  have "0 < bucket_size V (tok div TQ_AC_BUCKET)" using bucket_size_symbol [OF assms(2)] by linarith
  from symbol_counts_value [OF p1(2) this, of logits] p1 show ?thesis by auto
qed

theorem token_tables_exact_witness:
  "\<exists>pm pm1 pm2. tq_ac_model_init 300 = Inr pm \<and> tq_ac_bucket_counts pm [] = Some pm1
    \<and> tq_ac_symbol_counts pm1 [] 2 = Some pm2
    \<and> table_ok (pm_bcnt pm2) (pm_nbuckets pm) \<and> table_ok (pm_scnt pm2) 44"
proof -
  obtain pm where pm: "tq_ac_model_init 300 = Inr pm" "pm_ok 300 pm"
    using model_init_ok [of 300] by (auto simp: ac_sizes)
  then show ?thesis
    using token_tables_exact [OF pm(2), of 299 "[]"] by (auto simp: ac_sizes bucket_size_def)
qed

text \<open>
  The search inverts the cumulative counts. Every target of symbol \<open>s\<close>'s interval makes
  \<^verbatim>\<open>tq_ac_find\<close> return \<open>s\<close> and its cumulative count; the fall-through is not reached.
\<close>

theorem find_inverts_cum:
  assumes "table_ok cnt n" and "s < n" and "tq_ac_cum cnt s \<le> target"
    and "target < tq_ac_cum cnt s + cnt ! s"
  shows "tq_ac_find cnt n target = (s, tq_ac_cum cnt s)"
  using assms by (rule find_symbol)

theorem find_inverts_cum_witness:
  "tq_ac_find [40000, 536, 25000] 3 40100 = (1, tq_ac_cum [40000, 536, 25000] 1)"
  by (rule find_inverts_cum) (auto simp: table_ok_def tq_ac_cum_def less_Suc_eq numeral_3_eq_3)

end
