(* ===== verification/Tq_Codec.thy ===== *)
theory Tq_Codec imports Tq_Prob begin

text \<open>
  The token codec of \<^verbatim>\<open>core/src/tq_ac.c\<close>: a token is coded in two symbols, its bucket and its
  place in the bucket, against tables that encoder and decoder rebuild from the logits. The
  codec is a second instance of the interface \<open>paired_coder\<close>.
\<close>

unbundle bit_operations_syntax

text \<open>\<open>None\<close> is a call that does not return or whose behaviour C leaves undefined.\<close>

definition tq_ac_enc_token ::
  "tq_ac_enc \<Rightarrow> tq_ac_model \<Rightarrow> f32 list \<Rightarrow> int \<Rightarrow> (tq_ac_enc \<times> tq_ac_model \<times> tq_status) option" where
  "tq_ac_enc_token e pm logits token =
     (if token < 0 \<or> token \<ge> int (pm_vocab pm) then Some (e, pm, TQ_ERR_RANGE)
      else let b = nat token div TQ_AC_BUCKET;
               s = nat token mod TQ_AC_BUCKET
           in case tq_ac_bucket_counts pm logits of
                None \<Rightarrow> None
              | Some pm1 \<Rightarrow>
                 (case tq_ac_enc_sym e (tq_ac_cum (pm_bcnt pm1) b) (pm_bcnt pm1 ! b) TQ_AC_TOT of
                    None \<Rightarrow> None
                  | Some e1 \<Rightarrow>
                     (case tq_ac_symbol_counts pm1 logits b of
                        None \<Rightarrow> None
                      | Some pm2 \<Rightarrow>
                         (case tq_ac_enc_sym e1 (tq_ac_cum (pm_scnt pm2) s) (pm_scnt pm2 ! s) TQ_AC_TOT of
                            None \<Rightarrow> None
                          | Some e2 \<Rightarrow> Some (e2, pm2, TQ_OK)))))"

definition tq_ac_dec_token ::
  "tq_ac_dec \<Rightarrow> tq_ac_model \<Rightarrow> f32 list \<Rightarrow> (tq_ac_dec \<times> tq_ac_model \<times> (tq_status + nat)) option" where
  "tq_ac_dec_token d pm logits =
     (case tq_ac_bucket_counts pm logits of
        None \<Rightarrow> None
      | Some pm1 \<Rightarrow>
         let (d1, target) = tq_ac_dec_target d TQ_AC_TOT;
             (b, cum) = tq_ac_find (pm_bcnt pm1) (pm_nbuckets pm1) target
         in case tq_ac_dec_update d1 cum (pm_bcnt pm1 ! b) of
              None \<Rightarrow> None
            | Some d2 \<Rightarrow>
               (case tq_ac_symbol_counts pm1 logits b of
                  None \<Rightarrow> None
                | Some pm2 \<Rightarrow>
                   let n = (if pm_vocab pm2 - b * TQ_AC_BUCKET > TQ_AC_BUCKET then TQ_AC_BUCKET
                            else pm_vocab pm2 - b * TQ_AC_BUCKET);
                       (d3, target) = tq_ac_dec_target d2 TQ_AC_TOT;
                       (s, cum) = tq_ac_find (pm_scnt pm2) n target
                   in case tq_ac_dec_update d3 cum (pm_scnt pm2 ! s) of
                        None \<Rightarrow> None
                      | Some d4 \<Rightarrow>
                         let token = b * TQ_AC_BUCKET + s
                         in Some (d4, pm2, if token < pm_vocab pm2 then Inr token else Inl TQ_ERR_TRUNCATED)))"

section \<open>The two symbols of a token\<close>

definition bucket_sym :: "nat \<Rightarrow> f32 list \<Rightarrow> nat \<Rightarrow> ac_sym" where
  "bucket_sym V logits b = (tq_ac_cum (bucket_table V logits) b, bucket_table V logits ! b, TQ_AC_TOT)"

definition place_sym :: "nat \<Rightarrow> f32 list \<Rightarrow> nat \<Rightarrow> nat \<Rightarrow> ac_sym" where
  "place_sym V logits b s =
     (tq_ac_cum (symbol_table V logits b) s, symbol_table V logits b ! s, TQ_AC_TOT)"

definition token_syms :: "nat \<Rightarrow> f32 list \<Rightarrow> nat \<Rightarrow> ac_sym list" where
  "token_syms V logits tok =
     [bucket_sym V logits (tok div TQ_AC_BUCKET),
      place_sym V logits (tok div TQ_AC_BUCKET) (tok mod TQ_AC_BUCKET)]"

lemma take_sub: "take n c = t \<Longrightarrow> length t = n \<Longrightarrow> take n c = take n t"
  by simp

lemma bucket_sym_value:
  assumes "take n (pm_bcnt pm1) = bucket_table V logits" "n \<le> length (pm_bcnt pm1)" "b < n"
  shows "bucket_sym V logits b = (tq_ac_cum (pm_bcnt pm1) b, pm_bcnt pm1 ! b, TQ_AC_TOT)"
proof -
  have "take n (pm_bcnt pm1) = take n (bucket_table V logits)" using assms(1) by (metis take_take min.idem)
  from take_table [OF this assms(3)] show ?thesis by (simp add: bucket_sym_def)
qed

lemma place_sym_value:
  assumes "take n (pm_scnt pm2) = symbol_table V logits b" "s < n"
  shows "place_sym V logits b s = (tq_ac_cum (pm_scnt pm2) s, pm_scnt pm2 ! s, TQ_AC_TOT)"
proof -
  have "take n (pm_scnt pm2) = take n (symbol_table V logits b)" using assms(1) by (metis take_take min.idem)
  from take_table [OF this assms(2)] show ?thesis by (simp add: place_sym_def)
qed

text \<open>Both table passes at once, for a token of the vocabulary.\<close>

lemma token_tables:
  assumes pm: "pm_ok V pm" and tok: "tok < V"
  obtains pm1 pm2 where "tq_ac_bucket_counts pm logits = Some pm1" "pm_ok V pm1"
    "tq_ac_symbol_counts pm1 logits (tok div TQ_AC_BUCKET) = Some pm2" "pm_ok V pm2"
    "table_ok (pm_bcnt pm1) (pm_nbuckets pm1)" "tok div TQ_AC_BUCKET < pm_nbuckets pm1"
    "table_ok (pm_scnt pm2) (bucket_size V (tok div TQ_AC_BUCKET))"
    "tok mod TQ_AC_BUCKET < bucket_size V (tok div TQ_AC_BUCKET)"
    "bucket_sym V logits (tok div TQ_AC_BUCKET) =
       (tq_ac_cum (pm_bcnt pm1) (tok div TQ_AC_BUCKET), pm_bcnt pm1 ! (tok div TQ_AC_BUCKET), TQ_AC_TOT)"
    "place_sym V logits (tok div TQ_AC_BUCKET) (tok mod TQ_AC_BUCKET) =
       (tq_ac_cum (pm_scnt pm2) (tok mod TQ_AC_BUCKET), pm_scnt pm2 ! (tok mod TQ_AC_BUCKET), TQ_AC_TOT)"
proof -
  let ?b = "tok div TQ_AC_BUCKET" and ?s = "tok mod TQ_AC_BUCKET"
  obtain pm1 where p1: "tq_ac_bucket_counts pm logits = Some pm1" "pm_ok V pm1"
    "pm_nbuckets pm1 = pm_nbuckets pm" "table_ok (pm_bcnt pm1) (pm_nbuckets pm)"
    "take (pm_nbuckets pm) (pm_bcnt pm1) = bucket_table V logits"
    using bucket_counts_value [OF pm] by blast
  have s: "?s < bucket_size V ?b" by (rule bucket_size_symbol [OF tok])
  then have "0 < bucket_size V ?b" by linarith
  then obtain pm2 where p2: "tq_ac_symbol_counts pm1 logits ?b = Some pm2" "pm_ok V pm2"
    "table_ok (pm_scnt pm2) (bucket_size V ?b)"
    "take (bucket_size V ?b) (pm_scnt pm2) = symbol_table V logits ?b"
    using symbol_counts_value [OF p1(2)] by blast
  have b: "?b < pm_nbuckets pm" by (rule pm_nbuckets(3) [OF pm tok])
  have "bucket_sym V logits ?b = (tq_ac_cum (pm_bcnt pm1) ?b, pm_bcnt pm1 ! ?b, TQ_AC_TOT)"
    using p1(4) by (intro bucket_sym_value [OF p1(5) _ b]) (simp add: table_ok_def)
  moreover have "place_sym V logits ?b ?s = (tq_ac_cum (pm_scnt pm2) ?s, pm_scnt pm2 ! ?s, TQ_AC_TOT)"
    by (rule place_sym_value [OF p2(4) s])
  ultimately show ?thesis using that p1 p2 s b by simp
qed

lemma token_syms_ok: "pm_ok V pm \<Longrightarrow> tok < V \<Longrightarrow> \<forall>s \<in> set (token_syms V logits tok). sym_ok s"
  by (rule token_tables [of V pm tok logits], assumption, assumption)
    (simp add: token_syms_def table_symbol)

lemma enc_token_syms:
  assumes pm: "pm_ok V pm" and tok: "tok < V"
  obtains pm' where "pm_ok V pm'"
    "tq_ac_enc_token e pm logits (int tok) =
       map_option (\<lambda>e'. (e', pm', TQ_OK)) (run_steps tq_enc_sym3 (token_syms V logits tok) e)"
proof (rule token_tables [OF pm tok, of logits])
  fix pm1 pm2
  let ?b = "tok div TQ_AC_BUCKET" and ?s = "tok mod TQ_AC_BUCKET"
  assume p: "tq_ac_bucket_counts pm logits = Some pm1"
    "tq_ac_symbol_counts pm1 logits ?b = Some pm2" "pm_ok V pm2"
    "bucket_sym V logits ?b = (tq_ac_cum (pm_bcnt pm1) ?b, pm_bcnt pm1 ! ?b, TQ_AC_TOT)"
    "place_sym V logits ?b ?s = (tq_ac_cum (pm_scnt pm2) ?s, pm_scnt pm2 ! ?s, TQ_AC_TOT)"
  have "pm_vocab pm = V" using pm by (simp add: pm_ok_def)
  then have "tq_ac_enc_token e pm logits (int tok) =
       map_option (\<lambda>e'. (e', pm2, TQ_OK)) (run_steps tq_enc_sym3 (token_syms V logits tok) e)"
    using tok p by (simp add: tq_ac_enc_token_def token_syms_def tq_enc_sym3_def Let_def split: option.split)
  then show ?thesis using that p(3) by blast
qed

text \<open>Where the targets fall into the token's intervals, the decoder returns the token.\<close>

lemma dec_token_syms:
  assumes pm: "pm_ok V pm" and tok: "tok < V"
    and run: "run_steps tq_dec_sym3 (token_syms V logits tok) d = Some d'"
  shows "\<exists>pm'. pm_ok V pm' \<and> tq_ac_dec_token d pm logits = Some (d', pm', Inr tok)"
proof (rule token_tables [OF pm tok, of logits])
  fix pm1 pm2
  let ?b = "tok div TQ_AC_BUCKET" and ?s = "tok mod TQ_AC_BUCKET"
  assume p: "tq_ac_bucket_counts pm logits = Some pm1"
    "tq_ac_symbol_counts pm1 logits ?b = Some pm2" "pm_ok V pm2"
    "table_ok (pm_bcnt pm1) (pm_nbuckets pm1)" "?b < pm_nbuckets pm1"
    "table_ok (pm_scnt pm2) (bucket_size V ?b)" "?s < bucket_size V ?b"
    "bucket_sym V logits ?b = (tq_ac_cum (pm_bcnt pm1) ?b, pm_bcnt pm1 ! ?b, TQ_AC_TOT)"
    "place_sym V logits ?b ?s = (tq_ac_cum (pm_scnt pm2) ?s, pm_scnt pm2 ! ?s, TQ_AC_TOT)"
  obtain d1 t1 where t1: "tq_ac_dec_target d TQ_AC_TOT = (d1, t1)" by fastforce
  obtain d2 where d2: "tq_ac_cum (pm_bcnt pm1) ?b \<le> t1" "t1 < tq_ac_cum (pm_bcnt pm1) ?b + pm_bcnt pm1 ! ?b"
    "tq_ac_dec_update d1 (tq_ac_cum (pm_bcnt pm1) ?b) (pm_bcnt pm1 ! ?b) = Some d2"
    "tq_dec_sym3 d2 (place_sym V logits ?b ?s) = Some d'"
    using run t1 by (auto simp: token_syms_def p(8) tq_dec_sym3_def [of d] split: option.splits if_splits)
  obtain d3 t2 where t2: "tq_ac_dec_target d2 TQ_AC_TOT = (d3, t2)" by fastforce
  have d4: "tq_ac_cum (pm_scnt pm2) ?s \<le> t2" "t2 < tq_ac_cum (pm_scnt pm2) ?s + pm_scnt pm2 ! ?s"
    "tq_ac_dec_update d3 (tq_ac_cum (pm_scnt pm2) ?s) (pm_scnt pm2 ! ?s) = Some d'"
    using d2(4) t2 by (auto simp: p(9) tq_dec_sym3_def split: if_splits)
  have f1: "tq_ac_find (pm_bcnt pm1) (pm_nbuckets pm1) t1 = (?b, tq_ac_cum (pm_bcnt pm1) ?b)"
    by (rule find_symbol [OF p(4,5) d2(1,2)])
  have f2: "tq_ac_find (pm_scnt pm2) (bucket_size V ?b) t2 = (?s, tq_ac_cum (pm_scnt pm2) ?s)"
    by (rule find_symbol [OF p(6,7) d4(1,2)])
  have V: "pm_vocab pm2 = V" using p(3) by (simp add: pm_ok_def)
  have n: "(if pm_vocab pm2 - ?b * TQ_AC_BUCKET > TQ_AC_BUCKET then TQ_AC_BUCKET
     else pm_vocab pm2 - ?b * TQ_AC_BUCKET) = bucket_size V ?b"
    by (simp add: bucket_size_def V)
  have "?b * TQ_AC_BUCKET + ?s = tok" by simp
  then have "tq_ac_dec_token d pm logits = Some (d', pm2, Inr tok)"
    unfolding tq_ac_dec_token_def Let_def p(1,2) option.case t1 prod.case f1 d2(3) n t2 f2 d4(3)
    using tok by (simp add: V)
  then show ?thesis using p(3) by blast
qed

section \<open>The codec as a coder\<close>

definition enc_tok :: "tq_ac_enc \<times> tq_ac_model \<Rightarrow> f32 list \<times> nat \<Rightarrow> (tq_ac_enc \<times> tq_ac_model) option" where
  "enc_tok st lt =
     (case tq_ac_enc_token (fst st) (snd st) (fst lt) (int (snd lt)) of
        Some (e, pm, TQ_OK) \<Rightarrow> Some (e, pm)
      | _ \<Rightarrow> None)"

definition dec_tok :: "tq_ac_dec \<times> tq_ac_model \<Rightarrow> f32 list \<times> nat \<Rightarrow> (tq_ac_dec \<times> tq_ac_model) option" where
  "dec_tok st lt =
     (case tq_ac_dec_token (fst st) (snd st) (fst lt) of
        Some (d, pm, Inr tok) \<Rightarrow> if tok = snd lt then Some (d, pm) else None
      | _ \<Rightarrow> None)"

text \<open>
  The laws for a vocabulary of \<open>V\<close>. A state carries its table record; the two sides need not
  have equal records, since the counts they rebuild depend on the logits only.
\<close>

definition tok_good :: "nat \<Rightarrow> f32 list \<times> nat \<Rightarrow> bool" where
  "tok_good V lt \<longleftrightarrow> snd lt < V"

definition tok_ready :: "nat \<Rightarrow> nat \<Rightarrow> tq_ac_enc \<times> tq_ac_model \<Rightarrow> bool" where
  "tok_ready V n st \<longleftrightarrow> enc_ready (2 * n) (fst st) \<and> pm_ok V (snd st)"

definition tok_sync :: "nat \<Rightarrow> u8 list \<Rightarrow> tq_ac_enc \<times> tq_ac_model \<Rightarrow> tq_ac_dec \<times> tq_ac_model \<Rightarrow> bool" where
  "tok_sync V bs st dt \<longleftrightarrow> in_sync bs (fst st) (fst dt) \<and> pm_ok V (snd dt)"

lemma enc_tok_run:
  assumes "pm_ok V pm" "tok < V" "enc_tok (e, pm) (logits, tok) = Some (e', pm')"
  shows "run_steps tq_enc_sym3 (token_syms V logits tok) e = Some e'" "pm_ok V pm'"
proof -
  obtain pm1 where pm1: "pm_ok V pm1" "tq_ac_enc_token e pm logits (int tok) =
       map_option (\<lambda>e'. (e', pm1, TQ_OK)) (run_steps tq_enc_sym3 (token_syms V logits tok) e)"
    using enc_token_syms [OF assms(1,2)] by metis
  then show "run_steps tq_enc_sym3 (token_syms V logits tok) e = Some e'" "pm_ok V pm'"
    using assms(3) by (auto simp: enc_tok_def split: option.splits)
qed

lemma token_syms_length [simp]: "length (token_syms V logits tok) = 2"
  by (simp add: token_syms_def)

lemma ready_run:
  assumes "enc_ready (length ss + n) e" "\<forall>s \<in> set ss. sym_ok s" "run_steps tq_enc_sym3 ss e = Some e'"
  shows "enc_ready n e'"
  using assms
proof (induction ss arbitrary: e)
  case (Cons s ss)
  then obtain e1 where "tq_enc_sym3 e s = Some e1" "run_steps tq_enc_sym3 ss e1 = Some e'"
    by (auto split: option.splits)
  then show ?case using Cons enc_sym_ready [of "length ss + n" e s e1] by auto
qed simp

lemma enc_ready_mono: "enc_ready n e \<Longrightarrow> m \<le> n \<Longrightarrow> enc_ready m e"
  by (auto simp: enc_ready_def)

interpretation tok_coder: paired_coder enc_tok dec_tok "tok_good V" "\<lambda>st. enc_clean (fst st)"
  "tok_ready V" "\<lambda>bs st. msg_in bs (fst st)" "tok_sync V" for V
proof unfold_locales
  fix n :: nat and st st' :: "tq_ac_enc \<times> tq_ac_model" 
    and lt :: "f32 list \<times> nat" and bs :: "u8 list" and dt :: "tq_ac_dec \<times> tq_ac_model"
  obtain e pm where st: "st = (e, pm)" by (cases st)
  obtain logits tok where lt: "lt = (logits, tok)" by (cases lt)
  obtain e' pm' where st': "st' = (e', pm')" by (cases st')
  obtain d pmd where dt: "dt = (d, pmd)" by (cases dt)
  assume r: "tok_ready V (Suc n) st" and g: "tok_good V lt"
  have pm: "pm_ok V pm" and tok: "tok < V" and er: "enc_ready (2 + 2 * n) e"
    using r g by (simp_all add: tok_ready_def tok_good_def st lt)
  have ok: "\<forall>s \<in> set (token_syms V logits tok). sym_ok s" by (rule token_syms_ok [OF pm tok])
  have e2: "enc_ready (length (token_syms V logits tok)) e"
    using enc_ready_mono [OF er, of 2] by simp
  show "\<exists>st'. enc_tok st lt = Some st'"
  proof -
    obtain e1 where "run_steps tq_enc_sym3 (token_syms V logits tok) e = Some e1"
      using ac_coder.run_returns [OF e2 ok] by blast
    moreover obtain pm1 where "tq_ac_enc_token e pm logits (int tok) =
       map_option (\<lambda>e'. (e', pm1, TQ_OK)) (run_steps tq_enc_sym3 (token_syms V logits tok) e)"
      using enc_token_syms [OF pm tok] by metis
    ultimately show ?thesis by (simp add: enc_tok_def st lt)
  qed
  assume "enc_tok st lt = Some st'"
  then have run: "run_steps tq_enc_sym3 (token_syms V logits tok) e = Some e'" and pm': "pm_ok V pm'"
    using enc_tok_run [OF pm tok] by (simp_all add: st lt st')
  show "tok_ready V n st'"
    using ready_run [OF _ ok run, of "2 * n"] er pm' by (simp add: tok_ready_def st')
  assume "enc_clean (fst st')"
  then have c: "enc_clean e'" by (simp add: st')
  show "enc_clean (fst st)"
    using ac_coder.run_clean [OF e2 ok run c] by (simp add: st)
  assume "msg_in bs (fst st')"
  then have m: "msg_in bs e'" by (simp add: st')
  show "msg_in bs (fst st)" using ac_coder.run_back [OF e2 ok run c m] by (simp add: st)
  assume "tok_sync V bs st dt"
  then have sy: "in_sync bs e d" "pm_ok V pmd" by (simp_all add: tok_sync_def st dt)
  obtain d' where d': "run_steps tq_dec_sym3 (token_syms V logits tok) d = Some d'" "in_sync bs e' d'"
    using ac_coder.run_round_trip [OF e2 ok run c m sy(1)] by blast
  then show "\<exists>dt'. dec_tok dt lt = Some dt' \<and> tok_sync V bs st' dt'"
    using dec_token_syms [OF sy(2) tok d'(1)] by (auto simp: dec_tok_def tok_sync_def dt lt st')
qed

section \<open>Token streams\<close>

lemma enc_tok_stream:
  assumes "pm_ok V pm" "run_steps enc_tok lts (e, pm) = Some (e', pm')" "\<forall>lt \<in> set lts. tok_good V lt"
  shows "run_steps tq_enc_sym3 (concat (map (\<lambda>(l, t). token_syms V l t) lts)) e = Some e'"
  using assms
proof (induction lts arbitrary: e pm)
  case (Cons lt lts)
  obtain logits tok where lt: "lt = (logits, tok)" by (cases lt)
  obtain e1 pm1 where e1: "enc_tok (e, pm) (logits, tok) = Some (e1, pm1)"
    "run_steps enc_tok lts (e1, pm1) = Some (e', pm')"
    using Cons.prems by (auto simp: lt split: option.splits)
  have tok: "tok < V" using Cons.prems by (simp add: lt tok_good_def)
  note r = enc_tok_run [OF Cons.prems(1) tok e1(1)]
  show ?case using Cons.IH [OF r(2) e1(2)] Cons.prems(3) r(1) by (simp add: lt run_steps_append)
qed simp

lemma token_stream_syms:
  assumes "pm_ok V pm" "\<forall>lt \<in> set lts. tok_good V lt"
  shows "\<forall>s \<in> set (concat (map (\<lambda>(l, t). token_syms V l t) lts)). sym_ok s"
    and "length (concat (map (\<lambda>(l, t). token_syms V l t) lts)) = 2 * length lts"
proof -
  show "\<forall>s \<in> set (concat (map (\<lambda>(l, t). token_syms V l t) lts)). sym_ok s"
    using assms(2) token_syms_ok [OF assms(1)] by (fastforce simp: tok_good_def)
  show "length (concat (map (\<lambda>(l, t). token_syms V l t) lts)) = 2 * length lts"
    by (induction lts) auto
qed

lemma tok_ready_init:
  "pm_ok V pm \<Longrightarrow> 4 * n + 5 < 2 ^ 64 \<Longrightarrow> tok_ready V n (tq_ac_enc_init cap, pm)"
  using enc_ready_init [of "2 * n" cap] by (simp add: tok_ready_def)

lemma model_init_ok': "tq_ac_model_init vocab = Inr pm \<Longrightarrow> pm_ok (nat vocab) pm \<and> 0 < vocab"
  by (auto simp: tq_ac_model_init_def pm_ok_def ac_sizes split: if_splits)

lemma token_stream_run:
  assumes pm: "pm_ok V pm" and good: "\<forall>lt \<in> set lts. tok_good V lt" and small: "4 * length lts + 5 < 2 ^ 64"
  obtains e pm' where "run_steps enc_tok lts (tq_ac_enc_init cap, pm) = Some (e, pm')"
    "enc_ready 0 e" "\<not> e_finished e" "e_cap e = cap"
    "4 * length lts + 4 \<le> cap \<Longrightarrow> enc_clean e \<and> enc_shifts e \<le> 4 * length lts"
proof -
  obtain st where st: "run_steps enc_tok lts (tq_ac_enc_init cap, pm) = Some st" "tok_ready V 0 st"
    using tok_coder.run_returns [OF tok_ready_init [OF pm small] good] by blast
  obtain e pm' where e: "st = (e, pm')" by (cases st)
  let ?ss = "concat (map (\<lambda>(l, t). token_syms V l t) lts)"
  have run: "run_steps tq_enc_sym3 ?ss (tq_ac_enc_init cap) = Some e"
    using enc_tok_stream [OF pm _ good] st(1) by (simp add: e)
  note ss = token_stream_syms [OF pm good]
  have k: "e_cap e = cap" "\<not> e_finished e" using enc_run_keeps [OF run _ ss(1)] by simp_all
  have sm: "2 * length ?ss + 5 < 2 ^ 64" using small ss(2) by simp
  have "enc_clean e \<and> enc_shifts e \<le> 4 * length lts" if "4 * length lts + 4 \<le> cap"
    using enc_run_room [OF enc_ready_init [OF sm] ss(1) _ _ run] that ss(2) by (simp add: enc_clean_def)
  then show ?thesis using that st k by (simp add: e tok_ready_def)
qed

text \<open>
  C11: the round trip of the token codec. Encoder and decoder hold equal logits for every
  token and tables of the same vocabulary. When the flushed message did not overflow, the
  decoder returns exactly the tokens that were encoded, in order.
\<close>

theorem token_codec_round_trip:
  assumes "tq_ac_model_init vocab = Inr pm" and "\<forall>lt \<in> set lts. int (snd lt) < vocab"
    and "4 * length lts + 5 < 2 ^ 64"
    and "run_steps enc_tok lts (tq_ac_enc_init cap, pm) = Some (e, pm')"
    and "\<not> e_overflow (snd (tq_ac_enc_finish e))"
  shows "\<exists>d. run_steps dec_tok lts (tq_ac_dec_init (e_buf (snd (tq_ac_enc_finish e))), pm) = Some d"
proof -
  have pm: "pm_ok (nat vocab) pm" using model_init_ok' [OF assms(1)] by simp
  have good: "\<forall>lt \<in> set lts. tok_good (nat vocab) lt" using assms(2) by (auto simp: tok_good_def)
  obtain e1 pm1 where e1: "run_steps enc_tok lts (tq_ac_enc_init cap, pm) = Some (e1, pm1)"
    "enc_ready 0 e1" "\<not> e_finished e1"
    using token_stream_run [OF pm good assms(3)] by blast
  then have r: "enc_ready 0 e" "\<not> e_finished e" using assms(4) by simp_all
  let ?bs = "e_buf (snd (tq_ac_enc_finish e))"
  note f = enc_ready_finish [OF r assms(5)]
  have "tok_sync (nat vocab) ?bs (tq_ac_enc_init cap, pm) (tq_ac_dec_init ?bs, pm)"
    using dec_init_sync pm by (simp add: tok_sync_def)
  from tok_coder.run_round_trip [OF tok_ready_init [OF pm assms(3)] good assms(4) _ _ this] f(1,2)
  show ?thesis by fastforce
qed

theorem token_codec_round_trip_witness:
  "\<exists>pm e pm' d. tq_ac_model_init 300 = Inr pm \<and>
    run_steps enc_tok [([], 7), ([0x3F800000], 299)] (tq_ac_enc_init 64, pm) = Some (e, pm') \<and>
    run_steps dec_tok [([], 7), ([0x3F800000], 299)]
      (tq_ac_dec_init (e_buf (snd (tq_ac_enc_finish e))), pm) = Some d"
proof -
  let ?lts = "[([], 7), ([0x3F800000], 299)] :: (f32 list \<times> nat) list"
  obtain pm where pm: "tq_ac_model_init 300 = Inr pm" "pm_ok 300 pm"
    using model_init_ok [of 300] by (auto simp: ac_sizes)
  have good: "\<forall>lt \<in> set ?lts. tok_good 300 lt" by (simp add: tok_good_def)
  obtain e pm' where e: "run_steps enc_tok ?lts (tq_ac_enc_init 64, pm) = Some (e, pm')"
    "enc_ready 0 e" "\<not> e_finished e" "e_cap e = 64" "enc_clean e \<and> enc_shifts e \<le> 8"
    using token_stream_run [OF pm(2) good, of 64] by auto
  have "\<not> e_overflow (snd (tq_ac_enc_finish e))"
    using e by (intro finish_room) (simp_all add: enc_ready_def enc_clean_def)
  from token_codec_round_trip [OF pm(1) _ _ e(1) this] pm e(1) show ?thesis by auto
qed

text \<open>
  Coding tokens of the vocabulary always succeeds, whatever the logits are (NaNs
  included): every call returns \<open>TQ_OK\<close>, with four bytes of room for each token and four for
  the flush nothing is lost, and the message has at most four bytes for each token and one more.
\<close>

theorem token_codec_total:
  assumes "tq_ac_model_init vocab = Inr pm" and "\<forall>lt \<in> set lts. int (snd lt) < vocab"
    and "4 * length lts + 5 < 2 ^ 64" and "4 * length lts + 4 \<le> cap"
  shows "\<exists>e pm'. run_steps enc_tok lts (tq_ac_enc_init cap, pm) = Some (e, pm')
    \<and> \<not> e_overflow (snd (tq_ac_enc_finish e)) \<and> fst (tq_ac_enc_finish e) \<le> 4 * length lts + 1"
proof -
  have pm: "pm_ok (nat vocab) pm" using model_init_ok' [OF assms(1)] by simp
  have good: "\<forall>lt \<in> set lts. tok_good (nat vocab) lt" using assms(2) by (auto simp: tok_good_def)
  obtain e pm' where e: "run_steps enc_tok lts (tq_ac_enc_init cap, pm) = Some (e, pm')"
    "enc_ready 0 e" "\<not> e_finished e" "e_cap e = cap" "enc_clean e \<and> enc_shifts e \<le> 4 * length lts"
    using token_stream_run [OF pm good assms(3), of cap] assms(4) by blast
  have o: "\<not> e_overflow (snd (tq_ac_enc_finish e))"
    using e assms(4) by (intro finish_room) (simp_all add: enc_ready_def enc_clean_def)
  then show ?thesis using e enc_ready_finish(3) [OF e(2,3) o] by (auto simp: finish_length)
qed

theorem token_codec_total_witness:
  "\<exists>pm e pm'. tq_ac_model_init 300 = Inr pm \<and>
    run_steps enc_tok [([], 7), ([], 299)] (tq_ac_enc_init 12, pm) = Some (e, pm') \<and>
    \<not> e_overflow (snd (tq_ac_enc_finish e)) \<and> fst (tq_ac_enc_finish e) \<le> 9"
proof -
  obtain pm where pm: "tq_ac_model_init 300 = Inr pm"
    using model_init_ok [of 300] by (auto simp: ac_sizes)
  from token_codec_total [OF this, of "[([], 7), ([], 299)]" 12] pm show ?thesis by auto
qed

text \<open>
  A token outside the vocabulary is refused with \<open>TQ_ERR_RANGE\<close> and changes neither the
  encoder nor the tables; a token inside it is never refused.
\<close>

theorem enc_token_range:
  assumes "pm_ok V pm" and "2 ^ 24 \<le> unat (e_range e)"
  shows "(\<exists>e' pm'. tq_ac_enc_token e pm logits token =
            Some (e', pm', if token < 0 \<or> int V \<le> token then TQ_ERR_RANGE else TQ_OK))
    \<and> (token < 0 \<or> int V \<le> token \<longrightarrow> tq_ac_enc_token e pm logits token = Some (e, pm, TQ_ERR_RANGE))"
proof (cases "token < 0 \<or> int V \<le> token")
  case True
  then show ?thesis using assms(1) by (auto simp: tq_ac_enc_token_def pm_ok_def)
next
  case False
  then have tok: "nat token < V" "int (nat token) = token" by auto
  obtain pm1 where pm1: "tq_ac_enc_token e pm logits (int (nat token)) =
       map_option (\<lambda>e'. (e', pm1, TQ_OK)) (run_steps tq_enc_sym3 (token_syms V logits (nat token)) e)"
    using enc_token_syms [OF assms(1) tok(1)] by metis
  obtain c1 f1 t1 where b: "bucket_sym V logits (nat token div TQ_AC_BUCKET) = (c1, f1, t1)"
    by (cases "bucket_sym V logits (nat token div TQ_AC_BUCKET)")
  have s1: "sym_ok (c1, f1, t1)" using token_syms_ok [OF assms(1) tok(1), of logits] b by (simp add: token_syms_def)
  note u = enc_sym_unroll [OF assms(2) s1]
  obtain e1 where e1: "tq_ac_enc_sym e c1 f1 t1 = Some e1" "2 ^ 24 \<le> unat (e_range e1)"
    using u(1) norm_steps_range [OF u(3)] u(4) by auto
  obtain c2 f2 t2 where p: "place_sym V logits (nat token div TQ_AC_BUCKET) (nat token mod TQ_AC_BUCKET) = (c2, f2, t2)"
    by (cases "place_sym V logits (nat token div TQ_AC_BUCKET) (nat token mod TQ_AC_BUCKET)")
  have s2: "sym_ok (c2, f2, t2)" using token_syms_ok [OF assms(1) tok(1), of logits] p by (simp add: token_syms_def)
  obtain e2 where "tq_ac_enc_sym e1 c2 f2 t2 = Some e2" using enc_sym_unroll(1) [OF e1(2) s2] by blast
  then have "run_steps tq_enc_sym3 (token_syms V logits (nat token)) e = Some e2"
    using e1 b p by (simp add: token_syms_def tq_enc_sym3_def)
  then show ?thesis using False pm1 tok(2) by auto
qed

theorem enc_token_range_witness:
  "\<exists>pm. tq_ac_model_init 300 = Inr pm \<and>
    tq_ac_enc_token (tq_ac_enc_init 8) pm [] 300 = Some (tq_ac_enc_init 8, pm, TQ_ERR_RANGE)"
proof -
  obtain pm where pm: "tq_ac_model_init 300 = Inr pm" "pm_ok 300 pm"
    using model_init_ok [of 300] by (auto simp: ac_sizes)
  from enc_token_range [OF pm(2), of "tq_ac_enc_init 8" "[]" 300] pm show ?thesis by simp
qed

end
