(* ===== verification/Tq_Half.thy ===== *)
theory Tq_Half imports Tq_Rounding begin

text \<open>
  IEEE-754 half precision of \<^verbatim>\<open>core/src/tq_kernels.c\<close>: \<^verbatim>\<open>tq_half_to_float\<close> and
  \<^verbatim>\<open>tq_float_to_half\<close>, branch by branch on bit patterns, and their correctness: the first is
  exact, the second rounds to nearest even, and every half survives the way there and back.
\<close>

unbundle bit_operations_syntax

text \<open>
  The loop that shifts a subnormal's mantissa up to the implicit bit. A mantissa of ten bits
  that is not zero needs at most ten rounds (\<open>half_norm_done\<close>), so ten are what it is given.
\<close>

fun half_norm :: "nat \<Rightarrow> u32 \<Rightarrow> u32 \<Rightarrow> u32 \<times> u32" where
  "half_norm 0 mant e = (mant, e)"
| "half_norm (Suc k) mant e =
     (if mant AND 0x400 = 0 then half_norm k (push_bit 1 mant) (e - 1) else (mant, e))"

definition tq_half_to_float :: "u16 \<Rightarrow> f32" where
  "tq_half_to_float h =
     (let sign = push_bit 16 (ucast (h AND 0x8000)) :: u32;
          exp = ucast (drop_bit 10 h) AND 0x1F :: u32;
          mant = ucast h AND 0x3FF :: u32
      in if exp = 0 then
           (if mant = 0 then sign
            else let (m, e) = half_norm 10 mant (127 - 15 + 1)
                 in sign OR push_bit 23 e OR push_bit 13 (m AND 0x3FF))
         else if exp = 31 then sign OR 0x7F800000 OR push_bit 13 mant
         else sign OR push_bit 23 (exp - 15 + 127) OR push_bit 13 mant)"

definition tq_float_to_half :: "f32 \<Rightarrow> u16" where
  "tq_float_to_half x =
     (let sign = drop_bit 16 x AND 0x8000;
          mant = x AND 0x7FFFFF;
          exp = uint (drop_bit 23 x AND 0xFF)
      in if exp = 0xFF then ucast (sign OR 0x7C00 OR (if mant \<noteq> 0 then 0x200 else 0))
         else let exp = exp - 127 + 15
              in if exp \<ge> 31 then ucast (sign OR 0x7C00)
                 else if exp \<le> 0 then
                   (if exp < -10 then ucast sign
                    else let mant = mant OR 0x800000;
                             shift = nat (14 - exp);
                             half = drop_bit shift mant;
                             rem = mant AND (push_bit shift 1 - 1);
                             halfway = push_bit (shift - 1) 1;
                             half = (if rem > halfway \<or> (rem = halfway \<and> half AND 1 \<noteq> 0)
                                     then half + 1 else half)
                         in ucast (sign OR half))
                 else let h = push_bit 10 (word_of_int exp) OR drop_bit 13 mant;
                          rem = mant AND 0x1FFF;
                          h = (if rem > 0x1000 \<or> (rem = 0x1000 \<and> h AND 1 \<noteq> 0) then h + 1 else h)
                      in ucast (sign OR h))"

section \<open>Bit fields\<close>

lemma and_low: "a AND (mask n :: 'a::len word) = take_bit n a"
  by (simp add: take_bit_eq_mask)

lemma unat_take: "unat (take_bit n (a :: 'a::len word)) = unat a mod 2 ^ n"
  by (simp only: unsigned_take_bit_eq) (simp add: take_bit_eq_mod)

lemma masks:
  "(0x7FFFFF :: u32) = mask 23" "(0xFF :: u32) = mask 8" "(0x3FF :: u32) = mask 10" "(0x1F :: u32) = mask 5"
  "(0x1FFF :: u32) = mask 13"
  by (simp_all add: mask_eq_exp_minus_1)

lemma bit_powers:
  "bit (0x8000 :: int) n \<longleftrightarrow> n = 15" "bit (0x400 :: int) n \<longleftrightarrow> n = 10"
  "bit (0x8000 :: nat) n \<longleftrightarrow> n = 15" "bit (0x400 :: nat) n \<longleftrightarrow> n = 10"
  using bit_exp_iff [of 15 n, where 'a = int] bit_exp_iff [of 10 n, where 'a = int]
    bit_exp_iff [of 15 n, where 'a = nat] bit_exp_iff [of 10 n, where 'a = nat] by auto

lemma half_sign_up: "push_bit 16 (ucast (h AND (0x8000 :: u16)) :: u32) = push_bit 31 (of_bool (bit h 15))"
proof (rule bit_word_eqI)
  fix n assume "n < LENGTH(32)"
  then show "bit (push_bit 16 (ucast (h AND (0x8000 :: u16)) :: u32)) n = bit (push_bit 31 (of_bool (bit h 15)) :: u32) n"
    by (cases "n = 31") (auto simp: bit_simps bit_powers)
qed

lemma half_sign_down: "drop_bit 16 (x :: u32) AND 0x8000 = push_bit 15 (of_bool (bit x 31))"
  by (intro bit_word_eqI) (auto simp: bit_simps bit_powers)

lemma fields_or:
  fixes e m :: u32
  assumes "unat e < 256" "unat m < 1024"
  shows "unat (push_bit 31 (of_bool s) OR push_bit 23 e OR push_bit 13 m) =
           of_bool s * 2 ^ 31 + unat e * 2 ^ 23 + unat m * 2 ^ 13"
proof -
  have m: "unat (push_bit 13 m) = unat m * 2 ^ 13" using assms by (simp add: unat_push_mod)
  have "unat (push_bit 23 e OR push_bit 13 m) = unat e * 2 ^ 23 + unat (push_bit 13 m)"
    using assms by (intro unat_push_or) (simp_all add: m)
  then have i: "unat (push_bit 23 e OR push_bit 13 m) = unat e * 2 ^ 23 + unat m * 2 ^ 13" by (simp add: m)
  have "unat (push_bit 31 (of_bool s :: u32) OR (push_bit 23 e OR push_bit 13 m)) =
      unat (of_bool s :: u32) * 2 ^ 31 + unat (push_bit 23 e OR push_bit 13 m)"
    using assms by (intro unat_push_or) (cases s; simp add: i)+
  then show ?thesis unfolding or.assoc by (cases s) (simp_all add: i)
qed

section \<open>Half to float\<close>

text \<open>The fields of a half.\<close>

definition h_exp :: "u16 \<Rightarrow> nat" where "h_exp h = unat h div 2 ^ 10 mod 2 ^ 5"

definition h_mant :: "u16 \<Rightarrow> nat" where "h_mant h = unat h mod 2 ^ 10"

lemma h_fields:
  "unat (ucast (drop_bit 10 h) AND 0x1F :: u32) = h_exp h" "unat (ucast h AND 0x3FF :: u32) = h_mant h"
proof -
  have "unat (ucast h :: u32) = unat h" using unat16_less [of h] by (simp add: word_nat)
  then show "unat (ucast h AND 0x3FF :: u32) = h_mant h"
    unfolding masks and_low unat_take h_mant_def by simp
  have "unat (ucast (drop_bit 10 h) :: u32) = unat h div 2 ^ 10"
    using unat16_less [of h] by (simp add: unat_ucast_mod unat_drop_div)
  then show "unat (ucast (drop_bit 10 h) AND 0x1F :: u32) = h_exp h"
    unfolding masks and_low unat_take h_exp_def by simp
qed

lemma h_split: "unat h = of_bool (bit h 15) * 2 ^ 15 + h_exp h * 2 ^ 10 + h_mant h"
proof -
  have b: "bit h 15 = odd (unat h div 2 ^ 15)"
  proof -
    have "bit h 15 = bit (unat h) 15" by (simp add: bit_unsigned_iff)
    then show ?thesis by (simp add: bit_iff_odd)
  qed
  have "unat h div 2 ^ 15 < 2" using unat16_less [of h] by (simp add: div_less_iff_less_mult)
  then have top: "unat h div 2 ^ 15 = of_bool (bit h 15)" unfolding b by (cases "odd (unat h div 2 ^ 15)") (auto elim: oddE)
  have "unat h div 2 ^ 10 = unat h div 2 ^ 15 * 2 ^ 5 + h_exp h"
    unfolding h_exp_def using div_mult_mod_eq [of "unat h div 2 ^ 10" "2 ^ 5"] by (simp add: div_mult2_eq [symmetric])
  moreover have "unat h = unat h div 2 ^ 10 * 2 ^ 10 + h_mant h" unfolding h_mant_def by (simp only: div_mult_mod_eq)
  ultimately show ?thesis unfolding top by simp
qed

lemma and_0x400: "unat (m :: u32) < 2 ^ 11 \<Longrightarrow> (m AND 0x400 = 0) = (unat m < 2 ^ 10)"
proof -
  assume m: "unat m < 2 ^ 11"
  have "m AND 0x400 = push_bit 10 (of_bool (bit m 10))"
    by (intro bit_word_eqI) (auto simp: bit_simps bit_powers)
  then have "(m AND 0x400 = 0) = (\<not> bit m 10)" by simp
  also have "\<dots> = even (unat m div 2 ^ 10)"
  proof -
    have "bit m 10 = bit (unat m) 10" by (simp add: bit_unsigned_iff)
    then show ?thesis by (simp add: bit_iff_odd)
  qed
  also have "\<dots> = (unat m < 2 ^ 10)"
  proof -
    have "unat m div 2 ^ 10 < 2" using m by (simp add: div_less_iff_less_mult)
    then have "unat m div 2 ^ 10 = 0 \<or> unat m div 2 ^ 10 = 1" by linarith
    then show ?thesis by (auto simp: div_eq_0_iff)
  qed
  finally show ?thesis .
qed

lemma half_norm_done:
  assumes "0 < unat m" "2 ^ 10 \<le> unat m * 2 ^ n" "unat m < 2 ^ 11" "n < unat e"
  shows "\<exists>k \<le> n. \<exists>m' e'. half_norm n m e = (m', e') \<and> unat m' = unat m * 2 ^ k \<and> unat e' = unat e - k
    \<and> 2 ^ 10 \<le> unat m' \<and> unat m' < 2 ^ 11"
  using assms
proof (induction n arbitrary: m e)
  case (Suc n)
  show ?case
  proof (cases "unat m < 2 ^ 10")
    case True
    have p2: "unat (m * 2) = 2 * unat m" using unat_mult_small [of m 2] True by simp
    then have p: "unat (push_bit 1 m) = 2 * unat m" by simp
    have q: "unat (e - 1) = unat e - 1" using Suc.prems(4) unat_sub_small [of 1 e] by simp
    have "\<exists>k \<le> n. \<exists>m' e'. half_norm n (push_bit 1 m) (e - 1) = (m', e') \<and> unat m' = unat (push_bit 1 m) * 2 ^ k
      \<and> unat e' = unat (e - 1) - k \<and> 2 ^ 10 \<le> unat m' \<and> unat m' < 2 ^ 11"
      using Suc.prems True by (intro Suc.IH) (simp_all add: p2 q)
    then obtain k m' e' where k: "k \<le> n" "half_norm n (push_bit 1 m) (e - 1) = (m', e')"
      "unat m' = unat (push_bit 1 m) * 2 ^ k" "unat e' = unat (e - 1) - k" "2 ^ 10 \<le> unat m'" "unat m' < 2 ^ 11"
      by blast
    have "half_norm (Suc n) m e = (m', e')" using k(2) True Suc.prems by (simp add: and_0x400)
    then show ?thesis using k p2 q by (intro exI [of _ "Suc k"]) simp
  next
    case False
    then have "half_norm (Suc n) m e = (m, e)" using Suc.prems by (simp add: and_0x400)
    then show ?thesis using False Suc.prems by (intro exI [of _ 0]) simp
  qed
qed (auto intro!: exI [of _ 0])

lemma f32_fields:
  assumes "unat x = of_bool s * 2 ^ 31 + E * 2 ^ 23 + M" "E < 256" "M < 2 ^ 23"
  shows "f32_mag x = int (E * 2 ^ 23 + M)" "f32_sign x = s"
proof -
  have "E * 2 ^ 23 \<le> 255 * 2 ^ 23" using assms(2) by (intro mult_right_mono) simp_all
  then have lt: "E * 2 ^ 23 + M < 2 ^ 31" using assms(3) by simp
  have u: "uint x = of_bool s * 2 ^ 31 + int (E * 2 ^ 23 + M)"
  proof -
    have "uint x = int (unat x)" by simp
    then show ?thesis unfolding assms(1) by (cases s) simp_all
  qed
  have lt': "int (E * 2 ^ 23 + M) < 2 ^ 31" using lt by simp
  show "f32_mag x = int (E * 2 ^ 23 + M)"
    unfolding f32_mag_def u using lt' by (cases s) simp_all
  show "f32_sign x = s"
    unfolding f32_sign_def u using lt' by (cases s) simp_all
qed

lemma mag_val_scale:
  assumes "of_int (mag_m mb a) = (of_int (mag_m mb' b) * 2 ^ k :: real)" "mag_e mb eb a + int k = mag_e mb' eb' b"
  shows "mag_val mb eb a = mag_val mb' eb' b"
proof -
  have e: "real_of_int (mag_e mb' eb' b) = real_of_int (mag_e mb eb a) + real k"
    using arg_cong [OF assms(2), of real_of_int] by simp
  show ?thesis unfolding mag_val_def assms(1) e by (simp add: powr_add powr_realpow)
qed

lemma h_bounds: "h_exp h < 32" "h_mant h < 1024"
  by (simp_all add: h_exp_def h_mant_def)

definition h_mag :: "u16 \<Rightarrow> int" where "h_mag h = int (h_exp h * 2 ^ 10 + h_mant h)"

lemma h_mag_div: "h_mag h div 2 ^ 10 = int (h_exp h)" "h_mag h mod 2 ^ 10 = int (h_mant h)"
proof -
  have "h_mag h = int (h_mant h) + 2 ^ 10 * int (h_exp h)" by (simp add: h_mag_def)
  moreover have "int (h_mant h) div 2 ^ 10 = 0" "int (h_mant h) mod 2 ^ 10 = int (h_mant h)"
    using h_bounds(2) [of h] by simp_all
  ultimately show "h_mag h div 2 ^ 10 = int (h_exp h)" "h_mag h mod 2 ^ 10 = int (h_mant h)"
    by (simp_all only: div_mult_self2 mod_mult_self2) simp_all
qed

lemma f_mag_div:
  assumes "M < 2 ^ 23"
  shows "int (E * 2 ^ 23 + M) div 2 ^ 23 = int E" "int (E * 2 ^ 23 + M) mod 2 ^ 23 = int M"
proof -
  have "int (E * 2 ^ 23 + M) = int M + 2 ^ 23 * int E" by simp
  moreover have "int M div 2 ^ 23 = 0" "int M mod 2 ^ 23 = int M" using assms by simp_all
  ultimately show "int (E * 2 ^ 23 + M) div 2 ^ 23 = int E" "int (E * 2 ^ 23 + M) mod 2 ^ 23 = int M"
    by (simp_all only: div_mult_self2 mod_mult_self2) simp_all
qed

lemma half_value:
  shows "f32_sign (tq_half_to_float h) = bit h 15"
    and "h_exp h < 31 \<Longrightarrow> f32_finite (tq_half_to_float h) \<and>
           mag_val 23 8 (f32_mag (tq_half_to_float h)) = mag_val 10 5 (h_mag h)"
    and "h_exp h = 31 \<Longrightarrow> f32_mag (tq_half_to_float h) = int (255 * 2 ^ 23 + h_mant h * 2 ^ 13)"
proof -
  let ?e = "ucast (drop_bit 10 h) AND 0x1F :: u32" and ?m = "ucast h AND 0x3FF :: u32"
  let ?s = "push_bit 31 (of_bool (bit h 15)) :: u32"
  note f = h_fields [of h]
  note b = h_bounds [of h]
  have "\<exists>E M. unat (tq_half_to_float h) = of_bool (bit h 15) * 2 ^ 31 + E * 2 ^ 23 + M \<and> E < 256 \<and> M < 2 ^ 23 \<and>
     (h_exp h < 31 \<longrightarrow> E < 255 \<and> mag_val 23 8 (int (E * 2 ^ 23 + M)) = mag_val 10 5 (h_mag h)) \<and>
     (h_exp h = 31 \<longrightarrow> E = 255 \<and> M = h_mant h * 2 ^ 13)"
  proof -
    consider (zero) "?e = 0" "?m = 0" | (sub) "?e = 0" "?m \<noteq> 0" | (inf) "?e = 31" | (norm) "?e \<noteq> 0" "?e \<noteq> 31" by auto
    then show ?thesis
    proof cases
      case zero
      then have "h_exp h = 0" "h_mant h = 0" using f by simp_all
      moreover have "tq_half_to_float h = ?s" using zero by (simp add: tq_half_to_float_def half_sign_up Let_def)
      moreover have "unat ?s = of_bool (bit h 15) * 2 ^ 31" by (cases "bit h 15") simp_all
      ultimately show ?thesis
        by (intro exI [of _ 0]) (simp add: mag_val_def mag_m_def h_mag_def)
    next
      case sub
      then have e0: "h_exp h = 0" using f by simp
      have m0: "0 < unat ?m" using sub(2) by (simp add: unat_gt_0)
      obtain k m' e' where k: "k \<le> 10" "half_norm 10 ?m 113 = (m', e')" "unat m' = unat ?m * 2 ^ k" "unat e' = 113 - k"
        "2 ^ 10 \<le> unat m'" "unat m' < 2 ^ 11"
        using half_norm_done [OF m0, of 10 113] m0 b(2) f(2) by auto
      have mm: "unat (m' AND 0x3FF) = unat m' - 2 ^ 10"
      proof -
        have "unat (m' AND 0x3FF) = unat m' mod 2 ^ 10" unfolding masks and_low unat_take by simp
        also have "\<dots> = (unat m' - 2 ^ 10) mod 2 ^ 10" using k(5) by (simp add: le_mod_geq)
        finally show ?thesis using k(6) by simp
      qed
      let ?E = "113 - k" and ?M = "(unat m' - 2 ^ 10) * 2 ^ 13"
      have "tq_half_to_float h = ?s OR push_bit 23 e' OR push_bit 13 (m' AND 0x3FF)"
        using sub k(2) by (simp add: tq_half_to_float_def half_sign_up Let_def)
      then have u: "unat (tq_half_to_float h) = of_bool (bit h 15) * 2 ^ 31 + ?E * 2 ^ 23 + ?M"
        using fields_or [of e' "m' AND 0x3FF" "bit h 15"] k(4,6) mm by simp
      have M: "?M < 2 ^ 23" using k(6) by simp
      have E1: "?E < 256" "?E < 255" by linarith+
      have "mag_val 23 8 (int (?E * 2 ^ 23 + ?M)) = mag_val 10 5 (h_mag h)"
      proof (rule mag_val_scale [where k = "k + 13"])
        have a: "int (?M) + 2 ^ 23 = int (unat ?m) * 2 ^ (k + 13)"
          using k(3,5) by (simp add: power_add left_diff_distrib)
        have "mag_m 23 (int (?E * 2 ^ 23 + ?M)) = int ?M + 2 ^ 23"
          using k(1) by (simp only: mag_m_def f_mag_div [OF M]) simp
        moreover have "mag_m 10 (h_mag h) = int (unat ?m)"
          by (simp only: mag_m_def h_mag_div f(2)) (simp add: e0)
        ultimately have "mag_m 23 (int (?E * 2 ^ 23 + ?M)) = mag_m 10 (h_mag h) * 2 ^ (k + 13)" using a by metis
        then show "real_of_int (mag_m 23 (int (?E * 2 ^ 23 + ?M))) = real_of_int (mag_m 10 (h_mag h)) * 2 ^ (k + 13)"
          by (metis of_int_mult of_int_power of_int_numeral)
        show "mag_e 23 8 (int (?E * 2 ^ 23 + ?M)) + int (k + 13) = mag_e 10 5 (h_mag h)"
          using k(1) by (simp only: mag_e_def f_mag_div [OF M] h_mag_div) (simp add: e0 fl_emin_def)
      qed
      then show ?thesis using u M e0 E1 by - (rule exI [of _ ?E], rule exI [of _ ?M], simp)
    next
      case inf
      then have e: "h_exp h = 31" using f by simp
      have "tq_half_to_float h = ?s OR push_bit 23 255 OR push_bit 13 ?m"
        using inf by (simp add: tq_half_to_float_def half_sign_up Let_def)
      then have "unat (tq_half_to_float h) = of_bool (bit h 15) * 2 ^ 31 + 255 * 2 ^ 23 + h_mant h * 2 ^ 13"
        using fields_or [of 255 ?m "bit h 15"] f(2) b(2) by simp
      then show ?thesis using e b(2) by - (rule exI [of _ 255], rule exI [of _ "h_mant h * 2 ^ 13"], simp)
    next
      case norm
      have e: "h_exp h \<noteq> 0" "h_exp h \<noteq> 31"
        using norm f(1) by (auto simp: word_unat_eq_iff)
      have ee: "unat (?e - 15 + 127) = h_exp h + 112"
      proof -
        have "?e - 15 + 127 = 112 + ?e" by simp
        then show ?thesis using unat_add_small [of 112 ?e] f(1) b(1) by simp
      qed
      let ?E = "h_exp h + 112" and ?M = "h_mant h * 2 ^ 13"
      have "tq_half_to_float h = ?s OR push_bit 23 (?e - 15 + 127) OR push_bit 13 ?m"
        using norm by (simp add: tq_half_to_float_def half_sign_up Let_def)
      then have u: "unat (tq_half_to_float h) = of_bool (bit h 15) * 2 ^ 31 + ?E * 2 ^ 23 + ?M"
        using fields_or [of "?e - 15 + 127" ?m "bit h 15"] f(2) b ee by simp
      have M: "?M < 2 ^ 23" using b(2) by simp
      have "mag_val 23 8 (int (?E * 2 ^ 23 + ?M)) = mag_val 10 5 (h_mag h)"
      proof (rule mag_val_scale [where k = 13])
        show "real_of_int (mag_m 23 (int (?E * 2 ^ 23 + ?M))) = real_of_int (mag_m 10 (h_mag h)) * 2 ^ 13"
          using e by (simp only: mag_m_def f_mag_div [OF M] h_mag_div) simp
        show "mag_e 23 8 (int (?E * 2 ^ 23 + ?M)) + int 13 = mag_e 10 5 (h_mag h)"
          using e by (simp only: mag_e_def f_mag_div [OF M] h_mag_div) (simp add: fl_emin_def)
      qed
      then show ?thesis using u M e b(1) by - (rule exI [of _ ?E], rule exI [of _ ?M], simp)
    qed
  qed
  then obtain E M where em: "unat (tq_half_to_float h) = of_bool (bit h 15) * 2 ^ 31 + E * 2 ^ 23 + M" "E < 256" "M < 2 ^ 23"
     "h_exp h < 31 \<longrightarrow> E < 255 \<and> mag_val 23 8 (int (E * 2 ^ 23 + M)) = mag_val 10 5 (h_mag h)"
     "h_exp h = 31 \<longrightarrow> E = 255 \<and> M = h_mant h * 2 ^ 13" by blast
  note ff = f32_fields [OF em(1-3)]
  show "f32_sign (tq_half_to_float h) = bit h 15" by (rule ff)
  show "h_exp h < 31 \<Longrightarrow> f32_finite (tq_half_to_float h) \<and>
           mag_val 23 8 (f32_mag (tq_half_to_float h)) = mag_val 10 5 (h_mag h)"
    using em(3,4) by (auto simp: ff f32_finite_def)
  show "h_exp h = 31 \<Longrightarrow> f32_mag (tq_half_to_float h) = int (255 * 2 ^ 23 + h_mant h * 2 ^ 13)"
    using em(5) by (simp add: ff)
qed

section \<open>Float to half\<close>

definition f_exp :: "f32 \<Rightarrow> nat" where "f_exp x = unat x div 2 ^ 23 mod 2 ^ 8"

definition f_mant :: "f32 \<Rightarrow> nat" where "f_mant x = unat x mod 2 ^ 23"

lemma f_fields:
  "uint (drop_bit 23 x AND 0xFF :: u32) = int (f_exp x)" "unat (x AND 0x7FFFFF :: u32) = f_mant x"
proof -
  have "unat (drop_bit 23 x AND 0xFF) = f_exp x"
    unfolding masks and_low unat_take unat_drop_div f_exp_def ..
  then show "uint (drop_bit 23 x AND 0xFF :: u32) = int (f_exp x)" by (metis of_nat_unat)
  show "unat (x AND 0x7FFFFF :: u32) = f_mant x"
    unfolding masks and_low unat_take f_mant_def ..
qed

lemma f_bounds: "f_exp x < 256" "f_mant x < 2 ^ 23"
  by (simp_all add: f_exp_def f_mant_def)

lemma f_mag_split: "f32_mag x = int (f_exp x * 2 ^ 23 + f_mant x)"
proof -
  have "unat x mod 2 ^ 31 = f_exp x * 2 ^ 23 + f_mant x"
  proof -
    have "unat x mod (2 ^ 23 * 2 ^ 8) = 2 ^ 23 * (unat x div 2 ^ 23 mod 2 ^ 8) + unat x mod 2 ^ 23"
      by (rule mod_mult2_eq)
    then show ?thesis by (simp add: f_exp_def f_mant_def)
  qed
  then have "int (unat x mod 2 ^ 31) = int (f_exp x * 2 ^ 23 + f_mant x)" by simp
  then show ?thesis by (simp add: f32_mag_def zmod_int)
qed

lemma f_mag_m: "mag_m 23 (f32_mag x) = (if f_exp x = 0 then int (f_mant x) else int (f_mant x + 2 ^ 23))"
  by (simp only: mag_m_def f_mag_split f_mag_div [OF f_bounds(2)]) simp

lemma f_mag_e: "mag_e 23 8 (f32_mag x) = (if f_exp x = 0 then - 149 else int (f_exp x) - 150)"
  by (simp only: mag_e_def f_mag_split f_mag_div [OF f_bounds(2)]) (simp add: fl_emin_def)

text \<open>The last step of each branch: the sign bit beside fifteen bits.\<close>

lemma half_join:
  assumes "unat r \<le> 0x7FFF"
  shows "uint (ucast (drop_bit 16 (x :: u32) AND 0x8000 OR r) :: u16) = of_bool (f32_sign x) * 2 ^ 15 + int (unat r)"
proof -
  have "unat (push_bit 15 (of_bool (bit x 31)) OR r) = unat (of_bool (bit x 31) :: u32) * 2 ^ 15 + unat r"
    using assms by (intro unat_push_or) (cases "bit x 31"; simp)+
  then have "unat (drop_bit 16 x AND 0x8000 OR r) = of_bool (f32_sign x) * 2 ^ 15 + unat r"
    by (simp add: half_sign_down bit31)
  then have "unat (ucast (drop_bit 16 x AND 0x8000 OR r) :: u16) = of_bool (f32_sign x) * 2 ^ 15 + unat r"
    using assms by (cases "f32_sign x") (simp_all add: unat_ucast_mod)
  then have "int (unat (ucast (drop_bit 16 x AND 0x8000 OR r) :: u16)) = of_bool (f32_sign x) * 2 ^ 15 + int (unat r)"
    by simp
  then show ?thesis by simp
qed

text \<open>Rounding a word at bit \<open>k\<close> the way the code does is \<open>rne\<close>.\<close>

lemma and_1_odd: "(h :: u32) AND 1 \<noteq> 0 \<longleftrightarrow> odd (unat h)"
proof -
  have "(1 :: u32) = mask 1" by simp
  then have "unat (h AND 1) = unat h mod 2 ^ 1" by (metis and_low unat_take)
  then show ?thesis by (simp add: unat_eq_0 [symmetric] odd_iff_mod_2_eq_one)
qed

lemma word_rne:
  fixes m h rem hw :: u32
  assumes k: "0 < k" and h: "unat h mod 2 = q mod 2" and q: "q = unat m div 2 ^ k"
    and rem: "unat rem = unat m mod 2 ^ k" and hw: "unat hw = 2 ^ (k - 1)"
  shows "(if rem > hw \<or> (rem = hw \<and> h AND 1 \<noteq> 0) then (1::int) else 0) = rne (int (unat m)) k - int q"
proof -
  have p: "(2::nat) ^ k = 2 * 2 ^ (k - 1)" using k by (cases k) simp_all
  have g: "(rem > hw) = (2 * (int (unat m) mod 2 ^ k) > 2 ^ k)"
  proof -
    have "(rem > hw) = (2 * (unat m mod 2 ^ k) > 2 ^ k)" using rem hw p by (simp add: word_less_nat_alt)
    also have "\<dots> = (int (2 * (unat m mod 2 ^ k)) > int (2 ^ k))" by (simp only: of_nat_less_iff)
    finally show ?thesis by (simp add: zmod_int)
  qed
  have e: "(rem = hw) = (2 * (int (unat m) mod 2 ^ k) = 2 ^ k)"
  proof -
    have "(rem = hw) = (2 * (unat m mod 2 ^ k) = 2 ^ k)" using rem hw p by (simp add: word_unat_eq_iff)
    also have "\<dots> = (int (2 * (unat m mod 2 ^ k)) = int (2 ^ k))" by (simp only: of_nat_eq_iff)
    finally show ?thesis by (simp add: zmod_int)
  qed
  have o: "(h AND 1 \<noteq> 0) = odd (int (unat m) div 2 ^ k)"
  proof -
    have "(h AND 1 \<noteq> 0) = odd q" unfolding and_1_odd using h by presburger
    also have "int q = int (unat m) div 2 ^ k" by (simp add: q zdiv_int)
    then have "odd q = odd (int (unat m) div 2 ^ k)" by (metis even_of_nat_iff)
    finally show ?thesis .
  qed
  have qi: "int q = int (unat m) div 2 ^ k" by (simp add: q zdiv_int)
  show ?thesis unfolding g e o rne_def Let_def qi by simp
qed

lemma rne_shift: "even c \<Longrightarrow> rne (n + c * 2 ^ k) k = c + rne n k"
  by (simp add: rne_def Let_def)

lemma rne_le: "0 \<le> n \<Longrightarrow> n \<le> c * 2 ^ k \<Longrightarrow> rne n k \<le> c"
proof -
  assume "0 \<le> n" "n \<le> c * 2 ^ k"
  then have "real_of_int n \<le> real_of_int (c * 2 ^ k)" by (simp only: of_int_le_iff)
  then have "of_int n / 2 ^ k \<le> (of_int c :: real)" by (simp add: pos_divide_le_eq)
  then show ?thesis unfolding rne_eq_real by (rule rne_real_le)
qed

lemma rne_ge: "c * 2 ^ k \<le> n \<Longrightarrow> c \<le> rne n k"
proof -
  assume "c * 2 ^ k \<le> n"
  then have "real_of_int (c * 2 ^ k) \<le> real_of_int n" by (simp only: of_int_le_iff)
  then have "(of_int c :: real) \<le> of_int n / 2 ^ k" by (simp add: pos_le_divide_eq)
  then show ?thesis unfolding rne_eq_real by (rule rne_real_ge)
qed

lemma rne_small: "0 \<le> n \<Longrightarrow> 2 * n < 2 ^ k \<Longrightarrow> rne n k = 0"
  by (simp add: rne_def Let_def)

lemma bitlen_24: "2 ^ 23 \<le> m \<Longrightarrow> m < 2 ^ 24 \<Longrightarrow> bitlen m = 24"
proof -
  assume m: "2 ^ 23 \<le> m" "m < 2 ^ 24"
  then have "(2::real) ^ 23 \<le> of_int m" "of_int m < (2::real) ^ 24" by simp_all
  then have "\<lfloor>log 2 (of_int m)\<rfloor> = 23" by (subst floor_log_eq_powr_iff) (simp_all add: powr_realpow [symmetric])
  then show ?thesis using bitlen_log [of m] m by simp
qed

lemma bitlen_23: "0 \<le> m \<Longrightarrow> m < 2 ^ 23 \<Longrightarrow> bitlen m \<le> 23"
proof (cases "m = 0")
  case False
  assume m: "0 \<le> m" "m < 2 ^ 23"
  then have "of_int m < (2::real) powr 23" by simp
  then have "log 2 (of_int m) < 23" using m False by (simp add: log_less_iff)
  then show ?thesis using bitlen_log [of m] m False by linarith
qed simp

lemma emin_half: "fl_emin 10 5 = - 24" "fl_inf 10 5 = 31744"
  by (simp_all add: fl_emin_def fl_inf_def)

lemma half_mag_normal:
  assumes m: "2 ^ 23 \<le> m" "m < 2 ^ 24"
  shows "e \<ge> - 37 \<Longrightarrow> fl_mag 10 5 m e = min 31744 ((e + 37) * 1024 + rne m 13)"
    and "e < - 37 \<Longrightarrow> fl_mag 10 5 m e = min 31744 (rne m (nat (- 24 - e)))"
proof -
  have m0: "m \<noteq> 0" using m by auto
  have top: "fl_top 10 5 m e = max (- 24) (e + 13)"
    using bitlen_24 [OF m] by (simp add: fl_top_def emin_half)
  show "fl_mag 10 5 m e = min 31744 ((e + 37) * 1024 + rne m 13)" if "e \<ge> - 37"
    using that m0 by (simp add: fl_mag_def Let_def top emin_half max_def)
  show "fl_mag 10 5 m e = min 31744 (rne m (nat (- 24 - e)))" if "e < - 37"
    using that m0 by (simp add: fl_mag_def Let_def top emin_half max_def)
qed

lemma half_mag_tiny:
  assumes "0 \<le> m" "m < 2 ^ 24" "e \<le> - 49"
  shows "fl_mag 10 5 m e = 0"
proof (cases "m = 0")
  case False
  have "bitlen m \<le> 24"
    using bitlen_24 [of m] bitlen_23 [of m] assms by (cases "m < 2 ^ 23") auto
  then have top: "fl_top 10 5 m e = - 24" using assms(3) by (simp add: fl_top_def emin_half)
  have "(2::int) ^ 25 \<le> 2 ^ nat (- 24 - e)" using assms(3) by (intro power_increasing) simp_all
  then have "rne m (nat (- 24 - e)) = 0" using assms by (intro rne_small) simp_all
  then show ?thesis using False assms(3) by (simp add: fl_mag_def Let_def top emin_half)
qed (simp add: fl_mag_def)

lemma unat_add_flag: "unat h + 1 < 2 ^ 32 \<Longrightarrow> int (unat (if b then h + 1 else h :: u32)) = int (unat h) + (if b then 1 else 0)"
proof -
  assume "unat h + 1 < 2 ^ 32"
  then have "unat (h + 1) = unat h + 1" using unat_add_small [of h 1] by simp
  then have "int (unat (h + 1)) = int (unat h) + 1" by simp
  then show ?thesis by simp
qed

lemma mod2_shift: "(a * 2 ^ 10 + q) mod 2 = q mod (2::nat)"
proof -
  have "a * 2 ^ 10 + q = q + (a * 2 ^ 9) * 2" by simp
  then show ?thesis by (simp only: mod_mult_self1)
qed

lemma half_join_eq:
  assumes "h = ucast (drop_bit 16 (x :: u32) AND 0x8000 OR r)" "int (unat r) = v" "v \<le> 0x7FFF"
  shows "uint (h :: u16) = of_bool (f32_sign x) * 2 ^ 15 + v"
proof -
  have "unat r \<le> 0x7FFF" using assms(2,3) by linarith
  from half_join [OF this, of x] show ?thesis unfolding assms(1) assms(2) .
qed

lemma small_succ: "q \<le> a \<Longrightarrow> a < 2 ^ 24 \<Longrightarrow> q + 1 < (2 ^ 32 :: nat)"
  by simp

lemma f_mant_or:
  "unat (x AND 0x7FFFFF OR (0x800000 :: u32)) = f_mant x + 2 ^ 23"
proof -
  have "unat (push_bit 23 (1 :: u32) OR (x AND 0x7FFFFF)) = unat (1 :: u32) * 2 ^ 23 + unat (x AND 0x7FFFFF)"
    using f_bounds(2) [of x] f_fields(2) [of x] by (intro unat_push_or) simp_all
  moreover have "push_bit 23 (1 :: u32) OR (x AND 0x7FFFFF) = x AND 0x7FFFFF OR 0x800000"
    by (simp add: or.commute)
  ultimately show ?thesis using f_fields(2) [of x] by simp
qed

lemma float_to_half_mag:
  assumes fin: "f_exp x < 255"
  shows "uint (tq_float_to_half x) = of_bool (f32_sign x) * 2 ^ 15 + fl_mag 10 5 (mag_m 23 (f32_mag x)) (mag_e 23 8 (f32_mag x))"
    (is "_ = _ + ?mag")
proof -
  let ?E = "int (f_exp x) - 112" and ?M = "f_mant x"
  let ?sign = "drop_bit 16 x AND 0x8000 :: u32" and ?mant = "x AND 0x7FFFFF :: u32"
  note fe = f_fields(1) [of x] and fm = f_fields(2) [of x]
  have Mb: "?M < 2 ^ 23" by (rule f_bounds)
  have C: "tq_float_to_half x = (let exp = ?E in if exp \<ge> 31 then ucast (?sign OR 0x7C00)
      else if exp \<le> 0 then
        (if exp < -10 then ucast ?sign
         else let mant = ?mant OR 0x800000;
                  shift = nat (14 - exp);
                  half = drop_bit shift mant;
                  rem = mant AND (push_bit shift 1 - 1);
                  halfway = push_bit (shift - 1) 1;
                  half = (if rem > halfway \<or> (rem = halfway \<and> half AND 1 \<noteq> 0)
                          then half + 1 else half)
              in ucast (?sign OR half))
      else let h = push_bit 10 (word_of_int exp) OR drop_bit 13 ?mant;
               rem = ?mant AND 0x1FFF;
               h = (if rem > 0x1000 \<or> (rem = 0x1000 \<and> h AND 1 \<noteq> 0) then h + 1 else h)
           in ucast (?sign OR h))"
    using fin by (simp add: tq_float_to_half_def fe Let_def)
  consider (big) "31 \<le> ?E" | (norm) "1 \<le> ?E" "?E \<le> 30" | (sub) "- 10 \<le> ?E" "?E \<le> 0" | (tiny) "?E < - 10" by linarith
  then show ?thesis
  proof cases
    case big
    have mg: "mag_m 23 (f32_mag x) = int (?M + 2 ^ 23)" "mag_e 23 8 (f32_mag x) = int (f_exp x) - 150"
      using big by (simp_all add: f_mag_m f_mag_e)
    have r: "1024 \<le> rne (int (?M + 2 ^ 23)) 13" by (rule rne_ge) simp
    have e6: "(31 - 1) * 1024 \<le> (int (f_exp x) - 150 + 37) * 1024" using big by (intro mult_right_mono) simp_all
    have "?mag = min 31744 ((int (f_exp x) - 150 + 37) * 1024 + rne (int (?M + 2 ^ 23)) 13)"
      unfolding mg using big Mb by (intro half_mag_normal) simp_all
    also have "\<dots> = 31744" using r e6 by simp
    finally have m: "?mag = 31744" .
    have "tq_float_to_half x = ucast (?sign OR 0x7C00)" using big C by (simp add: Let_def)
    then show ?thesis using half_join [of "0x7C00" x] m by simp
  next
    case norm
    have n1: "(31 \<le> ?E) = False" "(?E \<le> 0) = False" using norm by auto
    have mg: "mag_m 23 (f32_mag x) = int ?M + 1024 * 2 ^ 13" "mag_e 23 8 (f32_mag x) = int (f_exp x) - 150"
      using norm by (simp_all add: f_mag_m f_mag_e)
    have r: "rne (int ?M + 1024 * 2 ^ 13) 13 = 1024 + rne (int ?M) 13" by (rule rne_shift) simp
    have rb: "0 \<le> rne (int ?M) 13" "rne (int ?M) 13 \<le> 1024"
      using Mb by (intro rne_ge rne_le; simp)+
    have "?mag = min 31744 ((int (f_exp x) - 150 + 37) * 1024 + rne (int ?M + 1024 * 2 ^ 13) 13)"
      unfolding mg using norm Mb by (intro half_mag_normal) simp_all
    also have "\<dots> = ?E * 1024 + rne (int ?M) 13" using norm r rb by simp
    finally have m: "?mag = ?E * 1024 + rne (int ?M) 13" .
    let ?h = "push_bit 10 (word_of_int ?E) OR drop_bit 13 ?mant :: u32"
    have ue: "unat (word_of_int ?E :: u32) = f_exp x - 112"
    proof -
      have "?E = int (f_exp x - 112)" using norm by linarith
      then have "word_of_int ?E = (of_nat (f_exp x - 112) :: u32)" by (simp only: of_int_of_nat_eq)
      then show ?thesis using fin by (simp only: unat_of_nat) simp
    qed
    have d: "unat (drop_bit 13 ?mant) = ?M div 2 ^ 13" by (simp only: unat_drop_div fm)
    have db: "?M div 2 ^ 13 < 2 ^ 10" using Mb by (simp add: div_less_iff_less_mult)
    have h: "unat ?h = (f_exp x - 112) * 2 ^ 10 + ?M div 2 ^ 13"
    proof -
      have "unat (word_of_int ?E :: u32) * 2 ^ 10 + unat (drop_bit 13 ?mant) < 2 ^ LENGTH(32)"
        unfolding ue d using db fin by simp
      then have "unat ?h = unat (word_of_int ?E :: u32) * 2 ^ 10 + unat (drop_bit 13 ?mant)"
        using db unfolding d [symmetric] by (intro unat_push_or)
      then show ?thesis unfolding ue d .
    qed
    let ?rem = "?mant AND 0x1FFF :: u32"
    have rem: "unat ?rem = unat ?mant mod 2 ^ 13" unfolding masks(5) and_low unat_take ..
    have "(if ?rem > 0x1000 \<or> (?rem = 0x1000 \<and> ?h AND 1 \<noteq> 0) then (1::int) else 0) = rne (int (unat ?mant)) 13 - int (?M div 2 ^ 13)"
      by (rule word_rne) (simp_all only: rem h fm mod2_shift, simp_all)
    then have hh: "int (unat (if ?rem > 0x1000 \<or> (?rem = 0x1000 \<and> ?h AND 1 \<noteq> 0) then ?h + 1 else ?h))
        = ?E * 1024 + rne (int ?M) 13"
      using h db norm by (subst unat_add_flag) (simp_all add: fm)
    have "tq_float_to_half x =
        ucast (?sign OR (if ?rem > 0x1000 \<or> (?rem = 0x1000 \<and> ?h AND 1 \<noteq> 0) then ?h + 1 else ?h))"
      unfolding C Let_def n1 if_False ..
    from half_join_eq [OF this hh] show ?thesis unfolding m using norm rb by simp
  next
    case sub
    have n2: "(31 \<le> ?E) = False" "(?E \<le> 0) = True" "(?E < - 10) = False" using sub by auto
    let ?k = "nat (14 - ?E)"
    have mg: "mag_m 23 (f32_mag x) = int (?M + 2 ^ 23)" "mag_e 23 8 (f32_mag x) = int (f_exp x) - 150"
      using sub by (simp_all add: f_mag_m f_mag_e)
    have ke: "nat (- 24 - (int (f_exp x) - 150)) = ?k" by simp
    have kb: "14 \<le> ?k" "?k \<le> 24" using sub by simp_all
    have pk: "(2::int) ^ 14 \<le> 2 ^ ?k" using kb by (intro power_increasing) simp_all
    have rb: "0 \<le> rne (int (?M + 2 ^ 23)) ?k" "rne (int (?M + 2 ^ 23)) ?k \<le> 1024"
    proof -
      show "0 \<le> rne (int (?M + 2 ^ 23)) ?k" by (rule rne_ge) simp
      have "int (?M + 2 ^ 23) \<le> 1024 * 2 ^ 14" using Mb by simp
      also have "\<dots> \<le> 1024 * 2 ^ ?k" using pk by simp
      finally show "rne (int (?M + 2 ^ 23)) ?k \<le> 1024" by (intro rne_le) simp_all
    qed
    have "?mag = min 31744 (rne (int (?M + 2 ^ 23)) ?k)"
      unfolding mg ke [symmetric] using sub Mb by (intro half_mag_normal) simp_all
    then have m: "?mag = rne (int (?M + 2 ^ 23)) ?k" using rb by simp
    let ?m = "?mant OR 0x800000 :: u32"
    let ?h = "drop_bit ?k ?m" and ?rem = "?m AND (push_bit ?k 1 - 1)" and ?hw = "push_bit (?k - 1) 1 :: u32"
    have um: "unat ?m = ?M + 2 ^ 23" by (rule f_mant_or)
    have h: "unat ?h = unat ?m div 2 ^ ?k" by (rule unat_drop_div)
    have "push_bit ?k 1 - 1 = (mask ?k :: u32)" by (simp add: mask_eq_exp_minus_1 push_bit_eq_mult)
    then have rem: "unat ?rem = unat ?m mod 2 ^ ?k" by (simp only: and_low unat_take)
    have "(2::nat) ^ (?k - 1) \<le> 2 ^ 23" using kb by (intro power_increasing) simp_all
    then have hw: "unat ?hw = 2 ^ (?k - 1)" by (simp only: unat_push_mod) simp
    have fl: "(if ?rem > ?hw \<or> (?rem = ?hw \<and> ?h AND 1 \<noteq> 0) then (1::int) else 0) = rne (int (unat ?m)) ?k - int (unat ?m div 2 ^ ?k)"
      by (rule word_rne [OF _ _ refl rem hw]) (use kb h in simp_all)
    have "unat ?m div 2 ^ ?k \<le> unat ?m" by (rule div_le_dividend)
    moreover have "unat ?m < 2 ^ 24" unfolding um using Mb by simp
    ultimately have "unat ?h + 1 < 2 ^ 32" unfolding h by (rule small_succ)
    then have hh: "int (unat (if ?rem > ?hw \<or> (?rem = ?hw \<and> ?h AND 1 \<noteq> 0) then ?h + 1 else ?h)) = rne (int (?M + 2 ^ 23)) ?k"
      using fl by (subst unat_add_flag) (simp_all only: h um)
    have "tq_float_to_half x = ucast (?sign OR (if ?rem > ?hw \<or> (?rem = ?hw \<and> ?h AND 1 \<noteq> 0) then ?h + 1 else ?h))"
      unfolding C Let_def n2 if_False if_True ..
    from half_join_eq [OF this hh] show ?thesis unfolding m using rb by simp
  next
    case tiny
    have "?mag = 0" using tiny Mb by (intro half_mag_tiny) (simp_all add: f_mag_m f_mag_e)
    moreover have "tq_float_to_half x = ucast (?sign OR 0)" using tiny C by (simp add: Let_def)
    ultimately show ?thesis using half_join [of 0 x] by simp
  qed
qed

section \<open>The properties of the conversions\<close>

lemma f_exp_255: "f_exp x = 255 \<longleftrightarrow> 0x7F800000 \<le> f32_mag x"
proof -
  have "f32_mag x = int (f_exp x) * 2 ^ 23 + int (f_mant x)" by (simp add: f_mag_split)
  then show ?thesis using f_bounds [of x] by auto
qed

lemma f_exp_finite: "f32_finite x \<longleftrightarrow> f_exp x < 255"
  using f_exp_255 [of x] f_bounds(1) [of x] by (auto simp: f32_finite_def)

lemma f_nan: "f32_is_nan x \<longleftrightarrow> f_exp x = 255 \<and> f_mant x \<noteq> 0"
proof -
  have "f32_mag x = int (f_exp x) * 2 ^ 23 + int (f_mant x)" by (simp add: f_mag_split)
  then show ?thesis using f_bounds [of x] by (auto simp: f32_is_nan_iff)
qed

lemma float_to_half_inf:
  "f_exp x = 255 \<Longrightarrow> f_mant x = 0 \<Longrightarrow> uint (tq_float_to_half x) = of_bool (f32_sign x) * 2 ^ 15 + 0x7C00"
proof -
  assume e: "f_exp x = 255" and m: "f_mant x = 0"
  have "x AND 0x7FFFFF = 0" using f_fields(2) [of x] m by (simp only: unat_eq_0)
  then have "tq_float_to_half x = ucast (drop_bit 16 x AND 0x8000 OR 0x7C00)"
    using e by (simp add: tq_float_to_half_def f_fields(1) Let_def)
  from half_join_eq [OF this, of "0x7C00"] show ?thesis by simp
qed

lemma f32_decode_inf: "f_exp x = 255 \<Longrightarrow> f_mant x = 0 \<Longrightarrow> f32_decode x = FInf (f32_sign x)"
proof -
  assume "f_exp x = 255" "f_mant x = 0"
  then have "uint x mod 2 ^ 31 = 0x7F800000" using f_mag_split [of x] by (simp add: f32_mag_def)
  then show ?thesis using f32_top [of x] by (auto simp: f32_decode_def fl_decode_def Let_def fl_inf_def f32_sign_def)
qed

text \<open>
  C39: \<^verbatim>\<open>tq_float_to_half\<close> is the correctly rounded conversion. For every float that is not a
  NaN the result is the IEEE-754 encoding, rounded to nearest with ties to even, of the exact
  value: normal, subnormal and overflowing results, carries into the exponent, zeros and
  infinities with their signs.
\<close>

theorem float_to_half_rounds:
  assumes "\<not> f32_is_nan x"
  shows "uint (tq_float_to_half x) = fl_encode 10 5 (f32_decode x)"
proof (cases "f_exp x < 255")
  case True
  then have fin: "f32_finite x" by (simp add: f_exp_finite)
  show ?thesis
    unfolding f32_decode_finite [OF fin] fl_encode_def fp.case float_to_half_mag [OF True] by simp
next
  case False
  then have e: "f_exp x = 255" "f_mant x = 0" using assms f_bounds(1) [of x] by (auto simp: f_nan)
  show ?thesis
    unfolding f32_decode_inf [OF e] fl_encode_def fp.case float_to_half_inf [OF e] by (simp add: fl_inf_def)
qed

theorem float_to_half_rounds_witness:
  "uint (tq_float_to_half 0x3FC00000) = fl_encode 10 5 (f32_decode 0x3FC00000)"
  by (rule float_to_half_rounds) (simp add: f32_is_nan_def)

lemma h_decode:
  "h_exp h < 31 \<Longrightarrow> fl_decode 10 5 (uint h) = FFin (bit h 15) (mag_m 10 (h_mag h)) (mag_e 10 5 (h_mag h))"
proof -
  assume e: "h_exp h < 31"
  have u: "uint h = of_bool (bit h 15) * 2 ^ 15 + h_mag h"
    using arg_cong [OF h_split [of h], of int] by (cases "bit h 15") (simp_all add: h_mag_def)
  have b: "0 \<le> h_mag h" "h_mag h < fl_inf 10 5"
    using e h_bounds(2) [of h] by (simp_all add: h_mag_def fl_inf_def)
  have lt: "h_mag h < 2 ^ 15" using b by (simp add: fl_inf_def)
  have m: "uint h mod 2 ^ (10 + 5) = h_mag h" unfolding u using b lt by (cases "bit h 15") simp_all
  have s: "(uint h div 2 ^ (10 + 5) mod 2 = 1) = bit h 15" unfolding u using b lt by (cases "bit h 15") simp_all
  show ?thesis using fl_decode_finite [of "uint h" 10 5] b unfolding m s by simp
qed

text \<open>
  \<^verbatim>\<open>tq_half_to_float\<close> is exact. For every half with an exponent below the special one,
  subnormals and zeros included, the float it gives is finite and has the half's value and sign.
\<close>

theorem half_to_float_exact:
  assumes "h_exp h < 31"
  shows "f32_finite (tq_half_to_float h) \<and> f32_sign (tq_half_to_float h) = bit h 15 \<and>
    f32_val (tq_half_to_float h) = fp_val (fl_decode 10 5 (uint h))"
proof -
  note v = half_value(1) [of h] half_value(2) [OF assms]
  have "fp_val (fl_decode 10 5 (uint h)) = (if bit h 15 then -1 else 1) * mag_val 10 5 (h_mag h)"
    unfolding h_decode [OF assms] by (simp add: fp_val_def mag_val_def)
  moreover have "f32_val (tq_half_to_float h) = (if bit h 15 then -1 else 1) * mag_val 23 8 (f32_mag (tq_half_to_float h))"
    using v by (simp only: f32_val_finite)
  ultimately show ?thesis using v by simp
qed

theorem half_to_float_exact_witness:
  "f32_finite (tq_half_to_float 0x3C00) \<and> f32_val (tq_half_to_float 0x3C00) = fp_val (fl_decode 10 5 0x3C00)"
  using half_to_float_exact [of "0x3C00"] by (simp add: h_exp_def)

text \<open>
  The round trip of half precision. Every half that is not a NaN, both infinities, the
  subnormals and the two zeros included, survives the conversion to float and back.
\<close>

theorem half_round_trip:
  assumes "h_exp h \<noteq> 31 \<or> h_mant h = 0"
  shows "tq_float_to_half (tq_half_to_float h) = h"
proof -
  let ?f = "tq_half_to_float h"
  have u: "uint h = of_bool (bit h 15) * 2 ^ 15 + h_mag h"
    using arg_cong [OF h_split [of h], of int] by (cases "bit h 15") (simp_all add: h_mag_def)
  have "uint (tq_float_to_half ?f) = of_bool (bit h 15) * 2 ^ 15 + h_mag h"
  proof (cases "h_exp h < 31")
    case True
    note v = half_value(2) [OF True]
    have e: "f_exp ?f < 255" using v f_exp_finite by blast
    have b: "0 \<le> h_mag h" "h_mag h \<le> fl_inf 10 5"
      using True h_bounds(2) [of h] by (simp_all add: h_mag_def fl_inf_def)
    have "of_int (mag_m 23 (f32_mag ?f)) * 2 powr of_int (mag_e 23 8 (f32_mag ?f)) = mag_val 10 5 (h_mag h)"
      using v by (simp add: mag_val_def)
    then have "fl_mag 10 5 (mag_m 23 (f32_mag ?f)) (mag_e 23 8 (f32_mag ?f)) = h_mag h"
      using fl_mag_le_bits [of "mag_m 23 (f32_mag ?f)" "h_mag h" "mag_e 23 8 (f32_mag ?f)" 10 5]
        fl_mag_ge_bits [of "mag_m 23 (f32_mag ?f)" "h_mag h" 10 5 "mag_e 23 8 (f32_mag ?f)"] b
      by (simp add: mag_m_nonneg)
    then show ?thesis unfolding float_to_half_mag [OF e] half_value(1) by simp
  next
    case False
    then have h: "h_exp h = 31" "h_mant h = 0" using assms h_bounds(1) [of h] by auto
    have m: "f32_mag ?f = int (255 * 2 ^ 23)" using half_value(3) [OF h(1)] h(2) by simp
    have "f32_mag ?f = int (f_exp ?f) * 2 ^ 23 + int (f_mant ?f)" by (simp add: f_mag_split)
    moreover have e: "f_exp ?f = 255" using f_exp_255 [of ?f] m by simp
    ultimately have "f_mant ?f = 0" using m by simp
    with e have "f_exp ?f = 255" "f_mant ?f = 0" .
    from float_to_half_inf [OF this] show ?thesis by (simp add: half_value(1) h_mag_def h)
  qed
  then show ?thesis unfolding u [symmetric] by (simp add: word_uint_eq_iff)
qed

theorem half_round_trip_witness: "tq_float_to_half (tq_half_to_float 0x8001) = 0x8001"
  by (rule half_round_trip) (simp add: h_exp_def)

end
