(* ===== verification/Tq_Kernels.thy ===== *)
theory Tq_Kernels imports Tq_Half begin

text \<open>
  The quantization primitives and dot products of \<^verbatim>\<open>core/src/tq_kernels.c\<close>: storage types and
  their sizes, Q8_0 and Q4_0 blocks, quantization, dequantization, and both backends of the
  dot products.

  A block array in memory is its list of bytes; \<open>q80_at\<close> and \<open>q40_at\<close> read a block of the
  packed layout that \<^verbatim>\<open>TQ_STATIC_ASSERT\<close> pins. The three ARM instructions of the DSP backend
  are parameters of the DSP definitions. The code is compiled with \<^verbatim>\<open>-ffp-contract=off\<close>, so every
  float operation rounds on its own.
\<close>

unbundle bit_operations_syntax

section \<open>Storage types\<close>

definition TQ_DT_F32 :: u32 where "TQ_DT_F32 = 0"
definition TQ_DT_Q8_0 :: u32 where "TQ_DT_Q8_0 = 1"
definition TQ_DT_Q4_0 :: u32 where "TQ_DT_Q4_0 = 2"
definition TQ_DT_U8 :: u32 where "TQ_DT_U8 = 3"
definition TQ_DT_U32 :: u32 where "TQ_DT_U32 = 4"

lemmas dtypes = TQ_DT_F32_def TQ_DT_Q8_0_def TQ_DT_Q4_0_def TQ_DT_U8_def TQ_DT_U32_def

definition TQ_GROUP_SIZE :: nat where "TQ_GROUP_SIZE = 32"

record tq_block_q80 =
  q80_d :: u16
  q80_qs :: "i8 list"

record tq_block_q40 =
  q40_d :: u16
  q40_qs :: "u8 list"

definition tq_dtype_nbytes :: "u32 \<Rightarrow> u64 \<Rightarrow> u64" where
  "tq_dtype_nbytes dtype n =
     (if dtype = TQ_DT_F32 \<or> dtype = TQ_DT_U32 then n * 4
      else if dtype = TQ_DT_U8 then n
      else if dtype = TQ_DT_Q8_0 then
        (if n mod of_nat TQ_GROUP_SIZE \<noteq> 0 then 0 else n div of_nat TQ_GROUP_SIZE * 34)
      else if dtype = TQ_DT_Q4_0 then
        (if n mod of_nat TQ_GROUP_SIZE \<noteq> 0 then 0 else n div of_nat TQ_GROUP_SIZE * 18)
      else 0)"

text \<open>Little-endian reads of a byte image.\<close>

definition le16 :: "u8 list \<Rightarrow> nat \<Rightarrow> u16" where
  "le16 bs i = ucast (bs ! i) OR push_bit 8 (ucast (bs ! (i + 1)))"

definition le32 :: "u8 list \<Rightarrow> nat \<Rightarrow> u32" where
  "le32 bs i = ucast (bs ! i) OR push_bit 8 (ucast (bs ! (i + 1)))
     OR push_bit 16 (ucast (bs ! (i + 2))) OR push_bit 24 (ucast (bs ! (i + 3)))"

definition q80_at :: "u8 list \<Rightarrow> nat \<Rightarrow> tq_block_q80" where
  "q80_at bs b = \<lparr>q80_d = le16 bs (b * 34), q80_qs = map (\<lambda>j. bs ! (b * 34 + 2 + j)) [0..<32]\<rparr>"

definition q40_at :: "u8 list \<Rightarrow> nat \<Rightarrow> tq_block_q40" where
  "q40_at bs b = \<lparr>q40_d = le16 bs (b * 18), q40_qs = map (\<lambda>j. bs ! (b * 18 + 2 + j)) [0..<16]\<rparr>"

section \<open>Quantization\<close>

text \<open>The conversion to \<^verbatim>\<open>int\<close> is partial; the clamp comes after it.\<close>

definition quantize_value :: "f32 \<Rightarrow> f32 \<Rightarrow> i8 option" where
  "quantize_value x idv =
     (let v = f32_mul x idv
      in map_option (\<lambda>q. word_of_int (if q > 127 then 127 else if q < -127 then -127 else q))
           (f32_to_i32 (if f32_lt v 0 then f32_sub v (f32_dec 5 1) else f32_add v (f32_dec 5 1))))"

definition block_amax :: "f32 list \<Rightarrow> f32" where
  "block_amax src =
     foldl (\<lambda>amax x. let v = (if f32_lt x 0 then f32_neg x else x)
                     in if f32_lt amax v then v else amax) 0 src"

definition quantize_block :: "f32 list \<Rightarrow> tq_block_q80 option" where
  "quantize_block src =
     (let dh = tq_float_to_half (f32_div (block_amax src) (f32_dec 127 0));
          d = tq_half_to_float dh;
          idv = (if \<not> f32_eq d 0 then f32_div (f32_dec 1 0) d else 0)
      in map_option (\<lambda>qs. \<lparr>q80_d = dh, q80_qs = qs\<rparr>)
           (those (map (\<lambda>j. quantize_value (src ! j) idv) [0..<TQ_GROUP_SIZE])))"

definition tq_quantize_q8 :: "f32 list \<Rightarrow> nat \<Rightarrow> tq_block_q80 list option" where
  "tq_quantize_q8 x n =
     those (map (\<lambda>b. quantize_block (take TQ_GROUP_SIZE (drop (b * TQ_GROUP_SIZE) x)))
       [0..<n div TQ_GROUP_SIZE])"

definition tq_dequantize :: "u8 list \<Rightarrow> u32 \<Rightarrow> f32 list \<Rightarrow> nat \<Rightarrow> f32 list" where
  "tq_dequantize blocks dtype out n =
     (let nb = n div TQ_GROUP_SIZE in
      if dtype = TQ_DT_Q8_0 then
        foldl (\<lambda>out b.
                let w = q80_at blocks b; d = tq_half_to_float (q80_d w)
                in foldl (\<lambda>out j. out[b * TQ_GROUP_SIZE + j := f32_mul (f32_of_int (sint (q80_qs w ! j))) d])
                     out [0..<TQ_GROUP_SIZE])
          out [0..<nb]
      else if dtype = TQ_DT_Q4_0 then
        foldl (\<lambda>out b.
                let w = q40_at blocks b; d = tq_half_to_float (q40_d w)
                in foldl (\<lambda>out j.
                       let byte = q40_qs w ! j
                       in out[b * TQ_GROUP_SIZE + j := f32_mul (f32_of_int (uint (byte AND 0x0F) - 8)) d,
                              b * TQ_GROUP_SIZE + j + 16 := f32_mul (f32_of_int (uint (drop_bit 4 byte) - 8)) d])
                     out [0..<TQ_GROUP_SIZE div 2])
          out [0..<nb]
      else if dtype = TQ_DT_F32 then
        map (\<lambda>i. le32 blocks (4 * i)) [0..<n] @ drop n out
      else out)"

section \<open>Dot products, generic backend\<close>

definition q40_acc :: "tq_block_q40 \<Rightarrow> tq_block_q80 \<Rightarrow> int" where
  "q40_acc w x =
     foldl (\<lambda>acc j.
             let v0 = uint (q40_qs w ! j AND 0x0F) - 8;
                 v1 = uint (drop_bit 4 (q40_qs w ! j)) - 8
             in acc + (v0 * sint (q80_qs x ! j) + v1 * sint (q80_qs x ! (j + 16))))
       0 [0..<TQ_GROUP_SIZE div 2]"

definition q80_acc :: "tq_block_q80 \<Rightarrow> tq_block_q80 \<Rightarrow> int" where
  "q80_acc w x =
     foldl (\<lambda>acc j. acc + sint (q80_qs w ! j) * sint (q80_qs x ! j)) 0 [0..<TQ_GROUP_SIZE]"

text \<open>One block's contribution to the running float sum.\<close>

definition dot_fold :: "f32 \<Rightarrow> int \<Rightarrow> u16 \<Rightarrow> u16 \<Rightarrow> f32" where
  "dot_fold s acc wd xd =
     f32_add s (f32_mul (f32_mul (f32_of_int acc) (tq_half_to_float wd)) (tq_half_to_float xd))"

definition tq_dot_q40_q80 :: "tq_block_q40 list \<Rightarrow> tq_block_q80 list \<Rightarrow> nat \<Rightarrow> f32" where
  "tq_dot_q40_q80 w x nb =
     foldl (\<lambda>sum b. dot_fold sum (q40_acc (w ! b) (x ! b)) (q40_d (w ! b)) (q80_d (x ! b))) 0 [0..<nb]"

definition tq_dot_q80_q80 :: "tq_block_q80 list \<Rightarrow> tq_block_q80 list \<Rightarrow> nat \<Rightarrow> f32" where
  "tq_dot_q80_q80 w x nb =
     foldl (\<lambda>sum b. dot_fold sum (q80_acc (w ! b) (x ! b)) (q80_d (w ! b)) (q80_d (x ! b))) 0 [0..<nb]"

section \<open>Dot products, DSP backend\<close>

record dsp_ops =
  ssub8 :: "u32 \<Rightarrow> u32 \<Rightarrow> u32"
  sxtb16 :: "u32 \<Rightarrow> u32"
  smlad :: "u32 \<Rightarrow> u32 \<Rightarrow> u32 \<Rightarrow> u32"

definition q40_acc_dsp :: "dsp_ops \<Rightarrow> tq_block_q40 \<Rightarrow> tq_block_q80 \<Rightarrow> u32" where
  "q40_acc_dsp ops w x =
     foldl (\<lambda>acc j.
             let v = le32 (q40_qs w) j;
                 lo = ssub8 ops (v AND 0x0F0F0F0F) 0x08080808;
                 hi = ssub8 ops (drop_bit 4 v AND 0x0F0F0F0F) 0x08080808;
                 xa = le32 (q80_qs x) j;
                 xh = le32 (q80_qs x) (j + 16);
                 acc = smlad ops (sxtb16 ops lo) (sxtb16 ops xa) acc;
                 acc = smlad ops (sxtb16 ops (drop_bit 8 lo)) (sxtb16 ops (drop_bit 8 xa)) acc;
                 acc = smlad ops (sxtb16 ops hi) (sxtb16 ops xh) acc
             in smlad ops (sxtb16 ops (drop_bit 8 hi)) (sxtb16 ops (drop_bit 8 xh)) acc)
       0 [0, 4, 8, 12]"

definition q80_acc_dsp :: "dsp_ops \<Rightarrow> tq_block_q80 \<Rightarrow> tq_block_q80 \<Rightarrow> u32" where
  "q80_acc_dsp ops w x =
     foldl (\<lambda>acc j.
             let wv = le32 (q80_qs w) j;
                 xv = le32 (q80_qs x) j;
                 acc = smlad ops (sxtb16 ops wv) (sxtb16 ops xv) acc
             in smlad ops (sxtb16 ops (drop_bit 8 wv)) (sxtb16 ops (drop_bit 8 xv)) acc)
       0 [0, 4, 8, 12, 16, 20, 24, 28]"

definition dot_q40_q80_dsp :: "dsp_ops \<Rightarrow> tq_block_q40 list \<Rightarrow> tq_block_q80 list \<Rightarrow> nat \<Rightarrow> f32" where
  "dot_q40_q80_dsp ops w x nb =
     foldl (\<lambda>sum b. dot_fold sum (sint (q40_acc_dsp ops (w ! b) (x ! b))) (q40_d (w ! b)) (q80_d (x ! b)))
       0 [0..<nb]"

definition dot_q80_q80_dsp :: "dsp_ops \<Rightarrow> tq_block_q80 list \<Rightarrow> tq_block_q80 list \<Rightarrow> nat \<Rightarrow> f32" where
  "dot_q80_q80_dsp ops w x nb =
     foldl (\<lambda>sum b. dot_fold sum (sint (q80_acc_dsp ops (w ! b) (x ! b))) (q80_d (w ! b)) (q80_d (x ! b)))
       0 [0..<nb]"

section \<open>The DSP instructions\<close>

text \<open>
  What the ARM architecture manual says of the three instructions, in terms of the bytes and
  halfwords of a register: four byte differences, sign extension of bytes 0 and 2, and the sum
  of two halfword products and an accumulator, all modulo the width.
\<close>

definition byte_at :: "u32 \<Rightarrow> nat \<Rightarrow> u8" where
  "byte_at w i = ucast (drop_bit (8 * i) w)"

definition halfword_at :: "u32 \<Rightarrow> nat \<Rightarrow> u16" where
  "halfword_at w i = ucast (drop_bit (16 * i) w)"

definition dsp_laws :: "dsp_ops \<Rightarrow> bool" where
  "dsp_laws ops \<longleftrightarrow>
     (\<forall>a b. \<forall>i<4. byte_at (ssub8 ops a b) i = byte_at a i - byte_at b i) \<and>
     (\<forall>a. halfword_at (sxtb16 ops a) 0 = scast (byte_at a 0) \<and>
          halfword_at (sxtb16 ops a) 1 = scast (byte_at a 2)) \<and>
     (\<forall>a b acc. smlad ops a b acc =
        scast (halfword_at a 0) * scast (halfword_at b 0) + scast (halfword_at a 1) * scast (halfword_at b 1) + acc)"

text \<open>The instructions themselves.\<close>

definition arm_ssub8 :: "u32 \<Rightarrow> u32 \<Rightarrow> u32" where
  "arm_ssub8 a b = le32 (map (\<lambda>i. byte_at a i - byte_at b i) [0, 1, 2, 3]) 0"

definition arm_sxtb16 :: "u32 \<Rightarrow> u32" where
  "arm_sxtb16 a = ucast (scast (byte_at a 0) :: u16) OR push_bit 16 (ucast (scast (byte_at a 2) :: u16))"

definition arm_smlad :: "u32 \<Rightarrow> u32 \<Rightarrow> u32 \<Rightarrow> u32" where
  "arm_smlad a b acc =
     scast (halfword_at a 0) * scast (halfword_at b 0) + scast (halfword_at a 1) * scast (halfword_at b 1) + acc"

definition arm_dsp :: dsp_ops where
  "arm_dsp = \<lparr>ssub8 = arm_ssub8, sxtb16 = arm_sxtb16, smlad = arm_smlad\<rparr>"

section \<open>Bytes of a register\<close>

lemma bit_byte_less: "bit (b :: u8) n \<Longrightarrow> n < 8"
  using bit_imp_le_length [of b n] by simp

lemma bit_half_less: "bit (b :: u16) n \<Longrightarrow> n < 16"
  using bit_imp_le_length [of b n] by simp

lemma byte_at_le32:
  "byte_at (le32 bs j) 0 = bs ! j" "byte_at (le32 bs j) 1 = bs ! (j + 1)"
  "byte_at (le32 bs j) 2 = bs ! (j + 2)" "byte_at (le32 bs j) 3 = bs ! (j + 3)"
  unfolding byte_at_def le32_def by (rule bit_word_eqI; auto simp: bit_simps dest: bit_byte_less)+

lemma byte_at_shift: "byte_at (drop_bit 8 w) 0 = byte_at w 1" "byte_at (drop_bit 8 w) 2 = byte_at w 3"
  unfolding byte_at_def by (rule bit_word_eqI; auto simp: bit_simps)+

lemma byte_at_and: "byte_at (v AND w) i = byte_at v i AND byte_at w i"
  unfolding byte_at_def by (rule bit_word_eqI) (auto simp: bit_simps)

lemma byte_at_4:
  "byte_at (drop_bit 4 w AND 0x0F0F0F0F) 0 = drop_bit 4 (byte_at w 0)"
  "byte_at (drop_bit 4 w AND 0x0F0F0F0F) 1 = drop_bit 4 (byte_at w 1)"
  "byte_at (drop_bit 4 w AND 0x0F0F0F0F) 2 = drop_bit 4 (byte_at w 2)"
  "byte_at (drop_bit 4 w AND 0x0F0F0F0F) 3 = drop_bit 4 (byte_at w 3)"
proof -
  have m: "byte_at 0x0F0F0F0F 0 = mask 4" "byte_at 0x0F0F0F0F 1 = mask 4"
    "byte_at 0x0F0F0F0F 2 = mask 4" "byte_at 0x0F0F0F0F 3 = mask 4"
    by (simp_all add: byte_at_def mask_eq_exp_minus_1)
  have d: "byte_at (drop_bit 4 w) i AND mask 4 = drop_bit 4 (byte_at w i)" for i
    unfolding byte_at_def by (rule bit_word_eqI) (auto simp: bit_simps ac_simps)
  show "byte_at (drop_bit 4 w AND 0x0F0F0F0F) 0 = drop_bit 4 (byte_at w 0)"
    "byte_at (drop_bit 4 w AND 0x0F0F0F0F) 1 = drop_bit 4 (byte_at w 1)"
    "byte_at (drop_bit 4 w AND 0x0F0F0F0F) 2 = drop_bit 4 (byte_at w 2)"
    "byte_at (drop_bit 4 w AND 0x0F0F0F0F) 3 = drop_bit 4 (byte_at w 3)"
    by (simp_all only: byte_at_and m d)
qed

lemma byte_at_low:
  "byte_at (w AND 0x0F0F0F0F) 0 = byte_at w 0 AND 0x0F" "byte_at (w AND 0x0F0F0F0F) 1 = byte_at w 1 AND 0x0F"
  "byte_at (w AND 0x0F0F0F0F) 2 = byte_at w 2 AND 0x0F" "byte_at (w AND 0x0F0F0F0F) 3 = byte_at w 3 AND 0x0F"
proof -
  have m: "byte_at 0x0F0F0F0F 0 = 0x0F" "byte_at 0x0F0F0F0F 1 = 0x0F"
    "byte_at 0x0F0F0F0F 2 = 0x0F" "byte_at 0x0F0F0F0F 3 = 0x0F"
    by (simp_all add: byte_at_def)
  show "byte_at (w AND 0x0F0F0F0F) 0 = byte_at w 0 AND 0x0F" "byte_at (w AND 0x0F0F0F0F) 1 = byte_at w 1 AND 0x0F"
    "byte_at (w AND 0x0F0F0F0F) 2 = byte_at w 2 AND 0x0F" "byte_at (w AND 0x0F0F0F0F) 3 = byte_at w 3 AND 0x0F"
    by (simp_all only: byte_at_and m)
qed

lemma byte_at_eights:
  "byte_at 0x08080808 0 = 8" "byte_at 0x08080808 1 = 8" "byte_at 0x08080808 2 = 8" "byte_at 0x08080808 3 = 8"
  by (simp_all add: byte_at_def)

lemma arm_laws: "dsp_laws arm_dsp"
proof -
  have b: "byte_at (arm_ssub8 a b) i = byte_at a i - byte_at b i" if "i < 4" for a b i
  proof -
    have "i = 0 \<or> i = 1 \<or> i = 2 \<or> i = 3" using that by arith
    then show ?thesis unfolding arm_ssub8_def by (elim disjE) (simp_all only: byte_at_le32, simp_all)
  qed
  have h0: "halfword_at (arm_sxtb16 a) 0 = scast (byte_at a 0)" for a
    unfolding arm_sxtb16_def halfword_at_def
    by (rule bit_word_eqI) (auto simp: bit_simps dest: bit_half_less)
  have h1: "halfword_at (arm_sxtb16 a) 1 = scast (byte_at a 2)" for a
    unfolding arm_sxtb16_def halfword_at_def
    by (rule bit_word_eqI) (auto simp: bit_simps dest: bit_half_less)
  show ?thesis by (simp add: dsp_laws_def arm_dsp_def b h0 h1 [simplified] arm_smlad_def)
qed

section \<open>Integer sums\<close>

lemma foldl_add: "foldl (\<lambda>a j. a + f j) a xs = a + (\<Sum>j\<leftarrow>xs. f j)" for f :: "'b \<Rightarrow> 'a::monoid_add"
  by (induction xs arbitrary: a) (simp_all add: add.assoc)

lemma sum_list_bound:
  fixes f :: "'b \<Rightarrow> int"
  shows "\<forall>j\<in>set xs. \<bar>f j\<bar> \<le> B \<Longrightarrow> \<bar>\<Sum>j\<leftarrow>xs. f j\<bar> \<le> int (length xs) * B"
proof (induction xs)
  case (Cons x xs)
  then have "\<bar>f x\<bar> \<le> B" "\<bar>\<Sum>j\<leftarrow>xs. f j\<bar> \<le> int (length xs) * B" by simp_all
  then show ?case by (simp add: distrib_right)
qed simp

lemma sint8_bound: "\<bar>sint (b :: u8)\<bar> \<le> 128"
  using sint_ge [of b] sint_lt [of b] by simp

lemma prod_bound: "\<bar>a\<bar> \<le> A \<Longrightarrow> \<bar>b\<bar> \<le> B \<Longrightarrow> \<bar>a * b\<bar> \<le> A * (B :: int)"
  by (simp add: abs_mult mult_mono)

text \<open>A nibble's value, as both backends compute it.\<close>

lemma nibble_low: "uint (b AND 0x0F :: u8) < 16" "uint (drop_bit 4 b :: u8) < 16"
proof -
  have "(0x0F :: u8) = mask 4" by (simp add: mask_eq_exp_minus_1)
  then have "unat (b AND 0x0F) = unat b mod 2 ^ 4" by (simp only: and_low unat_take)
  then have "unat (b AND 0x0F) < 16" by simp
  then show "uint (b AND 0x0F) < 16" using of_nat_unat by (metis of_nat_less_numeral_iff)
  have "unat (drop_bit 4 b) < 16" using unat8_less [of b] by (simp only: unat_drop_div) (simp add: div_less_iff_less_mult)
  then show "uint (drop_bit 4 b) < 16" using of_nat_unat by (metis of_nat_less_numeral_iff)
qed

lemma sint_of_int_small:
  "- (2 ^ (LENGTH('a) - 1)) \<le> k \<Longrightarrow> k < 2 ^ (LENGTH('a) - 1) \<Longrightarrow> sint (word_of_int k :: 'a::len word) = k"
  by (simp only: sint_sbintrunc' signed_take_bit_int_eq_self)

lemma nibble_signed: "uint b < 16 \<Longrightarrow> sint (b - 8 :: u8) = uint b - 8"
proof -
  assume b: "uint b < 16"
  have "b - 8 = word_of_int (uint b - 8)" by simp
  moreover have "sint (word_of_int (uint b - 8) :: u8) = uint b - 8"
    using b uint_ge_0 [of b] by (intro sint_of_int_small) simp_all
  ultimately show ?thesis by simp
qed

lemma scast_byte: "(scast (scast (b :: u8) :: u16) :: u32) = word_of_int (sint b)"
proof -
  have "sint (word_of_int (sint b) :: u16) = sint b"
    using sint8_bound [of b] by (intro sint_of_int_small) simp_all
  then have "sint (scast b :: u16) = sint b" by simp
  from arg_cong [OF this, of "word_of_int :: int \<Rightarrow> u32"] show ?thesis by simp
qed

section \<open>The DSP backend computes the same integers\<close>

lemma upt16: "[0..<16] = [0, 1, 2, 3, 4, 5, 6, 7, 8, 9, 10, 11, 12, 13, 14, 15]"
  by (simp add: upt_rec)

lemma q40_acc_sum:
  "q40_acc w x = (\<Sum>j\<leftarrow>[0..<16]. (uint (q40_qs w ! j AND 0x0F) - 8) * sint (q80_qs x ! j)
      + (uint (drop_bit 4 (q40_qs w ! j)) - 8) * sint (q80_qs x ! (j + 16)))"
  using foldl_add [of "\<lambda>j. (uint (q40_qs w ! j AND 0x0F) - 8) * sint (q80_qs x ! j)
      + (uint (drop_bit 4 (q40_qs w ! j)) - 8) * sint (q80_qs x ! (j + 16))" 0 "[0..<16]"]
  by (simp add: q40_acc_def Let_def TQ_GROUP_SIZE_def)

lemma q40_acc_bound: "\<bar>q40_acc w x\<bar> \<le> 2 ^ 15"
proof -
  have "\<bar>(uint (a AND 0x0F) - 8) * sint b + (uint (drop_bit 4 a) - 8) * sint c\<bar> \<le> 8 * 128 + 8 * 128" for a b c :: u8
  proof -
    have "\<bar>uint (a AND 0x0F) - 8\<bar> \<le> 8" "\<bar>uint (drop_bit 4 a) - 8\<bar> \<le> 8"
      using nibble_low [of a] uint_ge_0 [of "a AND 0x0F"] uint_ge_0 [of "drop_bit 4 a"] by linarith+
    from prod_bound [OF this(1) sint8_bound [of b]] prod_bound [OF this(2) sint8_bound [of c]]
    show ?thesis by linarith
  qed
  then have "\<bar>q40_acc w x\<bar> \<le> int (length [0..<16]) * (8 * 128 + 8 * 128)"
    unfolding q40_acc_sum by (intro sum_list_bound) blast
  then show ?thesis by simp
qed

lemma q80_acc_sum: "q80_acc w x = (\<Sum>j\<leftarrow>[0..<32]. sint (q80_qs w ! j) * sint (q80_qs x ! j))"
  by (simp add: q80_acc_def TQ_GROUP_SIZE_def foldl_add)

lemma q80_acc_bound: "\<bar>q80_acc w x\<bar> \<le> 2 ^ 19"
proof -
  have "\<bar>q80_acc w x\<bar> \<le> int (length [0..<32]) * (128 * 128)"
    unfolding q80_acc_sum by (intro sum_list_bound ballI prod_bound sint8_bound)
  then show ?thesis by simp
qed

lemma smlad_bytes:
  assumes "dsp_laws ops"
  shows "smlad ops (sxtb16 ops a) (sxtb16 ops b) acc =
    word_of_int (sint (byte_at a 0) * sint (byte_at b 0)) + word_of_int (sint (byte_at a 2) * sint (byte_at b 2)) + acc"
  using assms by (simp only: dsp_laws_def scast_byte of_int_mult)

lemma ssub8_byte: "dsp_laws ops \<Longrightarrow> i < 4 \<Longrightarrow> byte_at (ssub8 ops a b) i = byte_at a i - byte_at b i"
  by (simp add: dsp_laws_def)

definition q40_term :: "tq_block_q40 \<Rightarrow> tq_block_q80 \<Rightarrow> nat \<Rightarrow> int" where
  "q40_term w x j = (uint (q40_qs w ! j AND 0x0F) - 8) * sint (q80_qs x ! j)
      + (uint (drop_bit 4 (q40_qs w ! j)) - 8) * sint (q80_qs x ! (j + 16))"

lemma q40_dsp_step:
  assumes "dsp_laws ops"
  shows "(let v = le32 (q40_qs w) j;
                 lo = ssub8 ops (v AND 0x0F0F0F0F) 0x08080808;
                 hi = ssub8 ops (drop_bit 4 v AND 0x0F0F0F0F) 0x08080808;
                 xa = le32 (q80_qs x) j;
                 xh = le32 (q80_qs x) (j + 16);
                 acc = smlad ops (sxtb16 ops lo) (sxtb16 ops xa) acc;
                 acc = smlad ops (sxtb16 ops (drop_bit 8 lo)) (sxtb16 ops (drop_bit 8 xa)) acc;
                 acc = smlad ops (sxtb16 ops hi) (sxtb16 ops xh) acc
             in smlad ops (sxtb16 ops (drop_bit 8 hi)) (sxtb16 ops (drop_bit 8 xh)) acc) =
    acc + word_of_int (q40_term w x j + q40_term w x (j + 1) + q40_term w x (j + 2) + q40_term w x (j + 3))"
proof -
  note lt = nibble_signed [OF nibble_low(1)] nibble_signed [OF nibble_low(2)]
  have i: "(0::nat) < 4" "(1::nat) < 4" "(2::nat) < 4" "(3::nat) < 4" by simp_all
  show ?thesis
    unfolding Let_def smlad_bytes [OF assms] byte_at_shift ssub8_byte [OF assms i(1)] ssub8_byte [OF assms i(2)]
      ssub8_byte [OF assms i(3)] ssub8_byte [OF assms i(4)] byte_at_4 byte_at_eights
    unfolding byte_at_low byte_at_le32 lt q40_term_def
    by (simp only: of_int_add ac_simps)
qed

lemma q40_dsp_exact:
  assumes "dsp_laws ops"
  shows "sint (q40_acc_dsp ops w x) = q40_acc w x"
proof -
  have "q40_acc_dsp ops w x = word_of_int (q40_acc w x)"
    unfolding q40_acc_dsp_def q40_dsp_step [OF assms] q40_acc_sum q40_term_def [symmetric] upt16 foldl.simps
    by (simp add: algebra_simps numeral_2_eq_2 [symmetric])
  then show ?thesis
    using q40_acc_bound [of w x] by (simp only:) (intro sint_of_int_small; simp)
qed

lemma q80_dsp_step:
  assumes "dsp_laws ops"
  shows "(let wv = le32 (q80_qs w) j;
                 xv = le32 (q80_qs x) j;
                 acc = smlad ops (sxtb16 ops wv) (sxtb16 ops xv) acc
             in smlad ops (sxtb16 ops (drop_bit 8 wv)) (sxtb16 ops (drop_bit 8 xv)) acc) =
    acc + word_of_int (sint (q80_qs w ! j) * sint (q80_qs x ! j) + sint (q80_qs w ! (j + 1)) * sint (q80_qs x ! (j + 1))
      + sint (q80_qs w ! (j + 2)) * sint (q80_qs x ! (j + 2)) + sint (q80_qs w ! (j + 3)) * sint (q80_qs x ! (j + 3)))"
  unfolding Let_def smlad_bytes [OF assms] byte_at_shift byte_at_le32
  by (simp only: of_int_add ac_simps)

lemma upt32: "[0..<32] = [0, 1, 2, 3, 4, 5, 6, 7, 8, 9, 10, 11, 12, 13, 14, 15,
    16, 17, 18, 19, 20, 21, 22, 23, 24, 25, 26, 27, 28, 29, 30, 31]"
  by (simp add: upt_rec)

lemma q80_dsp_exact:
  assumes "dsp_laws ops"
  shows "sint (q80_acc_dsp ops w x) = q80_acc w x"
proof -
  define f where "f = (\<lambda>j. sint (q80_qs w ! j) * sint (q80_qs x ! j))"
  have "q80_acc_dsp ops w x = word_of_int (q80_acc w x)"
    unfolding q80_acc_dsp_def q80_dsp_step [OF assms] q80_acc_sum f_def [symmetric, THEN fun_cong] upt32 foldl.simps
    by (simp add: algebra_simps numeral_2_eq_2 [symmetric] del: of_int_mult)
  then show ?thesis
    using q80_acc_bound [of w x] by (simp only:) (intro sint_of_int_small; simp)
qed

text \<open>
  C37: the two backends agree bit for bit. For any implementation of the three ARM instructions
  that satisfies the architecture manual's equations, the DSP dot products of Q4_0 and of Q8_0
  blocks equal the portable ones as bit patterns, for every block content and every count:
  the packed arithmetic computes the same integers, none of the sums overflows, and the float
  operations follow in the same order.
\<close>

theorem dsp_backend_exact:
  assumes "dsp_laws ops"
  shows "dot_q40_q80_dsp ops w4 x nb = tq_dot_q40_q80 w4 x nb \<and>
    dot_q80_q80_dsp ops w8 x nb = tq_dot_q80_q80 w8 x nb"
  by (simp add: dot_q40_q80_dsp_def tq_dot_q40_q80_def dot_q80_q80_dsp_def tq_dot_q80_q80_def
      q40_dsp_exact [OF assms] q80_dsp_exact [OF assms])

theorem dsp_backend_exact_witness:
  "dot_q40_q80_dsp arm_dsp [\<lparr>q40_d = 0x3C00, q40_qs = replicate 16 0xF1\<rparr>]
      [\<lparr>q80_d = 0x3C00, q80_qs = replicate 32 0x85\<rparr>] 1 =
     tq_dot_q40_q80 [\<lparr>q40_d = 0x3C00, q40_qs = replicate 16 0xF1\<rparr>]
      [\<lparr>q80_d = 0x3C00, q80_qs = replicate 32 0x85\<rparr>] 1"
  by (rule dsp_backend_exact [OF arm_laws, THEN conjunct1])

lemma quantize_range:
  assumes "tq_quantize_q8 x n = Some bs"
  shows "length bs = n div 32 \<and> (\<forall>b \<in> set bs. length (q80_qs b) = 32 \<and> (\<forall>q \<in> set (q80_qs b). - 127 \<le> sint q \<and> sint q \<le> 127))"
proof -
  have v: "- 127 \<le> sint q \<and> sint q \<le> 127" if "quantize_value a i = Some q" for a i q
  proof -
    obtain k where q: "q = word_of_int (if k > 127 then 127 else if k < -127 then -127 else k)"
      using \<open>quantize_value a i = Some q\<close> by (auto simp: quantize_value_def Let_def)
    have "sint q = (if k > 127 then 127 else if k < -127 then -127 else k)"
      unfolding q by (rule sint_of_int_small) auto
    then show ?thesis by auto
  qed
  have th: "those ys = Some zs \<Longrightarrow> length zs = length ys \<and> (\<forall>z \<in> set zs. Some z \<in> set ys)" for ys :: "'b option list" and zs
    by (induction ys arbitrary: zs) (auto split: option.splits)
  have blk: "length (q80_qs b) = 32 \<and> (\<forall>q \<in> set (q80_qs b). - 127 \<le> sint q \<and> sint q \<le> 127)"
    if "quantize_block src = Some b" for src b
  proof -
    obtain i qs where qs: "those (map (\<lambda>j. quantize_value (src ! j) i) [0..<32]) = Some qs" "q80_qs b = qs"
      using \<open>quantize_block src = Some b\<close> by (auto simp: quantize_block_def Let_def TQ_GROUP_SIZE_def)
    have "length qs = 32" using th [OF qs(1)] by simp
    moreover have "\<forall>q \<in> set qs. - 127 \<le> sint q \<and> sint q \<le> 127"
    proof
      fix q assume "q \<in> set qs"
      then have "Some q \<in> set (map (\<lambda>j. quantize_value (src ! j) i) [0..<32])" using th [OF qs(1)] by blast
      then obtain j where "quantize_value (src ! j) i = Some q" by auto
      then show "- 127 \<le> sint q \<and> sint q \<le> 127" by (rule v)
    qed
    ultimately show ?thesis using qs(2) by simp
  qed
  have "length bs = n div 32"
    using th [OF assms [unfolded tq_quantize_q8_def]] by (simp add: TQ_GROUP_SIZE_def)
  moreover have "\<forall>b \<in> set bs. \<exists>src. quantize_block src = Some b"
    using th [OF assms [unfolded tq_quantize_q8_def]] by auto (metis imageE)
  ultimately show ?thesis using blk by blast
qed

section \<open>Quantization of finite floats is defined\<close>

lemma quant_consts:
  "f32_dec 127 0 = 0x42FE0000" "f32_dec 5 1 = 0x3F000000" "f32_dec 1 0 = 0x3F800000"
  by code_simp+

lemma const_fields:
  "f32_finite 0x42FE0000" "f32_mag 0x42FE0000 = 0x42FE0000" "\<not> f32_sign 0x42FE0000"
  "f32_finite 0x3F000000" "f32_mag 0x3F000000 = 0x3F000000"
  "f32_finite 0x3F800000" "f32_mag 0x3F800000 = 0x3F800000" "\<not> f32_sign 0x3F800000"
  "f32_finite 0" "f32_mag 0 = 0" "\<not> f32_sign 0"
  by (simp_all add: f32_finite_def f32_mag_def f32_sign_def)

lemma const_vals:
  "mag_val 23 8 0x42FE0000 = 127" "mag_val 23 8 0x3F000000 = 1 / 2" "mag_val 23 8 0x3F800000 = 1"
  using mag_val_neg [of 23 "0x42FE0000" 16646144 8 17] mag_val_neg [of 23 "0x3F000000" 8388608 8 24]
    mag_val_neg [of 23 "0x3F800000" 8388608 8 23]
  by (simp_all add: mag_m_def mag_e_def fl_emin_def)

lemma mag_4096: "mag_val 23 8 0x45800000 = 4096" "mag_val 23 8 0x46000000 = of_int 8192"
  using mag_val_neg [of 23 "0x45800000" 8388608 8 11] mag_val_neg [of 23 "0x46000000" 8388608 8 10]
  by (simp_all add: mag_m_def mag_e_def fl_emin_def)

lemma mag_eq_zero: "0 \<le> a \<Longrightarrow> mag_val mb eb a = 0 \<longleftrightarrow> a = 0"
  using mag_val_mono_iff [of a 0 mb eb] mag_val_nonneg [of a mb eb] by auto

text \<open>The value is at most 4096 before the rounding to an integer: then it fits.\<close>

lemma quantize_value_bounded:
  assumes fin: "f32_finite x" "f32_finite i"
    and b: "mag_val 23 8 (f32_mag x) * mag_val 23 8 (f32_mag i) \<le> 4096"
  shows "\<exists>q. quantize_value x i = Some q"
proof -
  let ?v = "f32_mul x i"
  have m: "f32_mag ?v \<le> 0x45800000" using b by (intro f32_mul_finite(2) [OF fin]) (simp_all add: mag_4096)
  have vf: "f32_finite ?v" using m by (simp add: f32_finite_def)
  have "mag_val 23 8 (f32_mag ?v) \<le> 4096"
    using mag_val_mono_iff [of "f32_mag ?v" "0x45800000" 23 8] m by (simp add: mag_4096)
  then have s: "mag_val 23 8 (f32_mag ?v) + mag_val 23 8 (f32_mag 0x3F000000) \<le> mag_val 23 8 0x46000000"
    by (simp add: const_fields const_vals mag_4096)
  note ab = f32_add_bound [OF vf const_fields(4) _ s]
  have "\<exists>n. f32_to_i32 w = Some n" if "f32_mag w \<le> 0x46000000" for w
    using f32_to_i32_bounded [OF that mag_4096(2)] by auto
  then show ?thesis using ab by (auto simp: quantize_value_def Let_def quant_consts [unfolded One_nat_def])
qed

lemma block_amax_bound:
  assumes "\<forall>x \<in> set src. f32_finite x"
  shows "f32_finite (block_amax src) \<and> \<not> f32_sign (block_amax src) \<and>
    (\<forall>x \<in> set src. f32_mag x \<le> f32_mag (block_amax src))"
proof -
  let ?f = "\<lambda>amax x. let v = (if f32_lt x 0 then f32_neg x else x) in if f32_lt amax v then v else amax"
  have step: "f32_finite (?f a x) \<and> \<not> f32_sign (?f a x) \<and> f32_mag a \<le> f32_mag (?f a x) \<and> f32_mag x \<le> f32_mag (?f a x)"
    if a: "f32_finite a" "\<not> f32_sign a" and x: "f32_finite x" for a x
  proof -
    let ?v = "if f32_lt x 0 then f32_neg x else x"
    have lt: "f32_lt x 0 \<longleftrightarrow> f32_sign x \<and> f32_mag x \<noteq> 0"
      using x f32_mag_nonneg [of x]
      by (auto simp: f32_lt_def f32_finite_not_nan const_fields f32_key_eq sgn_int_def simp del: f32_mag_nonneg)
    have v: "f32_mag ?v = f32_mag x" "f32_finite ?v" "\<not> f32_sign ?v \<or> f32_mag ?v = 0"
      using x lt by (auto simp: f32_neg_fields f32_finite_def)
    have al: "f32_lt a ?v \<longleftrightarrow> f32_mag a < f32_key ?v"
      using a v(2) by (simp add: f32_lt_def f32_finite_not_nan f32_key_eq [of a] sgn_int_def)
    show ?thesis
    proof (cases "f32_sign ?v")
      case True
      then have "f32_key ?v = 0" "f32_mag x = 0" using v by (simp_all add: f32_key_eq sgn_int_def)
      then show ?thesis using a al f32_mag_nonneg [of a] by (simp add: Let_def)
    next
      case False
      then have "f32_key ?v = f32_mag x" using v by (simp add: f32_key_eq sgn_int_def)
      then show ?thesis using a al v False by (simp add: Let_def)
    qed
  qed
  have "\<forall>x \<in> set src. f32_finite x \<Longrightarrow> f32_finite a \<Longrightarrow> \<not> f32_sign a \<Longrightarrow>
    f32_finite (foldl ?f a src) \<and> \<not> f32_sign (foldl ?f a src) \<and> f32_mag a \<le> f32_mag (foldl ?f a src) \<and>
    (\<forall>x \<in> set src. f32_mag x \<le> f32_mag (foldl ?f a src))" for a
  proof (induction src arbitrary: a)
    case (Cons x src)
    note st = step [OF Cons.prems(2,3), of x]
    have "f32_finite x" using Cons.prems(1) by simp
    note st = st [OF this]
    note IH = Cons.IH [of "?f a x"]
    show ?case using IH st Cons.prems(1) by simp
  qed simp
  from this [of 0] assms show ?thesis by (simp add: block_amax_def const_fields)
qed


lemma half_zero_or:
  assumes "h_mag h = 0" shows "f32_eq (tq_half_to_float h) 0"
proof -
  have "h_exp h < 31"
    using assms by (simp add: h_mag_def)
  note v = half_value(2) [OF this]
  have "mag_val 23 8 (f32_mag (tq_half_to_float h)) = 0" using v assms by simp
  then have "f32_mag (tq_half_to_float h) = 0" by (simp add: mag_eq_zero)
  then show ?thesis using v
    by (simp add: f32_eq_def f32_finite_not_nan const_fields f32_key_eq sgn_int_def)
qed

lemma h_uint: "uint h = of_bool (bit h 15) * 2 ^ 15 + h_mag h"
  using arg_cong [OF h_split [of h], of int] by (cases "bit h 15") (simp_all add: h_mag_def)

lemma h_mag_nonneg [simp]: "0 \<le> h_mag h"
  by (simp add: h_mag_def)

lemma div_inf: "f32_div 0x3F800000 0x7F800000 = 0"
  by code_simp

lemma mag_2p26: "mag_val 23 8 0x4C800000 = 2 ^ 26" "mag_val 23 8 0x36000000 = 1 / 2 ^ 19"
proof -
  show "mag_val 23 8 0x4C800000 = 2 ^ 26"
    by (simp add: mag_val_def mag_m_def mag_e_def fl_emin_def)
  show "mag_val 23 8 0x36000000 = 1 / 2 ^ 19"
    using mag_val_neg [of 23 "0x36000000" 8388608 8 42] by (simp add: mag_m_def mag_e_def fl_emin_def)
qed

lemma block_scale_bound:
  assumes am: "f32_finite am" "\<not> f32_sign am"
  defines "dh \<equiv> tq_float_to_half (f32_div am (f32_dec 127 0))"
  defines "i \<equiv> (if \<not> f32_eq (tq_half_to_float dh) 0 then f32_div (f32_dec 1 0) (tq_half_to_float dh) else 0)"
  shows "f32_finite i \<and> mag_val 23 8 (f32_mag am) * mag_val 23 8 (f32_mag i) \<le> 4096"
proof -
  let ?y = "f32_div am (f32_dec 127 0)"
  let ?d = "tq_half_to_float dh"
  define a where "a = mag_val 23 8 (f32_mag am)"
  have a0: "0 \<le> a" by (simp add: a_def mag_val_nonneg)
  have c0: "f32_mag 0x42FE0000 \<noteq> 0" by (simp add: const_fields)
  have ys: "\<not> f32_sign ?y"
    using f32_div_finite(1) [OF am(1) const_fields(1) c0] am(2) by (simp add: quant_consts const_fields)
  obtain m e where me: "0 \<le> m" "f32_mag ?y = fl_mag 23 8 m e" "of_int m * 2 powr of_int e \<le> 2 * (a / 127)"
    "a / 127 \<le> 2 * (of_int m * 2 powr of_int e :: real)"
    using f32_div_finite(2) [OF am(1) const_fields(1) c0] unfolding quant_consts const_fields const_vals a_def by blast
  have "2 * (a / 127) \<le> a" using a0 by simp
  then have "f32_mag ?y \<le> f32_mag am"
    unfolding me(2) using me(3) by (intro fl_mag_le_bits [OF me(1)]) (simp_all add: a_def)
  then have yf: "f32_finite ?y" using am(1) by (simp add: f32_finite_def)
  then have ye: "f_exp ?y < 255" by (simp add: f_exp_finite)
  have dmag: "uint dh = fl_mag 10 5 (mag_m 23 (f32_mag ?y)) (mag_e 23 8 (f32_mag ?y))" (is "_ = ?H")
    using float_to_half_mag [OF ye] ys by (simp add: dh_def)
  have Hb: "0 \<le> ?H" "?H \<le> 31744"
    using fl_mag_bounds(1) [OF mag_m_nonneg [OF f32_mag_nonneg [of ?y]], of 10 5 23 "mag_e 23 8 (f32_mag ?y)"]
      fl_mag_bounds(2) [of 10 5 "mag_m 23 (f32_mag ?y)" "mag_e 23 8 (f32_mag ?y)"]
    by (simp_all add: emin_half)
  have hs: "\<not> bit dh 15"
    using h_uint [of dh] dmag Hb h_mag_nonneg [of dh] by (cases "bit dh 15") simp_all
  have hm: "h_mag dh = ?H"
    using h_uint [of dh] hs dmag by simp
  have iz: ?thesis if "i = 0"
    using that by (simp add: const_fields)
  consider (inf) "?H = 31744" | (zero) "?H = 0" | (fin) "1 \<le> ?H" "?H < 31744" using Hb by linarith
  then show ?thesis
  proof cases
    case inf
    have e: "h_exp dh = 31" "h_mant dh = 0"
    proof -
      have "h_exp dh * 2 ^ 10 + h_mant dh = 31744" using inf hm unfolding h_mag_def by linarith
      moreover from this have "h_exp dh = 31" using h_bounds [of dh] by simp
      ultimately show "h_exp dh = 31" "h_mant dh = 0" by simp_all
    qed
    have dm: "f32_mag ?d = 0x7F800000" "\<not> f32_sign ?d"
      using half_value(3) [OF e(1)] half_value(1) [of dh] e(2) hs by simp_all
    have "uint ?d = 0x7F800000"
    proof -
      have "uint ?d = uint ?d div 2 ^ 31 * 2 ^ 31 + uint ?d mod 2 ^ 31" by (simp only: div_mult_mod_eq)
      moreover have "uint ?d div 2 ^ 31 = 0" using f32_top [of ?d] dm(2) by (auto simp: f32_sign_def)
      ultimately show ?thesis using dm(1) by (simp add: f32_mag_def)
    qed
    then have d: "?d = 0x7F800000" by (simp add: word_uint_eq_iff)
    have "\<not> f32_eq 0x7F800000 0" by (simp add: f32_eq_def f32_key_eq f32_mag_def f32_sign_def sgn_int_def)
    then have "i = 0" by (simp add: i_def d quant_consts div_inf)
    then show ?thesis by (rule iz)
  next
    case zero
    then have "i = 0" using half_zero_or [of dh] hm by (simp add: i_def)
    then show ?thesis by (rule iz)
  next
    case fin
    define D where "D = mag_val 10 5 (h_mag dh)"
    define Y where "Y = mag_val 23 8 (f32_mag ?y)"
    have e: "h_exp dh < 31" using fin hm h_bounds [of dh] by (simp add: h_mag_def)
    note v = half_value(2) [OF e]
    have dv: "mag_val 23 8 (f32_mag ?d) = D" "f32_finite ?d" using v by (simp_all add: D_def)
    have D0: "0 < D" unfolding D_def using fin hm mag_eq_zero [of "h_mag dh" 10 5] mag_val_nonneg [of "h_mag dh" 10 5] by simp
    have dm0: "f32_mag ?d \<noteq> 0" using dv D0 by auto
    have "Y \<le> 2 * D"
      using fl_mag_near(1) [OF mag_m_nonneg [OF f32_mag_nonneg [of ?y]], where mb = 10 and eb = 5 and e = "mag_e 23 8 (f32_mag ?y)"] fin
      by (simp add: Y_def D_def hm mag_val_def emin_half)
    moreover have "of_int m * 2 powr of_int e \<le> 2 * Y"
    proof -
      have "f32_mag ?y \<noteq> 0"
      proof
        assume z: "f32_mag ?y = 0"
        have "?H = 0" by (simp add: z mag_m_def fl_mag_def)
        then show False using fin by simp
      qed
      then have "1 \<le> fl_mag 23 8 m e" using f32_mag_nonneg [of ?y] me(2) by simp
      moreover have "fl_mag 23 8 m e < fl_inf 23 8" using yf me(2) by (simp add: f32_finite_def)
      ultimately show ?thesis using fl_mag_near(1) [OF me(1), where mb = 23 and eb = 8] by (simp add: Y_def me(2))
    qed
    ultimately have aD: "a \<le> 1016 * D" using me(4) by linarith
    have ne: "\<not> f32_eq ?d 0"
      using dm0 by (simp add: f32_eq_def f32_key_eq const_fields sgn_int_def)
    then have id: "i = f32_div 0x3F800000 ?d" by (simp add: i_def quant_consts)
    obtain m' e' where me': "0 \<le> m'" "f32_mag i = fl_mag 23 8 m' e'" "of_int m' * 2 powr of_int e' \<le> 2 * (1 / D)"
      "1 / D \<le> 2 * (of_int m' * 2 powr of_int e' :: real)"
      using f32_div_finite(2) [OF const_fields(6) dv(2) dm0] unfolding id dv(1) const_fields const_vals by blast
    have Dlo: "1 / 2 ^ 24 \<le> D"
    proof -
      have "mag_val 10 5 1 \<le> D" unfolding D_def using fin hm by (simp add: mag_val_mono_iff)
      moreover have "mag_val 10 5 1 = 1 / 2 ^ 24" using mag_val_neg [of 10 1 1 5 24] by (simp add: mag_m_def mag_e_def emin_half)
      ultimately show ?thesis by simp
    qed
    have Dhi: "D \<le> 65536"
    proof -
      have "D \<le> mag_val 10 5 31744" unfolding D_def using fin hm by (simp add: mag_val_mono_iff)
      moreover have "mag_val 10 5 31744 = 65536" by (simp add: mag_val_def mag_m_def mag_e_def emin_half powr_realpow [symmetric])
      ultimately show ?thesis by simp
    qed
    have "1 / D \<le> 2 ^ 24" using Dlo D0 by (simp add: pos_divide_le_eq)
    then have "2 * (1 / D) \<le> mag_val 23 8 0x4C800000" unfolding mag_2p26 by simp
    then have "of_int m' * 2 powr of_int e' \<le> mag_val 23 8 0x4C800000"
      using me'(3) by (rule order_trans [rotated])
    then have hi: "f32_mag i \<le> 0x4C800000" unfolding me'(2) by (intro fl_mag_le_bits [OF me'(1)]) simp_all
    have "1 / 65536 \<le> 1 / D" using Dhi D0 by (simp add: frac_le)
    then have "mag_val 23 8 0x36000000 \<le> 1 / D / 2" unfolding mag_2p26 by simp
    also have "1 / D / 2 \<le> of_int m' * 2 powr of_int e'" using me'(4) by simp
    finally have "mag_val 23 8 0x36000000 \<le> of_int m' * 2 powr of_int e'" .
    then have lo: "0x36000000 \<le> f32_mag i" unfolding me'(2) by (intro fl_mag_ge_bits [OF me'(1)]) simp_all
    have "mag_val 23 8 (f32_mag i) \<le> 2 * (of_int m' * 2 powr of_int e')"
      using fl_mag_near(2) [OF me'(1), where mb = 23 and eb = 8 and e = e'] hi lo by (simp add: me'(2))
    then have iD: "mag_val 23 8 (f32_mag i) \<le> 4 / D" using me'(3) by simp
    have "a * mag_val 23 8 (f32_mag i) \<le> (1016 * D) * (4 / D)"
      using aD iD D0 by (intro mult_mono) (simp_all add: mag_val_nonneg)
    also have "\<dots> = 4064" using D0 by simp
    finally show ?thesis using hi by (simp add: a_def f32_finite_def)
  qed
qed

lemma quantize_defined:
  assumes "\<forall>v \<in> set x. f32_finite v" and "n \<le> length x"
  shows "\<exists>bs. tq_quantize_q8 x n = Some bs"
proof -
  have th: "(\<forall>y \<in> set ys. \<exists>z. y = Some z) \<Longrightarrow> \<exists>zs. those ys = Some zs" for ys :: "'b option list"
    by (induction ys) auto
  have blk: "\<exists>b. quantize_block src = Some b" if s: "\<forall>v \<in> set src. f32_finite v" "length src = 32" for src
  proof -
    note am = block_amax_bound [OF s(1)]
    let ?dh = "tq_float_to_half (f32_div (block_amax src) (f32_dec 127 0))"
    let ?i = "if \<not> f32_eq (tq_half_to_float ?dh) 0 then f32_div (f32_dec 1 0) (tq_half_to_float ?dh) else 0"
    have sb: "f32_finite ?i" "mag_val 23 8 (f32_mag (block_amax src)) * mag_val 23 8 (f32_mag ?i) \<le> 4096"
      using block_scale_bound [of "block_amax src"] am by blast+
    have "\<exists>q. quantize_value v ?i = Some q" if "v \<in> set src" for v
    proof (rule quantize_value_bounded)
      show "f32_finite v" using s(1) that by blast
      show "f32_finite ?i" by (rule sb)
      have "mag_val 23 8 (f32_mag v) \<le> mag_val 23 8 (f32_mag (block_amax src))"
        using am that by (simp add: mag_val_mono_iff)
      then have "mag_val 23 8 (f32_mag v) * mag_val 23 8 (f32_mag ?i) \<le> mag_val 23 8 (f32_mag (block_amax src)) * mag_val 23 8 (f32_mag ?i)"
        by (intro mult_right_mono) (simp_all add: mag_val_nonneg)
      then show "mag_val 23 8 (f32_mag v) * mag_val 23 8 (f32_mag ?i) \<le> 4096" using sb(2) by linarith
    qed
    then have "\<exists>qs. those (map (\<lambda>j. quantize_value (src ! j) ?i) [0..<32]) = Some qs"
      using s(2) by (intro th) auto
    then show ?thesis by (auto simp only: quantize_block_def Let_def TQ_GROUP_SIZE_def option.map)
  qed
  show ?thesis unfolding tq_quantize_q8_def
  proof (rule th, clarsimp)
    fix b assume b: "b < n div TQ_GROUP_SIZE"
    have "(b + 1) * 32 \<le> n div 32 * 32" using b by (intro mult_right_mono) (simp_all add: TQ_GROUP_SIZE_def)
    also have "\<dots> \<le> n" by simp
    finally have "b * 32 + 32 \<le> length x" using assms(2) by simp
    then show "\<exists>z. quantize_block (take TQ_GROUP_SIZE (drop (b * TQ_GROUP_SIZE) x)) = Some z"
      using assms(1) by (intro blk) (auto simp: TQ_GROUP_SIZE_def dest: in_set_takeD in_set_dropD)
  qed
qed

text \<open>
  C38: quantization never leaves C's defined behaviour on finite floats and yields well-formed
  blocks. Whatever the scale does when it is rounded to half precision (to zero, to a subnormal,
  to infinity), the value converted to \<^verbatim>\<open>int\<close> stays below 8192, so every block exists; there
  is one per 32 floats, with 32 quants between -127 and 127. A NaN or an infinity among the
  activations is outside this guarantee.
\<close>

theorem quantize_q8_safe:
  assumes "\<forall>v \<in> set x. f32_finite v" and "n \<le> length x"
  shows "\<exists>bs. tq_quantize_q8 x n = Some bs \<and> length bs = n div 32 \<and>
    (\<forall>b \<in> set bs. length (q80_qs b) = 32 \<and> (\<forall>q \<in> set (q80_qs b). - 127 \<le> sint q \<and> sint q \<le> 127))"
  using quantize_defined [OF assms] quantize_range by blast

theorem quantize_q8_safe_witness:
  "\<exists>bs. tq_quantize_q8 (replicate 32 0x3F800000) 32 = Some bs \<and> length bs = 1 \<and> length (q80_qs (hd bs)) = 32"
proof -
  obtain bs where bs: "tq_quantize_q8 (replicate 32 0x3F800000) 32 = Some bs" "length bs = 1"
    "\<forall>b \<in> set bs. length (q80_qs b) = 32"
    using quantize_q8_safe [of "replicate 32 0x3F800000" 32] by (auto simp: const_fields)
  then show ?thesis by (cases bs) auto
qed

section \<open>Little-endian words as sums\<close>

lemma byte_bit_less: "bit (ucast (b :: u8) :: 'w::len word) n \<Longrightarrow> n < 8"
  using bit_imp_le_length [of b n] by (simp add: bit_ucast_iff)

lemma or_push_add:
  fixes a b :: "'w::len word"
  assumes "\<And>n. bit a n \<Longrightarrow> n < k"
  shows "a OR push_bit k b = a + push_bit k b"
  by (rule disjunctive_add [symmetric]) (use assms in \<open>force simp: bit_push_bit_iff\<close>)

lemma le32_nat:
  "le32 bs i = of_nat (unat (bs ! i) + 256 * unat (bs ! (i + 1)) + 65536 * unat (bs ! (i + 2)) + 16777216 * unat (bs ! (i + 3)))"
proof -
  let ?b = "\<lambda>k. ucast (bs ! (i + k)) :: u32"
  have c: "?b k = of_nat (unat (bs ! (i + k)))" for k by (simp add: unsigned_of_nat)
  have e1: "?b 0 OR push_bit 8 (?b 1) = ?b 0 + push_bit 8 (?b 1)"
    by (rule or_push_add) (rule byte_bit_less)
  have e2: "(?b 0 + push_bit 8 (?b 1)) OR push_bit 16 (?b 2) = ?b 0 + push_bit 8 (?b 1) + push_bit 16 (?b 2)"
    by (rule or_push_add) (unfold e1 [symmetric], auto simp: bit_or_iff bit_push_bit_iff dest: byte_bit_less)
  have e3: "(?b 0 + push_bit 8 (?b 1) + push_bit 16 (?b 2)) OR push_bit 24 (?b 3)
      = ?b 0 + push_bit 8 (?b 1) + push_bit 16 (?b 2) + push_bit 24 (?b 3)"
    by (rule or_push_add) (unfold e2 [symmetric], unfold e1 [symmetric], auto simp: bit_or_iff bit_push_bit_iff dest: byte_bit_less)
  have "le32 bs i = ((?b 0 OR push_bit 8 (?b 1)) OR push_bit 16 (?b 2)) OR push_bit 24 (?b 3)"
    by (simp only: le32_def or.assoc add_0_right)
  then have "le32 bs i = ?b 0 + push_bit 8 (?b 1) + push_bit 16 (?b 2) + push_bit 24 (?b 3)"
    unfolding e1 e2 e3 .
  then show ?thesis unfolding c by (simp add: push_bit_eq_mult)
qed

definition le_bytes :: "nat \<Rightarrow> nat \<Rightarrow> u8 list" where
  "le_bytes k n = map (\<lambda>i. of_nat (n div 256 ^ i mod 256)) [0..<k]"

lemma le_bytes_length [simp]: "length (le_bytes k n) = k"
  by (simp add: le_bytes_def)

lemma le_bytes_nth: "i < k \<Longrightarrow> unat (le_bytes k n ! i) = n div 256 ^ i mod 256"
  by (simp add: le_bytes_def unsigned_of_nat take_bit_nat_eq_self)

lemma base256: "n < 4294967296 \<Longrightarrow>
    n mod 256 + 256 * (n div 256 mod 256) + 65536 * (n div 65536 mod 256) + 16777216 * (n div 16777216 mod 256) = (n :: nat)"
proof -
  assume n: "n < 4294967296"
  define a b c where "a = n div 256" and "b = a div 256" and "c = b div 256"
  have d: "n div 65536 = b" "n div 16777216 = c" by (simp_all add: a_def b_def c_def div_mult2_eq [symmetric])
  have "c < 256" using n d(2) by (simp add: div_less_iff_less_mult)
  then have "c mod 256 = c" by simp
  moreover have "n = 256 * a + n mod 256" "a = 256 * b + a mod 256" "b = 256 * c + b mod 256"
    by (simp_all add: a_def b_def c_def)
  ultimately show ?thesis unfolding d a_def [symmetric] by linarith
qed

lemma le32_at:
  assumes "\<And>j. j < 4 \<Longrightarrow> bs ! (i + j) = le_bytes 4 n ! j" and "n < 2 ^ 32"
  shows "le32 bs i = of_nat n"
proof -
  have "unat (bs ! (i + j)) = n div 256 ^ j mod 256" if "j < 4" for j
    using assms(1) [OF that] le_bytes_nth [OF that] by simp
  from this [of 0] this [of 1] this [of 2] this [of 3] base256 [of n] assms(2)
  show ?thesis unfolding le32_nat by simp
qed

lemma le64_at:
  assumes "\<And>j. j < 8 \<Longrightarrow> bs ! (i + j) = le_bytes 8 n ! j" and "n < 2 ^ 64"
  shows "(ucast (le32 bs i) OR push_bit 32 (ucast (le32 bs (i + 4))) :: u64) = of_nat n"
proof -
  have b: "le_bytes 8 n ! j = le_bytes 4 (n mod 2 ^ 32) ! j" "le_bytes 8 n ! (4 + j) = le_bytes 4 (n div 2 ^ 32) ! j" if "j < 4" for j
  proof -
    have "n mod 2 ^ 32 div 256 ^ j mod 256 = n div 256 ^ j mod 256"
    proof -
      have p: "(2 :: nat) ^ 32 = 256 ^ j * 256 ^ (4 - j)" using that by (simp flip: power_add)
      have "n mod 2 ^ 32 div 256 ^ j = n div 256 ^ j mod 256 ^ (4 - j)" unfolding p by (simp only: mod_mult2_eq) simp
      moreover have "(256 :: nat) dvd 256 ^ (4 - j)" using that by (simp add: dvd_power)
      ultimately show ?thesis by (simp add: mod_mod_cancel)
    qed
    then show "le_bytes 8 n ! j = le_bytes 4 (n mod 2 ^ 32) ! j" using that by (simp add: le_bytes_def)
    have "n div 256 ^ (4 + j) = n div 2 ^ 32 div 256 ^ j" by (simp add: power_add div_mult2_eq)
    then show "le_bytes 8 n ! (4 + j) = le_bytes 4 (n div 2 ^ 32) ! j" using that by (simp add: le_bytes_def)
  qed
  have lo: "le32 bs i = of_nat (n mod 2 ^ 32)" using assms(1) b(1) by (intro le32_at) simp_all
  have hi: "le32 bs (i + 4) = of_nat (n div 2 ^ 32)"
  proof (rule le32_at)
    fix j :: nat assume "j < 4"
    then show "bs ! (i + 4 + j) = le_bytes 4 (n div 2 ^ 32) ! j" using assms(1) [of "4 + j"] b(2) [of j] by (simp add: add.assoc)
  qed (use assms(2) in \<open>simp add: div_less_iff_less_mult\<close>)
  have "(ucast (le32 bs i) OR push_bit 32 (ucast (le32 bs (i + 4))) :: u64) = ucast (le32 bs i) + push_bit 32 (ucast (le32 bs (i + 4)))"
    by (rule or_push_add) (use bit_imp_le_length [of "le32 bs i"] in \<open>auto simp: bit_ucast_iff\<close>)
  also have "\<dots> = of_nat (n mod 2 ^ 32 + 2 ^ 32 * (n div 2 ^ 32))"
  proof -
    have u1: "unat (of_nat (n mod 2 ^ 32) :: u32) = n mod 2 ^ 32"
      unfolding unsigned_of_nat of_nat_id by (rule take_bit_nat_eq_self) simp
    have u2: "unat (of_nat (n div 2 ^ 32) :: u32) = n div 2 ^ 32"
      unfolding unsigned_of_nat of_nat_id by (rule take_bit_nat_eq_self) (use assms(2) in \<open>simp add: div_less_iff_less_mult\<close>)
    have c: "(ucast w :: u64) = of_nat (unat w)" for w :: u32 by (simp add: unsigned_of_nat)
    have p: "push_bit 32 x = 2 ^ 32 * x" for x :: u64 by (simp add: push_bit_eq_mult mult.commute)
    show ?thesis unfolding lo hi c u1 u2 p by (simp only: of_nat_add of_nat_mult of_nat_power of_nat_numeral)
  qed
  also have "n mod 2 ^ 32 + 2 ^ 32 * (n div 2 ^ 32) = n" by (rule mod_mult_div_eq)
  finally show ?thesis .
qed

end
