(* ===== verification/Tq_Store.thy ===== *)
theory Tq_Store imports Tq_Kernels begin

text \<open>
  The weight store of \<^verbatim>\<open>core/src/tq_kernels.c\<close> and everything that reads weights through it:
  \<^verbatim>\<open>tq_store_view\<close>, the matrix-vector product and the embedding row. A store is memory-mapped
  (\<^verbatim>\<open>base\<close> is set) or streams through a bounce buffer, the tile.

  A pointer into the mapped image is the rest of the image from there on; a pointer to the
  tile is the tile. The \<^verbatim>\<open>read\<close> callback belongs to the caller: it takes its context, an
  offset and a count and gives its new context, its return code and the bytes it wrote to
  \<^verbatim>\<open>dst\<close>. What reading needs of a store is the interface \<open>weight_source\<close>; the model's own
  \<open>tq_store_view\<close> provides it for mapped and for streaming stores alike.
\<close>

unbundle bit_operations_syntax

section \<open>The store\<close>

text \<open>\<open>None\<close> stands for a null pointer.\<close>

record 'c tq_store =
  st_base :: "u8 list option"
  st_bytes :: u64
  st_read :: "('c option \<Rightarrow> u64 \<Rightarrow> u32 \<Rightarrow> 'c option \<times> int \<times> u8 list) option"
  st_ctx :: "'c option"
  st_tile :: "u8 list option"
  st_tile_bytes :: u32

definition tq_store_init_mapped :: "u8 list \<Rightarrow> u64 \<Rightarrow> 'c tq_store" where
  "tq_store_init_mapped base bytes =
     \<lparr>st_base = Some base, st_bytes = bytes, st_read = None, st_ctx = None, st_tile = None,
      st_tile_bytes = 0\<rparr>"

definition tq_store_init_stream ::
  "u64 \<Rightarrow> ('c option \<Rightarrow> u64 \<Rightarrow> u32 \<Rightarrow> 'c option \<times> int \<times> u8 list) \<Rightarrow> 'c option \<Rightarrow> u8 list \<Rightarrow> u32 \<Rightarrow> 'c tq_store" where
  "tq_store_init_stream bytes rd ctx tile tile_bytes =
     \<lparr>st_base = None, st_bytes = bytes, st_read = Some rd, st_ctx = ctx, st_tile = Some tile,
      st_tile_bytes = tile_bytes\<rparr>"

text \<open>The comparison \<^verbatim>\<open>off + nbytes > st->bytes\<close> is one of 64-bit words.\<close>

definition tq_store_view :: "'c tq_store \<Rightarrow> u64 \<Rightarrow> u32 \<Rightarrow> 'c tq_store \<times> u8 list option" where
  "tq_store_view st off nbytes =
     (if off + ucast nbytes > st_bytes st then (st, None)
      else case st_base st of
        Some base \<Rightarrow> (st, Some (drop (unat off) base))
      | None \<Rightarrow>
         (case (st_read st, st_tile st) of
            (Some rd, Some tile) \<Rightarrow>
              if nbytes > st_tile_bytes st then (st, None)
              else (case rd (st_ctx st) off nbytes of
                      (ctx, rc, bs) \<Rightarrow>
                        let tile' = bs @ drop (length bs) tile;
                            st' = st\<lparr>st_ctx := ctx, st_tile := Some tile'\<rparr>
                        in if rc \<noteq> 0 then (st', None) else (st', Some tile'))
          | _ \<Rightarrow> (st, None)))"

section \<open>Matrix-vector product\<close>

text \<open>One row: the bytes at \<open>p\<close> as blocks of the dtype; only the two quantized types have one.\<close>

definition row_dot :: "u32 \<Rightarrow> u8 list \<Rightarrow> tq_block_q80 list \<Rightarrow> nat \<Rightarrow> f32 option" where
  "row_dot dtype p xq nb =
     (if dtype = TQ_DT_Q4_0 then Some (tq_dot_q40_q80 (map (q40_at p) [0..<nb]) xq nb)
      else if dtype = TQ_DT_Q8_0 then Some (tq_dot_q80_q80 (map (q80_at p) [0..<nb]) xq nb)
      else None)"

text \<open>\<^verbatim>\<open>count\<close> rows that lie one after the other at \<open>p\<close>, into \<^verbatim>\<open>out[i ...]\<close>.\<close>

definition matvec_rows ::
  "u32 \<Rightarrow> nat \<Rightarrow> nat \<Rightarrow> tq_block_q80 list \<Rightarrow> u8 list \<Rightarrow> nat \<Rightarrow> nat \<Rightarrow> f32 list \<Rightarrow> f32 list option" where
  "matvec_rows dtype row_bytes nb xq p i count out =
     run_steps (\<lambda>out r. map_option (\<lambda>v. out[i + r := v]) (row_dot dtype (drop (r * row_bytes) p) xq nb))
       [0..<count] out"

text \<open>
  The streaming loop from row \<open>i\<close>; \<open>None\<close> would be a loop that does not end.
\<close>

partial_function (option) matvec_tiles ::
  "u64 \<Rightarrow> u32 \<Rightarrow> u64 \<Rightarrow> nat \<Rightarrow> nat \<Rightarrow> tq_block_q80 list \<Rightarrow> nat \<Rightarrow> nat \<Rightarrow> 'c tq_store \<Rightarrow> f32 list
     \<Rightarrow> (tq_status \<times> 'c tq_store \<times> f32 list) option" where
  "matvec_tiles w_off dtype row_bytes nb d xq rows_per_tile i st out =
     (if i \<ge> d then Some (TQ_OK, st, out)
      else let chunk = (if d - i > rows_per_tile then rows_per_tile else d - i)
           in case tq_store_view st (w_off + row_bytes * of_nat i) (ucast (row_bytes * of_nat chunk)) of
                (st', None) \<Rightarrow> Some (TQ_ERR_IO, st', out)
              | (st', Some p) \<Rightarrow>
                 (case matvec_rows dtype (unat row_bytes) nb xq p i chunk out of
                    None \<Rightarrow> Some (TQ_ERR_UNSUPPORTED, st', out)
                  | Some out' \<Rightarrow> matvec_tiles w_off dtype row_bytes nb d xq rows_per_tile (i + chunk) st' out'))"

text \<open>
  \<^verbatim>\<open>tq_matvec\<close> on the fields of the runtime that it uses: the store and the byte counter.
\<close>

definition tq_matvec ::
  "'c tq_store \<Rightarrow> u64 \<Rightarrow> f32 list \<Rightarrow> u64 \<Rightarrow> u32 \<Rightarrow> nat \<Rightarrow> nat \<Rightarrow> tq_block_q80 list
     \<Rightarrow> (tq_status \<times> 'c tq_store \<times> u64 \<times> f32 list) option" where
  "tq_matvec st bytes_read out w_off dtype n d xq =
     (let row_bytes = tq_dtype_nbytes dtype (of_nat n);
          nb = n div TQ_GROUP_SIZE
      in if row_bytes = 0 \<or> n mod TQ_GROUP_SIZE \<noteq> 0 then Some (TQ_ERR_SHAPE, st, bytes_read, out)
         else let bytes_read = bytes_read + row_bytes * of_nat d
              in case st_base st of
                   Some base \<Rightarrow>
                     if w_off + row_bytes * of_nat d > st_bytes st then Some (TQ_ERR_TRUNCATED, st, bytes_read, out)
                     else (case (if dtype = TQ_DT_Q4_0 \<or> dtype = TQ_DT_Q8_0
                                 then matvec_rows dtype (unat row_bytes) nb xq (drop (unat w_off) base) 0 d out
                                 else None) of
                             None \<Rightarrow> Some (TQ_ERR_UNSUPPORTED, st, bytes_read, out)
                           | Some out' \<Rightarrow> Some (TQ_OK, st, bytes_read, out'))
                 | None \<Rightarrow>
                     if ucast (st_tile_bytes st) < row_bytes then Some (TQ_ERR_NOMEM, st, bytes_read, out)
                     else map_option (\<lambda>(rc, st', out'). (rc, st', bytes_read, out'))
                            (matvec_tiles w_off dtype row_bytes nb d xq
                               (unat (ucast (st_tile_bytes st) div row_bytes)) 0 st out))"

definition tq_row_to_float ::
  "'c tq_store \<Rightarrow> u64 \<Rightarrow> u32 \<Rightarrow> nat \<Rightarrow> nat \<Rightarrow> f32 list \<Rightarrow> tq_status \<times> 'c tq_store \<times> f32 list" where
  "tq_row_to_float st base_off dtype n row out =
     (let row_bytes = tq_dtype_nbytes dtype (of_nat n)
      in if row_bytes = 0 then (TQ_ERR_SHAPE, st, out)
         else case tq_store_view st (base_off + row_bytes * of_nat row) (ucast row_bytes) of
                (st', None) \<Rightarrow> (TQ_ERR_IO, st', out)
              | (st', Some p) \<Rightarrow> (TQ_OK, st', tq_dequantize p dtype out n))"

section \<open>Status texts\<close>

definition tq_strerror :: "int \<Rightarrow> string" where
  "tq_strerror status =
     (if status = status_code TQ_OK then ''ok''
      else if status = status_code TQ_ERR_MAGIC then ''not an .etq file''
      else if status = status_code TQ_ERR_VERSION then ''unsupported .etq version''
      else if status = status_code TQ_ERR_TRUNCATED then ''file truncated''
      else if status = status_code TQ_ERR_UNSUPPORTED then ''unsupported architecture or dtype''
      else if status = status_code TQ_ERR_MISSING then ''required tensor missing''
      else if status = status_code TQ_ERR_SHAPE then ''tensor shape mismatch''
      else if status = status_code TQ_ERR_NOMEM then ''arena too small''
      else if status = status_code TQ_ERR_IO then ''backing store read failed''
      else if status = status_code TQ_ERR_RANGE then ''argument out of range''
      else ''unknown error'')"

section \<open>What reading promises\<close>

text \<open>
  A source of weights shows an image: a view inside the image whose size is within the limit
  succeeds and its bytes are those of the image, and the source still shows it afterwards; a
  view beyond the image fails and changes nothing.
\<close>

locale weight_source =
  fixes view :: "'s \<Rightarrow> u64 \<Rightarrow> u32 \<Rightarrow> 's \<times> u8 list option"
    and shows_it :: "'s \<Rightarrow> bool"
    and img :: "u8 list"
    and limit :: nat
  assumes small: "shows_it s \<Longrightarrow> length img < 2 ^ 64"
    and inside: "shows_it s \<Longrightarrow> unat off + unat n \<le> length img \<Longrightarrow> unat n \<le> limit
      \<Longrightarrow> \<exists>s' p. view s off n = (s', Some p) \<and> shows_it s' \<and> unat n \<le> length p
            \<and> take (unat n) p = take (unat n) (drop (unat off) img)"
    and outside: "shows_it s \<Longrightarrow> length img < unat off + unat n \<Longrightarrow> unat off + unat n < 2 ^ 64
      \<Longrightarrow> view s off n = (s, None)"
begin

lemma view_nth:
  assumes "shows_it s" and "unat off + unat n \<le> length img" and "unat n \<le> limit"
  obtains s' p where "view s off n = (s', Some p)" and "shows_it s'" and "unat n \<le> length p"
    and "\<And>j. j < unat n \<Longrightarrow> p ! j = img ! (unat off + j)"
proof -
  obtain s' p where v: "view s off n = (s', Some p)" "shows_it s'" "unat n \<le> length p"
    "take (unat n) p = take (unat n) (drop (unat off) img)"
    using inside [OF assms] by blast
  have "p ! j = img ! (unat off + j)" if "j < unat n" for j
  proof -
    have "p ! j = take (unat n) p ! j" using that v(3) by simp
    also have "\<dots> = img ! (unat off + j)" unfolding v(4) using that assms(2) by simp
    finally show ?thesis .
  qed
  with v that show thesis by blast
qed

lemma view_words:
  assumes "shows_it s" and "unat off + unat n \<le> length img" and "unat n \<le> limit"
  obtains s' p where "view s off n = (s', Some p)" and "shows_it s'"
    and "\<And>j. j + 4 \<le> unat n \<Longrightarrow> le32 p j = le32 img (unat off + j)"
proof -
  obtain s' p where v: "view s off n = (s', Some p)" "shows_it s'"
    "\<And>j. j < unat n \<Longrightarrow> p ! j = img ! (unat off + j)"
    using view_nth [OF assms] by blast
  have "le32 p j = le32 img (unat off + j)" if "j + 4 \<le> unat n" for j
    using that by (simp add: le32_def v(3) add.assoc)
  with v that show thesis by blast
qed

text \<open>Failing is decided by the range alone, whatever was viewed before.\<close>

lemma view_fails_iff:
  assumes "shows_it s" and "unat n \<le> limit" and "unat off + unat n < 2 ^ 64"
  shows "snd (view s off n) = None \<longleftrightarrow> length img < unat off + unat n"
  using inside [OF assms(1) _ assms(2), of off] outside [OF assms(1) _ assms(3)]
  by (cases "length img < unat off + unat n") (auto simp: not_less)

end

text \<open>
  A mapped store shows its image. A streaming store shows an image when its callback is
  honest: it delivers the bytes asked for from any context it can be in.
\<close>

definition honest_read ::
  "('c option \<Rightarrow> u64 \<Rightarrow> u32 \<Rightarrow> 'c option \<times> int \<times> u8 list) \<Rightarrow> ('c option \<Rightarrow> bool) \<Rightarrow> u8 list \<Rightarrow> bool" where
  "honest_read rd P img \<longleftrightarrow>
     (\<forall>c off n. P c \<longrightarrow> unat off + unat n \<le> length img \<longrightarrow>
        (\<exists>c'. rd c off n = (c', 0, take (unat n) (drop (unat off) img)) \<and> P c'))"

definition store_mapped :: "u8 list \<Rightarrow> 'c tq_store \<Rightarrow> bool" where
  "store_mapped img st \<longleftrightarrow> st_base st = Some img \<and> unat (st_bytes st) = length img"

definition store_streams :: "u8 list \<Rightarrow> nat \<Rightarrow> 'c tq_store \<Rightarrow> bool" where
  "store_streams img lmt st \<longleftrightarrow>
     st_base st = None \<and> unat (st_bytes st) = length img \<and> unat (st_tile_bytes st) = lmt \<and>
     (\<exists>rd P tile. st_read st = Some rd \<and> honest_read rd P img \<and> P (st_ctx st)
        \<and> st_tile st = Some tile \<and> length tile = lmt)"

definition store_shows :: "u8 list \<Rightarrow> nat \<Rightarrow> 'c tq_store \<Rightarrow> bool" where
  "store_shows img lmt st \<longleftrightarrow> store_mapped img st \<or> store_streams img lmt st"

lemma view_guard:
  assumes "unat bytes = L" and "unat (off :: u64) + unat (n :: u32) < 2 ^ 64"
  shows "off + ucast n > (bytes :: u64) \<longleftrightarrow> L < unat off + unat n"
proof -
  have "unat (ucast n :: u64) = unat n" using unat_bound [of n] by (simp add: unat_ucast_mod)
  then have "unat (off + ucast n) = unat off + unat n"
    using assms(2) by (simp add: unat_word_ariths)
  then show ?thesis using assms(1) by (simp add: word_less_nat_alt)
qed

lemma store_view_mapped:
  assumes "store_mapped img st" and "unat off + unat n \<le> length img"
  shows "tq_store_view st off n = (st, Some (drop (unat off) img))"
proof -
  have b: "unat (st_bytes st) = length img" "st_base st = Some img" using assms(1) by (auto simp: store_mapped_def)
  then have "unat off + unat n < 2 ^ 64" using assms(2) unat_bound [of "st_bytes st"] by simp
  with view_guard [OF b(1) this] assms(2) b show ?thesis by (simp add: tq_store_view_def)
qed

lemma store_view_streams:
  assumes "store_streams img lmt st" and "unat off + unat n \<le> length img" and "unat n \<le> lmt"
  shows "\<exists>st' p. tq_store_view st off n = (st', Some p) \<and> store_streams img lmt st' \<and> unat n \<le> length p
    \<and> take (unat n) p = take (unat n) (drop (unat off) img)"
proof -
  obtain rd P tile where s: "st_base st = None" "unat (st_bytes st) = length img" "unat (st_tile_bytes st) = lmt"
    "st_read st = Some rd" "honest_read rd P img" "P (st_ctx st)" "st_tile st = Some tile" "length tile = lmt"
    using assms(1) by (auto simp: store_streams_def)
  have "unat off + unat n < 2 ^ 64" using assms(2) s(2) unat_bound [of "st_bytes st"] by simp
  then have g: "\<not> off + ucast n > st_bytes st" using view_guard [OF s(2)] assms(2) by simp
  obtain c' where r: "rd (st_ctx st) off n = (c', 0, take (unat n) (drop (unat off) img))" "P c'"
    using s(5) [unfolded honest_read_def, rule_format, OF s(6) assms(2)] by blast
  have "\<not> n > st_tile_bytes st" using assms(3) s(3) by (simp add: word_less_nat_alt)
  then have v: "tq_store_view st off n =
      (st\<lparr>st_ctx := c', st_tile := Some (take (unat n) (drop (unat off) img) @ drop (unat n) tile)\<rparr>,
       Some (take (unat n) (drop (unat off) img) @ drop (unat n) tile))"
    using g s r assms(2) by (simp add: tq_store_view_def Let_def min_absorb2)
  have "length (take (unat n) (drop (unat off) img) @ drop (unat n) tile) = lmt"
    using assms(2,3) s(8) by simp
  then have "store_streams img lmt (st\<lparr>st_ctx := c', st_tile := Some (take (unat n) (drop (unat off) img) @ drop (unat n) tile)\<rparr>)"
    using s r(2) by (auto simp: store_streams_def)
  then show ?thesis unfolding v using assms(2,3) s(8) by simp
qed

interpretation store: weight_source tq_store_view "store_shows img lmt" img lmt
  for img :: "u8 list" and lmt
proof
  fix s :: "'a tq_store" assume "store_shows img lmt s"
  then have "unat (st_bytes s) = length img" by (auto simp: store_shows_def store_mapped_def store_streams_def)
  then show "length img < 2 ^ 64" using unat_bound [of "st_bytes s"] by simp
next
  fix s :: "'a tq_store" and off :: u64 and n :: u32
  assume s: "store_shows img lmt s" and i: "unat off + unat n \<le> length img" and l: "unat n \<le> lmt"
  show "\<exists>s' p. tq_store_view s off n = (s', Some p) \<and> store_shows img lmt s' \<and> unat n \<le> length p
          \<and> take (unat n) p = take (unat n) (drop (unat off) img)"
  proof (cases "store_mapped img s")
    case True
    then show ?thesis using store_view_mapped [OF True i] i by (simp add: store_shows_def)
  next
    case False
    then have "store_streams img lmt s" using s by (simp add: store_shows_def)
    from store_view_streams [OF this i l] show ?thesis by (auto simp: store_shows_def)
  qed
next
  fix s :: "'a tq_store" and off :: u64 and n :: u32
  assume s: "store_shows img lmt s" and o: "length img < unat off + unat n" "unat off + unat n < 2 ^ 64"
  then have "unat (st_bytes s) = length img" by (auto simp: store_shows_def store_mapped_def store_streams_def)
  from view_guard [OF this o(2)] o(1) show "tq_store_view s off n = (s, None)" by (simp add: tq_store_view_def)
qed

lemma store_init_shows:
  assumes "length img < 2 ^ 64"
  shows "store_shows img lmt (tq_store_init_mapped img (of_nat (length img)))"
    and "honest_read rd P img \<Longrightarrow> P ctx \<Longrightarrow> length tile = unat tb \<Longrightarrow>
      store_shows img (unat tb) (tq_store_init_stream (of_nat (length img)) rd ctx tile tb)"
  using assms by (auto simp: store_shows_def store_mapped_def store_streams_def tq_store_init_mapped_def
      tq_store_init_stream_def take_bit_nat_eq_self unsigned_of_nat)

section \<open>Rows\<close>

definition block_bytes :: "u32 \<Rightarrow> nat" where
  "block_bytes dtype = (if dtype = TQ_DT_Q4_0 then 18 else if dtype = TQ_DT_Q8_0 then 34 else 0)"

lemma q40_at_cong:
  assumes "\<And>j. j < 18 \<Longrightarrow> p ! (b * 18 + j) = p' ! (b * 18 + j)"
  shows "q40_at p b = q40_at p' b"
proof -
  have "le16 p (b * 18) = le16 p' (b * 18)" using assms [of 0] assms [of 1] by (simp add: le16_def)
  moreover have "map (\<lambda>j. p ! (b * 18 + 2 + j)) [0..<16] = map (\<lambda>j. p' ! (b * 18 + 2 + j)) [0..<16]"
  proof (intro map_cong refl)
    fix j assume "j \<in> set [0..<(16 :: nat)]"
    then have "2 + j < 18" by simp
    from assms [OF this] show "p ! (b * 18 + 2 + j) = p' ! (b * 18 + 2 + j)" by (simp only: add.assoc)
  qed
  ultimately show ?thesis by (simp only: q40_at_def)
qed

lemma q80_at_cong:
  assumes "\<And>j. j < 34 \<Longrightarrow> p ! (b * 34 + j) = p' ! (b * 34 + j)"
  shows "q80_at p b = q80_at p' b"
proof -
  have "le16 p (b * 34) = le16 p' (b * 34)" using assms [of 0] assms [of 1] by (simp add: le16_def)
  moreover have "map (\<lambda>j. p ! (b * 34 + 2 + j)) [0..<32] = map (\<lambda>j. p' ! (b * 34 + 2 + j)) [0..<32]"
  proof (intro map_cong refl)
    fix j assume "j \<in> set [0..<(32 :: nat)]"
    then have "2 + j < 34" by simp
    from assms [OF this] show "p ! (b * 34 + 2 + j) = p' ! (b * 34 + 2 + j)" by (simp only: add.assoc)
  qed
  ultimately show ?thesis by (simp only: q80_at_def)
qed

lemma row_dot_cong:
  assumes "\<And>j. j < nb * block_bytes dtype \<Longrightarrow> p ! j = p' ! j"
  shows "row_dot dtype p xq nb = row_dot dtype p' xq nb"
proof -
  have j: "b * k + j < nb * k" if "b < nb" "j < k" for b j k :: nat
  proof -
    have "b * k + j < Suc b * k" using that by simp
    also have "\<dots> \<le> nb * k" using that by (intro mult_right_mono) simp_all
    finally show ?thesis .
  qed
  have a: "map (q40_at p) [0..<nb] = map (q40_at p') [0..<nb]" if "dtype = TQ_DT_Q4_0"
    using that assms j [of _ _ 18] by (auto intro!: q40_at_cong simp: block_bytes_def)
  have b: "map (q80_at p) [0..<nb] = map (q80_at p') [0..<nb]" if "dtype = TQ_DT_Q8_0" "dtype \<noteq> TQ_DT_Q4_0"
    using that assms j [of _ _ 34] by (auto intro!: q80_at_cong simp: block_bytes_def)
  show ?thesis unfolding row_dot_def by (cases "dtype = TQ_DT_Q4_0"; cases "dtype = TQ_DT_Q8_0") (simp_all only: a b if_True if_False simp_thms)
qed

lemma run_updates:
  assumes "\<And>r. r < count \<Longrightarrow> f r = Some (g (i + r))" and "i + count \<le> length out"
  shows "run_steps (\<lambda>out r. map_option (\<lambda>v. out[i + r := v]) (f r)) [0..<count] out
    = Some (take i out @ map g [i..<i + count] @ drop (i + count) out)"
  using assms
proof (induction count)
  case (Suc c)
  have l: "length (take i out) = i" using Suc.prems(2) by simp
  have d: "drop (i + c) out = out ! (i + c) # drop (Suc (i + c)) out" using Suc.prems(2) by (simp add: Cons_nth_drop_Suc)
  show ?case using Suc l d by (simp add: run_steps_append list_update_append)
qed simp

lemma matvec_rows_value:
  assumes "\<And>r. r < count \<Longrightarrow> row_dot dtype (drop (r * rb) p) xq nb = Some (g (i + r))"
    and "i + count \<le> length out"
  shows "matvec_rows dtype rb nb xq p i count out = Some (take i out @ map g [i..<i + count] @ drop (i + count) out)"
  unfolding matvec_rows_def
  by (rule run_updates [where f = "\<lambda>r. row_dot dtype (drop (r * rb) p) xq nb" and g = g]) (use assms in simp_all)

lemma matvec_rows_unsupported:
  assumes "0 < count" and "dtype \<noteq> TQ_DT_Q4_0" and "dtype \<noteq> TQ_DT_Q8_0"
  shows "matvec_rows dtype rb nb xq p i count out = None"
  using assms by (cases count) (simp_all add: matvec_rows_def row_dot_def upt_rec)

section \<open>The product, independent of the store\<close>

text \<open>The specification: row \<open>i\<close> of the result is the dot product with row \<open>i\<close> of the image.\<close>

definition row_value :: "u32 \<Rightarrow> u8 list \<Rightarrow> nat \<Rightarrow> tq_block_q80 list \<Rightarrow> nat \<Rightarrow> f32" where
  "row_value dtype img off xq nb =
     (if dtype = TQ_DT_Q4_0 then tq_dot_q40_q80 (map (q40_at (drop off img)) [0..<nb]) xq nb
      else tq_dot_q80_q80 (map (q80_at (drop off img)) [0..<nb]) xq nb)"

definition quantized :: "u32 \<Rightarrow> bool" where
  "quantized dtype \<longleftrightarrow> dtype = TQ_DT_Q4_0 \<or> dtype = TQ_DT_Q8_0"

lemma row_dot_value: "quantized dtype \<Longrightarrow> row_dot dtype (drop off img) xq nb = Some (row_value dtype img off xq nb)"
  by (auto simp: quantized_def row_dot_def row_value_def)

lemma dtype_nbytes_quantized:
  assumes "quantized dtype" and "n mod 32 = 0" and "n < 2 ^ 31"
  shows "unat (tq_dtype_nbytes dtype (of_nat n)) = n div 32 * block_bytes dtype"
proof -
  have n: "unat (of_nat n :: u64) = n" using assms(3) by (simp add: unsigned_of_nat take_bit_nat_eq_self)
  have m: "(of_nat n :: u64) mod 32 = 0" using assms(2) n by (simp add: unat_eq_0 [symmetric] unat_mod)
  have q: "unat ((of_nat n :: u64) div 32) = n div 32" using n by (simp add: unat_div)
  have b: "n div 32 * 34 < 2 ^ 64" "n div 32 * 18 < 2 ^ 64" using assms(3) by simp_all
  show ?thesis using assms(1) m q b
    by (auto simp: tq_dtype_nbytes_def quantized_def block_bytes_def dtypes TQ_GROUP_SIZE_def unat_word_ariths)
qed

lemma block_bytes_pos: "quantized dtype \<Longrightarrow> 0 < block_bytes dtype"
  by (auto simp: quantized_def block_bytes_def)


lemma unat_offset:
  assumes "unat (w :: u64) + unat (rb :: u64) * d < 2 ^ 64" and "0 < unat rb"
  shows "unat (w + rb * of_nat d) = unat w + unat rb * d"
proof -
  have "d \<le> unat rb * d" using assms(2) by simp
  then have "d < 2 ^ 64" using assms(1) by linarith
  then have "unat (of_nat d :: u64) = d" by (simp add: unsigned_of_nat take_bit_nat_eq_self)
  then show ?thesis using assms(1) by (simp add: unat_word_ariths)
qed

lemma unat_tile_size:
  assumes "unat (rb :: u64) * c \<le> L" and "L < 2 ^ 32" and "0 < unat rb"
  shows "unat (ucast (rb * of_nat c) :: u32) = unat rb * c"
proof -
  have b: "unat rb * c < 2 ^ 32" using assms(1,2) by (rule le_less_trans)
  have "unat (rb * of_nat c) = unat rb * c" using unat_offset [of 0 rb c] b assms(3) by simp
  then show ?thesis using b by (simp add: unat_ucast_mod)
qed

lemma row_range:
  fixes r c d i rb :: nat
  assumes "r < c" and "i + c \<le> d" and "w + rb * d \<le> L"
  shows "r * rb + rb \<le> rb * c" and "w + (i + r) * rb + rb \<le> L"
proof -
  have "Suc r * rb \<le> c * rb" using assms(1) by (intro mult_right_mono) simp_all
  then show "r * rb + rb \<le> rb * c" by (simp add: mult.commute)
  have "Suc (i + r) * rb \<le> d * rb" using assms(1,2) by (intro mult_right_mono) simp_all
  then show "w + (i + r) * rb + rb \<le> L" using assms(3) by (simp add: mult.commute)
qed

lemma tiles_value:
  assumes s: "store_shows img lmt st" and q: "quantized dtype"
    and rb: "unat rb = nb * block_bytes dtype" "0 < unat rb" and rpt: "0 < rpt" "rpt * unat rb \<le> lmt"
    and lmt: "lmt < 2 ^ 32" and fits: "unat w + unat rb * d \<le> length img" and d: "d \<le> length out"
    and i: "i \<le> d" "take i out = map (\<lambda>i. row_value dtype img (unat w + i * unat rb) xq nb) [0..<i]"
  shows "\<exists>st'. matvec_tiles w dtype rb nb d xq rpt i st out =
      Some (TQ_OK, st', map (\<lambda>i. row_value dtype img (unat w + i * unat rb) xq nb) [0..<d] @ drop d out)
    \<and> store_shows img lmt st'"
  using s d i
proof (induction "d - i" arbitrary: i st out rule: less_induct)
  case less
  let ?g = "\<lambda>i. row_value dtype img (unat w + i * unat rb) xq nb"
  have L: "length img < 2 ^ 64" using store.small [OF less.prems(1)] .
  show ?case
  proof (cases "i = d")
    case True
    have "out = map ?g [0..<d] @ drop d out" using less.prems(4) append_take_drop_id [of d out] by (simp only: True)
    then show ?thesis using less.prems(1) by (subst matvec_tiles.simps) (simp add: True)
  next
    case False
    define chunk where "chunk = (if d - i > rpt then rpt else d - i)"
    have ni: "\<not> d \<le> i" using False less.prems(3) by simp
    have c: "0 < chunk" "chunk \<le> rpt" "i + chunk \<le> d" using False less.prems(3) rpt(1) by (auto simp: chunk_def)
    have "chunk * unat rb \<le> rpt * unat rb" using c(2) by (rule mult_right_mono) simp
    then have cb: "unat rb * chunk \<le> lmt" unfolding mult.commute [of "unat rb" chunk] using rpt(2) by (rule order_trans)
    have ib: "unat rb * i + unat rb * chunk \<le> unat rb * d"
      unfolding add_mult_distrib2 [symmetric] using c(3) by (rule mult_left_mono) simp
    then have wi: "unat w + unat rb * i < 2 ^ 64" using fits L by linarith
    note o = unat_offset [OF wi rb(2)] and n = unat_tile_size [OF cb lmt rb(2)]
    have fit: "unat (w + rb * of_nat i) + unat (ucast (rb * of_nat chunk) :: u32) \<le> length img"
      unfolding o n using ib fits by linarith
    obtain st1 p where v: "tq_store_view st (w + rb * of_nat i) (ucast (rb * of_nat chunk)) = (st1, Some p)"
      "store_shows img lmt st1" "unat rb * chunk \<le> length p"
      "\<And>j. j < unat rb * chunk \<Longrightarrow> p ! j = img ! (unat w + unat rb * i + j)"
      using store.view_nth [OF less.prems(1) fit] cb unfolding o n by blast
    have rows: "row_dot dtype (drop (r * unat rb) p) xq nb = Some (?g (i + r))" if r: "r < chunk" for r
    proof -
      note rr = row_range [OF r c(3) fits]
      have e: "(i + r) * unat rb = unat rb * i + r * unat rb" by (simp add: algebra_simps)
      have "row_dot dtype (drop (r * unat rb) p) xq nb = row_dot dtype (drop (unat w + (i + r) * unat rb) img) xq nb"
      proof (rule row_dot_cong)
        fix j assume "j < nb * block_bytes dtype"
        then have j: "j < unat rb" using rb(1) by simp
        have "drop (r * unat rb) p ! j = p ! (r * unat rb + j)" using rr(1) v(3) by simp
        also have "\<dots> = img ! (unat w + unat rb * i + (r * unat rb + j))" using j rr(1) by (intro v(4)) linarith
        also have "\<dots> = img ! (unat w + (i + r) * unat rb + j)" unfolding e by (simp only: add.assoc)
        also have "\<dots> = drop (unat w + (i + r) * unat rb) img ! j" using rr(2) by simp
        finally show "drop (r * unat rb) p ! j = drop (unat w + (i + r) * unat rb) img ! j" .
      qed
      then show ?thesis using row_dot_value [OF q] by simp
    qed
    have mr: "matvec_rows dtype (unat rb) nb xq p i chunk out =
        Some (take i out @ map ?g [i..<i + chunk] @ drop (i + chunk) out)"
    proof (rule matvec_rows_value)
      show "row_dot dtype (drop (r * unat rb) p) xq nb = Some (?g (i + r))" if "r < chunk" for r by (rule rows [OF that])
      show "i + chunk \<le> length out" using c(3) less.prems(2) by simp
    qed
    have tk: "take i out @ map ?g [i..<i + chunk] = map ?g [0..<i + chunk]"
      unfolding less.prems(4) map_append [symmetric] by (simp only: upt_add_eq_append [of 0 i chunk, OF le0])
    have out: "take i out @ map ?g [i..<i + chunk] @ drop (i + chunk) out = map ?g [0..<i + chunk] @ drop (i + chunk) out"
      unfolding append_assoc [symmetric] tk ..
    have "\<exists>st'. matvec_tiles w dtype rb nb d xq rpt (i + chunk) st1 (map ?g [0..<i + chunk] @ drop (i + chunk) out) =
        Some (TQ_OK, st', map ?g [0..<d] @ drop d (map ?g [0..<i + chunk] @ drop (i + chunk) out)) \<and> store_shows img lmt st'"
    proof (rule less.hyps)
      show "d - (i + chunk) < d - i" using c by simp
      show "d \<le> length (map ?g [0..<i + chunk] @ drop (i + chunk) out)" using less.prems(2) c(3) by simp
      show "take (i + chunk) (map ?g [0..<i + chunk] @ drop (i + chunk) out) = map ?g [0..<i + chunk]" by simp
    qed (use v(2) c(3) in simp_all)
    moreover have "drop d (map ?g [0..<i + chunk] @ drop (i + chunk) out) = drop d out" using c(3) by simp
    moreover have "matvec_tiles w dtype rb nb d xq rpt i st out =
        matvec_tiles w dtype rb nb d xq rpt (i + chunk) st1 (map ?g [0..<i + chunk] @ drop (i + chunk) out)"
      unfolding matvec_tiles.simps [of w dtype rb nb d xq rpt i st out] if_not_P [OF ni] chunk_def [symmetric] Let_def
        v(1) prod.case option.case mr out ..
    ultimately show ?thesis by simp
  qed
qed

section \<open>Dequantization\<close>

text \<open>The weight that element \<open>k\<close> of a row stands for.\<close>

definition weight_at :: "u8 list \<Rightarrow> u32 \<Rightarrow> nat \<Rightarrow> f32" where
  "weight_at blocks dtype k =
     (if dtype = TQ_DT_Q8_0 then
        let w = q80_at blocks (k div 32) in f32_mul (f32_of_int (sint (q80_qs w ! (k mod 32)))) (tq_half_to_float (q80_d w))
      else if dtype = TQ_DT_Q4_0 then
        let w = q40_at blocks (k div 32); byte = q40_qs w ! (k mod 16);
            nibble = (if k mod 32 < 16 then uint (byte AND 0x0F) else uint (drop_bit 4 byte))
        in f32_mul (f32_of_int (nibble - 8)) (tq_half_to_float (q40_d w))
      else le32 blocks (4 * k))"

lemma foldl_blocks:
  assumes step: "\<And>out b. b < nb \<Longrightarrow> nb * 32 \<le> length out \<Longrightarrow> length (f out b) = length out \<and>
      (\<forall>k < length out. f out b ! k = (if k div 32 = b then g k else out ! k))"
    and "nb * 32 \<le> length out"
  shows "foldl f out [0..<nb] = map g [0..<nb * 32] @ drop (nb * 32) out"
proof -
  have "length (foldl f out [0..<m]) = length out \<and>
      (\<forall>k < length out. foldl f out [0..<m] ! k = (if k div 32 < m then g k else out ! k))" if "m \<le> nb" for m
    using that
  proof (induction m)
    case (Suc m)
    have IH: "length (foldl f out [0..<m]) = length out"
      "\<And>k. k < length out \<Longrightarrow> foldl f out [0..<m] ! k = (if k div 32 < m then g k else out ! k)"
      using Suc by auto
    have s: "length (f (foldl f out [0..<m]) m) = length out"
      "\<And>k. k < length out \<Longrightarrow> f (foldl f out [0..<m]) m ! k = (if k div 32 = m then g k else foldl f out [0..<m] ! k)"
      using step [of m "foldl f out [0..<m]"] Suc.prems assms(2) IH(1) by auto
    show ?case using s IH(2) by auto
  qed simp
  from this [of nb] have r: "length (foldl f out [0..<nb]) = length out"
    "\<And>k. k < length out \<Longrightarrow> foldl f out [0..<nb] ! k = (if k div 32 < nb then g k else out ! k)" by auto
  show ?thesis
  proof (rule nth_equalityI)
    show "length (foldl f out [0..<nb]) = length (map g [0..<nb * 32] @ drop (nb * 32) out)"
      using r(1) assms(2) by simp
    fix k assume "k < length (foldl f out [0..<nb])"
    then have k: "k < length out" using r(1) by simp
    have "k div 32 < nb \<longleftrightarrow> k < nb * 32" by (simp add: div_less_iff_less_mult)
    then show "foldl f out [0..<nb] ! k = (map g [0..<nb * 32] @ drop (nb * 32) out) ! k"
      using r(2) [OF k] k assms(2) by (auto simp: nth_append)
  qed
qed

lemma q80_block_loop:
  assumes "nb * 32 \<le> length out" and "b < nb"
  shows "length (foldl (\<lambda>out j. out[b * 32 + j := h j]) out [0..<32]) = length out \<and>
    (\<forall>k < length out. foldl (\<lambda>out j. out[b * 32 + j := h j]) out [0..<32] ! k
        = (if k div 32 = b then h (k mod 32) else out ! k))"
proof -
  have bl: "b * 32 + 32 \<le> length out" using assms by simp
  have "length (foldl (\<lambda>out j. out[b * 32 + j := h j]) out [0..<m]) = length out \<and>
      (\<forall>k < length out. foldl (\<lambda>out j. out[b * 32 + j := h j]) out [0..<m] ! k
        = (if b * 32 \<le> k \<and> k < b * 32 + m then h (k - b * 32) else out ! k))" if "m \<le> 32" for m
    using that
  proof (induction m)
    case (Suc m)
    then show ?case using bl by (auto simp: nth_list_update)
  qed auto
  from this [of 32] have r: "length (foldl (\<lambda>out j. out[b * 32 + j := h j]) out [0..<32]) = length out"
    "\<And>k. k < length out \<Longrightarrow> foldl (\<lambda>out j. out[b * 32 + j := h j]) out [0..<32] ! k
        = (if b * 32 \<le> k \<and> k < b * 32 + 32 then h (k - b * 32) else out ! k)" by auto
  have "b * 32 \<le> k \<and> k < b * 32 + 32 \<longleftrightarrow> k div 32 = b" for k :: nat
    by (auto intro!: div_nat_eqI simp: mult.commute)
  moreover have "k - k div 32 * 32 = k mod 32" for k :: nat by (simp add: minus_div_mult_eq_mod)
  ultimately show ?thesis using r by auto
qed

lemma half_block:
  fixes b k :: nat
  shows "b * 32 \<le> k \<and> k < b * 32 + 16 \<longleftrightarrow> k div 32 = b \<and> k mod 32 < 16"
    and "b * 32 + 16 \<le> k \<and> k < b * 32 + 16 + 16 \<longleftrightarrow> k div 32 = b \<and> \<not> k mod 32 < 16"
    and "k mod 32 < 16 \<Longrightarrow> k - k div 32 * 32 = k mod 16"
    and "\<not> k mod 32 < 16 \<Longrightarrow> k - (k div 32 * 32 + 16) = k mod 16"
proof -
  define q r where "q = k div 32" and "r = k mod 32"
  have k: "k = q * 32 + r" "r < 32" by (simp_all add: q_def r_def)
  have m: "k mod 16 = r mod 16" unfolding r_def by (simp add: mod_mod_cancel)
  show "b * 32 \<le> k \<and> k < b * 32 + 16 \<longleftrightarrow> k div 32 = b \<and> k mod 32 < 16"
    unfolding q_def [symmetric] r_def [symmetric] using k by (cases q b rule: linorder_cases) auto
  show "b * 32 + 16 \<le> k \<and> k < b * 32 + 16 + 16 \<longleftrightarrow> k div 32 = b \<and> \<not> k mod 32 < 16"
    unfolding q_def [symmetric] r_def [symmetric] using k by (cases q b rule: linorder_cases) auto
  show "k - k div 32 * 32 = k mod 16" if "k mod 32 < 16"
    unfolding m q_def [symmetric] using k that by (simp add: r_def [symmetric])
  show "k - (k div 32 * 32 + 16) = k mod 16" if "\<not> k mod 32 < 16"
  proof -
    have "16 \<le> r" using that unfolding r_def by simp
    then have "r mod 16 = r - 16" using k(2) by (simp add: mod_if)
    then show ?thesis unfolding m q_def [symmetric] using k by simp
  qed
qed

lemma q40_block_loop:
  assumes "nb * 32 \<le> length out" and "b < nb"
  shows "length (foldl (\<lambda>out j. out[b * 32 + j := h j, b * 32 + j + 16 := g j]) out [0..<16]) = length out \<and>
    (\<forall>k < length out. foldl (\<lambda>out j. out[b * 32 + j := h j, b * 32 + j + 16 := g j]) out [0..<16] ! k
        = (if k div 32 = b then if k mod 32 < 16 then h (k mod 16) else g (k mod 16) else out ! k))"
proof -
  have bl: "b * 32 + 32 \<le> length out" using assms by simp
  let ?F = "\<lambda>m. foldl (\<lambda>out j. out[b * 32 + j := h j, b * 32 + j + 16 := g j]) out [0..<m]"
  have "length (?F m) = length out \<and> (\<forall>k < length out. ?F m ! k
        = (if b * 32 \<le> k \<and> k < b * 32 + m then h (k - b * 32)
           else if b * 32 + 16 \<le> k \<and> k < b * 32 + 16 + m then g (k - (b * 32 + 16)) else out ! k))" if "m \<le> 16" for m
    using that
  proof (induction m)
    case (Suc m)
    then show ?case using bl by (auto simp: nth_list_update)
  qed auto
  from this [of 16] have r: "length (?F 16) = length out"
    "\<And>k. k < length out \<Longrightarrow> ?F 16 ! k = (if b * 32 \<le> k \<and> k < b * 32 + 16 then h (k - b * 32)
           else if b * 32 + 16 \<le> k \<and> k < b * 32 + 16 + 16 then g (k - (b * 32 + 16)) else out ! k)" by auto
  show ?thesis
  proof (intro conjI allI impI)
    show "length (?F 16) = length out" by (rule r(1))
    fix k assume k: "k < length out"
    show "?F 16 ! k = (if k div 32 = b then if k mod 32 < 16 then h (k mod 16) else g (k mod 16) else out ! k)"
      unfolding r(2) [OF k] half_block(1,2) [of b k] using half_block(3,4) [of k] by auto
  qed
qed

lemma dequantize_value:
  assumes "quantized dtype" and "n mod 32 = 0" and "n \<le> length out"
  shows "tq_dequantize blocks dtype out n = map (weight_at blocks dtype) [0..<n] @ drop n out"
proof -
  have n: "n div 32 * 32 = n" using assms(2) by auto
  have a: "n div 32 * 32 \<le> length out" using assms(3) n by simp
  show ?thesis
  proof (cases "dtype = TQ_DT_Q8_0")
    case True
    let ?h = "\<lambda>b j. f32_mul (f32_of_int (sint (q80_qs (q80_at blocks b) ! j))) (tq_half_to_float (q80_d (q80_at blocks b)))"
    have w: "weight_at blocks TQ_DT_Q8_0 k = ?h (k div 32) (k mod 32)" for k by (simp add: weight_at_def Let_def)
    have "foldl (\<lambda>out b. foldl (\<lambda>out j. out[b * 32 + j := ?h b j]) out [0..<32]) out [0..<n div 32]
        = map (weight_at blocks TQ_DT_Q8_0) [0..<n div 32 * 32] @ drop (n div 32 * 32) out"
    proof (rule foldl_blocks [OF _ a])
      fix out :: "f32 list" and b assume "b < n div 32" "n div 32 * 32 \<le> length out"
      from q80_block_loop [OF this(2,1), of "?h b"]
      show "length (foldl (\<lambda>out j. out[b * 32 + j := ?h b j]) out [0..<32]) = length out \<and>
          (\<forall>k<length out. foldl (\<lambda>out j. out[b * 32 + j := ?h b j]) out [0..<32] ! k
             = (if k div 32 = b then weight_at blocks TQ_DT_Q8_0 k else out ! k))"
        unfolding w by auto
    qed
    then show ?thesis unfolding tq_dequantize_def TQ_GROUP_SIZE_def Let_def True if_P [OF refl] n .
  next
    case False
    then have q: "dtype = TQ_DT_Q4_0" "TQ_DT_Q4_0 \<noteq> TQ_DT_Q8_0" using assms(1) by (auto simp: quantized_def dtypes)
    let ?d = "\<lambda>b. tq_half_to_float (q40_d (q40_at blocks b))"
    let ?h = "\<lambda>b j. f32_mul (f32_of_int (uint (q40_qs (q40_at blocks b) ! j AND 0x0F) - 8)) (?d b)"
    let ?g = "\<lambda>b j. f32_mul (f32_of_int (uint (drop_bit 4 (q40_qs (q40_at blocks b) ! j)) - 8)) (?d b)"
    have w: "weight_at blocks TQ_DT_Q4_0 k = (if k mod 32 < 16 then ?h (k div 32) (k mod 16) else ?g (k div 32) (k mod 16))" for k
      using q(2) by (simp add: weight_at_def Let_def)
    have s: "(32 :: nat) div 2 = 16" by simp
    have "foldl (\<lambda>out b. foldl (\<lambda>out j. out[b * 32 + j := ?h b j, b * 32 + j + 16 := ?g b j]) out [0..<16]) out [0..<n div 32]
        = map (weight_at blocks TQ_DT_Q4_0) [0..<n div 32 * 32] @ drop (n div 32 * 32) out"
    proof (rule foldl_blocks [OF _ a])
      fix out :: "f32 list" and b assume "b < n div 32" "n div 32 * 32 \<le> length out"
      from q40_block_loop [OF this(2,1), of "?h b" "?g b"]
      show "length (foldl (\<lambda>out j. out[b * 32 + j := ?h b j, b * 32 + j + 16 := ?g b j]) out [0..<16]) = length out \<and>
          (\<forall>k<length out. foldl (\<lambda>out j. out[b * 32 + j := ?h b j, b * 32 + j + 16 := ?g b j]) out [0..<16] ! k
             = (if k div 32 = b then weight_at blocks TQ_DT_Q4_0 k else out ! k))"
        unfolding w by auto
    qed
    then show ?thesis
      unfolding tq_dequantize_def TQ_GROUP_SIZE_def Let_def q(1) if_not_P [OF q(2)] if_P [OF refl] s n .
  qed
qed

lemma div_pos_of_mult: "n mod 32 = 0 \<Longrightarrow> 0 < n \<Longrightarrow> 0 < n div (32 :: nat)"
  by (auto elim!: dvdE)

lemma weight_at_cong:
  assumes "quantized dtype" and "\<And>j. j < n div 32 * block_bytes dtype \<Longrightarrow> p ! j = p' ! j" and "k < n" and "n mod 32 = 0"
  shows "weight_at p dtype k = weight_at p' dtype k"
proof -
  have b: "k div 32 < n div 32" using assms(3,4) by (auto simp: div_less_iff_less_mult elim!: dvdE)
  have j: "k div 32 * s + j < n div 32 * s" if "j < s" for j s :: nat
  proof -
    have "k div 32 * s + j < Suc (k div 32) * s" using that by simp
    also have "\<dots> \<le> n div 32 * s" using b by (intro mult_right_mono) simp_all
    finally show ?thesis .
  qed
  have "q80_at p (k div 32) = q80_at p' (k div 32)" if "dtype = TQ_DT_Q8_0"
    using assms(2) j [of _ 34] that by (intro q80_at_cong) (simp add: block_bytes_def dtypes)
  moreover have "q40_at p (k div 32) = q40_at p' (k div 32)" if "dtype = TQ_DT_Q4_0"
    using assms(2) j [of _ 18] that by (intro q40_at_cong) (simp add: block_bytes_def)
  ultimately show ?thesis using assms(1) by (auto simp: weight_at_def quantized_def)
qed

lemma matvec_rows_length: "matvec_rows dtype rb nb xq p i count out = Some out' \<Longrightarrow> length out' = length out"
  unfolding matvec_rows_def
proof (induction count arbitrary: out')
  case (Suc c)
  then show ?case by (auto simp: run_steps_append split: option.splits)
qed simp

lemma tiles_return:
  assumes "0 < rpt"
  shows "\<exists>rc st' out'. matvec_tiles w dtype rb nb d xq rpt i st out = Some (rc, st', out') \<and> length out' = length out"
proof (induction "d - i" arbitrary: i st out rule: less_induct)
  case less
  show ?case
  proof (cases "i \<ge> d")
    case True
    then show ?thesis by (subst matvec_tiles.simps) simp
  next
    case False
    define chunk where "chunk = (if d - i > rpt then rpt else d - i)"
    have c: "d - (i + chunk) < d - i" using False assms by (auto simp: chunk_def)
    obtain st1 v where v: "tq_store_view st (w + rb * of_nat i) (ucast (rb * of_nat chunk)) = (st1, v)"
      by (cases "tq_store_view st (w + rb * of_nat i) (ucast (rb * of_nat chunk))")
    have unfold: "matvec_tiles w dtype rb nb d xq rpt i st out =
        (case v of None \<Rightarrow> Some (TQ_ERR_IO, st1, out)
         | Some p \<Rightarrow> (case matvec_rows dtype (unat rb) nb xq p i chunk out of
             None \<Rightarrow> Some (TQ_ERR_UNSUPPORTED, st1, out)
           | Some out' \<Rightarrow> matvec_tiles w dtype rb nb d xq rpt (i + chunk) st1 out'))"
      using False v by (subst matvec_tiles.simps) (simp add: chunk_def [symmetric] Let_def split: option.splits)
    show ?thesis
      unfolding unfold using less.hyps [OF c] matvec_rows_length [of dtype "unat rb" nb xq _ i chunk out]
      by (fastforce split: option.splits)
  qed
qed

lemma matvec_image:
  assumes "store_shows img lmt st" and "quantized dtype" and "n mod 32 = 0" and "0 < n" and "n < 2 ^ 31"
    and "n div 32 * block_bytes dtype \<le> lmt" and "lmt < 2 ^ 32"
    and "unat w + n div 32 * block_bytes dtype * d \<le> length img" and "d \<le> length out"
  shows "\<exists>st'. tq_matvec st br out w dtype n d xq = Some (TQ_OK, st', br + tq_dtype_nbytes dtype (of_nat n) * of_nat d,
      map (\<lambda>i. row_value dtype img (unat w + i * (n div 32 * block_bytes dtype)) xq (n div 32)) [0..<d] @ drop d out)
    \<and> store_shows img lmt st'"
proof -
  define rb where "rb = tq_dtype_nbytes dtype (of_nat n)"
  have rb: "unat rb = n div 32 * block_bytes dtype" unfolding rb_def by (rule dtype_nbytes_quantized [OF assms(2,3,5)])
  have n32: "0 < n div 32" using assms(3,4) by (rule div_pos_of_mult)
  then have rb0: "0 < unat rb" "rb \<noteq> 0" using rb block_bytes_pos [OF assms(2)] by (auto simp: unat_eq_0 [symmetric])
  have fit: "unat w + unat rb * d \<le> length img" using assms(8) rb by simp
  have L: "length img < 2 ^ 64" using store.small [OF assms(1)] .
  have guard: "\<not> (rb = 0 \<or> n mod TQ_GROUP_SIZE \<noteq> 0)" using rb0 assms(3) by (simp add: TQ_GROUP_SIZE_def)
  show ?thesis
  proof (cases "store_mapped img st")
    case True
    then have s: "st_base st = Some img" "unat (st_bytes st) = length img" by (auto simp: store_mapped_def)
    have "unat (w + rb * of_nat d) = unat w + unat rb * d" using fit L rb0 by (intro unat_offset) auto
    then have g: "\<not> w + rb * of_nat d > st_bytes st" using fit s(2) by (simp add: word_less_nat_alt)
    have rows: "matvec_rows dtype (unat rb) (n div 32) xq (drop (unat w) img) 0 d out =
        Some (take 0 out @ map (\<lambda>i. row_value dtype img (unat w + i * unat rb) xq (n div 32)) [0..<0 + d] @ drop (0 + d) out)"
      using assms(9) by (intro matvec_rows_value) (simp_all add: row_dot_value [OF assms(2)] add.commute)
    have q: "dtype = TQ_DT_Q4_0 \<or> dtype = TQ_DT_Q8_0" using assms(2) by (simp add: quantized_def)
    have "tq_matvec st br out w dtype n d xq = Some (TQ_OK, st, br + rb * of_nat d,
        map (\<lambda>i. row_value dtype img (unat w + i * unat rb) xq (n div 32)) [0..<d] @ drop d out)"
      unfolding tq_matvec_def rb_def [symmetric] Let_def if_not_P [OF guard] s(1) option.case if_not_P [OF g] if_P [OF q]
      using rows by (simp add: TQ_GROUP_SIZE_def)
    then show ?thesis using assms(1) unfolding rb_def [symmetric] rb [symmetric] by blast
  next
    case False
    then have s: "store_streams img lmt st" using assms(1) by (simp add: store_shows_def)
    then have b: "st_base st = None" "unat (st_tile_bytes st) = lmt" by (auto simp: store_streams_def)
    have u: "unat (ucast (st_tile_bytes st) :: u64) = lmt"
      using b(2) unat_bound [of "st_tile_bytes st"] by (simp add: unat_ucast_mod)
    have g: "\<not> ucast (st_tile_bytes st) < rb" using assms(6) rb u by (simp add: word_less_nat_alt)
    have r: "unat (ucast (st_tile_bytes st) div rb) = lmt div unat rb" using u by (simp add: unat_div)
    have "0 < lmt div unat rb" using assms(6) rb rb0 by (simp add: div_greater_zero_iff)
    moreover have "lmt div unat rb * unat rb \<le> lmt" by simp
    ultimately obtain st' where t: "matvec_tiles w dtype rb (n div 32) d xq (lmt div unat rb) 0 st out =
        Some (TQ_OK, st', map (\<lambda>i. row_value dtype img (unat w + i * unat rb) xq (n div 32)) [0..<d] @ drop d out)"
      "store_shows img lmt st'"
      using tiles_value [OF assms(1,2) rb rb0(1) _ _ assms(7) fit assms(9), of "lmt div unat rb" 0] by auto
    have "tq_matvec st br out w dtype n d xq = Some (TQ_OK, st', br + rb * of_nat d,
        map (\<lambda>i. row_value dtype img (unat w + i * unat rb) xq (n div 32)) [0..<d] @ drop d out)"
      unfolding tq_matvec_def rb_def [symmetric] Let_def if_not_P [OF guard] b(1) option.case if_not_P [OF g]
      using t(1) by (simp add: TQ_GROUP_SIZE_def r)
    then show ?thesis using t(2) unfolding rb_def [symmetric] rb [symmetric] by blast
  qed
qed

text \<open>
  C20: the matrix-vector product is the same on every store. Whether the weights are mapped or
  stream through a tile of any size that holds a row, the product succeeds, entry \<open>i\<close> of the
  result is the dot product of row \<open>i\<close> of the image with the activations, entries behind
  \<^verbatim>\<open>d\<close> stay, the byte counter grows by the bytes of the matrix, and the store still shows the
  image.
\<close>

theorem matvec_exact:
  assumes "store_shows img lmt st" and "quantized dtype" and "n mod 32 = 0" and "0 < n" and "n < 2 ^ 31"
    and "n div 32 * block_bytes dtype \<le> lmt" and "lmt < 2 ^ 32"
    and "unat w + n div 32 * block_bytes dtype * d \<le> length img" and "d \<le> length out"
  shows "\<exists>st'. tq_matvec st br out w dtype n d xq = Some (TQ_OK, st', br + tq_dtype_nbytes dtype (of_nat n) * of_nat d,
      map (\<lambda>i. row_value dtype img (unat w + i * (n div 32 * block_bytes dtype)) xq (n div 32)) [0..<d] @ drop d out)
    \<and> store_shows img lmt st'"
  using assms by (rule matvec_image)

theorem matvec_exact_witness:
  "\<exists>st'. tq_matvec (tq_store_init_stream 36 (\<lambda>c off n. (c, 0, take (unat n) (drop (unat off) (replicate 36 1)))) (None :: unit option)
        (replicate 20 0) 20) 0 [5, 5, 5] 0 TQ_DT_Q4_0 32 2 [\<lparr>q80_d = 0x3C00, q80_qs = replicate 32 2\<rparr>]
      = Some (TQ_OK, st', 36, map (\<lambda>i. row_value TQ_DT_Q4_0 (replicate 36 1) (i * 18) [\<lparr>q80_d = 0x3C00, q80_qs = replicate 32 2\<rparr>] 1) [0..<2] @ [5])"
proof -
  let ?img = "replicate 36 1 :: u8 list"
  let ?rd = "\<lambda>c off n. (c :: unit option, 0 :: int, take (unat n) (drop (unat off) ?img))"
  have h: "honest_read ?rd (\<lambda>_. True) ?img" by (simp add: honest_read_def)
  have "store_shows ?img (unat (20 :: u32)) (tq_store_init_stream (of_nat (length ?img)) ?rd None (replicate 20 0) 20)"
    by (rule store_init_shows(2) [OF _ h]) simp_all
  then have s: "store_shows ?img 20 (tq_store_init_stream 36 ?rd None (replicate 20 0) 20)" by simp
  have b: "block_bytes TQ_DT_Q4_0 = 18" "tq_dtype_nbytes TQ_DT_Q4_0 32 = 18"
    by (simp_all add: block_bytes_def tq_dtype_nbytes_def dtypes TQ_GROUP_SIZE_def)
  show ?thesis
    using matvec_exact [OF s, of TQ_DT_Q4_0 32 0 2 "[5, 5, 5]" 0 "[\<lparr>q80_d = 0x3C00, q80_qs = replicate 32 2\<rparr>]"]
    by (auto simp: quantized_def b)
qed

text \<open>
  The matrix-vector product always returns. No store, offset, type or size sends the tile
  loop round forever, a failing callback and a tile smaller than a row included; whatever
  happens, the output array keeps its length.
\<close>

theorem matvec_total:
  "\<exists>rc st' br' out'. tq_matvec st br out w dtype n d xq = Some (rc, st', br', out') \<and> length out' = length out"
proof -
  define rb where "rb = tq_dtype_nbytes dtype (of_nat n)"
  have t: "\<exists>rc st' out'. matvec_tiles w dtype rb (n div TQ_GROUP_SIZE) d xq
      (unat (ucast (st_tile_bytes st) div rb)) 0 st out = Some (rc, st', out') \<and> length out' = length out"
    if "rb \<noteq> 0" "\<not> ucast (st_tile_bytes st) < rb"
  proof (rule tiles_return)
    have "0 < unat rb" using that(1) by (simp add: unat_gt_0)
    then show "0 < unat (ucast (st_tile_bytes st) div rb)"
      using that(2) by (simp add: unat_div div_greater_zero_iff word_less_nat_alt)
  qed
  show ?thesis
  proof (cases "st_base st")
    case None
    show ?thesis
    proof (cases "(rb = 0 \<or> n mod TQ_GROUP_SIZE \<noteq> 0) \<or> ucast (st_tile_bytes st) < rb")
      case True
      then show ?thesis using None by (auto simp: tq_matvec_def rb_def [symmetric] Let_def)
    next
      case False
      then obtain rc st' out' where "matvec_tiles w dtype rb (n div TQ_GROUP_SIZE) d xq
          (unat (ucast (st_tile_bytes st) div rb)) 0 st out = Some (rc, st', out')" "length out' = length out"
        using t by blast
      then show ?thesis using None False by (simp add: tq_matvec_def rb_def [symmetric] Let_def)
    qed
  next
    case (Some base)
    then show ?thesis using matvec_rows_length [of dtype "unat rb" "n div TQ_GROUP_SIZE" xq "drop (unat w) base" 0 d out]
      unfolding tq_matvec_def rb_def [symmetric] Let_def by (auto split: option.splits)
  qed
qed

lemma row_image:
  assumes "store_shows img lmt st" and "quantized dtype" and "n mod 32 = 0" and "0 < n" and "n < 2 ^ 31"
    and "n div 32 * block_bytes dtype \<le> lmt" and "lmt < 2 ^ 32"
    and "unat base + n div 32 * block_bytes dtype * Suc row \<le> length img" and "n \<le> length out"
  shows "\<exists>st'. tq_row_to_float st base dtype n row out =
      (TQ_OK, st', map (weight_at (drop (unat base + row * (n div 32 * block_bytes dtype)) img) dtype) [0..<n] @ drop n out)
    \<and> store_shows img lmt st'"
proof -
  define rb where "rb = tq_dtype_nbytes dtype (of_nat n)"
  have rb: "unat rb = n div 32 * block_bytes dtype" unfolding rb_def by (rule dtype_nbytes_quantized [OF assms(2,3,5)])
  have n32: "0 < n div 32" using assms(3,4) by (rule div_pos_of_mult)
  then have rb0: "0 < unat rb" "rb \<noteq> 0" using rb block_bytes_pos [OF assms(2)] by (auto simp: unat_eq_0 [symmetric])
  have L: "length img < 2 ^ 64" using store.small [OF assms(1)] .
  have fit: "unat base + unat rb * row + unat rb \<le> length img" using assms(8) rb by simp
  have o: "unat (base + rb * of_nat row) = unat base + unat rb * row"
    using fit L rb0 by (intro unat_offset) auto
  have c: "unat (ucast rb :: u32) = unat rb" using assms(6,7) rb by (simp add: unat_ucast_mod)
  have f: "unat (base + rb * of_nat row) + unat (ucast rb :: u32) \<le> length img" using o c fit by simp
  have lm: "unat (ucast rb :: u32) \<le> lmt" using c assms(6) rb by simp
  obtain st' p where v: "tq_store_view st (base + rb * of_nat row) (ucast rb) = (st', Some p)" "store_shows img lmt st'"
    "\<And>j. j < unat rb \<Longrightarrow> p ! j = img ! (unat base + unat rb * row + j)"
    using store.view_nth [OF assms(1) f lm] unfolding c o by blast
  have "weight_at p dtype k = weight_at (drop (unat base + row * unat rb) img) dtype k" if "k < n" for k
  proof (rule weight_at_cong [OF assms(2) _ that assms(3)])
    fix j assume "j < n div 32 * block_bytes dtype"
    then have "j < unat rb" using rb by simp
    then show "p ! j = drop (unat base + row * unat rb) img ! j"
      using v(3) fit by (simp add: mult.commute)
  qed
  then have "tq_dequantize p dtype out n =
      map (weight_at (drop (unat base + row * unat rb) img) dtype) [0..<n] @ drop n out"
    using dequantize_value [OF assms(2,3,9)] by auto
  then show ?thesis using v(1,2) rb0 by (simp add: tq_row_to_float_def rb_def [symmetric] rb [symmetric])
qed

text \<open>
  The embedding lookup. On every store that shows the image, row \<open>row\<close> of a quantized
  matrix arrives as its dequantized weights, one float for each of its \<open>n\<close> elements.
\<close>

theorem row_to_float_exact:
  assumes "store_shows img lmt st" and "quantized dtype" and "n mod 32 = 0" and "0 < n" and "n < 2 ^ 31"
    and "n div 32 * block_bytes dtype \<le> lmt" and "lmt < 2 ^ 32"
    and "unat base + n div 32 * block_bytes dtype * Suc row \<le> length img" and "n \<le> length out"
  shows "\<exists>st'. tq_row_to_float st base dtype n row out =
      (TQ_OK, st', map (weight_at (drop (unat base + row * (n div 32 * block_bytes dtype)) img) dtype) [0..<n] @ drop n out)
    \<and> store_shows img lmt st'"
  using assms by (rule row_image)

theorem row_to_float_exact_witness:
  "\<exists>st'. tq_row_to_float (tq_store_init_mapped (replicate 40 1) 40 :: unit tq_store) 4 TQ_DT_Q4_0 32 1 (replicate 32 0) =
      (TQ_OK, st', map (weight_at (replicate 18 1) TQ_DT_Q4_0) [0..<32])"
proof -
  have s: "store_shows (replicate 40 1) 20 (tq_store_init_mapped (replicate 40 1) 40 :: unit tq_store)"
    using store_init_shows(1) [of "replicate 40 1" 20] by simp
  have b: "block_bytes TQ_DT_Q4_0 = 18" by (simp add: block_bytes_def)
  show ?thesis
    using row_to_float_exact [OF s, of TQ_DT_Q4_0 32 4 1 "replicate 32 0"] by (auto simp: quantized_def b)
qed

text \<open>
  A wrap-around: an offset close to \<open>2^64\<close> passes the guard of \<^verbatim>\<open>tq_store_view\<close>, and the
  pointer it hands out lies behind the image.
\<close>

lemma view_guard_wraps:
  "tq_store_view (tq_store_init_mapped (replicate 64 0) 64 :: unit tq_store) 0xFFFFFFFFFFFFFFC0 64 =
     (tq_store_init_mapped (replicate 64 0) 64, Some [])"
  by (simp add: tq_store_view_def tq_store_init_mapped_def)

end
