(* ===== verification/Tq_Model.thy ===== *)
theory Tq_Model imports Tq_Store begin

text \<open>
  The container format and \<^verbatim>\<open>core/src/tq_model.c\<close>: carving arenas, parsing the header and the
  tensor directory into a model, sizing and laying out the runtime.

  The store a model points to is passed beside it, because viewing changes the store's tile.
  \<^verbatim>\<open>size_t\<close> is a word whose width is left open, so the arena lemmas hold for the 32-bit board
  and the 64-bit host; an arena is its base address and its capacity. \<^verbatim>\<open>char\<close> is unsigned, as
  in the ARM ABI. Structures are read from their bytes at the offsets that the layout
  assertions of \<^verbatim>\<open>tq_kernels.c\<close> pin.
\<close>

unbundle bit_operations_syntax

section \<open>Arenas\<close>

definition tq_align_up :: "'w::len word \<Rightarrow> 'w word \<Rightarrow> 'w word" where
  "tq_align_up v a = (v + a - 1) AND NOT (a - 1)"

text \<open>It returns the new \<^verbatim>\<open>*used\<close> and the address, or no address.\<close>

definition tq_carve :: "'w::len word \<Rightarrow> 'w word \<Rightarrow> 'w word \<Rightarrow> 'w word \<Rightarrow> 'w word \<times> 'w word option" where
  "tq_carve base cap used bytes =
     (let skew = base AND 15;
          off = tq_align_up (used + skew) 16 - skew
      in if off + bytes > cap then (used, None) else (off + bytes, Some (base + off)))"

section \<open>Names\<close>

definition TQ_NAME_BYTES :: nat where "TQ_NAME_BYTES = 24"

definition cstr :: "string \<Rightarrow> u8 list" where
  "cstr s = map of_char s"

text \<open>
  \<open>k\<close> characters are left at index \<open>i\<close>; \<open>want\<close> is the wanted string with its terminator.
\<close>

fun name_eq_from :: "nat \<Rightarrow> nat \<Rightarrow> u8 list \<Rightarrow> u8 list \<Rightarrow> bool" where
  "name_eq_from 0 i field want = True"
| "name_eq_from (Suc k) i field want =
     (if field ! i \<noteq> want ! i then False
      else if field ! i = 0 then True
      else name_eq_from k (i + 1) field want)"

definition tq_name_eq :: "u8 list \<Rightarrow> u8 list \<Rightarrow> bool" where
  "tq_name_eq field want = name_eq_from TQ_NAME_BYTES 0 field want"

section \<open>The container\<close>

definition le64 :: "u8 list \<Rightarrow> nat \<Rightarrow> u64" where
  "le64 bs i = ucast (le32 bs i) OR push_bit 32 (ucast (le32 bs (i + 4)))"

definition TQ_MAGIC :: u32 where "TQ_MAGIC = 0x31515445"
definition TQ_VERSION :: u32 where "TQ_VERSION = 1"
definition TQ_HEADER_BYTES :: u32 where "TQ_HEADER_BYTES = 256"
definition TQ_ALIGN :: u64 where "TQ_ALIGN = 64"
definition TQ_ARCH_LLAMA2 :: u32 where "TQ_ARCH_LLAMA2 = 0"

record tq_header =
  h_magic :: u32
  h_version :: u32
  h_header_bytes :: u32
  h_arch :: u32
  h_tensor_count :: u32
  h_tensor_table_offset :: u32
  h_data_offset :: u32
  h_flags :: u32
  h_file_bytes :: u64
  h_dim :: int
  h_hidden_dim :: int
  h_n_layers :: int
  h_n_heads :: int
  h_n_kv_heads :: int
  h_vocab_size :: int
  h_seq_len :: int
  h_qtype :: u32
  h_group_size :: u32
  h_shared_classifier :: u32
  h_rope_theta :: f32
  h_norm_eps :: f32
  h_bos_token :: u32
  h_eos_token :: u32

definition header_at :: "u8 list \<Rightarrow> tq_header" where
  "header_at p =
     \<lparr>h_magic = le32 p 0, h_version = le32 p 4, h_header_bytes = le32 p 8, h_arch = le32 p 12,
      h_tensor_count = le32 p 16, h_tensor_table_offset = le32 p 20, h_data_offset = le32 p 24,
      h_flags = le32 p 28, h_file_bytes = le64 p 32,
      h_dim = sint (le32 p 40), h_hidden_dim = sint (le32 p 44), h_n_layers = sint (le32 p 48),
      h_n_heads = sint (le32 p 52), h_n_kv_heads = sint (le32 p 56), h_vocab_size = sint (le32 p 60),
      h_seq_len = sint (le32 p 64),
      h_qtype = le32 p 68, h_group_size = le32 p 72, h_shared_classifier = le32 p 76,
      h_rope_theta = le32 p 80, h_norm_eps = le32 p 84, h_bos_token = le32 p 88, h_eos_token = le32 p 92\<rparr>"

record tq_tensor_entry =
  e_name :: "u8 list"
  e_dtype :: u32
  e_ndim :: u32
  e_shape :: "u32 list"
  e_offset :: u64
  e_nbytes :: u64

definition entry_at :: "u8 list \<Rightarrow> nat \<Rightarrow> tq_tensor_entry" where
  "entry_at p i =
     \<lparr>e_name = map (\<lambda>j. p ! (i + j)) [0..<TQ_NAME_BYTES], e_dtype = le32 p (i + 24), e_ndim = le32 p (i + 28),
      e_shape = [le32 p (i + 32), le32 p (i + 36), le32 p (i + 40), le32 p (i + 44)],
      e_offset = le64 p (i + 48), e_nbytes = le64 p (i + 56)\<rparr>"

section \<open>The model\<close>

record tq_layer_offsets =
  lo_rms_att :: u64
  lo_rms_ffn :: u64
  lo_wq :: u64
  lo_wk :: u64
  lo_wv :: u64
  lo_wo :: u64
  lo_w1 :: u64
  lo_w2 :: u64
  lo_w3 :: u64

definition no_offsets :: tq_layer_offsets where
  "no_offsets = \<lparr>lo_rms_att = 0, lo_rms_ffn = 0, lo_wq = 0, lo_wk = 0, lo_wv = 0, lo_wo = 0,
     lo_w1 = 0, lo_w2 = 0, lo_w3 = 0\<rparr>"

record tq_model =
  m_hdr :: tq_header
  m_dim :: int
  m_hidden_dim :: int
  m_n_layers :: int
  m_n_heads :: int
  m_n_kv_heads :: int
  m_vocab_size :: int
  m_seq_len :: int
  m_head_size :: int
  m_kv_dim :: int
  m_kv_mul :: int
  m_qtype :: u32
  m_tok_emb :: u64
  m_rms_final :: u64
  m_classifier :: u64
  m_layers :: "tq_layer_offsets list"
  m_tok_scores :: u64
  m_tok_offs :: u64
  m_tok_blob :: u64
  m_tok_sorted :: u64
  m_tok_blob_bytes :: u32

text \<open>After \<^verbatim>\<open>memset(m, 0, sizeof(*m))\<close>.\<close>

definition zero_header :: tq_header where
  "zero_header = header_at (replicate 256 0)"

definition zero_model :: tq_model where
  "zero_model =
     \<lparr>m_hdr = zero_header, m_dim = 0, m_hidden_dim = 0, m_n_layers = 0, m_n_heads = 0, m_n_kv_heads = 0,
      m_vocab_size = 0, m_seq_len = 0, m_head_size = 0, m_kv_dim = 0, m_kv_mul = 0, m_qtype = 0,
      m_tok_emb = 0, m_rms_final = 0, m_classifier = 0, m_layers = [], m_tok_scores = 0, m_tok_offs = 0,
      m_tok_blob = 0, m_tok_sorted = 0, m_tok_blob_bytes = 0\<rparr>"

section \<open>The want list\<close>

text \<open>The pointer \<^verbatim>\<open>offset\<close> of a want is the field of the model it points to.\<close>

datatype want_slot = W_tok_emb | W_rms_final | W_classifier | W_scores | W_offs | W_blob | W_sorted

record tq_want =
  w_name :: "u8 list"
  w_offset :: want_slot
  w_dtype :: u32
  w_rows :: u32
  w_cols :: u32
  w_nbytes :: bool
  w_required :: bool
  w_found :: bool

fun store_want :: "want_slot \<Rightarrow> u64 \<Rightarrow> tq_model \<Rightarrow> tq_model" where
  "store_want W_tok_emb v m = m\<lparr>m_tok_emb := v\<rparr>"
| "store_want W_rms_final v m = m\<lparr>m_rms_final := v\<rparr>"
| "store_want W_classifier v m = m\<lparr>m_classifier := v\<rparr>"
| "store_want W_scores v m = m\<lparr>m_tok_scores := v\<rparr>"
| "store_want W_offs v m = m\<lparr>m_tok_offs := v\<rparr>"
| "store_want W_blob v m = m\<lparr>m_tok_blob := v\<rparr>"
| "store_want W_sorted v m = m\<lparr>m_tok_sorted := v\<rparr>"

definition open_wants :: "tq_model \<Rightarrow> tq_want list" where
  "open_wants m =
     (let want = (\<lambda>name slot dtype rows cols nbytes required.
            \<lparr>w_name = cstr name @ [0], w_offset = slot, w_dtype = dtype, w_rows = rows, w_cols = cols,
             w_nbytes = nbytes, w_required = required, w_found = False\<rparr>);
          vocab = word_of_int (m_vocab_size m);
          dim = word_of_int (m_dim m)
      in [want ''tok_emb'' W_tok_emb (m_qtype m) vocab dim False True,
          want ''rms_final'' W_rms_final TQ_DT_F32 dim 0 False True,
          want ''cls'' W_classifier (m_qtype m) vocab dim False (h_shared_classifier (m_hdr m) = 0),
          want ''tok.scores'' W_scores TQ_DT_F32 vocab 0 False False,
          want ''tok.offs'' W_offs TQ_DT_U32 (vocab + 1) 0 False False,
          want ''tok.blob'' W_blob TQ_DT_U8 0 0 True False,
          want ''tok.sorted'' W_sorted TQ_DT_U32 vocab 0 False False])"

text \<open>\<^verbatim>\<open>tq_match\<close> from want \<open>i\<close> on; it changes the list of wants and the model.\<close>

function match_from :: "nat \<Rightarrow> tq_want list \<Rightarrow> tq_tensor_entry \<Rightarrow> tq_model \<Rightarrow> tq_status \<times> tq_want list \<times> tq_model" where
  "match_from i ws e m =
     (if i < length ws then
        let w = ws ! i in
        if w_found w \<or> \<not> tq_name_eq (e_name e) (w_name w) then match_from (i + 1) ws e m
        else if e_dtype e \<noteq> w_dtype w then (TQ_ERR_SHAPE, ws, m)
        else if w_cols w \<noteq> 0 \<and> (e_ndim e \<noteq> 2 \<or> e_shape e ! 0 \<noteq> w_rows w \<or> e_shape e ! 1 \<noteq> w_cols w)
             then (TQ_ERR_SHAPE, ws, m)
        else if w_cols w = 0 \<and> w_rows w \<noteq> 0 \<and> (e_ndim e \<noteq> 1 \<or> e_shape e ! 0 \<noteq> w_rows w)
             then (TQ_ERR_SHAPE, ws, m)
        else let m1 = store_want (w_offset w) (e_offset e) m;
                 m2 = (if w_nbytes w then m1\<lparr>m_tok_blob_bytes := ucast (e_nbytes e)\<rparr> else m1)
             in (TQ_OK, ws[i := w\<lparr>w_found := True\<rparr>], m2)
      else (TQ_OK, ws, m))"
  by pat_completeness auto
termination
  by (relation "measure (\<lambda>(i, ws, e, m). length ws - i)") auto

declare match_from.simps [simp del]

definition tq_match :: "tq_want list \<Rightarrow> tq_tensor_entry \<Rightarrow> tq_model \<Rightarrow> tq_status \<times> tq_want list \<times> tq_model" where
  "tq_match ws e m = match_from 0 ws e m"

section \<open>Layer tensors\<close>

datatype layer_slot = L_rms_att | L_rms_ffn | L_wq | L_wk | L_wv | L_wo | L_w1 | L_w2 | L_w3

fun store_layer :: "layer_slot \<Rightarrow> u64 \<Rightarrow> tq_layer_offsets \<Rightarrow> tq_layer_offsets" where
  "store_layer L_rms_att v lo = lo\<lparr>lo_rms_att := v\<rparr>"
| "store_layer L_rms_ffn v lo = lo\<lparr>lo_rms_ffn := v\<rparr>"
| "store_layer L_wq v lo = lo\<lparr>lo_wq := v\<rparr>"
| "store_layer L_wk v lo = lo\<lparr>lo_wk := v\<rparr>"
| "store_layer L_wv v lo = lo\<lparr>lo_wv := v\<rparr>"
| "store_layer L_wo v lo = lo\<lparr>lo_wo := v\<rparr>"
| "store_layer L_w1 v lo = lo\<lparr>lo_w1 := v\<rparr>"
| "store_layer L_w2 v lo = lo\<lparr>lo_w2 := v\<rparr>"
| "store_layer L_w3 v lo = lo\<lparr>lo_w3 := v\<rparr>"

text \<open>The slot, the type and the shape that a suffix stands for; a second dimension of 0 is none.\<close>

definition layer_want :: "tq_model \<Rightarrow> u8 list \<Rightarrow> (layer_slot \<times> u32 \<times> u32 \<times> u32) option" where
  "layer_want m suf =
     (let dim = word_of_int (m_dim m); kv_dim = word_of_int (m_kv_dim m); hidden = word_of_int (m_hidden_dim m)
      in if suf = cstr ''rms_att'' then Some (L_rms_att, TQ_DT_F32, dim, 0)
         else if suf = cstr ''rms_ffn'' then Some (L_rms_ffn, TQ_DT_F32, dim, 0)
         else if suf = cstr ''wq'' then Some (L_wq, m_qtype m, dim, dim)
         else if suf = cstr ''wk'' then Some (L_wk, m_qtype m, kv_dim, dim)
         else if suf = cstr ''wv'' then Some (L_wv, m_qtype m, kv_dim, dim)
         else if suf = cstr ''wo'' then Some (L_wo, m_qtype m, dim, dim)
         else if suf = cstr ''w1'' then Some (L_w1, m_qtype m, hidden, dim)
         else if suf = cstr ''w2'' then Some (L_w2, m_qtype m, dim, hidden)
         else if suf = cstr ''w3'' then Some (L_w3, m_qtype m, hidden, dim)
         else None)"

text \<open>The decoded \<^verbatim>\<open>lNNN.\<close>: unsigned arithmetic, whatever the three characters are.\<close>

definition layer_index :: "u8 list \<Rightarrow> u32" where
  "layer_index name =
     (ucast (name ! 1) - 48) * 100 + (ucast (name ! 2) - 48) * 10 + (ucast (name ! 3) - 48)"

definition layer_suffix :: "u8 list \<Rightarrow> u8 list" where
  "layer_suffix name = takeWhile (\<lambda>c. c \<noteq> 0) (drop 5 name)"

definition open_layer :: "tq_model \<Rightarrow> tq_tensor_entry \<Rightarrow> tq_status \<times> tq_model" where
  "open_layer m e =
     (if e_name e ! 0 \<noteq> of_char (CHR ''l'') \<or> e_name e ! 4 \<noteq> of_char (CHR ''.'') then (TQ_OK, m)
      else if layer_index (e_name e) \<ge> word_of_int (m_n_layers m) then (TQ_OK, m)
      else case layer_want m (layer_suffix (e_name e)) of
             None \<Rightarrow> (TQ_OK, m)
           | Some (slot, want_dt, r, c) \<Rightarrow>
               if e_dtype e \<noteq> want_dt then (TQ_ERR_SHAPE, m)
               else if c \<noteq> 0 \<and> (e_ndim e \<noteq> 2 \<or> e_shape e ! 0 \<noteq> r \<or> e_shape e ! 1 \<noteq> c) then (TQ_ERR_SHAPE, m)
               else if c = 0 \<and> (e_ndim e \<noteq> 1 \<or> e_shape e ! 0 \<noteq> r) then (TQ_ERR_SHAPE, m)
               else let l = unat (layer_index (e_name e))
                    in (TQ_OK, m\<lparr>m_layers := (m_layers m)[l := store_layer slot (e_offset e) (m_layers m ! l)]\<rparr>))"

section \<open>Opening a model\<close>

text \<open>One directory entry: the range and alignment checks, the globals, the layers.\<close>

definition open_entry ::
  "tq_header \<Rightarrow> tq_want list \<Rightarrow> tq_model \<Rightarrow> tq_tensor_entry \<Rightarrow> tq_status \<times> tq_want list \<times> tq_model" where
  "open_entry hdr ws m e =
     (if e_offset e + e_nbytes e > h_file_bytes hdr then (TQ_ERR_TRUNCATED, ws, m)
      else if e_offset e mod TQ_ALIGN \<noteq> 0 then (TQ_ERR_SHAPE, ws, m)
      else case tq_match ws e m of
             (rc, ws1, m1) \<Rightarrow>
               if rc \<noteq> TQ_OK then (rc, ws1, m1)
               else case open_layer m1 e of (rc, m2) \<Rightarrow> (rc, ws1, m2))"

fun open_entries ::
  "tq_header \<Rightarrow> tq_tensor_entry list \<Rightarrow> tq_want list \<Rightarrow> tq_model \<Rightarrow> tq_status \<times> tq_want list \<times> tq_model" where
  "open_entries hdr [] ws m = (TQ_OK, ws, m)"
| "open_entries hdr (e # es) ws m =
     (case open_entry hdr ws m e of
        (rc, ws1, m1) \<Rightarrow> if rc \<noteq> TQ_OK then (rc, ws1, m1) else open_entries hdr es ws1 m1)"

definition TQ_DIR_CHUNK :: nat where "TQ_DIR_CHUNK = 32"

text \<open>The directory in chunks, each copied out of the view before the next.\<close>

function open_directory ::
  "'c tq_store \<Rightarrow> tq_header \<Rightarrow> nat \<Rightarrow> tq_want list \<Rightarrow> tq_model
     \<Rightarrow> tq_status \<times> 'c tq_store \<times> tq_want list \<times> tq_model" where
  "open_directory st hdr idx ws m =
     (if idx < unat (h_tensor_count hdr) then
        let left = unat (h_tensor_count hdr) - idx;
            take = (if left > TQ_DIR_CHUNK then TQ_DIR_CHUNK else left)
        in case tq_store_view st (ucast (h_tensor_table_offset hdr) + of_nat idx * 64) (of_nat take * 64) of
             (st1, None) \<Rightarrow> (TQ_ERR_TRUNCATED, st1, ws, m)
           | (st1, Some src) \<Rightarrow>
              (case open_entries hdr (map (\<lambda>k. entry_at src (k * 64)) [0..<take]) ws m of
                 (rc, ws1, m1) \<Rightarrow>
                   if rc \<noteq> TQ_OK then (rc, st1, ws1, m1)
                   else open_directory st1 hdr (idx + take) ws1 m1)
      else (TQ_OK, st, ws, m))"
  by pat_completeness auto
termination
  by (relation "measure (\<lambda>(st, hdr, idx, ws, m). unat (h_tensor_count hdr) - idx)")
    (auto simp: TQ_DIR_CHUNK_def split: if_splits)

declare open_directory.simps [simp del]

text \<open>The checks of the header, in the order of the code.\<close>

definition open_magic :: "tq_header \<Rightarrow> tq_status" where
  "open_magic hdr =
     (if h_magic hdr \<noteq> TQ_MAGIC then TQ_ERR_MAGIC
      else if h_version hdr \<noteq> TQ_VERSION \<or> h_header_bytes hdr \<noteq> TQ_HEADER_BYTES then TQ_ERR_VERSION
      else TQ_OK)"

definition open_header :: "tq_header \<Rightarrow> u64 \<Rightarrow> tq_status" where
  "open_header hdr store_bytes =
     (if h_arch hdr \<noteq> TQ_ARCH_LLAMA2 then TQ_ERR_UNSUPPORTED
      else if h_qtype hdr \<noteq> TQ_DT_Q4_0 \<and> h_qtype hdr \<noteq> TQ_DT_Q8_0 then TQ_ERR_UNSUPPORTED
      else if h_group_size hdr \<noteq> of_nat TQ_GROUP_SIZE then TQ_ERR_UNSUPPORTED
      else if h_file_bytes hdr > store_bytes then TQ_ERR_TRUNCATED
      else if h_dim hdr \<le> 0 \<or> h_n_layers hdr \<le> 0 \<or> h_n_heads hdr \<le> 0 \<or> h_n_kv_heads hdr \<le> 0 \<or>
              h_vocab_size hdr \<le> 0 \<or> h_seq_len hdr \<le> 0 \<or> h_hidden_dim hdr \<le> 0 then TQ_ERR_SHAPE
      else if h_dim hdr mod h_n_heads hdr \<noteq> 0 \<or> h_n_heads hdr mod h_n_kv_heads hdr \<noteq> 0 then TQ_ERR_SHAPE
      else if h_dim hdr mod int TQ_GROUP_SIZE \<noteq> 0 \<or> h_hidden_dim hdr mod int TQ_GROUP_SIZE \<noteq> 0 then TQ_ERR_SHAPE
      else TQ_OK)"

definition open_dims :: "tq_header \<Rightarrow> tq_model \<Rightarrow> tq_model" where
  "open_dims hdr m = m
     \<lparr>m_dim := h_dim hdr, m_hidden_dim := h_hidden_dim hdr, m_n_layers := h_n_layers hdr,
      m_n_heads := h_n_heads hdr, m_n_kv_heads := h_n_kv_heads hdr, m_vocab_size := h_vocab_size hdr,
      m_seq_len := h_seq_len hdr, m_qtype := h_qtype hdr, m_head_size := h_dim hdr div h_n_heads hdr,
      m_kv_dim := h_dim hdr div h_n_heads hdr * h_n_kv_heads hdr,
      m_kv_mul := h_n_heads hdr div h_n_kv_heads hdr\<rparr>"

definition layer_complete :: "tq_layer_offsets \<Rightarrow> bool" where
  "layer_complete lo \<longleftrightarrow>
     \<not> (lo_rms_att lo = 0 \<or> lo_rms_ffn lo = 0 \<or> lo_wq lo = 0 \<or> lo_wk lo = 0 \<or> lo_wv lo = 0 \<or>
        lo_wo lo = 0 \<or> lo_w1 lo = 0 \<or> lo_w2 lo = 0 \<or> lo_w3 lo = 0)"

text \<open>What follows the directory: required tensors, the shared classifier, complete layers.\<close>

definition open_finish :: "tq_want list \<Rightarrow> tq_model \<Rightarrow> tq_status \<times> tq_model" where
  "open_finish ws m =
     (if list_ex (\<lambda>w. w_required w \<and> \<not> w_found w) ws then (TQ_ERR_MISSING, m)
      else let m1 = (if h_shared_classifier (m_hdr m) \<noteq> 0 then m\<lparr>m_classifier := m_tok_emb m\<rparr> else m)
           in if list_all layer_complete (m_layers m1) then (TQ_OK, m1) else (TQ_ERR_MISSING, m1))"

text \<open>\<open>sizeof(TqLayerOffsets)\<close> is 72. The arena is given by its address and its size.\<close>

definition tq_model_open ::
  "'c tq_store \<Rightarrow> 'w::len word \<Rightarrow> 'w word \<Rightarrow> tq_status \<times> tq_model \<times> 'c tq_store" where
  "tq_model_open st arena arena_bytes =
     (let m = zero_model
      in case tq_store_view st 0 TQ_HEADER_BYTES of
           (st1, None) \<Rightarrow> (TQ_ERR_TRUNCATED, m, st1)
         | (st1, Some p) \<Rightarrow>
            let hdr = header_at p
            in if open_magic hdr \<noteq> TQ_OK then (open_magic hdr, m, st1)
               else let m = m\<lparr>m_hdr := hdr\<rparr>
               in if open_header hdr (st_bytes st1) \<noteq> TQ_OK then (open_header hdr (st_bytes st1), m, st1)
               else let m = open_dims hdr m
               in case tq_carve arena arena_bytes 0 (72 * word_of_int (m_n_layers m)) of
                    (used, None) \<Rightarrow> (TQ_ERR_NOMEM, m, st1)
                  | (used, Some layers) \<Rightarrow>
                     let m = m\<lparr>m_layers := replicate (nat (m_n_layers m)) no_offsets\<rparr>
                     in case open_directory st1 hdr 0 (open_wants m) m of
                          (rc, st2, ws, m) \<Rightarrow>
                            if rc \<noteq> TQ_OK then (rc, m, st2)
                            else case open_finish ws m of (rc, m) \<Rightarrow> (rc, m, st2))"

section \<open>Sizing and laying out the runtime\<close>

definition TQ_KV_F32 :: int where "TQ_KV_F32 = 0"
definition TQ_KV_Q8 :: int where "TQ_KV_Q8 = 1"

definition tq_kv_bytes :: "tq_model \<Rightarrow> int \<Rightarrow> int \<Rightarrow> 'w::len word" where
  "tq_kv_bytes m max_seq kv_dtype =
     (let n = word_of_int (m_n_layers m) * word_of_int max_seq * word_of_int (m_kv_dim m)
      in if kv_dtype = TQ_KV_Q8
         then let scales = word_of_int (m_n_layers m) * word_of_int max_seq * word_of_int (m_n_kv_heads m)
              in 2 * (n + tq_align_up (scales * 4) 16 + 16)
         else 2 * n * 4 + 32)"

text \<open>The sizes \<^verbatim>\<open>sizeof(float)\<close> = 4 and \<^verbatim>\<open>sizeof(TqBlockQ80)\<close> = 34.\<close>

definition tq_runtime_bytes :: "tq_model \<Rightarrow> int \<Rightarrow> 'w::len word" where
  "tq_runtime_bytes m max_seq =
     (let dim = word_of_int (m_dim m); hidden = word_of_int (m_hidden_dim m)
      in 4 * dim * 4 + 2 * hidden * 4 + 2 * word_of_int (m_kv_dim m) * 4 + word_of_int (m_head_size m) * 4
         + word_of_int (m_n_heads m) * word_of_int max_seq * 4 + word_of_int (m_vocab_size m) * 4
         + dim div of_nat TQ_GROUP_SIZE * 34 + hidden div of_nat TQ_GROUP_SIZE * 34 + 16 * 14)"

text \<open>The addresses of the runtime's buffers.\<close>

record 'a tq_layout =
  ly_x :: "'a option"
  ly_xb :: "'a option"
  ly_xb2 :: "'a option"
  ly_q :: "'a option"
  ly_hb :: "'a option"
  ly_hb3 :: "'a option"
  ly_att :: "'a option"
  ly_logits :: "'a option"
  ly_xq :: "'a option"
  ly_hq :: "'a option"
  ly_kb :: "'a option"
  ly_vb :: "'a option"
  ly_rope_cos :: "'a option"
  ly_rope_sin :: "'a option"
  ly_k_cache :: "'a option"
  ly_v_cache :: "'a option"
  ly_k_scale :: "'a option"
  ly_v_scale :: "'a option"

text \<open>A sequence of carves from one arena; one that fails does not stop the next.\<close>

fun carve_all :: "'w::len word \<Rightarrow> 'w word \<Rightarrow> 'w word \<Rightarrow> 'w word list \<Rightarrow> 'w word \<times> 'w word option list" where
  "carve_all base cap used [] = (used, [])"
| "carve_all base cap used (n # ns) =
     (case tq_carve base cap used n of
        (used1, p) \<Rightarrow> (case carve_all base cap used1 ns of (used2, ps) \<Rightarrow> (used2, p # ps)))"

text \<open>The sizes of the carves from the fast arena, and from the cache arena, in order.\<close>

definition fast_sizes :: "tq_model \<Rightarrow> int \<Rightarrow> 'w::len word list" where
  "fast_sizes m max_seq =
     (let dim = word_of_int (m_dim m); hidden = word_of_int (m_hidden_dim m)
      in [dim * 4, dim * 4, dim * 4, dim * 4, hidden * 4, hidden * 4,
          word_of_int (m_n_heads m) * word_of_int max_seq * 4, word_of_int (m_vocab_size m) * 4,
          dim div of_nat TQ_GROUP_SIZE * 34, hidden div of_nat TQ_GROUP_SIZE * 34,
          word_of_int (m_kv_dim m) * 4, word_of_int (m_kv_dim m) * 4,
          word_of_int (m_head_size m div 2) * 4, word_of_int (m_head_size m div 2) * 4])"

definition cache_sizes :: "tq_model \<Rightarrow> int \<Rightarrow> int \<Rightarrow> 'w::len word list" where
  "cache_sizes m max_seq kv_dtype =
     (let kvn = word_of_int (m_n_layers m) * word_of_int max_seq * word_of_int (m_kv_dim m);
          ns = word_of_int (m_n_layers m) * word_of_int max_seq * word_of_int (m_n_kv_heads m)
      in if kv_dtype = TQ_KV_F32 then [kvn * 4, kvn * 4] else [kvn, kvn, ns * 4, ns * 4])"

definition tq_runtime_init ::
  "tq_model \<Rightarrow> int \<Rightarrow> int \<Rightarrow> 'w::len word \<Rightarrow> 'w word \<Rightarrow> 'w word \<Rightarrow> 'w word \<Rightarrow> tq_status + 'w word tq_layout" where
  "tq_runtime_init m max_seq kv_dtype fast fast_bytes cache cache_bytes =
     (if max_seq \<le> 0 \<or> max_seq > m_seq_len m then Inl TQ_ERR_RANGE
      else if kv_dtype \<noteq> TQ_KV_F32 \<and> kv_dtype \<noteq> TQ_KV_Q8 then Inl TQ_ERR_RANGE
      else let fs = snd (carve_all fast fast_bytes 0 (fast_sizes m max_seq))
           in if list_ex (\<lambda>p. p = None) fs then Inl TQ_ERR_NOMEM
              else let cs = snd (carve_all cache cache_bytes 0 (cache_sizes m max_seq kv_dtype))
                   in if list_ex (\<lambda>p. p = None) cs then Inl TQ_ERR_NOMEM
                      else Inr \<lparr>ly_x = fs ! 0, ly_xb = fs ! 1, ly_xb2 = fs ! 2, ly_q = fs ! 3, ly_hb = fs ! 4,
                                ly_hb3 = fs ! 5, ly_att = fs ! 6, ly_logits = fs ! 7, ly_xq = fs ! 8, ly_hq = fs ! 9,
                                ly_kb = fs ! 10, ly_vb = fs ! 11, ly_rope_cos = fs ! 12, ly_rope_sin = fs ! 13,
                                ly_k_cache = cs ! 0, ly_v_cache = cs ! 1,
                                ly_k_scale = (if kv_dtype = TQ_KV_F32 then None else cs ! 2),
                                ly_v_scale = (if kv_dtype = TQ_KV_F32 then None else cs ! 3)\<rparr>)"

section \<open>Arenas, in natural numbers\<close>

lemma unat_and_low: "unat (w AND 15 :: 'w::len word) = unat w mod 16"
proof -
  have "w AND 15 = take_bit 4 w" by (simp add: take_bit_eq_mask mask_numeral)
  then have "unat (w AND 15) = take_bit 4 (unat w)" by (simp only: unsigned_take_bit_eq)
  then show ?thesis by (simp add: take_bit_eq_mod)
qed

lemma and_not_low: "w AND NOT 15 = push_bit 4 (drop_bit 4 (w :: 'w::len word))"
proof -
  have m: "(15 :: 'w word) = mask 4" by (simp add: mask_numeral)
  show ?thesis unfolding m by (rule bit_eqI) (auto simp only: bit_simps not_less o_apply le_add_diff_inverse)
qed

lemma unat_align_up:
  assumes "unat (v :: 'w::len word) + 15 < 2 ^ LENGTH('w)"
  shows "unat (tq_align_up v 16) = (unat v + 15) div 16 * 16"
proof -
  have l: "unat (v + 15) = unat v + 15"
  proof -
    have "unat (15 :: 'w word) = 15 mod 2 ^ LENGTH('w)" by (metis of_nat_numeral unat_of_nat)
    also have "\<dots> = 15" using assms by simp
    finally show ?thesis using assms by (simp add: unat_word_ariths)
  qed
  have "(unat v + 15) div 16 * 16 \<le> unat v + 15" by simp
  then have s: "(unat v + 15) div 16 * 16 < 2 ^ LENGTH('w)" using assms by (rule le_less_trans)
  have "v + 16 - 1 = v + 15" "16 - 1 = (15 :: 'w word)" by (simp_all add: algebra_simps)
  then have "tq_align_up v 16 = push_bit 4 (drop_bit 4 (v + 15))"
    unfolding tq_align_up_def and_not_low [symmetric] by (simp only:)
  then show ?thesis using s by (simp add: unat_push_mod unat_drop_div l)
qed

lemma ceil16: "x \<le> (x + 15) div 16 * 16" "(x + 15) div 16 * 16 \<le> x + (15 :: nat)"
  using div_mult_mod_eq [of "x + 15" 16] mod_less_divisor [of 16 "x + 15"] by linarith+

text \<open>The offset at which a carve starts, for an arena that begins \<open>s\<close> bytes past a multiple of 16.\<close>

definition carve_off :: "nat \<Rightarrow> nat \<Rightarrow> nat" where
  "carve_off s used = (used + s + 15) div 16 * 16 - s"

lemma carve_off:
  assumes "s < 16"
  shows "used \<le> carve_off s used" and "carve_off s used \<le> used + 15"
    and "(carve_off s used + s) mod 16 = 0"
proof -
  define q where "q = (used + s + 15) div 16"
  have q: "q * 16 \<le> used + s + 15" "used + s \<le> q * 16" unfolding q_def using ceil16 [of "used + s"] by simp_all
  then show "used \<le> carve_off s used" "carve_off s used \<le> used + 15"
    by (auto simp: carve_off_def q_def [symmetric])
  have "carve_off s used + s = q * 16" using q(2) by (simp add: carve_off_def q_def [symmetric])
  then show "(carve_off s used + s) mod 16 = 0" by simp
qed

lemma carve_value:
  assumes "unat used + unat n + 32 \<le> 2 ^ LENGTH('w)"
  shows "tq_carve base cap (used :: 'w::len word) n =
    (let off = carve_off (unat base mod 16) (unat used)
     in if off + unat n > unat cap then (used, None) else (of_nat (off + unat n), Some (base + of_nat off)))"
proof -
  define s where "s = unat base mod 16"
  have s: "s < 16" "unat (base AND 15) = s" by (simp_all add: s_def unat_and_low)
  note c = carve_off [OF s(1), of "unat used"]
  have us: "unat (used + (base AND 15)) = unat used + s" using assms s by (simp add: unat_word_ariths)
  have a: "unat (tq_align_up (used + (base AND 15)) 16) = (unat used + s + 15) div 16 * 16"
    using assms s us by (subst unat_align_up) simp_all
  have sle: "s \<le> (unat used + s + 15) div 16 * 16" using ceil16(1) [of "unat used + s"] by linarith
  have "base AND 15 \<le> tq_align_up (used + (base AND 15)) 16"
    unfolding word_le_nat_alt a s(2) by (rule sle)
  then have o: "unat (tq_align_up (used + (base AND 15)) 16 - (base AND 15)) = carve_off s (unat used)"
    by (simp add: unat_sub a s(2) carve_off_def)
  have on: "unat (tq_align_up (used + (base AND 15)) 16 - (base AND 15) + n) = carve_off s (unat used) + unat n"
    using c(2) assms by (simp add: unat_word_ariths o)
  have ow: "tq_align_up (used + (base AND 15)) 16 - (base AND 15) = of_nat (carve_off s (unat used))"
    using arg_cong [OF o, of "of_nat :: nat \<Rightarrow> 'w word"] by simp
  have onw: "tq_align_up (used + (base AND 15)) 16 - (base AND 15) + n = of_nat (carve_off s (unat used) + unat n)"
    using arg_cong [OF on, of "of_nat :: nat \<Rightarrow> 'w word"] by simp
  show ?thesis
    unfolding tq_carve_def Let_def word_less_nat_alt on s_def [symmetric]
    by (simp only: onw) (simp only: ow)
qed

fun carve_end :: "nat \<Rightarrow> nat \<Rightarrow> nat list \<Rightarrow> nat" where
  "carve_end s used [] = used"
| "carve_end s used (n # ns) = carve_end s (carve_off s used + n) ns"

lemma carve_end_mono: "s < 16 \<Longrightarrow> used \<le> carve_end s used ns"
proof (induction ns arbitrary: used)
  case (Cons n ns)
  have "used \<le> carve_off s used + n" using carve_off(1) [OF Cons.prems] by (rule trans_le_add1)
  also have "\<dots> \<le> carve_end s (carve_off s used + n) ns" by (rule Cons.IH [OF Cons.prems])
  finally show ?case by simp
qed simp

lemma carve_end_bound: "s < 16 \<Longrightarrow> carve_end s used ns \<le> used + sum_list ns + 15 * length ns"
proof (induction ns arbitrary: used)
  case (Cons n ns)
  have "carve_end s used (n # ns) \<le> carve_off s used + n + sum_list ns + 15 * length ns"
    using Cons.IH [OF Cons.prems, of "carve_off s used + n"] by simp
  also have "\<dots> \<le> used + sum_list (n # ns) + 15 * length (n # ns)"
    using carve_off(2) [OF Cons.prems, of used] by simp
  finally show ?case .
qed simp

text \<open>
  What a successful layout is: each buffer lies in the arena at an address that is a multiple
  of 16, and the buffers lie one after the other.
\<close>

definition laid_out :: "'w::len word \<Rightarrow> 'w word \<Rightarrow> 'w word option list \<Rightarrow> nat list \<Rightarrow> bool" where
  "laid_out base cap ps ns \<longleftrightarrow>
     (\<exists>offs. ps = map (\<lambda>off. Some (base + of_nat off)) offs \<and> length offs = length ns \<and>
        (\<forall>i < length ns. offs ! i + ns ! i \<le> unat cap \<and> (unat base + offs ! i) mod 16 = 0) \<and>
        (\<forall>i j. i < j \<longrightarrow> j < length ns \<longrightarrow> offs ! i + ns ! i \<le> offs ! j))"

lemma carve_all_laid_out:
  assumes "carve_end (unat base mod 16) (unat used) (map unat ns) \<le> unat cap"
    and "unat cap + 32 \<le> 2 ^ LENGTH('w)"
  shows "\<exists>offs. snd (carve_all base cap (used :: 'w::len word) ns) = map (\<lambda>off. Some (base + of_nat off)) offs
    \<and> length offs = length ns
    \<and> (\<forall>i < length ns. unat used \<le> offs ! i \<and> offs ! i + unat (ns ! i) \<le> unat cap \<and> (unat base + offs ! i) mod 16 = 0)
    \<and> (\<forall>i j. i < j \<longrightarrow> j < length ns \<longrightarrow> offs ! i + unat (ns ! i) \<le> offs ! j)"
  using assms
proof (induction ns arbitrary: used)
  case (Cons n ns)
  define s where "s = unat base mod 16"
  have s: "s < 16" by (simp add: s_def)
  note c = carve_off [OF s, of "unat used"]
  let ?o = "carve_off s (unat used)"
  have e: "carve_end s (?o + unat n) (map unat ns) \<le> unat cap" using Cons.prems(1) by (simp add: s_def)
  then have on: "?o + unat n \<le> unat cap" using carve_end_mono [OF s] le_trans by blast
  have "unat used + unat n + 32 \<le> 2 ^ LENGTH('w)" using on c(1) Cons.prems(2) by linarith
  note v = carve_value [OF this, of base cap]
  have t: "tq_carve base cap used n = (of_nat (?o + unat n), Some (base + of_nat ?o))"
    unfolding v s_def [symmetric] Let_def using on by simp
  have u: "unat (of_nat (?o + unat n) :: 'w word) = ?o + unat n"
    using on Cons.prems(2) by (intro unat_of_nat_id) linarith
  obtain offs where offs: "snd (carve_all base cap (of_nat (?o + unat n)) ns) = map (\<lambda>off. Some (base + of_nat off)) offs"
    "length offs = length ns"
    "\<And>i. i < length ns \<Longrightarrow> ?o + unat n \<le> offs ! i \<and> offs ! i + unat (ns ! i) \<le> unat cap \<and> (unat base + offs ! i) mod 16 = 0"
    "\<And>i j. i < j \<Longrightarrow> j < length ns \<Longrightarrow> offs ! i + unat (ns ! i) \<le> offs ! j"
    using Cons.IH [of "of_nat (?o + unat n)"] e Cons.prems(2) unfolding s_def [symmetric] u by blast
  have al: "(unat base + ?o) mod 16 = 0"
    using c(3) unfolding s_def by (metis add.commute mod_add_left_eq)
  show ?case
  proof (intro exI [of _ "?o # offs"] conjI allI impI)
    show "snd (carve_all base cap used (n # ns)) = map (\<lambda>off. Some (base + of_nat off)) (?o # offs)"
      using offs(1) t by (auto split: prod.splits)
    show "length (?o # offs) = length (n # ns)" using offs(2) by simp
  next
    fix i assume "i < length (n # ns)"
    then show "unat used \<le> (?o # offs) ! i" "(?o # offs) ! i + unat ((n # ns) ! i) \<le> unat cap"
      "(unat base + (?o # offs) ! i) mod 16 = 0"
      using on c(1) al offs(3) [of "i - 1"] by (cases i; simp)+
  next
    fix i j :: nat assume "i < j" "j < length (n # ns)"
    then show "(?o # offs) ! i + unat ((n # ns) ! i) \<le> (?o # offs) ! j"
      using offs(3) [of "j - 1"] offs(4) [of "i - 1" "j - 1"] by (cases i; cases j) simp_all
  qed
qed simp

lemma carve_all_ok:
  assumes "carve_end (unat base mod 16) 0 (map unat ns) \<le> unat cap"
    and "unat cap + 32 \<le> 2 ^ LENGTH('w)"
  shows "laid_out base cap (snd (carve_all base cap (0 :: 'w::len word) ns)) (map unat ns)"
    and "\<not> list_ex (\<lambda>p. p = None) (snd (carve_all base cap (0 :: 'w::len word) ns))"
    and "length (snd (carve_all base cap (0 :: 'w::len word) ns)) = length ns"
  using carve_all_laid_out [of base 0 ns cap] assms
  by (auto simp: laid_out_def list_ex_iff)

section \<open>The runtime's memory\<close>

text \<open>What \<^verbatim>\<open>tq_model_open\<close> guarantees of a model's dimensions.\<close>

definition dims_ok :: "tq_model \<Rightarrow> bool" where
  "dims_ok m \<longleftrightarrow> 0 < m_dim m \<and> 0 < m_hidden_dim m \<and> 0 < m_n_layers m \<and> 0 < m_n_heads m \<and> 0 < m_n_kv_heads m
     \<and> 0 < m_vocab_size m \<and> 0 < m_seq_len m \<and> m_dim m mod 32 = 0 \<and> m_hidden_dim m mod 32 = 0
     \<and> m_head_size m * m_n_heads m = m_dim m \<and> m_kv_mul m * m_n_kv_heads m = m_n_heads m
     \<and> m_kv_dim m = m_head_size m * m_n_kv_heads m"

lemma dims_ok_pos:
  assumes "dims_ok m"
  shows "0 < m_head_size m" and "0 < m_kv_dim m"
proof -
  show "0 < m_head_size m" using assms by (metis dims_ok_def zero_less_mult_pos2)
  then show "0 < m_kv_dim m" using assms by (simp add: dims_ok_def)
qed

text \<open>The sizes as natural numbers.\<close>

definition fast_need :: "tq_model \<Rightarrow> int \<Rightarrow> nat list" where
  "fast_need m max_seq =
     (let D = nat (m_dim m); H = nat (m_hidden_dim m); K = nat (m_kv_dim m); S = nat (m_head_size m)
      in [D * 4, D * 4, D * 4, D * 4, H * 4, H * 4, nat (m_n_heads m) * nat max_seq * 4, nat (m_vocab_size m) * 4,
          D div 32 * 34, H div 32 * 34, K * 4, K * 4, S div 2 * 4, S div 2 * 4])"

definition runtime_need :: "tq_model \<Rightarrow> int \<Rightarrow> nat" where
  "runtime_need m max_seq =
     (let D = nat (m_dim m); H = nat (m_hidden_dim m); K = nat (m_kv_dim m); S = nat (m_head_size m)
      in 4 * D * 4 + 2 * H * 4 + 2 * K * 4 + S * 4 + nat (m_n_heads m) * nat max_seq * 4 + nat (m_vocab_size m) * 4
         + D div 32 * 34 + H div 32 * 34 + 16 * 14)"

definition cache_need :: "tq_model \<Rightarrow> int \<Rightarrow> int \<Rightarrow> nat list" where
  "cache_need m max_seq kv_dtype =
     (let n = nat (m_n_layers m) * nat max_seq * nat (m_kv_dim m);
          s = nat (m_n_layers m) * nat max_seq * nat (m_n_kv_heads m)
      in if kv_dtype = TQ_KV_F32 then [n * 4, n * 4] else [n, n, s * 4, s * 4])"

definition kv_need :: "tq_model \<Rightarrow> int \<Rightarrow> int \<Rightarrow> nat" where
  "kv_need m max_seq kv_dtype =
     (let n = nat (m_n_layers m) * nat max_seq * nat (m_kv_dim m);
          s = nat (m_n_layers m) * nat max_seq * nat (m_n_kv_heads m)
      in if kv_dtype = TQ_KV_Q8 then 2 * (n + (s * 4 + 15) div 16 * 16 + 16) else 2 * n * 4 + 32)"

lemma of_nat_div32:
  assumes "D < 2 ^ LENGTH('w)" and "5 < LENGTH('w)"
  shows "(of_nat D :: 'w::len word) div 32 = of_nat (D div 32)"
proof -
  have "(2::nat) ^ 6 \<le> 2 ^ LENGTH('w)" using assms(2) by (intro power_increasing) auto
  then have "(32 :: nat) < 2 ^ LENGTH('w)" by simp
  from unat_of_nat_id [OF this] have t: "unat (32 :: 'w word) = 32" unfolding of_nat_numeral .
  have "unat ((of_nat D :: 'w word) div 32) = D div 32"
    unfolding unat_div t using assms(1) by (simp only: unat_of_nat_id)
  from arg_cong [OF this, of "of_nat :: nat \<Rightarrow> 'w word"] show ?thesis by simp
qed

lemma runtime_bytes_value:
  assumes "dims_ok m" and "0 < max_seq" and "5 < LENGTH('w)" and "runtime_need m max_seq < 2 ^ LENGTH('w)"
  shows "unat (tq_runtime_bytes m max_seq :: 'w::len word) = runtime_need m max_seq"
    and "map unat (fast_sizes m max_seq :: 'w word list) = fast_need m max_seq"
proof -
  define D H K S N V q where "D = nat (m_dim m)" and "H = nat (m_hidden_dim m)" and "K = nat (m_kv_dim m)"
    and "S = nat (m_head_size m)" and "N = nat (m_n_heads m)" and "V = nat (m_vocab_size m)" and "q = nat max_seq"
  note defs = D_def H_def K_def S_def N_def V_def q_def
  have rn: "runtime_need m max_seq = 4 * D * 4 + 2 * H * 4 + 2 * K * 4 + S * 4 + N * q * 4 + V * 4
      + D div 32 * 34 + H div 32 * 34 + 16 * 14" by (simp add: runtime_need_def defs Let_def)
  have w: "(word_of_int (m_dim m) :: 'w word) = of_nat D" "(word_of_int (m_hidden_dim m) :: 'w word) = of_nat H"
    "(word_of_int (m_kv_dim m) :: 'w word) = of_nat K" "(word_of_int (m_head_size m) :: 'w word) = of_nat S"
    "(word_of_int (m_n_heads m) :: 'w word) = of_nat N" "(word_of_int (m_vocab_size m) :: 'w word) = of_nat V"
    "(word_of_int max_seq :: 'w word) = of_nat q" "int (S div 2) = m_head_size m div 2"
    using assms(1,2) dims_ok_pos [OF assms(1)] by (simp_all add: dims_ok_def defs zdiv_int)
  have w8: "(word_of_int (m_head_size m div 2) :: 'w word) = of_nat (S div 2)"
    unfolding w(8) [symmetric] by (rule of_int_of_nat_eq)
  have d: "(of_nat D :: 'w word) div 32 = of_nat (D div 32)" "(of_nat H :: 'w word) div 32 = of_nat (H div 32)"
    using assms(3,4) by (intro of_nat_div32; simp add: rn)+
  have "(tq_runtime_bytes m max_seq :: 'w word) = of_nat (runtime_need m max_seq)"
    unfolding rn by (simp add: tq_runtime_bytes_def Let_def w(1-7) w8 d TQ_GROUP_SIZE_def)
  then show "unat (tq_runtime_bytes m max_seq :: 'w word) = runtime_need m max_seq"
    using assms(4) by (simp add: unat_of_nat_id)
  have s: "(fast_sizes m max_seq :: 'w word list) = map of_nat (fast_need m max_seq)"
    by (simp add: fast_sizes_def fast_need_def Let_def w(1-7) w8 d TQ_GROUP_SIZE_def defs [symmetric])
  have "x < 2 ^ LENGTH('w)" if "x \<in> set (fast_need m max_seq)" for x
    using that assms(4) unfolding rn fast_need_def Let_def defs [symmetric] by (auto intro: le_less_trans)
  then show "map unat (fast_sizes m max_seq :: 'w word list) = fast_need m max_seq"
    unfolding s by (simp add: map_idI unat_of_nat_id)
qed

lemma kv_bytes_value:
  assumes "dims_ok m" and "0 < max_seq" and "kv_dtype = TQ_KV_F32 \<or> kv_dtype = TQ_KV_Q8"
    and "kv_need m max_seq kv_dtype < 2 ^ LENGTH('w)"
  shows "unat (tq_kv_bytes m max_seq kv_dtype :: 'w::len word) = kv_need m max_seq kv_dtype"
    and "map unat (cache_sizes m max_seq kv_dtype :: 'w word list) = cache_need m max_seq kv_dtype"
proof -
  define n s where "n = nat (m_n_layers m) * nat max_seq * nat (m_kv_dim m)"
    and "s = nat (m_n_layers m) * nat max_seq * nat (m_n_kv_heads m)"
  have kn: "kv_need m max_seq kv_dtype = (if kv_dtype = TQ_KV_Q8 then 2 * (n + (s * 4 + 15) div 16 * 16 + 16) else 2 * n * 4 + 32)"
    by (simp add: kv_need_def n_def s_def)
  have w: "(word_of_int (m_n_layers m) * word_of_int max_seq * word_of_int (m_kv_dim m) :: 'w word) = of_nat n"
    "(word_of_int (m_n_layers m) * word_of_int max_seq * word_of_int (m_n_kv_heads m) :: 'w word) = of_nat s"
    using assms(1,2) dims_ok_pos [OF assms(1)] by (simp_all add: dims_ok_def n_def s_def)
  have c: "(cache_sizes m max_seq kv_dtype :: 'w word list) = map of_nat (cache_need m max_seq kv_dtype)"
    by (simp add: cache_sizes_def cache_need_def Let_def w n_def [symmetric] s_def [symmetric])
  have se: "s * 4 \<le> (s * 4 + 15) div 16 * 16" by (rule ceil16)
  have "x < 2 ^ LENGTH('w)" if "x \<in> set (cache_need m max_seq kv_dtype)" for x
    using that assms(3,4) se unfolding kn cache_need_def Let_def n_def [symmetric] s_def [symmetric]
    by (auto simp: TQ_KV_F32_def TQ_KV_Q8_def split: if_splits)
  then show "map unat (cache_sizes m max_seq kv_dtype :: 'w word list) = cache_need m max_seq kv_dtype"
    unfolding c by (simp add: map_idI unat_of_nat_id)
  show "unat (tq_kv_bytes m max_seq kv_dtype :: 'w word) = kv_need m max_seq kv_dtype"
  proof (cases "kv_dtype = TQ_KV_Q8")
    case True
    have b: "s * 4 + 15 < 2 ^ LENGTH('w)" using assms(4) True se unfolding kn by simp
    then have "unat (of_nat (s * 4) :: 'w word) = s * 4" by (intro unat_of_nat_id) simp
    then have "unat (tq_align_up (of_nat (s * 4) :: 'w word) 16) = (s * 4 + 15) div 16 * 16"
      using b by (subst unat_align_up) simp_all
    then have "tq_align_up (of_nat (s * 4) :: 'w word) 16 = of_nat ((s * 4 + 15) div 16 * 16)"
      by (metis of_nat_unat ucast_id)
    then have "(tq_kv_bytes m max_seq kv_dtype :: 'w word) = of_nat (kv_need m max_seq kv_dtype)"
      using True by (simp add: tq_kv_bytes_def Let_def w kn [unfolded True])
    then show ?thesis using assms(4) by (simp add: unat_of_nat_id)
  next
    case False
    then have "(tq_kv_bytes m max_seq kv_dtype :: 'w word) = of_nat (kv_need m max_seq kv_dtype)"
      by (simp add: tq_kv_bytes_def Let_def w kn)
    then show ?thesis using assms(4) by (simp add: unat_of_nat_id)
  qed
qed

lemma fast_end:
  assumes "s < 16"
  shows "carve_end s 0 (fast_need m max_seq) \<le> runtime_need m max_seq"
proof -
  have "carve_end s 0 (fast_need m max_seq) \<le> 0 + sum_list (fast_need m max_seq) + 15 * length (fast_need m max_seq)"
    by (rule carve_end_bound [OF assms])
  also have "\<dots> \<le> runtime_need m max_seq"
  proof -
    have "S div 2 * 4 + S div 2 * 4 \<le> S * (4 :: nat)" for S by linarith
    then show ?thesis by (simp add: fast_need_def runtime_need_def Let_def)
  qed
  finally show ?thesis .
qed

lemma carve_off_aligned: "carve_off 0 u = (u + 15) div 16 * 16"
  by (simp add: carve_off_def)

lemma cache_end:
  assumes "kv_dtype = TQ_KV_F32 \<or> kv_dtype = TQ_KV_Q8"
  shows "carve_end 0 0 (cache_need m max_seq kv_dtype) \<le> kv_need m max_seq kv_dtype"
proof (cases "kv_dtype = TQ_KV_F32")
  case True
  have "carve_end 0 0 (cache_need m max_seq kv_dtype) \<le> 0 + sum_list (cache_need m max_seq kv_dtype) + 15 * length (cache_need m max_seq kv_dtype)"
    by (rule carve_end_bound) simp
  then show ?thesis using True by (simp add: cache_need_def kv_need_def Let_def TQ_KV_F32_def TQ_KV_Q8_def)
next
  case False
  then have q: "kv_dtype = TQ_KV_Q8" "TQ_KV_Q8 \<noteq> TQ_KV_F32" using assms by (simp_all add: TQ_KV_F32_def TQ_KV_Q8_def)
  define n s where "n = nat (m_n_layers m) * nat max_seq * nat (m_kv_dim m)"
    and "s = nat (m_n_layers m) * nat max_seq * nat (m_n_kv_heads m)"
  define a b where "a = (n + 15) div 16" and "b = (s * 4 + 15) div 16"
  have o: "(a * 16 + n + 15) div 16 = a + a" "((a + a) * 16 + s * 4 + 15) div 16 = a + a + b"
    unfolding a_def b_def add.assoc by simp_all
  have "carve_off 0 0 = 0" "carve_off 0 n = a * 16" "carve_off 0 (a * 16 + n) = (a + a) * 16"
    "carve_off 0 ((a + a) * 16 + s * 4) = (a + a + b) * 16"
    unfolding carve_off_aligned o by (simp_all add: a_def)
  then have "carve_end 0 0 (cache_need m max_seq kv_dtype) = (a + a + b) * 16 + s * 4"
    using q by (simp only: cache_need_def Let_def n_def [symmetric] s_def [symmetric] if_False carve_end.simps add_0)
  moreover have "a * 16 \<le> n + 15" "s * 4 \<le> b * 16" unfolding a_def b_def by (rule ceil16)+
  ultimately show ?thesis
    using q by (simp add: kv_need_def Let_def n_def [symmetric] s_def [symmetric] b_def [symmetric])
qed

definition fast_buffers :: "'a tq_layout \<Rightarrow> 'a option list" where
  "fast_buffers ly = [ly_x ly, ly_xb ly, ly_xb2 ly, ly_q ly, ly_hb ly, ly_hb3 ly, ly_att ly, ly_logits ly,
     ly_xq ly, ly_hq ly, ly_kb ly, ly_vb ly, ly_rope_cos ly, ly_rope_sin ly]"

definition cache_buffers :: "int \<Rightarrow> 'a tq_layout \<Rightarrow> 'a option list" where
  "cache_buffers kv_dtype ly = [ly_k_cache ly, ly_v_cache ly]
     @ (if kv_dtype = TQ_KV_F32 then [] else [ly_k_scale ly, ly_v_scale ly])"

lemma list_length_14: "length xs = 14 \<Longrightarrow>
    xs = [xs ! 0, xs ! 1, xs ! 2, xs ! 3, xs ! 4, xs ! 5, xs ! 6, xs ! 7, xs ! 8, xs ! 9, xs ! 10, xs ! 11, xs ! 12, xs ! 13]"
  using map_nth [of xs] by (simp add: upt_rec numeral_eq_Suc)

lemma runtime_layout:
  fixes fast fast_bytes cache cache_bytes :: "'w::len word"
  assumes "dims_ok m" and "0 < max_seq" and "max_seq \<le> m_seq_len m"
    and "kv_dtype = TQ_KV_F32 \<or> kv_dtype = TQ_KV_Q8" and "5 < LENGTH('w)"
    and "runtime_need m max_seq < 2 ^ LENGTH('w)" and "tq_runtime_bytes m max_seq \<le> fast_bytes"
    and "kv_need m max_seq kv_dtype < 2 ^ LENGTH('w)" and "tq_kv_bytes m max_seq kv_dtype \<le> cache_bytes"
    and "unat fast_bytes + 32 \<le> 2 ^ LENGTH('w)" and "unat cache_bytes + 32 \<le> 2 ^ LENGTH('w)"
    and "unat cache mod 16 = 0"
  shows "\<exists>ly. tq_runtime_init m max_seq kv_dtype fast fast_bytes cache cache_bytes = Inr ly \<and>
    laid_out fast fast_bytes (fast_buffers ly) (fast_need m max_seq) \<and>
    laid_out cache cache_bytes (cache_buffers kv_dtype ly) (cache_need m max_seq kv_dtype)"
proof -
  note f = runtime_bytes_value [OF assms(1,2,5,6)] and c = kv_bytes_value [OF assms(1,2,4,8)]
  let ?fs = "snd (carve_all fast fast_bytes 0 (fast_sizes m max_seq))"
  let ?cs = "snd (carve_all cache cache_bytes 0 (cache_sizes m max_seq kv_dtype))"
  have "carve_end (unat fast mod 16) 0 (map unat (fast_sizes m max_seq :: 'w word list)) \<le> unat fast_bytes"
    using fast_end [of "unat fast mod 16" m max_seq] assms(7) unfolding f(2) by (simp add: word_le_nat_alt f(1))
  note fa = carve_all_ok [OF this assms(10)]
  have "carve_end (unat cache mod 16) 0 (map unat (cache_sizes m max_seq kv_dtype :: 'w word list)) \<le> unat cache_bytes"
    using cache_end [OF assms(4), of m max_seq] assms(9) unfolding c(2) assms(12) by (simp add: word_le_nat_alt c(1))
  note ca = carve_all_ok [OF this assms(11)]
  have "length ?fs = 14" unfolding fa(3) by (simp add: fast_sizes_def Let_def)
  note fl = list_length_14 [OF this, symmetric]
  have cl: "[?cs ! 0, ?cs ! 1] @ (if kv_dtype = TQ_KV_F32 then [] else [?cs ! 2, ?cs ! 3]) = ?cs"
    using ca(3) by (auto simp: cache_sizes_def Let_def list_eq_iff_nth_eq less_Suc_eq_0_disj numeral_eq_Suc nth_Cons' split: if_splits)
  have args: "\<not> (max_seq \<le> 0 \<or> max_seq > m_seq_len m)" "\<not> (kv_dtype \<noteq> TQ_KV_F32 \<and> kv_dtype \<noteq> TQ_KV_Q8)"
    using assms(2-4) by auto
  show ?thesis
    unfolding tq_runtime_init_def Let_def if_not_P [OF args(1)] if_not_P [OF args(2)] if_not_P [OF fa(2)] if_not_P [OF ca(2)]
  proof (intro exI conjI, rule refl)
    show "laid_out fast fast_bytes (fast_buffers \<lparr>ly_x = ?fs ! 0, ly_xb = ?fs ! 1, ly_xb2 = ?fs ! 2, ly_q = ?fs ! 3,
        ly_hb = ?fs ! 4, ly_hb3 = ?fs ! 5, ly_att = ?fs ! 6, ly_logits = ?fs ! 7, ly_xq = ?fs ! 8, ly_hq = ?fs ! 9,
        ly_kb = ?fs ! 10, ly_vb = ?fs ! 11, ly_rope_cos = ?fs ! 12, ly_rope_sin = ?fs ! 13, ly_k_cache = ?cs ! 0,
        ly_v_cache = ?cs ! 1, ly_k_scale = (if kv_dtype = TQ_KV_F32 then None else ?cs ! 2),
        ly_v_scale = (if kv_dtype = TQ_KV_F32 then None else ?cs ! 3)\<rparr>) (fast_need m max_seq)"
      using fa(1) unfolding f(2) by (simp only: fast_buffers_def tq_layout.simps fl)
    show "laid_out cache cache_bytes (cache_buffers kv_dtype \<lparr>ly_x = ?fs ! 0, ly_xb = ?fs ! 1, ly_xb2 = ?fs ! 2, ly_q = ?fs ! 3,
        ly_hb = ?fs ! 4, ly_hb3 = ?fs ! 5, ly_att = ?fs ! 6, ly_logits = ?fs ! 7, ly_xq = ?fs ! 8, ly_hq = ?fs ! 9,
        ly_kb = ?fs ! 10, ly_vb = ?fs ! 11, ly_rope_cos = ?fs ! 12, ly_rope_sin = ?fs ! 13, ly_k_cache = ?cs ! 0,
        ly_v_cache = ?cs ! 1, ly_k_scale = (if kv_dtype = TQ_KV_F32 then None else ?cs ! 2),
        ly_v_scale = (if kv_dtype = TQ_KV_F32 then None else ?cs ! 3)\<rparr>) (cache_need m max_seq kv_dtype)"
      using ca(1) cl unfolding c(2) by (cases "kv_dtype = TQ_KV_F32") (simp_all add: cache_buffers_def)
  qed
qed

text \<open>
  C30: the runtime fits. For a model with sound dimensions, a sequence length within the model's
  and a known cache type, arenas of the sizes that \<^verbatim>\<open>tq_runtime_bytes\<close> and \<^verbatim>\<open>tq_kv_bytes\<close> give
  are enough: initialisation succeeds, every buffer has its size, lies inside its arena at an
  address divisible by 16, and no two buffers overlap. The sizes must not wrap around; the
  cache must begin at a multiple of 16, the fast arena may begin anywhere.
\<close>

theorem runtime_init_lays_out:
  fixes fast fast_bytes cache cache_bytes :: "'w::len word"
  assumes "dims_ok m" and "0 < max_seq" and "max_seq \<le> m_seq_len m"
    and "kv_dtype = TQ_KV_F32 \<or> kv_dtype = TQ_KV_Q8" and "5 < LENGTH('w)"
    and "runtime_need m max_seq < 2 ^ LENGTH('w)" and "tq_runtime_bytes m max_seq \<le> fast_bytes"
    and "kv_need m max_seq kv_dtype < 2 ^ LENGTH('w)" and "tq_kv_bytes m max_seq kv_dtype \<le> cache_bytes"
    and "unat fast_bytes + 32 \<le> 2 ^ LENGTH('w)" and "unat cache_bytes + 32 \<le> 2 ^ LENGTH('w)"
    and "unat cache mod 16 = 0"
  shows "\<exists>ly. tq_runtime_init m max_seq kv_dtype fast fast_bytes cache cache_bytes = Inr ly \<and>
    laid_out fast fast_bytes (fast_buffers ly) (fast_need m max_seq) \<and>
    laid_out cache cache_bytes (cache_buffers kv_dtype ly) (cache_need m max_seq kv_dtype)"
  by (rule runtime_layout [OF assms])

text \<open>A one-layer model of 32 heads of size 1 that share one key and value head.\<close>

definition tiny_model :: tq_model where
  "tiny_model = zero_model\<lparr>m_dim := 32, m_hidden_dim := 32, m_n_layers := 1, m_n_heads := 32, m_n_kv_heads := 1,
     m_vocab_size := 4, m_seq_len := 1, m_head_size := 1, m_kv_dim := 1, m_kv_mul := 32\<rparr>"

lemma tiny_model_ok: "dims_ok tiny_model"
  by (simp add: dims_ok_def tiny_model_def)

theorem runtime_init_lays_out_witness:
  "\<exists>ly. tq_runtime_init tiny_model 1 TQ_KV_Q8 (0x20000002 :: 32 word) 2000 0x70000000 1000 = Inr ly \<and>
    laid_out 0x20000002 2000 (fast_buffers ly) (fast_need tiny_model 1) \<and>
    laid_out 0x70000000 1000 (cache_buffers TQ_KV_Q8 ly) (cache_need tiny_model 1 TQ_KV_Q8)"
proof -
  have n: "runtime_need tiny_model 1 = 1216" "kv_need tiny_model 1 TQ_KV_Q8 = 66"
    by (simp_all add: runtime_need_def kv_need_def tiny_model_def Let_def)
  have b: "unat (tq_runtime_bytes tiny_model 1 :: 32 word) = 1216" "unat (tq_kv_bytes tiny_model 1 TQ_KV_Q8 :: 32 word) = 66"
    using runtime_bytes_value(1) [OF tiny_model_ok, of 1, where 'w = 32] kv_bytes_value(1) [OF tiny_model_ok, of 1 TQ_KV_Q8, where 'w = 32]
    by (simp_all add: n)
  show ?thesis
    by (rule runtime_init_lays_out [OF tiny_model_ok]) (simp_all add: n b word_le_nat_alt, simp add: tiny_model_def)
qed

text \<open>
  The slack of \<^verbatim>\<open>tq_kv_bytes\<close> is not enough for a cache that begins elsewhere: here one of
  exactly the promised size, one byte past a multiple of 16, is refused.
\<close>

lemma kv_bytes_slack_short:
  "tq_runtime_init tiny_model 1 TQ_KV_Q8 (0x20000000 :: 32 word) 2000 0x70000001 (tq_kv_bytes tiny_model 1 TQ_KV_Q8)
     = Inl TQ_ERR_NOMEM"
  by code_simp

end
