(* ===== verification/Tq_Open.thy ===== *)
theory Tq_Open imports Tq_Model begin

text \<open>
  Opening a model: the directory walk of \<^verbatim>\<open>tq_model_open\<close> against a one-pass parser of images,
  its independence of the store and its chunks, and what an opened model refers to.
\<close>

unbundle bit_operations_syntax

section \<open>The directory as the image has it\<close>

definition dir_entries :: "u8 list \<Rightarrow> tq_header \<Rightarrow> nat \<Rightarrow> nat \<Rightarrow> tq_tensor_entry list" where
  "dir_entries img hdr idx n =
     map (\<lambda>k. entry_at img (unat (h_tensor_table_offset hdr) + (idx + k) * 64)) [0..<n]"

definition directory :: "u8 list \<Rightarrow> tq_header \<Rightarrow> tq_tensor_entry list" where
  "directory img hdr = dir_entries img hdr 0 (unat (h_tensor_count hdr))"

lemma dir_entries_append: "dir_entries img hdr idx (a + b) = dir_entries img hdr idx a @ dir_entries img hdr (idx + a) b"
proof -
  have "map (\<lambda>k. f (idx + k)) [a..<a + b] = map (\<lambda>k. f (idx + a + k)) [0..<b]" for f :: "nat \<Rightarrow> tq_tensor_entry"
    by (rule nth_equalityI) (simp_all add: add.assoc)
  from this [of "\<lambda>k. entry_at img (unat (h_tensor_table_offset hdr) + k * 64)"]
  show ?thesis unfolding dir_entries_def upt_add_eq_append [OF le0] map_append by (simp only: )
qed

lemma le32_cong:
  assumes "\<And>j. j < 4 \<Longrightarrow> p ! (i + j) = q ! (k + j)"
  shows "le32 p i = le32 q k"
  using assms [of 0] assms [of 1] assms [of 2] assms [of 3] by (simp add: le32_def)

lemma le64_cong:
  assumes "\<And>j. j < 8 \<Longrightarrow> p ! (i + j) = q ! (k + j)"
  shows "le64 p i = le64 q k"
proof -
  have "le32 p i = le32 q k" using assms by (intro le32_cong) simp
  moreover have "le32 p (i + 4) = le32 q (k + 4)" using assms by (intro le32_cong) (simp add: add.assoc)
  ultimately show ?thesis by (simp add: le64_def)
qed

lemma entry_at_cong:
  assumes "\<And>j. j < 64 \<Longrightarrow> p ! (i + j) = q ! (k + j)"
  shows "entry_at p i = entry_at q k"
proof -
  have a: "le32 p (i + a) = le32 q (k + a)" if "a + 4 \<le> 64" for a
    using that assms by (intro le32_cong) (simp add: add.assoc)
  have b: "le64 p (i + a) = le64 q (k + a)" if "a + 8 \<le> 64" for a
    using that assms by (intro le64_cong) (simp add: add.assoc)
  show ?thesis by (simp add: entry_at_def a b assms TQ_NAME_BYTES_def)
qed

lemma header_at_cong:
  assumes "\<And>j. j < 256 \<Longrightarrow> p ! j = q ! j"
  shows "header_at p = header_at q"
proof -
  have a: "le32 p a = le32 q a" if "a + 4 \<le> 256" for a
    using that assms by (intro le32_cong) simp
  have b: "le64 p a = le64 q a" if "a + 8 \<le> 256" for a
    using that assms by (intro le64_cong) simp
  show ?thesis by (simp add: header_at_def a b)
qed

lemma header_view:
  assumes "store_shows img lmt st" and "256 \<le> lmt"
  shows "if 256 \<le> length img
    then \<exists>st' p. tq_store_view st 0 TQ_HEADER_BYTES = (st', Some p) \<and> store_shows img lmt st' \<and> header_at p = header_at img
    else tq_store_view st 0 TQ_HEADER_BYTES = (st, None)"
proof (cases "256 \<le> length img")
  case True
  have n: "unat TQ_HEADER_BYTES = 256" by (simp add: TQ_HEADER_BYTES_def)
  obtain st' p where "tq_store_view st 0 TQ_HEADER_BYTES = (st', Some p)" "store_shows img lmt st'"
    "\<And>j. j < 256 \<Longrightarrow> p ! j = img ! j"
    using store.view_nth [OF assms(1), of 0 TQ_HEADER_BYTES] True assms(2) unfolding n unat_0 add_0 by blast
  then show ?thesis using True header_at_cong [of p img] by auto
next
  case False
  then show ?thesis using store.outside [OF assms(1), of 0 TQ_HEADER_BYTES] by (simp add: TQ_HEADER_BYTES_def)
qed

lemma chunk_word:
  assumes "i < 2 ^ 32" and "t \<le> 32"
  shows "unat (ucast (tbl :: u32) + of_nat i * 64 :: u64) = unat tbl + i * 64"
    and "unat (of_nat t * 64 :: u32) = t * 64"
proof -
  have "unat tbl < 2 ^ 32" using unat_bound [of tbl] by simp
  moreover have "unat (of_nat i :: u64) = i" using assms(1) by (intro unat_of_nat_id) simp
  moreover have "unat (ucast tbl :: u64) = unat tbl" using calculation(1) by (simp add: unat_ucast_mod)
  ultimately show "unat (ucast tbl + of_nat i * 64 :: u64) = unat tbl + i * 64"
    using assms(1) by (simp add: unat_word_ariths)
  have "unat (of_nat t :: u32) = t" using assms(2) by (intro unat_of_nat_id) simp
  then show "unat (of_nat t * 64 :: u32) = t * 64" using assms(2) by (simp add: unat_word_ariths)
qed

lemma chunk_view:
  assumes "store_shows img lmt st" and "2048 \<le> lmt" and "idx < 2 ^ 32" and "t \<le> 32"
  shows "if unat (h_tensor_table_offset hdr) + (idx + t) * 64 \<le> length img
    then \<exists>st' p. tq_store_view st (ucast (h_tensor_table_offset hdr) + of_nat idx * 64) (of_nat t * 64) = (st', Some p)
      \<and> store_shows img lmt st' \<and> map (\<lambda>k. entry_at p (k * 64)) [0..<t] = dir_entries img hdr idx t
    else tq_store_view st (ucast (h_tensor_table_offset hdr) + of_nat idx * 64) (of_nat t * 64) = (st, None)"
proof -
  let ?T = "unat (h_tensor_table_offset hdr)"
  note w = chunk_word(1) [OF assms(3,4), of "h_tensor_table_offset hdr"] chunk_word(2) [OF assms(3,4)]
  show ?thesis
  proof (cases "?T + (idx + t) * 64 \<le> length img")
    case True
    have r: "?T + idx * 64 + t * 64 \<le> length img" using True by simp
    have "t * 64 \<le> lmt" using assms(2,4) by simp
    then obtain st' p where v: "tq_store_view st (ucast (h_tensor_table_offset hdr) + of_nat idx * 64) (of_nat t * 64) = (st', Some p)"
      "store_shows img lmt st'" "\<And>j. j < t * 64 \<Longrightarrow> p ! j = img ! (?T + idx * 64 + j)"
      using store.view_nth [OF assms(1), of "ucast (h_tensor_table_offset hdr) + of_nat idx * 64" "of_nat t * 64"] r
      unfolding w by blast
    have "entry_at p (k * 64) = entry_at img (?T + (idx + k) * 64)" if k: "k < t" for k
    proof (rule entry_at_cong)
      fix j :: nat assume "j < 64"
      then have "k * 64 + j < t * 64" using k by linarith
      from v(3) [OF this] show "p ! (k * 64 + j) = img ! (?T + (idx + k) * 64 + j)"
        by (simp add: algebra_simps)
    qed
    then show ?thesis using True v(1,2) by (auto simp: dir_entries_def)
  next
    case False
    have b: "?T + idx * 64 + t * 64 < 2 ^ 64"
      using unat_bound [of "h_tensor_table_offset hdr"] assms(3,4) by simp
    have "length img < ?T + idx * 64 + t * 64" using False by simp
    from store.outside [OF assms(1), of "ucast (h_tensor_table_offset hdr) + of_nat idx * 64" "of_nat t * 64"] this b False
    show ?thesis unfolding w by simp
  qed
qed

lemma open_directory_step:
  assumes "store_shows img lmt st" and "2048 \<le> lmt" and "idx < unat (h_tensor_count hdr)"
  defines "t \<equiv> min (unat (h_tensor_count hdr) - idx) 32"
  shows "if unat (h_tensor_table_offset hdr) + (idx + t) * 64 \<le> length img
    then \<exists>st'. store_shows img lmt st' \<and> open_directory st hdr idx ws m =
      (case open_entries hdr (dir_entries img hdr idx t) ws m of
         (rc, ws1, m1) \<Rightarrow> if rc \<noteq> TQ_OK then (rc, st', ws1, m1) else open_directory st' hdr (idx + t) ws1 m1)
    else open_directory st hdr idx ws m = (TQ_ERR_TRUNCATED, st, ws, m)"
proof -
  have t: "(if unat (h_tensor_count hdr) - idx > TQ_DIR_CHUNK then TQ_DIR_CHUNK else unat (h_tensor_count hdr) - idx) = t"
    by (simp add: t_def TQ_DIR_CHUNK_def min_def)
  have i: "idx < 2 ^ 32" "t \<le> 32" using assms(3) unat_bound [of "h_tensor_count hdr"] by (simp_all add: t_def)
  note v = chunk_view [OF assms(1,2) i, of hdr]
  show ?thesis
  proof (cases "unat (h_tensor_table_offset hdr) + (idx + t) * 64 \<le> length img")
    case True
    then obtain st' p where p: "tq_store_view st (ucast (h_tensor_table_offset hdr) + of_nat idx * 64) (of_nat t * 64) = (st', Some p)"
      "store_shows img lmt st'" "map (\<lambda>k. entry_at p (k * 64)) [0..<t] = dir_entries img hdr idx t"
      using v by auto
    have "open_directory st hdr idx ws m =
      (case open_entries hdr (dir_entries img hdr idx t) ws m of
         (rc, ws1, m1) \<Rightarrow> if rc \<noteq> TQ_OK then (rc, st', ws1, m1) else open_directory st' hdr (idx + t) ws1 m1)"
      unfolding open_directory.simps [of st] Let_def t if_P [OF assms(3)] p(1) prod.case option.case p(3) ..
    then show ?thesis using True p(2) by auto
  next
    case False
    then have "tq_store_view st (ucast (h_tensor_table_offset hdr) + of_nat idx * 64) (of_nat t * 64) = (st, None)"
      using v by simp
    then show ?thesis
      unfolding if_not_P [OF False] open_directory.simps [of st] Let_def t if_P [OF assms(3)] by simp
  qed
qed

lemma open_directory_same:
  assumes "store_shows img l1 s1" and "store_shows img l2 s2" and "2048 \<le> l1" and "2048 \<le> l2"
  shows "\<exists>rc s1' s2' ws' m'. open_directory s1 hdr idx ws m = (rc, s1', ws', m') \<and>
    open_directory s2 hdr idx ws m = (rc, s2', ws', m') \<and> store_shows img l1 s1' \<and> store_shows img l2 s2'"
  using assms
proof (induction "unat (h_tensor_count hdr) - idx" arbitrary: idx s1 s2 ws m rule: less_induct)
  case less
  show ?case
  proof (cases "idx < unat (h_tensor_count hdr)")
    case False
    then show ?thesis using less.prems by (simp add: open_directory.simps)
  next
    case True
    define t where "t = min (unat (h_tensor_count hdr) - idx) 32"
    have d: "unat (h_tensor_count hdr) - (idx + t) < unat (h_tensor_count hdr) - idx" using True by (auto simp: t_def)
    note o1 = open_directory_step [OF less.prems(1,3) True, folded t_def, of ws m]
      and o2 = open_directory_step [OF less.prems(2,4) True, folded t_def, of ws m]
    show ?thesis
    proof (cases "unat (h_tensor_table_offset hdr) + (idx + t) * 64 \<le> length img")
      case False
      then show ?thesis using o1 o2 less.prems by simp
    next
      case fit: True
      obtain rc ws1 m1 where e: "open_entries hdr (dir_entries img hdr idx t) ws m = (rc, ws1, m1)"
        by (cases "open_entries hdr (dir_entries img hdr idx t) ws m")
      obtain s1' s2' where s: "store_shows img l1 s1'" "store_shows img l2 s2'"
        "open_directory s1 hdr idx ws m = (if rc \<noteq> TQ_OK then (rc, s1', ws1, m1) else open_directory s1' hdr (idx + t) ws1 m1)"
        "open_directory s2 hdr idx ws m = (if rc \<noteq> TQ_OK then (rc, s2', ws1, m1) else open_directory s2' hdr (idx + t) ws1 m1)"
        using o1 o2 fit unfolding e by auto
      show ?thesis
        using s less.hyps [OF d s(1,2) less.prems(3,4), of ws1 m1] by (cases "rc = TQ_OK") auto
    qed
  qed
qed

lemma open_entries_append:
  "open_entries hdr (es @ fs) ws m =
     (case open_entries hdr es ws m of
        (rc, ws1, m1) \<Rightarrow> if rc \<noteq> TQ_OK then (rc, ws1, m1) else open_entries hdr fs ws1 m1)"
  by (induction es arbitrary: ws m) (auto split: prod.splits)

lemma open_directory_ok:
  assumes "store_shows img lmt st" and "2048 \<le> lmt" and "open_directory st hdr idx ws m = (TQ_OK, st', ws', m')"
  shows "open_entries hdr (dir_entries img hdr idx (unat (h_tensor_count hdr) - idx)) ws m = (TQ_OK, ws', m')
    \<and> store_shows img lmt st'
    \<and> (idx < unat (h_tensor_count hdr) \<longrightarrow>
         unat (h_tensor_table_offset hdr) + unat (h_tensor_count hdr) * 64 \<le> length img)"
  using assms
proof (induction "unat (h_tensor_count hdr) - idx" arbitrary: idx st ws m rule: less_induct)
  case less
  show ?case
  proof (cases "idx < unat (h_tensor_count hdr)")
    case False
    then show ?thesis using less.prems by (simp add: open_directory.simps dir_entries_def)
  next
    case True
    define t where "t = min (unat (h_tensor_count hdr) - idx) 32"
    have d: "unat (h_tensor_count hdr) - (idx + t) < unat (h_tensor_count hdr) - idx"
      "unat (h_tensor_count hdr) - idx = t + (unat (h_tensor_count hdr) - (idx + t))" using True by (auto simp: t_def)
    note o = open_directory_step [OF less.prems(1,2) True, folded t_def, of ws m]
    obtain rc ws1 m1 where e: "open_entries hdr (dir_entries img hdr idx t) ws m = (rc, ws1, m1)"
      by (cases "open_entries hdr (dir_entries img hdr idx t) ws m")
    have fit: "unat (h_tensor_table_offset hdr) + (idx + t) * 64 \<le> length img"
      using o less.prems(3) by (auto split: if_splits)
    then obtain s1 where s: "store_shows img lmt s1" "rc = TQ_OK" "open_directory s1 hdr (idx + t) ws1 m1 = (TQ_OK, st', ws', m')"
      using o less.prems(3) unfolding e by (auto split: if_splits)
    note IH = less.hyps [OF d(1) s(1) less.prems(2) s(3)]
    have "idx + t = unat (h_tensor_count hdr) \<or> idx + t < unat (h_tensor_count hdr)" using True by (auto simp: t_def)
    then show ?thesis using IH fit True unfolding d(2) dir_entries_append open_entries_append e s(2) by auto
  qed
qed


section \<open>What an opened model refers to\<close>

text \<open>An entry has a type and a shape and lies, aligned, in the file.\<close>

definition tensor_fits :: "tq_header \<Rightarrow> tq_tensor_entry \<Rightarrow> u32 \<Rightarrow> u32 \<Rightarrow> u32 \<Rightarrow> bool" where
  "tensor_fits hdr e dt r c \<longleftrightarrow> e_dtype e = dt
     \<and> (c \<noteq> 0 \<longrightarrow> e_ndim e = 2 \<and> e_shape e ! 0 = r \<and> e_shape e ! 1 = c)
     \<and> (c = 0 \<longrightarrow> r \<noteq> 0 \<longrightarrow> e_ndim e = 1 \<and> e_shape e ! 0 = r)
     \<and> e_offset e mod TQ_ALIGN = 0 \<and> e_offset e + e_nbytes e \<le> h_file_bytes hdr"

fun global_field :: "want_slot \<Rightarrow> tq_model \<Rightarrow> u64" where
  "global_field W_tok_emb m = m_tok_emb m"
| "global_field W_rms_final m = m_rms_final m"
| "global_field W_classifier m = m_classifier m"
| "global_field W_scores m = m_tok_scores m"
| "global_field W_offs m = m_tok_offs m"
| "global_field W_blob m = m_tok_blob m"
| "global_field W_sorted m = m_tok_sorted m"

fun layer_field :: "layer_slot \<Rightarrow> tq_layer_offsets \<Rightarrow> u64" where
  "layer_field L_rms_att lo = lo_rms_att lo"
| "layer_field L_rms_ffn lo = lo_rms_ffn lo"
| "layer_field L_wq lo = lo_wq lo"
| "layer_field L_wk lo = lo_wk lo"
| "layer_field L_wv lo = lo_wv lo"
| "layer_field L_wo lo = lo_wo lo"
| "layer_field L_w1 lo = lo_w1 lo"
| "layer_field L_w2 lo = lo_w2 lo"
| "layer_field L_w3 lo = lo_w3 lo"

definition global_entry :: "tq_header \<Rightarrow> tq_tensor_entry \<Rightarrow> string \<Rightarrow> u32 \<Rightarrow> u32 \<Rightarrow> u32 \<Rightarrow> bool" where
  "global_entry hdr e name dt r c \<longleftrightarrow> tq_name_eq (e_name e) (cstr name @ [0]) \<and> tensor_fits hdr e dt r c"

definition layer_entry :: "tq_header \<Rightarrow> tq_model \<Rightarrow> nat \<Rightarrow> layer_slot \<Rightarrow> tq_tensor_entry \<Rightarrow> bool" where
  "layer_entry hdr m l slot e \<longleftrightarrow>
     e_name e ! 0 = of_char (CHR ''l'') \<and> e_name e ! 4 = of_char (CHR ''.'') \<and> unat (layer_index (e_name e)) = l \<and>
     (\<exists>dt r c. layer_want m (layer_suffix (e_name e)) = Some (slot, dt, r, c) \<and> tensor_fits hdr e dt r c)"

text \<open>Everything but the offsets.\<close>

definition skeleton :: "tq_model \<Rightarrow> tq_model" where
  "skeleton m = m\<lparr>m_tok_emb := 0, m_rms_final := 0, m_classifier := 0, m_layers := [], m_tok_scores := 0,
     m_tok_offs := 0, m_tok_blob := 0, m_tok_sorted := 0, m_tok_blob_bytes := 0\<rparr>"

lemma skeleton_store [simp]:
  "skeleton (store_want s v m) = skeleton m" "skeleton (m\<lparr>m_tok_blob_bytes := b\<rparr>) = skeleton m"
  "skeleton (m\<lparr>m_layers := ls\<rparr>) = skeleton m" "skeleton (m\<lparr>m_classifier := v\<rparr>) = skeleton m"
  by (cases s; simp add: skeleton_def)+

lemma skeleton_fields:
  assumes "skeleton m = skeleton m'"
  shows "m_hdr m = m_hdr m'" "m_dim m = m_dim m'" "m_hidden_dim m = m_hidden_dim m'" "m_n_layers m = m_n_layers m'"
    "m_n_heads m = m_n_heads m'" "m_n_kv_heads m = m_n_kv_heads m'" "m_vocab_size m = m_vocab_size m'"
    "m_seq_len m = m_seq_len m'" "m_head_size m = m_head_size m'" "m_kv_dim m = m_kv_dim m'"
    "m_kv_mul m = m_kv_mul m'" "m_qtype m = m_qtype m'"
proof -
  note a = arg_cong [OF assms]
  show "m_hdr m = m_hdr m'" "m_dim m = m_dim m'" "m_hidden_dim m = m_hidden_dim m'" "m_n_layers m = m_n_layers m'"
    "m_n_heads m = m_n_heads m'" "m_n_kv_heads m = m_n_kv_heads m'" "m_vocab_size m = m_vocab_size m'"
    "m_seq_len m = m_seq_len m'" "m_head_size m = m_head_size m'" "m_kv_dim m = m_kv_dim m'"
    "m_kv_mul m = m_kv_mul m'" "m_qtype m = m_qtype m'"
    using a [of m_hdr] a [of m_dim] a [of m_hidden_dim] a [of m_n_layers] a [of m_n_heads] a [of m_n_kv_heads]
      a [of m_vocab_size] a [of m_seq_len] a [of m_head_size] a [of m_kv_dim] a [of m_kv_mul] a [of m_qtype]
    by (simp_all add: skeleton_def)
qed

lemma skeleton_wants: "skeleton m = skeleton m' \<Longrightarrow> open_wants m = open_wants m'"
  by (simp add: open_wants_def skeleton_fields [of m m'])

lemma skeleton_layer_want: "skeleton m = skeleton m' \<Longrightarrow> layer_want m = layer_want m'"
  by (rule ext) (simp only: layer_want_def skeleton_fields [of m m'])

lemma skeleton_layer_entry: "skeleton m = skeleton m' \<Longrightarrow> layer_entry hdr m = layer_entry hdr m'"
  by (intro ext) (simp only: layer_entry_def skeleton_layer_want [of m m'])

lemma global_field_store [simp]:
  "global_field s (store_want t v m) = (if s = t then v else global_field s m)"
  "global_field s (m\<lparr>m_tok_blob_bytes := b\<rparr>) = global_field s m"
  "global_field s (m\<lparr>m_layers := ls\<rparr>) = global_field s m"
  by (cases s; cases t; simp) (cases s; simp)+

lemma layer_field_store [simp]:
  "layer_field s (store_layer t v lo) = (if s = t then v else layer_field s lo)"
  by (cases s; cases t; simp)

lemma layers_store [simp]: "m_layers (store_want t v m) = m_layers m"
  by (cases t; simp)

text \<open>A match takes the first want that is still open and has the entry's name.\<close>

lemma match_from_ok:
  assumes "match_from i ws e m = (TQ_OK, ws', m')"
  shows "(ws' = ws \<and> m' = m) \<or>
    (\<exists>k < length ws. tq_name_eq (e_name e) (w_name (ws ! k)) \<and> e_dtype e = w_dtype (ws ! k)
       \<and> (w_cols (ws ! k) \<noteq> 0 \<longrightarrow> e_ndim e = 2 \<and> e_shape e ! 0 = w_rows (ws ! k) \<and> e_shape e ! 1 = w_cols (ws ! k))
       \<and> (w_cols (ws ! k) = 0 \<longrightarrow> w_rows (ws ! k) \<noteq> 0 \<longrightarrow> e_ndim e = 1 \<and> e_shape e ! 0 = w_rows (ws ! k))
       \<and> ws' = ws[k := (ws ! k)\<lparr>w_found := True\<rparr>]
       \<and> (\<exists>b. m' = (store_want (w_offset (ws ! k)) (e_offset e) m)\<lparr>m_tok_blob_bytes := b\<rparr>))"
  using assms
proof (induction i ws e m rule: match_from.induct)
  case (1 i ws e m)
  show ?case
  proof (cases "i < length ws")
    case False
    then show ?thesis using 1(2) by (simp add: match_from.simps [of i])
  next
    case i: True
    show ?thesis
    proof (cases "w_found (ws ! i) \<or> \<not> tq_name_eq (e_name e) (w_name (ws ! i))")
      case True
      then show ?thesis using 1(1) [OF i refl True] 1(2) i by (simp add: match_from.simps [of i])
    next
      case False
      let ?w = "ws ! i" and ?M = "store_want (w_offset (ws ! i)) (e_offset e) m"
      have n: "\<not> e_dtype e \<noteq> w_dtype ?w"
        "\<not> (w_cols ?w \<noteq> 0 \<and> (e_ndim e \<noteq> 2 \<or> e_shape e ! 0 \<noteq> w_rows ?w \<or> e_shape e ! 1 \<noteq> w_cols ?w))"
        "\<not> (w_cols ?w = 0 \<and> w_rows ?w \<noteq> 0 \<and> (e_ndim e \<noteq> 1 \<or> e_shape e ! 0 \<noteq> w_rows ?w))"
        using 1(2) unfolding match_from.simps [of i] Let_def if_P [OF i] if_not_P [OF False]
        by (metis prod.inject tq_status.distinct(11))+
      have m': "ws' = ws[i := ?w\<lparr>w_found := True\<rparr>]" "m' = (if w_nbytes ?w then ?M\<lparr>m_tok_blob_bytes := ucast (e_nbytes e)\<rparr> else ?M)"
        using 1(2) unfolding match_from.simps [of i] Let_def if_P [OF i] if_not_P [OF False] if_not_P [OF n(1)]
          if_not_P [OF n(2)] if_not_P [OF n(3)] by simp_all
      have "\<exists>b. m' = ?M\<lparr>m_tok_blob_bytes := b\<rparr>" unfolding m'(2)
        by (cases "w_nbytes ?w") (auto intro: exI [of _ "m_tok_blob_bytes ?M"])
      then show ?thesis using n i False m'(1) by blast
    qed
  qed
qed

definition want_met :: "tq_header \<Rightarrow> tq_tensor_entry set \<Rightarrow> tq_model \<Rightarrow> tq_want \<Rightarrow> bool" where
  "want_met hdr es m w \<longleftrightarrow> (\<exists>e \<in> es. tq_name_eq (e_name e) (w_name w)
     \<and> tensor_fits hdr e (w_dtype w) (w_rows w) (w_cols w) \<and> global_field (w_offset w) m = e_offset e)"

definition layer_met :: "tq_header \<Rightarrow> tq_model \<Rightarrow> tq_tensor_entry set \<Rightarrow> tq_model \<Rightarrow> nat \<Rightarrow> layer_slot \<Rightarrow> bool" where
  "layer_met hdr m0 es m l slot \<longleftrightarrow>
     (\<exists>e \<in> es. layer_entry hdr m0 l slot e \<and> layer_field slot (m_layers m ! l) = e_offset e)"

text \<open>The invariant of the directory walk after the entries \<open>es\<close>.\<close>

definition dir_inv :: "tq_header \<Rightarrow> tq_model \<Rightarrow> tq_tensor_entry set \<Rightarrow> tq_want list \<Rightarrow> tq_model \<Rightarrow> bool" where
  "dir_inv hdr m0 es ws m \<longleftrightarrow> skeleton m = skeleton m0 \<and> length (m_layers m) = nat (m_n_layers m0)
     \<and> map (\<lambda>w. w\<lparr>w_found := False\<rparr>) ws = open_wants m0
     \<and> (\<forall>w \<in> set ws. w_found w \<longrightarrow> want_met hdr es m w)
     \<and> (\<forall>l < nat (m_n_layers m0). \<forall>slot. layer_field slot (m_layers m ! l) = 0 \<or> layer_met hdr m0 es m l slot)"

lemma met_mono:
  "want_met hdr es m w \<Longrightarrow> want_met hdr (insert e es) m w"
  "layer_met hdr m0 es m l slot \<Longrightarrow> layer_met hdr m0 (insert e es) m l slot"
  unfolding want_met_def layer_met_def by blast+

lemma dir_inv_mono: "dir_inv hdr m0 es ws m \<Longrightarrow> dir_inv hdr m0 (insert e es) ws m"
  unfolding dir_inv_def using met_mono by metis

lemma met_unchanged:
  "global_field (w_offset w) m' = global_field (w_offset w) m \<Longrightarrow> want_met hdr es m' w = want_met hdr es m w"
  "m_layers m' = m_layers m \<Longrightarrow> layer_met hdr m0 es m' l slot = layer_met hdr m0 es m l slot"
  by (simp_all add: want_met_def layer_met_def)

lemma wants_distinct:
  assumes "map (\<lambda>w. w\<lparr>w_found := False\<rparr>) ws = open_wants m"
  shows "distinct (map w_offset ws)"
proof -
  have "map w_offset ws = map w_offset (map (\<lambda>w. w\<lparr>w_found := False\<rparr>) ws)" by simp
  then show ?thesis unfolding assms by (simp add: open_wants_def Let_def)
qed

lemma match_inv:
  assumes inv: "dir_inv hdr m0 es ws m" and m: "tq_match ws e m = (TQ_OK, ws', m')"
    and fit: "e_offset e mod TQ_ALIGN = 0" "e_offset e + e_nbytes e \<le> h_file_bytes hdr"
  shows "dir_inv hdr m0 (insert e es) ws' m'"
proof -
  note d = dir_inv_mono [OF inv, of e, unfolded dir_inv_def]
  from match_from_ok [OF m [unfolded tq_match_def]] show ?thesis
  proof (elim disjE exE conjE)
    assume "ws' = ws" "m' = m"
    then show ?thesis using dir_inv_mono [OF inv] by simp
  next
    fix k b
    assume k: "k < length ws" "tq_name_eq (e_name e) (w_name (ws ! k))" "e_dtype e = w_dtype (ws ! k)"
      "w_cols (ws ! k) \<noteq> 0 \<longrightarrow> e_ndim e = 2 \<and> e_shape e ! 0 = w_rows (ws ! k) \<and> e_shape e ! 1 = w_cols (ws ! k)"
      "w_cols (ws ! k) = 0 \<longrightarrow> w_rows (ws ! k) \<noteq> 0 \<longrightarrow> e_ndim e = 1 \<and> e_shape e ! 0 = w_rows (ws ! k)"
      and ws': "ws' = ws[k := (ws ! k)\<lparr>w_found := True\<rparr>]"
      and m': "m' = (store_want (w_offset (ws ! k)) (e_offset e) m)\<lparr>m_tok_blob_bytes := b\<rparr>"
    have dist: "distinct (map w_offset ws)" using d wants_distinct by blast
    have st: "map (\<lambda>w. w\<lparr>w_found := False\<rparr>) ws' = open_wants m0"
    proof -
      have "map (\<lambda>w. w\<lparr>w_found := False\<rparr>) ws' = map (\<lambda>w. w\<lparr>w_found := False\<rparr>) ws"
        unfolding ws' using list_update_id [of "map (\<lambda>w. w\<lparr>w_found := False\<rparr>) ws" k] k(1) by (simp add: map_update)
      also have "\<dots> = open_wants m0" using d by blast
      finally show ?thesis .
    qed
    have w: "want_met hdr (insert e es) m' w" if mem: "w \<in> set ws'" and fnd: "w_found w" for w
    proof -
      obtain j where j': "j < length ws'" "w = ws' ! j" using mem [unfolded in_set_conv_nth] by blast
      then have j: "j < length ws" "w = ws' ! j" by (simp_all add: ws')
      show ?thesis
      proof (cases "j = k")
        case True
        then have "w = (ws ! k)\<lparr>w_found := True\<rparr>" using j k(1) by (simp add: ws')
        then show ?thesis using k fit unfolding want_met_def by (intro bexI [of _ e]) (simp_all add: tensor_fits_def m')
      next
        case False
        then have wj: "w = ws ! j" using j by (simp add: ws')
        have "w_offset w \<noteq> w_offset (ws ! k)"
          unfolding wj using dist j(1) k(1) False by (simp add: distinct_conv_nth)
        then have "global_field (w_offset w) m' = global_field (w_offset w) m" by (simp add: m')
        note eq = met_unchanged(1) [OF this, of hdr "insert e es"]
        have "w \<in> set ws" unfolding wj using j(1) by (rule nth_mem)
        then have "want_met hdr (insert e es) m w" using d fnd by blast
        then show ?thesis unfolding eq .
      qed
    qed
    have l: "m_layers m' = m_layers m" "skeleton m' = skeleton m" by (simp_all add: m')
    show ?thesis unfolding dir_inv_def l met_unchanged(2) [OF l(1)] using d st w by simp
  qed
qed

lemma layer_inv:
  assumes inv: "dir_inv hdr m0 (insert e es) ws m" and o: "open_layer m e = (TQ_OK, m')" and pos: "0 < m_n_layers m0"
    and small: "m_n_layers m0 < 2 ^ 31"
    and fit: "e_offset e mod TQ_ALIGN = 0" "e_offset e + e_nbytes e \<le> h_file_bytes hdr"
  shows "dir_inv hdr m0 (insert e es) ws m'"
proof (cases "m' = m")
  case True
  then show ?thesis using inv by simp
next
  case False
  note d = inv [unfolded dir_inv_def]
  have sk: "skeleton m = skeleton m0" using d by blast
  obtain slot dt r c where a: "e_name e ! 0 = of_char (CHR ''l'')" "e_name e ! 4 = of_char (CHR ''.'')"
    "layer_index (e_name e) < word_of_int (m_n_layers m)"
    "layer_want m (layer_suffix (e_name e)) = Some (slot, dt, r, c)" "e_dtype e = dt"
    "c \<noteq> 0 \<longrightarrow> e_ndim e = 2 \<and> e_shape e ! 0 = r \<and> e_shape e ! 1 = c" "c = 0 \<longrightarrow> e_ndim e = 1 \<and> e_shape e ! 0 = r"
    "m' = m\<lparr>m_layers := (m_layers m)[unat (layer_index (e_name e)) :=
        store_layer slot (e_offset e) (m_layers m ! unat (layer_index (e_name e)))]\<rparr>"
    using o False by (auto simp: open_layer_def Let_def not_le split: if_splits option.splits prod.splits)
  define k where "k = unat (layer_index (e_name e))"
  have "unat (word_of_int (m_n_layers m) :: u32) = nat (m_n_layers m0)"
  proof -
    have "(word_of_int (m_n_layers m) :: u32) = of_nat (nat (m_n_layers m0))"
      using skeleton_fields(4) [OF sk] pos by simp
    moreover have "nat (m_n_layers m0) < 2 ^ LENGTH(32)" using small by (simp add: nat_less_iff)
    ultimately show ?thesis by (simp only: unat_of_nat_id)
  qed
  then have k: "k < nat (m_n_layers m0)" using a(3) unfolding k_def word_less_nat_alt by simp
  have le: "layer_entry hdr m0 k slot e"
    unfolding layer_entry_def skeleton_layer_want [OF sk, symmetric] k_def tensor_fits_def
    by (intro conjI exI [of _ dt] exI [of _ r] exI [of _ c] a fit) (use a in simp_all)
  have ls: "m_layers m' = (m_layers m)[k := store_layer slot (e_offset e) (m_layers m ! k)]" by (simp add: a(8) k_def)
  have gf: "global_field s m' = global_field s m" for s by (simp add: a(8))
  have kl: "k < length (m_layers m)" using k d by simp
  have L: "layer_field s (m_layers m' ! l) = 0 \<or> layer_met hdr m0 (insert e es) m' l s" if l: "l < nat (m_n_layers m0)" for l s
  proof (cases "l = k \<and> s = slot")
    case True
    then have "layer_met hdr m0 (insert e es) m' l s"
      using le kl unfolding layer_met_def ls by (intro bexI [of _ e]) simp_all
    then show ?thesis ..
  next
    case False
    then have "layer_field s (m_layers m' ! l) = layer_field s (m_layers m ! l)"
      using kl unfolding ls by (cases "l = k") auto
    moreover have "layer_field s (m_layers m ! l) = 0 \<or> layer_met hdr m0 (insert e es) m l s" using d l by blast
    ultimately show ?thesis unfolding layer_met_def by simp
  qed
  have "skeleton m' = skeleton m" "length (m_layers m') = length (m_layers m)" by (simp_all add: a(8))
  moreover have "want_met hdr (insert e es) m' w = want_met hdr (insert e es) m w" for w by (rule met_unchanged(1) [OF gf])
  ultimately show ?thesis unfolding dir_inv_def using d L by simp
qed

lemma open_entry_inv:
  assumes "dir_inv hdr m0 es ws m" and "open_entry hdr ws m e = (TQ_OK, ws', m')"
    and "0 < m_n_layers m0" and "m_n_layers m0 < 2 ^ 31"
  shows "dir_inv hdr m0 (insert e es) ws' m'"
proof -
  have g: "\<not> e_offset e + e_nbytes e > h_file_bytes hdr" "\<not> e_offset e mod TQ_ALIGN \<noteq> 0"
    using assms(2) by (auto simp: open_entry_def split: if_splits)
  obtain m1 where m1: "tq_match ws e m = (TQ_OK, ws', m1)" "open_layer m1 e = (TQ_OK, m')"
    using assms(2) unfolding open_entry_def if_not_P [OF g(1)] if_not_P [OF g(2)]
    by (auto split: prod.splits if_splits)
  have f: "e_offset e mod TQ_ALIGN = 0" "e_offset e + e_nbytes e \<le> h_file_bytes hdr" using g by auto
  show ?thesis by (rule layer_inv [OF match_inv [OF assms(1) m1(1) f] m1(2) assms(3,4) f])
qed

lemma open_entries_inv:
  assumes "dir_inv hdr m0 D ws m" and "open_entries hdr es ws m = (TQ_OK, ws', m')"
    and "0 < m_n_layers m0" and "m_n_layers m0 < 2 ^ 31"
  shows "dir_inv hdr m0 (set es \<union> D) ws' m'"
  using assms(1,2)
proof (induction es arbitrary: D ws m)
  case (Cons e es)
  obtain ws1 m1 where s: "open_entry hdr ws m e = (TQ_OK, ws1, m1)" "open_entries hdr es ws1 m1 = (TQ_OK, ws', m')"
    using Cons.prems(2) by (auto split: prod.splits if_splits)
  from Cons.IH [OF open_entry_inv [OF Cons.prems(1) s(1) assms(3,4)] s(2)] show ?case by simp
qed simp

lemma dir_inv_start:
  "m_layers m = replicate (nat (m_n_layers m)) no_offsets \<Longrightarrow> dir_inv hdr m {} (open_wants m) m"
  unfolding dir_inv_def
proof (intro conjI)
  assume l: "m_layers m = replicate (nat (m_n_layers m)) no_offsets"
  show "length (m_layers m) = nat (m_n_layers m)" unfolding l by simp
  show "map (\<lambda>w. w\<lparr>w_found := False\<rparr>) (open_wants m) = open_wants m" by (simp add: open_wants_def Let_def)
  show "\<forall>w \<in> set (open_wants m). w_found w \<longrightarrow> want_met hdr {} m w"
    by (auto simp: open_wants_def Let_def)
  have "layer_field slot no_offsets = 0" for slot by (cases slot) (simp_all add: no_offsets_def)
  then show "\<forall>l < nat (m_n_layers m). \<forall>slot. layer_field slot (m_layers m ! l) = 0 \<or> layer_met hdr m {} m l slot"
    unfolding l by simp
qed simp

text \<open>A model whose every tensor is an entry of the directory.\<close>

definition model_from :: "tq_header \<Rightarrow> tq_tensor_entry list \<Rightarrow> tq_model \<Rightarrow> bool" where
  "model_from hdr es m \<longleftrightarrow> m_hdr m = hdr \<and> dims_ok m \<and> quantized (m_qtype m)
     \<and> length (m_layers m) = nat (m_n_layers m)
     \<and> (\<exists>e \<in> set es. global_entry hdr e ''tok_emb'' (m_qtype m) (word_of_int (m_vocab_size m)) (word_of_int (m_dim m))
          \<and> m_tok_emb m = e_offset e)
     \<and> (\<exists>e \<in> set es. global_entry hdr e ''rms_final'' TQ_DT_F32 (word_of_int (m_dim m)) 0 \<and> m_rms_final m = e_offset e)
     \<and> (if h_shared_classifier hdr \<noteq> 0 then m_classifier m = m_tok_emb m
        else \<exists>e \<in> set es. global_entry hdr e ''cls'' (m_qtype m) (word_of_int (m_vocab_size m)) (word_of_int (m_dim m))
          \<and> m_classifier m = e_offset e)
     \<and> (\<forall>l < nat (m_n_layers m). \<forall>slot. \<exists>e \<in> set es. layer_entry hdr m l slot e
          \<and> layer_field slot (m_layers m ! l) = e_offset e)"

lemma open_header_ok:
  assumes "open_header hdr b = TQ_OK"
  shows "quantized (h_qtype hdr)" and "h_file_bytes hdr \<le> b" and "h_group_size hdr = of_nat TQ_GROUP_SIZE"
    and "dims_ok (open_dims hdr m)"
proof -
  note a = assms [unfolded open_header_def]
  show "quantized (h_qtype hdr)" "h_file_bytes hdr \<le> b" "h_group_size hdr = of_nat TQ_GROUP_SIZE"
    using a by (auto simp: quantized_def not_less split: if_splits)
  have p: "0 < h_dim hdr" "0 < h_n_layers hdr" "0 < h_n_heads hdr" "0 < h_n_kv_heads hdr" "0 < h_vocab_size hdr"
    "0 < h_seq_len hdr" "0 < h_hidden_dim hdr" "h_dim hdr mod h_n_heads hdr = 0" "h_n_heads hdr mod h_n_kv_heads hdr = 0"
    "h_dim hdr mod 32 = 0" "h_hidden_dim hdr mod 32 = 0"
    using a by (auto simp: TQ_GROUP_SIZE_def not_le split: if_splits)
  have "h_dim hdr div h_n_heads hdr * h_n_heads hdr = h_dim hdr" "h_n_heads hdr div h_n_kv_heads hdr * h_n_kv_heads hdr = h_n_heads hdr"
    using p(8,9) by (simp_all add: div_mult_mod_eq [symmetric, THEN trans] dvd_eq_mod_eq_0 [symmetric] dvd_div_mult_self)
  then show "dims_ok (open_dims hdr m)" using p by (simp add: dims_ok_def open_dims_def)
qed

lemma open_wants_mem:
  "\<exists>w. w \<in> set (open_wants m) \<and> w_offset w = W_tok_emb \<and> w_name w = cstr ''tok_emb'' @ [0] \<and> w_dtype w = m_qtype m
     \<and> w_rows w = word_of_int (m_vocab_size m) \<and> w_cols w = word_of_int (m_dim m) \<and> w_required w"
  "\<exists>w. w \<in> set (open_wants m) \<and> w_offset w = W_rms_final \<and> w_name w = cstr ''rms_final'' @ [0] \<and> w_dtype w = TQ_DT_F32
     \<and> w_rows w = word_of_int (m_dim m) \<and> w_cols w = 0 \<and> w_required w"
  "\<exists>w. w \<in> set (open_wants m) \<and> w_offset w = W_classifier \<and> w_name w = cstr ''cls'' @ [0] \<and> w_dtype w = m_qtype m
     \<and> w_rows w = word_of_int (m_vocab_size m) \<and> w_cols w = word_of_int (m_dim m)
     \<and> w_required w = (h_shared_classifier (m_hdr m) = 0)"
proof -
  have n: "open_wants m ! 0 \<in> set (open_wants m)" "open_wants m ! 1 \<in> set (open_wants m)" "open_wants m ! 2 \<in> set (open_wants m)"
    by (intro nth_mem; simp add: open_wants_def Let_def)+
  show "\<exists>w. w \<in> set (open_wants m) \<and> w_offset w = W_tok_emb \<and> w_name w = cstr ''tok_emb'' @ [0] \<and> w_dtype w = m_qtype m
     \<and> w_rows w = word_of_int (m_vocab_size m) \<and> w_cols w = word_of_int (m_dim m) \<and> w_required w"
    by (intro exI [of _ "open_wants m ! 0"] conjI n) (simp_all add: open_wants_def Let_def)
  show "\<exists>w. w \<in> set (open_wants m) \<and> w_offset w = W_rms_final \<and> w_name w = cstr ''rms_final'' @ [0] \<and> w_dtype w = TQ_DT_F32
     \<and> w_rows w = word_of_int (m_dim m) \<and> w_cols w = 0 \<and> w_required w"
    by (intro exI [of _ "open_wants m ! 1"] conjI n) (simp_all add: open_wants_def Let_def)
  show "\<exists>w. w \<in> set (open_wants m) \<and> w_offset w = W_classifier \<and> w_name w = cstr ''cls'' @ [0] \<and> w_dtype w = m_qtype m
     \<and> w_rows w = word_of_int (m_vocab_size m) \<and> w_cols w = word_of_int (m_dim m)
     \<and> w_required w = (h_shared_classifier (m_hdr m) = 0)"
    by (intro exI [of _ "open_wants m ! 2"] conjI n) (simp_all add: open_wants_def Let_def)
qed

lemma open_finish_ok:
  assumes inv: "dir_inv hdr m0 (set es) ws m1" and f: "open_finish ws m1 = (TQ_OK, m)"
    and m0: "m_hdr m0 = hdr" "dims_ok m0" "quantized (m_qtype m0)"
  shows "model_from hdr es m"
proof -
  note d = inv [unfolded dir_inv_def]
  have sk1: "skeleton m1 = skeleton m0" using d by blast
  have req: "\<not> list_ex (\<lambda>w. w_required w \<and> \<not> w_found w) ws" using f by (auto simp: open_finish_def)
  define m2 where "m2 = (if h_shared_classifier (m_hdr m1) \<noteq> 0 then m1\<lparr>m_classifier := m_tok_emb m1\<rparr> else m1)"
  have m: "m = m2" "list_all layer_complete (m_layers m2)"
    using f req by (auto simp: open_finish_def m2_def [symmetric] Let_def split: if_splits)
  have sk: "skeleton m = skeleton m0" using sk1 by (simp add: m(1) m2_def)
  note s = skeleton_fields [OF sk] and s1 = skeleton_fields [OF sk1]
  have lay: "m_layers m = m_layers m1" by (simp add: m(1) m2_def)
  have glob: "\<exists>e \<in> set es. tq_name_eq (e_name e) (w_name w) \<and> tensor_fits hdr e (w_dtype w) (w_rows w) (w_cols w)
      \<and> global_field (w_offset w) m1 = e_offset e" if w: "w \<in> set (open_wants m0)" "w_required w" for w
  proof -
    have "w \<in> set (map (\<lambda>w. w\<lparr>w_found := False\<rparr>) ws)" using d w(1) by simp
    then obtain v where v: "v \<in> set ws" "w = v\<lparr>w_found := False\<rparr>" by auto
    moreover have "w_found v" using req v w(2) by (auto simp: list_ex_iff)
    ultimately have "want_met hdr (set es) m1 v" using d by blast
    then show ?thesis using v(2) unfolding want_met_def by simp
  qed
  have emb: "\<exists>e \<in> set es. global_entry hdr e ''tok_emb'' (m_qtype m0) (word_of_int (m_vocab_size m0)) (word_of_int (m_dim m0))
      \<and> m_tok_emb m1 = e_offset e"
    using open_wants_mem(1) [of m0] glob unfolding global_entry_def by (metis global_field.simps(1))
  have rms: "\<exists>e \<in> set es. global_entry hdr e ''rms_final'' TQ_DT_F32 (word_of_int (m_dim m0)) 0 \<and> m_rms_final m1 = e_offset e"
    using open_wants_mem(2) [of m0] glob unfolding global_entry_def by (metis global_field.simps(2))
  have cls: "\<exists>e \<in> set es. global_entry hdr e ''cls'' (m_qtype m0) (word_of_int (m_vocab_size m0)) (word_of_int (m_dim m0))
      \<and> m_classifier m1 = e_offset e" if "h_shared_classifier hdr = 0"
    using open_wants_mem(3) [of m0] glob that m0(1) unfolding global_entry_def by (metis global_field.simps(3))
  have ly: "\<exists>e \<in> set es. layer_entry hdr m0 l slot e \<and> layer_field slot (m_layers m ! l) = e_offset e"
    if l: "l < nat (m_n_layers m0)" for l slot
  proof -
    have "layer_complete (m_layers m ! l)" using m l d lay by (simp add: list_all_length)
    then have "layer_field slot (m_layers m ! l) \<noteq> 0" by (cases slot) (simp_all add: layer_complete_def)
    then have "layer_met hdr m0 (set es) m1 l slot" using d l unfolding lay by blast
    then show ?thesis unfolding layer_met_def lay .
  qed
  have f2: "m_tok_emb m = m_tok_emb m1" "m_rms_final m = m_rms_final m1"
    "m_classifier m = (if h_shared_classifier hdr \<noteq> 0 then m_tok_emb m1 else m_classifier m1)"
    using s1(1) m0(1) by (simp_all add: m(1) m2_def)
  show ?thesis
    unfolding model_from_def s f2 skeleton_layer_entry [OF sk]
  proof (intro conjI)
    show "dims_ok m" using m0(2) unfolding dims_ok_def s .
    show "length (m_layers m) = nat (m_n_layers m0)" using d lay by simp
    show "if h_shared_classifier hdr \<noteq> 0 then (if h_shared_classifier hdr \<noteq> 0 then m_tok_emb m1 else m_classifier m1) = m_tok_emb m1
      else \<exists>e \<in> set es. global_entry hdr e ''cls'' (m_qtype m0) (word_of_int (m_vocab_size m0)) (word_of_int (m_dim m0))
        \<and> (if h_shared_classifier hdr \<noteq> 0 then m_tok_emb m1 else m_classifier m1) = e_offset e"
      using cls by auto
  qed (use m0 emb rms ly in simp_all)
qed


end
