(* ===== verification/Tq_Image.thy ===== *)
theory Tq_Image imports Tq_Open begin

text \<open>
  Opening whole images: the parser of images that \<^verbatim>\<open>tq_model_open\<close> implements, images
  written byte by byte as the exporter writes them, the files that open, a small file that
  does, and the properties of opening.
\<close>

unbundle bit_operations_syntax

section \<open>The parser of images\<close>

lemma open_directory_fits:
  assumes "store_shows img lmt st" and "2048 \<le> lmt"
    and "unat (h_tensor_table_offset hdr) + unat (h_tensor_count hdr) * 64 \<le> length img"
    and "open_entries hdr (dir_entries img hdr idx (unat (h_tensor_count hdr) - idx)) ws m = (rc, ws', m')"
  shows "\<exists>st'. open_directory st hdr idx ws m = (rc, st', ws', m') \<and> store_shows img lmt st'"
  using assms
proof (induction "unat (h_tensor_count hdr) - idx" arbitrary: idx st ws m rule: less_induct)
  case less
  show ?case
  proof (cases "idx < unat (h_tensor_count hdr)")
    case False
    then show ?thesis using less.prems by (simp add: open_directory.simps dir_entries_def)
  next
    case True
    define t where "t = min (unat (h_tensor_count hdr) - idx) 32"
    have d: "unat (h_tensor_count hdr) - (idx + t) < unat (h_tensor_count hdr) - idx"
      "unat (h_tensor_count hdr) - idx = t + (unat (h_tensor_count hdr) - (idx + t))" using True by (auto simp: t_def)
    note o = open_directory_step [OF less.prems(1,2) True, folded t_def, of ws m]
    obtain rc1 ws1 m1 where e: "open_entries hdr (dir_entries img hdr idx t) ws m = (rc1, ws1, m1)"
      by (cases "open_entries hdr (dir_entries img hdr idx t) ws m")
    have "(idx + t) * 64 \<le> unat (h_tensor_count hdr) * 64" using True by (intro mult_right_mono) (auto simp: t_def)
    then have "unat (h_tensor_table_offset hdr) + (idx + t) * 64 \<le> length img" using less.prems(3) by linarith
    then obtain s1 where s: "store_shows img lmt s1" "open_directory st hdr idx ws m =
        (if rc1 \<noteq> TQ_OK then (rc1, s1, ws1, m1) else open_directory s1 hdr (idx + t) ws1 m1)"
      using o unfolding e by auto
    show ?thesis
    proof (cases "rc1 = TQ_OK")
      case False
      then show ?thesis using s less.prems(4) unfolding d(2) dir_entries_append open_entries_append e by simp
    next
      case ok: True
      then have "open_entries hdr (dir_entries img hdr (idx + t) (unat (h_tensor_count hdr) - (idx + t))) ws1 m1 = (rc, ws', m')"
        using less.prems(4) unfolding d(2) dir_entries_append open_entries_append e by simp
      from less.hyps [OF d(1) s(1) less.prems(2,3) this] show ?thesis using s(2) ok by simp
    qed
  qed
qed

text \<open>
  The parser without stores and chunks: one pass over the directory of an image that holds
  header and directory.
\<close>

definition open_image :: "u8 list \<Rightarrow> 'w::len word \<Rightarrow> 'w word \<Rightarrow> tq_status \<times> tq_model" where
  "open_image img arena arena_bytes =
     (let hdr = header_at img in
      if open_magic hdr \<noteq> TQ_OK then (open_magic hdr, zero_model)
      else if open_header hdr (of_nat (length img)) \<noteq> TQ_OK
        then (open_header hdr (of_nat (length img)), zero_model\<lparr>m_hdr := hdr\<rparr>)
      else let m = open_dims hdr (zero_model\<lparr>m_hdr := hdr\<rparr>)
           in if snd (tq_carve arena arena_bytes 0 (72 * word_of_int (m_n_layers m))) = None then (TQ_ERR_NOMEM, m)
              else let m1 = m\<lparr>m_layers := replicate (nat (m_n_layers m)) no_offsets\<rparr>;
                       (rc, ws, m2) = open_entries hdr (directory img hdr) (open_wants m1) m1
                   in if rc \<noteq> TQ_OK then (rc, m2) else open_finish ws m2)"

lemma open_image_implemented:
  assumes "store_shows img lmt st" and "2048 \<le> lmt" and "256 \<le> length img"
    and "unat (h_tensor_table_offset (header_at img)) + unat (h_tensor_count (header_at img)) * 64 \<le> length img"
  shows "\<exists>st'. tq_model_open st arena arena_bytes =
      (fst (open_image img arena arena_bytes), snd (open_image img arena arena_bytes), st') \<and> store_shows img lmt st'"
proof -
  define hdr where "hdr = header_at img"
  obtain s1 p where v: "tq_store_view st 0 TQ_HEADER_BYTES = (s1, Some p)" "store_shows img lmt s1" "header_at p = hdr"
    using header_view [OF assms(1)] assms(2,3) by (auto simp: hdr_def)
  have "unat (st_bytes s1) = length img" using v(2) by (auto simp: store_shows_def store_mapped_def store_streams_def)
  from arg_cong [OF this, of "of_nat :: nat \<Rightarrow> u64"] have b: "st_bytes s1 = of_nat (length img)" by simp
  define m0 where "m0 = open_dims hdr (zero_model\<lparr>m_hdr := hdr\<rparr>)"
  define m1 where "m1 = m0\<lparr>m_layers := replicate (nat (m_n_layers m0)) no_offsets\<rparr>"
  obtain rc ws m2 where e: "open_entries hdr (directory img hdr) (open_wants m1) m1 = (rc, ws, m2)"
    by (cases "open_entries hdr (directory img hdr) (open_wants m1) m1")
  have e0: "open_entries hdr (dir_entries img hdr 0 (unat (h_tensor_count hdr) - 0)) (open_wants m1) m1 = (rc, ws, m2)"
    using e by (simp add: directory_def)
  obtain s2 where d: "open_directory s1 hdr 0 (open_wants m1) m1 = (rc, s2, ws, m2)" "store_shows img lmt s2"
    using open_directory_fits [OF v(2) assms(2) _ e0] assms(4) by (auto simp: hdr_def)
  obtain rc3 m3 where f: "open_finish ws m2 = (rc3, m3)" by (cases "open_finish ws m2")
  obtain u c where c: "tq_carve arena arena_bytes 0 (72 * word_of_int (m_n_layers m0)) = (u, c)"
    by (cases "tq_carve arena arena_bytes 0 (72 * word_of_int (m_n_layers m0))")
  show ?thesis
    unfolding tq_model_open_def open_image_def v(1) Let_def prod.case option.case v(3) hdr_def [symmetric]
      m0_def [symmetric] m1_def [symmetric] b c e d(1) f
    using v(2) d(2) by (cases c) auto
qed

section \<open>Images written byte by byte\<close>

lemma words_nth:
  "k < length ws \<Longrightarrow> j < 4 \<Longrightarrow> concat (map (le_bytes 4) ws) ! (4 * k + j) = le_bytes 4 (ws ! k) ! j"
proof (induction ws arbitrary: k)
  case (Cons w ws)
  then show ?case by (cases k) (simp_all add: nth_append)
qed simp

lemma words_length [simp]: "length (concat (map (le_bytes 4) ws)) = 4 * length ws"
  by (induction ws) simp_all

lemma words_le32:
  assumes "k < length ws" and "ws ! k < 2 ^ 32" and "length pre = i"
  shows "le32 (pre @ concat (map (le_bytes 4) ws) @ post) (i + 4 * k) = of_nat (ws ! k)"
proof (rule le32_at [OF _ assms(2)])
  fix j :: nat assume j: "j < 4"
  have "4 * k + j < 4 * length ws" using assms(1) j by linarith
  then show "(pre @ concat (map (le_bytes 4) ws) @ post) ! (i + 4 * k + j) = le_bytes 4 (ws ! k) ! j"
    using words_nth [OF assms(1) j] assms(3) by (simp add: nth_append)
qed

lemma quad_le64:
  assumes "n < 2 ^ 64" and "length pre = i"
  shows "le64 (pre @ le_bytes 8 n @ post) i = of_nat n"
  unfolding le64_def using assms by (intro le64_at) (simp_all add: nth_append)

text \<open>A header and an entry as the exporter writes them.\<close>

definition header_bytes :: "nat list \<Rightarrow> nat \<Rightarrow> nat list \<Rightarrow> u8 list" where
  "header_bytes ws file_bytes vs =
     concat (map (le_bytes 4) ws) @ le_bytes 8 file_bytes @ concat (map (le_bytes 4) vs) @ replicate 160 0"

definition entry_bytes :: "string \<Rightarrow> nat list \<Rightarrow> nat \<Rightarrow> nat \<Rightarrow> u8 list" where
  "entry_bytes name ws off nbytes =
     cstr name @ replicate (24 - length name) 0 @ concat (map (le_bytes 4) ws) @ le_bytes 8 off @ le_bytes 8 nbytes"

lemma header_at_bytes:
  assumes "length ws = 8" and "length vs = 14" and "\<forall>n \<in> set (ws @ vs). n < 2 ^ 32" and "fb < 2 ^ 64"
  shows "header_at (header_bytes ws fb vs) =
    \<lparr>h_magic = of_nat (ws ! 0), h_version = of_nat (ws ! 1), h_header_bytes = of_nat (ws ! 2), h_arch = of_nat (ws ! 3),
     h_tensor_count = of_nat (ws ! 4), h_tensor_table_offset = of_nat (ws ! 5), h_data_offset = of_nat (ws ! 6),
     h_flags = of_nat (ws ! 7), h_file_bytes = of_nat fb,
     h_dim = sint (of_nat (vs ! 0) :: u32), h_hidden_dim = sint (of_nat (vs ! 1) :: u32),
     h_n_layers = sint (of_nat (vs ! 2) :: u32), h_n_heads = sint (of_nat (vs ! 3) :: u32),
     h_n_kv_heads = sint (of_nat (vs ! 4) :: u32), h_vocab_size = sint (of_nat (vs ! 5) :: u32),
     h_seq_len = sint (of_nat (vs ! 6) :: u32), h_qtype = of_nat (vs ! 7), h_group_size = of_nat (vs ! 8),
     h_shared_classifier = of_nat (vs ! 9), h_rope_theta = of_nat (vs ! 10), h_norm_eps = of_nat (vs ! 11),
     h_bos_token = of_nat (vs ! 12), h_eos_token = of_nat (vs ! 13)\<rparr>"
proof -
  let ?p = "header_bytes ws fb vs"
  have a: "le32 ?p (4 * k) = of_nat (ws ! k)" if "k < 8" for k
    using words_le32 [of k ws "[]" 0] that assms(1,3) by (simp add: header_bytes_def)
  have b: "le32 ?p (40 + 4 * k) = of_nat (vs ! k)" if "k < 14" for k
    using words_le32 [of k vs "concat (map (le_bytes 4) ws) @ le_bytes 8 fb" 40] that assms(1-3) by (simp add: header_bytes_def)
  have c: "le64 ?p 32 = of_nat fb"
    using quad_le64 [OF assms(4), of "concat (map (le_bytes 4) ws)" 32] assms(1) by (simp add: header_bytes_def)
  show ?thesis
    unfolding header_at_def c
    using a [of 0] a [of 1] a [of 2] a [of 3] a [of 4] a [of 5] a [of 6] a [of 7]
      b [of 0] b [of 1] b [of 2] b [of 3] b [of 4] b [of 5] b [of 6] b [of 7] b [of 8] b [of 9] b [of 10] b [of 11]
      b [of 12] b [of 13]
    by simp
qed

lemma entry_at_bytes:
  assumes "length name \<le> 24" and "length ws = 6" and "\<forall>n \<in> set ws. n < 2 ^ 32" and "off < 2 ^ 64" and "nb < 2 ^ 64"
  shows "entry_at (entry_bytes name ws off nb) 0 =
    \<lparr>e_name = cstr name @ replicate (24 - length name) 0, e_dtype = of_nat (ws ! 0), e_ndim = of_nat (ws ! 1),
     e_shape = [of_nat (ws ! 2), of_nat (ws ! 3), of_nat (ws ! 4), of_nat (ws ! 5)], e_offset = of_nat off,
     e_nbytes = of_nat nb\<rparr>"
proof -
  let ?n = "cstr name @ replicate (24 - length name) 0" and ?p = "entry_bytes name ws off nb"
  have n: "length ?n = 24" using assms(1) by (simp add: cstr_def)
  have a: "le32 ?p (24 + 4 * k) = of_nat (ws ! k)" if "k < 6" for k
    using words_le32 [of k ws ?n 24] that assms(2,3) n by (simp add: entry_bytes_def)
  have b: "le64 ?p 48 = of_nat off" "le64 ?p 56 = of_nat nb"
    using quad_le64 [OF assms(4), of "?n @ concat (map (le_bytes 4) ws)" 48 "le_bytes 8 nb"] 
      quad_le64 [OF assms(5), of "?n @ concat (map (le_bytes 4) ws) @ le_bytes 8 off" 56 "[]"] assms(2) n
    by (simp_all add: entry_bytes_def)
  have c: "map (\<lambda>j. ?p ! j) [0..<24] = ?n"
  proof (rule nth_equalityI)
    fix i assume "i < length (map (\<lambda>j. ?p ! j) [0..<24])"
    then have i: "i < length ?n" using n by simp
    have "?p ! i = (?n @ (concat (map (le_bytes 4) ws) @ le_bytes 8 off @ le_bytes 8 nb)) ! i" by (simp add: entry_bytes_def)
    also have "\<dots> = ?n ! i" using i by (simp only: nth_append if_True)
    finally show "map (\<lambda>j. ?p ! j) [0..<24] ! i = ?n ! i" using i n by simp
  qed (simp only: n length_map length_upt)
  show ?thesis
    unfolding entry_at_def TQ_NAME_BYTES_def add_0 b c
    using a [of 0] a [of 1] a [of 2] a [of 3] a [of 4] a [of 5] by simp
qed

lemma header_at_append: "256 \<le> length h \<Longrightarrow> header_at (h @ r) = header_at h"
  by (rule header_at_cong) (simp add: nth_append)

lemma dir_entries_concat:
  assumes "\<forall>b \<in> set bs. length b = 64" and "length pre = unat (h_tensor_table_offset hdr)"
  shows "dir_entries (pre @ concat bs @ post) hdr 0 (length bs) = map (\<lambda>b. entry_at b 0) bs"
proof -
  have "entry_at (pre @ concat bs @ post) (length pre + k * 64) = entry_at (bs ! k) 0" if "k < length bs" for k
    using that assms(1)
  proof (induction bs arbitrary: k pre)
    case (Cons b bs)
    show ?case
    proof (cases k)
      case 0
      show ?thesis by (rule entry_at_cong) (use 0 Cons.prems(2) in \<open>simp add: nth_append\<close>)
    next
      case (Suc j)
      then show ?thesis using Cons.IH [of j "pre @ b"] Cons.prems by (simp add: add.assoc)
    qed
  qed simp
  then show ?thesis unfolding dir_entries_def assms(2) [symmetric] by (auto intro!: nth_equalityI)
qed

text \<open>A small file: one layer, one head, a vocabulary of one, a shared classifier.\<close>

definition sample_header :: "u8 list" where
  "sample_header = header_bytes [0x31515445, 1, 256, 0, 11, 256, 960, 0] 5440
     [32, 32, 1, 1, 1, 1, 1, 2, 32, 1, 0x461C4000, 0x3727C5AC, 1, 2]"

definition sample_tensors :: "(string \<times> nat list \<times> nat \<times> nat) list" where
  "sample_tensors =
     [(''tok_emb'', [2, 2, 1, 32, 0, 0], 960, 18), (''rms_final'', [0, 1, 32, 0, 0, 0], 1024, 128),
      (''l000.rms_att'', [0, 1, 32, 0, 0, 0], 1152, 128), (''l000.rms_ffn'', [0, 1, 32, 0, 0, 0], 1280, 128),
      (''l000.wq'', [2, 2, 32, 32, 0, 0], 1408, 576), (''l000.wk'', [2, 2, 32, 32, 0, 0], 1984, 576),
      (''l000.wv'', [2, 2, 32, 32, 0, 0], 2560, 576), (''l000.wo'', [2, 2, 32, 32, 0, 0], 3136, 576),
      (''l000.w1'', [2, 2, 32, 32, 0, 0], 3712, 576), (''l000.w2'', [2, 2, 32, 32, 0, 0], 4288, 576),
      (''l000.w3'', [2, 2, 32, 32, 0, 0], 4864, 576)]"

definition sample_file :: "u8 list" where
  "sample_file = sample_header @ concat (map (\<lambda>(name, ws, off, nb). entry_bytes name ws off nb) sample_tensors) @ replicate 4480 0"

definition sample_hdr :: tq_header where
  "sample_hdr =
  \<lparr>h_magic = 0x31515445, h_version = 1, h_header_bytes = 256, h_arch = 0, h_tensor_count = 11, h_tensor_table_offset = 256,
   h_data_offset = 960, h_flags = 0, h_file_bytes = 5440, h_dim = 32, h_hidden_dim = 32, h_n_layers = 1, h_n_heads = 1,
   h_n_kv_heads = 1, h_vocab_size = 1, h_seq_len = 1, h_qtype = 2, h_group_size = 32, h_shared_classifier = 1,
   h_rope_theta = 0x461C4000, h_norm_eps = 0x3727C5AC, h_bos_token = 1, h_eos_token = 2\<rparr>"

definition sample_dir :: "tq_tensor_entry list" where
  "sample_dir = map (\<lambda>(name, ws, off, nb).
     \<lparr>e_name = cstr name @ replicate (24 - length name) 0, e_dtype = of_nat (ws ! 0), e_ndim = of_nat (ws ! 1),
      e_shape = [of_nat (ws ! 2), of_nat (ws ! 3), of_nat (ws ! 4), of_nat (ws ! 5)], e_offset = of_nat off,
      e_nbytes = of_nat nb\<rparr>) sample_tensors"

lemma sample_header_length: "length sample_header = 256"
  by (simp add: sample_header_def header_bytes_def)

lemma sample_tensor_bounds:
  "(name, ws, off, nb) \<in> set sample_tensors \<Longrightarrow> length name \<le> 24 \<and> length ws = 6 \<and> (\<forall>n \<in> set ws. n < 2 ^ 32) \<and> off < 2 ^ 64 \<and> nb < 2 ^ 64"
  by (auto simp: sample_tensors_def)

lemma sample_entry_length:
  "b \<in> set (map (\<lambda>(name, ws, off, nb). entry_bytes name ws off nb) sample_tensors) \<Longrightarrow> length b = 64"
  by (auto dest!: sample_tensor_bounds simp: entry_bytes_def cstr_def)

lemma sample_header_at: "header_at sample_file = sample_hdr"
proof -
  have "header_at sample_file = header_at sample_header"
    unfolding sample_file_def by (rule header_at_append) (simp add: sample_header_length)
  also have "\<dots> = sample_hdr"
    unfolding sample_header_def sample_hdr_def by (subst header_at_bytes) simp_all
  finally show ?thesis .
qed

lemma sample_directory: "directory sample_file sample_hdr = sample_dir"
proof -
  have "unat (h_tensor_count sample_hdr) = length (map (\<lambda>(name, ws, off, nb). entry_bytes name ws off nb) sample_tensors)"
    by (simp add: sample_hdr_def sample_tensors_def)
  then have "directory sample_file sample_hdr = map (\<lambda>b. entry_at b 0) (map (\<lambda>(name, ws, off, nb). entry_bytes name ws off nb) sample_tensors)"
    unfolding directory_def sample_file_def
    by (simp only: ) (rule dir_entries_concat, use sample_entry_length in blast, simp add: sample_header_length sample_hdr_def)
  also have "\<dots> = sample_dir"
    unfolding sample_dir_def map_map
    by (rule map_cong [OF refl]) (auto dest!: sample_tensor_bounds simp: entry_at_bytes)
  finally show ?thesis .
qed

lemma sample_length: "length sample_file = 5440"
proof -
  have "length (concat bs) = 64 * length bs" if "\<forall>b \<in> set bs. length b = 64" for bs :: "u8 list list"
    using that by (induction bs) auto
  from this [of "map (\<lambda>(name, ws, off, nb). entry_bytes name ws off nb) sample_tensors"]
  have "length (concat (map (\<lambda>(name, ws, off, nb). entry_bytes name ws off nb) sample_tensors)) = 704"
    using sample_entry_length by (simp add: sample_tensors_def)
  then show ?thesis by (simp add: sample_file_def sample_header_length)
qed

section \<open>Names\<close>

lemma name_eq_from_iff:
  assumes "i + k \<le> length field" and "i \<le> length s" and "length s < i + k" and "0 \<notin> set s"
  shows "name_eq_from k i field (s @ [0]) \<longleftrightarrow> takeWhile (\<lambda>c. c \<noteq> 0) (take k (drop i field)) = drop i s"
  using assms
proof (induction k arbitrary: i)
  case (Suc k)
  have d: "drop i field = field ! i # drop (Suc i) field" using Suc.prems(1) by (simp add: Cons_nth_drop_Suc)
  show ?case
  proof (cases "i < length s")
    case True
    have s: "drop i s = s ! i # drop (Suc i) s" using True by (simp add: Cons_nth_drop_Suc)
    have z: "s ! i \<noteq> 0" using True Suc.prems(4) nth_mem by fastforce
    have "name_eq_from k (Suc i) field (s @ [0]) \<longleftrightarrow> takeWhile (\<lambda>c. c \<noteq> 0) (take k (drop (Suc i) field)) = drop (Suc i) s"
      using Suc.prems True by (intro Suc.IH) simp_all
    then show ?thesis using True z unfolding d s by (auto simp: nth_append)
  next
    case False
    then have "i = length s" using Suc.prems(2) by simp
    then show ?thesis unfolding d by (auto simp: nth_append)
  qed
qed simp

lemma name_eq_iff: "length field = 24 \<Longrightarrow> length s < 24 \<Longrightarrow> 0 \<notin> set s \<Longrightarrow>
    tq_name_eq field (s @ [0]) \<longleftrightarrow> takeWhile (\<lambda>c. c \<noteq> 0) field = s"
  using name_eq_from_iff [of 0 24 field s] by (simp add: tq_name_eq_def TQ_NAME_BYTES_def)

lemma of_char_inj: "(of_char c :: u8) = of_char d \<longleftrightarrow> c = d"
proof
  assume "(of_char c :: u8) = of_char d"
  then have "(of_nat (of_char c) :: u8) = of_nat (of_char d)" by (simp only: of_nat_of_char)
  then have "unat (of_nat (of_char c) :: u8) = unat (of_nat (of_char d) :: u8)" by (simp only:)
  moreover have "of_char x < (2::nat) ^ LENGTH(8)" for x
    using mod_less_divisor [of "256::nat" "of_char x"] by (simp add: of_char_mod_256)
  ultimately have "(of_char c :: nat) = of_char d" by (simp only: unat_of_nat_id)
  then show "c = d" by simp
qed simp

lemma cstr_inj: "cstr s = cstr t \<longleftrightarrow> s = t"
  unfolding cstr_def by (intro inj_map_eq_map injI) (simp add: of_char_inj)

lemma zero_char: "(0 :: u8) = of_char c \<longleftrightarrow> CHR 0x00 = c"
proof -
  have "(of_char (CHR 0x00) :: u8) = 0" by (simp add: of_char_def)
  then show ?thesis using of_char_inj [of "CHR 0x00" c] by simp
qed

lemma cstr_nul: "0 \<in> set (cstr s) \<longleftrightarrow> CHR 0x00 \<in> set s"
  by (induction s) (simp_all only: cstr_def list.map list.set insert_iff zero_char empty_iff)

lemma length_cstr [simp]: "length (cstr s) = length s"
  by (simp add: cstr_def)

definition want_strings :: "string list" where
  "want_strings = [''tok_emb'', ''rms_final'', ''cls'', ''tok.scores'', ''tok.offs'', ''tok.blob'', ''tok.sorted'']"

lemma want_names: "map w_name (open_wants m) = map (\<lambda>s. cstr s @ [0]) want_strings"
  by (simp add: open_wants_def Let_def want_strings_def)

lemma want_name_nth:
  assumes "i < length (open_wants m)"
  obtains s where "w_name (open_wants m ! i) = cstr s @ [0]" and "length (cstr s) < 24" and "0 \<notin> set (cstr s)"
proof -
  have l: "length (open_wants m) = length want_strings" using arg_cong [OF want_names, of length] by simp
  have "w_name (open_wants m ! i) = cstr (want_strings ! i) @ [0]"
    using arg_cong [OF want_names, of "\<lambda>l. l ! i" m] assms l by simp
  moreover have "\<forall>s \<in> set want_strings. length s < 24 \<and> CHR 0x00 \<notin> set s" by (simp add: want_strings_def)
  ultimately show ?thesis using that [of "want_strings ! i"] assms l cstr_nul by simp
qed

lemma wants_names_distinct: "distinct (map w_name (open_wants m))"
  unfolding want_names by (simp add: want_strings_def cstr_inj)

lemma want_unique:
  assumes "length (e_name e) = 24" and "j < length (open_wants m)" and "k < length (open_wants m)"
    and "tq_name_eq (e_name e) (w_name (open_wants m ! j))" and "tq_name_eq (e_name e) (w_name (open_wants m ! k))"
  shows "j = k"
proof -
  have "w_name (open_wants m ! i) = takeWhile (\<lambda>c. c \<noteq> 0) (e_name e) @ [0]"
    if i: "i < length (open_wants m)" "tq_name_eq (e_name e) (w_name (open_wants m ! i))" for i
  proof -
    obtain s where "w_name (open_wants m ! i) = cstr s @ [0]" "length (cstr s) < 24" "0 \<notin> set (cstr s)"
      using want_name_nth [OF i(1)] by blast
    then show ?thesis using name_eq_iff [OF assms(1)] i(2) by simp
  qed
  from this [OF assms(2,4)] this [OF assms(3,5)]
  have "map w_name (open_wants m) ! j = map w_name (open_wants m) ! k" using assms(2,3) by simp
  then show ?thesis using wants_names_distinct assms(2,3) by (metis nth_eq_iff_index_eq length_map)
qed

section \<open>Complete files open\<close>

definition want_fits :: "tq_tensor_entry \<Rightarrow> tq_want \<Rightarrow> bool" where
  "want_fits e w \<longleftrightarrow> e_dtype e = w_dtype w
     \<and> (w_cols w \<noteq> 0 \<longrightarrow> e_ndim e = 2 \<and> e_shape e ! 0 = w_rows w \<and> e_shape e ! 1 = w_cols w)
     \<and> (w_cols w = 0 \<longrightarrow> w_rows w \<noteq> 0 \<longrightarrow> e_ndim e = 1 \<and> e_shape e ! 0 = w_rows w)"

text \<open>An entry no check objects to.\<close>

definition entry_good :: "tq_header \<Rightarrow> tq_model \<Rightarrow> tq_tensor_entry \<Rightarrow> bool" where
  "entry_good hdr m e \<longleftrightarrow> length (e_name e) = 24
     \<and> e_offset e + e_nbytes e \<le> h_file_bytes hdr \<and> e_offset e mod TQ_ALIGN = 0 \<and> e_offset e \<noteq> 0
     \<and> (\<forall>w \<in> set (open_wants m). tq_name_eq (e_name e) (w_name w) \<longrightarrow> want_fits e w)
     \<and> fst (open_layer m e) = TQ_OK"

lemma match_from_found:
  assumes "\<forall>w \<in> set ws. tq_name_eq (e_name e) (w_name w) \<longrightarrow> want_fits e w"
    and "\<forall>j k. j < length ws \<longrightarrow> k < length ws \<longrightarrow> tq_name_eq (e_name e) (w_name (ws ! j))
      \<longrightarrow> tq_name_eq (e_name e) (w_name (ws ! k)) \<longrightarrow> j = k"
  shows "\<exists>ws' m'. match_from i ws e m = (TQ_OK, ws', m') \<and> length ws' = length ws \<and> skeleton m' = skeleton m \<and> m_layers m' = m_layers m
    \<and> (\<forall>k < length ws. (w_found (ws ! k) \<or> i \<le> k \<and> tq_name_eq (e_name e) (w_name (ws ! k))) \<longrightarrow> w_found (ws' ! k))"
  using assms
proof (induction i ws e m rule: match_from.induct)
  case (1 i ws e m)
  show ?case
  proof (cases "i < length ws")
    case False
    then show ?thesis by (simp add: match_from.simps [of i])
  next
    case i: True
    show ?thesis
    proof (cases "w_found (ws ! i) \<or> \<not> tq_name_eq (e_name e) (w_name (ws ! i))")
      case True
      obtain ws' m' where IH: "match_from (i + 1) ws e m = (TQ_OK, ws', m')" "length ws' = length ws"
        "skeleton m' = skeleton m" "m_layers m' = m_layers m"
        "\<forall>k < length ws. (w_found (ws ! k) \<or> i + 1 \<le> k \<and> tq_name_eq (e_name e) (w_name (ws ! k))) \<longrightarrow> w_found (ws' ! k)"
        using 1(1) [OF i refl True 1(2,3)] by blast
      have "w_found (ws' ! k)" if "k < length ws" "w_found (ws ! k) \<or> i \<le> k \<and> tq_name_eq (e_name e) (w_name (ws ! k))" for k
        using IH(5) True that by (cases "k = i") auto
      then show ?thesis using IH(1-4) True i by (simp add: match_from.simps [of i])
    next
      case False
      let ?w = "ws ! i" and ?M = "store_want (w_offset (ws ! i)) (e_offset e) m"
      have "want_fits e ?w" using 1(2) i False by simp
      then have n: "\<not> e_dtype e \<noteq> w_dtype ?w"
        "\<not> (w_cols ?w \<noteq> 0 \<and> (e_ndim e \<noteq> 2 \<or> e_shape e ! 0 \<noteq> w_rows ?w \<or> e_shape e ! 1 \<noteq> w_cols ?w))"
        "\<not> (w_cols ?w = 0 \<and> w_rows ?w \<noteq> 0 \<and> (e_ndim e \<noteq> 1 \<or> e_shape e ! 0 \<noteq> w_rows ?w))"
        by (auto simp: want_fits_def)
      have r: "match_from i ws e m = (TQ_OK, ws[i := ?w\<lparr>w_found := True\<rparr>],
          if w_nbytes ?w then ?M\<lparr>m_tok_blob_bytes := ucast (e_nbytes e)\<rparr> else ?M)"
        unfolding match_from.simps [of i] Let_def if_P [OF i] if_not_P [OF False] if_not_P [OF n(1)]
          if_not_P [OF n(2)] if_not_P [OF n(3)] ..
      have "w_found (ws[i := ?w\<lparr>w_found := True\<rparr>] ! k)"
        if "k < length ws" "w_found (ws ! k) \<or> i \<le> k \<and> tq_name_eq (e_name e) (w_name (ws ! k))" for k
        using that 1(3) i False by (cases "k = i") auto
      then show ?thesis unfolding r by simp
    qed
  qed
qed

lemma wants_same:
  assumes "map (\<lambda>w. w\<lparr>w_found := False\<rparr>) ws = open_wants m"
  shows "length ws = length (open_wants m)"
    and "k < length ws \<Longrightarrow> w_name (ws ! k) = w_name (open_wants m ! k)"
    and "k < length ws \<Longrightarrow> want_fits e (ws ! k) = want_fits e (open_wants m ! k)"
    and "k < length ws \<Longrightarrow> w_required (ws ! k) = w_required (open_wants m ! k)"
proof -
  show l: "length ws = length (open_wants m)" using arg_cong [OF assms, of length] by simp
  show "w_name (ws ! k) = w_name (open_wants m ! k)" "want_fits e (ws ! k) = want_fits e (open_wants m ! k)"
    "w_required (ws ! k) = w_required (open_wants m ! k)" if "k < length ws"
    using that arg_cong [OF assms, of "\<lambda>l. l ! k"] by (simp_all add: want_fits_def flip: assms)
qed

definition has_layer :: "tq_model \<Rightarrow> tq_tensor_entry \<Rightarrow> nat \<Rightarrow> layer_slot \<Rightarrow> bool" where
  "has_layer m e l slot \<longleftrightarrow> e_name e ! 0 = of_char (CHR ''l'') \<and> e_name e ! 4 = of_char (CHR ''.'')
     \<and> unat (layer_index (e_name e)) = l \<and> (\<exists>dt r c. layer_want m (layer_suffix (e_name e)) = Some (slot, dt, r, c))"

lemma open_layer_good:
  assumes "fst (open_layer m e) = TQ_OK" and "e_offset e \<noteq> 0" and "length (m_layers m) = nat (m_n_layers m)"
    and "0 < m_n_layers m" and "m_n_layers m < 2 ^ 31"
  shows "\<exists>m'. open_layer m e = (TQ_OK, m') \<and> skeleton m' = skeleton m \<and> length (m_layers m') = length (m_layers m)
    \<and> (\<forall>l < nat (m_n_layers m). \<forall>slot. layer_field slot (m_layers m ! l) \<noteq> 0 \<or> has_layer m e l slot \<longrightarrow> layer_field slot (m_layers m' ! l) \<noteq> 0)"
proof -
  have w: "unat (word_of_int (m_n_layers m) :: u32) = nat (m_n_layers m)"
  proof -
    have "(word_of_int (m_n_layers m) :: u32) = of_nat (nat (m_n_layers m))" using assms(4) by simp
    moreover have "nat (m_n_layers m) < 2 ^ LENGTH(32)" using assms(5) by (simp add: nat_less_iff)
    ultimately show ?thesis by (simp only: unat_of_nat_id)
  qed
  have out: "\<not> has_layer m e l slot" if "layer_index (e_name e) \<ge> word_of_int (m_n_layers m)" "l < nat (m_n_layers m)" for l slot
    using that w by (auto simp: has_layer_def word_le_nat_alt)
  show ?thesis
  proof (cases "e_name e ! 0 \<noteq> of_char (CHR ''l'') \<or> e_name e ! 4 \<noteq> of_char (CHR ''.'')")
    case True
    then show ?thesis by (auto simp: open_layer_def has_layer_def)
  next
    case name: False
    show ?thesis
    proof (cases "layer_index (e_name e) \<ge> word_of_int (m_n_layers m)")
      case True
      then show ?thesis using out [OF True] name by (simp add: open_layer_def)
    next
      case idx: False
      show ?thesis
      proof (cases "layer_want m (layer_suffix (e_name e))")
        case None
        then show ?thesis using name idx by (auto simp: open_layer_def has_layer_def)
      next
        case (Some q)
        obtain slot dt r c where q: "q = (slot, dt, r, c)" by (cases q)
        let ?k = "unat (layer_index (e_name e))"
        let ?m = "m\<lparr>m_layers := (m_layers m)[?k := store_layer slot (e_offset e) (m_layers m ! ?k)]\<rparr>"
        have o: "open_layer m e = (TQ_OK, ?m)"
          using assms(1) name idx Some q by (auto simp: open_layer_def Let_def split: if_splits)
        have k: "?k < length (m_layers m)" using idx w assms(3) by (simp add: word_le_nat_alt)
        have "layer_field s (m_layers ?m ! l) \<noteq> 0"
          if "l < nat (m_n_layers m)" "layer_field s (m_layers m ! l) \<noteq> 0 \<or> has_layer m e l s" for l s
          using that k assms(2) Some q by (cases "l = ?k") (auto simp: has_layer_def)
        then show ?thesis unfolding o by simp
      qed
    qed
  qed
qed

lemma open_entries_complete:
  assumes "\<forall>e \<in> set es. entry_good hdr m0 e" and "skeleton m = skeleton m0" and "length (m_layers m) = nat (m_n_layers m0)"
    and "map (\<lambda>w. w\<lparr>w_found := False\<rparr>) ws = open_wants m0" and "0 < m_n_layers m0" and "m_n_layers m0 < 2 ^ 31"
  shows "\<exists>ws' m'. open_entries hdr es ws m = (TQ_OK, ws', m') \<and> length ws' = length ws
    \<and> (\<forall>k < length ws. w_found (ws ! k) \<or> (\<exists>e \<in> set es. tq_name_eq (e_name e) (w_name (ws ! k))) \<longrightarrow> w_found (ws' ! k))
    \<and> (\<forall>l < nat (m_n_layers m0). \<forall>slot. layer_field slot (m_layers m ! l) \<noteq> 0 \<or> (\<exists>e \<in> set es. has_layer m0 e l slot)
         \<longrightarrow> layer_field slot (m_layers m' ! l) \<noteq> 0)"
  using assms(1-4)
proof (induction es arbitrary: ws m)
  case (Cons e es)
  have g: "entry_good hdr m0 e" using Cons.prems(1) by simp
  note gd = g [unfolded entry_good_def]
  note ws = wants_same [OF Cons.prems(4)]
  have fits: "\<forall>w \<in> set ws. tq_name_eq (e_name e) (w_name w) \<longrightarrow> want_fits e w"
  proof (intro ballI impI)
    fix w assume "w \<in> set ws" "tq_name_eq (e_name e) (w_name w)"
    then obtain k where k: "k < length ws" "w = ws ! k" by (auto simp: in_set_conv_nth)
    then show "want_fits e w"
      using gd ws(1,2) ws(3) \<open>tq_name_eq (e_name e) (w_name w)\<close> by (metis nth_mem)
  qed
  have uniq: "\<forall>j k. j < length ws \<longrightarrow> k < length ws \<longrightarrow> tq_name_eq (e_name e) (w_name (ws ! j))
      \<longrightarrow> tq_name_eq (e_name e) (w_name (ws ! k)) \<longrightarrow> j = k"
    using want_unique [of e _ m0] gd ws(1,2) by metis
  obtain ws1 m1 where m1: "match_from 0 ws e m = (TQ_OK, ws1, m1)" "length ws1 = length ws" "skeleton m1 = skeleton m"
    "m_layers m1 = m_layers m"
    "\<forall>k < length ws. (w_found (ws ! k) \<or> 0 \<le> k \<and> tq_name_eq (e_name e) (w_name (ws ! k))) \<longrightarrow> w_found (ws1 ! k)"
    using match_from_found [OF fits uniq, of 0 m] by blast
  have sk: "skeleton m1 = skeleton m0" using m1(3) Cons.prems(2) by simp
  have st: "map (\<lambda>w. w\<lparr>w_found := False\<rparr>) ws1 = map (\<lambda>w. w\<lparr>w_found := False\<rparr>) ws"
    using match_from_ok [OF m1(1)]
  proof (elim disjE exE conjE)
    fix k b assume "k < length ws" "ws1 = ws[k := (ws ! k)\<lparr>w_found := True\<rparr>]"
    then show ?thesis using list_update_id [of "map (\<lambda>w. w\<lparr>w_found := False\<rparr>) ws" k] by (simp add: map_update)
  qed simp
  have ol: "fst (open_layer m1 e) = TQ_OK"
  proof -
    have "open_layer m1 e = (fst (open_layer m0 e), m1) \<or> fst (open_layer m1 e) = fst (open_layer m0 e)"
      unfolding open_layer_def skeleton_layer_want [OF sk] skeleton_fields(4) [OF sk] by (auto simp: Let_def split: option.splits)
    then show ?thesis using gd by auto
  qed
  have n1: "m_n_layers m1 = m_n_layers m0" using skeleton_fields(4) [OF sk] .
  have len1: "length (m_layers m1) = nat (m_n_layers m1)" using m1(4) Cons.prems(3) n1 by simp
  have hl: "has_layer m1 = has_layer m0" by (intro ext) (simp only: has_layer_def skeleton_layer_want [OF sk])
  obtain m2 where m2: "open_layer m1 e = (TQ_OK, m2)" "skeleton m2 = skeleton m1" "length (m_layers m2) = length (m_layers m1)"
    "\<forall>l < nat (m_n_layers m0). \<forall>slot. layer_field slot (m_layers m1 ! l) \<noteq> 0 \<or> has_layer m0 e l slot \<longrightarrow> layer_field slot (m_layers m2 ! l) \<noteq> 0"
    using open_layer_good [OF ol _ len1] gd assms(5,6) unfolding n1 hl by blast
  have e: "open_entry hdr ws m e = (TQ_OK, ws1, m2)"
    using gd m1(1) m2(1) by (simp add: open_entry_def tq_match_def not_less)
  obtain ws' m' where r: "open_entries hdr es ws1 m2 = (TQ_OK, ws', m')" "length ws' = length ws1"
    "\<forall>k < length ws1. w_found (ws1 ! k) \<or> (\<exists>e \<in> set es. tq_name_eq (e_name e) (w_name (ws1 ! k))) \<longrightarrow> w_found (ws' ! k)"
    "\<forall>l < nat (m_n_layers m0). \<forall>slot. layer_field slot (m_layers m2 ! l) \<noteq> 0 \<or> (\<exists>e \<in> set es. has_layer m0 e l slot)
         \<longrightarrow> layer_field slot (m_layers m' ! l) \<noteq> 0"
    using Cons.IH [of m2 ws1] Cons.prems m2 m1(2) sk st n1 len1 by auto
  have nm: "w_name (ws1 ! k) = w_name (ws ! k)" if "k < length ws" for k
    using wants_same(2) [OF trans [OF st Cons.prems(4)], of k] ws(2) that m1(2) by simp
  have "w_found (ws' ! k)"
    if "k < length ws" "w_found (ws ! k) \<or> (\<exists>e' \<in> set (e # es). tq_name_eq (e_name e') (w_name (ws ! k)))" for k
    using r(3) m1(2,5) that nm [OF that(1)] by auto
  moreover have "layer_field slot (m_layers m' ! l) \<noteq> 0"
    if "l < nat (m_n_layers m0)" "layer_field slot (m_layers m ! l) \<noteq> 0 \<or> (\<exists>e' \<in> set (e # es). has_layer m0 e' l slot)" for l slot
    using r(4) m2(4) m1(4) that by auto
  ultimately show ?case using e r(1,2) m1(2) by simp
qed simp

lemma layer_suffix_cstr:
  "CHR 0x00 \<notin> set name \<Longrightarrow> 5 \<le> length name \<Longrightarrow> layer_suffix (cstr name @ replicate k 0) = cstr (drop 5 name)"
proof -
  assume n: "CHR 0x00 \<notin> set name" and l: "5 \<le> length name"
  have "0 \<notin> set (cstr (drop 5 name))" using n cstr_nul set_drop_subset by fast
  then have "\<forall>c \<in> set (cstr (drop 5 name)). c \<noteq> 0" by metis
  moreover have "drop 5 (cstr name @ replicate k 0) = cstr (drop 5 name) @ replicate k 0"
    using l by (simp add: cstr_def drop_map)
  ultimately show ?thesis by (simp add: layer_suffix_def takeWhile_append2 takeWhile_tail)
qed

lemma name_eq_cstr:
  assumes "CHR 0x00 \<notin> set a" and "CHR 0x00 \<notin> set b" and "length a < 24" and "length b < 24"
  shows "tq_name_eq (cstr a @ replicate (24 - length a) 0) (cstr b @ [0]) \<longleftrightarrow> a = b"
proof -
  have "\<forall>c \<in> set (cstr a). c \<noteq> 0" using assms(1) cstr_nul by metis
  then have "takeWhile (\<lambda>c. c \<noteq> 0) (cstr a @ replicate (24 - length a) 0) = cstr a" by (simp add: takeWhile_append2)
  then show ?thesis
    using name_eq_iff [of "cstr a @ replicate (24 - length a) 0" "cstr b"] assms cstr_nul by (simp add: cstr_inj)
qed

lemma layer_index_digits:
  "layer_index (cstr (CHR ''l'' # CHR ''0'' # CHR ''0'' # CHR ''0'' # s) @ r) = 0"
  by (simp add: layer_index_def cstr_def)

lemma layer_prefix:
  "(cstr (CHR ''l'' # CHR ''0'' # CHR ''0'' # CHR ''0'' # CHR ''.'' # s) @ r) ! 0 = of_char (CHR ''l'')"
  "(cstr (CHR ''l'' # CHR ''0'' # CHR ''0'' # CHR ''0'' # CHR ''.'' # s) @ r) ! 4 = of_char (CHR ''.'')"
  by (simp_all add: cstr_def)

text \<open>
  The files that open, in terms of the header's checks and of the directory: every entry is
  acceptable, every required global tensor is there, and so is every tensor of every layer.
\<close>

definition complete_image :: "u8 list \<Rightarrow> 'w::len word \<Rightarrow> 'w word \<Rightarrow> bool" where
  "complete_image img arena arena_bytes \<longleftrightarrow>
     (let hdr = header_at img; m = open_dims hdr (zero_model\<lparr>m_hdr := hdr\<rparr>); es = directory img hdr
      in 256 \<le> length img \<and> open_magic hdr = TQ_OK \<and> open_header hdr (of_nat (length img)) = TQ_OK
         \<and> unat (h_tensor_table_offset hdr) + unat (h_tensor_count hdr) * 64 \<le> length img
         \<and> snd (tq_carve arena arena_bytes 0 (72 * word_of_int (m_n_layers m))) \<noteq> None
         \<and> (\<forall>e \<in> set es. entry_good hdr m e)
         \<and> (\<forall>w \<in> set (open_wants m). w_required w \<longrightarrow> (\<exists>e \<in> set es. tq_name_eq (e_name e) (w_name w)))
         \<and> (\<forall>l < nat (m_n_layers m). \<forall>slot. \<exists>e \<in> set es. has_layer m e l slot))"

lemma layer_complete_iff: "layer_complete lo \<longleftrightarrow> (\<forall>slot. layer_field slot lo \<noteq> 0)"
proof
  assume "layer_complete lo"
  then have "layer_field slot lo \<noteq> 0" for slot by (cases slot) (simp_all add: layer_complete_def)
  then show "\<forall>slot. layer_field slot lo \<noteq> 0" ..
next
  assume a: "\<forall>slot. layer_field slot lo \<noteq> 0"
  show "layer_complete lo"
    using a [rule_format, of L_rms_att] a [rule_format, of L_rms_ffn] a [rule_format, of L_wq] a [rule_format, of L_wk]
      a [rule_format, of L_wv] a [rule_format, of L_wo] a [rule_format, of L_w1] a [rule_format, of L_w2] a [rule_format, of L_w3]
    by (simp add: layer_complete_def)
qed

lemma complete_image_opens:
  assumes "complete_image img arena arena_bytes"
  shows "\<exists>m. open_image img arena arena_bytes = (TQ_OK, m)"
proof -
  define hdr where "hdr = header_at img"
  define m0 where "m0 = open_dims hdr (zero_model\<lparr>m_hdr := hdr\<rparr>)"
  define m1 where "m1 = m0\<lparr>m_layers := replicate (nat (m_n_layers m0)) no_offsets\<rparr>"
  note c = assms [unfolded complete_image_def Let_def, folded hdr_def, folded m0_def]
  have sk: "skeleton m1 = skeleton m0" by (simp add: skeleton_def m1_def)
  have n: "m_n_layers m0 = h_n_layers hdr" by (simp add: m0_def open_dims_def)
  have "h_n_layers hdr < 2 ^ 31" using sint_less [of "le32 img 48"] by (simp add: hdr_def header_at_def)
  then have pos: "0 < m_n_layers m0" "m_n_layers m0 < 2 ^ 31"
    using c by (auto simp: n open_header_def split: if_splits)
  have wm: "open_wants m1 = open_wants m0" by (rule skeleton_wants [OF sk])
  have w0: "map (\<lambda>w. w\<lparr>w_found := False\<rparr>) (open_wants m0) = open_wants m0" by (simp add: open_wants_def Let_def)
  have good: "\<forall>e \<in> set (directory img hdr). entry_good hdr m0 e"
    and req: "\<forall>w \<in> set (open_wants m0). w_required w \<longrightarrow> (\<exists>e \<in> set (directory img hdr). tq_name_eq (e_name e) (w_name w))"
    and lay: "\<forall>l < nat (m_n_layers m0). \<forall>slot. \<exists>e \<in> set (directory img hdr). has_layer m0 e l slot"
    using c by blast+
  obtain ws' m' where r: "open_entries hdr (directory img hdr) (open_wants m0) m1 = (TQ_OK, ws', m')"
    "length ws' = length (open_wants m0)"
    "\<forall>k < length (open_wants m0). w_found (open_wants m0 ! k)
       \<or> (\<exists>e \<in> set (directory img hdr). tq_name_eq (e_name e) (w_name (open_wants m0 ! k))) \<longrightarrow> w_found (ws' ! k)"
    "\<forall>l < nat (m_n_layers m0). \<forall>slot. layer_field slot (m_layers m1 ! l) \<noteq> 0
       \<or> (\<exists>e \<in> set (directory img hdr). has_layer m0 e l slot) \<longrightarrow> layer_field slot (m_layers m' ! l) \<noteq> 0"
    using open_entries_complete [OF good sk _ w0 pos] by (auto simp: m1_def)
  have mn: "m_n_layers m1 = m_n_layers m0" by (simp add: m1_def)
  have "dir_inv hdr m1 {} (open_wants m1) m1" by (rule dir_inv_start) (simp add: m1_def)
  from open_entries_inv [OF this, unfolded wm, OF r(1)] pos mn
  have "dir_inv hdr m1 (set (directory img hdr) \<union> {}) ws' m'" by simp
  then have inv: "skeleton m' = skeleton m1" "length (m_layers m') = nat (m_n_layers m0)"
    "map (\<lambda>w. w\<lparr>w_found := False\<rparr>) ws' = open_wants m0"
    unfolding dir_inv_def wm mn by blast+
  note ws = wants_same [OF inv(3)]
  have ok: "open_magic hdr = TQ_OK" "open_header hdr (of_nat (length img)) = TQ_OK"
    "snd (tq_carve arena arena_bytes 0 (72 * word_of_int (m_n_layers m0))) \<noteq> None" using c by blast+
  have found: "\<not> list_ex (\<lambda>w. w_required w \<and> \<not> w_found w) ws'"
  proof
    assume "list_ex (\<lambda>w. w_required w \<and> \<not> w_found w) ws'"
    then obtain k where k: "k < length ws'" "w_required (ws' ! k)" "\<not> w_found (ws' ! k)"
      unfolding list_ex_iff by (metis in_set_conv_nth)
    then have "open_wants m0 ! k \<in> set (open_wants m0)" "w_required (open_wants m0 ! k)" using ws(1,4) by auto
    then show False using req r(2,3) k(1,3) ws(1) by metis
  qed
  have "layer_complete lo" if lo: "lo \<in> set (m_layers m')" for lo
  proof -
    obtain l where l: "l < nat (m_n_layers m0)" "lo = m_layers m' ! l"
      using lo [unfolded in_set_conv_nth inv(2)] by blast
    then show ?thesis unfolding layer_complete_iff using lay r(4) by blast
  qed
  then have "list_all layer_complete (m_layers m')" by (simp add: list_all_iff)
  then have f: "fst (open_finish ws' m') = TQ_OK" using found by (simp add: open_finish_def Let_def)
  have "open_image img arena arena_bytes = open_finish ws' m'"
    unfolding open_image_def Let_def hdr_def [symmetric] m0_def [symmetric] m1_def [symmetric] wm r(1) ok(1,2)
      if_not_P [OF ok(3)] by simp
  then show ?thesis using f by (metis prod.collapse)
qed


section \<open>The sample file opens\<close>

definition sample_start :: tq_model where
  "sample_start = open_dims sample_hdr (zero_model\<lparr>m_hdr := sample_hdr\<rparr>)"

lemma sample_start_fields [simp]:
  "m_dim sample_start = 32" "m_hidden_dim sample_start = 32" "m_kv_dim sample_start = 32" "m_qtype sample_start = 2"
  "m_vocab_size sample_start = 1" "m_n_layers sample_start = 1" "h_shared_classifier (m_hdr sample_start) = 1"
  by (simp_all add: sample_start_def sample_hdr_def open_dims_def)

lemma sample_layer_want:
  "layer_want sample_start (cstr ''rms_att'') = Some (L_rms_att, 0, 32, 0)"
  "layer_want sample_start (cstr ''rms_ffn'') = Some (L_rms_ffn, 0, 32, 0)"
  "layer_want sample_start (cstr ''wq'') = Some (L_wq, 2, 32, 32)"
  "layer_want sample_start (cstr ''wk'') = Some (L_wk, 2, 32, 32)"
  "layer_want sample_start (cstr ''wv'') = Some (L_wv, 2, 32, 32)"
  "layer_want sample_start (cstr ''wo'') = Some (L_wo, 2, 32, 32)"
  "layer_want sample_start (cstr ''w1'') = Some (L_w1, 2, 32, 32)"
  "layer_want sample_start (cstr ''w2'') = Some (L_w2, 2, 32, 32)"
  "layer_want sample_start (cstr ''w3'') = Some (L_w3, 2, 32, 32)"
  by (simp_all add: layer_want_def cstr_inj TQ_DT_F32_def)

definition sample_entry :: "string \<Rightarrow> nat list \<Rightarrow> nat \<Rightarrow> nat \<Rightarrow> tq_tensor_entry" where
  "sample_entry name ws off nb =
     \<lparr>e_name = cstr name @ replicate (24 - length name) 0, e_dtype = of_nat (ws ! 0), e_ndim = of_nat (ws ! 1),
      e_shape = [of_nat (ws ! 2), of_nat (ws ! 3), of_nat (ws ! 4), of_nat (ws ! 5)], e_offset = of_nat off,
      e_nbytes = of_nat nb\<rparr>"

lemma sample_name: "e_name (sample_entry name ws off nb) = cstr name @ replicate (24 - length name) 0"
  by (simp add: sample_entry_def)

lemma sample_dir_entries: "sample_dir = map (\<lambda>(name, ws, off, nb). sample_entry name ws off nb) sample_tensors"
  by (simp add: sample_dir_def sample_entry_def)

lemma sample_names:
  "(name, ws, off, nb) \<in> set sample_tensors \<Longrightarrow> length name < 24 \<and> CHR 0x00 \<notin> set name"
  by (auto simp: sample_tensors_def)

lemma want_row:
  "w \<in> set (open_wants m) \<Longrightarrow> \<exists>s \<in> set want_strings. w_name w = cstr s @ [0]
     \<and> (s = ''tok_emb'' \<longrightarrow> w_dtype w = m_qtype m \<and> w_rows w = word_of_int (m_vocab_size m) \<and> w_cols w = word_of_int (m_dim m))
     \<and> (s = ''rms_final'' \<longrightarrow> w_dtype w = TQ_DT_F32 \<and> w_rows w = word_of_int (m_dim m) \<and> w_cols w = 0)"
  by (auto simp: open_wants_def Let_def want_strings_def)

lemma sample_name_eq:
  "(name, ws, off, nb) \<in> set sample_tensors \<Longrightarrow> s \<in> set want_strings \<Longrightarrow>
    tq_name_eq (e_name (sample_entry name ws off nb)) (cstr s @ [0]) \<longleftrightarrow> name = s"
proof -
  assume n: "(name, ws, off, nb) \<in> set sample_tensors" and s: "s \<in> set want_strings"
  have "length s < 24 \<and> CHR 0x00 \<notin> set s" using s by (auto simp: want_strings_def)
  then show ?thesis unfolding sample_name using name_eq_cstr sample_names [OF n] by blast
qed

lemma sample_wants:
  assumes "w \<in> set (open_wants sample_start)" and "(name, ws, off, nb) \<in> set sample_tensors"
    and "tq_name_eq (e_name (sample_entry name ws off nb)) (w_name w)"
  shows "want_fits (sample_entry name ws off nb) w"
proof -
  from want_row [OF assms(1)] obtain s where s: "s \<in> set want_strings" "w_name w = cstr s @ [0]"
     "s = ''tok_emb'' \<longrightarrow> w_dtype w = 2 \<and> w_rows w = 1 \<and> w_cols w = 32"
     "s = ''rms_final'' \<longrightarrow> w_dtype w = 0 \<and> w_rows w = 32 \<and> w_cols w = 0"
    by (auto simp: TQ_DT_F32_def)
  then have "name = s" using sample_name_eq [OF assms(2)] assms(3) by metis
  then show ?thesis using assms(2) s(1,3,4)
    by (auto simp: want_strings_def sample_tensors_def sample_entry_def want_fits_def)
qed

lemma open_layer_other:
  "e_name e ! 0 \<noteq> of_char (CHR ''l'') \<Longrightarrow> open_layer m e = (TQ_OK, m)"
  by (simp add: open_layer_def)

lemma open_layer_zero:
  assumes "CHR 0x00 \<notin> set suf" and "layer_want sample_start (cstr suf) = Some (slot, dt, r, c)"
    and "ws = [unat dt, if c = 0 then 1 else 2, unat r, unat c, 0, 0]"
  shows "fst (open_layer sample_start (sample_entry (''l000.'' @ suf) ws off nb)) = TQ_OK"
    and "has_layer sample_start (sample_entry (''l000.'' @ suf) ws off nb) 0 slot"
proof -
  have suf: "layer_suffix (cstr (''l000.'' @ suf) @ replicate k 0) = cstr suf" for k
    using layer_suffix_cstr [of "''l000.'' @ suf" k] assms(1) by simp
  note name = layer_index_digits [of "CHR ''.'' # suf"] layer_prefix [of suf]
  show "fst (open_layer sample_start (sample_entry (''l000.'' @ suf) ws off nb)) = TQ_OK"
    unfolding open_layer_def sample_name suf assms(2)
    using name by (simp add: sample_entry_def assms(3))
  show "has_layer sample_start (sample_entry (''l000.'' @ suf) ws off nb) 0 slot"
    unfolding has_layer_def sample_name suf assms(2) using name by simp
qed

definition sample_layer :: "(string \<times> layer_slot \<times> u32 \<times> u32 \<times> u32 \<times> nat \<times> nat) list" where
  "sample_layer =
     [(''rms_att'', L_rms_att, 0, 32, 0, 1152, 128), (''rms_ffn'', L_rms_ffn, 0, 32, 0, 1280, 128),
      (''wq'', L_wq, 2, 32, 32, 1408, 576), (''wk'', L_wk, 2, 32, 32, 1984, 576), (''wv'', L_wv, 2, 32, 32, 2560, 576),
      (''wo'', L_wo, 2, 32, 32, 3136, 576), (''w1'', L_w1, 2, 32, 32, 3712, 576), (''w2'', L_w2, 2, 32, 32, 4288, 576),
      (''w3'', L_w3, 2, 32, 32, 4864, 576)]"

lemma sample_dir_split:
  "sample_dir = sample_entry ''tok_emb'' [2, 2, 1, 32, 0, 0] 960 18 # sample_entry ''rms_final'' [0, 1, 32, 0, 0, 0] 1024 128
     # map (\<lambda>(suf, slot, dt, r, c, off, nb).
         sample_entry (''l000.'' @ suf) [unat dt, if c = 0 then 1 else 2, unat r, unat c, 0, 0] off nb) sample_layer"
  by (simp add: sample_dir_entries sample_tensors_def sample_layer_def)

lemma sample_layer_wants:
  "(suf, slot, dt, r, c, off, nb) \<in> set sample_layer \<Longrightarrow>
     CHR 0x00 \<notin> set suf \<and> layer_want sample_start (cstr suf) = Some (slot, dt, r, c)"
  by (auto simp: sample_layer_def sample_layer_want)

lemma sample_dir_cases:
  assumes "e \<in> set sample_dir"
  obtains "e = sample_entry ''tok_emb'' [2, 2, 1, 32, 0, 0] 960 18"
    | "e = sample_entry ''rms_final'' [0, 1, 32, 0, 0, 0] 1024 128"
    | suf slot dt r c off nb where "e = sample_entry (''l000.'' @ suf) [unat dt, if c = 0 then 1 else 2, unat r, unat c, 0, 0] off nb"
      and "CHR 0x00 \<notin> set suf" and "layer_want sample_start (cstr suf) = Some (slot, dt, r, c)"
  using assms unfolding sample_dir_split list.set insert_iff set_map image_iff
proof (elim disjE bexE)
  fix q assume q: "q \<in> set sample_layer" "e = (case q of (suf, slot, dt, r, c, off, nb) \<Rightarrow>
    sample_entry (''l000.'' @ suf) [unat dt, if c = 0 then 1 else 2, unat r, unat c, 0, 0] off nb)"
  obtain suf slot dt r c off nb where p: "q = (suf, slot, dt, r, c, off, nb)" by (cases q)
  show thesis using that(3) sample_layer_wants [OF q(1) [unfolded p]] q(2) unfolding p prod.case by blast
qed simp_all

lemma sample_layers:
  "e \<in> set sample_dir \<Longrightarrow> fst (open_layer sample_start e) = TQ_OK"
proof (erule sample_dir_cases)
  assume e: "e = sample_entry ''tok_emb'' [2, 2, 1, 32, 0, 0] 960 18"
  show ?thesis unfolding e by (subst open_layer_other) (simp_all add: sample_entry_def cstr_def)
next
  assume e: "e = sample_entry ''rms_final'' [0, 1, 32, 0, 0, 0] 1024 128"
  show ?thesis unfolding e by (subst open_layer_other) (simp_all add: sample_entry_def cstr_def)
next
  fix suf slot dt r c off nb
  assume e: "e = sample_entry (''l000.'' @ suf) [unat dt, if c = 0 then 1 else 2, unat r, unat c, 0, 0] off nb"
    and l: "CHR 0x00 \<notin> set suf" "layer_want sample_start (cstr suf) = Some (slot, dt, r, c)"
  show ?thesis unfolding e by (rule open_layer_zero(1) [OF l refl])
qed

lemma sample_has_layer:
  "\<exists>e \<in> set sample_dir. has_layer sample_start e 0 slot"
proof -
  obtain suf dt r c off nb where q: "(suf, slot, dt, r, c, off, nb) \<in> set sample_layer"
    by (cases slot) (auto simp: sample_layer_def)
  let ?e = "sample_entry (''l000.'' @ suf) [unat dt, if c = 0 then 1 else 2, unat r, unat c, 0, 0] off nb"
  have "?e \<in> set sample_dir" unfolding sample_dir_split list.set set_map
    by (intro insertI2 image_eqI [OF _ q]) (simp only: prod.case)
  moreover have "has_layer sample_start ?e 0 slot"
    using open_layer_zero(2) [OF _ _ refl] sample_layer_wants [OF q] by blast
  ultimately show ?thesis ..
qed

lemma want_required:
  "w \<in> set (open_wants sample_start) \<Longrightarrow> w_required w \<Longrightarrow> w_name w = cstr ''tok_emb'' @ [0] \<or> w_name w = cstr ''rms_final'' @ [0]"
  by (auto simp: open_wants_def Let_def)

lemma sample_good: "e \<in> set sample_dir \<Longrightarrow> entry_good sample_hdr sample_start e"
proof -
  assume e: "e \<in> set sample_dir"
  have "length (e_name e) = 24 \<and> e_offset e + e_nbytes e \<le> 5440 \<and> e_offset e mod 64 = 0 \<and> e_offset e \<noteq> 0"
    using e by (auto simp: sample_dir_entries sample_tensors_def sample_entry_def)
  moreover have "want_fits e w" if "w \<in> set (open_wants sample_start)" "tq_name_eq (e_name e) (w_name w)" for w
    using e sample_wants [OF that(1)] that(2) by (auto simp: sample_dir_entries)
  ultimately show ?thesis
    using sample_layers [OF e] by (simp add: entry_good_def TQ_ALIGN_def) (simp add: sample_hdr_def)
qed

lemma sample_complete: "complete_image sample_file (0x20000000 :: 32 word) 100"
  unfolding complete_image_def Let_def sample_header_at sample_start_def [symmetric] sample_directory sample_length
proof (intro conjI)
  show "open_magic sample_hdr = TQ_OK" by (simp add: open_magic_def sample_hdr_def TQ_MAGIC_def TQ_VERSION_def TQ_HEADER_BYTES_def)
  show "open_header sample_hdr (of_nat 5440) = TQ_OK"
    by (simp add: open_header_def sample_hdr_def TQ_ARCH_LLAMA2_def TQ_DT_Q4_0_def TQ_DT_Q8_0_def TQ_GROUP_SIZE_def)
  show "snd (tq_carve (0x20000000 :: 32 word) 100 0 (72 * word_of_int (m_n_layers sample_start))) \<noteq> None"
    by (subst carve_value) (simp_all add: Let_def carve_off_def)
  show "\<forall>w \<in> set (open_wants sample_start). w_required w \<longrightarrow> (\<exists>e \<in> set sample_dir. tq_name_eq (e_name e) (w_name w))"
  proof (intro ballI impI)
    fix w assume w: "w \<in> set (open_wants sample_start)" "w_required w"
    have "tq_name_eq (e_name (sample_entry ''tok_emb'' [2, 2, 1, 32, 0, 0] 960 18)) (cstr ''tok_emb'' @ [0])"
      "tq_name_eq (e_name (sample_entry ''rms_final'' [0, 1, 32, 0, 0, 0] 1024 128)) (cstr ''rms_final'' @ [0])"
      unfolding sample_name by ((rule name_eq_cstr [THEN iffD2]; simp)+)
    with want_required [OF w] show "\<exists>e \<in> set sample_dir. tq_name_eq (e_name e) (w_name w)"
      unfolding sample_dir_split by (elim disjE) simp_all
  qed
  show "\<forall>l < nat (m_n_layers sample_start). \<forall>slot. \<exists>e \<in> set sample_dir. has_layer sample_start e l slot"
    using sample_has_layer by simp
  show "\<forall>e \<in> set sample_dir. entry_good sample_hdr sample_start e" using sample_good by blast
qed (simp_all add: sample_hdr_def)

definition sample_mapped :: "unit tq_store" where
  "sample_mapped = tq_store_init_mapped sample_file 5440"

definition sample_streamed :: "unit tq_store" where
  "sample_streamed = tq_store_init_stream 5440 (\<lambda>c off n. (c, 0, take (unat n) (drop (unat off) sample_file))) None (replicate 2048 0) 2048"

lemma sample_stores: "store_shows sample_file 2048 sample_mapped" "store_shows sample_file 2048 sample_streamed"
proof -
  show "store_shows sample_file 2048 sample_mapped"
    unfolding sample_mapped_def using store_init_shows(1) [of sample_file 2048] by (simp add: sample_length)
  let ?rd = "\<lambda>c off n. (c :: unit option, 0 :: int, take (unat n) (drop (unat off) sample_file))"
  have h: "honest_read ?rd (\<lambda>_. True) sample_file" by (simp add: honest_read_def)
  have "store_shows sample_file (unat (2048 :: u32)) (tq_store_init_stream (of_nat (length sample_file)) ?rd None (replicate 2048 0) 2048)"
    by (rule store_init_shows(2) [OF _ h]) (simp_all add: sample_length)
  then show "store_shows sample_file 2048 sample_streamed" unfolding sample_streamed_def by (simp add: sample_length)
qed

lemma sample_range: "256 \<le> length sample_file"
  "unat (h_tensor_table_offset (header_at sample_file)) + unat (h_tensor_count (header_at sample_file)) * 64 \<le> length sample_file"
  unfolding sample_header_at sample_length by (simp_all add: sample_hdr_def)

lemma sample_opens:
  "store_shows sample_file lmt st \<Longrightarrow> 2048 \<le> lmt \<Longrightarrow> fst (tq_model_open st (0x20000000 :: 32 word) 100) = TQ_OK"
proof -
  assume a: "store_shows sample_file lmt st" "2048 \<le> lmt"
  from open_image_implemented [OF a sample_range, of "0x20000000 :: 32 word" 100] complete_image_opens [OF sample_complete]
  show ?thesis by auto
qed

lemma sample_mapped_opens:
  obtains m st' where "tq_model_open sample_mapped (0x20000000 :: 32 word) 100 = (TQ_OK, m, st')"
  using sample_opens [OF sample_stores(1)] by (metis order_refl prod.collapse)

section \<open>The properties of opening\<close>

text \<open>
  Comparing directory names. For a wanted name of less than 24 characters the fixed-width
  comparison holds exactly when the field, up to its terminator or its end, is that name; the
  characters behind the terminator do not matter.
\<close>

theorem name_eq_exact:
  assumes "length field = 24" and "length s < 24" and "0 \<notin> set s"
  shows "tq_name_eq field (s @ [0]) \<longleftrightarrow> takeWhile (\<lambda>c. c \<noteq> 0) field = s"
  using name_eq_from_iff [of 0 24 field s] assms by (simp add: tq_name_eq_def TQ_NAME_BYTES_def)

theorem name_eq_exact_witness:
  "tq_name_eq ([119, 113] @ replicate 21 0 @ [7]) ([119, 113] @ [0])"
  using name_eq_exact [of "[119, 113] @ replicate 21 0 @ [7]" "[119, 113]"] by simp

text \<open>
  A model opens the same from a card as from memory. Two stores that show the same image,
  mapped or streaming, with tiles of any size from 2048 bytes up, give the same status and the
  same model, for every image, malformed ones included.
\<close>

theorem open_store_independent:
  assumes "store_shows img l1 s1" and "store_shows img l2 s2" and "2048 \<le> l1" and "2048 \<le> l2"
  shows "\<exists>rc m s1' s2'. tq_model_open s1 arena arena_bytes = (rc, m, s1') \<and>
    tq_model_open s2 arena arena_bytes = (rc, m, s2') \<and> store_shows img l1 s1' \<and> store_shows img l2 s2'"
proof (cases "256 \<le> length img")
  case False
  then show ?thesis
    using header_view [OF assms(1)] header_view [OF assms(2)] assms by (simp add: tq_model_open_def)
next
  case True
  obtain s1' p1 s2' p2 where v: "tq_store_view s1 0 TQ_HEADER_BYTES = (s1', Some p1)" "store_shows img l1 s1'" "header_at p1 = header_at img"
    "tq_store_view s2 0 TQ_HEADER_BYTES = (s2', Some p2)" "store_shows img l2 s2'" "header_at p2 = header_at img"
    using header_view [OF assms(1)] header_view [OF assms(2)] assms(3,4) True by auto
  have b: "st_bytes s1' = st_bytes s2'"
    using v(2,5) by (auto simp: store_shows_def store_mapped_def store_streams_def word_unat_eq_iff)
  define hdr where "hdr = header_at img"
  define m where "m = open_dims hdr (zero_model\<lparr>m_hdr := hdr\<rparr>)"
  define m1 where "m1 = m\<lparr>m_layers := replicate (nat (m_n_layers m)) no_offsets\<rparr>"
  obtain rc t1 t2 ws m2 where d: "open_directory s1' hdr 0 (open_wants m1) m1 = (rc, t1, ws, m2)"
    "open_directory s2' hdr 0 (open_wants m1) m1 = (rc, t2, ws, m2)" "store_shows img l1 t1" "store_shows img l2 t2"
    using open_directory_same [OF v(2,5) assms(3,4), of hdr 0 "open_wants m1" m1] by blast
  obtain rc3 m3 where f: "open_finish ws m2 = (rc3, m3)" by (cases "open_finish ws m2")
  obtain u p where c: "tq_carve arena arena_bytes 0 (72 * word_of_int (m_n_layers m)) = (u, p)"
    by (cases "tq_carve arena arena_bytes 0 (72 * word_of_int (m_n_layers m))")
  show ?thesis
    unfolding tq_model_open_def v(1,4) Let_def prod.case option.case v(3,6) b hdr_def [symmetric] m_def [symmetric] c
      m1_def [symmetric] d(1,2) f
    using v(2,5) d(3,4) by (cases p) auto
qed

theorem open_store_independent_witness:
  "\<exists>m s1 s2. tq_model_open sample_mapped (0x20000000 :: 32 word) 100 = (TQ_OK, m, s1)
    \<and> tq_model_open sample_streamed (0x20000000 :: 32 word) 100 = (TQ_OK, m, s2)"
  using open_store_independent [OF sample_stores order_refl order_refl, of "0x20000000 :: 32 word" 100]
    sample_opens [OF sample_stores(1) order_refl] by auto

text \<open>
  C13: opening implements the parser of images. For every store that shows an image with its
  header and directory, whatever the chunks and the tile, \<^verbatim>\<open>tq_model_open\<close> returns the status
  and the model of the one-pass parser.
\<close>

theorem open_refines_image:
  assumes "store_shows img lmt st" and "2048 \<le> lmt" and "256 \<le> length img"
    and "unat (h_tensor_table_offset (header_at img)) + unat (h_tensor_count (header_at img)) * 64 \<le> length img"
  shows "\<exists>st'. tq_model_open st arena arena_bytes =
      (fst (open_image img arena arena_bytes), snd (open_image img arena arena_bytes), st') \<and> store_shows img lmt st'"
  by (rule open_image_implemented [OF assms])

theorem open_refines_image_witness:
  "\<exists>st'. tq_model_open sample_streamed (0x20000000 :: 32 word) 100 =
     (TQ_OK, snd (open_image sample_file (0x20000000 :: 32 word) 100), st') \<and> store_shows sample_file 2048 st'"
  using open_refines_image [OF sample_stores(2) order_refl sample_range, of "0x20000000 :: 32 word" 100]
    sample_opens [OF sample_stores(2) order_refl] by auto

lemma open_facts:
  assumes "tq_model_open st arena arena_bytes = (TQ_OK, m, st')" and "store_shows img lmt st" and "2048 \<le> lmt"
  shows "256 \<le> length img \<and> h_magic (header_at img) = TQ_MAGIC \<and> h_version (header_at img) = TQ_VERSION
    \<and> unat (h_file_bytes (header_at img)) \<le> length img
    \<and> model_from (header_at img) (directory img (header_at img)) m
    \<and> unat (h_tensor_table_offset (header_at img)) + unat (h_tensor_count (header_at img)) * 64 \<le> length img
    \<and> store_shows img lmt st'
    \<and> skeleton m = skeleton (open_dims (header_at img) (zero_model\<lparr>m_hdr := header_at img\<rparr>))"
proof -
  define hdr where "hdr = header_at img"
  have img: "256 \<le> length img"
    using header_view [OF assms(2)] assms(1,3) by (auto simp: tq_model_open_def Let_def split: if_splits)
  obtain s1 p where v: "tq_store_view st 0 TQ_HEADER_BYTES = (s1, Some p)" "store_shows img lmt s1" "header_at p = hdr"
    using header_view [OF assms(2)] assms(3) img by (auto simp: hdr_def)
  define m0 where "m0 = open_dims hdr (zero_model\<lparr>m_hdr := hdr\<rparr>)"
  define m1 where "m1 = m0\<lparr>m_layers := replicate (nat (m_n_layers m0)) no_offsets\<rparr>"
  note o = assms(1) [unfolded tq_model_open_def v(1) Let_def prod.case option.case v(3) m0_def [symmetric] m1_def [symmetric]]
  have mg: "open_magic hdr = TQ_OK" "open_header hdr (st_bytes s1) = TQ_OK" using o by (auto split: if_splits)
  obtain u a where c: "tq_carve arena arena_bytes 0 (72 * word_of_int (m_n_layers m0)) = (u, Some a)"
    using o mg by (auto split: prod.splits option.splits if_splits)
  obtain ws m2 where d: "open_directory s1 hdr 0 (open_wants m1) m1 = (TQ_OK, st', ws, m2)" "open_finish ws m2 = (TQ_OK, m)"
    using o mg c by (auto split: prod.splits if_splits)
  note h = open_header_ok [OF mg(2)]
  have m0: "dims_ok m0" "m_hdr m0 = hdr" "m_qtype m0 = h_qtype hdr" "m_n_layers m0 = h_n_layers hdr"
    using h(4) by (simp_all add: m0_def open_dims_def)
  then have m1: "dims_ok m1" "m_hdr m1 = hdr" "quantized (m_qtype m1)" "0 < m_n_layers m1"
    using h(1) by (simp_all add: m1_def dims_ok_def)
  have "h_n_layers hdr < 2 ^ 31" using sint_less [of "le32 img 48"] by (simp add: hdr_def header_at_def)
  then have sm: "m_n_layers m1 < 2 ^ 31" using m0(4) by (simp add: m1_def)
  note dd = open_directory_ok [OF v(2) assms(3) d(1)]
  have start: "dir_inv hdr m1 {} (open_wants m1) m1" by (rule dir_inv_start) (simp add: m1_def)
  have "dir_inv hdr m1 (set (directory img hdr)) ws m2"
    using open_entries_inv [OF start, of "directory img hdr"] dd m1(4) sm by (simp add: directory_def)
  from open_finish_ok [OF this d(2) m1(2,1,3)] have mf: "model_from hdr (directory img hdr) m" .
  have "skeleton m2 = skeleton m1" using \<open>dir_inv hdr m1 (set (directory img hdr)) ws m2\<close> unfolding dir_inv_def by blast
  moreover have "skeleton m = skeleton m2" using d(2) by (auto simp: open_finish_def Let_def split: if_splits)
  moreover have "skeleton m1 = skeleton m0" by (simp add: m1_def)
  ultimately have sk: "skeleton m = skeleton m0" by simp
  have tc: "0 < unat (h_tensor_count hdr)"
  proof (rule ccontr)
    assume "\<not> 0 < unat (h_tensor_count hdr)"
    then have "directory img hdr = []" by (simp add: directory_def dir_entries_def)
    then show False using mf by (simp add: model_from_def)
  qed
  have "unat (st_bytes s1) = length img" using v(2) by (auto simp: store_shows_def store_mapped_def store_streams_def)
  then have "unat (h_file_bytes hdr) \<le> length img" using h(2) by (simp add: word_le_nat_alt)
  moreover have "h_magic hdr = TQ_MAGIC" "h_version hdr = TQ_VERSION"
    using mg(1) by (auto simp: open_magic_def split: if_splits)
  ultimately show ?thesis unfolding hdr_def [symmetric] using img mf dd tc sk [unfolded m0_def] by blast
qed



text \<open>
  C15: every complete file opens. When the header passes its checks, the directory lies in the
  file, the arena takes the layer table and the directory's entries are acceptable and name
  every required tensor and every tensor of every layer, \<^verbatim>\<open>tq_model_open\<close> answers \<open>TQ_OK\<close>,
  from a mapped store and from a streaming one.
\<close>

theorem open_complete:
  assumes "store_shows img lmt st" and "2048 \<le> lmt" and "complete_image img arena arena_bytes"
  shows "\<exists>m st'. tq_model_open st arena arena_bytes = (TQ_OK, m, st') \<and> store_shows img lmt st'"
proof -
  have "256 \<le> length img"
    "unat (h_tensor_table_offset (header_at img)) + unat (h_tensor_count (header_at img)) * 64 \<le> length img"
    using assms(3) unfolding complete_image_def Let_def by blast+
  from open_image_implemented [OF assms(1,2) this, of arena arena_bytes] complete_image_opens [OF assms(3)]
  show ?thesis by auto
qed

theorem open_complete_witness:
  "\<exists>m st'. tq_model_open sample_streamed (0x20000000 :: 32 word) 100 = (TQ_OK, m, st') \<and> store_shows sample_file 2048 st'"
  by (rule open_complete [OF sample_stores(2) order_refl sample_complete])

end
