(* ===== verification/Tq_Math.thy ===== *)
theory Tq_Math imports Tq_Ieee begin

text \<open>
  The reproducible transcendentals of \<^verbatim>\<open>core/src/tq_math.c\<close>: every operation is one IEEE-754
  operation on doubles in the order of the source, so the results are fixed to the bit.
  \<open>None\<close> is a conversion of a double to \<^verbatim>\<open>int\<close> that C leaves undefined.
\<close>

unbundle bit_operations_syntax

section \<open>Constants\<close>

definition f64_ratio :: "int \<Rightarrow> int \<Rightarrow> f64" where
  "f64_ratio a b = f64_div (f64_of_int a) (f64_of_int b)"

definition TQ_LN2 :: f64 where "TQ_LN2 = f64_dec 69314718055994530942 20"
definition TQ_LOG2E :: f64 where "TQ_LOG2E = f64_dec 144269504088896340736 20"
definition TQ_PIO2_HI :: f64 where "TQ_PIO2_HI = f64_dec 157079632673412561417 20"
definition TQ_PIO2_LO :: f64 where "TQ_PIO2_LO = f64_dec 607710050650619224932 31"

section \<open>Powers of two\<close>

definition tq_ldexp2 :: "f64 \<Rightarrow> int \<Rightarrow> f64" where
  "tq_ldexp2 m n =
     (if n > 1023 then f64_mul m (push_bit 52 (word_of_int (1023 + 1023)))
      else if n < -1022 then 0
      else f64_mul m (push_bit 52 (word_of_int (n + 1023))))"

text \<open>One Horner step \<^verbatim>\<open>p = p * y + c\<close>: two roundings.\<close>

definition horner_step :: "f64 \<Rightarrow> f64 \<Rightarrow> f64 \<Rightarrow> f64" where
  "horner_step y p c = f64_add (f64_mul p y) c"

definition exp2_series :: "f64 \<Rightarrow> f64" where
  "exp2_series y =
     foldl (horner_step y) (f64_ratio 1 3628800)
       [f64_ratio 1 362880, f64_ratio 1 40320, f64_ratio 1 5040, f64_ratio 1 720, f64_ratio 1 120, f64_ratio 1 24,
        f64_ratio 1 6, f64_ratio 1 2, f64_of_int 1, f64_of_int 1]"

text \<open>To the nearest integer, halves away from zero, as \<^verbatim>\<open>tq_exp2\<close> and \<^verbatim>\<open>tq_sincos\<close> spell it.\<close>

definition round_away :: "f64 \<Rightarrow> f64 \<Rightarrow> int option" where
  "round_away x v = f64_to_i32 (if f64_le 0 x then f64_add v (f64_ratio 1 2) else f64_sub v (f64_ratio 1 2))"

definition tq_exp2 :: "f64 \<Rightarrow> f64 option" where
  "tq_exp2 x =
     (let x1 = (if f64_lt (f64_of_int 1024) x then f64_of_int 1024 else x)
      in if \<not> f64_lt (f64_of_int 1024) x \<and> f64_lt x (f64_of_int (- 1075)) then Some 0
         else case round_away x1 x1 of
                None \<Rightarrow> None
              | Some n \<Rightarrow>
                  let f = f64_sub x1 (f64_of_int n);
                      y = f64_mul f TQ_LN2
                  in Some (tq_ldexp2 (exp2_series y) n))"

section \<open>Logarithms\<close>

definition log2_series :: "f64 \<Rightarrow> f64" where
  "log2_series t2 =
     foldl (horner_step t2) (f64_ratio 1 13)
       [f64_ratio 1 11, f64_ratio 1 9, f64_ratio 1 7, f64_ratio 1 5, f64_ratio 1 3, f64_of_int 1]"

definition tq_log2 :: "f64 \<Rightarrow> f64" where
  "tq_log2 x =
     (if \<not> f64_lt 0 x then 0
      else let e = int (unat (drop_bit 52 x AND 0x7FF)) - 1023
           in if e = - 1023 then 0
              else let m = (x AND 0x000FFFFFFFFFFFFF) OR 0x3FF0000000000000;
                       big = f64_lt (f64_dec 141421356237309504880 20) m;
                       m = (if big then f64_mul m (f64_ratio 1 2) else m);
                       e = (if big then e + 1 else e);
                       t = f64_div (f64_sub m (f64_of_int 1)) (f64_add m (f64_of_int 1));
                       p = log2_series (f64_mul t t)
                   in f64_add (f64_of_int e) (f64_mul (f64_mul (f64_mul (f64_of_int 2) t) p) TQ_LOG2E))"

section \<open>Sine and cosine\<close>

definition two_over_pi :: f64 where
  "two_over_pi = f64_div (f64_of_int 2) (f64_dec 314159265358979323846 20)"

definition sin_series :: "f64 \<Rightarrow> f64 \<Rightarrow> f64" where
  "sin_series r r2 =
     (let sp = f64_neg (f64_ratio 1 362880);
          sp = f64_add (f64_mul sp r2) (f64_ratio 1 5040);
          sp = f64_sub (f64_mul sp r2) (f64_ratio 1 120);
          sp = f64_add (f64_mul sp r2) (f64_ratio 1 6)
      in f64_sub r (f64_mul (f64_mul r r2) sp))"

definition cos_series :: "f64 \<Rightarrow> f64" where
  "cos_series r2 =
     (let cp = f64_neg (f64_ratio 1 40320);
          cp = f64_add (f64_mul cp r2) (f64_ratio 1 720);
          cp = f64_sub (f64_mul cp r2) (f64_ratio 1 24);
          cp = f64_add (f64_mul cp r2) (f64_ratio 1 2)
      in f64_sub (f64_of_int 1) (f64_mul r2 cp))"

text \<open>The pair of sine and cosine.\<close>

definition tq_sincos :: "f64 \<Rightarrow> (f64 \<times> f64) option" where
  "tq_sincos x =
     (let x = (if f64_lt (f64_of_int 100000000) x then f64_of_int 100000000
               else if f64_lt x (f64_of_int (- 100000000)) then f64_of_int (- 100000000) else x)
      in case round_away x (f64_mul x two_over_pi) of
           None \<Rightarrow> None
         | Some k \<Rightarrow>
             let r = f64_sub (f64_sub x (f64_mul (f64_of_int k) TQ_PIO2_HI)) (f64_mul (f64_of_int k) TQ_PIO2_LO);
                 r2 = f64_mul r r;
                 sp = sin_series r r2;
                 cp = cos_series r2;
                 q = k AND 3;
                 q = (if q < 0 then q + 4 else q)
             in Some (if q = 0 then (sp, cp)
                      else if q = 1 then (cp, f64_neg sp)
                      else if q = 2 then (f64_neg sp, f64_neg cp)
                      else (f64_neg cp, sp)))"

section \<open>The public functions\<close>

definition tq_expf :: "f32 \<Rightarrow> f32 option" where
  "tq_expf x = map_option f32_of_f64 (tq_exp2 (f64_mul (f64_of_f32 x) TQ_LOG2E))"

definition tq_powf :: "f32 \<Rightarrow> f32 \<Rightarrow> f32 option" where
  "tq_powf a b =
     (if f32_le a 0 then Some 0
      else map_option f32_of_f64 (tq_exp2 (f64_mul (f64_of_f32 b) (tq_log2 (f64_of_f32 a)))))"

definition tq_sinf :: "f32 \<Rightarrow> f32 option" where
  "tq_sinf x = map_option (\<lambda>(s, c). f32_of_f64 s) (tq_sincos (f64_of_f32 x))"

definition tq_cosf :: "f32 \<Rightarrow> f32 option" where
  "tq_cosf x = map_option (\<lambda>(s, c). f32_of_f64 c) (tq_sincos (f64_of_f32 x))"

end
