(* ===== verification/Tq_Sampler.thy ===== *)
theory Tq_Sampler imports Tq_Math Tq_Rounding "HOL-Library.Multiset" begin

text \<open>
  Drawing a token from the logits, \<^verbatim>\<open>core/src/tq_sample.c\<close>: the xorshift64* generator, the
  greedy choice, the soft maximum in place, the plain draw and the nucleus with its analytic
  prefilter and its heap sort of two parallel arrays. A pointer to scratch is an optional
  array; \<open>None\<close> as a result is the undefined conversion of \<^verbatim>\<open>tq_expf\<close> on NaN. The proofs show
  that the sort sorts, that no draw leaves the vocabulary and what the nucleus may return.
\<close>

unbundle bit_operations_syntax

section \<open>The generator\<close>

text \<open>The new state and the 32 bits drawn.\<close>

definition tq_rand_u32 :: "u64 \<Rightarrow> u64 \<times> u32" where
  "tq_rand_u32 s =
     (let x = s XOR drop_bit 12 s;
          x = x XOR push_bit 25 x;
          x = x XOR drop_bit 27 x
      in (x, ucast (drop_bit 32 (x * 0x2545F4914F6CDD1D))))"

definition tq_rand_f32 :: "u64 \<Rightarrow> u64 \<times> f32" where
  "tq_rand_f32 s =
     (let (s', r) = tq_rand_u32 s
      in (s', f32_mul (f32_of_int (int (unat (drop_bit 8 r)))) (f32_div (f32_of_int 1) (f32_of_int 16777216))))"

section \<open>The sampler\<close>

record tq_sampler =
  sm_rng :: u64
  sm_temperature :: f32
  sm_topp :: f32
  sm_vocab_size :: nat
  sm_idx :: "int list option"
  sm_prob :: "f32 list option"

definition tq_sampler_init ::
  "nat \<Rightarrow> f32 \<Rightarrow> f32 \<Rightarrow> u64 \<Rightarrow> int list option \<Rightarrow> f32 list option \<Rightarrow> tq_sampler" where
  "tq_sampler_init vocab_size temperature topp seed idx_scratch prob_scratch =
     \<lparr>sm_rng = (if seed \<noteq> 0 then seed else 0x853c49e6748fea9b), sm_temperature = temperature, sm_topp = topp,
      sm_vocab_size = vocab_size, sm_idx = idx_scratch, sm_prob = prob_scratch\<rparr>"

definition tq_argmax :: "f32 list \<Rightarrow> nat \<Rightarrow> nat" where
  "tq_argmax v n = foldl (\<lambda>best i. if f32_lt (v ! best) (v ! i) then i else best) 0 [1..<n]"

section \<open>Sorting\<close>

definition swap_at :: "nat \<Rightarrow> nat \<Rightarrow> 'a list \<Rightarrow> 'a list" where
  "swap_at i j xs = xs[i := xs ! j, j := xs ! i]"

text \<open>The child to swap with, or the rt itself.\<close>

definition sift_big :: "f32 list \<Rightarrow> nat \<Rightarrow> nat \<Rightarrow> nat" where
  "sift_big prob rt n =
     (let child = 2 * rt + 1;
          big = (if child < n \<and> f32_lt (prob ! rt) (prob ! child) then child else rt)
      in if child + 1 < n \<and> f32_lt (prob ! big) (prob ! (child + 1)) then child + 1 else big)"

function tq_sift :: "f32 list \<Rightarrow> int list \<Rightarrow> nat \<Rightarrow> nat \<Rightarrow> f32 list \<times> int list" where
  "tq_sift prob idx rt n =
     (let big = sift_big prob rt n
      in if big = rt then (prob, idx)
         else tq_sift (swap_at rt big prob) (swap_at rt big idx) big n)"
  by pat_completeness auto
termination
  by (relation "measure (\<lambda>(prob, idx, rt, n). n - rt)") (auto simp: sift_big_def Let_def split: if_splits)

declare tq_sift.simps [simp del]

definition tq_heapsort_desc :: "f32 list \<Rightarrow> int list \<Rightarrow> nat \<Rightarrow> f32 list \<times> int list" where
  "tq_heapsort_desc prob idx n =
     (let (prob, idx) = foldl (\<lambda>(p, x) i. tq_sift p x i n) (prob, idx) (rev [0..<n div 2]);
          (prob, idx) = foldl (\<lambda>(p, x) i. tq_sift (swap_at 0 i p) (swap_at 0 i x) 0 i) (prob, idx) (rev [1..<n])
      in foldl (\<lambda>(p, x) i. (swap_at i (n - 1 - i) p, swap_at i (n - 1 - i) x)) (prob, idx) [0..<n div 2])"

section \<open>Drawing a token\<close>

text \<open>\<^verbatim>\<open>softmax(logits / T)\<close> over the first \<open>n\<close> entries; \<open>None\<close> where \<^verbatim>\<open>tq_expf\<close> is undefined.\<close>

definition softmax_scale :: "f32 \<Rightarrow> nat \<Rightarrow> f32 list \<Rightarrow> f32 list" where
  "softmax_scale c n logits = foldl (\<lambda>v i. v[i := f32_mul (v ! i) c]) logits [0..<n]"

definition softmax_exp :: "f32 \<Rightarrow> nat \<Rightarrow> f32 list \<Rightarrow> (f32 list \<times> f32) option" where
  "softmax_exp mx n logits =
     run_steps (\<lambda>(v, s) i. case tq_expf (f32_sub (v ! i) mx) of
         None \<Rightarrow> None
       | Some e \<Rightarrow> Some (v[i := e], f32_add s e)) [0..<n] (logits, 0)"

definition sample_softmax :: "f32 \<Rightarrow> nat \<Rightarrow> f32 list \<Rightarrow> f32 list option" where
  "sample_softmax temperature n logits =
     (let logits = softmax_scale (f32_div (f32_of_int 1) temperature) n logits;
          mx = logits ! tq_argmax logits n
      in case softmax_exp mx n logits of
           None \<Rightarrow> None
         | Some (logits, s) \<Rightarrow> Some (softmax_scale (f32_div (f32_of_int 1) s) n logits))"

text \<open>The first index at which the running sum passes \<open>r\<close>, if one does.\<close>

fun draw_from :: "f32 \<Rightarrow> f32 \<Rightarrow> f32 list \<Rightarrow> nat \<Rightarrow> nat \<Rightarrow> nat option" where
  "draw_from r cdf p i 0 = None"
| "draw_from r cdf p i (Suc k) =
     (let cdf = f32_add cdf (p ! i) in if f32_lt r cdf then Some i else draw_from r cdf p (i + 1) k)"

text \<open>The prefilter of the nucleus: the entries that reach the cutoff, moved to the scratch arrays.\<close>

definition nucleus_filter :: "f32 \<Rightarrow> f32 list \<Rightarrow> nat \<Rightarrow> f32 list \<Rightarrow> int list \<Rightarrow> f32 list \<times> int list \<times> nat" where
  "nucleus_filter cutoff logits n prob idx =
     foldl (\<lambda>(prob, idx, k) i.
         if f32_le cutoff (logits ! i) then (prob[k := logits ! i], idx[k := int i], k + 1) else (prob, idx, k))
       (prob, idx, 0) [0..<n]"

text \<open>The sum and the index where the sorted probabilities pass \<^verbatim>\<open>topp\<close>.\<close>

fun nucleus_end :: "f32 \<Rightarrow> f32 \<Rightarrow> f32 list \<Rightarrow> nat \<Rightarrow> nat \<Rightarrow> f32 \<times> nat option" where
  "nucleus_end topp cum p i 0 = (cum, None)"
| "nucleus_end topp cum p i (Suc k) =
     (let cum = f32_add cum (p ! i) in if f32_lt topp cum then (cum, Some i) else nucleus_end topp cum p (i + 1) k)"

definition sample_plain :: "tq_sampler \<Rightarrow> nat \<Rightarrow> f32 list \<Rightarrow> int \<times> tq_sampler \<times> f32 list" where
  "sample_plain s n logits =
     (let (rng, r) = tq_rand_f32 (sm_rng s)
      in (case draw_from r 0 logits 0 n of Some i \<Rightarrow> int i | None \<Rightarrow> int n - 1, s\<lparr>sm_rng := rng\<rparr>, logits))"

definition nucleus_cutoff :: "f32 \<Rightarrow> nat \<Rightarrow> f32" where
  "nucleus_cutoff topp n = f32_div (f32_sub (f32_of_int 1) topp) (f32_of_int (int n - 1))"

definition sample_nucleus :: "tq_sampler \<Rightarrow> nat \<Rightarrow> f32 list \<Rightarrow> f32 list \<Rightarrow> int list \<Rightarrow> int \<times> tq_sampler \<times> f32 list" where
  "sample_nucleus s n logits prob idx =
     (case nucleus_filter (nucleus_cutoff (sm_topp s) n) logits n prob idx of
        (prob, idx, k) \<Rightarrow>
          if k = 0 then (int (tq_argmax logits n), s, logits)
          else case tq_heapsort_desc prob idx k of
            (prob, idx) \<Rightarrow>
              (case nucleus_end (sm_topp s) 0 prob 0 k of
                 (cum, stop) \<Rightarrow>
                   let lst = (case stop of Some i \<Rightarrow> i | None \<Rightarrow> k - 1);
                       (rng, u) = tq_rand_f32 (sm_rng s);
                       r = f32_mul u cum
                   in (case draw_from r 0 prob 0 (lst + 1) of Some i \<Rightarrow> idx ! i | None \<Rightarrow> idx ! lst,
                       s\<lparr>sm_rng := rng, sm_idx := Some idx, sm_prob := Some prob\<rparr>, logits)))"

text \<open>The token, the sampler and the consumed logits; \<open>None\<close> is an undefined conversion.\<close>

definition tq_sample :: "tq_sampler \<Rightarrow> f32 list \<Rightarrow> (int \<times> tq_sampler \<times> f32 list) option" where
  "tq_sample s logits =
     (let n = sm_vocab_size s
      in if f32_le (sm_temperature s) 0 then Some (int (tq_argmax logits n), s, logits)
         else case sample_softmax (sm_temperature s) n logits of
           None \<Rightarrow> None
         | Some logits \<Rightarrow>
             (case (sm_idx s, sm_prob s) of
                (Some idx, Some prob) \<Rightarrow>
                  if f32_le (sm_topp s) 0 \<or> f32_le (f32_of_int 1) (sm_topp s) then Some (sample_plain s n logits)
                  else Some (sample_nucleus s n logits prob idx)
              | _ \<Rightarrow> Some (sample_plain s n logits)))"

section \<open>The heap\<close>

named_theorems swaps

lemma swap_at_length [swaps, simp]: "length (swap_at i j xs) = length xs"
  by (simp add: swap_at_def)

lemma swap_at_nth [swaps]:
  "i < length xs \<Longrightarrow> j < length xs \<Longrightarrow> k < length xs \<Longrightarrow>
    swap_at i j xs ! k = (if k = i then xs ! j else if k = j then xs ! i else xs ! k)"
  by (auto simp: swap_at_def nth_list_update)

lemma swap_at_zip: "i < length xs \<Longrightarrow> j < length xs \<Longrightarrow> length xs = length ys \<Longrightarrow>
    zip (swap_at i j xs) (swap_at i j ys) = swap_at i j (zip xs ys)"
  by (simp add: swap_at_def update_zip)

lemma swap_at_map: "i < length xs \<Longrightarrow> j < length xs \<Longrightarrow> map f (swap_at i j xs) = swap_at i j (map f xs)"
  by (simp add: swap_at_def map_update)

text \<open>The first \<open>n\<close> cells are a permutation, the others are as they were.\<close>

definition permutes_first :: "nat \<Rightarrow> 'a list \<Rightarrow> 'a list \<Rightarrow> bool" where
  "permutes_first n xs ys \<longleftrightarrow> length xs = length ys \<and> mset (take n xs) = mset (take n ys) \<and> drop n xs = drop n ys"

lemma permutes_first_refl [simp]: "permutes_first n xs xs"
  by (simp add: permutes_first_def)

lemma permutes_first_trans: "permutes_first n xs ys \<Longrightarrow> permutes_first n ys zs \<Longrightarrow> permutes_first n xs zs"
  by (simp add: permutes_first_def)

lemma permutes_first_swap:
  assumes "i < n" and "j < n" and "n \<le> length xs"
  shows "permutes_first n (swap_at i j xs) xs"
proof -
  have "take n (swap_at i j xs) = swap_at i j (take n xs)" using assms by (simp add: swap_at_def take_update_swap)
  moreover have "mset (swap_at i j (take n xs)) = mset (take n xs)"
    using assms mset_swap [of j "take n xs" i] by (simp add: swap_at_def)
  ultimately show ?thesis using assms by (simp add: permutes_first_def swap_at_def)
qed

lemma permutes_first_mono:
  assumes "permutes_first m xs ys" and "m \<le> n"
  shows "permutes_first n xs ys"
proof -
  have "take n xs = take m xs @ take (n - m) (drop m xs)" "take n ys = take m ys @ take (n - m) (drop m ys)"
    using take_add [of m "n - m"] assms(2) by simp_all
  moreover have "drop n xs = drop (n - m) (drop m xs)" "drop n ys = drop (n - m) (drop m ys)" using assms(2) by simp_all
  moreover have p: "length xs = length ys" "mset (take m xs) = mset (take m ys)" "drop m xs = drop m ys"
    using assms(1) by (auto simp: permutes_first_def)
  ultimately show ?thesis unfolding permutes_first_def by (simp only: p mset_append)
qed

lemma sift_big_either:
  "sift_big prob rt n = rt \<or> (sift_big prob rt n = 2 * rt + 1 \<or> sift_big prob rt n = 2 * rt + 2) \<and> sift_big prob rt n < n"
  unfolding sift_big_def Let_def by (simp split: if_split)

lemma sift_big_cases:
  obtains "sift_big prob rt n = rt"
  | "sift_big prob rt n = 2 * rt + 1 \<or> sift_big prob rt n = 2 * rt + 2" and "sift_big prob rt n < n"
  using sift_big_either by blast

lemma sift_length [simp]:
  "length (fst (tq_sift prob idx rt n)) = length prob" "length (snd (tq_sift prob idx rt n)) = length idx"
  by (induction prob idx rt n rule: tq_sift.induct; simp add: tq_sift.simps Let_def)+

lemma sift_permutes:
  assumes "rt < n" and "n \<le> length prob" and "length idx = length prob"
  shows "permutes_first n (zip (fst (tq_sift prob idx rt n)) (snd (tq_sift prob idx rt n))) (zip prob idx)"
  using assms
proof (induction prob idx rt n rule: tq_sift.induct)
  case (1 prob idx rt n)
  let ?b = "sift_big prob rt n"
  show ?case
  proof (cases "?b = rt")
    case True
    then show ?thesis by (simp add: tq_sift.simps [of prob])
  next
    case False
    then have b: "?b < n" by (cases rule: sift_big_cases [of prob rt n]) auto
    have "permutes_first n (zip (swap_at rt ?b prob) (swap_at rt ?b idx)) (zip prob idx)"
      using "1.prems" b by (simp add: swap_at_zip permutes_first_swap)
    with "1.IH" [OF refl False b] "1.prems" show ?thesis
      by (subst (1 2) tq_sift.simps) (simp add: Let_def False, rule permutes_first_trans, simp_all)
  qed
qed

text \<open>Cell \<open>i\<close> of the keys is no smaller than its children below \<open>n\<close>.\<close>

definition child_of :: "nat \<Rightarrow> nat \<Rightarrow> bool" where
  "child_of c i \<longleftrightarrow> c = 2 * i + 1 \<or> c = 2 * i + 2"

definition heap_at :: "int list \<Rightarrow> nat \<Rightarrow> nat \<Rightarrow> bool" where
  "heap_at K n i \<longleftrightarrow> (\<forall>c < n. child_of c i \<longrightarrow> K ! c \<le> K ! i)"

definition heap_from :: "nat \<Rightarrow> int list \<Rightarrow> nat \<Rightarrow> bool" where
  "heap_from lo K n \<longleftrightarrow> (\<forall>i \<ge> lo. heap_at K n i)"

text \<open>A heap from \<open>lo\<close> on except at \<open>r\<close>, whose children are no larger than its parent.\<close>

definition heap_except :: "nat \<Rightarrow> int list \<Rightarrow> nat \<Rightarrow> nat \<Rightarrow> bool" where
  "heap_except lo K n r \<longleftrightarrow> (\<forall>i \<ge> lo. i \<noteq> r \<longrightarrow> heap_at K n i)
     \<and> (\<forall>p \<ge> lo. child_of r p \<longrightarrow> (\<forall>c < n. child_of c r \<longrightarrow> K ! c \<le> K ! p))"

lemma child_of_unique: "child_of c p \<Longrightarrow> child_of c q \<Longrightarrow> p = q"
  unfolding child_of_def by presburger

lemma child_of_less: "child_of c p \<Longrightarrow> p < c"
  by (auto simp: child_of_def)

definition numbers :: "nat \<Rightarrow> f32 list \<Rightarrow> bool" where
  "numbers n v \<longleftrightarrow> n \<le> length v \<and> (\<forall>i < n. \<not> f32_is_nan (v ! i))"

lemma f32_lt_numbers: "numbers n v \<Longrightarrow> i < n \<Longrightarrow> j < n \<Longrightarrow> f32_lt (v ! i) (v ! j) \<longleftrightarrow> map f32_key v ! i < map f32_key v ! j"
  by (simp add: numbers_def f32_lt_def)

lemma sift_big_key:
  assumes "numbers n prob" and "rt < n" and "K = map f32_key prob"
  shows "\<forall>c < n. child_of c rt \<longrightarrow> K ! c \<le> K ! sift_big prob rt n"
    and "sift_big prob rt n \<noteq> rt \<Longrightarrow> K ! rt < K ! sift_big prob rt n"
    and "K ! rt \<le> K ! sift_big prob rt n"
proof -
  note lt = f32_lt_numbers [OF assms(1), folded assms(3)]
  let ?a = "2 * rt + 1"
  define b where "b = (if ?a < n \<and> f32_lt (prob ! rt) (prob ! ?a) then ?a else rt)"
  have b: "b < n" "K ! rt \<le> K ! b" "?a < n \<longrightarrow> K ! ?a \<le> K ! b" "b \<noteq> rt \<longrightarrow> K ! rt < K ! b"
    using assms(2) lt [of rt ?a] by (auto simp: b_def)
  have s: "sift_big prob rt n = (if ?a + 1 < n \<and> f32_lt (prob ! b) (prob ! (?a + 1)) then ?a + 1 else b)"
    by (simp add: sift_big_def Let_def b_def)
  have r: "K ! b \<le> K ! sift_big prob rt n" "?a + 1 < n \<longrightarrow> K ! (?a + 1) \<le> K ! sift_big prob rt n"
    "sift_big prob rt n = b \<or> K ! b < K ! sift_big prob rt n"
    unfolding s using lt [of b "?a + 1"] b(1) by auto
  show "\<forall>c < n. child_of c rt \<longrightarrow> K ! c \<le> K ! sift_big prob rt n"
    using b(3) r(1,2) by (auto simp: child_of_def intro: order_trans)
  show "K ! rt \<le> K ! sift_big prob rt n" using b(2) r(1) by linarith
  show "K ! rt < K ! sift_big prob rt n" if "sift_big prob rt n \<noteq> rt"
    using that b(2,4) r(3) by (cases "sift_big prob rt n = b") auto
qed

lemma heap_except_swap:
  assumes h: "heap_except lo K n r" and b: "child_of b r" "b < n" "lo \<le> r" "n \<le> length K"
    and k: "K ! r < K ! b" "\<forall>c < n. child_of c r \<longrightarrow> K ! c \<le> K ! b"
  shows "heap_except lo (swap_at r b K) n b"
  unfolding heap_except_def
proof (intro conjI allI impI)
  let ?K = "swap_at r b K"
  have rb: "r < b" using b(1) by (rule child_of_less)
  have nth: "?K ! j = (if j = r then K ! b else if j = b then K ! r else K ! j)" if "j < n" for j
    using that b rb by (simp add: swap_at_nth)
  fix i assume i: "lo \<le> i" "i \<noteq> b"
  show "heap_at ?K n i" unfolding heap_at_def
  proof (intro allI impI)
    fix c assume c: "c < n" "child_of c i"
    then have "i < c" by (simp add: child_of_less)
    then have ni: "?K ! i = (if i = r then K ! b else K ! i)" using nth [of i] c i(2) by simp
    show "?K ! c \<le> ?K ! i"
    proof (cases "i = r")
      case True
      then show ?thesis using c k b ni nth [of c] \<open>i < c\<close> by auto
    next
      case False
      then have "c \<noteq> b" using c b(1) child_of_unique by blast
      moreover have "K ! b \<le> K ! i" if "c = r"
        using h i b c that by (auto simp: heap_except_def)
      moreover have "K ! c \<le> K ! i" using h i c False by (auto simp: heap_except_def heap_at_def)
      ultimately show ?thesis using False c nth ni by auto
    qed
  qed
next
  let ?K = "swap_at r b K"
  have rb: "r < b" using b(1) by (rule child_of_less)
  have nth: "?K ! j = (if j = r then K ! b else if j = b then K ! r else K ! j)" if "j < n" for j
    using that b rb by (simp add: swap_at_nth)
  fix p c assume p: "lo \<le> p" "child_of b p" and c: "c < n" "child_of c b"
  have "p = r" using p(2) b(1) child_of_unique by blast
  moreover have "b < c" using c(2) by (rule child_of_less)
  moreover have "K ! c \<le> K ! b" using h b rb c by (auto simp: heap_except_def heap_at_def)
  ultimately show "?K ! c \<le> ?K ! p" using nth [of c] nth [of r] c b rb by simp
qed

lemma numbers_swap: "numbers n v \<Longrightarrow> i < n \<Longrightarrow> j < n \<Longrightarrow> numbers n (swap_at i j v)"
  by (auto simp: numbers_def swap_at_nth)

lemma sift_heap:
  assumes "heap_except lo (map f32_key prob) n rt" and "numbers n prob" and "lo \<le> rt" and "rt < n"
  shows "heap_from lo (map f32_key (fst (tq_sift prob idx rt n))) n"
  using assms
proof (induction prob idx rt n rule: tq_sift.induct)
  case (1 prob idx rt n)
  let ?b = "sift_big prob rt n"
  note key = sift_big_key [OF "1.prems"(2,4) refl]
  have len: "n \<le> length prob" using "1.prems"(2) by (simp add: numbers_def)
  show ?case
  proof (cases "?b = rt")
    case True
    then have "heap_at (map f32_key prob) n rt" using key(1) by (simp add: heap_at_def)
    then show ?thesis
      using "1.prems"(1) True by (auto simp: tq_sift.simps [of prob] Let_def heap_from_def heap_except_def)
  next
    case False
    then have b: "?b < n" "child_of ?b rt" using sift_big_either [of prob rt n] by (auto simp: child_of_def)
    have "heap_except lo (map f32_key (swap_at rt ?b prob)) n ?b"
      using heap_except_swap [OF "1.prems"(1) b(2,1) "1.prems"(3) _ key(2) [OF False] key(1)] len b "1.prems"(4)
      by (simp add: swap_at_map)
    from "1.IH" [OF refl False this numbers_swap [OF "1.prems"(2,4) b(1)]]
    show ?thesis using b(1) child_of_less [OF b(2)] "1.prems"(3)
      by (subst tq_sift.simps) (simp add: Let_def False)
  qed
qed

text \<open>The top of a heap is its largest key.\<close>

lemma heap_top:
  assumes "heap_from 0 K n" and "i < n"
  shows "K ! i \<le> K ! 0"
  using assms(2)
proof (induction i rule: less_induct)
  case (less i)
  show ?case
  proof (cases "i = 0")
    case False
    define p where "p = (i - 1) div 2"
    have p: "child_of i p" "p < i" using False unfolding p_def child_of_def by presburger+
    have "K ! i \<le> K ! p" using assms(1) less.prems p by (auto simp: heap_from_def heap_at_def)
    also have "\<dots> \<le> K ! 0" using less p by simp
    finally show ?thesis .
  qed simp
qed

lemma permutes_first_fst:
  assumes "permutes_first n (zip a b) (zip c d)" and "length b = length a" and "length d = length c"
  shows "permutes_first n a c"
proof -
  have "map fst (take n (zip a b)) = take n a" "map fst (take n (zip c d)) = take n c"
    "map fst (drop n (zip a b)) = drop n a" "map fst (drop n (zip c d)) = drop n c"
    using assms(2,3) by (simp_all add: take_map [symmetric] drop_map [symmetric])
  then show ?thesis using assms unfolding permutes_first_def by (metis length_zip min.idem mset_map)
qed

lemma permutes_first_map: "permutes_first n xs ys \<Longrightarrow> permutes_first n (map f xs) (map f ys)"
  unfolding permutes_first_def take_map drop_map by (simp add: mset_map)

lemma permutes_first_set: "permutes_first n xs ys \<Longrightarrow> set (take n xs) = set (take n ys)"
  by (metis permutes_first_def set_mset_mset)

lemma permutes_first_above: "permutes_first n xs ys \<Longrightarrow> n \<le> k \<Longrightarrow> k < length ys \<Longrightarrow> xs ! k = ys ! k"
  using nth_drop [of n xs "k - n"] nth_drop [of n ys "k - n"] by (simp add: permutes_first_def)

lemma permutes_first_below:
  assumes "permutes_first n xs ys" and "k < n" and "n \<le> length ys"
  obtains j where "j < n" and "xs ! k = ys ! j"
proof -
  have "length xs = length ys" using assms(1) by (simp add: permutes_first_def)
  then have "xs ! k \<in> set (take n xs)" using assms(2,3) by (force simp: in_set_conv_nth)
  then have "xs ! k \<in> set (take n ys)" using permutes_first_set [OF assms(1)] by simp
  then show ?thesis using that assms(3) by (auto simp: in_set_conv_nth)
qed

lemma numbers_set: "numbers n v \<longleftrightarrow> n \<le> length v \<and> (\<forall>x \<in> set (take n v). \<not> f32_is_nan x)"
proof
  assume "n \<le> length v \<and> (\<forall>x \<in> set (take n v). \<not> f32_is_nan x)"
  then have "\<not> f32_is_nan (take n v ! i) \<and> n \<le> length v" if "i < n" for i using that nth_mem [of i "take n v"] by auto
  then show "numbers n v" using \<open>n \<le> length v \<and> _\<close> by (simp add: numbers_def)
qed (auto simp: numbers_def in_set_conv_nth)

lemma numbers_permutes: "permutes_first n p v \<Longrightarrow> numbers n v \<Longrightarrow> numbers n p"
  unfolding numbers_set using permutes_first_set permutes_first_def by metis

text \<open>What every phase of the sort keeps: the pairs, as a multiset, and the cells behind.\<close>

definition sort_keeps :: "nat \<Rightarrow> f32 list \<Rightarrow> int list \<Rightarrow> f32 list \<times> int list \<Rightarrow> bool" where
  "sort_keeps n prob idx s \<longleftrightarrow> length (fst s) = length prob \<and> length (snd s) = length prob
     \<and> permutes_first n (zip (fst s) (snd s)) (zip prob idx)"

lemma sort_keeps_numbers:
  assumes "sort_keeps n prob idx s" and "numbers n prob" and "length idx = length prob"
  shows "numbers n (fst s)" and "permutes_first n (fst s) prob"
proof -
  have k: "permutes_first n (zip (fst s) (snd s)) (zip prob idx)" "length (snd s) = length (fst s)"
    using assms(1) by (auto simp: sort_keeps_def)
  show p: "permutes_first n (fst s) prob" by (rule permutes_first_fst [OF k assms(3)])
  show "numbers n (fst s)" by (rule numbers_permutes [OF p assms(2)])
qed

lemma sort_keeps_sift:
  assumes "sort_keeps n prob idx s" and "rt < m" and "m \<le> n" and "n \<le> length prob"
  shows "sort_keeps n prob idx (tq_sift (fst s) (snd s) rt m)"
proof -
  have "permutes_first n (zip (fst (tq_sift (fst s) (snd s) rt m)) (snd (tq_sift (fst s) (snd s) rt m))) (zip (fst s) (snd s))"
    using assms by (intro permutes_first_mono [OF sift_permutes]) (auto simp: sort_keeps_def)
  then show ?thesis using assms(1) permutes_first_trans by (auto simp: sort_keeps_def)
qed

lemma sort_keeps_swap:
  assumes "sort_keeps n prob idx s" and "i < n" and "j < n" and "n \<le> length prob"
  shows "sort_keeps n prob idx (swap_at i j (fst s), swap_at i j (snd s))"
proof -
  have "permutes_first n (zip (swap_at i j (fst s)) (swap_at i j (snd s))) (zip (fst s) (snd s))"
    using assms by (subst swap_at_zip) (auto simp: sort_keeps_def intro: permutes_first_swap)
  then show ?thesis using assms(1) permutes_first_trans by (auto simp: sort_keeps_def)
qed

section \<open>Building the heap\<close>

lemma build_heap:
  assumes "numbers n prob" and "length idx = length prob" and "i \<le> n"
    and "sort_keeps n prob idx s" and "heap_from i (map f32_key (fst s)) n"
  shows "sort_keeps n prob idx (foldl (\<lambda>(p, x) i. tq_sift p x i n) s (rev [0..<i]))
    \<and> heap_from 0 (map f32_key (fst (foldl (\<lambda>(p, x) i. tq_sift p x i n) s (rev [0..<i])))) n"
  using assms(3-5)
proof (induction i arbitrary: s)
  case (Suc i)
  have n: "n \<le> length prob" using assms(1) by (simp add: numbers_def)
  have h: "heap_except i (map f32_key (fst s)) n i"
    using Suc.prems(3) child_of_less [of i] by (fastforce simp: heap_except_def heap_from_def)
  have k: "sort_keeps n prob idx (tq_sift (fst s) (snd s) i n)"
    by (rule sort_keeps_sift [OF Suc.prems(2)]) (use Suc.prems(1) n in auto)
  have "heap_from i (map f32_key (fst (tq_sift (fst s) (snd s) i n))) n"
    using sift_heap [OF h sort_keeps_numbers(1) [OF Suc.prems(2) assms(1,2)]] Suc.prems(1) by simp
  from Suc.IH [OF _ k this] show ?case using Suc.prems(1) by (simp add: case_prod_beta)
qed simp

section \<open>Popping the largest\<close>

lemma swap_0_nth:
  "i < length xs \<Longrightarrow> k < length xs \<Longrightarrow> swap_at 0 i xs ! k = (if k = 0 then xs ! i else if k = i then xs ! 0 else xs ! k)"
  by (rule swap_at_nth) auto

lemma swap_0_map: "i < length xs \<Longrightarrow> map f (swap_at 0 i xs) = swap_at 0 i (map f xs)"
  by (rule swap_at_map) auto

text \<open>A heap below \<open>i\<close>, the larger keys sorted behind it.\<close>

definition popped :: "int list \<Rightarrow> nat \<Rightarrow> nat \<Rightarrow> bool" where
  "popped K n i \<longleftrightarrow> heap_from 0 K i \<and> (\<forall>a < i. \<forall>b < n. i \<le> b \<longrightarrow> K ! a \<le> K ! b)
     \<and> (\<forall>a b. i \<le> a \<longrightarrow> a \<le> b \<longrightarrow> b < n \<longrightarrow> K ! a \<le> K ! b)"

lemma pop_heap_except:
  assumes "heap_from 0 K (Suc i)" and "i < length K" and "0 < i"
  shows "heap_except 0 (swap_at 0 i K) i 0"
  unfolding heap_except_def
proof (intro conjI allI impI)
  fix j :: nat assume j: "j \<noteq> 0"
  show "heap_at (swap_at 0 i K) i j" unfolding heap_at_def
  proof (intro allI impI)
    fix c assume c: "c < i" "child_of c j"
    then have "j < c" by (simp add: child_of_less)
    moreover have "K ! c \<le> K ! j" using assms(1) c by (auto simp: heap_from_def heap_at_def)
    ultimately show "swap_at 0 i K ! c \<le> swap_at 0 i K ! j" using assms(2) c j by (simp add: swap_0_nth)
  qed
next
  fix p c assume "child_of 0 p"
  then show "swap_at 0 i K ! c \<le> swap_at 0 i K ! p" by (simp add: child_of_def)
qed

lemma popped_step:
  assumes "popped K n (Suc i)" and "Suc i \<le> n" and "n \<le> length K"
    and p: "permutes_first i K' (swap_at 0 i K)" and h: "heap_from 0 K' i"
  shows "popped K' n i"
proof -
  have len: "length K' = length K" using p by (simp add: permutes_first_def)
  have "K ! j \<le> K ! 0" if "j < Suc i" for j using heap_top [of K "Suc i"] assms(1) that by (simp add: popped_def)
  note top = this
  have above: "K' ! b = (if b = i then K ! 0 else K ! b)" if "i \<le> b" "b < n" for b
    using permutes_first_above [OF p that(1)] that assms(3) swap_0_nth [of i K b] by simp
  have below: "\<exists>j < Suc i. K' ! a = K ! j" if ai: "a < i" for a
  proof -
    obtain j where "j < i" "K' ! a = swap_at 0 i K ! j"
      using permutes_first_below [OF p ai] assms(2,3) by auto
    then show ?thesis using assms(2,3) by (intro exI [of _ "if j = 0 then i else j"]) (simp add: swap_0_nth)
  qed
  show ?thesis unfolding popped_def
  proof (intro conjI allI impI)
    fix a b assume ab: "a < i" "b < n" "i \<le> b"
    obtain j where j: "j < Suc i" "K' ! a = K ! j" using below [OF ab(1)] by blast
    then show "K' ! a \<le> K' ! b"
      using above [OF ab(3,2)] top assms(1) ab by (auto simp: popped_def)
  next
    fix a b assume ab: "i \<le> a" "a \<le> b" "b < n"
    show "K' ! a \<le> K' ! b"
      using above [of a] above [of b] ab assms(1) by (auto simp: popped_def)
  qed (rule h)
qed

abbreviation pop_step :: "f32 list \<times> int list \<Rightarrow> nat \<Rightarrow> f32 list \<times> int list" where
  "pop_step \<equiv> \<lambda>(p, x) i. tq_sift (swap_at 0 i p) (swap_at 0 i x) 0 i"

lemma pop_all:
  assumes "numbers n prob" and "length idx = length prob" and "i \<le> n"
    and "sort_keeps n prob idx s" and "popped (map f32_key (fst s)) n i" and "0 < i"
  shows "sort_keeps n prob idx (foldl pop_step s (rev [1..<i]))
    \<and> popped (map f32_key (fst (foldl pop_step s (rev [1..<i])))) n 1"
  using assms(3-6)
proof (induction i arbitrary: s)
  case (Suc i)
  show ?case
  proof (cases "i = 0")
    case True
    then show ?thesis using Suc.prems by simp
  next
    case False
    have n: "n \<le> length prob" using assms(1) by (simp add: numbers_def)
    let ?s = "(swap_at 0 i (fst s), swap_at 0 i (snd s))"
    have len: "length (fst s) = length prob" using Suc.prems(2) by (simp add: sort_keeps_def)
    have k1: "sort_keeps n prob idx ?s" using sort_keeps_swap [OF Suc.prems(2)] Suc.prems(1) n by simp
    have k2: "sort_keeps n prob idx (tq_sift (fst ?s) (snd ?s) 0 i)"
      using sort_keeps_sift [OF k1 _ _ n] Suc.prems(1) False by simp
    have sw: "map f32_key (fst ?s) = swap_at 0 i (map f32_key (fst s))"
      using Suc.prems(1) n len swap_0_map [of i "fst s" f32_key] by simp
    have nm: "numbers i (fst ?s)"
      using sort_keeps_numbers(1) [OF k1 assms(1,2)] Suc.prems(1) by (simp add: numbers_def)
    have hx: "heap_except 0 (map f32_key (fst ?s)) i 0"
      unfolding sw using Suc.prems(1,3) False n len by (intro pop_heap_except) (auto simp: popped_def)
    have h: "heap_from 0 (map f32_key (fst (tq_sift (fst ?s) (snd ?s) 0 i))) i"
      using sift_heap [OF hx nm] False by simp
    have l: "i \<le> length (fst ?s)" "length (snd ?s) = length (fst ?s)" "0 < i"
      using k1 False Suc.prems(1) n by (simp_all add: sort_keeps_def)
    have "permutes_first i (fst (tq_sift (fst ?s) (snd ?s) 0 i)) (fst ?s)"
      by (rule permutes_first_fst [OF sift_permutes [OF l(3,1,2)]]) (simp_all only: sift_length l)
    from permutes_first_map [OF this, of f32_key]
    have p: "permutes_first i (map f32_key (fst (tq_sift (fst ?s) (snd ?s) 0 i))) (swap_at 0 i (map f32_key (fst s)))"
      unfolding sw .
    have "popped (map f32_key (fst (tq_sift (fst ?s) (snd ?s) 0 i))) n i"
      by (rule popped_step [OF Suc.prems(3) Suc.prems(1) _ p h]) (use n len in simp)
    moreover have "foldl pop_step s (rev [1..<Suc i]) = foldl pop_step (tq_sift (fst ?s) (snd ?s) 0 i) (rev [1..<i])"
      using False by (cases s) simp
    ultimately show ?thesis using Suc.IH [OF _ k2] Suc.prems(1) False by simp
  qed
qed simp

section \<open>Turning it round\<close>

lemma reverse_steps:
  assumes "m \<le> n div 2" and "n \<le> length xs"
  shows "length (foldl (\<lambda>v i. swap_at i (n - 1 - i) v) xs [0..<m]) = length xs
    \<and> (\<forall>k < length xs. foldl (\<lambda>v i. swap_at i (n - 1 - i) v) xs [0..<m] ! k =
          (if k < m \<or> n - m \<le> k \<and> k < n then xs ! (n - 1 - k) else xs ! k))"
  using assms(1)
proof (induction m)
  case 0
  then show ?case by auto
next
  case (Suc m)
  let ?v = "foldl (\<lambda>v i. swap_at i (n - 1 - i) v) xs [0..<m]"
  have IH: "length ?v = length xs" "\<forall>k < length xs. ?v ! k = (if k < m \<or> n - m \<le> k \<and> k < n then xs ! (n - 1 - k) else xs ! k)"
    using Suc by auto
  have m: "m < length xs" "n - 1 - m < length xs" "m < n - 1 - m" using Suc.prems assms(2) by auto
  have "swap_at m (n - 1 - m) ?v ! k = (if k < Suc m \<or> n - Suc m \<le> k \<and> k < n then xs ! (n - 1 - k) else xs ! k)"
    if "k < length xs" for k
    using that m IH(1) IH(2) [rule_format, OF that] IH(2) [rule_format, OF m(1)] IH(2) [rule_format, OF m(2)]
    by (auto simp: swap_at_nth)
  then show ?case using IH(1) by simp
qed

lemma reverse_first:
  assumes "n \<le> length xs"
  shows "foldl (\<lambda>v i. swap_at i (n - 1 - i) v) xs [0..<n div 2] = rev (take n xs) @ drop n xs"
proof (rule nth_equalityI)
  note r = reverse_steps [OF order_refl assms]
  show "length (foldl (\<lambda>v i. swap_at i (n - 1 - i) v) xs [0..<n div 2]) = length (rev (take n xs) @ drop n xs)"
    using r assms by simp
  fix k assume k: "k < length (foldl (\<lambda>v i. swap_at i (n - 1 - i) v) xs [0..<n div 2])"
  then have k: "k < length xs" using r by simp
  show "foldl (\<lambda>v i. swap_at i (n - 1 - i) v) xs [0..<n div 2] ! k = (rev (take n xs) @ drop n xs) ! k"
  proof (cases "k < n")
    case True
    then have "\<not> (k < n div 2 \<or> n - n div 2 \<le> k) \<Longrightarrow> n - 1 - k = k"
      using div_mult_mod_eq [of n 2] mod_less_divisor [of 2 n] by linarith
    then have "foldl (\<lambda>v i. swap_at i (n - 1 - i) v) xs [0..<n div 2] ! k = xs ! (n - 1 - k)"
      using r k True by (cases "k < n div 2 \<or> n - n div 2 \<le> k") simp_all
    then show ?thesis using True assms k by (simp add: nth_append rev_nth)
  next
    case False
    then have "\<not> k < n div 2" using div_le_dividend [of n 2] by linarith
    then show ?thesis using r k assms False by (simp add: nth_append)
  qed
qed

lemma foldl_pair: "foldl (\<lambda>(p, x) i. (f i p, g i x)) (a, b) is = (foldl (\<lambda>p i. f i p) a is, foldl (\<lambda>x i. g i x) b is)"
  by (induction "is" arbitrary: a b) simp_all

lemma heapsort_sorts:
  assumes "numbers n prob" and "length idx = length prob"
  shows "case tq_heapsort_desc prob idx n of (p, x) \<Rightarrow>
      length p = length prob \<and> length x = length prob \<and> permutes_first n (zip p x) (zip prob idx)
      \<and> numbers n p \<and> (\<forall>i j. i \<le> j \<longrightarrow> j < n \<longrightarrow> f32_le (p ! j) (p ! i))"
proof (cases "n = 0")
  case True
  then show ?thesis using assms by (simp add: tq_heapsort_desc_def numbers_def)
next
  case False
  have n: "n \<le> length prob" using assms(1) by (simp add: numbers_def)
  have s0: "sort_keeps n prob idx (prob, idx)" using assms(2) by (simp add: sort_keeps_def)
  have h0: "heap_from (n div 2) (map f32_key (fst (prob, idx))) n"
    by (auto simp: heap_from_def heap_at_def child_of_def)
  define s1 where "s1 = foldl (\<lambda>(p, x) i. tq_sift p x i n) (prob, idx) (rev [0..<n div 2])"
  have s1: "sort_keeps n prob idx s1" "heap_from 0 (map f32_key (fst s1)) n"
    using build_heap [OF assms _ s0 h0] by (auto simp: s1_def)
  have p1: "popped (map f32_key (fst s1)) n n" using s1(2) by (simp add: popped_def)
  define s2 where "s2 = foldl pop_step s1 (rev [1..<n])"
  have s2: "sort_keeps n prob idx s2" "popped (map f32_key (fst s2)) n 1"
    using pop_all [OF assms order_refl s1(1) p1] False by (auto simp: s2_def)
  have len: "length (fst s2) = length prob" "length (snd s2) = length prob" using s2(1) by (auto simp: sort_keeps_def)
  define p where "p = rev (take n (fst s2)) @ drop n (fst s2)"
  define x where "x = rev (take n (snd s2)) @ drop n (snd s2)"
  have r: "tq_heapsort_desc prob idx n = (p, x)"
    proof -
    obtain p1 x1 where e1: "s1 = (p1, x1)" by (cases s1)
    obtain p2 x2 where e2: "s2 = (p2, x2)" by (cases s2)
    show ?thesis
      unfolding tq_heapsort_desc_def Let_def s1_def [symmetric] e1 prod.case
      using s2_def [unfolded e1 e2, symmetric]
    using n len e2 by (simp only: foldl_pair reverse_first p_def x_def prod.case fst_conv snd_conv)
  qed
  have z: "zip p x = rev (take n (zip (fst s2) (snd s2))) @ drop n (zip (fst s2) (snd s2))"
    using n len by (simp add: p_def x_def zip_append zip_rev take_zip drop_zip)
  have "permutes_first n (zip p x) (zip (fst s2) (snd s2))"
    unfolding z using n len by (simp add: permutes_first_def)
  then have perm: "permutes_first n (zip p x) (zip prob idx)"
    using s2(1) permutes_first_trans by (auto simp: sort_keeps_def)
  have lp: "length p = length prob" "length x = length prob" using n len by (simp_all add: p_def x_def)
  have nm: "numbers n p" using numbers_permutes [OF permutes_first_fst [OF perm]] lp assms by simp
  have "f32_le (p ! j) (p ! i)" if ij: "i \<le> j" "j < n" for i j
  proof -
    have nth: "p ! k = fst s2 ! (n - 1 - k)" if "k < n" for k
      using that n len by (simp add: p_def nth_append rev_nth)
    have "map f32_key (fst s2) ! a \<le> map f32_key (fst s2) ! b" if "a \<le> b" "b < n" for a b
      using s2(2) that by (cases "a = 0"; cases "b = 0") (auto simp: popped_def)
    from this [of "n - 1 - j" "n - 1 - i"] have "f32_key (p ! j) \<le> f32_key (p ! i)"
      using ij n len nth by simp
    then show ?thesis using nm ij by (simp add: f32_le_def numbers_def)
  qed
  then show ?thesis unfolding r using perm nm lp by simp
qed

section \<open>The generator never stops\<close>

lemma xor_zero: "a XOR b = 0 \<Longrightarrow> a = (b :: 'w::len word)"
  by (metis xor.assoc xor.right_neutral xor_self_eq)

lemma xor_drop_zero:
  assumes "(x :: 'w::len word) XOR drop_bit k x = 0" and "0 < k"
  shows "x = 0"
proof -
  have "drop_bit k x = x" using xor_zero [OF assms(1)] by simp
  then have "unat x div 2 ^ k = unat x" using unat_drop_div [of k x] by simp
  moreover have "(1::nat) < 2 ^ k" using assms(2) by (intro one_less_power) simp_all
  ultimately have "unat x = 0" by (metis div_less_dividend less_irrefl neq0_conv)
  then show ?thesis by (simp add: unsigned_eq_0_iff)
qed

lemma xor_push_zero:
  assumes "(x :: 'w::len word) XOR push_bit k x = 0" and "0 < k"
  shows "x = 0"
proof -
  have e: "push_bit k x = x" using xor_zero [OF assms(1)] by simp
  have "\<not> bit x n" for n
  proof (induction n rule: less_induct)
    case (less n)
    have "bit x n = bit (push_bit k x) n" by (simp only: e)
    then show ?case using less [of "n - k"] assms(2) by (auto simp: bit_push_bit_iff)
  qed
  then show ?thesis by (intro bit_word_eqI) simp
qed

lemma rand_not_zero: "s \<noteq> 0 \<Longrightarrow> fst (tq_rand_u32 s) \<noteq> 0"
  unfolding tq_rand_u32_def Let_def fst_conv
  using xor_drop_zero [of _ 12] xor_drop_zero [of _ 27] xor_push_zero [of _ 25] by (metis zero_less_numeral)

lemma rand_f32_state: "fst (tq_rand_f32 s) = fst (tq_rand_u32 s)"
  by (simp add: tq_rand_f32_def case_prod_beta Let_def)

lemma rand_scale: "f32_div (f32_of_int 1) (f32_of_int 16777216) = 0x33800000"
  by code_simp

lemma rand_f32_range:
  "f32_sign (snd (tq_rand_f32 s)) = False" "f32_mag (snd (tq_rand_f32 s)) \<le> 0x3F7FFFFF"
proof -
  define k where "k = int (unat (drop_bit 8 (snd (tq_rand_u32 s))))"
  have k: "0 \<le> k" "k \<le> 2 ^ 24 - 1"
  proof -
    have "unat (drop_bit 8 (snd (tq_rand_u32 s))) = unat (snd (tq_rand_u32 s)) div 2 ^ 8" by (rule unat_drop_div)
    also have "\<dots> < 2 ^ 24"
      using unat32_less [of "snd (tq_rand_u32 s)"] by (intro less_mult_imp_div_less) simp
    finally have "k < int (2 ^ 24)" unfolding k_def by (simp only: of_nat_less_iff)
    then show "k \<le> 2 ^ 24 - 1" by simp
    show "0 \<le> k" by (simp add: k_def)
  qed
  have r: "snd (tq_rand_f32 s) = f32_mul (f32_of_int k) 0x33800000"
    unfolding tq_rand_f32_def rand_scale k_def by (simp add: case_prod_beta Let_def)
  have v: "mag_val 23 8 0x4B7FFFFF = 2 ^ 24 - 1" "mag_val 23 8 0x33800000 = 1 / 2 ^ 24"
    "mag_val 23 8 0x3F7FFFFF = (2 ^ 24 - 1) / 2 ^ 24"
    using mag_val_neg [of 23 "0x33800000" 8388608 8 47] mag_val_neg [of 23 "0x3F7FFFFF" 16777215 8 24]
    by (simp_all add: mag_val_def mag_m_def mag_e_def fl_emin_def)
  have kf: "f32_of_int k = f32_encode (FFin False k 0)" using k by (simp add: f32_of_int_def fp_of_int_def)
  have "(of_int k :: real) \<le> of_int (2 ^ 24 - 1)" using k(2) by (simp only: of_int_le_iff)
  then have m: "f32_mag (f32_of_int k) \<le> 0x4B7FFFFF" "f32_sign (f32_of_int k) = False"
    unfolding kf f32_encode_finite(1) [OF k(1)] f32_encode_finite(2) [OF k(1)]
    using fl_mag_le_bits [OF k(1), of "0x4B7FFFFF" 0 23 8] v(1) by simp_all
  have c: "f32_mag 0x33800000 = 0x33800000" "f32_sign 0x33800000 = False"
    by (simp_all add: f32_mag_def f32_sign_def)
  have fin: "f32_finite (f32_of_int k)" "f32_finite 0x33800000" using m(1) c(1) by (simp_all add: f32_finite_def)
  have "mag_val 23 8 (f32_mag (f32_of_int k)) \<le> 2 ^ 24 - 1"
    using mag_val_mono_iff [of "f32_mag (f32_of_int k)" "0x4B7FFFFF" 23 8] m(1) v(1) by simp
  then have "mag_val 23 8 (f32_mag (f32_of_int k)) * mag_val 23 8 (f32_mag 0x33800000) \<le> mag_val 23 8 0x3F7FFFFF"
    unfolding c(1) v by simp
  then show "f32_mag (snd (tq_rand_f32 s)) \<le> 0x3F7FFFFF" unfolding r by (intro f32_mul_finite(2) [OF fin]) simp_all
  show "f32_sign (snd (tq_rand_f32 s)) = False" unfolding r f32_mul_finite(1) [OF fin] using m(2) c(2) by simp
qed

lemma rand_f32_unit: "f32_le 0 (snd (tq_rand_f32 s)) \<and> f32_lt (snd (tq_rand_f32 s)) (f32_of_int 1)"
proof -
  have one: "f32_of_int 1 = 0x3F800000" by code_simp
  have c: "f32_mag 0x3F800000 = 0x3F800000" "f32_sign 0x3F800000 = False" "f32_mag 0 = 0" "f32_sign 0 = False"
    by (simp_all add: f32_mag_def f32_sign_def)
  show ?thesis
    unfolding f32_le_def f32_lt_def one f32_is_nan_iff f32_key_eq c using rand_f32_range [of s] by (simp add: sgn_int_def)
qed

section \<open>The largest logit\<close>

lemma argmax_steps:
  assumes "0 < n" and "n \<le> length v"
  defines "b \<equiv> foldl (\<lambda>best i. if f32_lt (v ! best) (v ! i) then i else best) 0 [1..<n]"
  shows "b < n \<and> (\<forall>i < n. \<not> f32_lt (v ! b) (v ! i)) \<and> (\<forall>i < b. \<not> f32_le (v ! b) (v ! i))"
  using assms(1,2) unfolding b_def
proof (induction n)
  case (Suc n)
  show ?case
  proof (cases "n = 0")
    case True
    then show ?thesis by (simp add: f32_lt_def)
  next
    case False
    let ?b = "foldl (\<lambda>best i. if f32_lt (v ! best) (v ! i) then i else best) 0 [1..<n]"
    have IH: "?b < n" "\<forall>i < n. \<not> f32_lt (v ! ?b) (v ! i)" "\<forall>i < ?b. \<not> f32_le (v ! ?b) (v ! i)"
      using Suc False by auto
    have s: "[1..<Suc n] = [1..<n] @ [n]" using False by simp
    show ?thesis
    proof (cases "f32_lt (v ! ?b) (v ! n)")
      case True
      then have "\<not> f32_lt (v ! n) (v ! i) \<and> \<not> f32_le (v ! n) (v ! i)" if "i < n" for i
        using IH(2) [rule_format, OF that] by (auto simp: f32_lt_def f32_le_def)
      then show ?thesis unfolding s using True by (auto simp: less_Suc_eq f32_lt_def)
    next
      case False
      then show ?thesis unfolding s using IH by (auto simp: less_Suc_eq)
    qed
  qed
qed simp

lemma argmax_less: "0 < n \<Longrightarrow> n \<le> length v \<Longrightarrow> tq_argmax v n < n"
  using argmax_steps [of n v] by (simp add: tq_argmax_def)

section \<open>The nucleus\<close>

definition candidates :: "f32 \<Rightarrow> f32 list \<Rightarrow> nat \<Rightarrow> nat list" where
  "candidates cutoff logits n = filter (\<lambda>i. f32_le cutoff (logits ! i)) [0..<n]"

lemma nucleus_filter_result:
  assumes "n \<le> length prob" and "n \<le> length idx"
  shows "\<exists>p x. nucleus_filter c logits n prob idx = (p, x, length (candidates c logits n))
    \<and> length p = length prob \<and> length x = length idx
    \<and> take (length (candidates c logits n)) p = map ((!) logits) (candidates c logits n)
    \<and> take (length (candidates c logits n)) x = map int (candidates c logits n)"
  using assms
proof (induction n)
  case 0
  then show ?case by (simp add: nucleus_filter_def candidates_def)
next
  case (Suc n)
  let ?C = "candidates c logits n"
  obtain p x where IH: "nucleus_filter c logits n prob idx = (p, x, length ?C)" "length p = length prob" "length x = length idx"
    "take (length ?C) p = map ((!) logits) ?C" "take (length ?C) x = map int ?C"
    using Suc by auto
  have k: "length ?C \<le> n" using length_filter_le [of "\<lambda>i. f32_le c (logits ! i)" "[0..<n]"] by (simp add: candidates_def)
  have C: "candidates c logits (Suc n) = ?C @ (if f32_le c (logits ! n) then [n] else [])"
    by (simp add: candidates_def)
  have s: "nucleus_filter c logits (Suc n) prob idx =
    (if f32_le c (logits ! n) then (p[length ?C := logits ! n], x[length ?C := int n], length ?C + 1) else (p, x, length ?C))"
    using IH(1) by (simp add: nucleus_filter_def)
  show ?case
  proof (cases "f32_le c (logits ! n)")
    case True
    then show ?thesis using s IH k Suc.prems by (simp add: C take_Suc_conv_app_nth)
  next
    case False
    then show ?thesis using s IH by (simp add: C)
  qed
qed

lemma draw_from_range: "draw_from r cdf p i k = Some j \<Longrightarrow> i \<le> j \<and> j < i + k"
  by (induction r cdf p i k rule: draw_from.induct) (auto simp: Let_def split: if_splits)

lemma nucleus_end_sum:
  assumes "nucleus_end topp cum p i k = (cum', stop)"
  defines "e \<equiv> (case stop of Some e \<Rightarrow> e | None \<Rightarrow> i + k - 1)"
  shows "(stop \<noteq> None \<longrightarrow> i \<le> e \<and> e < i + k)
    \<and> (\<forall>m. i < m \<longrightarrow> m \<le> e \<longrightarrow> \<not> f32_lt topp (foldl f32_add cum (map ((!) p) [i..<m])))"
  using assms(1) unfolding e_def
proof (induction topp cum p i k rule: nucleus_end.induct)
  case (2 topp cum p i k)
  let ?c = "f32_add cum (p ! i)"
  show ?case
  proof (cases "f32_lt topp ?c")
    case True
    then show ?thesis using 2 by (auto simp: Let_def)
  next
    case False
    then have r: "nucleus_end topp ?c p (i + 1) k = (cum', stop)" using 2(2) by (simp add: Let_def)
    note IH = 2(1) [OF refl False r]
    have u: "map ((!) p) [i..<m] = p ! i # map ((!) p) [i + 1..<m]" if "i < m" for m
      using that by (simp add: upt_conv_Cons)
    show ?thesis
    proof (intro conjI allI impI)
      assume "stop \<noteq> None"
      then show "i \<le> (case stop of Some e \<Rightarrow> e | None \<Rightarrow> i + Suc k - 1)" "(case stop of Some e \<Rightarrow> e | None \<Rightarrow> i + Suc k - 1) < i + Suc k"
        using IH by auto
    next
      fix m assume m: "i < m" "m \<le> (case stop of Some e \<Rightarrow> e | None \<Rightarrow> i + Suc k - 1)"
      show "\<not> f32_lt topp (foldl f32_add cum (map ((!) p) [i..<m]))"
      proof (cases "m = i + 1")
        case True
        then show ?thesis using False by simp
      next
        case False
        then show ?thesis using IH m u [OF m(1)] by (auto split: option.splits)
      qed
    qed
  qed
qed auto

lemma image_pairs: "zip (map f C) (map g C) = map (\<lambda>i. (f i, g i)) C"
  by (induction C) simp_all

text \<open>The candidates in descending order: the sorted scratch arrays list one.\<close>

lemma sorted_candidates:
  assumes "numbers k p" and "length x = length p" and "k = length C"
    and "take k p = map ((!) logits) C" and "take k x = map int C"
    and "tq_heapsort_desc p x k = (p', x')"
  shows "\<exists>order. mset order = mset C \<and> take k p' = map ((!) logits) order \<and> take k x' = map int order
    \<and> sorted_wrt (\<lambda>i j. f32_le (logits ! j) (logits ! i)) order"
proof -
  have h: "length p' = length p" "length x' = length p" "permutes_first k (zip p' x') (zip p x)" "numbers k p'"
    "\<forall>i j. i \<le> j \<longrightarrow> j < k \<longrightarrow> f32_le (p' ! j) (p' ! i)"
    using heapsort_sorts [OF assms(1,2)] assms(6) by auto
  have k: "k \<le> length p" using assms(1) by (simp add: numbers_def)
  define order where "order = map (nat \<circ> snd) (take k (zip p' x'))"
  have z: "take k (zip p x) = map (\<lambda>i. (logits ! i, int i)) C"
    using assms(4,5) by (simp add: take_zip image_pairs)
  have m: "mset (take k (zip p' x')) = mset (map (\<lambda>i. (logits ! i, int i)) C)"
    using h(3) z by (simp add: permutes_first_def)
  have lens: "length (take k (zip p' x')) = k" using h(1,2) k by simp
  have form: "fst q = logits ! nat (snd q) \<and> snd q = int (nat (snd q))" if "q \<in> set (take k (zip p' x'))" for q
  proof -
    have "q \<in> set (map (\<lambda>i. (logits ! i, int i)) C)" using that m by (metis set_mset_mset)
    then show ?thesis by auto
  qed
  have "take k p' = map fst (take k (zip p' x'))" "take k x' = map snd (take k (zip p' x'))"
    using h(1,2) by (simp_all add: take_map [symmetric])
  then have tk: "take k p' = map ((!) logits) order" "take k x' = map int order"
    unfolding order_def map_map by (simp_all only: o_apply) (intro map_cong refl, use form in auto)+
  have "mset order = image_mset (nat \<circ> snd) (mset (take k (zip p' x')))" by (simp add: order_def)
  also have "\<dots> = image_mset (nat \<circ> snd) (image_mset (\<lambda>i. (logits ! i, int i)) (mset C))" unfolding m by simp
  also have "\<dots> = mset C" by (simp add: multiset.map_comp comp_def)
  finally have mo: "mset order = mset C" .
  have lo: "length order = k" using lens by (simp add: order_def)
  have nth: "logits ! (order ! i) = p' ! i" if "i < k" for i
    using arg_cong [OF tk(1), of "\<lambda>l. l ! i"] that lo by simp
  have "sorted_wrt (\<lambda>i j. f32_le (logits ! j) (logits ! i)) order"
    unfolding sorted_wrt_iff_nth_less using h(5) nth lo by auto
  with mo tk show ?thesis by blast
qed

lemma candidates_numbers:
  assumes "take k p = map ((!) logits) (candidates c logits n)" and "k = length (candidates c logits n)" and "k \<le> length p"
  shows "numbers k p"
proof -
  have "\<not> f32_is_nan y" if "y \<in> set (take k p)" for y
    using that unfolding assms(1) by (auto simp: candidates_def f32_le_def)
  then show ?thesis using assms(3) by (simp add: numbers_set)
qed

lemma candidates_subset: "set (candidates c logits n) \<subseteq> {0..<n}"
  by (auto simp: candidates_def)

lemma candidates_length: "length (candidates c logits n) \<le> n"
  using length_filter_le [of "\<lambda>i. f32_le c (logits ! i)" "[0..<n]"] by (simp add: candidates_def)

text \<open>What a draw from the nucleus is.\<close>

definition nucleus_token :: "f32 \<Rightarrow> f32 list \<Rightarrow> nat list \<Rightarrow> nat \<Rightarrow> bool" where
  "nucleus_token topp logits C t \<longleftrightarrow>
     (\<exists>order j. mset order = mset C \<and> sorted_wrt (\<lambda>i j. f32_le (logits ! j) (logits ! i)) order
        \<and> j < length order \<and> t = order ! j
        \<and> (\<forall>m. 0 < m \<longrightarrow> m \<le> j \<longrightarrow> \<not> f32_lt topp (foldl f32_add 0 (map ((!) logits) (take m order)))))"

lemma sample_nucleus_drawn:
  assumes "sample_nucleus s n logits prob idx = (t, s', logits')" and "n \<le> length prob" and "length idx = length prob"
    and "0 < n" and "n \<le> length logits"
  defines "C \<equiv> candidates (nucleus_cutoff (sm_topp s) n) logits n"
  shows "(if C = [] then t = int (tq_argmax logits n) \<and> s' = s
          else (\<exists>i. t = int i \<and> nucleus_token (sm_topp s) logits C i)
            \<and> sm_rng s' = fst (tq_rand_f32 (sm_rng s)) \<and> sm_temperature s' = sm_temperature s \<and> sm_topp s' = sm_topp s
            \<and> sm_vocab_size s' = sm_vocab_size s
            \<and> (\<exists>p x. sm_prob s' = Some p \<and> sm_idx s' = Some x \<and> length p = length prob \<and> length x = length prob))
    \<and> logits' = logits"
proof -
  obtain p x where f: "nucleus_filter (nucleus_cutoff (sm_topp s) n) logits n prob idx = (p, x, length C)"
    "length p = length prob" "length x = length idx" "take (length C) p = map ((!) logits) C" "take (length C) x = map int C"
    using nucleus_filter_result [of n prob idx] assms(2,3) unfolding C_def by metis
  show ?thesis
  proof (cases "C = []")
    case True
    then show ?thesis using assms(1) by (auto simp: sample_nucleus_def f(1))
  next
    case False
    let ?k = "length C"
    have k: "?k \<le> n" unfolding C_def by (rule candidates_length)
    have nm: "numbers ?k p" using f(4) k assms(2) f(2) unfolding C_def by (intro candidates_numbers) auto
    obtain p' x' where hs: "tq_heapsort_desc p x ?k = (p', x')" by (cases "tq_heapsort_desc p x ?k")
    have ln: "length p' = length prob" "length x' = length prob"
      using heapsort_sorts [OF nm, of x] f(2,3) assms(3) hs by auto
    obtain order where o: "mset order = mset C" "take ?k p' = map ((!) logits) order" "take ?k x' = map int order"
      "sorted_wrt (\<lambda>i j. f32_le (logits ! j) (logits ! i)) order"
      using sorted_candidates [OF nm _ refl f(4,5) hs] f(2,3) assms(3) by auto
    have lo: "length order = ?k" using o(1) by (metis mset_eq_length)
    obtain cum stop where ne: "nucleus_end (sm_topp s) 0 p' 0 ?k = (cum, stop)" by (cases "nucleus_end (sm_topp s) 0 p' 0 ?k")
    define e where "e = (case stop of Some i \<Rightarrow> i | None \<Rightarrow> ?k - 1)"
    note ns = nucleus_end_sum [OF ne]
    have e: "e < ?k" "\<forall>m. 0 < m \<longrightarrow> m \<le> e \<longrightarrow> \<not> f32_lt (sm_topp s) (foldl f32_add 0 (map ((!) p') [0..<m]))"
      using ns False unfolding e_def by (auto split: option.splits)
    obtain rng u where ru: "tq_rand_f32 (sm_rng s) = (rng, u)" by (cases "tq_rand_f32 (sm_rng s)")
    define j where "j = (case draw_from (f32_mul u cum) 0 p' 0 (e + 1) of Some i \<Rightarrow> i | None \<Rightarrow> e)"
    have j: "j \<le> e" using draw_from_range [of "f32_mul u cum" 0 p' 0 "e + 1"] unfolding j_def by (auto split: option.splits)
    have t: "t = x' ! j" "s' = s\<lparr>sm_rng := rng, sm_idx := Some x', sm_prob := Some p'\<rparr>" "logits' = logits"
      using assms(1) False unfolding sample_nucleus_def f(1) prod.case hs ne ru Let_def e_def [symmetric] j_def
      by (auto split: option.splits)
    have "x' ! j = int (order ! j)"
      using arg_cong [OF o(3), of "\<lambda>l. l ! j"] j e(1) lo by simp
    moreover have "nucleus_token (sm_topp s) logits C (order ! j)"
      unfolding nucleus_token_def
    proof (intro exI conjI allI impI)
      fix m assume m: "0 < m" "m \<le> j"
      have "map ((!) p') [0..<m] = take m (take ?k p')"
        using m j e(1) ln k assms(2) by (intro nth_equalityI) simp_all
      also have "\<dots> = map ((!) logits) (take m order)" unfolding o(2) by (simp add: take_map)
      finally show "\<not> f32_lt (sm_topp s) (foldl f32_add 0 (map ((!) logits) (take m order)))"
        using e(2) m j by (metis order_trans)
    qed (use o j e(1) lo in auto)
    ultimately show ?thesis using False t ln ru by auto
  qed
qed

lemma foldl_update_length: "length (foldl (\<lambda>v i. v[i := f v i]) xs is) = length xs"
  by (induction "is" arbitrary: xs) simp_all

lemma softmax_scale_length [simp]: "length (softmax_scale c n v) = length v"
  by (simp add: softmax_scale_def foldl_update_length)

lemma softmax_exp_length:
  "run_steps (\<lambda>(v, s) i. case tq_expf (f32_sub (v ! i) mx) of None \<Rightarrow> None | Some e \<Rightarrow> Some (v[i := e], f32_add s e)) is (v, s)
     = Some (v', s') \<Longrightarrow> length v' = length v"
proof (induction "is" arbitrary: v s)
  case (Cons i js)
  from Cons.prems obtain e where e: "tq_expf (f32_sub (v ! i) mx) = Some e"
    "run_steps (\<lambda>(v, s) i. case tq_expf (f32_sub (v ! i) mx) of None \<Rightarrow> None | Some e \<Rightarrow> Some (v[i := e], f32_add s e)) js
       (v[i := e], f32_add s e) = Some (v', s')"
    by (auto split: option.splits)
  from Cons.IH [OF e(2)] show ?case by simp
qed simp

lemma sample_softmax_length: "sample_softmax t n v = Some v' \<Longrightarrow> length v' = length v"
  unfolding sample_softmax_def Let_def softmax_exp_def
  by (auto split: option.splits dest!: softmax_exp_length)

lemma sample_plain_range:
  assumes "sample_plain s n logits = (t, s', logits')" and "0 < n"
  shows "0 \<le> t \<and> t < int n \<and> logits' = logits \<and> s' = s\<lparr>sm_rng := fst (tq_rand_f32 (sm_rng s))\<rparr>"
  using assms draw_from_range [of "snd (tq_rand_f32 (sm_rng s))" 0 logits 0 n]
  by (auto simp: sample_plain_def case_prod_beta Let_def split: option.splits)

lemma nucleus_token_candidate: "nucleus_token topp logits C t \<Longrightarrow> t \<in> set C"
  unfolding nucleus_token_def by (metis nth_mem set_mset_mset)

text \<open>A sampler over scratch arrays that are large enough.\<close>

definition sampler_ok :: "tq_sampler \<Rightarrow> bool" where
  "sampler_ok s \<longleftrightarrow> sm_rng s \<noteq> 0 \<and> 0 < sm_vocab_size s
     \<and> (\<forall>idx prob. sm_idx s = Some idx \<longrightarrow> sm_prob s = Some prob \<longrightarrow>
          sm_vocab_size s \<le> length prob \<and> length idx = length prob)"

lemma sample_step:
  assumes "tq_sample s logits = Some (t, s', logits')" and "sampler_ok s" and "sm_vocab_size s \<le> length logits"
  shows "0 \<le> t \<and> t < int (sm_vocab_size s) \<and> sampler_ok s' \<and> sm_vocab_size s' = sm_vocab_size s
    \<and> sm_temperature s' = sm_temperature s \<and> sm_topp s' = sm_topp s \<and> length logits' = length logits"
proof (cases "f32_le (sm_temperature s) 0")
  case True
  then show ?thesis
    using assms argmax_less [of "sm_vocab_size s" logits] by (auto simp: tq_sample_def Let_def sampler_ok_def)
next
  case cold: False
  obtain v where v: "sample_softmax (sm_temperature s) (sm_vocab_size s) logits = Some v"
    using assms(1) cold by (auto simp: tq_sample_def Let_def split: option.splits)
  have lv: "length v = length logits" using sample_softmax_length [OF v] .
  have n: "0 < sm_vocab_size s" "sm_rng s \<noteq> 0" using assms(2) by (auto simp: sampler_ok_def)
  have rng: "fst (tq_rand_f32 (sm_rng s)) \<noteq> 0" using rand_not_zero [OF n(2)] by (simp add: rand_f32_state)
  consider (plain) "sample_plain s (sm_vocab_size s) v = (t, s', logits')"
    | (nucleus) idx prob where "sm_idx s = Some idx" "sm_prob s = Some prob"
        "sample_nucleus s (sm_vocab_size s) v prob idx = (t, s', logits')"
    using assms(1) cold v by (auto simp: tq_sample_def Let_def split: option.splits if_splits)
  then show ?thesis
  proof cases
    case plain
    from sample_plain_range [OF this n(1)] show ?thesis using assms(2) lv rng by (auto simp: sampler_ok_def)
  next
    case nucleus
    then have a: "sm_vocab_size s \<le> length prob" "length idx = length prob" using assms(2) by (auto simp: sampler_ok_def)
    define C where "C = candidates (nucleus_cutoff (sm_topp s) (sm_vocab_size s)) v (sm_vocab_size s)"
    note d = sample_nucleus_drawn [OF nucleus(3) a n(1), folded C_def]
    have "i < sm_vocab_size s" if "nucleus_token (sm_topp s) v C i" for i
      using nucleus_token_candidate [OF that] candidates_subset unfolding C_def by fastforce
    then show ?thesis
      using d assms(2,3) lv rng a n argmax_less [of "sm_vocab_size s" v]
      by (cases "C = []") (auto simp: sampler_ok_def)
  qed
qed

text \<open>The samplers that a sequence of draws reaches.\<close>

inductive draws :: "tq_sampler \<Rightarrow> int list \<Rightarrow> tq_sampler \<Rightarrow> bool" where
  draws_none: "draws s [] s"
| draws_one: "draws s ts s1 \<Longrightarrow> sm_vocab_size s \<le> length logits \<Longrightarrow> tq_sample s1 logits = Some (t, s2, logits')
    \<Longrightarrow> draws s (ts @ [t]) s2"

inductive_cases draws_NilE: "draws s [] s'"
inductive_cases draws_snocE: "draws s (ts @ [t]) s'"

lemma draws_ok:
  assumes "draws s ts s'" and "sampler_ok s"
  shows "sampler_ok s' \<and> sm_vocab_size s' = sm_vocab_size s \<and> sm_temperature s' = sm_temperature s \<and> sm_topp s' = sm_topp s
    \<and> (\<forall>t \<in> set ts. 0 \<le> t \<and> t < int (sm_vocab_size s))"
  using assms
proof (induction rule: draws.induct)
  case (draws_one s ts s1 logits t s2 logits')
  then have IH: "sampler_ok s1" "sm_vocab_size s1 = sm_vocab_size s" "sm_temperature s1 = sm_temperature s" "sm_topp s1 = sm_topp s"
    "\<forall>t \<in> set ts. 0 \<le> t \<and> t < int (sm_vocab_size s)" by auto
  from sample_step [OF draws_one.hyps(3) IH(1)] draws_one.hyps(2) IH show ?case by auto
qed auto

text \<open>
  C34: the sampler over a whole generation. However many tokens are drawn from a fresh sampler
  whose scratch arrays hold the vocabulary, greedily, plainly or from the nucleus, every token
  is one of the vocabulary, the xorshift state is never the stuck state zero (a zero seed is
  replaced), and the settings and the sizes of the scratch arrays stay as they are.
\<close>

theorem sampler_safe:
  assumes "draws (tq_sampler_init vocab temperature topp seed (Some idx) (Some prob)) ts s"
    and "0 < vocab" and "vocab \<le> length prob" and "length idx = length prob"
  shows "sampler_ok s \<and> sm_vocab_size s = vocab \<and> sm_temperature s = temperature \<and> sm_topp s = topp
    \<and> (\<forall>t \<in> set ts. 0 \<le> t \<and> t < int vocab)"
proof -
  have "sampler_ok (tq_sampler_init vocab temperature topp seed (Some idx) (Some prob))"
    using assms(2-4) by (simp add: sampler_ok_def tq_sampler_init_def)
  from draws_ok [OF assms(1) this] show ?thesis by (simp add: tq_sampler_init_def)
qed

theorem sampler_safe_witness:
  "\<exists>s. draws (tq_sampler_init 3 0 0 0 (Some [0, 0, 0]) (Some [0, 0, 0])) [1] s \<and> sampler_ok s \<and> sm_vocab_size s = 3"
proof -
  have "tq_argmax [0x3F800000, 0x40000000, 0] 3 = 1" by code_simp
  then have "tq_sample (tq_sampler_init 3 0 0 0 (Some [0, 0, 0]) (Some [0, 0, 0])) [0x3F800000, 0x40000000, 0] =
      Some (1, tq_sampler_init 3 0 0 0 (Some [0, 0, 0]) (Some [0, 0, 0]), [0x3F800000, 0x40000000, 0])"
    by (simp add: tq_sample_def tq_sampler_init_def f32_le_def f32_is_nan_def)
  from draws_one [OF draws_none _ this]
  have d: "draws (tq_sampler_init 3 0 0 0 (Some [0, 0, 0]) (Some [0, 0, 0])) [1] (tq_sampler_init 3 0 0 0 (Some [0, 0, 0]) (Some [0, 0, 0]))"
    by (simp add: tq_sampler_init_def)
  from sampler_safe [OF d] d show ?thesis by auto
qed

text \<open>
  C36: the in-place heap sort. On numbers it orders the first \<open>n\<close> probabilities downwards, the
  index array follows, so the pairs are a permutation of the given ones, and the cells behind
  \<open>n\<close> keep their contents.
\<close>

theorem heapsort_desc_sorts:
  assumes "n \<le> length prob" and "\<forall>i < n. \<not> f32_is_nan (prob ! i)" and "length idx = length prob"
    and "tq_heapsort_desc prob idx n = (p, x)"
  shows "mset (take n (zip p x)) = mset (take n (zip prob idx)) \<and> drop n (zip p x) = drop n (zip prob idx)
    \<and> sorted_wrt (\<lambda>a b. f32_le b a) (take n p)"
proof -
  have h: "permutes_first n (zip p x) (zip prob idx)" "length p = length prob"
    "\<forall>i j. i \<le> j \<longrightarrow> j < n \<longrightarrow> f32_le (p ! j) (p ! i)"
    using heapsort_sorts [of n prob idx] assms by (auto simp: numbers_def)
  then show ?thesis using assms(1) by (auto simp: permutes_first_def sorted_wrt_iff_nth_less)
qed

theorem heapsort_desc_sorts_witness:
  "mset (take 3 (zip [0x40000000, 0x3F800000, 0, 5] [1, 0, 2, 9])) = mset (take 3 (zip [0x3F800000, 0x40000000, 0, 5] [0, 1, 2, 9 :: int]))
    \<and> drop 3 (zip [0x40000000, 0x3F800000, 0, 5] [1, 0, 2, 9]) = drop 3 (zip [0x3F800000, 0x40000000, 0, 5 :: u32] [0, 1, 2, 9 :: int])
    \<and> sorted_wrt (\<lambda>a b. f32_le b a) (take 3 [0x40000000, 0x3F800000, 0, 5])"
proof -
  have "tq_heapsort_desc [0x3F800000, 0x40000000, 0, 5] [0, 1, 2, 9] 3 = ([0x40000000, 0x3F800000, 0, 5], [1, 0, 2, 9])"
    by code_simp
  from heapsort_desc_sorts [OF _ _ _ this] show ?thesis
    by (simp add: f32_is_nan_def less_Suc_eq numeral_3_eq_3)
qed

text \<open>
  C35: what the nucleus draws. When some probability reaches the cutoff, the token is one of
  those that do, and in some descending order of them the probabilities in front of it never
  summed, in the float arithmetic of the code, to more than \<^verbatim>\<open>topp\<close>.
\<close>

theorem nucleus_sample_sound:
  assumes "sample_nucleus s n logits prob idx = (t, s', logits')" and "n \<le> length prob" and "length idx = length prob"
    and "0 < n" and "n \<le> length logits"
    and "\<exists>i < n. f32_le (nucleus_cutoff (sm_topp s) n) (logits ! i)"
  shows "\<exists>i < n. t = int i \<and> f32_le (nucleus_cutoff (sm_topp s) n) (logits ! i)
    \<and> nucleus_token (sm_topp s) logits (candidates (nucleus_cutoff (sm_topp s) n) logits n) i"
proof -
  let ?C = "candidates (nucleus_cutoff (sm_topp s) n) logits n"
  have "?C \<noteq> []" using assms(6) by (auto simp: candidates_def filter_empty_conv)
  with sample_nucleus_drawn [OF assms(1-5)] obtain i where i: "t = int i" "nucleus_token (sm_topp s) logits ?C i" by auto
  then have "i \<in> set ?C" by (intro nucleus_token_candidate)
  then show ?thesis using i by (auto simp: candidates_def)
qed

theorem nucleus_sample_sound_witness:
  "\<exists>t s' l'. sample_nucleus (tq_sampler_init 3 0x3F800000 0x3F000000 1 None None) 3 [0x3F000000, 0x3E800000, 0x3E800000] [0, 0, 0] [0, 0, 0] = (t, s', l')
    \<and> (\<exists>i < 3. t = int i)"
proof -
  let ?s = "tq_sampler_init 3 0x3F800000 0x3F000000 1 None None"
  obtain t s' l' where d: "sample_nucleus ?s 3 [0x3F000000, 0x3E800000, 0x3E800000] [0, 0, 0] [0, 0, 0] = (t, s', l')"
    by (metis prod.collapse)
  have "f32_le (nucleus_cutoff 0x3F000000 3) 0x3F000000" by code_simp
  then have c: "\<exists>i < 3. f32_le (nucleus_cutoff (sm_topp ?s) 3) ([0x3F000000, 0x3E800000, 0x3E800000] ! i)"
    by (intro exI [of _ 0]) (simp add: tq_sampler_init_def)
  from nucleus_sample_sound [OF d _ _ _ _ c] d show ?thesis by auto
qed

text \<open>
  The greedy choice. The index is the first of a largest logit: none is greater, and
  every earlier one is smaller or not a number.
\<close>

theorem argmax_largest:
  assumes "0 < n" and "n \<le> length v"
  shows "tq_argmax v n < n \<and> (\<forall>i < n. \<not> f32_lt (v ! tq_argmax v n) (v ! i)) \<and> (\<forall>i < tq_argmax v n. \<not> f32_le (v ! tq_argmax v n) (v ! i))"
  using argmax_steps [OF assms] by (simp add: tq_argmax_def)

theorem argmax_largest_witness:
  "tq_argmax [0x3F800000, 0x40000000, 0x40000000] 3 < 3 \<and> \<not> f32_lt ([0x3F800000, 0x40000000, 0x40000000] ! tq_argmax [0x3F800000, 0x40000000, 0x40000000] 3) 0x3F800000"
  using argmax_largest [of 3 "[0x3F800000, 0x40000000, 0x40000000]"] by force

text \<open>
  The uniform draw. It lies in the half-open unit interval, which keeps the comparison
  with a running sum from ever being against 1, and a state other than zero steps to one.
\<close>

theorem rand_unit_interval:
  "f32_le 0 (snd (tq_rand_f32 s)) \<and> f32_lt (snd (tq_rand_f32 s)) (f32_of_int 1)
    \<and> (fst (tq_rand_f32 s) = 0 \<longleftrightarrow> s = 0)"
  using rand_f32_unit [of s] rand_not_zero [of s] by (auto simp: rand_f32_state tq_rand_u32_def)

end
