(* ===== verification/Tq_Forward.thy ===== *)
theory Tq_Forward imports Tq_Image Tq_Sampler begin

unbundle bit_operations_syntax

text \<open>
  The decode step of \<^verbatim>\<open>core/src/tq_forward.c\<close>: the runtime with its buffers and its KV cache, the
  primitives (RMS norm, soft maximum, cache store and reads, rotary positions) and \<^verbatim>\<open>tq_forward\<close>
  itself, as the sequence of its calls on the runtime with their early returns. \<^verbatim>\<open>sqrtf\<close> is the
  IEEE square root; every operation is rounded on its own (\<^verbatim>\<open>-ffp-contract=off\<close>).
\<close>

section \<open>The runtime\<close>

text \<open>
  The cache pointers \<^verbatim>\<open>k_cache\<close> and \<^verbatim>\<open>v_cache\<close> point to floats or to int8 values, as
  \<^verbatim>\<open>kv_dtype\<close> says; each reading has its own field. The store is reached through the model.
\<close>

record 'c tq_runtime =
  rt_m :: tq_model
  rt_store :: "'c tq_store"
  rt_max_seq :: int
  rt_kv_dtype :: int
  rt_x :: "f32 list"
  rt_xb :: "f32 list"
  rt_xb2 :: "f32 list"
  rt_hb :: "f32 list"
  rt_hb3 :: "f32 list"
  rt_q :: "f32 list"
  rt_att :: "f32 list"
  rt_logits :: "f32 list"
  rt_kb :: "f32 list"
  rt_vb :: "f32 list"
  rt_rope_cos :: "f32 list"
  rt_rope_sin :: "f32 list"
  rt_xq :: "tq_block_q80 list"
  rt_hq :: "tq_block_q80 list"
  rt_k_f32 :: "f32 list"
  rt_v_f32 :: "f32 list"
  rt_k_q8 :: "i8 list"
  rt_v_q8 :: "i8 list"
  rt_k_scale :: "f32 list"
  rt_v_scale :: "f32 list"
  rt_bytes_read :: u64

section \<open>Primitives\<close>

text \<open>
  \<open>w\<close> is a pointer to little-endian floats. In a call in place (\<open>out\<close> is \<open>x\<close>) cell \<open>i\<close> is read
  just before it is written, so reading the array as it was at the call is the same.
\<close>

definition tq_rmsnorm :: "f32 list \<Rightarrow> f32 list \<Rightarrow> u8 list \<Rightarrow> nat \<Rightarrow> f32 \<Rightarrow> f32 list" where
  "tq_rmsnorm out x w n eps =
     (let ss = foldl (\<lambda>ss i. f32_add ss (f32_mul (x ! i) (x ! i))) 0 [0..<n];
          ss = f32_div (f32_of_int 1) (f32_sqrt (f32_add (f32_div ss (f32_of_int (int n))) eps))
      in foldl (\<lambda>out i. out[i := f32_mul (le32 w (4 * i)) (f32_mul ss (x ! i))]) out [0..<n])"

text \<open>The loops over the exponentials and the scaling are those of the sampler's soft maximum.\<close>

definition tq_softmax :: "f32 list \<Rightarrow> nat \<Rightarrow> f32 list option" where
  "tq_softmax x n =
     (let mx = foldl (\<lambda>mx i. if f32_lt mx (x ! i) then x ! i else mx) (x ! 0) [1..<n]
      in case softmax_exp mx n x of
           None \<Rightarrow> None
         | Some (x, s) \<Rightarrow> Some (softmax_scale (f32_div (f32_of_int 1) s) n x))"

section \<open>The KV cache\<close>

text \<open>\<open>memcpy\<close> of \<open>ys\<close> to offset \<open>i\<close>.\<close>

definition blit :: "nat \<Rightarrow> 'a list \<Rightarrow> 'a list \<Rightarrow> 'a list" where
  "blit i ys xs = take i xs @ ys @ drop (i + length ys) xs"

definition kv_index :: "'c tq_runtime \<Rightarrow> nat \<Rightarrow> nat \<Rightarrow> nat" where
  "kv_index rt layer pos = (layer * nat (rt_max_seq rt) + pos) * nat (m_kv_dim (rt_m rt))"

definition kv_sindex :: "'c tq_runtime \<Rightarrow> nat \<Rightarrow> nat \<Rightarrow> nat" where
  "kv_sindex rt layer pos = (layer * nat (rt_max_seq rt) + pos) * nat (m_n_kv_heads (rt_m rt))"

definition kv_amax :: "f32 list \<Rightarrow> f32" where
  "kv_amax xs =
     foldl (\<lambda>ka x. let a = (if f32_lt x 0 then f32_neg x else x) in if f32_lt ka a then a else ka) 0 xs"

text \<open>One rounded value; the conversion to \<^verbatim>\<open>int\<close> is partial, the clamp comes after it.\<close>

definition kv_quant :: "f32 \<Rightarrow> f32 \<Rightarrow> i8 option" where
  "kv_quant iv x =
     (let a = f32_mul x iv
      in map_option (\<lambda>q. word_of_int (if q > 127 then 127 else if q < -127 then -127 else q))
           (f32_to_i32 (if f32_lt a 0 then f32_sub a (f32_dec 5 1) else f32_add a (f32_dec 5 1))))"

text \<open>
  One head of one vector: its scale and its int8 values. The code handles the key and the
  value in the same loops; they do not meet, so they are one definition used twice.
\<close>

definition kv_store_head ::
  "nat \<Rightarrow> nat \<Rightarrow> nat \<Rightarrow> f32 list \<Rightarrow> i8 list \<times> f32 list \<Rightarrow> nat \<Rightarrow> (i8 list \<times> f32 list) option" where
  "kv_store_head idx sidx hs x cs h =
     (case cs of (cells, scales) \<Rightarrow>
        let off = h * hs;
            sc = f32_div (kv_amax (map (\<lambda>i. x ! (off + i)) [0..<hs])) (f32_of_int 127);
            iv = (if \<not> f32_eq sc 0 then f32_div (f32_of_int 1) sc else 0)
        in map_option (\<lambda>cells. (cells, scales[sidx + h := sc]))
             (run_steps (\<lambda>cells i. map_option (\<lambda>q. cells[idx + off + i := q]) (kv_quant iv (x ! (off + i))))
                [0..<hs] cells))"

definition tq_kv_store :: "'c tq_runtime \<Rightarrow> nat \<Rightarrow> nat \<Rightarrow> f32 list \<Rightarrow> f32 list \<Rightarrow> 'c tq_runtime option" where
  "tq_kv_store rt layer pos k v =
     (let m = rt_m rt; idx = kv_index rt layer pos; n = nat (m_kv_dim m)
      in if rt_kv_dtype rt = TQ_KV_F32
         then Some (rt\<lparr>rt_k_f32 := blit idx (take n k) (rt_k_f32 rt), rt_v_f32 := blit idx (take n v) (rt_v_f32 rt)\<rparr>)
         else let sidx = kv_sindex rt layer pos; hs = nat (m_head_size m); heads = [0..<nat (m_n_kv_heads m)]
              in case (run_steps (kv_store_head idx sidx hs k) heads (rt_k_q8 rt, rt_k_scale rt),
                       run_steps (kv_store_head idx sidx hs v) heads (rt_v_q8 rt, rt_v_scale rt)) of
                   (Some (kq, ks), Some (vq, vs)) \<Rightarrow>
                     Some (rt\<lparr>rt_k_q8 := kq, rt_k_scale := ks, rt_v_q8 := vq, rt_v_scale := vs\<rparr>)
                 | _ \<Rightarrow> None)"

text \<open>\<open>q\<close> is the query of one head.\<close>

definition tq_kv_dot_k :: "'c tq_runtime \<Rightarrow> nat \<Rightarrow> nat \<Rightarrow> nat \<Rightarrow> f32 list \<Rightarrow> f32" where
  "tq_kv_dot_k rt layer t kvh q =
     (let m = rt_m rt; hs = nat (m_head_size m); idx = kv_index rt layer t + kvh * hs
      in if rt_kv_dtype rt = TQ_KV_F32
         then foldl (\<lambda>s i. f32_add s (f32_mul (q ! i) (rt_k_f32 rt ! (idx + i)))) 0 [0..<hs]
         else f32_mul
                (foldl (\<lambda>s i. f32_add s (f32_mul (q ! i) (f32_of_int (sint (rt_k_q8 rt ! (idx + i)))))) 0 [0..<hs])
                (rt_k_scale rt ! (kv_sindex rt layer t + kvh)))"

definition tq_kv_acc_v :: "'c tq_runtime \<Rightarrow> nat \<Rightarrow> nat \<Rightarrow> nat \<Rightarrow> f32 \<Rightarrow> f32 list \<Rightarrow> f32 list" where
  "tq_kv_acc_v rt layer t kvh a out =
     (let m = rt_m rt; hs = nat (m_head_size m); idx = kv_index rt layer t + kvh * hs
      in if rt_kv_dtype rt = TQ_KV_F32
         then foldl (\<lambda>out i. out[i := f32_add (out ! i) (f32_mul a (rt_v_f32 rt ! (idx + i)))]) out [0..<hs]
         else let c = f32_mul a (rt_v_scale rt ! (kv_sindex rt layer t + kvh))
              in foldl (\<lambda>out i. out[i := f32_add (out ! i) (f32_mul c (f32_of_int (sint (rt_v_q8 rt ! (idx + i)))))])
                   out [0..<hs])"

section \<open>Rotary positions\<close>

text \<open>The frequency and the angle of pair \<open>i\<close>.\<close>

definition rope_pair :: "f32 \<Rightarrow> nat \<Rightarrow> nat \<Rightarrow> nat \<Rightarrow> (f32 \<times> f32) option" where
  "rope_pair theta hs pos i =
     (case tq_powf theta (f32_div (f32_of_int (2 * int i)) (f32_of_int (int hs))) of
        None \<Rightarrow> None
      | Some p \<Rightarrow>
          let freq = f32_div (f32_of_int 1) p; ang = f32_mul (f32_of_int (int pos)) freq
          in (case (tq_cosf ang, tq_sinf ang) of (Some c, Some s) \<Rightarrow> Some (c, s) | _ \<Rightarrow> None))"

definition tq_rope_prepare :: "nat \<Rightarrow> 'c tq_runtime \<Rightarrow> 'c tq_runtime option" where
  "tq_rope_prepare pos rt =
     (let m = rt_m rt; hs = nat (m_head_size m)
      in case run_steps (\<lambda>(cs, ss) i. map_option (\<lambda>(c, s). (cs[i := c], ss[i := s]))
                 (rope_pair (h_rope_theta (m_hdr m)) hs pos i))
              [0..<hs div 2] (rt_rope_cos rt, rt_rope_sin rt) of
           None \<Rightarrow> None
         | Some (cs, ss) \<Rightarrow> Some (rt\<lparr>rt_rope_cos := cs, rt_rope_sin := ss\<rparr>))"

definition rope_head :: "f32 list \<Rightarrow> f32 list \<Rightarrow> nat \<Rightarrow> nat \<Rightarrow> f32 list \<Rightarrow> f32 list" where
  "rope_head cs ss hs base v =
     foldl (\<lambda>v i. let c = cs ! i; s = ss ! i; v0 = v ! (base + 2 * i); v1 = v ! (base + 2 * i + 1)
                  in v[base + 2 * i := f32_sub (f32_mul v0 c) (f32_mul v1 s),
                       base + 2 * i + 1 := f32_add (f32_mul v0 s) (f32_mul v1 c)])
       v [0..<hs div 2]"

text \<open>The loop over the heads; \<open>None\<close> would be a loop that does not end (\<^verbatim>\<open>head_size\<close> 0).\<close>

partial_function (option) rope_from :: "f32 list \<Rightarrow> f32 list \<Rightarrow> nat \<Rightarrow> nat \<Rightarrow> nat \<Rightarrow> f32 list \<Rightarrow> f32 list option" where
  "rope_from cs ss hs n base v =
     (if base < n then rope_from cs ss hs n (base + hs) (rope_head cs ss hs base v) else Some v)"

definition tq_rope_apply :: "'c tq_runtime \<Rightarrow> f32 list \<Rightarrow> nat \<Rightarrow> f32 list option" where
  "tq_rope_apply rt v n = rope_from (rt_rope_cos rt) (rt_rope_sin rt) (nat (m_head_size (rt_m rt))) n 0 v"

section \<open>The decode step\<close>

text \<open>
  A step of the decode gives a status and the runtime; it stops the rest when the status is
  not \<^verbatim>\<open>TQ_OK\<close>, which is the early return of the code. \<open>None\<close> is undefined behaviour.
\<close>

type_synonym 'c fw_step = "'c tq_runtime \<Rightarrow> (tq_status \<times> 'c tq_runtime) option"

fun run_ok :: "('s \<Rightarrow> (tq_status \<times> 's) option) list \<Rightarrow> 's \<Rightarrow> (tq_status \<times> 's) option" where
  "run_ok [] s = Some (TQ_OK, s)"
| "run_ok (f # fs) s =
     (case f s of
        None \<Rightarrow> None
      | Some (rc, s) \<Rightarrow> if rc \<noteq> TQ_OK then Some (rc, s) else run_ok fs s)"

text \<open>A part of the step that cannot return early.\<close>

definition calm :: "('s \<Rightarrow> 's option) \<Rightarrow> 's \<Rightarrow> (tq_status \<times> 's) option" where
  "calm f s = map_option (Pair TQ_OK) (f s)"

text \<open>
  The calls of the step. A buffer is given by its field: \<open>get\<close> reads it and \<open>put\<close> is the
  record's update function.
\<close>

definition fw_view :: "u64 \<Rightarrow> u32 \<Rightarrow> 'c tq_runtime \<Rightarrow> 'c tq_runtime \<times> u8 list option" where
  "fw_view off n rt = (case tq_store_view (rt_store rt) off n of (st, p) \<Rightarrow> (rt\<lparr>rt_store := st\<rparr>, p))"

definition fw_norm ::
  "('c tq_runtime \<Rightarrow> f32 list) \<Rightarrow> ((f32 list \<Rightarrow> f32 list) \<Rightarrow> 'c tq_runtime \<Rightarrow> 'c tq_runtime) \<Rightarrow> u64 \<Rightarrow> 'c fw_step" where
  "fw_norm get put off rt =
     (let m = rt_m rt; dim = m_dim m
      in case fw_view off (word_of_int dim * 4) rt of
           (rt, None) \<Rightarrow> Some (TQ_ERR_IO, rt)
         | (rt, Some w) \<Rightarrow>
             Some (TQ_OK, put (\<lambda>_. tq_rmsnorm (get rt) (rt_x rt) w (nat dim) (h_norm_eps (m_hdr m))) rt))"

text \<open>The blocks of a quantized vector overwrite the front of their buffer.\<close>

definition fw_quantize ::
  "('c tq_runtime \<Rightarrow> f32 list) \<Rightarrow> ((tq_block_q80 list \<Rightarrow> tq_block_q80 list) \<Rightarrow> 'c tq_runtime \<Rightarrow> 'c tq_runtime) \<Rightarrow> int
     \<Rightarrow> 'c tq_runtime \<Rightarrow> 'c tq_runtime option" where
  "fw_quantize get put n rt =
     map_option (\<lambda>bs. put (\<lambda>xq. bs @ drop (length bs) xq) rt) (tq_quantize_q8 (get rt) (nat n))"

definition fw_matvec ::
  "('c tq_runtime \<Rightarrow> f32 list) \<Rightarrow> ((f32 list \<Rightarrow> f32 list) \<Rightarrow> 'c tq_runtime \<Rightarrow> 'c tq_runtime)
     \<Rightarrow> u64 \<Rightarrow> int \<Rightarrow> int \<Rightarrow> ('c tq_runtime \<Rightarrow> tq_block_q80 list) \<Rightarrow> 'c fw_step" where
  "fw_matvec get put w n d xq rt =
     map_option (\<lambda>(rc, st, br, out). (rc, put (\<lambda>_. out) (rt\<lparr>rt_store := st, rt_bytes_read := br\<rparr>)))
       (tq_matvec (rt_store rt) (rt_bytes_read rt) (get rt) w (m_qtype (rt_m rt)) (nat n) (nat d) (xq rt))"

definition fw_rope ::
  "('c tq_runtime \<Rightarrow> f32 list) \<Rightarrow> ((f32 list \<Rightarrow> f32 list) \<Rightarrow> 'c tq_runtime \<Rightarrow> 'c tq_runtime) \<Rightarrow> int
     \<Rightarrow> 'c tq_runtime \<Rightarrow> 'c tq_runtime option" where
  "fw_rope get put n rt = map_option (\<lambda>v. put (\<lambda>_. v) rt) (tq_rope_apply rt (get rt) (nat n))"

text \<open>One head of the attention. \<^verbatim>\<open>att\<close> and \<^verbatim>\<open>out\<close> point into the buffers \<^verbatim>\<open>rt->att\<close> and \<^verbatim>\<open>rt->xb\<close>.\<close>

definition fw_head :: "nat \<Rightarrow> nat \<Rightarrow> f32 \<Rightarrow> 'c tq_runtime \<Rightarrow> nat \<Rightarrow> 'c tq_runtime option" where
  "fw_head l pos inv_sqrt_hs rt h =
     (let m = rt_m rt; hs = nat (m_head_size m);
          qh = drop (h * hs) (rt_q rt);
          ao = h * nat (rt_max_seq rt);
          oo = h * hs;
          kvh = h div nat (m_kv_mul m);
          att = foldl (\<lambda>att t. att[ao + t := f32_mul (tq_kv_dot_k rt l t kvh qh) inv_sqrt_hs]) (rt_att rt) [0..<pos + 1]
      in case tq_softmax (drop ao att) (pos + 1) of
           None \<Rightarrow> None
         | Some a \<Rightarrow>
             let xb = blit oo (replicate hs 0) (rt_xb rt);
                 xb = foldl (\<lambda>xb t. take oo xb @ tq_kv_acc_v rt l t kvh (a ! t) (drop oo xb)) xb [0..<pos + 1]
             in Some (rt\<lparr>rt_att := take ao att @ a, rt_xb := xb\<rparr>))"

definition fw_attention :: "nat \<Rightarrow> nat \<Rightarrow> f32 \<Rightarrow> 'c tq_runtime \<Rightarrow> 'c tq_runtime option" where
  "fw_attention l pos inv_sqrt_hs rt = run_steps (fw_head l pos inv_sqrt_hs) [0..<nat (m_n_heads (rt_m rt))] rt"

definition fw_residual :: "'c tq_runtime \<Rightarrow> 'c tq_runtime option" where
  "fw_residual rt =
     Some (rt\<lparr>rt_x := foldl (\<lambda>x i. x[i := f32_add (x ! i) (rt_xb2 rt ! i)]) (rt_x rt) [0..<nat (m_dim (rt_m rt))]\<rparr>)"

definition fw_swiglu :: "'c tq_runtime \<Rightarrow> 'c tq_runtime option" where
  "fw_swiglu rt =
     map_option (\<lambda>hb. rt\<lparr>rt_hb := hb\<rparr>)
       (run_steps (\<lambda>hb i. let v = hb ! i in
            case tq_expf (f32_neg v) of
              None \<Rightarrow> None
            | Some e \<Rightarrow> Some (hb[i := f32_mul (f32_div v (f32_add (f32_of_int 1) e)) (rt_hb3 rt ! i)]))
          [0..<nat (m_hidden_dim (rt_m rt))] (rt_hb rt))"

definition fw_layer :: "tq_model \<Rightarrow> nat \<Rightarrow> f32 \<Rightarrow> nat \<Rightarrow> 'c fw_step" where
  "fw_layer m pos inv_sqrt_hs l =
     (let lo = m_layers m ! l; dim = m_dim m; kv_dim = m_kv_dim m; hidden = m_hidden_dim m
      in run_ok
        [fw_norm rt_xb rt_xb_update (lo_rms_att lo),
         calm (fw_quantize rt_xb rt_xq_update dim),
         fw_matvec rt_q rt_q_update (lo_wq lo) dim dim rt_xq,
         fw_matvec rt_kb rt_kb_update (lo_wk lo) dim kv_dim rt_xq,
         fw_matvec rt_vb rt_vb_update (lo_wv lo) dim kv_dim rt_xq,
         calm (fw_rope rt_q rt_q_update dim),
         calm (fw_rope rt_kb rt_kb_update kv_dim),
         calm (\<lambda>rt. tq_kv_store rt l pos (rt_kb rt) (rt_vb rt)),
         calm (fw_attention l pos inv_sqrt_hs),
         calm (fw_quantize rt_xb rt_xq_update dim),
         fw_matvec rt_xb2 rt_xb2_update (lo_wo lo) dim dim rt_xq,
         calm fw_residual,
         fw_norm rt_xb rt_xb_update (lo_rms_ffn lo),
         calm (fw_quantize rt_xb rt_xq_update dim),
         fw_matvec rt_hb rt_hb_update (lo_w1 lo) dim hidden rt_xq,
         fw_matvec rt_hb3 rt_hb3_update (lo_w3 lo) dim hidden rt_xq,
         calm fw_swiglu,
         calm (fw_quantize rt_hb rt_hq_update hidden),
         fw_matvec rt_xb2 rt_xb2_update (lo_w2 lo) hidden dim rt_hq,
         calm fw_residual])"

definition fw_embed :: "int \<Rightarrow> 'c fw_step" where
  "fw_embed token rt =
     (let m = rt_m rt
      in case tq_row_to_float (rt_store rt) (m_tok_emb m) (m_qtype m) (nat (m_dim m)) (nat token) (rt_x rt) of
           (rc, st, x) \<Rightarrow> Some (rc, rt\<lparr>rt_store := st, rt_x := x\<rparr>))"

definition tq_forward :: "'c tq_runtime \<Rightarrow> int \<Rightarrow> int \<Rightarrow> (tq_status \<times> 'c tq_runtime) option" where
  "tq_forward rt token pos =
     (let m = rt_m rt; dim = m_dim m
      in if token < 0 \<or> token \<ge> m_vocab_size m then Some (TQ_ERR_RANGE, rt)
         else if pos < 0 \<or> pos \<ge> rt_max_seq rt then Some (TQ_ERR_RANGE, rt)
         else let inv_sqrt_hs = f32_div (f32_of_int 1) (f32_sqrt (f32_of_int (m_head_size m)))
              in run_ok
                 ([fw_embed token, calm (tq_rope_prepare (nat pos))]
                  @ map (fw_layer m (nat pos) inv_sqrt_hs) [0..<nat (m_n_layers m)]
                  @ [fw_norm rt_x rt_x_update (m_rms_final m),
                     calm (fw_quantize rt_x rt_xq_update dim),
                     fw_matvec rt_logits rt_logits_update (m_classifier m) dim (m_vocab_size m) rt_xq])
                 rt)"

end
