(* ===== verification/Tq_Vectors.thy ===== *)
theory Tq_Vectors imports Tq_Forward "HOL-Library.Monad_Syntax" begin

unbundle bit_operations_syntax

text \<open>
  What the parts of the decode step compute, as functions on vectors: the reference definition of
  the transformer (\<open>layer_value\<close>, \<open>forward_value\<close>), and lemmas that the index loops of the code on
  its buffers, among them the KV cache in its two layouts, compute these functions.
\<close>

section \<open>Loops over arrays\<close>

lemma blit_length [simp]: "i + length ys \<le> length xs \<Longrightarrow> length (blit i ys xs) = length xs"
  by (simp add: blit_def)

lemma blit_Nil [simp]: "i \<le> length xs \<Longrightarrow> blit i [] xs = xs"
  by (simp add: blit_def)

lemma blit_all: "length ys = length xs \<Longrightarrow> blit 0 ys xs = ys"
  by (simp add: blit_def)

lemma blit_nth:
  "i + length ys \<le> length xs \<Longrightarrow> k < length xs \<Longrightarrow>
    blit i ys xs ! k = (if i \<le> k \<and> k < i + length ys then ys ! (k - i) else xs ! k)"
  by (auto simp: blit_def nth_append)

lemma blit_snoc: "i + length ys < length xs \<Longrightarrow> blit i (ys @ [y]) xs = (blit i ys xs)[i + length ys := y]"
  by (intro nth_equalityI) (auto simp: blit_nth nth_append nth_list_update)

lemma blit_append:
  "i + length ys + length zs \<le> length xs \<Longrightarrow> blit (i + length ys) zs (blit i ys xs) = blit i (ys @ zs) xs"
  by (intro nth_equalityI) (auto simp: blit_nth nth_append)

lemma foldl_blit:
  "b + n \<le> length out \<Longrightarrow> foldl (\<lambda>out i. out[b + i := g i]) out [0..<n] = blit b (map g [0..<n]) out"
proof (induction n)
  case (Suc n)
  then show ?case using blit_snoc [of b "map g [0..<n]" out "g n"] by simp
qed simp

lemma foldl_map_at:
  "n \<le> length x \<Longrightarrow> foldl (\<lambda>x i. x[i := f i (x ! i)]) x [0..<n] = blit 0 (map (\<lambda>i. f i (x ! i)) [0..<n]) x"
proof (induction n)
  case (Suc n)
  let ?ys = "map (\<lambda>i. f i (x ! i)) [0..<n]"
  have "blit 0 ?ys x ! n = x ! n" using Suc.prems by (simp add: blit_nth)
  then show ?case using Suc blit_snoc [of 0 ?ys x "f n (x ! n)"] by simp
qed simp

lemma those_snoc:
  "those (xs @ [x]) = (case those xs of None \<Rightarrow> None | Some vs \<Rightarrow> map_option (\<lambda>v. vs @ [v]) x)"
  by (cases x; induction xs) (auto split: option.splits)

lemma those_append:
  "those (xs @ ys) = (case those xs of None \<Rightarrow> None | Some vs \<Rightarrow> map_option (\<lambda>ws. vs @ ws) (those ys))"
  by (cases "those ys"; induction xs) (auto split: option.splits)

lemma those_length: "those xs = Some vs \<Longrightarrow> length vs = length xs"
  by (induction xs arbitrary: vs) (auto split: option.splits)

lemma run_blit:
  "b + n \<le> length out \<Longrightarrow>
    run_steps (\<lambda>out i. map_option (\<lambda>v. out[b + i := v]) (f i)) [0..<n] out
      = map_option (\<lambda>vs. blit b vs out) (those (map f [0..<n]))"
proof (induction n)
  case (Suc n)
  show ?case
    using Suc blit_snoc [of b _ out] by (auto simp: run_steps_append those_snoc split: option.splits dest!: those_length)
qed simp

lemma run_map_at:
  "n \<le> length x \<Longrightarrow>
    run_steps (\<lambda>x i. map_option (\<lambda>v. x[i := v]) (f i (x ! i))) [0..<n] x
      = map_option (\<lambda>vs. blit 0 vs x) (those (map (\<lambda>i. f i (x ! i)) [0..<n]))"
proof (induction n)
  case (Suc n)
  have "blit 0 vs x ! n = x ! n" if "those (map (\<lambda>i. f i (x ! i)) [0..<n]) = Some vs" for vs
    using Suc.prems those_length [OF that] by (simp add: blit_nth)
  then show ?case
    using Suc blit_snoc [of 0 _ x] by (auto simp: run_steps_append those_snoc split: option.splits dest!: those_length)
qed simp

text \<open>Blocks of one size in one array do not meet.\<close>

definition block :: "nat \<Rightarrow> nat \<Rightarrow> 'a list \<Rightarrow> 'a list" where
  "block n j xs = take n (drop (j * n) xs)"

lemma block_fits: "j < J \<Longrightarrow> J * n \<le> length xs \<Longrightarrow> j * n + n \<le> length (xs :: 'a list)"
  by (metis add.commute mult_Suc mult_le_mono1 Suc_leI order_trans)

lemma block_length: "j < J \<Longrightarrow> J * n \<le> length xs \<Longrightarrow> length (block n j xs) = n"
  using block_fits [of j J n xs] by (simp add: block_def)

lemma block_nth: "j < J \<Longrightarrow> J * n \<le> length xs \<Longrightarrow> i < n \<Longrightarrow> block n j xs ! i = xs ! (j * n + i)"
  using block_fits [of j J n xs] by (simp add: block_def)

lemma block_blit:
  assumes "i < J" and "j < J" and "J * n \<le> length xs" and "length ys = n"
  shows "block n j (blit (i * n) ys xs) = (if j = i then ys else block n j xs)"
proof (rule nth_equalityI)
  have b: "i * n + length ys \<le> length xs" using block_fits [OF assms(1,3)] assms(4) by simp
  have l: "J * n \<le> length (blit (i * n) ys xs)" using b assms(3) by simp
  show "length (block n j (blit (i * n) ys xs)) = length (if j = i then ys else block n j xs)"
    using block_length [OF assms(2) l] block_length [OF assms(2,3)] assms(4) by simp
  fix k assume "k < length (block n j (blit (i * n) ys xs))"
  then have k: "k < n" using block_length [OF assms(2) l] by simp
  have jk: "j * n + k < length xs" using block_fits [OF assms(2,3)] k by simp
  have s: "j * n + k = i * n + k' \<Longrightarrow> k' < n \<Longrightarrow> j = i" for k'
    using k by (metis div_mult_self3 div_less add_0_right mult.commute add.commute gr_implies_not0)
  have "i * n \<le> j * n + k \<and> j * n + k < i * n + n \<longleftrightarrow> j = i"
    using s [of "j * n + k - i * n"] k by auto
  then show "block n j (blit (i * n) ys xs) ! k = (if j = i then ys else block n j xs) ! k"
    using block_nth [OF assms(2) l k] block_nth [OF assms(2,3) k] blit_nth [OF b jk] assms(4) by auto
qed

section \<open>The transformer, as functions on vectors\<close>

text \<open>The floats of a little-endian vector, and a quantized matrix times a quantized vector.\<close>

definition vec_at :: "u8 list \<Rightarrow> u64 \<Rightarrow> nat \<Rightarrow> f32 list" where
  "vec_at img off n = map (\<lambda>i. le32 img (unat off + 4 * i)) [0..<n]"

definition mat_value :: "u8 list \<Rightarrow> u32 \<Rightarrow> u64 \<Rightarrow> nat \<Rightarrow> nat \<Rightarrow> tq_block_q80 list \<Rightarrow> f32 list" where
  "mat_value img qt off n d xq =
     map (\<lambda>i. row_value qt img (unat off + i * (n div 32 * block_bytes qt)) xq (n div 32)) [0..<d]"

definition rms_value :: "f32 \<Rightarrow> f32 list \<Rightarrow> f32 list \<Rightarrow> f32 list" where
  "rms_value eps w x =
     (let ss = foldl (\<lambda>s a. f32_add s (f32_mul a a)) 0 x;
          r = f32_div (f32_of_int 1) (f32_sqrt (f32_add (f32_div ss (f32_of_int (int (length x)))) eps))
      in map2 (\<lambda>w a. f32_mul w (f32_mul r a)) w x)"

definition largest :: "f32 list \<Rightarrow> f32" where
  "largest xs = foldl (\<lambda>mx x. if f32_lt mx x then x else mx) (hd xs) (tl xs)"

definition softmax_value :: "f32 list \<Rightarrow> f32 list option" where
  "softmax_value xs = do {
     es \<leftarrow> those (map (\<lambda>x. tq_expf (f32_sub x (largest xs))) xs);
     let c = f32_div (f32_of_int 1) (foldl f32_add 0 es);
     Some (map (\<lambda>e. f32_mul e c) es)
   }"

text \<open>A key or a value as the cache keeps it: floats, or int8 values with a scale for each head.\<close>

datatype kv_cell = KvFloat "f32 list" | KvInt8 "f32 list" "i8 list"

definition kv_scale :: "f32 list \<Rightarrow> f32" where
  "kv_scale xs = f32_div (kv_amax xs) (f32_of_int 127)"

definition kv_inverse :: "f32 \<Rightarrow> f32" where
  "kv_inverse s = (if \<not> f32_eq s 0 then f32_div (f32_of_int 1) s else 0)"

definition make_cell :: "int \<Rightarrow> nat \<Rightarrow> nat \<Rightarrow> f32 list \<Rightarrow> kv_cell option" where
  "make_cell kv_dtype hs heads x =
     (if kv_dtype = TQ_KV_F32 then Some (KvFloat x)
      else do {
        let scales = map (\<lambda>h. kv_scale (block hs h x)) [0..<heads];
        qs \<leftarrow> those (map (\<lambda>j. kv_quant (kv_inverse (scales ! (j div hs))) (x ! j)) [0..<heads * hs]);
        Some (KvInt8 scales qs)
      })"

fun cell_dot :: "nat \<Rightarrow> nat \<Rightarrow> f32 list \<Rightarrow> kv_cell \<Rightarrow> f32" where
  "cell_dot hs h q (KvFloat k) = foldl f32_add 0 (map2 f32_mul q (block hs h k))"
| "cell_dot hs h q (KvInt8 scales k) =
     f32_mul (foldl f32_add 0 (map2 (\<lambda>a b. f32_mul a (f32_of_int (sint b))) q (block hs h k))) (scales ! h)"

fun cell_scaled :: "nat \<Rightarrow> nat \<Rightarrow> f32 \<Rightarrow> kv_cell \<Rightarrow> f32 list" where
  "cell_scaled hs h a (KvFloat v) = map (f32_mul a) (block hs h v)"
| "cell_scaled hs h a (KvInt8 scales v) =
     map (\<lambda>b. f32_mul (f32_mul a (scales ! h)) (f32_of_int (sint b))) (block hs h v)"

text \<open>One head: \<open>cells\<close> are the keys and values of all positions up to the current one.\<close>

definition head_value :: "nat \<Rightarrow> f32 \<Rightarrow> (kv_cell \<times> kv_cell) list \<Rightarrow> nat \<Rightarrow> f32 list \<Rightarrow> f32 list option" where
  "head_value hs inv_sqrt_hs cells kvh q = do {
     a \<leftarrow> softmax_value (map (\<lambda>(k, v). f32_mul (cell_dot hs kvh q k) inv_sqrt_hs) cells);
     Some (foldl (\<lambda>out (a, k, v). map2 f32_add out (cell_scaled hs kvh a v)) (replicate hs 0) (zip a cells))
   }"

definition attention_value ::
  "tq_model \<Rightarrow> f32 \<Rightarrow> (kv_cell \<times> kv_cell) list \<Rightarrow> f32 list \<Rightarrow> f32 list option" where
  "attention_value m inv_sqrt_hs cells q =
     map_option concat (those (map (\<lambda>h. head_value (nat (m_head_size m)) inv_sqrt_hs cells (h div nat (m_kv_mul m))
         (block (nat (m_head_size m)) h q)) [0..<nat (m_n_heads m)]))"

text \<open>The pairs of a head are turned by the angles of the position; an odd last entry stays.\<close>

definition rope_value :: "(f32 \<times> f32) list \<Rightarrow> nat \<Rightarrow> f32 list \<Rightarrow> f32 list" where
  "rope_value rope hs v =
     map (\<lambda>j. if hs div 2 \<le> j mod hs div 2 then v ! j
              else let (c, s) = rope ! (j mod hs div 2)
                   in if even (j mod hs) then f32_sub (f32_mul (v ! j) c) (f32_mul (v ! (j + 1)) s)
                      else f32_add (f32_mul (v ! (j - 1)) s) (f32_mul (v ! j) c)) [0..<length v]"

definition swiglu_value :: "f32 list \<Rightarrow> f32 list \<Rightarrow> f32 list option" where
  "swiglu_value hb hb3 =
     those (map2 (\<lambda>v u. map_option (\<lambda>e. f32_mul (f32_div v (f32_add (f32_of_int 1) e)) u) (tq_expf (f32_neg v))) hb hb3)"

text \<open>One layer: the new residual vector, and the key and value of the position.\<close>

definition layer_value ::
  "u8 list \<Rightarrow> tq_model \<Rightarrow> int \<Rightarrow> (f32 \<times> f32) list \<Rightarrow> f32 \<Rightarrow> (kv_cell \<times> kv_cell) list \<Rightarrow> nat \<Rightarrow> f32 list
     \<Rightarrow> (f32 list \<times> kv_cell \<times> kv_cell) option" where
  "layer_value img m kv_dtype rope inv_sqrt_hs past l x = do {
     let lo = m_layers m ! l; let qt = m_qtype m; let eps = h_norm_eps (m_hdr m);
     let dm = nat (m_dim m); let kv_dim = nat (m_kv_dim m); let hidden = nat (m_hidden_dim m);
     let hs = nat (m_head_size m); let heads = nat (m_n_kv_heads m);
     xq \<leftarrow> tq_quantize_q8 (rms_value eps (vec_at img (lo_rms_att lo) dm) x) dm;
     let q = rope_value rope hs (mat_value img qt (lo_wq lo) dm dm xq);
     let k = rope_value rope hs (mat_value img qt (lo_wk lo) dm kv_dim xq);
     let v = mat_value img qt (lo_wv lo) dm kv_dim xq;
     kc \<leftarrow> make_cell kv_dtype hs heads k;
     vc \<leftarrow> make_cell kv_dtype hs heads v;
     xb \<leftarrow> attention_value m inv_sqrt_hs (past @ [(kc, vc)]) q;
     xq \<leftarrow> tq_quantize_q8 xb dm;
     let x = map2 f32_add x (mat_value img qt (lo_wo lo) dm dm xq);
     xq \<leftarrow> tq_quantize_q8 (rms_value eps (vec_at img (lo_rms_ffn lo) dm) x) dm;
     hb \<leftarrow> swiglu_value (mat_value img qt (lo_w1 lo) dm hidden xq) (mat_value img qt (lo_w3 lo) dm hidden xq);
     hq \<leftarrow> tq_quantize_q8 hb hidden;
     Some (map2 f32_add x (mat_value img qt (lo_w2 lo) hidden dm hq), kc, vc)
   }"

text \<open>
  One position. \<open>hist\<close> holds, for each earlier position, the key and value of each layer.
\<close>

definition forward_value ::
  "u8 list \<Rightarrow> tq_model \<Rightarrow> int \<Rightarrow> (kv_cell \<times> kv_cell) list list \<Rightarrow> int
     \<Rightarrow> (f32 list \<times> (kv_cell \<times> kv_cell) list) option" where
  "forward_value img m kv_dtype hist token = do {
     let qt = m_qtype m; let dm = nat (m_dim m); let hs = nat (m_head_size m);
     let inv_sqrt_hs = f32_div (f32_of_int 1) (f32_sqrt (f32_of_int (m_head_size m)));
     let x = map (weight_at (drop (unat (m_tok_emb m) + nat token * (dm div 32 * block_bytes qt)) img) qt) [0..<dm];
     rope \<leftarrow> those (map (rope_pair (h_rope_theta (m_hdr m)) hs (length hist)) [0..<hs div 2]);
     (x, new) \<leftarrow> run_steps (\<lambda>(x, new) l. do {
         (x, c) \<leftarrow> layer_value img m kv_dtype rope inv_sqrt_hs (map (\<lambda>cells. cells ! l) hist) l x;
         Some (x, new @ [c])
       }) [0..<nat (m_n_layers m)] (x, []);
     xq \<leftarrow> tq_quantize_q8 (rms_value (h_norm_eps (m_hdr m)) (vec_at img (m_rms_final m) dm) x) dm;
     Some (mat_value img qt (m_classifier m) dm (nat (m_vocab_size m)) xq, new)
   }"

section \<open>The primitives compute the vector functions\<close>

lemma foldl_nth: "n \<le> length xs \<Longrightarrow> foldl (\<lambda>s i. f s (xs ! i)) a [0..<n] = foldl f a (take n xs)"
  by (induction n) (simp_all add: take_Suc_conv_app_nth)

lemma foldl_nth2:
  "n \<le> length xs \<Longrightarrow> n \<le> length ys \<Longrightarrow>
    foldl (\<lambda>s i. f s (g (xs ! i) (ys ! i))) a [0..<n] = foldl f a (map2 g (take n xs) (take n ys))"
  by (induction n) (simp_all add: take_Suc_conv_app_nth)

lemma rmsnorm_value:
  assumes "length out = n" and "length x = n"
  shows "tq_rmsnorm out x w n eps = rms_value eps (map (\<lambda>i. le32 w (4 * i)) [0..<n]) x"
proof -
  have s: "foldl (\<lambda>ss i. f32_add ss (f32_mul (x ! i) (x ! i))) 0 [0..<n] = foldl (\<lambda>s a. f32_add s (f32_mul a a)) 0 x"
    using foldl_nth [of n x "\<lambda>s a. f32_add s (f32_mul a a)"] assms by simp
  have u: "foldl (\<lambda>out i. out[i := f32_mul (le32 w (4 * i)) (f32_mul r (x ! i))]) out [0..<n]
      = map2 (\<lambda>w a. f32_mul w (f32_mul r a)) (map (\<lambda>i. le32 w (4 * i)) [0..<n]) x" for r
    using foldl_blit [of 0 n out "\<lambda>i. f32_mul (le32 w (4 * i)) (f32_mul r (x ! i))"] assms
    by (simp add: blit_all) (intro nth_equalityI; simp)
  show ?thesis unfolding tq_rmsnorm_def rms_value_def Let_def s u assms(2) ..
qed

lemma softmax_exp_value:
  "n \<le> length x \<Longrightarrow> softmax_exp mx n x =
     map_option (\<lambda>es. (es @ drop n x, foldl f32_add 0 es)) (those (map (\<lambda>x. tq_expf (f32_sub x mx)) (take n x)))"
proof (induction n)
  case (Suc n)
  have t: "take (Suc n) x = take n x @ [x ! n]" using Suc.prems by (simp add: take_Suc_conv_app_nth)
  have d: "drop n x = x ! n # drop (Suc n) x" using Suc.prems by (simp add: Cons_nth_drop_Suc)
  have a: "softmax_exp mx (Suc n) x = Option.bind (softmax_exp mx n x)
      (\<lambda>(v, s). case tq_expf (f32_sub (v ! n) mx) of None \<Rightarrow> None | Some e \<Rightarrow> Some (v[n := e], f32_add s e))"
    by (simp add: softmax_exp_def run_steps_append) (auto split: option.splits)
  show ?case
  proof (cases "those (map (\<lambda>x. tq_expf (f32_sub x mx)) (take n x))")
    case None
    then show ?thesis using Suc unfolding a t by (simp add: those_append)
  next
    case (Some es)
    then have l: "length es = n" using those_length Suc.prems by fastforce
    then have "(es @ drop n x) ! n = x ! n" "(es @ drop n x)[n := e] = es @ e # drop (Suc n) x" for e
      unfolding d by (simp_all add: nth_append list_update_append)
    then show ?thesis using Suc Some unfolding a t by (simp add: those_append split: option.splits)
  qed
qed (simp add: softmax_exp_def)

lemma softmax_scale_value: "n \<le> length x \<Longrightarrow> softmax_scale c n x = map (\<lambda>e. f32_mul e c) (take n x) @ drop n x"
  unfolding softmax_scale_def
  using foldl_map_at [of n x "\<lambda>i e. f32_mul e c"] by (simp add: blit_def) (intro nth_equalityI; simp)

lemma tq_softmax_value:
  assumes "0 < n" and "n \<le> length x"
  shows "tq_softmax x n = map_option (\<lambda>ys. ys @ drop n x) (softmax_value (take n x))"
proof -
  have l: "largest (take n x) = foldl (\<lambda>mx i. if f32_lt mx (x ! i) then x ! i else mx) (x ! 0) [1..<n]"
  proof -
    have "[1..<n] = map Suc [0..<n - 1]" using assms(1) by (simp add: map_Suc_upt)
    then have "foldl (\<lambda>mx i. if f32_lt mx (x ! i) then x ! i else mx) (x ! 0) [1..<n]
        = foldl (\<lambda>mx i. if f32_lt mx (tl x ! i) then tl x ! i else mx) (x ! 0) [0..<n - 1]"
      using assms by (simp add: foldl_map) (intro foldl_cong; simp add: nth_tl)
    also have "\<dots> = foldl (\<lambda>mx x. if f32_lt mx x then x else mx) (x ! 0) (take (n - 1) (tl x))"
      using assms(2) by (intro foldl_nth [of "n - 1" "tl x" "\<lambda>mx x. if f32_lt mx x then x else mx"]) simp
    finally show ?thesis
      using assms hd_conv_nth [of x] by (cases "x = []") (simp_all add: largest_def tl_take hd_take)
  qed
  have s: "softmax_scale c n (es @ drop n x) = map (\<lambda>e. f32_mul e c) es @ drop n x" if "length es = n" for c es
    using that assms(2) by (subst softmax_scale_value) simp_all
  show ?thesis
    unfolding tq_softmax_def softmax_value_def Let_def softmax_exp_value [OF assms(2)] l [symmetric]
    using assms(2) by (cases "those (map (\<lambda>x'. tq_expf (f32_sub x' (largest (take n x)))) (take n x))")
      (auto simp: s dest!: those_length)
qed

lemma softmax_value_length: "softmax_value xs = Some ys \<Longrightarrow> length ys = length xs"
  by (auto simp: softmax_value_def Let_def dest!: those_length split: Option.bind_splits)

lemma swiglu_value_length:
  "swiglu_value hb hb3 = Some ys \<Longrightarrow> length ys = min (length hb) (length hb3)"
  by (auto simp: swiglu_value_def dest!: those_length)

lemma swiglu_loop:
  assumes "length hb = n" and "length hb3 = n"
  shows "run_steps (\<lambda>hb i. let v = hb ! i in
      case tq_expf (f32_neg v) of None \<Rightarrow> None
        | Some e \<Rightarrow> Some (hb[i := f32_mul (f32_div v (f32_add (f32_of_int 1) e)) (hb3 ! i)])) [0..<n] hb
    = swiglu_value hb hb3"
proof -
  let ?f = "\<lambda>v u. map_option (\<lambda>e. f32_mul (f32_div v (f32_add (f32_of_int 1) e)) u) (tq_expf (f32_neg v))"
  have e: "(\<lambda>hb i. let v = hb ! i in case tq_expf (f32_neg v) of None \<Rightarrow> None
        | Some e \<Rightarrow> Some (hb[i := f32_mul (f32_div v (f32_add (f32_of_int 1) e)) (hb3 ! i)]))
      = (\<lambda>x i. map_option (\<lambda>v. x[i := v]) (?f (x ! i) (hb3 ! i)))"
    by (intro ext) (simp add: Let_def split: option.splits)
  have z: "map (\<lambda>i. ?f (hb ! i) (hb3 ! i)) [0..<n] = map2 ?f hb hb3"
    using assms by (intro nth_equalityI) simp_all
  show ?thesis
    unfolding e swiglu_value_def using run_map_at [of n hb "\<lambda>i v. ?f v (hb3 ! i)"] assms z
    by (cases "those (map2 ?f hb hb3)") (auto simp: blit_all dest!: those_length)
qed

lemma residual_loop:
  assumes "length x = n" and "length y = n"
  shows "foldl (\<lambda>x i. x[i := f32_add (x ! i) (y ! i)]) x [0..<n] = map2 f32_add x y"
proof -
  have "map (\<lambda>i. f32_add (x ! i) (y ! i)) [0..<n] = map2 f32_add x y"
    using assms by (intro nth_equalityI) simp_all
  then show ?thesis using foldl_map_at [of n x "\<lambda>i a. f32_add a (y ! i)"] assms by (simp add: blit_all)
qed

section \<open>Rotary positions\<close>

lemma rope_head_value:
  assumes "base + hs \<le> length v" and "length cs = hs div 2" and "length ss = hs div 2"
  shows "rope_head cs ss hs base v = blit base (rope_value (zip cs ss) hs (take hs (drop base v))) v"
proof -
  define u where "u = take hs (drop base v)"
  have lu: "length u = hs" and un: "\<And>j. j < hs \<Longrightarrow> u ! j = v ! (base + j)" using assms(1) by (auto simp: u_def)
  define e where "e = rope_value (zip cs ss) hs u"
  have le: "length e = hs" by (simp add: e_def rope_value_def lu)
  have en: "e ! j = (if hs div 2 \<le> j div 2 then v ! (base + j)
      else if even j then f32_sub (f32_mul (v ! (base + j)) (cs ! (j div 2))) (f32_mul (v ! (base + j + 1)) (ss ! (j div 2)))
      else f32_add (f32_mul (v ! (base + j - 1)) (ss ! (j div 2))) (f32_mul (v ! (base + j)) (cs ! (j div 2))))"
    if "j < hs" for j
  proof -
    have "hs div 2 \<le> j div 2 \<or> (even j \<longrightarrow> j + 1 < hs)" using that by presburger
    then show ?thesis
      using that assms(2,3) by (auto simp: e_def rope_value_def lu un elim: oddE)
  qed
  let ?F = "\<lambda>v i. let c = cs ! i; s = ss ! i; v0 = v ! (base + 2 * i); v1 = v ! (base + 2 * i + 1)
      in v[base + 2 * i := f32_sub (f32_mul v0 c) (f32_mul v1 s), base + 2 * i + 1 := f32_add (f32_mul v0 s) (f32_mul v1 c)]"
  have "foldl ?F v [0..<k] = blit base (take (2 * k) e) v" if "k \<le> hs div 2" for k
    using that
  proof (induction k)
    case (Suc k)
    have k: "2 * k + 1 < hs" "k < hs div 2" using Suc.prems by auto
    let ?b = "blit base (take (2 * k) e) v"
    have b: "?b ! (base + 2 * k) = v ! (base + 2 * k)" "?b ! Suc (base + 2 * k) = v ! Suc (base + 2 * k)"
      using k le assms(1) by (auto simp: blit_nth)
    have e2: "e ! (2 * k) = f32_sub (f32_mul (v ! (base + 2 * k)) (cs ! k)) (f32_mul (v ! (base + 2 * k + 1)) (ss ! k))"
      "e ! Suc (2 * k) = f32_add (f32_mul (v ! (base + 2 * k)) (ss ! k)) (f32_mul (v ! Suc (base + 2 * k)) (cs ! k))"
      using en [of "2 * k"] en [of "2 * k + 1"] k by auto
    have t: "take (2 * Suc k) e = take (2 * k) e @ [e ! (2 * k)] @ [e ! (2 * k + 1)]"
      using k le by (simp add: take_Suc_conv_app_nth)
    have "blit base (take (2 * Suc k) e) v = ?b[base + 2 * k := e ! (2 * k), base + 2 * k + 1 := e ! (2 * k + 1)]"
    proof -
      have "blit base ((take (2 * k) e @ [e ! (2 * k)]) @ [e ! (2 * k + 1)]) v
          = (blit base (take (2 * k) e @ [e ! (2 * k)]) v)[base + 2 * k + 1 := e ! (2 * k + 1)]"
        using blit_snoc [of base "take (2 * k) e @ [e ! (2 * k)]" v] k le assms(1) by simp
      also have "blit base (take (2 * k) e @ [e ! (2 * k)]) v = ?b[base + 2 * k := e ! (2 * k)]"
        using blit_snoc [of base "take (2 * k) e" v] k le assms(1) by simp
      finally show ?thesis unfolding t by simp
    qed
    then show ?case using Suc k by (simp add: Let_def b e2)
  qed (use assms(1) in simp)
  from this [of "hs div 2"] have "rope_head cs ss hs base v = blit base (take (2 * (hs div 2)) e) v"
    by (simp add: rope_head_def)
  also have "\<dots> = blit base e v"
  proof (rule nth_equalityI)
    fix i assume "i < length (blit base (take (2 * (hs div 2)) e) v)"
    then have i: "i < length v" using assms(1) le by simp
    have "e ! (i - base) = v ! i" if "base \<le> i" "i < base + hs" "\<not> i < base + 2 * (hs div 2)"
    proof -
      have "i - base < hs" "hs div 2 \<le> (i - base) div 2" using that by auto
      then show ?thesis using en [of "i - base"] that by simp
    qed
    then show "blit base (take (2 * (hs div 2)) e) v ! i = blit base e v ! i"
      using i assms(1) le by (auto simp: blit_nth)
  qed (use assms(1) le in simp)
  finally show ?thesis by (simp add: e_def u_def)
qed

lemma rope_value_length [simp]: "length (rope_value rope hs v) = length v"
  by (simp add: rope_value_def)

lemma rope_value_at:
  assumes "i < hs" and "b * hs + hs \<le> length v"
  shows "rope_value rope hs v ! (b * hs + i) = rope_value rope hs (take hs (drop (b * hs) v)) ! i"
proof -
  have n: "b * hs + k < length v" "take hs (drop (b * hs) v) ! k = v ! (b * hs + k)" if "k < hs" for k
    using that assms(2) by simp_all
  have e: "i + 1 < hs" if "even i" "i div 2 < hs div 2" using that by (auto elim!: evenE)
  have o: "b * hs + i - 1 = b * hs + (i - 1)" "i - 1 < hs" if "odd i" using that assms(1) by (cases i; simp)+
  show ?thesis
    using assms n [OF assms(1)] n [OF e] n [OF o(2)] o(1)
    by (cases "hs div 2 \<le> i div 2"; cases "even i") (simp_all add: rope_value_def Let_def not_le split: prod.splits)
qed

lemma rope_from_value:
  assumes "length v = J * hs" and "0 < hs" and "length cs = hs div 2" and "length ss = hs div 2" and "k \<le> J"
  shows "rope_from cs ss hs (J * hs) (k * hs) (blit 0 (take (k * hs) (rope_value (zip cs ss) hs v)) v)
    = Some (rope_value (zip cs ss) hs v)"
  using assms(5)
proof (induction "J - k" arbitrary: k)
  case 0
  then have "k = J" by simp
  then show ?case using assms(1) by (subst rope_from.simps) (simp add: blit_all)
next
  case (Suc d)
  then have k: "k < J" by simp
  have f: "k * hs + hs \<le> length v" using block_fits [OF k, of hs v] assms(1) by simp
  let ?r = "rope_value (zip cs ss) hs v"
  let ?u = "blit 0 (take (k * hs) ?r) v"
  have lu: "length ?u = length v" using f by simp
  have d: "drop (k * hs) ?u = drop (k * hs) v" using f by (simp add: blit_def)
  have "rope_value (zip cs ss) hs (take hs (drop (k * hs) v)) = take hs (drop (k * hs) ?r)"
    using f by (intro nth_equalityI) (simp_all add: rope_value_at)
  then have "rope_head cs ss hs (k * hs) ?u = blit (k * hs) (take hs (drop (k * hs) ?r)) ?u"
    using rope_head_value [of "k * hs" hs ?u cs ss] f lu d assms(3,4) by simp
  also have "\<dots> = blit 0 (take (Suc k * hs) ?r) v"
    using blit_append [of 0 "take (k * hs) ?r" "take hs (drop (k * hs) ?r)" v] f
    by (simp add: take_add [symmetric] add.commute)
  finally have h: "rope_head cs ss hs (k * hs) ?u = blit 0 (take (Suc k * hs) ?r) v" .
  have "k * hs < J * hs" using k assms(2) by simp
  then have "rope_from cs ss hs (J * hs) (k * hs) ?u = rope_from cs ss hs (J * hs) (Suc k * hs) (blit 0 (take (Suc k * hs) ?r) v)"
    by (subst rope_from.simps) (simp add: h [unfolded One_nat_def] add.commute)
  then show ?case using Suc.hyps(1) [of "Suc k"] Suc.hyps(2) k by simp
qed

lemma rope_apply_value:
  assumes "length v = J * hs" and "0 < hs" and "length (rt_rope_cos rt) = hs div 2" and "length (rt_rope_sin rt) = hs div 2"
    and "nat (m_head_size (rt_m rt)) = hs"
  shows "tq_rope_apply rt v (J * hs) = Some (rope_value (zip (rt_rope_cos rt) (rt_rope_sin rt)) hs v)"
  using rope_from_value [OF assms(1-4), of 0] assms(5) by (simp add: tq_rope_apply_def)

section \<open>The cache holds cells\<close>

definition cell_of :: "int \<Rightarrow> nat \<Rightarrow> nat \<Rightarrow> nat \<Rightarrow> f32 list \<Rightarrow> i8 list \<Rightarrow> f32 list \<Rightarrow> kv_cell" where
  "cell_of kv_dtype n heads j fs qs scales =
     (if kv_dtype = TQ_KV_F32 then KvFloat (block n j fs) else KvInt8 (block heads j scales) (block n j qs))"

definition rt_cells :: "'c tq_runtime \<Rightarrow> nat \<Rightarrow> nat \<Rightarrow> kv_cell \<times> kv_cell" where
  "rt_cells rt l t =
     (let m = rt_m rt; n = nat (m_kv_dim m); heads = nat (m_n_kv_heads m); j = l * nat (rt_max_seq rt) + t
      in (cell_of (rt_kv_dtype rt) n heads j (rt_k_f32 rt) (rt_k_q8 rt) (rt_k_scale rt),
          cell_of (rt_kv_dtype rt) n heads j (rt_v_f32 rt) (rt_v_q8 rt) (rt_v_scale rt)))"

lemma map_nth_block: "h * n + n \<le> length x \<Longrightarrow> map (\<lambda>i. x ! (h * n + i)) [0..<n] = block n h x"
  unfolding block_def by (intro nth_equalityI) simp_all

lemma upt_block: "[0..<Suc h * n] = [0..<h * n] @ map (\<lambda>i. h * n + i) [0..<n]"
proof -
  have "[h * n..<h * n + n] = map (\<lambda>i. h * n + i) [0..<n]" by (intro nth_equalityI) simp_all
  then show ?thesis using upt_add_eq_append [of 0 "h * n" n] by (simp add: add.commute)
qed

lemma store_head_value:
  assumes "h * hs + hs \<le> length x" and "idx + h * hs + hs \<le> length cells"
  shows "kv_store_head idx sidx hs x (cells, scales) h =
    map_option (\<lambda>qs. (blit (idx + h * hs) qs cells, scales[sidx + h := kv_scale (block hs h x)]))
      (those (map (\<lambda>i. kv_quant (kv_inverse (kv_scale (block hs h x))) (x ! (h * hs + i))) [0..<hs]))"
proof -
  let ?f = "\<lambda>i. kv_quant (kv_inverse (kv_scale (block hs h x))) (x ! (h * hs + i))"
  have "run_steps (\<lambda>cells i. map_option (\<lambda>q. cells[idx + h * hs + i := q]) (?f i)) [0..<hs] cells
      = map_option (\<lambda>vs. blit (idx + h * hs) vs cells) (those (map ?f [0..<hs]))"
    by (rule run_blit [OF assms(2)])
  then show ?thesis
    unfolding kv_store_head_def Let_def prod.case map_nth_block [OF assms(1)] kv_scale_def [symmetric] kv_inverse_def [symmetric]
    by (simp add: option.map_comp o_def)
qed

lemma store_heads_value:
  assumes "H * hs \<le> length x" and "idx + H * hs \<le> length cells" and "sidx + H \<le> length scales" and "0 < hs"
  shows "run_steps (kv_store_head idx sidx hs x) [0..<H] (cells, scales) =
    map_option (\<lambda>qs. (blit idx qs cells, blit sidx (map (\<lambda>h. kv_scale (block hs h x)) [0..<H]) scales))
      (those (map (\<lambda>j. kv_quant (kv_inverse (kv_scale (block hs (j div hs) x))) (x ! j)) [0..<H * hs]))"
  using assms(1-3)
proof (induction H)
  case (Suc H)
  let ?f = "\<lambda>j. kv_quant (kv_inverse (kv_scale (block hs (j div hs) x))) (x ! j)"
  let ?scs = "map (\<lambda>h. kv_scale (block hs h x)) [0..<H]"
  have IH: "run_steps (kv_store_head idx sidx hs x) [0..<H] (cells, scales) =
      map_option (\<lambda>qs. (blit idx qs cells, blit sidx ?scs scales)) (those (map ?f [0..<H * hs]))"
    using Suc by simp
  have fm: "map ?f [0..<Suc H * hs] = map ?f [0..<H * hs]
      @ map (\<lambda>i. kv_quant (kv_inverse (kv_scale (block hs H x))) (x ! (H * hs + i))) [0..<hs]"
    unfolding upt_block by (simp add: o_def)
  show ?case
  proof (cases "those (map ?f [0..<H * hs])")
    case None
    then show ?thesis unfolding fm those_append using IH by (simp add: run_steps_append)
  next
    case (Some qs)
    then have lq: "length qs = H * hs" using those_length by fastforce
    let ?c = "blit idx qs cells"
    have lc: "idx + H * hs + hs \<le> length ?c" using Suc.prems lq by simp
    have lx: "H * hs + hs \<le> length x" using Suc.prems by simp
    have sc: "(blit sidx ?scs scales)[sidx + H := kv_scale (block hs H x)] = blit sidx (map (\<lambda>h. kv_scale (block hs h x)) [0..<Suc H]) scales"
      using blit_snoc [of sidx ?scs scales "kv_scale (block hs H x)"] Suc.prems by simp
    have bl: "blit (idx + H * hs) ws ?c = blit idx (qs @ ws) cells" if "length ws = hs" for ws
      using blit_append [of idx qs ws cells] lq that Suc.prems by simp
    have "run_steps (kv_store_head idx sidx hs x) [0..<Suc H] (cells, scales)
        = kv_store_head idx sidx hs x (?c, blit sidx ?scs scales) H"
      using IH Some by (simp add: run_steps_append split: option.splits)
    also have "\<dots> = map_option (\<lambda>ws. (blit idx (qs @ ws) cells, blit sidx (map (\<lambda>h. kv_scale (block hs h x)) [0..<Suc H]) scales))
        (those (map (\<lambda>i. kv_quant (kv_inverse (kv_scale (block hs H x))) (x ! (H * hs + i))) [0..<hs]))"
      unfolding store_head_value [OF lx lc] sc using bl
      by (cases "those (map (\<lambda>i. kv_quant (kv_inverse (kv_scale (block hs H x))) (x ! (H * hs + i))) [0..<hs])")
        (auto dest!: those_length)
    finally show ?thesis unfolding fm those_append Some by (simp add: option.map_comp o_def)
  qed
qed simp

lemma make_cell_int8:
  "kv_dtype \<noteq> TQ_KV_F32 \<Longrightarrow> 0 < hs \<Longrightarrow> make_cell kv_dtype hs H x =
     map_option (KvInt8 (map (\<lambda>h. kv_scale (block hs h x)) [0..<H]))
       (those (map (\<lambda>j. kv_quant (kv_inverse (kv_scale (block hs (j div hs) x))) (x ! j)) [0..<H * hs]))"
proof -
  assume a: "kv_dtype \<noteq> TQ_KV_F32" "0 < hs"
  have "map (\<lambda>j. kv_quant (kv_inverse (map (\<lambda>h. kv_scale (block hs h x)) [0..<H] ! (j div hs))) (x ! j)) [0..<H * hs]
      = map (\<lambda>j. kv_quant (kv_inverse (kv_scale (block hs (j div hs) x))) (x ! j)) [0..<H * hs]"
    using a(2) by (intro map_cong refl) (simp add: div_less_iff_less_mult)
  then show ?thesis
    using a by (simp only: make_cell_def Let_def if_False) (auto split: Option.bind_splits)
qed

text \<open>A slot of the cache is not another.\<close>

lemma slot_less: "l < L \<Longrightarrow> t < S \<Longrightarrow> l * S + t < L * (S :: nat)"
  using block_fits [of l L S "replicate (L * S) ()"] by simp

lemma slot_eq: "t < S \<Longrightarrow> t' < S \<Longrightarrow> l * S + t = l' * S + t' \<longleftrightarrow> l = l' \<and> t = (t' :: nat)"
  by (metis add.commute div_mult_self3 div_less add_0_right gr_implies_not0 add_left_cancel mult.commute)

text \<open>The buffers of the cache and their lengths.\<close>

definition cache_fits :: "'c tq_runtime \<Rightarrow> bool" where
  "cache_fits rt \<longleftrightarrow>
     (let m = rt_m rt; slots = nat (m_n_layers m) * nat (rt_max_seq rt); n = slots * nat (m_kv_dim m);
          s = slots * nat (m_n_kv_heads m)
      in if rt_kv_dtype rt = TQ_KV_F32 then length (rt_k_f32 rt) = n \<and> length (rt_v_f32 rt) = n
         else length (rt_k_q8 rt) = n \<and> length (rt_v_q8 rt) = n \<and> length (rt_k_scale rt) = s \<and> length (rt_v_scale rt) = s)"

lemma cell_of_float:
  assumes "j < J" and "j' < J" and "length fs = J * n" and "length x = n"
  shows "cell_of TQ_KV_F32 n heads j' (blit (j * n) x fs) qs scales
    = (if j' = j then KvFloat x else cell_of TQ_KV_F32 n heads j' fs qs scales)"
  using block_blit [OF assms(1,2), of n fs x] assms(3,4) by (simp add: cell_of_def)

lemma cell_of_int8:
  assumes "j < J" and "j' < J" and "kv_dtype \<noteq> TQ_KV_F32"
    and "length qs = J * n" and "length ys = n" and "length scales = J * heads" and "length ss = heads"
  shows "cell_of kv_dtype n heads j' fs (blit (j * n) ys qs) (blit (j * heads) ss scales)
    = (if j' = j then KvInt8 ss ys else cell_of kv_dtype n heads j' fs qs scales)"
  using block_blit [OF assms(1,2), of n qs ys] block_blit [OF assms(1,2), of heads scales ss] assms(3-7)
  by (simp add: cell_of_def)

text \<open>What storing a key and a value does: only the cache changes, and of it only one slot.\<close>

definition put_cache ::
  "f32 list \<Rightarrow> f32 list \<Rightarrow> i8 list \<Rightarrow> i8 list \<Rightarrow> f32 list \<Rightarrow> f32 list \<Rightarrow> 'c tq_runtime \<Rightarrow> 'c tq_runtime" where
  "put_cache kf vf kq vq ks vs rt =
     rt\<lparr>rt_k_f32 := kf, rt_v_f32 := vf, rt_k_q8 := kq, rt_v_q8 := vq, rt_k_scale := ks, rt_v_scale := vs\<rparr>"

definition slot_written :: "nat \<Rightarrow> nat \<Rightarrow> kv_cell \<Rightarrow> kv_cell \<Rightarrow> 'c tq_runtime \<Rightarrow> 'c tq_runtime \<Rightarrow> bool" where
  "slot_written l pos kc vc rt rt' \<longleftrightarrow>
     (\<exists>kf vf kq vq ks vs. rt' = put_cache kf vf kq vq ks vs rt) \<and> cache_fits rt' \<and>
     (\<forall>l' < nat (m_n_layers (rt_m rt)). \<forall>t' < nat (rt_max_seq rt).
        rt_cells rt' l' t' = (if l' = l \<and> t' = pos then (kc, vc) else rt_cells rt l' t'))"

lemma kv_store_value:
  assumes fits: "cache_fits rt" and l: "l < nat (m_n_layers (rt_m rt))" and p: "pos < nat (rt_max_seq rt)"
    and d: "nat (m_kv_dim (rt_m rt)) = nat (m_n_kv_heads (rt_m rt)) * hs" "nat (m_head_size (rt_m rt)) = hs" "0 < hs"
    and len: "length k = nat (m_kv_dim (rt_m rt))" "length v = nat (m_kv_dim (rt_m rt))"
  shows "case (make_cell (rt_kv_dtype rt) hs (nat (m_n_kv_heads (rt_m rt))) k,
               make_cell (rt_kv_dtype rt) hs (nat (m_n_kv_heads (rt_m rt))) v) of
      (Some kc, Some vc) \<Rightarrow> \<exists>rt'. tq_kv_store rt l pos k v = Some rt' \<and> slot_written l pos kc vc rt rt'
    | _ \<Rightarrow> tq_kv_store rt l pos k v = None"
proof -
  define H S L K where "H = nat (m_n_kv_heads (rt_m rt))" and "S = nat (rt_max_seq rt)"
    and "L = nat (m_n_layers (rt_m rt))" and "K = nat (m_kv_dim (rt_m rt))"
  note D = H_def [symmetric] S_def [symmetric] L_def [symmetric] K_def [symmetric]
  define j where "j = l * S + pos"
  have j: "j < L * S" using slot_less l p unfolding j_def D by blast
  have K: "K = H * hs" using d(1) unfolding D .
  have lk: "length k = K" "length v = K" using len unfolding D by simp_all
  have same: "l' * S + t' = j \<longleftrightarrow> l' = l \<and> t' = pos" if "t' < S" for l' t'
    using slot_eq [of t' S pos l' l] that p unfolding j_def D by blast
  have fit: "j * K + K \<le> L * S * K" "j * H + H \<le> L * S * H"
    using block_fits [OF j, of K "replicate (L * S * K) ()"] block_fits [OF j, of H "replicate (L * S * H) ()"] by simp_all
  show ?thesis
  proof (cases "rt_kv_dtype rt = TQ_KV_F32")
    case True
    have lens: "length (rt_k_f32 rt) = L * S * K" "length (rt_v_f32 rt) = L * S * K"
      using fits True by (simp_all add: cache_fits_def Let_def D)
    define rt' where "rt' = put_cache (blit (j * K) k (rt_k_f32 rt)) (blit (j * K) v (rt_v_f32 rt)) (rt_k_q8 rt) (rt_v_q8 rt)
      (rt_k_scale rt) (rt_v_scale rt) rt"
    have "tq_kv_store rt l pos k v = Some rt'"
      using True lk by (simp add: tq_kv_store_def Let_def kv_index_def D j_def rt'_def put_cache_def)
    moreover have "slot_written l pos k' v' rt rt'" if "k' = KvFloat k" "v' = KvFloat v" for k' v'
      unfolding slot_written_def
    proof (intro conjI allI impI)
      show "cache_fits rt'" using lens lk fit True by (simp add: rt'_def cache_fits_def put_cache_def Let_def D)
      fix l' t' assume t: "l' < nat (m_n_layers (rt_m rt))" "t' < nat (rt_max_seq rt)"
      then have j': "l' * S + t' < L * S" "t' < S" using slot_less unfolding D by auto
      show "rt_cells rt' l' t' = (if l' = l \<and> t' = pos then (k', v') else rt_cells rt l' t')"
        using cell_of_float [OF j j'(1) lens(1) lk(1)] cell_of_float [OF j j'(1) lens(2) lk(2)] same [OF j'(2)] True that
        by (simp add: rt_cells_def Let_def D rt'_def put_cache_def)
    qed (use rt'_def in blast)
    ultimately show ?thesis using True by (simp add: make_cell_def)
  next
    case False
    have lens: "length (rt_k_q8 rt) = L * S * K" "length (rt_v_q8 rt) = L * S * K"
      "length (rt_k_scale rt) = L * S * H" "length (rt_v_scale rt) = L * S * H"
      using fits False by (simp_all add: cache_fits_def Let_def D)
    let ?sc = "\<lambda>x. map (\<lambda>h. kv_scale (block hs h x)) [0..<H]"
    let ?qs = "\<lambda>x. those (map (\<lambda>j. kv_quant (kv_inverse (kv_scale (block hs (j div hs) x))) (x ! j)) [0..<H * hs])"
    have st: "tq_kv_store rt l pos k v = (case (?qs k, ?qs v) of
        (Some kq, Some vq) \<Rightarrow> Some (put_cache (rt_k_f32 rt) (rt_v_f32 rt) (blit (j * K) kq (rt_k_q8 rt)) (blit (j * K) vq (rt_v_q8 rt))
          (blit (j * H) (?sc k) (rt_k_scale rt)) (blit (j * H) (?sc v) (rt_v_scale rt)) rt)
      | _ \<Rightarrow> None)"
      using store_heads_value [of H hs k "j * K" "rt_k_q8 rt" "j * H" "rt_k_scale rt"]
        store_heads_value [of H hs v "j * K" "rt_v_q8 rt" "j * H" "rt_v_scale rt"] False lens fit lk K d(2,3)
      by (simp add: tq_kv_store_def Let_def kv_index_def kv_sindex_def D j_def put_cache_def split: option.splits)
    have mk: "make_cell (rt_kv_dtype rt) hs H x = map_option (KvInt8 (?sc x)) (?qs x)" for x
      by (rule make_cell_int8 [OF False d(3)])
    have "slot_written l pos (KvInt8 (?sc k) kq) (KvInt8 (?sc v) vq) rt
        (put_cache (rt_k_f32 rt) (rt_v_f32 rt) (blit (j * K) kq (rt_k_q8 rt)) (blit (j * K) vq (rt_v_q8 rt))
          (blit (j * H) (?sc k) (rt_k_scale rt)) (blit (j * H) (?sc v) (rt_v_scale rt)) rt)"
      if q: "?qs k = Some kq" "?qs v = Some vq" for kq vq
    proof -
      have lq: "length kq = K" "length vq = K" using q K by (auto dest!: those_length)
      let ?rt = "put_cache (rt_k_f32 rt) (rt_v_f32 rt) (blit (j * K) kq (rt_k_q8 rt)) (blit (j * K) vq (rt_v_q8 rt))
          (blit (j * H) (?sc k) (rt_k_scale rt)) (blit (j * H) (?sc v) (rt_v_scale rt)) rt"
      show ?thesis
        unfolding slot_written_def
      proof (intro conjI allI impI)
        show "cache_fits ?rt" using lens lq fit False by (simp add: cache_fits_def put_cache_def Let_def D)
        fix l' t' assume t: "l' < nat (m_n_layers (rt_m rt))" "t' < nat (rt_max_seq rt)"
        then have j': "l' * S + t' < L * S" "t' < S" using slot_less unfolding D by auto
        show "rt_cells ?rt l' t' = (if l' = l \<and> t' = pos then (KvInt8 (?sc k) kq, KvInt8 (?sc v) vq) else rt_cells rt l' t')"
          using cell_of_int8 [OF j j'(1) False lens(1) lq(1) lens(3), of "?sc k"]
            cell_of_int8 [OF j j'(1) False lens(2) lq(2) lens(4), of "?sc v"] same [OF j'(2)]
          by (simp add: rt_cells_def Let_def D put_cache_def)
      qed blast
    qed
    then show ?thesis unfolding D mk st by (simp split: option.splits)
  qed
qed

lemma block_block: "h * hs + hs \<le> K \<Longrightarrow> block hs h (block K j xs) = take hs (drop (j * K + h * hs) xs)"
  by (simp add: block_def drop_take min_absorb1 add.commute)

lemma take_map2: "take n (map2 f xs ys) = map2 f (take n xs) (take n ys)"
  by (simp add: take_map take_zip)

lemma dot_k_value:
  assumes fits: "cache_fits rt" and l: "l < nat (m_n_layers (rt_m rt))" and t: "t < nat (rt_max_seq rt)"
    and d: "nat (m_kv_dim (rt_m rt)) = nat (m_n_kv_heads (rt_m rt)) * hs" "nat (m_head_size (rt_m rt)) = hs"
    and h: "h < nat (m_n_kv_heads (rt_m rt))" and q: "hs \<le> length q"
  shows "tq_kv_dot_k rt l t h q = cell_dot hs h (take hs q) (fst (rt_cells rt l t))"
proof -
  define H S L K where "H = nat (m_n_kv_heads (rt_m rt))" and "S = nat (rt_max_seq rt)"
    and "L = nat (m_n_layers (rt_m rt))" and "K = nat (m_kv_dim (rt_m rt))"
  note D = H_def [symmetric] S_def [symmetric] L_def [symmetric] K_def [symmetric]
  define j where "j = l * S + t"
  have j: "j < L * S" using slot_less l t unfolding j_def D by blast
  have K: "K = H * hs" using d(1) unfolding D .
  have hK: "h * hs + hs \<le> K" using block_fits [of h H hs "replicate K ()"] h K unfolding D by simp
  have fit: "j * K + K \<le> L * S * K" "j * H + H \<le> L * S * H"
    using block_fits [OF j, of K "replicate (L * S * K) ()"] block_fits [OF j, of H "replicate (L * S * H) ()"] by simp_all
  have idx: "kv_index rt l t + h * hs = j * K + h * hs" "kv_sindex rt l t + h = j * H + h"
    by (simp_all add: kv_index_def kv_sindex_def j_def D)
  have s: "foldl (\<lambda>s i. f32_add s (g (q ! i) (xs ! (j * K + h * hs + i)))) 0 [0..<hs]
      = foldl f32_add 0 (map2 g (take hs q) (block hs h (block K j xs)))" if "length xs = L * S * K" for g and xs :: "'b list"
    using foldl_nth2 [of hs q "drop (j * K + h * hs) xs" f32_add g 0] q fit hK that
    by (simp add: block_block [OF hK] add.assoc)
  show ?thesis
  proof (cases "rt_kv_dtype rt = TQ_KV_F32")
    case True
    then have "length (rt_k_f32 rt) = L * S * K" using fits by (simp add: cache_fits_def Let_def D)
    then show ?thesis using s [of "rt_k_f32 rt" f32_mul] True
      by (simp add: tq_kv_dot_k_def Let_def d(2) idx rt_cells_def cell_of_def D j_def [symmetric])
  next
    case False
    then have x: "length (rt_k_q8 rt) = L * S * K" "length (rt_k_scale rt) = L * S * H"
      using fits by (simp_all add: cache_fits_def Let_def D)
    have "block H j (rt_k_scale rt) ! h = rt_k_scale rt ! (j * H + h)"
      using block_nth [OF j, of H "rt_k_scale rt" h] x h unfolding D by simp
    then show ?thesis using s [OF x(1), of "\<lambda>a b. f32_mul a (f32_of_int (sint b))"] False
      by (simp add: tq_kv_dot_k_def Let_def d(2) idx rt_cells_def cell_of_def D j_def [symmetric])
  qed
qed

lemma acc_v_value:
  assumes fits: "cache_fits rt" and l: "l < nat (m_n_layers (rt_m rt))" and t: "t < nat (rt_max_seq rt)"
    and d: "nat (m_kv_dim (rt_m rt)) = nat (m_n_kv_heads (rt_m rt)) * hs" "nat (m_head_size (rt_m rt)) = hs"
    and h: "h < nat (m_n_kv_heads (rt_m rt))" and q: "hs \<le> length out"
  shows "tq_kv_acc_v rt l t h a out = map2 f32_add (take hs out) (cell_scaled hs h a (snd (rt_cells rt l t))) @ drop hs out"
proof -
  define H S L K where "H = nat (m_n_kv_heads (rt_m rt))" and "S = nat (rt_max_seq rt)"
    and "L = nat (m_n_layers (rt_m rt))" and "K = nat (m_kv_dim (rt_m rt))"
  note D = H_def [symmetric] S_def [symmetric] L_def [symmetric] K_def [symmetric]
  define j where "j = l * S + t"
  have j: "j < L * S" using slot_less l t unfolding j_def D by blast
  have K: "K = H * hs" using d(1) unfolding D .
  have hK: "h * hs + hs \<le> K" using block_fits [of h H hs "replicate K ()"] h K unfolding D by simp
  have fit: "j * K + K \<le> L * S * K" "j * H + H \<le> L * S * H"
    using block_fits [OF j, of K "replicate (L * S * K) ()"] block_fits [OF j, of H "replicate (L * S * H) ()"] by simp_all
  have idx: "kv_index rt l t + h * hs = j * K + h * hs" "kv_sindex rt l t + h = j * H + h"
    by (simp_all add: kv_index_def kv_sindex_def j_def D)
  have s: "foldl (\<lambda>out i. out[i := f32_add (out ! i) (g (xs ! (j * K + h * hs + i)))]) out [0..<hs]
      = map2 f32_add (take hs out) (map g (block hs h (block K j xs))) @ drop hs out"
    if "length xs = L * S * K" for g and xs :: "'b list"
  proof -
    have "map (\<lambda>i. f32_add (out ! i) (g (xs ! (j * K + h * hs + i)))) [0..<hs]
        = map2 f32_add (take hs out) (map g (block hs h (block K j xs)))"
      unfolding block_block [OF hK] using q fit hK that by (intro nth_equalityI) simp_all
    moreover have "length (block hs h (block K j xs)) = hs" unfolding block_block [OF hK] using fit hK that by simp
    ultimately show ?thesis using foldl_map_at [of hs out "\<lambda>i v. f32_add v (g (xs ! (j * K + h * hs + i)))"] q
      by (simp add: blit_def)
  qed
  show ?thesis
  proof (cases "rt_kv_dtype rt = TQ_KV_F32")
    case True
    then have "length (rt_v_f32 rt) = L * S * K" using fits by (simp add: cache_fits_def Let_def D)
    then show ?thesis using s [of "rt_v_f32 rt" "f32_mul a"] True
      by (simp add: tq_kv_acc_v_def Let_def d(2) idx rt_cells_def cell_of_def D j_def [symmetric])
  next
    case False
    then have x: "length (rt_v_q8 rt) = L * S * K" "length (rt_v_scale rt) = L * S * H"
      using fits by (simp_all add: cache_fits_def Let_def D)
    have sc: "block H j (rt_v_scale rt) ! h = rt_v_scale rt ! (j * H + h)"
      using block_nth [OF j, of H "rt_v_scale rt" h] x h unfolding D by simp
    show ?thesis
      using s [OF x(1), of "\<lambda>b. f32_mul (f32_mul a (rt_v_scale rt ! (j * H + h))) (f32_of_int (sint b))"] False sc
      by (simp add: tq_kv_acc_v_def Let_def d(2) idx rt_cells_def cell_of_def D j_def [symmetric])
  qed
qed

section \<open>Attention\<close>

lemma cell_scaled_length:
  assumes fits: "cache_fits rt" and l: "l < nat (m_n_layers (rt_m rt))" and t: "t < nat (rt_max_seq rt)"
    and d: "nat (m_kv_dim (rt_m rt)) = nat (m_n_kv_heads (rt_m rt)) * hs" and h: "h < nat (m_n_kv_heads (rt_m rt))"
  shows "length (cell_scaled hs h a (snd (rt_cells rt l t))) = hs"
proof -
  define j where "j = l * nat (rt_max_seq rt) + t"
  have j: "j < nat (m_n_layers (rt_m rt)) * nat (rt_max_seq rt)" using slot_less [OF l t] by (simp add: j_def)
  have b: "length (block hs h (block (nat (m_kv_dim (rt_m rt))) j xs)) = hs"
    if "length xs = nat (m_n_layers (rt_m rt)) * nat (rt_max_seq rt) * nat (m_kv_dim (rt_m rt))" for xs :: "'b list"
    using block_length [OF h, of hs "block (nat (m_kv_dim (rt_m rt))) j xs"]
      block_length [OF j, of "nat (m_kv_dim (rt_m rt))" xs] that d by simp
  show ?thesis
  proof (cases "rt_kv_dtype rt = TQ_KV_F32")
    case True
    then show ?thesis using fits b [of "rt_v_f32 rt"] by (simp add: cache_fits_def rt_cells_def cell_of_def Let_def j_def)
  next
    case False
    then show ?thesis using fits b [of "rt_v_q8 rt"] by (simp add: cache_fits_def rt_cells_def cell_of_def Let_def j_def)
  qed
qed

text \<open>The part of the runtime that one head touches.\<close>

definition put_head :: "f32 list \<Rightarrow> f32 list \<Rightarrow> 'c tq_runtime \<Rightarrow> 'c tq_runtime" where
  "put_head att xb rt = rt\<lparr>rt_att := att, rt_xb := xb\<rparr>"

lemma put_head_simps [simp]:
  "rt_m (put_head att xb rt) = rt_m rt" "rt_max_seq (put_head att xb rt) = rt_max_seq rt"
  "rt_q (put_head att xb rt) = rt_q rt" "rt_att (put_head att xb rt) = att" "rt_xb (put_head att xb rt) = xb"
  "cache_fits (put_head att xb rt) = cache_fits rt" "rt_cells (put_head att xb rt) = rt_cells rt"
  "put_head att xb (put_head att' xb' rt) = put_head att xb rt"
  by (auto simp: put_head_def cache_fits_def rt_cells_def fun_eq_iff)

definition head_ready :: "nat \<Rightarrow> 'c tq_runtime \<Rightarrow> bool" where
  "head_ready hs rt \<longleftrightarrow> cache_fits rt \<and> nat (m_kv_dim (rt_m rt)) = nat (m_n_kv_heads (rt_m rt)) * hs
     \<and> nat (m_head_size (rt_m rt)) = hs \<and> 0 < hs
     \<and> nat (m_n_heads (rt_m rt)) = nat (m_n_kv_heads (rt_m rt)) * nat (m_kv_mul (rt_m rt))
     \<and> length (rt_q rt) = nat (m_n_heads (rt_m rt)) * hs \<and> length (rt_xb rt) = nat (m_n_heads (rt_m rt)) * hs
     \<and> length (rt_att rt) = nat (m_n_heads (rt_m rt)) * nat (rt_max_seq rt)"

lemma foldl_inv:
  assumes "\<And>s x. x \<in> set xs \<Longrightarrow> I s \<Longrightarrow> g (b s) x = b (f s x) \<and> I (f s x)" and "I s"
  shows "foldl g (b s) xs = b (foldl f s xs) \<and> I (foldl f s xs)"
  using assms by (induction xs arbitrary: s) simp_all

lemma fw_head_value:
  assumes r: "head_ready hs rt" and l: "l < nat (m_n_layers (rt_m rt))" and p: "pos < nat (rt_max_seq rt)"
    and h: "h < nat (m_n_heads (rt_m rt))"
  shows "case head_value hs iv (map (rt_cells rt l) [0..<pos + 1]) (h div nat (m_kv_mul (rt_m rt))) (block hs h (rt_q rt)) of
      None \<Rightarrow> fw_head l pos iv rt h = None
    | Some out \<Rightarrow> \<exists>att. fw_head l pos iv rt h = Some (put_head att (blit (h * hs) out (rt_xb rt)) rt)
        \<and> length att = length (rt_att rt) \<and> length out = hs"
proof -
  define S kvh cells q where "S = nat (rt_max_seq rt)" and "kvh = h div nat (m_kv_mul (rt_m rt))"
    and "cells = map (rt_cells rt l) [0..<pos + 1]" and "q = block hs h (rt_q rt)"
  note r = r [unfolded head_ready_def]
  have hs: "nat (m_head_size (rt_m rt)) = hs" using r by blast
  have kvh: "kvh < nat (m_n_kv_heads (rt_m rt))" using h r unfolding kvh_def by (simp add: div_less_iff_less_mult less_mult_imp_div_less)
  have lq: "h * hs + hs \<le> length (rt_q rt)" "h * hs + hs \<le> length (rt_xb rt)" and la: "h * S + S \<le> length (rt_att rt)"
    using block_fits [OF h, of hs "rt_q rt"] block_fits [OF h, of hs "rt_xb rt"]
      block_fits [OF h, of "nat (rt_max_seq rt)" "rt_att rt"] r unfolding S_def by auto
  have p1: "pos + 1 \<le> S" using p unfolding S_def by simp
  have dot: "tq_kv_dot_k rt l t kvh (drop (h * hs) (rt_q rt)) = cell_dot hs kvh q (fst (rt_cells rt l t))" if "t < S" for t
    using dot_k_value [of rt l t hs kvh "drop (h * hs) (rt_q rt)"] r l that kvh lq(1) unfolding S_def q_def block_def by simp
  define scores where "scores = map (\<lambda>(k, v). f32_mul (cell_dot hs kvh q k) iv) cells"
  have sc: "map (\<lambda>t. f32_mul (tq_kv_dot_k rt l t kvh (drop (h * hs) (rt_q rt))) iv) [0..<pos + 1] = scores"
    using dot p1 by (simp add: scores_def cells_def case_prod_beta)
  define att1 where "att1 = blit (h * S) scores (rt_att rt)"
  have a1: "foldl (\<lambda>att t. att[h * S + t := f32_mul (tq_kv_dot_k rt l t kvh (drop (h * hs) (rt_q rt))) iv]) (rt_att rt) [0..<pos + 1] = att1"
    using foldl_blit [of "h * S" "pos + 1" "rt_att rt"] la p1 unfolding att1_def sc [symmetric] by simp
  have ls: "length scores = pos + 1" by (simp add: scores_def cells_def)
  have l1: "length att1 = length (rt_att rt)" using la p1 ls by (simp add: att1_def)
  have t1: "take (pos + 1) (drop (h * S) att1) = scores" using la ls by (simp add: att1_def blit_def)
  have sm: "tq_softmax (drop (h * S) att1) (pos + 1)
      = map_option (\<lambda>ys. ys @ drop (pos + 1) (drop (h * S) att1)) (softmax_value scores)"
    using tq_softmax_value [of "pos + 1" "drop (h * S) att1"] t1 l1 la p1 by simp
  show ?thesis
  proof (cases "softmax_value scores")
    case None
    have "fw_head l pos iv rt h = None"
      unfolding fw_head_def Let_def hs S_def [symmetric] kvh_def [symmetric] a1 sm None by simp
    moreover have "head_value hs iv cells kvh q = None"
      unfolding head_value_def scores_def [symmetric] None by simp
    ultimately show ?thesis unfolding cells_def [symmetric] kvh_def [symmetric] q_def [symmetric] by simp
  next
    case (Some ys)
    then have ly: "length ys = pos + 1" using softmax_value_length ls by fastforce
    let ?a = "ys @ drop (pos + 1) (drop (h * S) att1)"
    let ?f = "\<lambda>out (a, k, v). map2 f32_add out (cell_scaled hs kvh a v)"
    define xb where "xb = foldl ?f (replicate hs 0) (zip ys cells)"
    have z: "zip ys cells ! t = (ys ! t, rt_cells rt l t)" if "t < pos + 1" for t
      using that ly by (simp add: cells_def del: upt_Suc)
    have fz: "foldl (\<lambda>out t. ?f out (zip ys cells ! t)) (replicate hs 0) [0..<pos + 1] = xb"
      using foldl_nth [of "pos + 1" "zip ys cells" ?f] ly by (simp add: xb_def cells_def)
    have step: "take (h * hs) (blit (h * hs) out (rt_xb rt)) @ tq_kv_acc_v rt l t kvh (?a ! t) (drop (h * hs) (blit (h * hs) out (rt_xb rt)))
        = blit (h * hs) (?f out (zip ys cells ! t)) (rt_xb rt) \<and> length (?f out (zip ys cells ! t)) = hs"
      if t: "t \<in> set [0..<pos + 1]" and o: "length out = hs" for out t
    proof -
      have tS: "t < S" "t < pos + 1" using t p1 by auto
      have d: "drop (h * hs) (blit (h * hs) out (rt_xb rt)) = out @ drop (h * hs + hs) (rt_xb rt)"
        and tk: "take (h * hs) (blit (h * hs) out (rt_xb rt)) = take (h * hs) (rt_xb rt)"
        using o lq(2) by (simp_all add: blit_def)
      have ln: "length (cell_scaled hs kvh a (snd (rt_cells rt l t))) = hs" for a
        using cell_scaled_length [of rt l t hs kvh a] r l tS kvh unfolding S_def by blast
      have "tq_kv_acc_v rt l t kvh (ys ! t) (out @ drop (h * hs + hs) (rt_xb rt))
          = map2 f32_add out (cell_scaled hs kvh (ys ! t) (snd (rt_cells rt l t))) @ drop (h * hs + hs) (rt_xb rt)"
        using acc_v_value [of rt l t hs kvh "out @ drop (h * hs + hs) (rt_xb rt)" "ys ! t"] r l tS kvh o unfolding S_def by simp
      moreover have "?a ! t = ys ! t" using tS ly by (simp add: nth_append)
      ultimately show ?thesis unfolding d tk z [OF tS(2)] using o ln by (simp add: blit_def case_prod_beta)
    qed
    have x: "foldl (\<lambda>xb t. take (h * hs) xb @ tq_kv_acc_v rt l t kvh (?a ! t) (drop (h * hs) xb))
        (blit (h * hs) (replicate hs 0) (rt_xb rt)) [0..<pos + 1] = blit (h * hs) xb (rt_xb rt) \<and> length xb = hs"
      using foldl_inv [where b = "\<lambda>out. blit (h * hs) out (rt_xb rt)" and I = "\<lambda>out. length out = hs" and s = "replicate hs 0"
          and f = "\<lambda>out t. ?f out (zip ys cells ! t)" and xs = "[0..<pos + 1]"
          and g = "\<lambda>xb t. take (h * hs) xb @ tq_kv_acc_v rt l t kvh (?a ! t) (drop (h * hs) xb)"] step
      unfolding fz by simp
    have hv: "head_value hs iv cells kvh q = Some xb"
      using Some by (simp add: head_value_def scores_def [symmetric] xb_def)
    have "fw_head l pos iv rt h = Some (put_head (take (h * S) att1 @ ?a) (blit (h * hs) xb (rt_xb rt)) rt)"
      unfolding fw_head_def Let_def hs S_def [symmetric] kvh_def [symmetric] a1 sm Some option.map option.case
      using x by (simp add: put_head_def)
    moreover have "length (take (h * S) att1 @ ?a) = length (rt_att rt)" using l1 la ly p1 by simp
    ultimately show ?thesis unfolding cells_def [symmetric] kvh_def [symmetric] q_def [symmetric] hv using x by auto
  qed
qed

lemma concat_length: "\<forall>x \<in> set xs. length x = n \<Longrightarrow> length (concat xs) = length xs * n"
  by (induction xs) simp_all

lemma fw_attention_value:
  assumes r: "head_ready hs rt" and l: "l < nat (m_n_layers (rt_m rt))" and p: "pos < nat (rt_max_seq rt)"
  shows "case attention_value (rt_m rt) iv (map (rt_cells rt l) [0..<pos + 1]) (rt_q rt) of
      None \<Rightarrow> fw_attention l pos iv rt = None
    | Some xb \<Rightarrow> \<exists>att. fw_attention l pos iv rt = Some (put_head att xb rt)
        \<and> length att = length (rt_att rt) \<and> length xb = nat (m_n_heads (rt_m rt)) * hs"
proof -
  let ?hv = "\<lambda>h. head_value hs iv (map (rt_cells rt l) [0..<pos + 1]) (h div nat (m_kv_mul (rt_m rt))) (block hs h (rt_q rt))"
  let ?H = "nat (m_n_heads (rt_m rt))"
  have hs: "nat (m_head_size (rt_m rt)) = hs" using r by (simp add: head_ready_def)
  have main: "case those (map ?hv [0..<k]) of
      None \<Rightarrow> run_steps (fw_head l pos iv) [0..<k] rt = None
    | Some os \<Rightarrow> \<exists>att. run_steps (fw_head l pos iv) [0..<k] rt = Some (put_head att (blit 0 (concat os) (rt_xb rt)) rt)
        \<and> length att = length (rt_att rt) \<and> length (concat os) = k * hs" if "k \<le> ?H" for k
    using that
  proof (induction k)
    case 0
    have "put_head (rt_att rt) (rt_xb rt) rt = rt" by (simp add: put_head_def)
    then show ?case by (auto intro!: exI [of _ "rt_att rt"])
  next
    case (Suc k)
    then have k: "k < ?H" by simp
    show ?case
    proof (cases "those (map ?hv [0..<k])")
      case None
      then show ?thesis using Suc by (simp add: run_steps_append those_snoc)
    next
      case (Some os)
      then obtain att where a: "run_steps (fw_head l pos iv) [0..<k] rt = Some (put_head att (blit 0 (concat os) (rt_xb rt)) rt)"
        "length att = length (rt_att rt)" "length (concat os) = k * hs"
        using Suc by auto
      let ?rt = "put_head att (blit 0 (concat os) (rt_xb rt)) rt"
      have lx: "k * hs + hs \<le> length (rt_xb rt)" using block_fits [OF k, of hs "rt_xb rt"] r by (simp add: head_ready_def)
      have "0 + length (concat os) \<le> length (rt_xb rt)" unfolding a(3) using lx by simp
      then have "length (blit 0 (concat os) (rt_xb rt)) = length (rt_xb rt)" by (rule blit_length)
      then have "head_ready hs ?rt" using r a(2) by (simp add: head_ready_def)
      from fw_head_value [OF this, of l pos k iv] l p k
      have v: "case ?hv k of None \<Rightarrow> fw_head l pos iv ?rt k = None
        | Some out \<Rightarrow> \<exists>att'. fw_head l pos iv ?rt k = Some (put_head att' (blit (k * hs) out (blit 0 (concat os) (rt_xb rt))) rt)
            \<and> length att' = length (rt_att rt) \<and> length out = hs"
        using a(2) by (simp del: upt_Suc cong: option.case_cong)
      have b: "blit (k * hs) out (blit 0 (concat os) (rt_xb rt)) = blit 0 (concat (os @ [out])) (rt_xb rt)"
        if "length out = hs" for out
        using blit_append [of 0 "concat os" out "rt_xb rt"] a(3) lx that by simp
      show ?thesis
        using v b a(1,3) Some by (cases "?hv k") (auto simp: run_steps_append those_snoc)
    qed
  qed
  have full: "blit 0 xs (rt_xb rt) = xs" if "length xs = ?H * hs" for xs
    using that r by (simp add: blit_all head_ready_def)
  from main [OF order_refl] show ?thesis
    unfolding attention_value_def hs fw_attention_def using full
    by (cases "those (map ?hv [0..<?H])") auto
qed

end
