(* ===== verification/Tq_Blank.thy ===== *)
theory Tq_Blank imports Tq_Vectors begin

text \<open>
  A model that runs to the end, for the concrete instances of the theorems: one layer of 32
  heads of size 1 over an image of zeros, with a vocabulary of five and the epsilon 1. Every
  activation of the reference transformer is zero, the attention is uniform and the logits are
  flat (\<open>blank_forward\<close>). The proof evaluates every operation that occurs, the exponential
  included; sums with a zero go through \<open>f64_add_zero\<close>, which spares the alignment.
\<close>

section \<open>The model\<close>

definition blank_model :: tq_model where
  "blank_model = zero_model
     \<lparr>m_hdr := zero_header\<lparr>h_norm_eps := 0x3F800000, h_eos_token := 3\<rparr>, m_dim := 32, m_hidden_dim := 32, m_n_layers := 1, m_n_heads := 32,
      m_n_kv_heads := 1, m_vocab_size := 5, m_seq_len := 4, m_head_size := 1, m_kv_dim := 1, m_kv_mul := 32,
      m_qtype := TQ_DT_Q8_0, m_layers := [no_offsets]\<rparr>"

definition blank_image :: "u8 list" where
  "blank_image = replicate 2048 0"

section \<open>Operations on zeros\<close>

named_theorems blank

lemma f64_zero_bits [blank]:
  "f32_mul 0 0 = 0" "f32_add 0 0 = 0" "f32_sub 0 0 = 0" "f32_mul 0x3F800000 0 = 0" "f32_mul 0 0x3F800000 = 0"
  "f32_neg 0 = 0x80000000" "f32_of_int 0 = 0" "f32_of_int 1 = 0x3F800000" "\<not> f32_lt 0 0"
  "f32_add 0 0x3F800000 = 0x3F800000" "f32_div 0x3F800000 0x3F800000 = 0x3F800000" "f32_mul 0x3F800000 0x3F800000 = 0x3F800000"
  "f32_add 0x3F800000 0x3F800000 = 0x40000000" "f32_div 0x3F800000 0x40000000 = 0x3F000000" "f32_mul 0x3F800000 0x3F000000 = 0x3F000000"
  "f32_mul 0x3F000000 0 = 0" "f32_div 0 0x40000000 = 0" "f32_sqrt 0x3F800000 = 0x3F800000" "tq_half_to_float 0 = 0"
  "f32_div 0 (f32_of_int 32) = 0"
  by code_simp+

lemma exp2_consts:
  "TQ_LOG2E = 0x3FF71547652B82FE" "TQ_LN2 = 0x3FE62E42FEFA39EF"
  "f64_ratio 1 3628800 = 4508805057796939612" "f64_ratio 1 362880 = 4523617214285662004" "f64_ratio 1 40320 = 4537941361671905306"
  "f64_ratio 1 5040 = 4551452160554016794" "f64_ratio 1 720 = 4564047942368979991" "f64_ratio 1 120 = 4575957461383581969"
  "f64_ratio 1 24 = 4586165620538955093" "f64_ratio 1 6 = 4595172819793696085" "f64_ratio 1 2 = 4602678819172646912"
  "f64_of_int 1 = 4607182418800017408"
  by code_simp+

text \<open>Adding to a zero is exact: no alignment is evaluated.\<close>

lemma f64_add_zero:
  assumes "f64_decode z = FFin s 0 (- 1074)" and "f64_decode c = FFin False n f" and "0 < n" and "- 1074 \<le> f"
  shows "f64_add z c = f64_encode (FFin False n f)"
proof -
  have v: "0 < n * 2 ^ nat (f + 1074)" using assms(3) by simp
  have "(2 :: real) ^ nat (f + 1074) = 2 powr of_int (f + 1074)"
    using assms(4) powr_realpow [of 2 "nat (f + 1074)"] by simp
  moreover have "2 powr of_int (f + 1074) * 2 powr of_int (- 1074) = (2 :: real) powr of_int f"
    unfolding powr_add [symmetric] by simp
  ultimately have "real_of_int (n * 2 ^ nat (f + 1074)) * 2 powr of_int (- 1074) = of_int n * 2 powr of_int f"
    by (simp only: of_int_mult of_int_power of_int_numeral mult.assoc)
  then have "fl_mag 52 11 (n * 2 ^ nat (f + 1074)) (- 1074) = fl_mag 52 11 n f"
    using assms(3) v by (simp only: fl_mag_real less_imp_le)
  moreover have "\<not> n * 2 ^ nat (f + 1074) < 0" "n * 2 ^ nat (f + 1074) \<noteq> 0" "\<bar>n * 2 ^ nat (f + 1074)\<bar> = n * 2 ^ nat (f + 1074)"
    using v by linarith+
  ultimately show ?thesis
    using assms by (simp add: f64_add_def f64_encode_def fl_encode_def sgn_int_def Let_def)
qed

lemma f64_zeros: "f64_decode 0 = FFin False 0 (- 1074)" "f64_decode 0x8000000000000000 = FFin True 0 (- 1074)"
  by code_simp+

lemma exp2_coefficient_vals:
  "f64_decode 4523617214285662004 = FFin False 6506788033054516 (- 71)" "f64_encode (FFin False 6506788033054516 (- 71)) = 4523617214285662004"
  "f64_decode 4537941361671905306 = FFin False 7320136537186330 (- 68)" "f64_encode (FFin False 7320136537186330 (- 68)) = 4537941361671905306"
  "f64_decode 4551452160554016794 = FFin False 7320136537186330 (- 65)" "f64_encode (FFin False 7320136537186330 (- 65)) = 4551452160554016794"
  "f64_decode 4564047942368979991 = FFin False 6405119470038039 (- 62)" "f64_encode (FFin False 6405119470038039 (- 62)) = 4564047942368979991"
  "f64_decode 4575957461383581969 = FFin False 4803839602528529 (- 59)" "f64_encode (FFin False 4803839602528529 (- 59)) = 4575957461383581969"
  "f64_decode 4586165620538955093 = FFin False 6004799503160661 (- 57)" "f64_encode (FFin False 6004799503160661 (- 57)) = 4586165620538955093"
  "f64_decode 4595172819793696085 = FFin False 6004799503160661 (- 55)" "f64_encode (FFin False 6004799503160661 (- 55)) = 4595172819793696085"
  "f64_decode 4602678819172646912 = FFin False 4503599627370496 (- 53)" "f64_encode (FFin False 4503599627370496 (- 53)) = 4602678819172646912"
  "f64_decode 4607182418800017408 = FFin False 4503599627370496 (- 52)" "f64_encode (FFin False 4503599627370496 (- 52)) = 4607182418800017408"
  by code_simp+

lemma exp2_sums:
  "f64_add 0 4523617214285662004 = 4523617214285662004"
  "f64_add 0 4537941361671905306 = 4537941361671905306"
  "f64_add 0 4551452160554016794 = 4551452160554016794"
  "f64_add 0 4564047942368979991 = 4564047942368979991"
  "f64_add 0 4575957461383581969 = 4575957461383581969"
  "f64_add 0 4586165620538955093 = 4586165620538955093"
  "f64_add 0 4595172819793696085 = 4595172819793696085"
  "f64_add 0 4602678819172646912 = 4602678819172646912"
  "f64_add 0 4607182418800017408 = 4607182418800017408"
  "f64_add 0x8000000000000000 4523617214285662004 = 4523617214285662004"
  "f64_add 0x8000000000000000 4537941361671905306 = 4537941361671905306"
  "f64_add 0x8000000000000000 4551452160554016794 = 4551452160554016794"
  "f64_add 0x8000000000000000 4564047942368979991 = 4564047942368979991"
  "f64_add 0x8000000000000000 4575957461383581969 = 4575957461383581969"
  "f64_add 0x8000000000000000 4586165620538955093 = 4586165620538955093"
  "f64_add 0x8000000000000000 4595172819793696085 = 4595172819793696085"
  "f64_add 0x8000000000000000 4602678819172646912 = 4602678819172646912"
  "f64_add 0x8000000000000000 4607182418800017408 = 4607182418800017408"
  by (simp_all add: f64_add_zero [OF f64_zeros(1)] f64_add_zero [OF f64_zeros(2)] exp2_coefficient_vals)

lemma exp2_products:
  "f64_mul 4508805057796939612 0 = 0"
  "f64_mul 4523617214285662004 0 = 0"
  "f64_mul 4537941361671905306 0 = 0"
  "f64_mul 4551452160554016794 0 = 0"
  "f64_mul 4564047942368979991 0 = 0"
  "f64_mul 4575957461383581969 0 = 0"
  "f64_mul 4586165620538955093 0 = 0"
  "f64_mul 4595172819793696085 0 = 0"
  "f64_mul 4602678819172646912 0 = 0"
  "f64_mul 4607182418800017408 0 = 0"
  "f64_mul 4508805057796939612 0x8000000000000000 = 0x8000000000000000"
  "f64_mul 4523617214285662004 0x8000000000000000 = 0x8000000000000000"
  "f64_mul 4537941361671905306 0x8000000000000000 = 0x8000000000000000"
  "f64_mul 4551452160554016794 0x8000000000000000 = 0x8000000000000000"
  "f64_mul 4564047942368979991 0x8000000000000000 = 0x8000000000000000"
  "f64_mul 4575957461383581969 0x8000000000000000 = 0x8000000000000000"
  "f64_mul 4586165620538955093 0x8000000000000000 = 0x8000000000000000"
  "f64_mul 4595172819793696085 0x8000000000000000 = 0x8000000000000000"
  "f64_mul 4602678819172646912 0x8000000000000000 = 0x8000000000000000"
  "f64_mul 4607182418800017408 0x8000000000000000 = 0x8000000000000000"
  by code_simp+

lemma exp2_series_zeros: "exp2_series 0 = 4607182418800017408" "exp2_series 0x8000000000000000 = 4607182418800017408"
  unfolding exp2_series_def exp2_consts foldl.simps horner_step_def exp2_products exp2_sums by (rule refl)+

lemma expf_zero [blank]: "tq_expf 0 = Some 0x3F800000" "tq_expf 0x80000000 = Some 0x3F800000"
proof -
  have z: "f64_mul (f64_of_f32 0) TQ_LOG2E = 0" "f64_mul (f64_of_f32 0x80000000) TQ_LOG2E = 0x8000000000000000"
    unfolding exp2_consts by code_simp+
  have c: "\<not> f64_lt (f64_of_int 1024) 0" "\<not> f64_lt 0 (f64_of_int (- 1075))" "round_away 0 0 = Some 0" "f64_sub 0 (f64_of_int 0) = 0"
    "\<not> f64_lt (f64_of_int 1024) 0x8000000000000000" "\<not> f64_lt 0x8000000000000000 (f64_of_int (- 1075))"
    "round_away 0x8000000000000000 0x8000000000000000 = Some 0" "f64_sub 0x8000000000000000 (f64_of_int 0) = 0x8000000000000000"
    "tq_ldexp2 4607182418800017408 0 = 4607182418800017408" "f32_of_f64 4607182418800017408 = 0x3F800000"
    by code_simp+
  have m: "f64_mul 0 TQ_LN2 = 0" "f64_mul 0x8000000000000000 TQ_LN2 = 0x8000000000000000" unfolding exp2_consts by code_simp+
  show "tq_expf 0 = Some 0x3F800000" "tq_expf 0x80000000 = Some 0x3F800000"
    unfolding tq_expf_def tq_exp2_def z Let_def by (simp_all add: c m exp2_series_zeros)
qed

section \<open>Vectors of zeros\<close>

abbreviation zs :: "nat \<Rightarrow> f32 list" where "zs n \<equiv> replicate n 0"

definition zero_block :: tq_block_q80 where
  "zero_block = \<lparr>q80_d = 0, q80_qs = replicate 32 0\<rparr>"

lemma foldl_replicate: "f a x = a \<Longrightarrow> foldl f a (replicate n x) = a"
  by (induction n) simp_all

lemma those_replicate: "those (replicate n (Some x)) = Some (replicate n x)"
  by (induction n) simp_all

lemma map2_replicate [simp]: "map2 f (replicate n x) (replicate n y) = replicate n (f x y)"
  by (simp add: zip_replicate)

lemma map_upt_same: "(\<And>i. i < n \<Longrightarrow> f i = c) \<Longrightarrow> map f [0..<n] = replicate n c"
  by (auto intro!: nth_equalityI)

lemma blank_bytes: "off < 2048 \<Longrightarrow> blank_image ! off = 0"
  by (simp add: blank_image_def)

lemma blank_floats: "unat off + 4 * n \<le> 2048 \<Longrightarrow> vec_at blank_image off n = zs n"
  unfolding vec_at_def by (rule map_upt_same) (simp add: le32_def blank_bytes)

lemma blank_row:
  assumes "off + 34 \<le> 2048"
  shows "row_value TQ_DT_Q8_0 blank_image off [zero_block] 1 = 0"
proof -
  let ?w = "q80_at (drop off blank_image) 0"
  have b: "blank_image ! (off + i) = 0" if "i < 34" for i using assms that by (intro blank_bytes) simp
  have w: "?w = zero_block"
    using assms b unfolding q80_at_def zero_block_def
    by (auto simp: le16_def blank_image_def intro!: map_upt_same)
  have "foldl (\<lambda>acc j. acc + sint (q80_qs zero_block ! j) * sint (q80_qs zero_block ! j)) 0 [0..<32] = 0"
    by (simp add: zero_block_def upt_rec)
  then have a: "q80_acc zero_block zero_block = 0" by (simp add: q80_acc_def TQ_GROUP_SIZE_def)
  have "TQ_DT_Q8_0 \<noteq> TQ_DT_Q4_0" by (simp add: dtypes)
  then show ?thesis
    using w by (simp add: row_value_def tq_dot_q80_q80_def dot_fold_def a f64_zero_bits) (simp add: zero_block_def f64_zero_bits)
qed

lemma blank_mat: "unat off + d * 34 \<le> 2048 \<Longrightarrow> mat_value blank_image TQ_DT_Q8_0 off 32 d [zero_block] = zs d"
proof -
  assume a: "unat off + d * 34 \<le> 2048"
  have b: "block_bytes TQ_DT_Q8_0 = 34" by (simp add: block_bytes_def dtypes)
  show ?thesis unfolding mat_value_def b
  proof (rule map_upt_same)
    fix i assume "i < d"
    then have "unat off + i * 34 + 34 \<le> 2048" using a by simp
    then show "row_value TQ_DT_Q8_0 blank_image (unat off + i * (32 div 32 * 34)) [zero_block] (32 div 32) = 0"
      using blank_row by simp
  qed
qed

lemma blank_rms: "rms_value 0x3F800000 (zs 32) (zs 32) = zs 32"
proof -
  have "foldl (\<lambda>s a. f32_add s (f32_mul a a)) 0 (zs 32) = 0" by (rule foldl_replicate) (simp add: f64_zero_bits)
  then show ?thesis by (simp add: rms_value_def f64_zero_bits Let_def)
qed

lemma quantize_zero: "quantize_value 0 0 = Some 0" "tq_float_to_half (f32_div 0 (f32_dec 127 0)) = 0" "f32_eq 0 0"
  by code_simp+

lemma blank_quantize: "tq_quantize_q8 (zs 32) 32 = Some [zero_block]"
proof -
  have "block_amax (zs 32) = 0" unfolding block_amax_def by (rule foldl_replicate) (simp add: f64_zero_bits Let_def)
  moreover have "those (map (\<lambda>j. quantize_value (zs 32 ! j) 0) [0..<32]) = Some (replicate 32 0)"
    by (subst map_upt_same [of 32 _ "Some 0"]) (simp_all add: quantize_zero those_replicate)
  ultimately have "quantize_block (zs 32) = Some zero_block"
    by (simp add: quantize_block_def Let_def quantize_zero f64_zero_bits TQ_GROUP_SIZE_def zero_block_def)
  then show ?thesis by (simp add: tq_quantize_q8_def TQ_GROUP_SIZE_def)
qed

lemma blank_rope: "rope_value [] 1 (zs n) = zs n"
  unfolding rope_value_def by (simp add: map_upt_same [of n _ 0])

definition zero_cell :: kv_cell where
  "zero_cell = KvFloat [0]"

lemma blank_cell: "make_cell TQ_KV_F32 1 1 (zs 1) = Some zero_cell"
  by (simp add: make_cell_def zero_cell_def)

lemma flat_constants:
  "f32_add 0x3F800000 0x3F800000 = 0x40000000" "f32_div 0x3F800000 0x40000000 = 0x3F000000" "f32_mul 0x3F800000 0x3F000000 = 0x3F000000"
  "f32_div (f32_of_int 1) (f32_sqrt (f32_of_int 1)) = 0x3F800000" "f32_add 0 0x80000000 = 0" "f32_mul 0 0x80000000 = 0x80000000"
  by code_simp+

text \<open>The weights \<open>1 / n\<close> of \<open>n\<close> equal scores.\<close>

lemma flat_sums:
  "f32_add 0x3F800000 0x3F800000 = 0x40000000"
  "f32_add 0x40000000 0x3F800000 = 0x40400000"
  "f32_add 0x40400000 0x3F800000 = 0x40800000"
  "f32_add 0x40800000 0x3F800000 = 0x40A00000"
  "f32_add 0x40A00000 0x3F800000 = 0x40C00000"
  "f32_add 0x40C00000 0x3F800000 = 0x40E00000"
  "f32_add 0x40E00000 0x3F800000 = 0x41000000"
  by code_simp+

lemma flat_weights:
  "f32_div 0x3F800000 0x3F800000 = 0x3F800000" "f32_mul 0x3F800000 0x3F800000 = 0x3F800000" "f32_mul 0x3F800000 0 = 0"
  "f32_div 0x3F800000 0x40000000 = 0x3F000000" "f32_mul 0x3F800000 0x3F000000 = 0x3F000000" "f32_mul 0x3F000000 0 = 0"
  "f32_div 0x3F800000 0x40400000 = 0x3EAAAAAB" "f32_mul 0x3F800000 0x3EAAAAAB = 0x3EAAAAAB" "f32_mul 0x3EAAAAAB 0 = 0"
  "f32_div 0x3F800000 0x40800000 = 0x3E800000" "f32_mul 0x3F800000 0x3E800000 = 0x3E800000" "f32_mul 0x3E800000 0 = 0"
  "f32_div 0x3F800000 0x40A00000 = 0x3E4CCCCD" "f32_mul 0x3F800000 0x3E4CCCCD = 0x3E4CCCCD" "f32_mul 0x3E4CCCCD 0 = 0"
  "f32_div 0x3F800000 0x40C00000 = 0x3E2AAAAB" "f32_mul 0x3F800000 0x3E2AAAAB = 0x3E2AAAAB" "f32_mul 0x3E2AAAAB 0 = 0"
  "f32_div 0x3F800000 0x40E00000 = 0x3E124925" "f32_mul 0x3F800000 0x3E124925 = 0x3E124925" "f32_mul 0x3E124925 0 = 0"
  "f32_div 0x3F800000 0x41000000 = 0x3E000000" "f32_mul 0x3F800000 0x3E000000 = 0x3E000000" "f32_mul 0x3E000000 0 = 0"
  by code_simp+

text \<open>Attention over up to eight positions of zeros.\<close>

lemma blank_head:
  assumes "0 < n" and "n \<le> 8"
  shows "head_value 1 0x3F800000 (replicate n (zero_cell, zero_cell)) 0 [0] = Some [0]"
proof -
  have d: "cell_dot (Suc 0) 0 [0] zero_cell = 0" by (simp add: zero_cell_def block_def f64_zero_bits)
  have s: "cell_scaled (Suc 0) 0 a zero_cell = [f32_mul a 0]" for a by (simp add: zero_cell_def block_def)
  have "n = 1 \<or> n = 2 \<or> n = 3 \<or> n = 4 \<or> n = 5 \<or> n = 6 \<or> n = 7 \<or> n = 8" using assms by arith
  then have n: "n \<in> {1, 2, 3, 4, 5, 6, 7, 8}" by simp
  have l: "largest (zs n) = 0" using assms by (cases n) (simp_all add: largest_def foldl_replicate f64_zero_bits)
  have sum: "foldl f32_add 0 (replicate n 0x3F800000) \<in> {0x3F800000, 0x40000000, 0x40400000, 0x40800000, 0x40A00000, 0x40C00000, 0x40E00000, 0x41000000}"
    using n by (auto simp: numeral_eq_Suc f64_zero_bits flat_sums)
  let ?w = "f32_mul 0x3F800000 (f32_div 0x3F800000 (foldl f32_add 0 (replicate n 0x3F800000)))"
  have w: "f32_mul ?w 0 = 0" using sum by (auto simp: flat_weights f64_zero_bits)
  have "softmax_value (zs n) = Some (replicate n ?w)"
    by (simp add: softmax_value_def l f64_zero_bits expf_zero those_replicate)
  then have "head_value 1 0x3F800000 (replicate n (zero_cell, zero_cell)) 0 [0]
      = Some (foldl (\<lambda>out (a, k, v). map2 f32_add out (cell_scaled (Suc 0) 0 a v)) [0] (replicate n (?w, zero_cell, zero_cell)))"
    by (simp add: head_value_def d f64_zero_bits zip_replicate)
  also have "\<dots> = Some [0]"
    by (simp add: foldl_replicate s w f64_zero_bits)
  finally show ?thesis .
qed

lemma blank_attention:
  assumes "0 < n" and "n \<le> 8"
  shows "attention_value blank_model 0x3F800000 (replicate n (zero_cell, zero_cell)) (zs 32) = Some (zs 32)"
proof -
  have "head_value 1 0x3F800000 (replicate n (zero_cell, zero_cell)) (h div 32) (block 1 h (zs 32)) = Some [0]" if "h < 32" for h
    using that blank_head [OF assms] by (simp add: block_def)
  then have "map (\<lambda>h. head_value 1 0x3F800000 (replicate n (zero_cell, zero_cell)) (h div 32) (block 1 h (zs 32))) [0..<32] = replicate 32 (Some [0])"
    by (rule map_upt_same)
  then show ?thesis
    by (simp add: attention_value_def blank_model_def those_replicate)
qed

lemma blank_swiglu: "swiglu_value (zs 32) (zs 32) = Some (zs 32)"
  by (simp add: swiglu_value_def f64_zero_bits expf_zero those_replicate)

lemma blank_fields:
  "m_layers blank_model ! 0 = no_offsets" "m_qtype blank_model = TQ_DT_Q8_0" "h_norm_eps (m_hdr blank_model) = 0x3F800000"
  "m_dim blank_model = 32" "m_kv_dim blank_model = 1" "m_hidden_dim blank_model = 32" "m_head_size blank_model = 1"
  "m_n_kv_heads blank_model = 1" "m_n_layers blank_model = 1" "m_vocab_size blank_model = 5" "m_rms_final blank_model = 0"
  "m_classifier blank_model = 0" "m_tok_emb blank_model = 0" "m_seq_len blank_model = 4" "m_hdr blank_model = zero_header\<lparr>h_norm_eps := 0x3F800000, h_eos_token := 3\<rparr>"
  by (simp_all add: blank_model_def zero_model_def)

lemma blank_layer:
  assumes "n < 8"
  shows "layer_value blank_image blank_model TQ_KV_F32 [] 0x3F800000 (replicate n (zero_cell, zero_cell)) 0 (zs 32)
    = Some (zs 32, zero_cell, zero_cell)"
proof -
  have a: "attention_value blank_model 0x3F800000 (replicate n (zero_cell, zero_cell) @ [(zero_cell, zero_cell)]) (zs 32) = Some (zs 32)"
    using blank_attention [of "Suc n"] assms by (simp only: replicate_append_same replicate_Suc)
  have v: "vec_at blank_image 0 32 = zs 32" by (rule blank_floats) simp
  have m: "mat_value blank_image TQ_DT_Q8_0 0 32 d [zero_block] = zs d" if "d \<le> 32" for d by (rule blank_mat) (use that in simp)
  show ?thesis
    unfolding layer_value_def blank_fields Let_def
    by (simp add: no_offsets_def v m blank_rms blank_quantize blank_rope [simplified] blank_rope [of 1, simplified] blank_cell [simplified] a blank_swiglu f64_zero_bits)
qed

lemma blank_forward:
  assumes "n < 8" and "0 \<le> t" and "t < 5"
  shows "forward_value blank_image blank_model TQ_KV_F32 (replicate n [(zero_cell, zero_cell)]) t = Some (zs 5, [(zero_cell, zero_cell)])"
proof -
  have x: "map (weight_at (drop (0 + nat t * (32 div 32 * block_bytes TQ_DT_Q8_0)) blank_image) TQ_DT_Q8_0) [0..<32] = zs 32"
  proof (rule map_upt_same)
    fix i :: nat assume i: "i < 32"
    have o: "nat t * 34 + 34 \<le> 2048" using assms(3) by simp
    have "q80_at (drop (nat t * 34) blank_image) 0 = zero_block"
      using o unfolding q80_at_def zero_block_def by (auto simp: le16_def blank_image_def intro!: map_upt_same)
    then show "weight_at (drop (0 + nat t * (32 div 32 * block_bytes TQ_DT_Q8_0)) blank_image) TQ_DT_Q8_0 i = 0"
      using i by (simp add: weight_at_def block_bytes_def dtypes Let_def zero_block_def f64_zero_bits)
  qed
  have v: "vec_at blank_image 0 32 = zs 32" by (rule blank_floats) simp
  have m: "mat_value blank_image TQ_DT_Q8_0 0 32 5 [zero_block] = zs 5" by (rule blank_mat) simp
  show ?thesis
    unfolding forward_value_def blank_fields Let_def
    using x blank_layer [OF assms(1)]
    by (simp add: flat_constants v m blank_rms blank_quantize del: upt_conv_Cons)
qed

end
