(* ===== verification/Tq_Decode.thy ===== *)
theory Tq_Decode imports Tq_Blank begin

unbundle bit_operations_syntax

text \<open>
  The decode step refines the transformer: each call of \<^verbatim>\<open>tq_forward\<close> simulates a step on the
  contents of the buffers, and their composition is \<open>forward_value\<close>. The locale \<open>predictor\<close> states
  what the callers of the step rely on; its interpretation discharges it for the code.
\<close>

section \<open>The step as a function on the contents of the buffers\<close>

text \<open>What a run needs of the outside: the image, the tile limit, the model and the cache mode.\<close>

record fw_env =
  en_img :: "u8 list"
  en_limit :: nat
  en_m :: tq_model
  en_seq :: int
  en_kv :: int

abbreviation en_dim :: "fw_env \<Rightarrow> nat" where "en_dim E \<equiv> nat (m_dim (en_m E))"

abbreviation en_kv_dim :: "fw_env \<Rightarrow> nat" where "en_kv_dim E \<equiv> nat (m_kv_dim (en_m E))"

abbreviation en_hidden :: "fw_env \<Rightarrow> nat" where "en_hidden E \<equiv> nat (m_hidden_dim (en_m E))"

abbreviation en_layers :: "fw_env \<Rightarrow> nat" where "en_layers E \<equiv> nat (m_n_layers (en_m E))"

abbreviation en_heads :: "fw_env \<Rightarrow> nat" where "en_heads E \<equiv> nat (m_n_heads (en_m E))"

abbreviation en_kv_heads :: "fw_env \<Rightarrow> nat" where "en_kv_heads E \<equiv> nat (m_n_kv_heads (en_m E))"

abbreviation en_vocab :: "fw_env \<Rightarrow> nat" where "en_vocab E \<equiv> nat (m_vocab_size (en_m E))"

abbreviation en_head :: "fw_env \<Rightarrow> nat" where "en_head E \<equiv> nat (m_head_size (en_m E))"

abbreviation en_slots :: "fw_env \<Rightarrow> nat" where "en_slots E \<equiv> nat (en_seq E)"

text \<open>The tensors of a model lie in the image.\<close>

definition mat_inside :: "u8 list \<Rightarrow> u32 \<Rightarrow> u64 \<Rightarrow> nat \<Rightarrow> nat \<Rightarrow> bool" where
  "mat_inside img qt off n d \<longleftrightarrow> unat off + n div 32 * block_bytes qt * d \<le> length img"

definition vec_inside :: "u8 list \<Rightarrow> u64 \<Rightarrow> nat \<Rightarrow> bool" where
  "vec_inside img off n \<longleftrightarrow> unat off + 4 * n \<le> length img"

definition tensors_inside :: "u8 list \<Rightarrow> tq_model \<Rightarrow> bool" where
  "tensors_inside img m \<longleftrightarrow>
     (let qt = m_qtype m; d = nat (m_dim m); k = nat (m_kv_dim m); h = nat (m_hidden_dim m); v = nat (m_vocab_size m)
      in mat_inside img qt (m_tok_emb m) d v \<and> vec_inside img (m_rms_final m) d \<and> mat_inside img qt (m_classifier m) d v \<and>
         (\<forall>l < nat (m_n_layers m). let lo = m_layers m ! l in
            vec_inside img (lo_rms_att lo) d \<and> vec_inside img (lo_rms_ffn lo) d \<and>
            mat_inside img qt (lo_wq lo) d d \<and> mat_inside img qt (lo_wk lo) d k \<and> mat_inside img qt (lo_wv lo) d k \<and>
            mat_inside img qt (lo_wo lo) d d \<and> mat_inside img qt (lo_w1 lo) d h \<and> mat_inside img qt (lo_w2 lo) h d \<and>
            mat_inside img qt (lo_w3 lo) d h))"

text \<open>The tile takes a row of either width and a norm vector.\<close>

definition env_ok :: "fw_env \<Rightarrow> bool" where
  "env_ok E \<longleftrightarrow> dims_ok (en_m E) \<and> quantized (m_qtype (en_m E)) \<and> tensors_inside (en_img E) (en_m E)
     \<and> m_hidden_dim (en_m E) < 2 ^ 31
     \<and> en_limit E < 2 ^ 32 \<and> 4 * en_dim E \<le> en_limit E
     \<and> en_dim E div 32 * block_bytes (m_qtype (en_m E)) \<le> en_limit E
     \<and> en_hidden E div 32 * block_bytes (m_qtype (en_m E)) \<le> en_limit E"

record fw_vals =
  v_x :: "f32 list"
  v_xb :: "f32 list"
  v_xb2 :: "f32 list"
  v_hb :: "f32 list"
  v_hb3 :: "f32 list"
  v_q :: "f32 list"
  v_logits :: "f32 list"
  v_kb :: "f32 list"
  v_vb :: "f32 list"
  v_xq :: "tq_block_q80 list"
  v_hq :: "tq_block_q80 list"
  v_rope :: "(f32 \<times> f32) list"
  v_cells :: "nat \<Rightarrow> nat \<Rightarrow> kv_cell \<times> kv_cell"

definition vals_fit :: "fw_env \<Rightarrow> fw_vals \<Rightarrow> bool" where
  "vals_fit E v \<longleftrightarrow> length (v_x v) = en_dim E \<and> length (v_xb v) = en_dim E \<and> length (v_xb2 v) = en_dim E
     \<and> length (v_hb v) = en_hidden E \<and> length (v_hb3 v) = en_hidden E \<and> length (v_q v) = en_dim E
     \<and> length (v_logits v) = en_vocab E \<and> length (v_kb v) = en_kv_dim E \<and> length (v_vb v) = en_kv_dim E
     \<and> length (v_xq v) = en_dim E div 32 \<and> length (v_hq v) = en_hidden E div 32 \<and> length (v_rope v) = en_head E div 2"

definition rt_fixed :: "fw_env \<Rightarrow> 'c tq_runtime \<Rightarrow> bool" where
  "rt_fixed E rt \<longleftrightarrow> rt_m rt = en_m E \<and> rt_max_seq rt = en_seq E \<and> rt_kv_dtype rt = en_kv E
     \<and> store_shows (en_img E) (en_limit E) (rt_store rt) \<and> cache_fits rt
     \<and> length (rt_att rt) = en_heads E * en_slots E"

definition agrees :: "fw_env \<Rightarrow> fw_vals \<Rightarrow> 'c tq_runtime \<Rightarrow> bool" where
  "agrees E v rt \<longleftrightarrow> rt_fixed E rt \<and> vals_fit E v
     \<and> rt_x rt = v_x v \<and> rt_xb rt = v_xb v \<and> rt_xb2 rt = v_xb2 v \<and> rt_hb rt = v_hb v \<and> rt_hb3 rt = v_hb3 v
     \<and> rt_q rt = v_q v \<and> rt_logits rt = v_logits v \<and> rt_kb rt = v_kb v \<and> rt_vb rt = v_vb v
     \<and> rt_xq rt = v_xq v \<and> rt_hq rt = v_hq v \<and> rt_rope_cos rt = map fst (v_rope v) \<and> rt_rope_sin rt = map snd (v_rope v)
     \<and> (\<forall>l < en_layers E. \<forall>t < en_slots E. rt_cells rt l t = v_cells v l t)"

section \<open>Simulation\<close>

text \<open>
  A step of the code simulates a partial function on the contents: it is undefined where the
  function is, and otherwise answers \<^verbatim>\<open>TQ_OK\<close> and has the contents the function gives.
\<close>

definition simulates :: "fw_env \<Rightarrow> 'c fw_step \<Rightarrow> (fw_vals \<Rightarrow> fw_vals option) \<Rightarrow> bool" where
  "simulates E f g \<longleftrightarrow> (\<forall>v rt. agrees E v rt \<longrightarrow>
     (case g v of None \<Rightarrow> f rt = None | Some v' \<Rightarrow> \<exists>rt'. f rt = Some (TQ_OK, rt') \<and> agrees E v' rt'))"

named_theorems sim

lemma simulatesI:
  assumes "\<And>v rt. agrees E v rt \<Longrightarrow> g v = None \<Longrightarrow> f rt = None"
    and "\<And>v rt v'. agrees E v rt \<Longrightarrow> g v = Some v' \<Longrightarrow> \<exists>rt'. f rt = Some (TQ_OK, rt') \<and> agrees E v' rt'"
  shows "simulates E f g"
  using assms by (auto simp: simulates_def split: option.splits)

lemma simulates_run:
  "list_all2 (simulates E) fs gs \<Longrightarrow> simulates E (run_ok fs) (run_steps (\<lambda>v g. g v) gs)"
proof (induction rule: list_all2_induct)
  case (Cons f fs g gs)
  show ?case
  proof (rule simulatesI)
    fix v and rt :: "'a tq_runtime" assume a: "agrees E v rt" and n: "run_steps (\<lambda>v g. g v) (g # gs) v = None"
    show "run_ok (f # fs) rt = None"
    proof (cases "g v")
      case None
      then show ?thesis using Cons.hyps(1) a by (force simp: simulates_def)
    next
      case (Some v1)
      then obtain rt1 where "f rt = Some (TQ_OK, rt1)" "agrees E v1 rt1"
        using Cons.hyps(1) a by (force simp: simulates_def)
      then show ?thesis using Cons.IH n Some by (force simp: simulates_def)
    qed
  next
    fix v v' and rt :: "'a tq_runtime" assume a: "agrees E v rt" and s: "run_steps (\<lambda>v g. g v) (g # gs) v = Some v'"
    then obtain v1 where v1: "g v = Some v1" "run_steps (\<lambda>v g. g v) gs v1 = Some v'" by (auto split: option.splits)
    then obtain rt1 where "f rt = Some (TQ_OK, rt1)" "agrees E v1 rt1"
      using Cons.hyps(1) a by (force simp: simulates_def)
    then show "\<exists>rt'. run_ok (f # fs) rt = Some (TQ_OK, rt') \<and> agrees E v' rt'"
      using Cons.IH v1(2) by (force simp: simulates_def)
  qed
qed (simp add: simulates_def)

lemma simulates_cong: "simulates E f g \<Longrightarrow> (\<And>v. vals_fit E v \<Longrightarrow> g v = g' v) \<Longrightarrow> simulates E f g'"
  by (auto simp: simulates_def agrees_def)

text \<open>A buffer of the runtime and its contents.\<close>

definition tracked ::
  "fw_env \<Rightarrow> ('c tq_runtime \<Rightarrow> 'a list) \<Rightarrow> (('a list \<Rightarrow> 'a list) \<Rightarrow> 'c tq_runtime \<Rightarrow> 'c tq_runtime)
     \<Rightarrow> (fw_vals \<Rightarrow> 'a list) \<Rightarrow> (('a list \<Rightarrow> 'a list) \<Rightarrow> fw_vals \<Rightarrow> fw_vals) \<Rightarrow> nat \<Rightarrow> bool" where
  "tracked E get put vget vput n \<longleftrightarrow> (\<forall>v rt. agrees E v rt \<longrightarrow> get rt = vget v \<and> length (vget v) = n
     \<and> (\<forall>f. length (f (vget v)) = n \<longrightarrow> agrees E (vput (\<lambda>_. f (vget v)) v) (put f rt)))"

lemma rt_fixed_put [simp]:
  "rt_fixed E (rt_x_update f rt) = rt_fixed E rt" "rt_fixed E (rt_xb_update f rt) = rt_fixed E rt"
  "rt_fixed E (rt_xb2_update f rt) = rt_fixed E rt" "rt_fixed E (rt_hb_update f rt) = rt_fixed E rt"
  "rt_fixed E (rt_hb3_update f rt) = rt_fixed E rt" "rt_fixed E (rt_q_update f rt) = rt_fixed E rt"
  "rt_fixed E (rt_logits_update f rt) = rt_fixed E rt" "rt_fixed E (rt_kb_update f rt) = rt_fixed E rt"
  "rt_fixed E (rt_vb_update f rt) = rt_fixed E rt" "rt_fixed E (rt_xq_update g rt) = rt_fixed E rt"
  "rt_fixed E (rt_hq_update g rt) = rt_fixed E rt" "rt_fixed E (rt_rope_cos_update f rt) = rt_fixed E rt"
  "rt_fixed E (rt_rope_sin_update f rt) = rt_fixed E rt"
  by (auto simp: rt_fixed_def cache_fits_def Let_def)

lemma rt_cells_put [simp]:
  "rt_cells (rt_x_update f rt) = rt_cells rt" "rt_cells (rt_xb_update f rt) = rt_cells rt"
  "rt_cells (rt_xb2_update f rt) = rt_cells rt" "rt_cells (rt_hb_update f rt) = rt_cells rt"
  "rt_cells (rt_hb3_update f rt) = rt_cells rt" "rt_cells (rt_q_update f rt) = rt_cells rt"
  "rt_cells (rt_logits_update f rt) = rt_cells rt" "rt_cells (rt_kb_update f rt) = rt_cells rt"
  "rt_cells (rt_vb_update f rt) = rt_cells rt" "rt_cells (rt_xq_update g rt) = rt_cells rt"
  "rt_cells (rt_hq_update g rt) = rt_cells rt" "rt_cells (rt_rope_cos_update f rt) = rt_cells rt"
  "rt_cells (rt_rope_sin_update f rt) = rt_cells rt" "rt_cells (rt_store_update s rt) = rt_cells rt"
  "rt_cells (rt_bytes_read_update n rt) = rt_cells rt" "rt_cells (rt_att_update f rt) = rt_cells rt"
  by (auto simp: rt_cells_def fun_eq_iff)

lemma tracked_buffers:
  "tracked E rt_x rt_x_update v_x v_x_update (en_dim E)"
  "tracked E rt_xb rt_xb_update v_xb v_xb_update (en_dim E)"
  "tracked E rt_xb2 rt_xb2_update v_xb2 v_xb2_update (en_dim E)"
  "tracked E rt_hb rt_hb_update v_hb v_hb_update (en_hidden E)"
  "tracked E rt_hb3 rt_hb3_update v_hb3 v_hb3_update (en_hidden E)"
  "tracked E rt_q rt_q_update v_q v_q_update (en_dim E)"
  "tracked E rt_logits rt_logits_update v_logits v_logits_update (en_vocab E)"
  "tracked E rt_kb rt_kb_update v_kb v_kb_update (en_kv_dim E)"
  "tracked E rt_vb rt_vb_update v_vb v_vb_update (en_kv_dim E)"
  "tracked E rt_xq rt_xq_update v_xq v_xq_update (en_dim E div 32)"
  "tracked E rt_hq rt_hq_update v_hq v_hq_update (en_hidden E div 32)"
  unfolding tracked_def agrees_def
  by (simp_all add: vals_fit_def)

lemma agrees_store:
  assumes "agrees E v rt" and "store_shows (en_img E) (en_limit E) st"
  shows "agrees E v (rt\<lparr>rt_store := st, rt_bytes_read := br\<rparr>)" and "agrees E v (rt\<lparr>rt_store := st\<rparr>)"
  using assms by (simp_all add: agrees_def rt_fixed_def cache_fits_def Let_def)

section \<open>Every step simulates its function\<close>

lemma env_dims:
  assumes "env_ok E"
  shows "en_dim E mod 32 = 0" and "0 < en_dim E" and "en_dim E < 2 ^ 31"
    and "en_hidden E mod 32 = 0" and "0 < en_hidden E" and "en_hidden E < 2 ^ 31"
    and "en_dim E = en_heads E * en_head E" and "en_kv_dim E = en_kv_heads E * en_head E"
    and "en_heads E = en_kv_heads E * nat (m_kv_mul (en_m E))" and "0 < en_head E" and "0 < m_dim (en_m E)"
proof -
  have d: "dims_ok (en_m E)" using assms by (simp add: env_ok_def)
  note p = dims_ok_pos [OF d]
  note d = d [unfolded dims_ok_def]
  show "en_dim E mod 32 = 0" "en_hidden E mod 32 = 0" using d by (auto simp: nat_mod_as_int nat_eq_iff)
  show "0 < en_dim E" "0 < en_hidden E" "0 < en_head E" "0 < m_dim (en_m E)" using d p by auto
  show "en_dim E < 2 ^ 31" using assms by (simp add: env_ok_def)
  show "en_hidden E < 2 ^ 31" using assms d by (simp add: env_ok_def nat_less_iff)
  have m: "m_dim (en_m E) = m_n_heads (en_m E) * m_head_size (en_m E)" "m_kv_dim (en_m E) = m_n_kv_heads (en_m E) * m_head_size (en_m E)"
    "m_n_heads (en_m E) = m_n_kv_heads (en_m E) * m_kv_mul (en_m E)" using d by (simp_all add: mult.commute)
  show "en_dim E = en_heads E * en_head E" using d unfolding m(1) by (intro nat_mult_distrib) simp
  show "en_kv_dim E = en_kv_heads E * en_head E" using d unfolding m(2) by (intro nat_mult_distrib) simp
  show "en_heads E = en_kv_heads E * nat (m_kv_mul (en_m E))" using d unfolding m(3) by (intro nat_mult_distrib) simp
qed

lemma agreesD:
  assumes "agrees E v rt"
  shows "rt_m rt = en_m E" "rt_max_seq rt = en_seq E" "rt_kv_dtype rt = en_kv E" "cache_fits rt"
    "store_shows (en_img E) (en_limit E) (rt_store rt)" "length (rt_att rt) = en_heads E * en_slots E"
    "l < en_layers E \<Longrightarrow> t < en_slots E \<Longrightarrow> rt_cells rt l t = v_cells v l t"
    "vals_fit E v" "rt_rope_cos rt = map fst (v_rope v)" "rt_rope_sin rt = map snd (v_rope v)" "length (v_rope v) = en_head E div 2"
  using assms by (simp_all add: agrees_def rt_fixed_def vals_fit_def)

lemma trackedD:
  assumes "tracked E get put vget vput n" and "agrees E v rt"
  shows "get rt = vget v" "length (vget v) = n" "length (f (vget v)) = n \<Longrightarrow> agrees E (vput (\<lambda>_. f (vget v)) v) (put f rt)"
  using assms by (auto simp: tracked_def)

lemma sim_norm:
  assumes ok: "env_ok E" and t: "tracked E get put vget vput (en_dim E)" and i: "vec_inside (en_img E) off (en_dim E)"
  shows "simulates E (fw_norm get put off)
    (\<lambda>v. Some (vput (\<lambda>_. rms_value (h_norm_eps (m_hdr (en_m E))) (vec_at (en_img E) off (en_dim E)) (v_x v)) v))"
proof (rule simulatesI)
  fix v v' and rt :: "'a tq_runtime" assume a: "agrees E v rt"
    and s: "Some (vput (\<lambda>_. rms_value (h_norm_eps (m_hdr (en_m E))) (vec_at (en_img E) off (en_dim E)) (v_x v)) v) = Some v'"
  note D = agreesD [OF a]
  have m4: "4 * en_dim E \<le> en_limit E" "en_limit E < 2 ^ 32" using ok by (simp_all add: env_ok_def)
  have u: "unat (word_of_int (m_dim (en_m E)) * 4 :: u32) = 4 * en_dim E"
  proof -
    have "(word_of_int (m_dim (en_m E)) :: u32) = of_nat (en_dim E)" using env_dims(11) [OF ok] by (simp add: of_nat_nat)
    then have "word_of_int (m_dim (en_m E)) * 4 = (of_nat (4 * en_dim E) :: u32)" by (simp add: mult.commute)
    then show ?thesis using unat_of_nat_id [of "4 * en_dim E", where 'w = 32] m4 by simp
  qed
  have f: "unat off + unat (word_of_int (m_dim (en_m E)) * 4 :: u32) \<le> length (en_img E)"
    "unat (word_of_int (m_dim (en_m E)) * 4 :: u32) \<le> en_limit E"
    using i m4(1) unfolding u vec_inside_def by simp_all
  obtain st p where vw: "tq_store_view (rt_store rt) off (word_of_int (m_dim (en_m E)) * 4) = (st, Some p)"
    "store_shows (en_img E) (en_limit E) st" "\<And>j. j + 4 \<le> 4 * en_dim E \<Longrightarrow> le32 p j = le32 (en_img E) (unat off + j)"
    using store.view_words [OF D(5) f] unfolding u by blast
  let ?rt = "rt\<lparr>rt_store := st\<rparr>"
  have a1: "agrees E v ?rt" by (rule agrees_store(2) [OF a vw(2)])
  note T = trackedD [OF t a1] and X = trackedD [OF tracked_buffers(1) a1]
  have w: "map (\<lambda>i. le32 p (4 * i)) [0..<en_dim E] = vec_at (en_img E) off (en_dim E)"
    using vw(3) by (simp add: vec_at_def)
  have r: "tq_rmsnorm (get ?rt) (rt_x ?rt) p (en_dim E) e = rms_value e (vec_at (en_img E) off (en_dim E)) (v_x v)" for e
    using rmsnorm_value [of "get ?rt" "en_dim E" "rt_x ?rt" p e] T X w by simp
  have l: "length (rms_value e (vec_at (en_img E) off (en_dim E)) (v_x v)) = en_dim E" for e
    using X(2) by (simp add: rms_value_def Let_def vec_at_def)
  show "\<exists>rt'. fw_norm get put off rt = Some (TQ_OK, rt') \<and> agrees E v' rt'"
    using s T(3) [of "\<lambda>_. rms_value (h_norm_eps (m_hdr (en_m E))) (vec_at (en_img E) off (en_dim E)) (v_x v)"] l
    by (simp add: fw_norm_def Let_def fw_view_def D(1) vw(1) r [simplified])
qed simp

lemma calmI:
  assumes "\<And>v rt. agrees E v rt \<Longrightarrow> g v = None \<Longrightarrow> f rt = None"
    and "\<And>v rt v'. agrees E v rt \<Longrightarrow> g v = Some v' \<Longrightarrow> \<exists>rt'. f rt = Some rt' \<and> agrees E v' rt'"
  shows "simulates E (calm f) g"
  using assms by (intro simulatesI) (force simp: calm_def)+

lemma quantize_length: "tq_quantize_q8 x n = Some bs \<Longrightarrow> length bs = n div 32"
  by (simp add: tq_quantize_q8_def TQ_GROUP_SIZE_def) (auto dest!: those_length)

lemma sim_quantize:
  assumes x: "tracked E get upd vget vupd k" and t: "tracked E getq put vgetq vput (n div 32)" and n: "nat N = n"
  shows "simulates E (calm (fw_quantize get put N)) (\<lambda>v. map_option (\<lambda>bs. vput (\<lambda>_. bs) v) (tq_quantize_q8 (vget v) n))"
proof (rule calmI)
  fix v and rt :: "'a tq_runtime" assume a: "agrees E v rt" and "map_option (\<lambda>bs. vput (\<lambda>_. bs) v) (tq_quantize_q8 (vget v) n) = None"
  then show "fw_quantize get put N rt = None" using trackedD(1) [OF x a] n by (simp add: fw_quantize_def)
next
  fix v v' and rt :: "'a tq_runtime" assume a: "agrees E v rt"
    and "map_option (\<lambda>bs. vput (\<lambda>_. bs) v) (tq_quantize_q8 (vget v) n) = Some v'"
  then obtain bs where bs: "tq_quantize_q8 (vget v) n = Some bs" "v' = vput (\<lambda>_. bs) v" by auto
  note l = quantize_length [OF bs(1)] and T = trackedD [OF t a]
  have "bs @ drop (length bs) (vgetq v) = bs" using l T(2) by simp
  then show "\<exists>rt'. fw_quantize get put N rt = Some rt' \<and> agrees E v' rt'"
    using T(3) [of "\<lambda>xq. bs @ drop (length bs) xq"] l bs trackedD(1) [OF x a] n by (simp add: fw_quantize_def)
qed

lemma sim_matvec:
  assumes ok: "env_ok E" and x: "tracked E getq upd vgetq vupd (n div 32)" and t: "tracked E get put vget vput d"
    and n: "nat N = n" "nat D = d" and d: "n = en_dim E \<or> n = en_hidden E"
    and i: "mat_inside (en_img E) (m_qtype (en_m E)) w n d"
  shows "simulates E (fw_matvec get put w N D getq)
    (\<lambda>v. Some (vput (\<lambda>_. mat_value (en_img E) (m_qtype (en_m E)) w n d (vgetq v)) v))"
proof (rule simulatesI)
  fix v v' and rt :: "'a tq_runtime" assume a: "agrees E v rt"
    and s: "Some (vput (\<lambda>_. mat_value (en_img E) (m_qtype (en_m E)) w n d (vgetq v)) v) = Some v'"
  note D = agreesD [OF a] and e = env_dims [OF ok]
  have q: "quantized (m_qtype (en_m E))" "en_limit E < 2 ^ 32" "n div 32 * block_bytes (m_qtype (en_m E)) \<le> en_limit E"
    using ok d by (auto simp: env_ok_def)
  have n: "n mod 32 = 0" "0 < n" "n < 2 ^ 31" using d e(1-6) by (elim disjE; simp)+
  let ?r = "mat_value (en_img E) (m_qtype (en_m E)) w n d (vgetq v)"
  have lo: "length (get rt) = d" using trackedD [OF t a] by simp
  obtain st where mv: "tq_matvec (rt_store rt) (rt_bytes_read rt) (get rt) w (m_qtype (en_m E)) n d (getq rt)
      = Some (TQ_OK, st, rt_bytes_read rt + tq_dtype_nbytes (m_qtype (en_m E)) (of_nat n) * of_nat d, ?r)"
    "store_shows (en_img E) (en_limit E) st"
    using matvec_image [OF D(5) q(1) n q(3,2) i [unfolded mat_inside_def], of "get rt" "rt_bytes_read rt" "getq rt"]
    unfolding mat_value_def [symmetric] lo trackedD(1) [OF x a] by (simp add: lo) blast
  note a1 = agrees_store(1) [OF a mv(2)]
  have "length ?r = d" by (simp add: mat_value_def)
  then show "\<exists>rt'. fw_matvec get put w N D getq rt = Some (TQ_OK, rt') \<and> agrees E v' rt'"
    using trackedD(3) [OF t a1, of "\<lambda>_. ?r"] mv(1) s assms(4,5) D(1) by (simp add: fw_matvec_def)
qed simp

lemma sim_rope:
  assumes ok: "env_ok E" and t: "tracked E get put vget vput n" and n: "nat N = n" "n = J * en_head E"
  shows "simulates E (calm (fw_rope get put N)) (\<lambda>v. Some (vput (\<lambda>_. rope_value (v_rope v) (en_head E) (vget v)) v))"
proof (rule calmI)
  fix v v' and rt :: "'a tq_runtime" assume a: "agrees E v rt"
    and s: "Some (vput (\<lambda>_. rope_value (v_rope v) (en_head E) (vget v)) v) = Some v'"
  note D = agreesD [OF a] and T = trackedD [OF t a]
  have "tq_rope_apply rt (get rt) (J * en_head E) = Some (rope_value (zip (rt_rope_cos rt) (rt_rope_sin rt)) (en_head E) (get rt))"
    using rope_apply_value [of "get rt" J "en_head E" rt] T n(2) env_dims(10) [OF ok] D by simp
  then have r: "tq_rope_apply rt (get rt) (nat N) = Some (rope_value (v_rope v) (en_head E) (vget v))"
    using n D(9,10) T(1) by (simp add: zip_map_fst_snd)
  show "\<exists>rt'. fw_rope get put N rt = Some rt' \<and> agrees E v' rt'"
    using T(3) [of "\<lambda>_. rope_value (v_rope v) (en_head E) (vget v)"] T(2) s r by (simp add: fw_rope_def)
qed simp

lemma sim_residual:
  assumes "env_ok E"
  shows "simulates E (calm fw_residual) (\<lambda>v. Some (v\<lparr>v_x := map2 f32_add (v_x v) (v_xb2 v)\<rparr>))"
proof (rule calmI)
  fix v v' and rt :: "'a tq_runtime" assume a: "agrees E v rt" and s: "Some (v\<lparr>v_x := map2 f32_add (v_x v) (v_xb2 v)\<rparr>) = Some v'"
  note D = agreesD [OF a] and X = trackedD [OF tracked_buffers(1) a] and B = trackedD [OF tracked_buffers(3) a]
  have "foldl (\<lambda>x i. x[i := f32_add (x ! i) (v_xb2 v ! i)]) (v_x v) [0..<en_dim E] = map2 f32_add (v_x v) (v_xb2 v)"
    by (rule residual_loop [OF X(2) B(2)])
  then show "\<exists>rt'. fw_residual rt = Some rt' \<and> agrees E v' rt'"
    using X(3) [of "\<lambda>_. map2 f32_add (v_x v) (v_xb2 v)"] X(1,2) B(1,2) s by (simp add: fw_residual_def D(1))
qed simp

lemma sim_swiglu:
  assumes "env_ok E"
  shows "simulates E (calm fw_swiglu) (\<lambda>v. map_option (\<lambda>hb. v\<lparr>v_hb := hb\<rparr>) (swiglu_value (v_hb v) (v_hb3 v)))"
proof (rule calmI)
  fix v and rt :: "'a tq_runtime" assume a: "agrees E v rt" and s: "map_option (\<lambda>hb. v\<lparr>v_hb := hb\<rparr>) (swiglu_value (v_hb v) (v_hb3 v)) = None"
  note D = agreesD [OF a] and X = trackedD [OF tracked_buffers(4) a] and B = trackedD [OF tracked_buffers(5) a]
  show "fw_swiglu rt = None"
    using s unfolding fw_swiglu_def D(1) X(1) B(1) swiglu_loop [OF X(2) B(2)] by simp
next
  fix v v' and rt :: "'a tq_runtime" assume a: "agrees E v rt" and s: "map_option (\<lambda>hb. v\<lparr>v_hb := hb\<rparr>) (swiglu_value (v_hb v) (v_hb3 v)) = Some v'"
  note D = agreesD [OF a] and X = trackedD [OF tracked_buffers(4) a] and B = trackedD [OF tracked_buffers(5) a]
  obtain hb where hb: "swiglu_value (v_hb v) (v_hb3 v) = Some hb" "v' = v\<lparr>v_hb := hb\<rparr>" using s by auto
  show "\<exists>rt'. fw_swiglu rt = Some rt' \<and> agrees E v' rt'"
    unfolding fw_swiglu_def D(1) X(1) B(1) swiglu_loop [OF X(2) B(2)]
    using swiglu_value_length [OF hb(1)] X(2) B(2) X(3) [of "\<lambda>_. hb"] hb by simp
qed

lemma run_blit_pair:
  "n \<le> length cs \<Longrightarrow> n \<le> length ss \<Longrightarrow>
    run_steps (\<lambda>(cs, ss) i. map_option (\<lambda>(c, s). (cs[i := c], ss[i := s])) (f i)) [0..<n] (cs, ss)
      = map_option (\<lambda>ps. (blit 0 (map fst ps) cs, blit 0 (map snd ps) ss)) (those (map f [0..<n]))"
proof (induction n)
  case (Suc n)
  have b: "blit 0 (map g ps @ [y]) xs = (blit 0 (map g ps) xs)[n := y]"
    if "those (map f [0..<n]) = Some ps" "n < length xs" for g ps y and xs :: "'x list"
    using blit_snoc [of 0 "map g ps" xs y] those_length [OF that(1)] that(2) by simp
  show ?case
    using Suc b [of _ cs fst] b [of _ ss snd]
    by (cases "those (map f [0..<n])"; cases "f n") (auto simp: run_steps_append those_snoc)
qed simp

lemma sim_rope_prepare:
  assumes ok: "env_ok E"
  shows "simulates E (calm (tq_rope_prepare pos)) (\<lambda>v. map_option (\<lambda>r. v\<lparr>v_rope := r\<rparr>)
    (those (map (rope_pair (h_rope_theta (m_hdr (en_m E))) (en_head E) pos) [0..<en_head E div 2])))"
proof (rule calmI)
  let ?f = "rope_pair (h_rope_theta (m_hdr (en_m E))) (en_head E) pos"
  have run: "run_steps (\<lambda>(cs, ss) i. map_option (\<lambda>(c, s). (cs[i := c], ss[i := s])) (?f i)) [0..<en_head E div 2]
        (rt_rope_cos rt, rt_rope_sin rt) = map_option (\<lambda>ps. (map fst ps, map snd ps)) (those (map ?f [0..<en_head E div 2]))"
    if "agrees E v rt" for v and rt :: "'a tq_runtime"
    using run_blit_pair [of "en_head E div 2" "rt_rope_cos rt" "rt_rope_sin rt" ?f] agreesD(9-11) [OF that]
    by (cases "those (map ?f [0..<en_head E div 2])") (auto simp: blit_all dest!: those_length)
  {
    fix v and rt :: "'a tq_runtime" assume a: "agrees E v rt"
      and n: "map_option (\<lambda>r. v\<lparr>v_rope := r\<rparr>) (those (map ?f [0..<en_head E div 2])) = None"
    show "tq_rope_prepare pos rt = None"
      using run [OF a] n by (simp add: tq_rope_prepare_def Let_def agreesD(1) [OF a])
  }
  fix v v' and rt :: "'a tq_runtime" assume a: "agrees E v rt"
    and s: "map_option (\<lambda>r. v\<lparr>v_rope := r\<rparr>) (those (map ?f [0..<en_head E div 2])) = Some v'"
  then obtain ps where ps: "those (map ?f [0..<en_head E div 2]) = Some ps" "v' = v\<lparr>v_rope := ps\<rparr>" by auto
  have "length ps = en_head E div 2" using those_length [OF ps(1)] by simp
  then have "agrees E v' (rt\<lparr>rt_rope_cos := map fst ps, rt_rope_sin := map snd ps\<rparr>)"
    using a unfolding ps(2) by (simp add: agrees_def vals_fit_def)
  then show "\<exists>rt'. tq_rope_prepare pos rt = Some rt' \<and> agrees E v' rt'"
    using run [OF a] ps(1) by (simp add: tq_rope_prepare_def Let_def agreesD(1) [OF a])
qed

lemma sim_embed:
  assumes ok: "env_ok E" and t: "0 \<le> token" "token < m_vocab_size (en_m E)"
  shows "simulates E (fw_embed token) (\<lambda>v. Some (v\<lparr>v_x := map (weight_at (drop (unat (m_tok_emb (en_m E))
      + nat token * (en_dim E div 32 * block_bytes (m_qtype (en_m E)))) (en_img E)) (m_qtype (en_m E))) [0..<en_dim E]\<rparr>))"
proof (rule simulatesI)
  let ?x = "map (weight_at (drop (unat (m_tok_emb (en_m E))
      + nat token * (en_dim E div 32 * block_bytes (m_qtype (en_m E)))) (en_img E)) (m_qtype (en_m E))) [0..<en_dim E]"
  fix v v' and rt :: "'a tq_runtime" assume a: "agrees E v rt" and s: "Some (v\<lparr>v_x := ?x\<rparr>) = Some v'"
  note D = agreesD [OF a] and e = env_dims [OF ok] and X = trackedD [OF tracked_buffers(1) a]
  have q: "quantized (m_qtype (en_m E))" "en_limit E < 2 ^ 32" "en_dim E div 32 * block_bytes (m_qtype (en_m E)) \<le> en_limit E"
    "mat_inside (en_img E) (m_qtype (en_m E)) (m_tok_emb (en_m E)) (en_dim E) (en_vocab E)"
    using ok by (simp_all add: env_ok_def tensors_inside_def Let_def)
  have "Suc (nat token) \<le> en_vocab E" using t by simp
  then have "en_dim E div 32 * block_bytes (m_qtype (en_m E)) * Suc (nat token)
      \<le> en_dim E div 32 * block_bytes (m_qtype (en_m E)) * en_vocab E" by (rule mult_le_mono2)
  then have i: "unat (m_tok_emb (en_m E)) + en_dim E div 32 * block_bytes (m_qtype (en_m E)) * Suc (nat token) \<le> length (en_img E)"
    using q(4) unfolding mat_inside_def by linarith
  have l: "en_dim E \<le> length (rt_x rt)" using X(1,2) by simp
  obtain st where r: "tq_row_to_float (rt_store rt) (m_tok_emb (en_m E)) (m_qtype (en_m E)) (en_dim E) (nat token) (rt_x rt)
      = (TQ_OK, st, ?x @ drop (en_dim E) (rt_x rt))" "store_shows (en_img E) (en_limit E) st"
    using row_image [OF D(5) q(1) e(1-3) q(3,2) i l] by blast
  have d: "drop (en_dim E) (rt_x rt) = []" using X(1,2) by simp
  have "agrees E v' (rt\<lparr>rt_store := st, rt_x := ?x\<rparr>)"
    using trackedD(3) [OF tracked_buffers(1) agrees_store(2) [OF a r(2)], of "\<lambda>_. ?x"] s by simp
  then show "\<exists>rt'. fw_embed token rt = Some (TQ_OK, rt') \<and> agrees E v' rt'"
    using r(1) unfolding d by (simp add: fw_embed_def Let_def D(1))
qed simp

definition put_cell :: "nat \<Rightarrow> nat \<Rightarrow> kv_cell \<times> kv_cell \<Rightarrow> fw_vals \<Rightarrow> fw_vals" where
  "put_cell l pos c v = v\<lparr>v_cells := \<lambda>l' t. if l' = l \<and> t = pos then c else v_cells v l' t\<rparr>"

lemma sim_kv_store:
  assumes ok: "env_ok E" and l: "l < en_layers E" and p: "pos < en_slots E"
  shows "simulates E (calm (\<lambda>rt. tq_kv_store rt l pos (rt_kb rt) (rt_vb rt))) (\<lambda>v. do {
      kc \<leftarrow> make_cell (en_kv E) (en_head E) (en_kv_heads E) (v_kb v);
      vc \<leftarrow> make_cell (en_kv E) (en_head E) (en_kv_heads E) (v_vb v);
      Some (put_cell l pos (kc, vc) v) })"
proof (rule calmI)
  have st: "case (make_cell (en_kv E) (en_head E) (en_kv_heads E) (v_kb v), make_cell (en_kv E) (en_head E) (en_kv_heads E) (v_vb v)) of
      (Some kc, Some vc) \<Rightarrow> \<exists>rt'. tq_kv_store rt l pos (rt_kb rt) (rt_vb rt) = Some rt' \<and> slot_written l pos kc vc rt rt'
    | _ \<Rightarrow> tq_kv_store rt l pos (rt_kb rt) (rt_vb rt) = None" if a: "agrees E v rt" for v and rt :: "'a tq_runtime"
  proof -
    note D = agreesD [OF a] and K = trackedD [OF tracked_buffers(8) a] and V = trackedD [OF tracked_buffers(9) a]
      and e = env_dims [OF ok]
    show ?thesis
      using kv_store_value [OF D(4), of l pos "en_head E" "rt_kb rt" "rt_vb rt"] l p e(8,10) K(1,2) V(1,2)
      unfolding D(1,2,3) by simp
  qed
  {
    fix v and rt :: "'a tq_runtime" assume a: "agrees E v rt"
      and "do { kc \<leftarrow> make_cell (en_kv E) (en_head E) (en_kv_heads E) (v_kb v);
        vc \<leftarrow> make_cell (en_kv E) (en_head E) (en_kv_heads E) (v_vb v); Some (put_cell l pos (kc, vc) v) } = None"
    then show "tq_kv_store rt l pos (rt_kb rt) (rt_vb rt) = None"
      using st [OF a] by (auto split: option.splits Option.bind_splits)
  }
  fix v v' and rt :: "'a tq_runtime" assume a: "agrees E v rt"
    and "do { kc \<leftarrow> make_cell (en_kv E) (en_head E) (en_kv_heads E) (v_kb v);
      vc \<leftarrow> make_cell (en_kv E) (en_head E) (en_kv_heads E) (v_vb v); Some (put_cell l pos (kc, vc) v) } = Some v'"
  then obtain kc vc where c: "make_cell (en_kv E) (en_head E) (en_kv_heads E) (v_kb v) = Some kc"
    "make_cell (en_kv E) (en_head E) (en_kv_heads E) (v_vb v) = Some vc" "v' = put_cell l pos (kc, vc) v"
    by (auto split: Option.bind_splits)
  obtain rt' where w: "tq_kv_store rt l pos (rt_kb rt) (rt_vb rt) = Some rt'" "slot_written l pos kc vc rt rt'"
    using st [OF a] unfolding c(1,2) by auto
  note w2 = w(2) [unfolded slot_written_def agreesD(1,2) [OF a]]
  obtain kf vf kq vq ks vs where rt': "rt' = put_cache kf vf kq vq ks vs rt" using w2 by blast
  have "agrees E v' rt'"
    unfolding agrees_def c(3) put_cell_def
  proof (intro conjI allI impI)
    show "rt_fixed E rt'" using a w2 by (simp add: agrees_def rt_fixed_def rt' put_cache_def)
    fix l' t assume "l' < en_layers E" "t < en_slots E"
    then show "rt_cells rt' l' t = v_cells (v\<lparr>v_cells := \<lambda>l' t. if l' = l \<and> t = pos then (kc, vc) else v_cells v l' t\<rparr>) l' t"
      using w2 a by (simp add: agrees_def)
  qed (use a in \<open>simp_all add: agrees_def rt' put_cache_def vals_fit_def\<close>)
  then show "\<exists>rt'. tq_kv_store rt l pos (rt_kb rt) (rt_vb rt) = Some rt' \<and> agrees E v' rt'" using w(1) by blast
qed

lemma sim_attention:
  assumes ok: "env_ok E" and l: "l < en_layers E" and p: "pos < en_slots E"
  shows "simulates E (calm (fw_attention l pos iv))
    (\<lambda>v. map_option (\<lambda>xb. v\<lparr>v_xb := xb\<rparr>) (attention_value (en_m E) iv (map (v_cells v l) [0..<pos + 1]) (v_q v)))"
proof (rule calmI)
  have st: "case attention_value (en_m E) iv (map (v_cells v l) [0..<pos + 1]) (v_q v) of
      None \<Rightarrow> fw_attention l pos iv rt = None
    | Some xb \<Rightarrow> \<exists>att. fw_attention l pos iv rt = Some (put_head att xb rt)
        \<and> length att = length (rt_att rt) \<and> length xb = en_dim E" if a: "agrees E v rt" for v and rt :: "'a tq_runtime"
  proof -
    note D = agreesD [OF a] and Q = trackedD [OF tracked_buffers(6) a] and B = trackedD [OF tracked_buffers(2) a]
      and e = env_dims [OF ok]
    have h: "head_ready (en_head E) rt"
      unfolding head_ready_def D(1,2) using D(4,6) Q(1,2) B(1,2) e(7-10) by simp
    have c: "map (rt_cells rt l) [0..<pos + 1] = map (v_cells v l) [0..<pos + 1]" using D(7) l p by simp
    show ?thesis
      using fw_attention_value [OF h, of l pos iv] l p unfolding D(1,2) c Q(1) e(7) by blast
  qed
  {
    fix v and rt :: "'a tq_runtime" assume a: "agrees E v rt"
      and "map_option (\<lambda>xb. v\<lparr>v_xb := xb\<rparr>) (attention_value (en_m E) iv (map (v_cells v l) [0..<pos + 1]) (v_q v)) = None"
    then show "fw_attention l pos iv rt = None" using st [OF a] by simp
  }
  fix v v' and rt :: "'a tq_runtime" assume a: "agrees E v rt"
    and "map_option (\<lambda>xb. v\<lparr>v_xb := xb\<rparr>) (attention_value (en_m E) iv (map (v_cells v l) [0..<pos + 1]) (v_q v)) = Some v'"
  then obtain xb where xb: "attention_value (en_m E) iv (map (v_cells v l) [0..<pos + 1]) (v_q v) = Some xb" "v' = v\<lparr>v_xb := xb\<rparr>"
    by auto
  obtain att where att: "fw_attention l pos iv rt = Some (put_head att xb rt)" "length att = length (rt_att rt)" "length xb = en_dim E"
    using st [OF a] unfolding xb(1) by auto
  have "agrees E v' (put_head att xb rt)"
    using a att(2,3) unfolding xb(2) by (simp add: agrees_def rt_fixed_def put_head_def vals_fit_def cache_fits_def Let_def)
  then show "\<exists>rt'. fw_attention l pos iv rt = Some rt' \<and> agrees E v' rt'" using att(1) by blast
qed

section \<open>A layer\<close>

definition layer_steps :: "fw_env \<Rightarrow> nat \<Rightarrow> f32 \<Rightarrow> nat \<Rightarrow> (fw_vals \<Rightarrow> fw_vals option) list" where
  "layer_steps E pos iv l =
     (let img = en_img E; m = en_m E; lo = m_layers m ! l; qt = m_qtype m; eps = h_norm_eps (m_hdr m);
          d = en_dim E; k = en_kv_dim E; h = en_hidden E; hs = en_head E
      in [\<lambda>v. Some (v\<lparr>v_xb := rms_value eps (vec_at img (lo_rms_att lo) d) (v_x v)\<rparr>),
          \<lambda>v. map_option (\<lambda>bs. v\<lparr>v_xq := bs\<rparr>) (tq_quantize_q8 (v_xb v) d),
          \<lambda>v. Some (v\<lparr>v_q := mat_value img qt (lo_wq lo) d d (v_xq v)\<rparr>),
          \<lambda>v. Some (v\<lparr>v_kb := mat_value img qt (lo_wk lo) d k (v_xq v)\<rparr>),
          \<lambda>v. Some (v\<lparr>v_vb := mat_value img qt (lo_wv lo) d k (v_xq v)\<rparr>),
          \<lambda>v. Some (v\<lparr>v_q := rope_value (v_rope v) hs (v_q v)\<rparr>),
          \<lambda>v. Some (v\<lparr>v_kb := rope_value (v_rope v) hs (v_kb v)\<rparr>),
          \<lambda>v. do {
            kc \<leftarrow> make_cell (en_kv E) hs (en_kv_heads E) (v_kb v);
            vc \<leftarrow> make_cell (en_kv E) hs (en_kv_heads E) (v_vb v);
            Some (put_cell l pos (kc, vc) v) },
          \<lambda>v. map_option (\<lambda>xb. v\<lparr>v_xb := xb\<rparr>) (attention_value m iv (map (v_cells v l) [0..<pos + 1]) (v_q v)),
          \<lambda>v. map_option (\<lambda>bs. v\<lparr>v_xq := bs\<rparr>) (tq_quantize_q8 (v_xb v) d),
          \<lambda>v. Some (v\<lparr>v_xb2 := mat_value img qt (lo_wo lo) d d (v_xq v)\<rparr>),
          \<lambda>v. Some (v\<lparr>v_x := map2 f32_add (v_x v) (v_xb2 v)\<rparr>),
          \<lambda>v. Some (v\<lparr>v_xb := rms_value eps (vec_at img (lo_rms_ffn lo) d) (v_x v)\<rparr>),
          \<lambda>v. map_option (\<lambda>bs. v\<lparr>v_xq := bs\<rparr>) (tq_quantize_q8 (v_xb v) d),
          \<lambda>v. Some (v\<lparr>v_hb := mat_value img qt (lo_w1 lo) d h (v_xq v)\<rparr>),
          \<lambda>v. Some (v\<lparr>v_hb3 := mat_value img qt (lo_w3 lo) d h (v_xq v)\<rparr>),
          \<lambda>v. map_option (\<lambda>hb. v\<lparr>v_hb := hb\<rparr>) (swiglu_value (v_hb v) (v_hb3 v)),
          \<lambda>v. map_option (\<lambda>bs. v\<lparr>v_hq := bs\<rparr>) (tq_quantize_q8 (v_hb v) h),
          \<lambda>v. Some (v\<lparr>v_xb2 := mat_value img qt (lo_w2 lo) h d (v_hq v)\<rparr>),
          \<lambda>v. Some (v\<lparr>v_x := map2 f32_add (v_x v) (v_xb2 v)\<rparr>)])"

lemma layer_inside:
  assumes "env_ok E" and "l < en_layers E"
  shows "vec_inside (en_img E) (lo_rms_att (m_layers (en_m E) ! l)) (en_dim E)"
    and "vec_inside (en_img E) (lo_rms_ffn (m_layers (en_m E) ! l)) (en_dim E)"
    and "mat_inside (en_img E) (m_qtype (en_m E)) (lo_wq (m_layers (en_m E) ! l)) (en_dim E) (en_dim E)"
    and "mat_inside (en_img E) (m_qtype (en_m E)) (lo_wk (m_layers (en_m E) ! l)) (en_dim E) (en_kv_dim E)"
    and "mat_inside (en_img E) (m_qtype (en_m E)) (lo_wv (m_layers (en_m E) ! l)) (en_dim E) (en_kv_dim E)"
    and "mat_inside (en_img E) (m_qtype (en_m E)) (lo_wo (m_layers (en_m E) ! l)) (en_dim E) (en_dim E)"
    and "mat_inside (en_img E) (m_qtype (en_m E)) (lo_w1 (m_layers (en_m E) ! l)) (en_dim E) (en_hidden E)"
    and "mat_inside (en_img E) (m_qtype (en_m E)) (lo_w2 (m_layers (en_m E) ! l)) (en_hidden E) (en_dim E)"
    and "mat_inside (en_img E) (m_qtype (en_m E)) (lo_w3 (m_layers (en_m E) ! l)) (en_dim E) (en_hidden E)"
  using assms by (simp_all add: env_ok_def tensors_inside_def Let_def)

lemma sim_layer:
  assumes ok: "env_ok E" and l: "l < en_layers E" and p: "pos < en_slots E"
  shows "simulates E (fw_layer (en_m E) pos iv l) (run_steps (\<lambda>v g. g v) (layer_steps E pos iv l))"
proof -
  note e = env_dims [OF ok] and T = tracked_buffers and I = layer_inside [OF ok l]
  have q: "nat (m_dim (en_m E)) = en_dim E" "nat (m_kv_dim (en_m E)) = en_kv_dim E" "nat (m_hidden_dim (en_m E)) = en_hidden E"
    by (rule refl)+
  note dd = sim_matvec [OF ok T(10) _ q(1) q(1) disjI1 [OF refl]] and dk = sim_matvec [OF ok T(10) _ q(1) q(2) disjI1 [OF refl]]
    and dh = sim_matvec [OF ok T(10) _ q(1) q(3) disjI1 [OF refl]]
  note steps = sim_norm [OF ok T(2) I(1)] sim_quantize [OF T(2) T(10) q(1)] dd [OF T(6) I(3)] dk [OF T(8) I(4)] dk [OF T(9) I(5)]
    sim_rope [OF ok T(6) q(1) e(7)] sim_rope [OF ok T(8) q(2) e(8)] sim_kv_store [OF ok l p] sim_attention [OF ok l p]
    dd [OF T(3) I(6)] sim_residual [OF ok] sim_norm [OF ok T(2) I(2)] dh [OF T(4) I(7)] dh [OF T(5) I(9)] sim_swiglu [OF ok]
    sim_quantize [OF T(4) T(11) q(3)] sim_matvec [OF ok T(11) T(3) q(3) q(1) disjI2 [OF refl] I(8)]
  show ?thesis
    unfolding fw_layer_def layer_steps_def Let_def
    by (rule simulates_run) (simp only: list_all2_Cons list_all2_Nil, intro conjI refl, (rule steps)+)
qed

text \<open>What the steps of a layer leave in the buffers: the layer's value and one more cell.\<close>

lemma put_cell_past:
  "map (v_cells (put_cell l pos c v) l) [0..<pos + 1] = map (v_cells v l) [0..<pos] @ [c]"
  by (simp add: put_cell_def)

lemma put_cell_simps [simp]:
  "v_x (put_cell l pos c v) = v_x v" "v_xb (put_cell l pos c v) = v_xb v" "v_q (put_cell l pos c v) = v_q v"
  "v_rope (put_cell l pos c v) = v_rope v"
  by (simp_all add: put_cell_def)

lemma layer_steps_value:
  "case layer_value (en_img E) (en_m E) (en_kv E) (v_rope v) iv (map (v_cells v l) [0..<pos]) l (v_x v) of
      None \<Rightarrow> run_steps (\<lambda>v g. g v) (layer_steps E pos iv l) v = None
    | Some (x, c) \<Rightarrow> \<exists>v'. run_steps (\<lambda>v g. g v) (layer_steps E pos iv l) v = Some v' \<and> v_x v' = x
        \<and> v_rope v' = v_rope v \<and> v_cells v' = v_cells (put_cell l pos c v)"
proof -
  have c: "map (v_cells (put_cell l pos c w) l) [0..<Suc pos] = map (v_cells v l) [0..<pos] @ [c]"
    if "v_cells w = v_cells v" for w c
    using put_cell_past [of l pos c w] by (simp only: that Suc_eq_plus1)
  show ?thesis
    unfolding layer_value_def layer_steps_def Let_def
    by (auto simp del: upt_Suc simp: c split: Option.bind_splits option.splits)
      (simp add: put_cell_def cong: if_cong)
qed

section \<open>The whole step\<close>

text \<open>The layers one after the other.\<close>

definition layers_value ::
  "fw_env \<Rightarrow> (f32 \<times> f32) list \<Rightarrow> f32 \<Rightarrow> (kv_cell \<times> kv_cell) list list \<Rightarrow> nat \<Rightarrow> f32 list
     \<Rightarrow> (f32 list \<times> (kv_cell \<times> kv_cell) list) option" where
  "layers_value E rope iv hist n x = run_steps (\<lambda>(x, new) l. do {
       (x, c) \<leftarrow> layer_value (en_img E) (en_m E) (en_kv E) rope iv (map (\<lambda>cells. cells ! l) hist) l x;
       Some (x, new @ [c])
     }) [0..<n] (x, [])"

text \<open>The cache holds a history: one key and value for each layer and earlier position.\<close>

definition holds :: "fw_env \<Rightarrow> (kv_cell \<times> kv_cell) list list \<Rightarrow> (nat \<Rightarrow> nat \<Rightarrow> kv_cell \<times> kv_cell) \<Rightarrow> bool" where
  "holds E hist cells \<longleftrightarrow> (\<forall>l < en_layers E. \<forall>t < length hist. cells l t = hist ! t ! l)"

lemma holds_past:
  "holds E hist cells \<Longrightarrow> l < en_layers E \<Longrightarrow> map (cells l) [0..<length hist] = map (\<lambda>c. c ! l) hist"
  by (intro nth_equalityI) (simp_all add: holds_def)

lemma layers_value_length: "layers_value E rope iv hist n x = Some (x', new) \<Longrightarrow> length new = n"
proof (induction n arbitrary: x' new)
  case (Suc n)
  then show ?case
    by (auto simp: layers_value_def run_steps_append split: option.splits Option.bind_splits)
qed (simp add: layers_value_def)

lemma layers_steps_value:
  assumes "holds E hist (v_cells v)" and "n \<le> en_layers E"
  shows "case layers_value E (v_rope v) iv hist n (v_x v) of
      None \<Rightarrow> run_steps (\<lambda>v g. g v) (map (\<lambda>l. run_steps (\<lambda>v g. g v) (layer_steps E (length hist) iv l)) [0..<n]) v = None
    | Some (x, new) \<Rightarrow> \<exists>v'. run_steps (\<lambda>v g. g v) (map (\<lambda>l. run_steps (\<lambda>v g. g v) (layer_steps E (length hist) iv l)) [0..<n]) v = Some v'
        \<and> v_x v' = x \<and> v_rope v' = v_rope v
        \<and> v_cells v' = (\<lambda>l t. if l < n \<and> t = length hist then new ! l else v_cells v l t)"
  using assms(2)
proof (induction n)
  case (Suc n)
  let ?run = "\<lambda>n. run_steps (\<lambda>v g. g v) (map (\<lambda>l. run_steps (\<lambda>v g. g v) (layer_steps E (length hist) iv l)) [0..<n]) v"
  have IH: "case layers_value E (v_rope v) iv hist n (v_x v) of None \<Rightarrow> ?run n = None
    | Some (x, new) \<Rightarrow> \<exists>v'. ?run n = Some v' \<and> v_x v' = x \<and> v_rope v' = v_rope v
        \<and> v_cells v' = (\<lambda>l t. if l < n \<and> t = length hist then new ! l else v_cells v l t)"
    using Suc by simp
  have lv: "layers_value E (v_rope v) iv hist (Suc n) (v_x v) = do {
      (x, new) \<leftarrow> layers_value E (v_rope v) iv hist n (v_x v);
      (x, c) \<leftarrow> layer_value (en_img E) (en_m E) (en_kv E) (v_rope v) iv (map (\<lambda>cells. cells ! n) hist) n x;
      Some (x, new @ [c]) }"
    by (auto simp: layers_value_def run_steps_append split: option.splits Option.bind_splits)
  have run: "?run (Suc n) = Option.bind (?run n) (run_steps (\<lambda>v g. g v) (layer_steps E (length hist) iv n))"
    by (simp add: run_steps_append split: option.splits)
  show ?case
  proof (cases "layers_value E (v_rope v) iv hist n (v_x v)")
    case None
    then show ?thesis using IH unfolding lv run by simp
  next
    case (Some p)
    obtain x new where p: "p = (x, new)" by (cases p)
    obtain v1 where v1: "?run n = Some v1" "v_x v1 = x" "v_rope v1 = v_rope v"
      "v_cells v1 = (\<lambda>l t. if l < n \<and> t = length hist then new ! l else v_cells v l t)"
      using IH Some p by auto
    have n: "length new = n" using layers_value_length Some p by blast
    have "map (v_cells v1 n) [0..<length hist] = map (v_cells v n) [0..<length hist]" by (simp add: v1(4))
    also have "\<dots> = map (\<lambda>c. c ! n) hist" using holds_past [OF assms(1)] Suc.prems by simp
    finally have past: "map (v_cells v1 n) [0..<length hist] = map (\<lambda>c. c ! n) hist" .
    note ls = layer_steps_value [where E = E and v = v1 and iv = iv and l = n and pos = "length hist", unfolded v1(2,3) past]
    show ?thesis
    proof (cases "layer_value (en_img E) (en_m E) (en_kv E) (v_rope v) iv (map (\<lambda>cells. cells ! n) hist) n x")
      case None
      then show ?thesis using ls unfolding lv run Some p v1(1) by simp
    next
      case (Some q)
      obtain x' c where q: "q = (x', c)" by (cases q)
      obtain v2 where v2: "run_steps (\<lambda>v g. g v) (layer_steps E (length hist) iv n) v1 = Some v2" "v_x v2 = x'" "v_rope v2 = v_rope v"
        "v_cells v2 = v_cells (put_cell n (length hist) c v1)"
        using ls Some q by auto
      have "v_cells v2 = (\<lambda>l t. if l < Suc n \<and> t = length hist then (new @ [c]) ! l else v_cells v l t)"
        unfolding v2(4) using n by (auto simp: put_cell_def v1(4) fun_eq_iff nth_append less_Suc_eq)
      then show ?thesis
        using v2 Some q unfolding lv run \<open>layers_value E (v_rope v) iv hist n (v_x v) = Some p\<close> p v1(1) by simp
    qed
  qed
qed (simp add: layers_value_def)

lemma forward_value_layers:
  "forward_value (en_img E) (en_m E) (en_kv E) hist token = do {
     rope \<leftarrow> those (map (rope_pair (h_rope_theta (m_hdr (en_m E))) (en_head E) (length hist)) [0..<en_head E div 2]);
     (x, new) \<leftarrow> layers_value E rope (f32_div (f32_of_int 1) (f32_sqrt (f32_of_int (m_head_size (en_m E))))) hist (en_layers E)
        (map (weight_at (drop (unat (m_tok_emb (en_m E)) + nat token * (en_dim E div 32 * block_bytes (m_qtype (en_m E)))) (en_img E))
          (m_qtype (en_m E))) [0..<en_dim E]);
     xq \<leftarrow> tq_quantize_q8 (rms_value (h_norm_eps (m_hdr (en_m E))) (vec_at (en_img E) (m_rms_final (en_m E)) (en_dim E)) x) (en_dim E);
     Some (mat_value (en_img E) (m_qtype (en_m E)) (m_classifier (en_m E)) (en_dim E) (en_vocab E) xq, new) }"
  unfolding forward_value_def layers_value_def Let_def ..

lemma simulates_append:
  assumes "list_all2 (simulates E) fs gs" and "list_all2 (simulates E) fs' gs'"
  shows "list_all2 (simulates E) (fs @ fs') (gs @ gs')"
  using assms by (rule list_all2_appendI)

lemma forward_simulated:
  assumes ok: "env_ok E" and t: "0 \<le> token" "token < m_vocab_size (en_m E)" and p: "length hist < en_slots E"
    and a: "agrees E v rt" and h: "holds E hist (v_cells v)"
  shows "case forward_value (en_img E) (en_m E) (en_kv E) hist token of
      None \<Rightarrow> tq_forward rt token (int (length hist)) = None
    | Some (logits, new) \<Rightarrow> \<exists>rt'. tq_forward rt token (int (length hist)) = Some (TQ_OK, rt')
        \<and> rt_logits rt' = logits \<and> (\<exists>v'. agrees E v' rt' \<and> holds E (hist @ [new]) (v_cells v'))"
proof -
  define pos iv where "pos = length hist" and "iv = f32_div (f32_of_int 1) (f32_sqrt (f32_of_int (m_head_size (en_m E))))"
  note D = agreesD [OF a] and T = tracked_buffers
  let ?emb = "map (weight_at (drop (unat (m_tok_emb (en_m E)) + nat token * (en_dim E div 32 * block_bytes (m_qtype (en_m E)))) (en_img E))
          (m_qtype (en_m E))) [0..<en_dim E]"
  let ?rope = "those (map (rope_pair (h_rope_theta (m_hdr (en_m E))) (en_head E) pos) [0..<en_head E div 2])"
  let ?fin = "rms_value (h_norm_eps (m_hdr (en_m E))) (vec_at (en_img E) (m_rms_final (en_m E)) (en_dim E))"
  let ?cls = "mat_value (en_img E) (m_qtype (en_m E)) (m_classifier (en_m E)) (en_dim E) (en_vocab E)"
  define pre :: "(fw_vals \<Rightarrow> fw_vals option) list" where "pre = [\<lambda>v. Some (v\<lparr>v_x := ?emb\<rparr>), \<lambda>v. map_option (\<lambda>r. v\<lparr>v_rope := r\<rparr>) ?rope]"
  define mid :: "(fw_vals \<Rightarrow> fw_vals option) list" where "mid = map (\<lambda>l. run_steps (\<lambda>v g. g v) (layer_steps E pos iv l)) [0..<en_layers E]"
  define post :: "(fw_vals \<Rightarrow> fw_vals option) list" where "post = [\<lambda>v. Some (v\<lparr>v_x := ?fin (v_x v)\<rparr>), \<lambda>v. map_option (\<lambda>bs. v\<lparr>v_xq := bs\<rparr>) (tq_quantize_q8 (v_x v) (en_dim E)),
      \<lambda>v. Some (v\<lparr>v_logits := ?cls (v_xq v)\<rparr>)]"
  have i: "vec_inside (en_img E) (m_rms_final (en_m E)) (en_dim E)"
    "mat_inside (en_img E) (m_qtype (en_m E)) (m_classifier (en_m E)) (en_dim E) (en_vocab E)"
    using ok by (simp_all add: env_ok_def tensors_inside_def Let_def)
  have p': "pos < en_slots E" using p by (simp add: pos_def)
  have s1: "list_all2 (simulates E) [fw_embed token, calm (tq_rope_prepare pos)] pre"
    unfolding pre_def
    by (simp only: list_all2_Cons list_all2_Nil, intro conjI refl, rule sim_embed [OF ok t], rule sim_rope_prepare [OF ok])
  have s2: "list_all2 (simulates E) (map (fw_layer (en_m E) pos iv) [0..<en_layers E]) mid"
    unfolding mid_def by (intro list_all2_all_nthI) (simp_all add: sim_layer [OF ok _ p'])
  have s3: "list_all2 (simulates E) [fw_norm rt_x rt_x_update (m_rms_final (en_m E)), calm (fw_quantize rt_x rt_xq_update (m_dim (en_m E))),
      fw_matvec rt_logits rt_logits_update (m_classifier (en_m E)) (m_dim (en_m E)) (m_vocab_size (en_m E)) rt_xq] post"
    unfolding post_def
    by (simp only: list_all2_Cons list_all2_Nil, intro conjI refl, rule sim_norm [OF ok T(1) i(1)],
        rule sim_quantize [OF T(1) T(10) refl], rule sim_matvec [OF ok T(10) T(7) refl refl disjI1 [OF refl] i(2)])
  have "\<not> en_seq E \<le> int (length hist)" using p by linarith
  then have fw: "tq_forward rt token (int (length hist)) = run_ok ([fw_embed token, calm (tq_rope_prepare pos)]
      @ map (fw_layer (en_m E) pos iv) [0..<en_layers E]
      @ [fw_norm rt_x rt_x_update (m_rms_final (en_m E)), calm (fw_quantize rt_x rt_xq_update (m_dim (en_m E))),
         fw_matvec rt_logits rt_logits_update (m_classifier (en_m E)) (m_dim (en_m E)) (m_vocab_size (en_m E)) rt_xq]) rt"
    using t p unfolding tq_forward_def Let_def D(1,2) pos_def iv_def by (simp add: not_le)
  note sim = simulates_run [OF simulates_append [OF s1 simulates_append [OF s2 s3]], unfolded simulates_def, rule_format, OF a,
      folded fw]
  show ?thesis
  proof (cases ?rope)
    case None
    then have "run_steps (\<lambda>v g. g v) (pre @ mid @ post) v = None" by (simp add: pre_def)
    then show ?thesis using sim None by (simp add: forward_value_layers pos_def)
  next
    case (Some rope)
    define v1 where "v1 = v\<lparr>v_x := ?emb, v_rope := rope\<rparr>"
    have r1: "run_steps (\<lambda>v g. g v) (pre @ mid @ post) v = Option.bind (run_steps (\<lambda>v g. g v) mid v1) (run_steps (\<lambda>v g. g v) post)"
      using Some by (simp add: pre_def v1_def run_steps_append split: option.splits)
    have "holds E hist (v_cells v1)" using h by (simp add: v1_def)
    from layers_steps_value [OF this order_refl, of iv, folded pos_def, folded mid_def]
    have m: "case layers_value E rope iv hist (en_layers E) ?emb of None \<Rightarrow> run_steps (\<lambda>v g. g v) mid v1 = None
      | Some (x, new) \<Rightarrow> \<exists>v'. run_steps (\<lambda>v g. g v) mid v1 = Some v' \<and> v_x v' = x
        \<and> v_cells v' = (\<lambda>l t. if l < en_layers E \<and> t = pos then new ! l else v_cells v l t)"
      by (auto simp: v1_def cong: if_cong split: option.splits)
    show ?thesis
    proof (cases "layers_value E rope iv hist (en_layers E) ?emb")
      case None
      then show ?thesis using sim m Some unfolding r1 forward_value_layers pos_def [symmetric] iv_def [symmetric] by simp
    next
      case (Some p)
      obtain x new where p: "p = (x, new)" by (cases p)
      obtain v2 where v2: "run_steps (\<lambda>v g. g v) mid v1 = Some v2" "v_x v2 = x"
        "v_cells v2 = (\<lambda>l t. if l < en_layers E \<and> t = pos then new ! l else v_cells v l t)"
        using m Some p by auto
      have fv: "forward_value (en_img E) (en_m E) (en_kv E) hist token = do { xq \<leftarrow> tq_quantize_q8 (?fin x) (en_dim E); Some (?cls xq, new) }"
        using \<open>?rope = Some rope\<close> Some unfolding forward_value_layers pos_def [symmetric] iv_def [symmetric] p by simp
      have r2: "run_steps (\<lambda>v g. g v) (pre @ mid @ post) v = map_option (\<lambda>bs. v2\<lparr>v_x := ?fin x, v_xq := bs, v_logits := ?cls bs\<rparr>)
          (tq_quantize_q8 (?fin x) (en_dim E))"
        unfolding r1 v2(1) by (simp add: post_def v2(2) split: option.splits)
      show ?thesis
      proof (cases "tq_quantize_q8 (?fin x) (en_dim E)")
        case None
        then show ?thesis using sim unfolding fv r2 by simp
      next
        case (Some bs)
        obtain rt' where rt': "tq_forward rt token (int (length hist)) = Some (TQ_OK, rt')"
          "agrees E (v2\<lparr>v_x := ?fin x, v_xq := bs, v_logits := ?cls bs\<rparr>) rt'"
          using sim Some unfolding r2 by auto
        have "holds E (hist @ [new]) (v_cells (v2\<lparr>v_x := ?fin x, v_xq := bs, v_logits := ?cls bs\<rparr>))"
          using h by (auto simp: holds_def v2(3) pos_def nth_append less_Suc_eq)
        then have "\<exists>v'. agrees E v' rt' \<and> holds E (hist @ [new]) (v_cells v')" using rt'(2) by blast
        moreover have "rt_logits rt' = ?cls bs" using trackedD(1) [OF T(7) rt'(2)] by simp
        ultimately show ?thesis using rt'(1) Some unfolding fv by simp
      qed
    qed
  qed
qed

section \<open>Runtimes that can run\<close>

text \<open>Every buffer has the length that \<^verbatim>\<open>tq_runtime_init\<close> carves for it, whatever it contains.\<close>

definition rt_fits :: "fw_env \<Rightarrow> 'c tq_runtime \<Rightarrow> bool" where
  "rt_fits E rt \<longleftrightarrow> rt_fixed E rt
     \<and> length (rt_x rt) = en_dim E \<and> length (rt_xb rt) = en_dim E \<and> length (rt_xb2 rt) = en_dim E
     \<and> length (rt_hb rt) = en_hidden E \<and> length (rt_hb3 rt) = en_hidden E \<and> length (rt_q rt) = en_dim E
     \<and> length (rt_logits rt) = en_vocab E \<and> length (rt_kb rt) = en_kv_dim E \<and> length (rt_vb rt) = en_kv_dim E
     \<and> length (rt_xq rt) = en_dim E div 32 \<and> length (rt_hq rt) = en_hidden E div 32
     \<and> length (rt_rope_cos rt) = en_head E div 2 \<and> length (rt_rope_sin rt) = en_head E div 2"

text \<open>\<open>hist\<close> lists, for each position run so far, the key and the value of every layer.\<close>

definition rt_ready :: "fw_env \<Rightarrow> (kv_cell \<times> kv_cell) list list \<Rightarrow> 'c tq_runtime \<Rightarrow> bool" where
  "rt_ready E hist rt \<longleftrightarrow> rt_fits E rt \<and> length hist \<le> en_slots E \<and> holds E hist (rt_cells rt)"

lemma agrees_fits: "agrees E v rt \<Longrightarrow> rt_fits E rt"
  by (auto simp: agrees_def rt_fits_def vals_fit_def)

lemma fits_agrees:
  assumes "rt_fits E rt"
  shows "\<exists>v. agrees E v rt \<and> v_cells v = rt_cells rt"
proof -
  let ?v = "\<lparr>v_x = rt_x rt, v_xb = rt_xb rt, v_xb2 = rt_xb2 rt, v_hb = rt_hb rt, v_hb3 = rt_hb3 rt, v_q = rt_q rt,
    v_logits = rt_logits rt, v_kb = rt_kb rt, v_vb = rt_vb rt, v_xq = rt_xq rt, v_hq = rt_hq rt,
    v_rope = zip (rt_rope_cos rt) (rt_rope_sin rt), v_cells = rt_cells rt\<rparr>"
  have "agrees E ?v rt" using assms by (simp add: agrees_def rt_fits_def vals_fit_def)
  then show ?thesis by (intro exI [of _ ?v]) simp
qed

lemma forward_step:
  assumes ok: "env_ok E" and t: "0 \<le> token" "token < m_vocab_size (en_m E)" and p: "length hist < en_slots E"
    and r: "rt_ready E hist rt"
  shows "case forward_value (en_img E) (en_m E) (en_kv E) hist token of
      None \<Rightarrow> tq_forward rt token (int (length hist)) = None
    | Some (logits, new) \<Rightarrow> \<exists>rt'. tq_forward rt token (int (length hist)) = Some (TQ_OK, rt')
        \<and> rt_logits rt' = logits \<and> rt_ready E (hist @ [new]) rt'"
proof -
  obtain v where v: "agrees E v rt" "v_cells v = rt_cells rt" using fits_agrees r unfolding rt_ready_def by blast
  have h: "holds E hist (v_cells v)" using r v(2) by (simp add: rt_ready_def)
  have "rt_ready E (hist @ [new]) rt'" if "agrees E v' rt'" "holds E (hist @ [new]) (v_cells v')" for v' rt' new
    using that p agrees_fits [OF that(1)] agreesD(7) [OF that(1)] by (simp add: rt_ready_def holds_def)
  then show ?thesis
    using forward_simulated [OF ok t p v(1) h] by (fastforce split: option.splits)
qed

lemma ready_prefix: "rt_ready E hist rt \<Longrightarrow> rt_ready E (take n hist) rt"
  by (auto simp: rt_ready_def holds_def)

lemma ready_fresh: "rt_fits E rt \<Longrightarrow> rt_ready E [] rt"
  by (simp add: rt_ready_def holds_def)

section \<open>The interface of a predictor\<close>

text \<open>
  The callers of \<^verbatim>\<open>tq_forward\<close> give it one token after the other and read the logits. What they
  may rely on: the answer is a function of the history alone, and a runtime that holds a
  history holds its beginnings, so that a caller can start over at any earlier position.
\<close>

locale predictor =
  fixes step :: "'s \<Rightarrow> int \<Rightarrow> int \<Rightarrow> (tq_status \<times> 's) option"
    and logits :: "'s \<Rightarrow> f32 list"
    and ready :: "'h list \<Rightarrow> 's \<Rightarrow> bool"
    and val :: "'h list \<Rightarrow> int \<Rightarrow> (f32 list \<times> 'h) option"
    and valid :: "int \<Rightarrow> bool"
    and room :: nat
  assumes step_value: "ready hist s \<Longrightarrow> length hist < room \<Longrightarrow> valid token \<Longrightarrow>
      case val hist token of
        None \<Rightarrow> step s token (int (length hist)) = None
      | Some (lg, new) \<Rightarrow> \<exists>s'. step s token (int (length hist)) = Some (TQ_OK, s') \<and> logits s' = lg \<and> ready (hist @ [new]) s'"
    and prefix: "ready hist s \<Longrightarrow> ready (take n hist) s"

text \<open>A run over a list of tokens, as the callers' loops make it, and its value.\<close>

fun feed :: "('s \<Rightarrow> int \<Rightarrow> int \<Rightarrow> (tq_status \<times> 's) option) \<Rightarrow> 's \<Rightarrow> int \<Rightarrow> int list \<Rightarrow> (tq_status \<times> 's) option" where
  "feed step s pos [] = Some (TQ_OK, s)"
| "feed step s pos (t # ts) =
     (case step s t pos of
        None \<Rightarrow> None
      | Some (rc, s) \<Rightarrow> if rc \<noteq> TQ_OK then Some (rc, s) else feed step s (pos + 1) ts)"

fun feed_value :: "('h list \<Rightarrow> int \<Rightarrow> (f32 list \<times> 'h) option) \<Rightarrow> 'h list \<Rightarrow> f32 list \<Rightarrow> int list \<Rightarrow> (f32 list \<times> 'h list) option" where
  "feed_value val hist lg [] = Some (lg, hist)"
| "feed_value val hist lg (t # ts) =
     (case val hist t of None \<Rightarrow> None | Some (lg, new) \<Rightarrow> feed_value val (hist @ [new]) lg ts)"

context predictor begin

lemma step_some:
  assumes "ready hist s" and "length hist < room" and "valid token" and "val hist token = Some (lg, new)"
  obtains s' where "step s token (int (length hist)) = Some (TQ_OK, s')" and "logits s' = lg" and "ready (hist @ [new]) s'"
  using step_value [OF assms(1-3)] assms(4) by auto

lemma step_none:
  assumes "ready hist s" and "length hist < room" and "valid token" and "val hist token = None"
  shows "step s token (int (length hist)) = None"
  using step_value [OF assms(1-3)] assms(4) by simp

lemma feed_run:
  assumes "ready hist s" and "length hist + length ts \<le> room" and "\<forall>t \<in> set ts. valid t" and "hist \<noteq> [] \<longrightarrow> logits s = lg"
  shows "case feed_value val hist lg ts of
      None \<Rightarrow> feed step s (int (length hist)) ts = None
    | Some (lg', hist') \<Rightarrow> \<exists>s'. feed step s (int (length hist)) ts = Some (TQ_OK, s') \<and> ready hist' s'
        \<and> (hist' \<noteq> [] \<longrightarrow> logits s' = lg')"
  using assms
proof (induction ts arbitrary: hist s lg)
  case (Cons t ts)
  then have r: "length hist < room" "valid t" by simp_all
  show ?case
  proof (cases "val hist t")
    case None
    then show ?thesis using step_none [OF Cons.prems(1) r] by simp
  next
    case (Some p)
    obtain lg1 new where p: "p = (lg1, new)" by (cases p)
    obtain s1 where s1: "step s t (int (length hist)) = Some (TQ_OK, s1)" "logits s1 = lg1" "ready (hist @ [new]) s1"
      using step_some [OF Cons.prems(1) r] Some p by blast
    have "case feed_value val (hist @ [new]) lg1 ts of
        None \<Rightarrow> feed step s1 (int (length (hist @ [new]))) ts = None
      | Some (lg', hist') \<Rightarrow> \<exists>s'. feed step s1 (int (length (hist @ [new]))) ts = Some (TQ_OK, s') \<and> ready hist' s'
          \<and> (hist' \<noteq> [] \<longrightarrow> logits s' = lg')"
      using Cons.prems s1 by (intro Cons.IH) simp_all
    moreover have "feed step s (int (length hist)) (t # ts) = feed step s1 (int (length (hist @ [new]))) ts"
      using s1(1) by (simp add: add.commute)
    ultimately show ?thesis by (simp only: feed_value.simps Some p option.case prod.case)
  qed
qed simp

end

definition valid_token :: "tq_model \<Rightarrow> int \<Rightarrow> bool" where
  "valid_token m t \<longleftrightarrow> 0 \<le> t \<and> t < m_vocab_size m"

interpretation fwd: predictor tq_forward rt_logits "\<lambda>hist rt. env_ok E \<and> rt_ready E hist rt"
  "forward_value (en_img E) (en_m E) (en_kv E)" "valid_token (en_m E)" "en_slots E" for E
proof
  fix hist token and rt :: "'a tq_runtime"
  assume r: "env_ok E \<and> rt_ready E hist rt" and "length hist < en_slots E" "valid_token (en_m E) token"
  then show "case forward_value (en_img E) (en_m E) (en_kv E) hist token of
      None \<Rightarrow> tq_forward rt token (int (length hist)) = None
    | Some (lg, new) \<Rightarrow> \<exists>s'. tq_forward rt token (int (length hist)) = Some (TQ_OK, s') \<and> rt_logits s' = lg
        \<and> env_ok E \<and> rt_ready E (hist @ [new]) s'"
    using forward_step [of E token hist rt] by (auto simp: valid_token_def split: option.splits)
qed (use ready_prefix in blast)

lemma feed_value_length: "feed_value val hist lg ts = Some (lg', hist') \<Longrightarrow> length hist' = length hist + length ts"
  by (induction ts arbitrary: hist lg) (auto split: option.splits)

section \<open>A small runtime\<close>

text \<open>The blank model of theory \<open>Tq_Blank\<close>, in memory and on a card, in buffers that hold \<open>z\<close>.\<close>

definition blank_env :: fw_env where
  "blank_env = \<lparr>en_img = blank_image, en_limit = 256, en_m = blank_model, en_seq = 4, en_kv = TQ_KV_F32\<rparr>"

definition blank_runtime :: "'c tq_store \<Rightarrow> f32 \<Rightarrow> 'c tq_runtime" where
  "blank_runtime st z =
     \<lparr>rt_m = blank_model, rt_store = st, rt_max_seq = 4, rt_kv_dtype = TQ_KV_F32, rt_x = replicate 32 z, rt_xb = replicate 32 z,
      rt_xb2 = replicate 32 z, rt_hb = replicate 32 z, rt_hb3 = replicate 32 z, rt_q = replicate 32 z, rt_att = replicate 128 z,
      rt_logits = replicate 5 z, rt_kb = [z], rt_vb = [z], rt_rope_cos = [], rt_rope_sin = [],
      rt_xq = [\<lparr>q80_d = 0, q80_qs = []\<rparr>], rt_hq = [\<lparr>q80_d = 0, q80_qs = []\<rparr>],
      rt_k_f32 = replicate 4 z, rt_v_f32 = replicate 4 z, rt_k_q8 = [], rt_v_q8 = [], rt_k_scale = [], rt_v_scale = [],
      rt_bytes_read = 0\<rparr>"

definition blank_mapped :: "unit tq_store" where
  "blank_mapped = tq_store_init_mapped blank_image 2048"

definition blank_streamed :: "unit tq_store" where
  "blank_streamed = tq_store_init_stream 2048 (\<lambda>c off n. (c, 0, take (unat n) (drop (unat off) blank_image))) None (replicate 256 9) 256"

lemma blank_env_fields [simp]:
  "en_m blank_env = blank_model" "en_img blank_env = blank_image" "en_kv blank_env = TQ_KV_F32" "en_seq blank_env = 4"
  by (simp_all add: blank_env_def)

lemma blank_env_ok: "env_ok blank_env"
  by (simp add: env_ok_def blank_env_def dims_ok_def blank_model_def quantized_def tensors_inside_def mat_inside_def vec_inside_def
      block_bytes_def dtypes blank_image_def no_offsets_def zero_model_def Let_def less_Suc_eq)

lemma blank_stores: "store_shows blank_image 256 blank_mapped" "store_shows blank_image 256 blank_streamed"
proof -
  have l: "length blank_image = 2048" by (simp add: blank_image_def)
  show "store_shows blank_image 256 blank_mapped"
    using store_init_shows(1) [of blank_image 256] by (simp add: blank_mapped_def l)
  let ?rd = "\<lambda>c off n. (c :: unit option, 0 :: int, take (unat n) (drop (unat off) blank_image))"
  have "honest_read ?rd (\<lambda>_. True) blank_image" by (simp add: honest_read_def)
  note store_init_shows(2) [OF _ this, where ctx = None and tile = "replicate 256 9" and tb = 256]
  then show "store_shows blank_image 256 blank_streamed" by (simp add: blank_streamed_def l)
qed

lemma blank_fits: "store_shows blank_image 256 st \<Longrightarrow> rt_fits blank_env (blank_runtime st z)"
  by (simp add: rt_fits_def rt_fixed_def blank_env_def blank_runtime_def blank_model_def cache_fits_def Let_def zero_model_def)

lemma blank_ready: "rt_ready blank_env [] (blank_runtime blank_mapped z)" "rt_ready blank_env [] (blank_runtime blank_streamed z)"
  by (rule ready_fresh [OF blank_fits [OF blank_stores(1)]], rule ready_fresh [OF blank_fits [OF blank_stores(2)]])

lemma blank_valid: "valid_token blank_model t \<longleftrightarrow> 0 \<le> t \<and> t < 5"
  by (simp add: valid_token_def blank_model_def)

lemma blank_bos: "sint (h_bos_token (m_hdr blank_model)) = 0" "sint (h_eos_token (m_hdr blank_model)) = 3"
  by (simp_all add: blank_model_def zero_header_def header_at_def le32_def)

section \<open>Properties\<close>

text \<open>
  C8: one decode step refines the transformer. On a runtime whose buffers have their sizes,
  whatever they contain, whose store shows the image and whose cache holds the keys and values
  of the earlier positions, \<^verbatim>\<open>tq_forward\<close> at the next position computes exactly the reference
  function \<open>forward_value\<close>: the same logits, and a cache that holds the position as well; it is
  undefined (a NaN that is converted to an integer) exactly where the function is.
\<close>

theorem forward_refines:
  assumes "env_ok E" and "rt_ready E hist rt" and "length hist < en_slots E" and "valid_token (en_m E) token"
  shows "case forward_value (en_img E) (en_m E) (en_kv E) hist token of
      None \<Rightarrow> tq_forward rt token (int (length hist)) = None
    | Some (logits, new) \<Rightarrow> \<exists>rt'. tq_forward rt token (int (length hist)) = Some (TQ_OK, rt')
        \<and> rt_logits rt' = logits \<and> rt_ready E (hist @ [new]) rt'"
  using fwd.step_value [of E hist rt token] assms by (auto split: option.splits)

theorem forward_refines_witness:
  "\<exists>rt'. tq_forward (blank_runtime blank_streamed 7) 2 0 = Some (TQ_OK, rt') \<and> rt_logits rt' = [0, 0, 0, 0, 0]
    \<and> rt_ready blank_env [[(zero_cell, zero_cell)]] rt'"
proof -
  have "zs 5 = [0, 0, 0, 0, 0]" by (simp add: numeral_eq_Suc)
  then show ?thesis
    using forward_refines [OF blank_env_ok blank_ready(2) [of 7], of 2] blank_forward [of 0 2] by (auto simp: blank_valid)
qed



text \<open>
  C10: two devices agree. Two runtimes of the same model and image, one mapped and one streamed
  through a tile, say, with contexts of different lengths and whatever left in buffers and
  caches, that are fed the same tokens from position 0 end with the same logits, bit for bit,
  or are both undefined.
\<close>

theorem replay_same:
  assumes "env_ok E1" and "env_ok E2" and "rt_fits E1 rt1" and "rt_fits E2 rt2"
    and "en_img E1 = en_img E2" and "en_m E1 = en_m E2" and "en_kv E1 = en_kv E2"
    and "\<forall>t \<in> set tokens. valid_token (en_m E1) t" and "length tokens \<le> en_slots E1" and "length tokens \<le> en_slots E2"
    and "tokens \<noteq> []"
  shows "(feed tq_forward rt1 0 tokens = None \<and> feed tq_forward rt2 0 tokens = None)
    \<or> (\<exists>rt1' rt2'. feed tq_forward rt1 0 tokens = Some (TQ_OK, rt1') \<and> feed tq_forward rt2 0 tokens = Some (TQ_OK, rt2')
        \<and> rt_logits rt1' = rt_logits rt2')"
proof -
  have a: "env_ok E1 \<and> rt_ready E1 [] rt1" "env_ok E2 \<and> rt_ready E2 [] rt2" using assms(1-4) ready_fresh by blast+
  note f1 = fwd.feed_run [OF a(1), of tokens "[]"] and f2 = fwd.feed_run [OF a(2), of tokens "[]"]
  show ?thesis
  proof (cases "feed_value (forward_value (en_img E2) (en_m E2) (en_kv E2)) [] [] tokens")
    case None
    then show ?thesis using f1 f2 assms(5-10) by simp
  next
    case (Some p)
    obtain lg hist' where p: "p = (lg, hist')" by (cases p)
    then have "hist' \<noteq> []" using feed_value_length Some assms(11) by fastforce
    then show ?thesis using f1 f2 assms(5-10) Some p by auto
  qed
qed

theorem replay_same_witness:
  "\<exists>rt1' rt2'. feed tq_forward (blank_runtime blank_mapped 0) 0 [1, 2] = Some (TQ_OK, rt1')
     \<and> feed tq_forward (blank_runtime blank_streamed 5) 0 [1, 2] = Some (TQ_OK, rt2') \<and> rt_logits rt1' = rt_logits rt2'"
proof -
  have v: "feed_value (forward_value (en_img blank_env) (en_m blank_env) (en_kv blank_env)) [] [] [1, 2]
      = Some (zs 5, [[(zero_cell, zero_cell)], [(zero_cell, zero_cell)]])"
    using blank_forward [of 0 1] blank_forward [of 1 2] by simp
  have r: "env_ok blank_env \<and> rt_ready blank_env [] (blank_runtime blank_mapped 0)"
    by (simp add: blank_env_ok blank_ready)
  have s: "feed tq_forward (blank_runtime blank_mapped 0) 0 [1, 2] \<noteq> None"
    using fwd.feed_run [OF r, of "[1, 2]" "[]"] v by (auto simp: blank_valid simp del: feed.simps feed_value.simps)
  have "feed tq_forward (blank_runtime blank_mapped 0) 0 [1, 2] = None \<and> feed tq_forward (blank_runtime blank_streamed 5) 0 [1, 2] = None
    \<or> (\<exists>rt1' rt2'. feed tq_forward (blank_runtime blank_mapped 0) 0 [1, 2] = Some (TQ_OK, rt1')
        \<and> feed tq_forward (blank_runtime blank_streamed 5) 0 [1, 2] = Some (TQ_OK, rt2') \<and> rt_logits rt1' = rt_logits rt2')"
    by (rule replay_same [OF blank_env_ok blank_env_ok blank_fits [OF blank_stores(1)] blank_fits [OF blank_stores(2)] refl refl refl])
      (simp_all add: blank_valid)
  then show ?thesis
  proof
    assume "feed tq_forward (blank_runtime blank_mapped 0) 0 [1, 2] = None \<and> feed tq_forward (blank_runtime blank_streamed 5) 0 [1, 2] = None"
    with s show ?thesis by (simp del: feed.simps)
  qed
qed

end
