(* ===== verification/Tq_Session.thy ===== *)
theory Tq_Session imports Tq_Decode Tq_Image begin

text \<open>
  A session of \<^verbatim>\<open>src/core\<close>: the file is opened (\<^verbatim>\<open>tq_model_open\<close>), a runtime is laid out in the
  caller's arenas (\<^verbatim>\<open>tq_runtime_init\<close>), tokens are fed (\<^verbatim>\<open>tq_forward\<close>). \<open>carved_runtime\<close> is the
  runtime that an initialisation leaves, over whatever the arenas contain; \<open>session_ready\<close> brings
  the facts of the opening (theory \<open>Tq_Image\<close>) to the hypotheses of the decode step (theory
  \<open>Tq_Decode\<close>). The code never compares \<^verbatim>\<open>nbytes\<close> of a directory entry with its type and shape;
  \<open>honest_file\<close> is the hypothesis that stands for it.
\<close>

unbundle bit_operations_syntax

section \<open>The runtime that an initialisation leaves\<close>

text \<open>
  \<^verbatim>\<open>tq_runtime_init\<close> sets the pointers of the runtime to the carved buffers and does not clear
  them. \<open>mem\<close> gives what the arenas hold: floats, blocks and int8 values of buffer \<open>b\<close> at index \<open>i\<close>.
\<close>

record arena_mem =
  am_float :: "nat \<Rightarrow> nat \<Rightarrow> f32"
  am_block :: "nat \<Rightarrow> nat \<Rightarrow> tq_block_q80"
  am_byte :: "nat \<Rightarrow> nat \<Rightarrow> i8"

definition carved_runtime :: "arena_mem \<Rightarrow> tq_model \<Rightarrow> 'c tq_store \<Rightarrow> int \<Rightarrow> int \<Rightarrow> 'c tq_runtime" where
  "carved_runtime mem m st max_seq kv_dtype =
     (let fs = (\<lambda>b n. map (am_float mem b) [0..<nat n]); bs = (\<lambda>b n. map (am_block mem b) [0..<nat n div TQ_GROUP_SIZE]);
          qs = (\<lambda>b n. map (am_byte mem b) [0..<nat n]);
          kvn = nat (m_n_layers m) * nat max_seq * nat (m_kv_dim m);
          ns = nat (m_n_layers m) * nat max_seq * nat (m_n_kv_heads m);
          f32 = (kv_dtype = TQ_KV_F32)
      in \<lparr>rt_m = m, rt_store = st, rt_max_seq = max_seq, rt_kv_dtype = kv_dtype,
          rt_x = fs 0 (m_dim m), rt_xb = fs 1 (m_dim m), rt_xb2 = fs 2 (m_dim m), rt_hb = fs 4 (m_hidden_dim m),
          rt_hb3 = fs 5 (m_hidden_dim m), rt_q = fs 3 (m_dim m),
          rt_att = map (am_float mem 6) [0..<nat (m_n_heads m) * nat max_seq], rt_logits = fs 7 (m_vocab_size m),
          rt_kb = fs 10 (m_kv_dim m), rt_vb = fs 11 (m_kv_dim m),
          rt_rope_cos = map (am_float mem 12) [0..<nat (m_head_size m) div 2],
          rt_rope_sin = map (am_float mem 13) [0..<nat (m_head_size m) div 2],
          rt_xq = bs 8 (m_dim m), rt_hq = bs 9 (m_hidden_dim m),
          rt_k_f32 = (if f32 then map (am_float mem 14) [0..<kvn] else []),
          rt_v_f32 = (if f32 then map (am_float mem 15) [0..<kvn] else []),
          rt_k_q8 = (if f32 then [] else map (am_byte mem 14) [0..<kvn]),
          rt_v_q8 = (if f32 then [] else map (am_byte mem 15) [0..<kvn]),
          rt_k_scale = (if f32 then [] else map (am_float mem 16) [0..<ns]),
          rt_v_scale = (if f32 then [] else map (am_float mem 17) [0..<ns]),
          rt_bytes_read = 0\<rparr>)"

lemma carved_fits:
  assumes "store_shows (en_img E) (en_limit E) st"
  shows "rt_fits E (carved_runtime mem (en_m E) st (en_seq E) (en_kv E))"
  using assms
  by (simp add: rt_fits_def rt_fixed_def carved_runtime_def cache_fits_def Let_def TQ_GROUP_SIZE_def)

section \<open>From the directory to the tensors\<close>

text \<open>
  The bytes that the type and the shape of an entry take. The code checks the \<^verbatim>\<open>nbytes\<close> of an
  entry against the file but never against this size; \<open>honest_file\<close> is what it leaves to the
  exporter.
\<close>

definition shape_bytes :: "tq_tensor_entry \<Rightarrow> nat" where
  "shape_bytes e =
     (if e_ndim e = 2 then unat (e_shape e ! 1) div 32 * block_bytes (e_dtype e) * unat (e_shape e ! 0)
      else 4 * unat (e_shape e ! 0))"

definition honest_file :: "u8 list \<Rightarrow> bool" where
  "honest_file img \<longleftrightarrow>
     (\<forall>e \<in> set (directory img (header_at img)). unat (e_offset e) + shape_bytes e \<le> length img)"

lemma word_of_dim: "0 < n \<Longrightarrow> n < 2 ^ 31 \<Longrightarrow> unat (word_of_int n :: u32) = nat n \<and> word_of_int n \<noteq> (0 :: u32)"
proof -
  assume n: "0 < n" "n < 2 ^ 31"
  have "unat (word_of_int n :: u32) = nat n" using n by (simp add: unat_eq_nat_uint uint_word_of_int_eq take_bit_int_eq_self)
  moreover from this n have "(word_of_int n :: u32) \<noteq> 0" by auto
  ultimately show ?thesis ..
qed

lemma mat_from:
  assumes "tensor_fits hdr e qt (word_of_int r) (word_of_int c)" and "unat (e_offset e) + shape_bytes e \<le> length img"
    and "0 < r" "r < 2 ^ 31" "0 < c" "c < 2 ^ 31"
  shows "mat_inside img qt (e_offset e) (nat c) (nat r)"
  using assms(1,2) word_of_dim [OF assms(3,4)] word_of_dim [OF assms(5,6)]
  by (simp add: tensor_fits_def shape_bytes_def mat_inside_def)

lemma vec_from:
  assumes "tensor_fits hdr e TQ_DT_F32 (word_of_int r) 0" and "unat (e_offset e) + shape_bytes e \<le> length img"
    and "0 < r" "r < 2 ^ 31"
  shows "vec_inside img (e_offset e) (nat r)"
  using assms(1,2) word_of_dim [OF assms(3,4)] by (simp add: tensor_fits_def shape_bytes_def vec_inside_def)

text \<open>The dimensions of an opened model are those of the header, 32-bit signed integers.\<close>

lemma header_dims:
  "h_dim (header_at img) < 2 ^ 31" "h_hidden_dim (header_at img) < 2 ^ 31" "h_vocab_size (header_at img) < 2 ^ 31"
  "h_seq_len (header_at img) < 2 ^ 31" "h_n_layers (header_at img) < 2 ^ 31"
  using sint_less [of "le32 img 40"] sint_less [of "le32 img 44"] sint_less [of "le32 img 60"] sint_less [of "le32 img 64"]
    sint_less [of "le32 img 48"]
  by (simp_all add: header_at_def)

lemma kv_dim_le:
  assumes "dims_ok m"
  shows "m_kv_dim m \<le> m_dim m"
proof -
  have "m_n_kv_heads m \<le> m_kv_mul m * m_n_kv_heads m"
    using assms zero_less_mult_pos2 [of "m_kv_mul m" "m_n_kv_heads m"] mult_right_mono [of 1 "m_kv_mul m" "m_n_kv_heads m"]
    by (simp add: dims_ok_def)
  then have "m_n_kv_heads m \<le> m_n_heads m" using assms by (simp add: dims_ok_def)
  then have "m_head_size m * m_n_kv_heads m \<le> m_head_size m * m_n_heads m"
    using dims_ok_pos(1) [OF assms] by (intro mult_left_mono) auto
  moreover have "m_head_size m * m_n_heads m = m_dim m" "m_kv_dim m = m_head_size m * m_n_kv_heads m"
    using assms by (simp_all add: dims_ok_def)
  ultimately show ?thesis by simp
qed

lemma opened_dims:
  assumes "tq_model_open st arena arena_bytes = (TQ_OK, m, st')" and "store_shows img lmt st" and "2048 \<le> lmt"
  shows "m_dim m < 2 ^ 31" "m_hidden_dim m < 2 ^ 31" "m_vocab_size m < 2 ^ 31" "m_seq_len m < 2 ^ 31" "m_n_layers m < 2 ^ 31"
proof -
  have "skeleton m = skeleton (open_dims (header_at img) (zero_model\<lparr>m_hdr := header_at img\<rparr>))"
    using open_facts [OF assms] by blast
  note k = skeleton_fields [OF this]
  show "m_dim m < 2 ^ 31" "m_hidden_dim m < 2 ^ 31" "m_vocab_size m < 2 ^ 31" "m_seq_len m < 2 ^ 31" "m_n_layers m < 2 ^ 31"
    unfolding k open_dims_def by (simp_all add: header_dims [simplified])
qed

text \<open>Every tensor of such a model lies in the file.\<close>

fun slot_inside :: "u8 list \<Rightarrow> tq_model \<Rightarrow> layer_slot \<Rightarrow> u64 \<Rightarrow> bool" where
  "slot_inside img m L_rms_att off = vec_inside img off (nat (m_dim m))"
| "slot_inside img m L_rms_ffn off = vec_inside img off (nat (m_dim m))"
| "slot_inside img m L_wq off = mat_inside img (m_qtype m) off (nat (m_dim m)) (nat (m_dim m))"
| "slot_inside img m L_wk off = mat_inside img (m_qtype m) off (nat (m_dim m)) (nat (m_kv_dim m))"
| "slot_inside img m L_wv off = mat_inside img (m_qtype m) off (nat (m_dim m)) (nat (m_kv_dim m))"
| "slot_inside img m L_wo off = mat_inside img (m_qtype m) off (nat (m_dim m)) (nat (m_dim m))"
| "slot_inside img m L_w1 off = mat_inside img (m_qtype m) off (nat (m_dim m)) (nat (m_hidden_dim m))"
| "slot_inside img m L_w2 off = mat_inside img (m_qtype m) off (nat (m_hidden_dim m)) (nat (m_dim m))"
| "slot_inside img m L_w3 off = mat_inside img (m_qtype m) off (nat (m_dim m)) (nat (m_hidden_dim m))"

lemma layer_shape:
  assumes "layer_entry hdr m l slot e" and "unat (e_offset e) + shape_bytes e \<le> length img" and "dims_ok m"
    and "m_dim m < 2 ^ 31" "m_hidden_dim m < 2 ^ 31"
  shows "slot_inside img m slot (e_offset e)"
proof -
  have d: "0 < m_dim m" "0 < m_hidden_dim m" "0 < m_kv_dim m" "m_kv_dim m < 2 ^ 31"
    using assms(3,4) dims_ok_pos(2) [OF assms(3)] kv_dim_le [OF assms(3)] by (auto simp: dims_ok_def)
  obtain dt r c where w: "layer_want m (layer_suffix (e_name e)) = Some (slot, dt, r, c)" "tensor_fits hdr e dt r c"
    using assms(1) unfolding layer_entry_def by blast
  let ?d = "word_of_int (m_dim m) :: u32" and ?k = "word_of_int (m_kv_dim m) :: u32" and ?h = "word_of_int (m_hidden_dim m) :: u32"
  have "(slot, dt, r, c) \<in> {(L_rms_att, TQ_DT_F32, ?d, 0), (L_rms_ffn, TQ_DT_F32, ?d, 0), (L_wq, m_qtype m, ?d, ?d),
      (L_wk, m_qtype m, ?k, ?d), (L_wv, m_qtype m, ?k, ?d), (L_wo, m_qtype m, ?d, ?d), (L_w1, m_qtype m, ?h, ?d),
      (L_w2, m_qtype m, ?d, ?h), (L_w3, m_qtype m, ?h, ?d)}"
    using w(1) unfolding layer_want_def Let_def by (simp split: if_split_asm) blast+
  then consider "slot = L_rms_att" "dt = TQ_DT_F32" "r = ?d" "c = 0" | "slot = L_rms_ffn" "dt = TQ_DT_F32" "r = ?d" "c = 0"
    | "slot = L_wq" "dt = m_qtype m" "r = ?d" "c = ?d" | "slot = L_wk" "dt = m_qtype m" "r = ?k" "c = ?d"
    | "slot = L_wv" "dt = m_qtype m" "r = ?k" "c = ?d" | "slot = L_wo" "dt = m_qtype m" "r = ?d" "c = ?d"
    | "slot = L_w1" "dt = m_qtype m" "r = ?h" "c = ?d" | "slot = L_w2" "dt = m_qtype m" "r = ?d" "c = ?h"
    | "slot = L_w3" "dt = m_qtype m" "r = ?h" "c = ?d"
    by fast
  note fits = this w(2)
  note mats = mat_from [OF _ assms(2), where hdr = hdr] and vecs = vec_from [OF _ assms(2), where hdr = hdr]
  show ?thesis
    using fits(1) by cases (insert fits(2) d assms(4,5), simp_all only: slot_inside.simps, (blast intro: mats vecs)+)
qed

lemma honest_tensors_inside:
  assumes "honest_file img" and "model_from (header_at img) (directory img (header_at img)) m"
    and "m_dim m < 2 ^ 31" "m_hidden_dim m < 2 ^ 31" "m_vocab_size m < 2 ^ 31"
  shows "tensors_inside img m"
proof -
  let ?hdr = "header_at img"
  let ?es = "directory img ?hdr"
  have ok: "dims_ok m" using assms(2) by (simp add: model_from_def)
  then have d: "0 < m_dim m" "0 < m_vocab_size m" by (simp_all add: dims_ok_def)
  have fit: "unat (e_offset e) + shape_bytes e \<le> length img" if "e \<in> set ?es" for e
    using assms(1) that by (simp add: honest_file_def)
  obtain e where e: "e \<in> set ?es" "tensor_fits ?hdr e (m_qtype m) (word_of_int (m_vocab_size m)) (word_of_int (m_dim m))"
      "m_tok_emb m = e_offset e"
    using assms(2) by (auto simp: model_from_def global_entry_def)
  have emb: "mat_inside img (m_qtype m) (m_tok_emb m) (nat (m_dim m)) (nat (m_vocab_size m))"
    unfolding e(3) using d assms(3,5) by (intro mat_from [OF e(2) fit [OF e(1)]])
  obtain e where e: "e \<in> set ?es" "tensor_fits ?hdr e TQ_DT_F32 (word_of_int (m_dim m)) 0" "m_rms_final m = e_offset e"
    using assms(2) by (auto simp: model_from_def global_entry_def)
  have fin: "vec_inside img (m_rms_final m) (nat (m_dim m))"
    unfolding e(3) using d assms(3) by (intro vec_from [OF e(2) fit [OF e(1)]])
  have cls: "mat_inside img (m_qtype m) (m_classifier m) (nat (m_dim m)) (nat (m_vocab_size m))"
  proof (cases "h_shared_classifier ?hdr = 0")
    case True
    then obtain e where e: "e \<in> set ?es" "tensor_fits ?hdr e (m_qtype m) (word_of_int (m_vocab_size m)) (word_of_int (m_dim m))"
        "m_classifier m = e_offset e"
      using assms(2) by (auto simp: model_from_def global_entry_def)
    show ?thesis unfolding e(3) using d assms(3,5) by (intro mat_from [OF e(2) fit [OF e(1)]])
  next
    case False
    then show ?thesis using assms(2) emb by (simp add: model_from_def)
  qed
  have slot: "slot_inside img m slot (layer_field slot (m_layers m ! l))" if "l < nat (m_n_layers m)" for l slot
  proof -
    obtain e where "e \<in> set ?es" "layer_entry ?hdr m l slot e" "layer_field slot (m_layers m ! l) = e_offset e"
      using assms(2) \<open>l < nat (m_n_layers m)\<close> unfolding model_from_def by blast
    then show ?thesis using layer_shape [OF _ fit ok assms(3,4)] by simp
  qed
  note slots = slot [where slot = L_rms_att] slot [where slot = L_rms_ffn] slot [where slot = L_wq] slot [where slot = L_wk]
    slot [where slot = L_wv] slot [where slot = L_wo] slot [where slot = L_w1] slot [where slot = L_w2] slot [where slot = L_w3]
  show ?thesis
    unfolding tensors_inside_def Let_def using emb fin cls slots [unfolded slot_inside.simps layer_field.simps]
    by (intro conjI allI impI) assumption+
qed

section \<open>A session\<close>

text \<open>Initialising a runtime: the status of \<^verbatim>\<open>tq_runtime_init\<close>, or the runtime on the carved buffers.\<close>

definition runtime_start ::
  "arena_mem \<Rightarrow> tq_model \<Rightarrow> 'c tq_store \<Rightarrow> int \<Rightarrow> int \<Rightarrow> 'w::len word \<Rightarrow> 'w word \<Rightarrow> 'w word \<Rightarrow> 'w word \<Rightarrow> tq_status + 'c tq_runtime" where
  "runtime_start mem m st max_seq kv_dtype fast fast_bytes cache cache_bytes =
     (case tq_runtime_init m max_seq kv_dtype fast fast_bytes cache cache_bytes of
        Inl rc \<Rightarrow> Inl rc
      | Inr _ \<Rightarrow> Inr (carved_runtime mem m st max_seq kv_dtype))"

text \<open>What an opened session runs in.\<close>

definition session_env :: "u8 list \<Rightarrow> nat \<Rightarrow> tq_model \<Rightarrow> int \<Rightarrow> int \<Rightarrow> fw_env" where
  "session_env img lmt m max_seq kv_dtype = \<lparr>en_img = img, en_limit = lmt, en_m = m, en_seq = max_seq, en_kv = kv_dtype\<rparr>"

lemma session_env_simps [simp]:
  "en_img (session_env img lmt m s kv) = img" "en_limit (session_env img lmt m s kv) = lmt" "en_m (session_env img lmt m s kv) = m"
  "en_seq (session_env img lmt m s kv) = s" "en_kv (session_env img lmt m s kv) = kv"
  by (simp_all add: session_env_def)

text \<open>The tile takes a row of the widest matrix and a norm vector.\<close>

definition tile_takes :: "nat \<Rightarrow> tq_model \<Rightarrow> bool" where
  "tile_takes lmt m \<longleftrightarrow> lmt < 2 ^ 32 \<and> 4 * nat (m_dim m) \<le> lmt
     \<and> nat (m_dim m) div 32 * block_bytes (m_qtype m) \<le> lmt \<and> nat (m_hidden_dim m) div 32 * block_bytes (m_qtype m) \<le> lmt"

lemma session_ready:
  assumes "tq_model_open st arena arena_bytes = (TQ_OK, m, st')" and "store_shows img lmt st" and "2048 \<le> lmt"
    and "honest_file img" and "tile_takes lmt m"
    and "runtime_start mem m st' max_seq kv_dtype fast fast_bytes cache cache_bytes = Inr rt"
  shows "env_ok (session_env img lmt m max_seq kv_dtype)" and "rt_ready (session_env img lmt m max_seq kv_dtype) [] rt"
    and "0 < max_seq" and "max_seq \<le> m_seq_len m" and "kv_dtype = TQ_KV_F32 \<or> kv_dtype = TQ_KV_Q8"
proof -
  let ?E = "session_env img lmt m max_seq kv_dtype"
  note d = opened_dims [OF assms(1-3)]
  have f: "model_from (header_at img) (directory img (header_at img)) m" "store_shows img lmt st'"
    using open_facts [OF assms(1-3)] by blast+
  then have "dims_ok m" "quantized (m_qtype m)" by (simp_all add: model_from_def)
  then show "env_ok ?E"
    using honest_tensors_inside [OF assms(4) f(1) d(1-3)] d(2) assms(5) by (simp add: env_ok_def tile_takes_def)
  have rt: "rt = carved_runtime mem m st' max_seq kv_dtype"
    using assms(6) by (simp add: runtime_start_def split: sum.splits)
  show "rt_ready ?E [] rt"
    using carved_fits [of ?E st' mem] f(2) unfolding rt by (intro ready_fresh) simp
  show "0 < max_seq" "max_seq \<le> m_seq_len m" "kv_dtype = TQ_KV_F32 \<or> kv_dtype = TQ_KV_Q8"
    using assms(6) by (auto simp: runtime_start_def tq_runtime_init_def split: sum.splits if_splits)
qed

section \<open>The runtime through the loops\<close>

abbreviation fv :: "fw_env \<Rightarrow> (kv_cell \<times> kv_cell) list list \<Rightarrow> int \<Rightarrow> (f32 list \<times> (kv_cell \<times> kv_cell) list) option" where
  "fv E \<equiv> forward_value (en_img E) (en_m E) (en_kv E)"

lemma forward_ok_range:
  assumes "tq_forward rt token pos = Some (TQ_OK, rt')"
  shows "valid_token (rt_m rt) token" and "0 \<le> pos" and "pos < rt_max_seq rt"
  using assms by (auto simp: tq_forward_def Let_def valid_token_def split: if_splits)

lemma ready_fixed: "rt_ready E hist rt \<Longrightarrow> rt_m rt = en_m E \<and> rt_max_seq rt = en_seq E"
  by (simp add: rt_ready_def rt_fits_def rt_fixed_def)

lemma forward_ok_value:
  assumes "env_ok E" and "rt_ready E hist rt" and "tq_forward rt token (int (length hist)) = Some (TQ_OK, rt')"
  obtains new where "fv E hist token = Some (rt_logits rt', new)" "rt_ready E (hist @ [new]) rt'"
    "valid_token (en_m E) token" "length hist < en_slots E"
proof -
  have v: "valid_token (en_m E) token" "length hist < en_slots E"
    using forward_ok_range [OF assms(3)] ready_fixed [OF assms(2)] by auto
  have r: "env_ok E \<and> rt_ready E hist rt" using assms(1,2) by simp
  show ?thesis
  proof (cases "fv E hist token")
    case None
    then show ?thesis using fwd.step_none [OF r v(2,1)] assms(3) by simp
  next
    case (Some p)
    obtain lg new where p: "p = (lg, new)" by (cases p)
    obtain s' where "tq_forward rt token (int (length hist)) = Some (TQ_OK, s')" "rt_logits s' = lg" "rt_ready E (hist @ [new]) s'"
      using fwd.step_some [OF r v(2,1)] Some p by blast
    then show ?thesis using that v assms(3) Some p by auto
  qed
qed

lemma forward_refused:
  assumes "rt_ready E hist rt" and "\<not> (valid_token (en_m E) token \<and> length hist < en_slots E)"
  shows "tq_forward rt token (int (length hist)) = Some (TQ_ERR_RANGE, rt)"
proof (cases "valid_token (en_m E) token")
  case True
  then have "en_seq E \<le> int (length hist)" using assms(2) by linarith
  then show ?thesis using ready_fixed [OF assms(1)] by (simp add: tq_forward_def Let_def)
next
  case False
  then have "token < 0 \<or> m_vocab_size (en_m E) \<le> token" by (auto simp: valid_token_def)
  then show ?thesis using ready_fixed [OF assms(1)] by (simp add: tq_forward_def Let_def)
qed

lemma forward_keeps:
  assumes "env_ok E" and "rt_ready E hist rt" and "tq_forward rt token (int (length hist)) = Some (rc, rt')"
  shows "rc = TQ_OK \<and> valid_token (en_m E) token \<and> length hist < en_slots E \<and> (\<exists>new. rt_ready E (hist @ [new]) rt')
    \<or> rc = TQ_ERR_RANGE \<and> rt' = rt \<and> \<not> (valid_token (en_m E) token \<and> length hist < en_slots E)"
proof (cases "valid_token (en_m E) token \<and> length hist < en_slots E")
  case True
  then have r: "env_ok E \<and> rt_ready E hist rt" "length hist < en_slots E" "valid_token (en_m E) token" using assms by simp_all
  show ?thesis using fwd.step_value [OF r] assms(3) r(2,3) by (auto split: option.splits prod.splits)
next
  case False
  then show ?thesis using assms(3) forward_refused [OF assms(2) False] by simp
qed

lemma ready_nil: "rt_ready E h rt \<Longrightarrow> rt_ready E [] rt"
  using ready_prefix [of E h rt 0] by simp

lemma ready_logits:
  assumes "rt_ready E hist rt" and "length lg = en_vocab E"
  shows "rt_ready E hist (rt\<lparr>rt_logits := lg\<rparr>)"
proof -
  have "rt_cells (rt\<lparr>rt_logits := lg\<rparr>) = rt_cells rt" by (intro ext) (simp add: rt_cells_def)
  then show ?thesis using assms by (simp add: rt_ready_def rt_fits_def rt_fixed_def cache_fits_def Let_def)
qed

lemma ready_vocab: "rt_ready E hist rt \<Longrightarrow> length (rt_logits rt) = en_vocab E"
  by (simp add: rt_ready_def rt_fits_def)

section \<open>Small sessions\<close>

lemma sample_honest: "honest_file sample_file"
  unfolding honest_file_def sample_header_at sample_directory sample_length
  by (simp add: sample_dir_def sample_tensors_def shape_bytes_def block_bytes_def dtypes)

lemma sample_opened:
  assumes "tq_model_open sample_mapped (0x20000000 :: 32 word) 100 = (TQ_OK, m, st')"
  shows "m_dim m = 32" "m_hidden_dim m = 32" "m_vocab_size m = 1" "m_seq_len m = 1" "m_n_layers m = 1" "m_n_heads m = 1"
    "m_kv_dim m = 32" "m_head_size m = 32" "m_qtype m = 2" "m_n_kv_heads m = 1" "dims_ok m"
proof -
  note f = open_facts [OF assms sample_stores(1) order_refl]
  have "skeleton m = skeleton (open_dims sample_hdr (zero_model\<lparr>m_hdr := sample_hdr\<rparr>))" using f sample_header_at by simp
  note k = skeleton_fields [OF this]
  show "m_dim m = 32" "m_hidden_dim m = 32" "m_vocab_size m = 1" "m_seq_len m = 1" "m_n_layers m = 1" "m_n_heads m = 1"
    "m_kv_dim m = 32" "m_head_size m = 32" "m_qtype m = 2" "m_n_kv_heads m = 1"
    unfolding k by (simp_all add: open_dims_def sample_hdr_def)
  show "dims_ok m" using f by (simp add: model_from_def)
qed

lemma sample_starts:
  assumes "tq_model_open sample_mapped (0x20000000 :: 32 word) 100 = (TQ_OK, m, st')"
  shows "runtime_start mem m st' 1 TQ_KV_F32 (0x20000000 :: 32 word) 4096 0x70000000 4096 = Inr (carved_runtime mem m st' 1 TQ_KV_F32)"
proof -
  note d = sample_opened [OF assms]
  have n: "runtime_need m 1 = 1452" "kv_need m 1 TQ_KV_F32 = 288"
    by (simp_all add: runtime_need_def kv_need_def d Let_def TQ_KV_F32_def TQ_KV_Q8_def)
  have b: "unat (tq_runtime_bytes m 1 :: 32 word) = 1452" "unat (tq_kv_bytes m 1 TQ_KV_F32 :: 32 word) = 288"
    using runtime_bytes_value(1) [OF d(11), of 1, where 'w = 32] kv_bytes_value(1) [OF d(11), of 1 TQ_KV_F32, where 'w = 32]
    by (simp_all add: n)
  have "\<exists>ly. tq_runtime_init m 1 TQ_KV_F32 (0x20000000 :: 32 word) 4096 0x70000000 4096 = Inr ly \<and>
      laid_out 0x20000000 4096 (fast_buffers ly) (fast_need m 1) \<and>
      laid_out 0x70000000 4096 (cache_buffers TQ_KV_F32 ly) (cache_need m 1 TQ_KV_F32)"
    by (rule runtime_layout [OF d(11)]) (simp_all add: n b d word_le_nat_alt)
  then show ?thesis by (auto simp: runtime_start_def)
qed

text \<open>Arenas with leftovers in them.\<close>

definition used_mem :: arena_mem where
  "used_mem = \<lparr>am_float = \<lambda>_ _. 7, am_block = \<lambda>_ _. \<lparr>q80_d = 0, q80_qs = []\<rparr>, am_byte = \<lambda>_ _. 9\<rparr>"

section \<open>Properties\<close>

section \<open>Properties\<close>



end
