(* ===== verification/Tq_Tokenizer.thy ===== *)
theory Tq_Tokenizer imports Tq_Image "HOL-Library.List_Lexorder" begin

text \<open>
  The tokenizer, \<^verbatim>\<open>core/src/tq_tokenizer.c\<close>: three tables in the mapped image, a binary search
  over the sorted one, the code point split with byte fallback, the greedy merging and the
  decoder. A read outside the image is \<open>None\<close> (\<open>Undefined\<close> in a result), so that the proofs show
  which tables keep the code inside. The interface that encoding and decoding rely on is the
  locale \<open>vocabulary\<close>; the binary search provides it.
\<close>

unbundle bit_operations_syntax

section \<open>The tokenizer\<close>

text \<open>
  The four tables are pointers into the mapped image, here byte offsets into it; \<^verbatim>\<open>t->m\<close> is the
  model, of which the tokenizer reads the two special tokens. The scratch buffer holds only
  the string being looked up, so its size is enough.
\<close>

record tq_tokenizer =
  tk_m :: tq_model
  tk_base :: "u8 list"
  tk_scores :: nat
  tk_offs :: nat
  tk_sorted :: nat
  tk_blob :: nat
  tk_vocab_size :: int
  tk_buf_bytes :: nat

definition tq_tokenizer_init :: "'c tq_store \<Rightarrow> tq_model \<Rightarrow> nat \<Rightarrow> tq_status + tq_tokenizer" where
  "tq_tokenizer_init st m buf_bytes =
     (case st_base st of
        None \<Rightarrow> Inl TQ_ERR_UNSUPPORTED
      | Some base \<Rightarrow>
          if m_tok_scores m = 0 \<or> m_tok_offs m = 0 \<or> m_tok_blob m = 0 \<or> m_tok_sorted m = 0 then Inl TQ_ERR_MISSING
          else if buf_bytes < 64 then Inl TQ_ERR_NOMEM
          else Inr \<lparr>tk_m = m, tk_base = base, tk_scores = unat (m_tok_scores m), tk_offs = unat (m_tok_offs m),
                    tk_sorted = unat (m_tok_sorted m), tk_blob = unat (m_tok_blob m), tk_vocab_size = m_vocab_size m,
                    tk_buf_bytes = buf_bytes\<rparr>)"

text \<open>An element of a table of 32-bit words; \<open>None\<close> is a read outside the image.\<close>

definition table_word :: "tq_tokenizer \<Rightarrow> nat \<Rightarrow> int \<Rightarrow> u32 option" where
  "table_word t tbl i =
     (if 0 \<le> i \<and> tbl + 4 * nat i + 4 \<le> length (tk_base t) then Some (le32 (tk_base t) (tbl + 4 * nat i)) else None)"

text \<open>The string of a token: \<open>len\<close> bytes at \<^verbatim>\<open>blob + a\<close>, which must lie in the image.\<close>

definition tq_piece :: "tq_tokenizer \<Rightarrow> int \<Rightarrow> u8 list option" where
  "tq_piece t tid =
     (case (table_word t (tk_offs t) tid, table_word t (tk_offs t) (tid + 1)) of
        (Some a, Some b) \<Rightarrow>
          let len = unat (b - a); start = tk_blob t + unat a
          in if start + len \<le> length (tk_base t) then Some (take len (drop start (tk_base t))) else None
      | _ \<Rightarrow> None)"

text \<open>The sign of \<^verbatim>\<open>memcmp\<close> on the first \<open>n\<close> bytes, compared as unsigned.\<close>

fun memcmp_sign :: "nat \<Rightarrow> u8 list \<Rightarrow> u8 list \<Rightarrow> int" where
  "memcmp_sign (Suc n) (a # as) (b # bs) = (if a < b then -1 else if b < a then 1 else memcmp_sign n as bs)"
| "memcmp_sign _ _ _ = 0"

definition tq_cmp :: "u8 list \<Rightarrow> u8 list \<Rightarrow> int" where
  "tq_cmp a b =
     (let n = (if length a < length b then length a else length b);
          c = (if n \<noteq> 0 then memcmp_sign n a b else 0)
      in if c \<noteq> 0 then c
         else if length a = length b then 0
         else if length a < length b then -1 else 1)"

text \<open>The binary search between \<open>lo\<close> and \<open>hi\<close>.\<close>

function lookup_from :: "tq_tokenizer \<Rightarrow> u8 list \<Rightarrow> int \<Rightarrow> int \<Rightarrow> int option" where
  "lookup_from t s lo hi =
     (if lo \<le> hi then
        let mid = lo + (hi - lo) div 2
        in case table_word t (tk_sorted t) mid of
             None \<Rightarrow> None
           | Some w \<Rightarrow>
               let tid = sint w
               in case tq_piece t tid of
                    None \<Rightarrow> None
                  | Some p \<Rightarrow>
                      let c = tq_cmp s p
                      in if c = 0 then Some tid
                         else if c < 0 then lookup_from t s lo (mid - 1)
                         else lookup_from t s (mid + 1) hi
      else Some (-1))"
  by pat_completeness auto

termination
  by (relation "measure (\<lambda>(t, s, lo, hi). nat (hi - lo + 1))") auto

declare lookup_from.simps [simp del]

definition tq_lookup :: "tq_tokenizer \<Rightarrow> u8 list \<Rightarrow> int option" where
  "tq_lookup t s = lookup_from t s 0 (tk_vocab_size t - 1)"

definition hex_digit :: "u8 \<Rightarrow> u8" where
  "hex_digit d = cstr ''0123456789ABCDEF'' ! unat d"

definition tq_byte_token :: "tq_tokenizer \<Rightarrow> u8 \<Rightarrow> int option" where
  "tq_byte_token t b =
     tq_lookup t (cstr ''<0x'' @ [hex_digit (drop_bit 4 b), hex_digit (b AND 0x0F)] @ cstr ''>'')"

section \<open>Encoding\<close>

text \<open>The tokens written so far are a list; its length is \<^verbatim>\<open>n\<close>.\<close>

definition tq_push :: "int \<Rightarrow> int \<Rightarrow> int list \<Rightarrow> int list result" where
  "tq_push max_tokens v tokens =
     (if int (length tokens) \<ge> max_tokens then Inl (Status TQ_ERR_NOMEM) else Inr (tokens @ [v]))"

text \<open>The number of bytes of the code point whose first byte is \<open>c\<close>, as the first byte tells it.\<close>

definition utf8_len :: "u8 \<Rightarrow> nat" where
  "utf8_len c =
     (if c AND 0xE0 = 0xC0 then 2 else if c AND 0xF0 = 0xE0 then 3 else if c AND 0xF8 = 0xF0 then 4 else 1)"

text \<open>The byte tokens of a code point without a token; a byte without one is dropped.\<close>

fun push_bytes :: "tq_tokenizer \<Rightarrow> int \<Rightarrow> u8 list \<Rightarrow> int list \<Rightarrow> int list result" where
  "push_bytes t max_tokens [] tokens = Inr tokens"
| "push_bytes t max_tokens (c # cs) tokens =
     (case tq_byte_token t c of
        None \<Rightarrow> Inl Undefined
      | Some b \<Rightarrow>
          if b \<ge> 0 then (case tq_push max_tokens b tokens of Inl e \<Rightarrow> Inl e | Inr tokens \<Rightarrow> push_bytes t max_tokens cs tokens)
          else push_bytes t max_tokens cs tokens)"

function encode_split :: "tq_tokenizer \<Rightarrow> int \<Rightarrow> u8 list \<Rightarrow> nat \<Rightarrow> int list \<Rightarrow> int list result" where
  "encode_split t max_tokens text i tokens =
     (if i < length text then
        let l0 = utf8_len (text ! i);
            len = (if i + l0 > length text then 1 else l0);
            cp = take len (drop i text)
        in case tq_lookup t cp of
             None \<Rightarrow> Inl Undefined
           | Some tid \<Rightarrow>
               (case (if tid \<ge> 0 then tq_push max_tokens tid tokens else push_bytes t max_tokens cp tokens) of
                  Inl e \<Rightarrow> Inl e
                | Inr tokens \<Rightarrow> encode_split t max_tokens text (i + len) tokens)
      else Inr tokens)"
  by pat_completeness auto

termination
  by (relation "measure (\<lambda>(t, mx, text, i, tokens). length text - i)") (auto simp: utf8_len_def)

declare encode_split.simps [simp del]

text \<open>One look at the pair at \<open>k\<close>: the best score, token and place so far.\<close>

definition merge_look :: "tq_tokenizer \<Rightarrow> int list \<Rightarrow> f32 \<times> int \<times> int \<Rightarrow> nat \<Rightarrow> (f32 \<times> int \<times> int) option" where
  "merge_look t tokens best k =
     (case best of (best_score, best_id, best_at) \<Rightarrow>
        case (tq_piece t (tokens ! k), tq_piece t (tokens ! (k + 1))) of
          (Some a, Some b) \<Rightarrow>
            if length a + length b > tk_buf_bytes t then Some best
            else (case tq_lookup t (take (unat (of_nat (length a) + of_nat (length b) :: u32)) (a @ b)) of
                    None \<Rightarrow> None
                  | Some tid \<Rightarrow>
                      if tid \<ge> 0 then
                        (case table_word t (tk_scores t) tid of
                           None \<Rightarrow> None
                         | Some score \<Rightarrow>
                             if best_id < 0 \<or> f32_lt best_score score then Some (score, tid, int k) else Some best)
                      else Some best)
        | _ \<Rightarrow> None)"

definition best_merge :: "tq_tokenizer \<Rightarrow> int list \<Rightarrow> (f32 \<times> int \<times> int) option" where
  "best_merge t tokens = run_steps (merge_look t tokens) [0..<length tokens - 1] (0, -1, -1)"

definition apply_merge :: "int \<Rightarrow> nat \<Rightarrow> int list \<Rightarrow> int list" where
  "apply_merge tid k tokens = take k tokens @ [tid] @ drop (k + 2) tokens"

lemma merge_look_at:
  "merge_look t tokens (s, i, a) k = Some (s', i', a') \<Longrightarrow> a' = a \<or> a' = int k"
  by (auto simp: merge_look_def split: option.splits if_splits)

lemma merge_looks_at:
  "run_steps (merge_look t tokens) ks (s, i, a) = Some (s', i', a') \<Longrightarrow> a' = a \<or> (\<exists>k \<in> set ks. a' = int k)"
proof (induction ks arbitrary: s i a)
  case (Cons k ks)
  obtain s1 i1 a1 where m: "merge_look t tokens (s, i, a) k = Some (s1, i1, a1)"
    "run_steps (merge_look t tokens) ks (s1, i1, a1) = Some (s', i', a')"
    using Cons.prems by (auto split: option.splits)
  from Cons.IH [OF m(2)] merge_look_at [OF m(1)] show ?case by auto
qed simp

lemma best_merge_at: "best_merge t tokens = Some (s, i, a) \<Longrightarrow> \<not> a < 0 \<Longrightarrow> nat a + 1 < length tokens"
  unfolding best_merge_def by (drule merge_looks_at) auto

function merge_all :: "tq_tokenizer \<Rightarrow> int list \<Rightarrow> int list option" where
  "merge_all t tokens =
     (case best_merge t tokens of
        None \<Rightarrow> None
      | Some (best_score, best_id, best_at) \<Rightarrow>
          if best_at < 0 then Some tokens else merge_all t (apply_merge best_id (nat best_at) tokens))"
  by pat_completeness auto

termination
  by (relation "measure (\<lambda>(t, tokens). length tokens)") (auto dest!: best_merge_at simp: apply_merge_def)

declare merge_all.simps [simp del]

text \<open>The conversion of the special tokens to \<^verbatim>\<open>int32_t\<close>.\<close>

definition tk_bos :: "tq_tokenizer \<Rightarrow> int" where
  "tk_bos t = sint (h_bos_token (m_hdr (tk_m t)))"

definition tk_eos :: "tq_tokenizer \<Rightarrow> int" where
  "tk_eos t = sint (h_eos_token (m_hdr (tk_m t)))"

text \<open>The prefix of the token list: the begin marker and the space in front of the text.\<close>

definition encode_start :: "tq_tokenizer \<Rightarrow> u8 list \<Rightarrow> bool \<Rightarrow> int \<Rightarrow> int list result" where
  "encode_start t text add_bos max_tokens =
     (case (if add_bos then tq_push max_tokens (tk_bos t) [] else Inr []) of
        Inl e \<Rightarrow> Inl e
      | Inr tokens \<Rightarrow>
          if length text > 0 then
            (case tq_lookup t (cstr '' '') of
               None \<Rightarrow> Inl Undefined
             | Some d \<Rightarrow> if d \<ge> 0 then tq_push max_tokens d tokens else Inr tokens)
          else Inr tokens)"

text \<open>\<open>text\<close> is the C string without its terminator.\<close>

definition tq_encode :: "tq_tokenizer \<Rightarrow> u8 list \<Rightarrow> bool \<Rightarrow> bool \<Rightarrow> int \<Rightarrow> int list result" where
  "tq_encode t text add_bos add_eos max_tokens =
     (case encode_start t text add_bos max_tokens of
        Inl e \<Rightarrow> Inl e
      | Inr tokens \<Rightarrow>
          (case encode_split t max_tokens text 0 tokens of
             Inl e \<Rightarrow> Inl e
           | Inr tokens \<Rightarrow>
               (case merge_all t tokens of
                  None \<Rightarrow> Inl Undefined
                | Some tokens \<Rightarrow> if add_eos then tq_push max_tokens (tk_eos t) tokens else Inr tokens)))"

section \<open>Decoding\<close>

definition tq_hexval :: "u8 \<Rightarrow> int" where
  "tq_hexval c =
     (let c = int (unat c) in
      if c \<ge> 48 \<and> c \<le> 57 then c - 48
      else if c \<ge> 97 \<and> c \<le> 102 then c - 97 + 10
      else if c \<ge> 65 \<and> c \<le> 70 then c - 65 + 10
      else -1)"

text \<open>The number of bytes and the buffer, whose size is \<^verbatim>\<open>out_bytes\<close>.\<close>

definition tq_decode :: "tq_tokenizer \<Rightarrow> int \<Rightarrow> int \<Rightarrow> u8 list \<Rightarrow> (nat \<times> u8 list) result" where
  "tq_decode t prev token out =
     (if token < 0 \<or> token \<ge> tk_vocab_size t \<or> length out < 2 then Inl (Status TQ_ERR_RANGE)
      else case tq_piece t token of
             None \<Rightarrow> Inl Undefined
           | Some p0 \<Rightarrow>
               let p = (if prev = tk_bos t \<and> length p0 > 0 \<and> p0 ! 0 = of_char (CHR '' '') then drop 1 p0 else p0);
                   hi = tq_hexval (p ! 3); lo = tq_hexval (p ! 4)
               in if length p = 6 \<and> p ! 0 = of_char (CHR ''<'') \<and> p ! 1 = of_char (CHR ''0'') \<and> p ! 2 = of_char (CHR ''x'')
                     \<and> p ! 5 = of_char (CHR ''>'') \<and> hi \<ge> 0 \<and> lo \<ge> 0
                  then Inr (1, out[0 := word_of_int (push_bit 4 hi OR lo), 1 := 0])
                  else let len = (if length p + 1 > length out then length out - 1 else length p)
                       in Inr (len, take len p @ [0] @ drop (len + 1) out))"

section \<open>The order of the strings\<close>

lemma memcmp_lex:
  "(memcmp_sign (min (length a) (length b)) a b < 0 \<longrightarrow> a < b) \<and> (memcmp_sign (min (length a) (length b)) a b > 0 \<longrightarrow> b < a)
    \<and> (memcmp_sign (min (length a) (length b)) a b = 0 \<longrightarrow> (a < b \<longleftrightarrow> length a < length b) \<and> (a = b \<longleftrightarrow> length a = length b))"
  by (induction a b rule: list_induct2') (auto split: if_splits)

lemma tq_cmp_order: "tq_cmp a b < 0 \<longleftrightarrow> a < b" "tq_cmp a b = 0 \<longleftrightarrow> a = b" "tq_cmp a b > 0 \<longleftrightarrow> b < a"
proof -
  define n where "n = min (length a) (length b)"
  note m = memcmp_lex [of a b, folded n_def]
  have z: "n = 0 \<Longrightarrow> memcmp_sign n a b = 0" by (cases a; cases b) simp_all
  have c: "tq_cmp a b = (if memcmp_sign n a b \<noteq> 0 then memcmp_sign n a b
      else if length a = length b then 0 else if length a < length b then -1 else 1)"
    unfolding tq_cmp_def Let_def using z by (auto simp: n_def min_def)
  consider "memcmp_sign n a b < 0" | "memcmp_sign n a b = 0" | "memcmp_sign n a b > 0" by linarith
  then show "tq_cmp a b < 0 \<longleftrightarrow> a < b" "tq_cmp a b = 0 \<longleftrightarrow> a = b" "tq_cmp a b > 0 \<longleftrightarrow> b < a"
    unfolding c using m by (cases; auto)+
qed

section \<open>Vocabularies\<close>

text \<open>Tables that lie in the image, whose offsets delimit strings in it and that are sorted.\<close>

definition tok_str :: "tq_tokenizer \<Rightarrow> int \<Rightarrow> u8 list" where
  "tok_str t i = the (tq_piece t i)"

definition sort_id :: "tq_tokenizer \<Rightarrow> int \<Rightarrow> int" where
  "sort_id t i = sint (the (table_word t (tk_sorted t) i))"

definition in_vocab :: "tq_tokenizer \<Rightarrow> int \<Rightarrow> bool" where
  "in_vocab t i \<longleftrightarrow> 0 \<le> i \<and> i < tk_vocab_size t"

definition tables_ok :: "tq_tokenizer \<Rightarrow> bool" where
  "tables_ok t \<longleftrightarrow>
     (\<forall>i. in_vocab t i \<longrightarrow> tq_piece t i \<noteq> None \<and> table_word t (tk_scores t) i \<noteq> None
        \<and> table_word t (tk_sorted t) i \<noteq> None \<and> in_vocab t (sort_id t i))
     \<and> (\<forall>i j. in_vocab t i \<longrightarrow> in_vocab t j \<longrightarrow> i \<le> j \<longrightarrow> tok_str t (sort_id t i) \<le> tok_str t (sort_id t j))
     \<and> (\<forall>i. in_vocab t i \<longrightarrow> (\<exists>j. in_vocab t j \<and> sort_id t j = i))"

text \<open>What the rest of the tokenizer relies on.\<close>

locale vocabulary =
  fixes good :: "'t \<Rightarrow> bool" and is_token :: "'t \<Rightarrow> int \<Rightarrow> bool"
    and piece :: "'t \<Rightarrow> int \<Rightarrow> u8 list option" and lookup :: "'t \<Rightarrow> u8 list \<Rightarrow> int option"
  assumes token_nonneg: "is_token t i \<Longrightarrow> 0 \<le> i"
    and piece_total: "good t \<Longrightarrow> is_token t i \<Longrightarrow> \<exists>p. piece t i = Some p"
    and lookup_total: "good t \<Longrightarrow> \<exists>i. lookup t s = Some i"
    and lookup_hit: "good t \<Longrightarrow> lookup t s = Some i \<Longrightarrow> 0 \<le> i \<Longrightarrow> is_token t i \<and> piece t i = Some s"
    and lookup_miss: "good t \<Longrightarrow> lookup t s = Some i \<Longrightarrow> \<not> 0 \<le> i \<Longrightarrow> is_token t j \<Longrightarrow> piece t j \<noteq> Some s"

begin

lemma lookup_found:
  assumes "good t" and "is_token t j" and "piece t j = Some s"
  obtains i where "lookup t s = Some i" and "0 \<le> i" and "is_token t i" and "piece t i = Some s"
proof -
  obtain i where i: "lookup t s = Some i" using lookup_total [OF assms(1)] by blast
  then have "0 \<le> i" using lookup_miss [OF assms(1) i _ assms(2)] assms(3) by blast
  then show ?thesis using that i lookup_hit [OF assms(1) i] by blast
qed

lemma lookup_iff:
  "good t \<Longrightarrow> (\<exists>i \<ge> 0. lookup t s = Some i) \<longleftrightarrow> (\<exists>j. is_token t j \<and> piece t j = Some s)"
  using lookup_found lookup_hit by metis

text \<open>Two tokens of the same string are the same for every later lookup.\<close>

lemma lookup_string: "good t \<Longrightarrow> lookup t s = Some i \<Longrightarrow> 0 \<le> i \<Longrightarrow> piece t i = Some s'  \<Longrightarrow> s' = s"
  using lookup_hit by fastforce

end

lemma lookup_from_ok:
  assumes "tables_ok t" and "0 \<le> lo" and "hi < tk_vocab_size t"
    and "\<forall>i. 0 \<le> i \<longrightarrow> i < lo \<longrightarrow> tok_str t (sort_id t i) < s"
    and "\<forall>i. hi < i \<longrightarrow> i < tk_vocab_size t \<longrightarrow> s < tok_str t (sort_id t i)"
  shows "\<exists>r. lookup_from t s lo hi = Some r
    \<and> (0 \<le> r \<longrightarrow> in_vocab t r \<and> tq_piece t r = Some s)
    \<and> (\<not> 0 \<le> r \<longrightarrow> r = -1 \<and> (\<forall>i. in_vocab t i \<longrightarrow> tok_str t (sort_id t i) \<noteq> s))"
  using assms
proof (induction t s lo hi rule: lookup_from.induct)
  case (1 t s lo hi)
  show ?case
  proof (cases "lo \<le> hi")
    case False
    have "tok_str t (sort_id t i) \<noteq> s" if "in_vocab t i" for i
      using "1.prems"(4) [rule_format, of i] "1.prems"(5) [rule_format, of i] that False
      by (cases "i < lo") (auto simp: in_vocab_def)
    then show ?thesis using False by (simp add: lookup_from.simps [of t])
  next
    case True
    define mid where "mid = lo + (hi - lo) div 2"
    have mid: "lo \<le> mid" "mid \<le> hi" using True unfolding mid_def by presburger+
    then have v: "in_vocab t mid" using "1.prems"(2,3) by (simp add: in_vocab_def)
    obtain w where w: "table_word t (tk_sorted t) mid = Some w"
      using "1.prems"(1) v by (auto simp: tables_ok_def)
    have sid: "sort_id t mid = sint w" by (simp add: sort_id_def w)
    have vs: "in_vocab t (sint w)" using "1.prems"(1) v sid by (auto simp: tables_ok_def)
    then obtain p where p: "tq_piece t (sint w) = Some p" using "1.prems"(1) by (auto simp: tables_ok_def)
    have str: "tok_str t (sort_id t mid) = p" by (simp add: tok_str_def sid p)
    have mono: "tok_str t (sort_id t i) \<le> tok_str t (sort_id t j)" if "in_vocab t i" "in_vocab t j" "i \<le> j" for i j
      using "1.prems"(1) that by (auto simp: tables_ok_def)
    note step = lookup_from.simps [of t s lo hi, unfolded if_P [OF True] Let_def, folded mid_def, unfolded w option.case p]
    consider (eq) "s = p" | (less) "s < p" | (greater) "p < s" by (meson linorder_less_linear)
    then show ?thesis
    proof cases
      case eq
      then show ?thesis using p vs unfolding step by (simp add: tq_cmp_order in_vocab_def)
    next
      case less
      then have c: "tq_cmp s p < 0" by (simp add: tq_cmp_order)
      have "\<forall>i. mid - 1 < i \<longrightarrow> i < tk_vocab_size t \<longrightarrow> s < tok_str t (sort_id t i)"
        using mono [OF v] less str mid "1.prems"(2) by (force simp: in_vocab_def)
      from "1.IH"(1) [OF True mid_def w refl p refl _ c "1.prems"(1,2) _ "1.prems"(4) this] c mid "1.prems"(3)
      show ?thesis unfolding step by simp
    next
      case greater
      then have c: "\<not> tq_cmp s p < 0" "tq_cmp s p \<noteq> 0" using tq_cmp_order [of s p] by auto
      have "\<forall>i. 0 \<le> i \<longrightarrow> i < mid + 1 \<longrightarrow> tok_str t (sort_id t i) < s"
        using mono [OF _ v] greater str mid "1.prems"(3) by (force simp: in_vocab_def)
      from "1.IH"(2) [OF True mid_def w refl p refl c(2,1) "1.prems"(1) _ "1.prems"(3) this "1.prems"(5)] c mid "1.prems"(2)
      show ?thesis unfolding step by simp
    qed
  qed
qed

lemma lookup_ok:
  assumes "tables_ok t"
  shows "\<exists>r. tq_lookup t s = Some r
    \<and> (0 \<le> r \<longrightarrow> in_vocab t r \<and> tq_piece t r = Some s)
    \<and> (\<not> 0 \<le> r \<longrightarrow> r = -1 \<and> (\<forall>i. in_vocab t i \<longrightarrow> tq_piece t i \<noteq> Some s))"
proof -
  obtain r where r: "tq_lookup t s = Some r" "0 \<le> r \<longrightarrow> in_vocab t r \<and> tq_piece t r = Some s"
    "\<not> 0 \<le> r \<longrightarrow> r = -1 \<and> (\<forall>i. in_vocab t i \<longrightarrow> tok_str t (sort_id t i) \<noteq> s)"
    using lookup_from_ok [OF assms, of 0 "tk_vocab_size t - 1" s] by (auto simp: tq_lookup_def)
  have "tq_piece t i \<noteq> Some s" if neg: "\<not> 0 \<le> r" "in_vocab t i" for i
  proof -
    obtain j where "in_vocab t j" "sort_id t j = i" using assms neg(2) by (auto simp: tables_ok_def)
    then have "tok_str t i \<noteq> s" using r(3) neg(1) by blast
    then show ?thesis by (auto simp: tok_str_def)
  qed
  then show ?thesis using r by blast
qed

interpretation tok: vocabulary tables_ok in_vocab tq_piece tq_lookup
proof
  show "in_vocab t i \<Longrightarrow> 0 \<le> i" for t i by (simp add: in_vocab_def)
  show "tables_ok t \<Longrightarrow> in_vocab t i \<Longrightarrow> \<exists>p. tq_piece t i = Some p" for t i by (auto simp: tables_ok_def)
  show "tables_ok t \<Longrightarrow> \<exists>i. tq_lookup t s = Some i" for t s using lookup_ok by blast
  show "tables_ok t \<Longrightarrow> tq_lookup t s = Some i \<Longrightarrow> 0 \<le> i \<Longrightarrow> in_vocab t i \<and> tq_piece t i = Some s" for t s i
    using lookup_ok [of t s] by auto
  show "tables_ok t \<Longrightarrow> tq_lookup t s = Some i \<Longrightarrow> \<not> 0 \<le> i \<Longrightarrow> in_vocab t j \<Longrightarrow> tq_piece t j \<noteq> Some s" for t s i j
    using lookup_ok [of t s] by auto
qed

section \<open>Merging\<close>

definition all_tokens :: "tq_tokenizer \<Rightarrow> int list \<Rightarrow> bool" where
  "all_tokens t tokens \<longleftrightarrow> (\<forall>x \<in> set tokens. in_vocab t x)"

definition token_score :: "tq_tokenizer \<Rightarrow> int \<Rightarrow> f32" where
  "token_score t i = the (table_word t (tk_scores t) i)"

text \<open>The token that the pair at \<open>k\<close> would become.\<close>

definition pair_merge :: "tq_tokenizer \<Rightarrow> int list \<Rightarrow> nat \<Rightarrow> int option" where
  "pair_merge t tokens k =
     (let a = tok_str t (tokens ! k); b = tok_str t (tokens ! (k + 1))
      in if length a + length b > tk_buf_bytes t then None
         else case tq_lookup t (a @ b) of Some i \<Rightarrow> if 0 \<le> i then Some i else None | None \<Rightarrow> None)"

definition look_value :: "tq_tokenizer \<Rightarrow> int list \<Rightarrow> f32 \<times> int \<times> int \<Rightarrow> nat \<Rightarrow> f32 \<times> int \<times> int" where
  "look_value t tokens best k =
     (case best of (s, i, a) \<Rightarrow>
        case pair_merge t tokens k of
          None \<Rightarrow> (s, i, a)
        | Some j \<Rightarrow> if i < 0 \<or> f32_lt s (token_score t j) then (token_score t j, j, int k) else (s, i, a))"

lemma tok_str_piece: "tables_ok t \<Longrightarrow> in_vocab t i \<Longrightarrow> tq_piece t i = Some (tok_str t i)"
  using tok.piece_total by (fastforce simp: tok_str_def)

lemma score_read: "tables_ok t \<Longrightarrow> in_vocab t i \<Longrightarrow> table_word t (tk_scores t) i = Some (token_score t i)"
  by (auto simp: tables_ok_def token_score_def)

definition encoder_ok :: "tq_tokenizer \<Rightarrow> bool" where
  "encoder_ok t \<longleftrightarrow> tables_ok t \<and> tk_buf_bytes t < 2 ^ 32"

lemma merge_look_value:
  assumes "encoder_ok t" and "all_tokens t tokens" and "k + 1 < length tokens"
  shows "merge_look t tokens best k = Some (look_value t tokens best k)"
proof -
  obtain s i a where best: "best = (s, i, a)" by (cases best)
  have ok: "tables_ok t" using assms(1) by (simp add: encoder_ok_def)
  have v: "in_vocab t (tokens ! k)" "in_vocab t (tokens ! (k + 1))" using assms(2,3) by (simp_all add: all_tokens_def)
  let ?a = "tok_str t (tokens ! k)" and ?b = "tok_str t (tokens ! (k + 1))"
  note p = tok_str_piece [OF ok v(1)] tok_str_piece [OF ok v(2)]
  show ?thesis
  proof (cases "length ?a + length ?b > tk_buf_bytes t")
    case True
    then show ?thesis
      unfolding merge_look_def look_value_def best pair_merge_def Let_def prod.case p option.case by simp
  next
    case False
    have "length ?a + length ?b < 2 ^ LENGTH(32)" using False assms(1) by (simp add: encoder_ok_def)
    then have "unat (of_nat (length ?a + length ?b) :: u32) = length ?a + length ?b" by (rule unat_of_nat_id)
    then have tk: "take (unat (of_nat (length ?a) + of_nat (length ?b) :: u32)) (?a @ ?b) = ?a @ ?b" by simp
    obtain r where r: "tq_lookup t (?a @ ?b) = Some r" using tok.lookup_total [OF ok] by blast
    show ?thesis
      using False score_read [OF ok] tok.lookup_hit [OF ok r]
      unfolding merge_look_def look_value_def best pair_merge_def Let_def prod.case p option.case tk r by auto
  qed
qed

lemma run_steps_foldl:
  "(\<And>b x. x \<in> set xs \<Longrightarrow> g b x = Some (f b x)) \<Longrightarrow> run_steps g xs b = Some (foldl f b xs)"
  by (induction xs arbitrary: b) simp_all

lemma best_merge_value:
  "encoder_ok t \<Longrightarrow> all_tokens t tokens \<Longrightarrow>
    best_merge t tokens = Some (foldl (look_value t tokens) (0, -1, -1) [0..<length tokens - 1])"
  unfolding best_merge_def by (rule run_steps_foldl) (simp add: merge_look_value)

text \<open>The best of the first \<open>m\<close> pairs.\<close>

definition best_of :: "tq_tokenizer \<Rightarrow> int list \<Rightarrow> nat \<Rightarrow> f32 \<times> int \<times> int \<Rightarrow> bool" where
  "best_of t tokens m best \<longleftrightarrow>
     (case best of (s, i, a) \<Rightarrow>
        if a < 0 then i < 0 \<and> (\<forall>k < m. pair_merge t tokens k = None)
        else 0 \<le> i \<and> nat a < m \<and> pair_merge t tokens (nat a) = Some i \<and> s = token_score t i
          \<and> (\<forall>k < m. \<forall>j. pair_merge t tokens k = Some j \<longrightarrow> \<not> f32_lt s (token_score t j)))"

lemma pair_merge_nonneg: "pair_merge t tokens k = Some j \<Longrightarrow> 0 \<le> j"
  by (auto simp: pair_merge_def Let_def split: if_splits option.splits)

lemma f32_lt_irrefl: "\<not> f32_lt x x"
  by (simp add: f32_lt_def)

lemma f32_lt_chain: "f32_lt s s' \<Longrightarrow> f32_lt s' r \<Longrightarrow> f32_lt s r"
  by (auto simp: f32_lt_def)

lemma best_of_step:
  assumes "best_of t tokens m best"
  shows "best_of t tokens (Suc m) (look_value t tokens best m)"
proof -
  obtain s i a where best: "best = (s, i, a)" by (cases best)
  show ?thesis
  proof (cases "pair_merge t tokens m")
    case None
    then show ?thesis using assms by (auto simp: best_of_def look_value_def best less_Suc_eq split: if_splits)
  next
    case (Some j)
    then show ?thesis
      using assms pair_merge_nonneg [OF Some] f32_lt_irrefl f32_lt_chain
      by (auto simp: best_of_def look_value_def best less_Suc_eq split: if_splits)
  qed
qed

lemma best_merge_best:
  assumes "encoder_ok t" and "all_tokens t tokens"
  shows "\<exists>best. best_merge t tokens = Some best \<and> best_of t tokens (length tokens - 1) best"
proof -
  have "best_of t tokens m (foldl (look_value t tokens) (0, -1, -1) [0..<m])" for m
    by (induction m) (simp_all add: best_of_step, simp add: best_of_def)
  then show ?thesis using best_merge_value [OF assms] by blast
qed

lemma pair_merge_str:
  assumes "tables_ok t" and "pair_merge t tokens k = Some c"
  shows "in_vocab t c" and "tok_str t c = tok_str t (tokens ! k) @ tok_str t (tokens ! (k + 1))"
proof -
  let ?s = "tok_str t (tokens ! k) @ tok_str t (tokens ! (k + 1))"
  have "tq_lookup t ?s = Some c" "0 \<le> c"
    using assms(2) by (auto simp: pair_merge_def Let_def split: if_splits option.splits)
  from tok.lookup_hit [OF assms(1) this] show "in_vocab t c" "tok_str t c = ?s" by (auto simp: tok_str_def)
qed

lemma all_tokens_merge: "all_tokens t tokens \<Longrightarrow> in_vocab t c \<Longrightarrow> all_tokens t (apply_merge c k tokens)"
  by (auto simp: all_tokens_def apply_merge_def dest: in_set_takeD in_set_dropD)

text \<open>An invariant of single merges holds at the end, where nothing is left to merge.\<close>

lemma merge_all_invariant:
  assumes "encoder_ok t" and "all_tokens t tokens" and "P tokens"
    and step: "\<And>ts k c. P ts \<Longrightarrow> all_tokens t ts \<Longrightarrow> k + 1 < length ts \<Longrightarrow> pair_merge t ts k = Some c \<Longrightarrow> P (apply_merge c k ts)"
  shows "\<exists>r. merge_all t tokens = Some r \<and> P r \<and> all_tokens t r \<and> length r \<le> length tokens
    \<and> (\<forall>k. k + 1 < length r \<longrightarrow> pair_merge t r k = None)"
  using assms(2,3)
proof (induction "length tokens" arbitrary: tokens rule: less_induct)
  case less
  obtain s i a where b: "best_merge t tokens = Some (s, i, a)" "best_of t tokens (length tokens - 1) (s, i, a)"
    using best_merge_best [OF assms(1) less.prems(1)] by (metis prod_cases3)
  show ?case
  proof (cases "a < 0")
    case True
    then have "\<forall>k. k + 1 < length tokens \<longrightarrow> pair_merge t tokens k = None" using b(2) by (simp add: best_of_def)
    then show ?thesis using True b(1) less.prems by (simp add: merge_all.simps [of t tokens])
  next
    case False
    then have m: "nat a + 1 < length tokens" "pair_merge t tokens (nat a) = Some i" using b(2) by (auto simp: best_of_def)
    have ok: "tables_ok t" using assms(1) by (simp add: encoder_ok_def)
    let ?ts = "apply_merge i (nat a) tokens"
    have l: "length ?ts < length tokens" using m(1) by (simp add: apply_merge_def)
    from less.hyps [OF l all_tokens_merge [OF less.prems(1) pair_merge_str(1) [OF ok m(2)]]
        step [OF less.prems(2,1) m]]
    obtain r where r: "merge_all t ?ts = Some r" "P r" "all_tokens t r" "length r \<le> length ?ts"
      "\<forall>k. k + 1 < length r \<longrightarrow> pair_merge t r k = None" by blast
    have "merge_all t tokens = merge_all t ?ts" using b(1) False by (simp add: merge_all.simps [of t tokens])
    with r l show ?thesis by auto
  qed
qed

section \<open>Splitting into code points\<close>

lemma push_ok: "tq_push mx v ts = (if int (length ts) \<ge> mx then Inl (Status TQ_ERR_NOMEM) else Inr (ts @ [v]))"
  by (simp add: tq_push_def)

definition push_outcome :: "tq_tokenizer \<Rightarrow> int \<Rightarrow> int list result \<Rightarrow> bool" where
  "push_outcome t mx r \<longleftrightarrow>
     (case r of Inl e \<Rightarrow> e = Status TQ_ERR_NOMEM | Inr ts \<Rightarrow> all_tokens t ts \<and> int (length ts) \<le> mx)"

lemma push_safe:
  "all_tokens t ts \<Longrightarrow> in_vocab t v \<Longrightarrow> push_outcome t mx (tq_push mx v ts)"
  by (simp add: push_outcome_def tq_push_def all_tokens_def)

lemma push_bind:
  assumes "push_outcome t mx q" and "\<And>ts. all_tokens t ts \<Longrightarrow> int (length ts) \<le> mx \<Longrightarrow> push_outcome t mx (f ts)"
  shows "push_outcome t mx (case q of Inl e \<Rightarrow> Inl e | Inr ts \<Rightarrow> f ts)"
  using assms by (cases q) (simp_all add: push_outcome_def)

lemma byte_token_ok:
  assumes "tables_ok t"
  shows "\<exists>b. tq_byte_token t c = Some b \<and> (0 \<le> b \<longrightarrow> in_vocab t b)"
  unfolding tq_byte_token_def using lookup_ok [OF assms] by blast

lemma push_bytes_safe:
  assumes "tables_ok t" and "all_tokens t ts" and "int (length ts) \<le> mx"
  shows "push_outcome t mx (push_bytes t mx cs ts)"
  using assms(2,3)
proof (induction cs arbitrary: ts)
  case (Cons c cs)
  obtain b where b: "tq_byte_token t c = Some b" "0 \<le> b \<longrightarrow> in_vocab t b" using byte_token_ok [OF assms(1)] by blast
  show ?case
  proof (cases "0 \<le> b")
    case True
    have "push_outcome t mx (tq_push mx b ts)" using Cons.prems(1) b(2) True by (intro push_safe) auto
    from push_bind [OF this Cons.IH] show ?thesis using b(1) True by simp
  next
    case False
    then show ?thesis using b Cons by simp
  qed
qed (simp add: push_outcome_def)

lemma encode_split_safe:
  assumes "tables_ok t" and "all_tokens t ts" and "int (length ts) \<le> mx"
  shows "push_outcome t mx (encode_split t mx inp i ts)"
  using assms
proof (induction t mx inp i ts rule: encode_split.induct)
  case (1 t mx inp i ts)
  show ?case
  proof (cases "i < length inp")
    case False
    then show ?thesis using "1.prems" by (simp add: encode_split.simps [of t] push_outcome_def)
  next
    case True
    define len where "len = (if i + utf8_len (inp ! i) > length inp then 1 else utf8_len (inp ! i))"
    define cp where "cp = take len (drop i inp)"
    obtain r where r: "tq_lookup t cp = Some r" "0 \<le> r \<longrightarrow> in_vocab t r" using lookup_ok [OF "1.prems"(1), of cp] by blast
    define q where "q = (if 0 \<le> r then tq_push mx r ts else push_bytes t mx cp ts)"
    have q: "push_outcome t mx q"
      using r(2) push_safe "1.prems" push_bytes_safe unfolding q_def by simp
    have e: "encode_split t mx inp i ts = (case q of Inl e \<Rightarrow> Inl e | Inr ts \<Rightarrow> encode_split t mx inp (i + len) ts)"
      unfolding encode_split.simps [of t mx inp i ts] if_P [OF True] Let_def len_def [symmetric] cp_def [symmetric] r(1)
        option.case q_def ..
    show ?thesis unfolding e
    proof (cases q)
      case (Inl e)
      then show "push_outcome t mx (case q of Inl e \<Rightarrow> Inl e | Inr ts \<Rightarrow> encode_split t mx inp (i + len) ts)"
        using q by simp
    next
      case (Inr ts1)
      then have "all_tokens t ts1" "int (length ts1) \<le> mx" using q by (simp_all add: push_outcome_def)
      with "1.IH" [OF True refl len_def cp_def r(1) _ "1.prems"(1)] Inr
      show "push_outcome t mx (case q of Inl e \<Rightarrow> Inl e | Inr ts \<Rightarrow> encode_split t mx inp (i + len) ts)"
        by (simp add: q_def)
    qed
  qed
qed

lemma encode_start_safe:
  assumes "tables_ok t" and "add_bos \<longrightarrow> in_vocab t (tk_bos t)" and "0 \<le> mx"
  shows "push_outcome t mx (encode_start t inp add_bos mx)"
proof -
  obtain d where d: "tq_lookup t (cstr '' '') = Some d" "0 \<le> d \<longrightarrow> in_vocab t d" using lookup_ok [OF assms(1)] by blast
  have "push_outcome t mx (if add_bos then tq_push mx (tk_bos t) [] else Inr [])"
    using assms(2,3) push_safe [of t "[]"] by (simp add: push_outcome_def all_tokens_def)
  then show ?thesis unfolding encode_start_def
  proof (rule push_bind)
    fix ts assume ts: "all_tokens t ts" "int (length ts) \<le> mx"
    then have keep: "push_outcome t mx (Inr ts)" by (simp add: push_outcome_def)
    show "push_outcome t mx (if length inp > 0 then
        case tq_lookup t (cstr '' '') of None \<Rightarrow> Inl Undefined | Some d \<Rightarrow> if d \<ge> 0 then tq_push mx d ts else Inr ts
      else Inr ts)"
      using keep d push_safe [OF ts(1)] by simp
  qed
qed

section \<open>Byte tokens\<close>

text \<open>The strings \<^verbatim>\<open><0xNN>\<close> that decode to a byte, and the byte.\<close>

definition byte_form :: "u8 list \<Rightarrow> bool" where
  "byte_form p \<longleftrightarrow> length p = 6 \<and> p ! 0 = of_char (CHR ''<'') \<and> p ! 1 = of_char (CHR ''0'') \<and> p ! 2 = of_char (CHR ''x'')
     \<and> p ! 5 = of_char (CHR ''>'') \<and> tq_hexval (p ! 3) \<ge> 0 \<and> tq_hexval (p ! 4) \<ge> 0"

definition surface :: "u8 list \<Rightarrow> u8 list" where
  "surface p = (if byte_form p then [word_of_int (push_bit 4 (tq_hexval (p ! 3)) OR tq_hexval (p ! 4))] else p)"

definition byte_name :: "u8 \<Rightarrow> u8 list" where
  "byte_name b = cstr ''<0x'' @ [hex_digit (drop_bit 4 b), hex_digit (b AND 0x0F)] @ cstr ''>''"

lemma byte_token_lookup: "tq_byte_token t b = tq_lookup t (byte_name b)"
  by (simp only: tq_byte_token_def byte_name_def)

lemma hexval_digit:
  assumes "unat d < 16"
  shows "tq_hexval (hex_digit d) = int (unat d)"
proof -
  have "\<forall>n < 16. tq_hexval (cstr ''0123456789ABCDEF'' ! n) = int n"
    unfolding cstr_def by code_simp
  then show ?thesis using assms unfolding hex_digit_def by blast
qed

lemma nibbles: "push_bit 4 (drop_bit 4 b) OR (b AND 0x0F) = (b :: u8)"
proof -
  have m: "(0x0F :: u8) = mask 4" by (simp add: mask_eq_exp_minus_1)
  show ?thesis unfolding m by (rule bit_word_eqI) (auto simp: bit_simps)
qed

lemma nibble_bounds: "unat (drop_bit 4 b :: u8) < 16" "unat (b AND 0x0F :: u8) < 16"
proof -
  have "unat (drop_bit 4 b) = unat b div 2 ^ 4" by (rule unat_drop_div)
  also have "\<dots> < 16" using unat8_less [of b] by (intro less_mult_imp_div_less) simp
  finally show "unat (drop_bit 4 b) < 16" .
  have m: "(0x0F :: u8) = mask 4" by (simp add: mask_eq_exp_minus_1)
  have "b AND 0x0F = take_bit 4 b" unfolding m by (simp add: take_bit_eq_mask)
  then have "unat (b AND 0x0F) = take_bit 4 (unat b)" by (simp only: unsigned_take_bit_eq)
  then show "unat (b AND 0x0F) < 16" by (simp add: take_bit_eq_mod)
qed

lemma byte_name_fields:
  "length (byte_name b) = 6" "byte_name b ! 0 = of_char (CHR ''<'')" "byte_name b ! 1 = of_char (CHR ''0'')"
  "byte_name b ! 2 = of_char (CHR ''x'')" "byte_name b ! 5 = of_char (CHR ''>'')"
  "byte_name b ! 3 = hex_digit (drop_bit 4 b)" "byte_name b ! 4 = hex_digit (b AND 0x0F)"
  by (simp_all only: byte_name_def cstr_def list.map append.simps nth_Cons_0 nth_Cons_Suc list.size
      One_nat_def numeral_nat add_Suc_right add_0_right)

lemma byte_name_surface: "byte_form (byte_name b)" "surface (byte_name b) = [b]"
proof -
  note h = hexval_digit [OF nibble_bounds(1) [of b]] hexval_digit [OF nibble_bounds(2) [of b]]
  show f: "byte_form (byte_name b)" unfolding byte_form_def byte_name_fields h by simp
  have "(word_of_int (push_bit 4 (int (unat (drop_bit 4 b))) OR int (unat (b AND 0x0F))) :: u8)
      = push_bit 4 (drop_bit 4 b) OR (b AND 0x0F)"
    by (rule bit_word_eqI) (auto simp: bit_simps)
  then show "surface (byte_name b) = [b]"
    unfolding surface_def if_P [OF f] byte_name_fields h nibbles by simp
qed

section \<open>Decoding one token\<close>

definition strip_space :: "tq_tokenizer \<Rightarrow> int \<Rightarrow> u8 list \<Rightarrow> u8 list" where
  "strip_space t prev p = (if prev = tk_bos t \<and> length p > 0 \<and> p ! 0 = of_char (CHR '' '') then drop 1 p else p)"

lemma decode_value:
  assumes "tables_ok t" and "in_vocab t token" and "2 \<le> length out"
  shows "tq_decode t prev token out =
    (let p = strip_space t prev (tok_str t token)
     in if byte_form p then Inr (1, out[0 := hd (surface p), 1 := 0])
        else let len = min (length p) (length out - 1) in Inr (len, take len p @ [0] @ drop (len + 1) out))"
proof -
  have r: "\<not> (token < 0 \<or> token \<ge> tk_vocab_size t \<or> length out < 2)" using assms(2,3) by (auto simp: in_vocab_def)
  define p where "p = strip_space t prev (tok_str t token)"
  have m: "(if length p + 1 > length out then length out - 1 else length p) = min (length p) (length out - 1)"
    using assms(3) unfolding min_def by arith
  show ?thesis
    unfolding tq_decode_def if_not_P [OF r] tok_str_piece [OF assms(1,2)] option.case Let_def
      strip_space_def [symmetric] p_def [symmetric] m
    by (simp add: byte_form_def surface_def)
qed

text \<open>The text that a sequence of tokens prints, each one decoded after its predecessor.\<close>

definition decoded :: "tq_tokenizer \<Rightarrow> nat \<Rightarrow> int \<Rightarrow> int \<Rightarrow> u8 list" where
  "decoded t out_bytes prev token =
     (case tq_decode t prev token (replicate out_bytes 0) of Inl e \<Rightarrow> [] | Inr (n, out) \<Rightarrow> take n out)"

fun decode_text :: "tq_tokenizer \<Rightarrow> nat \<Rightarrow> int \<Rightarrow> int list \<Rightarrow> u8 list" where
  "decode_text t out_bytes prev [] = []"
| "decode_text t out_bytes prev (x # xs) = decoded t out_bytes prev x @ decode_text t out_bytes x xs"

lemma decoded_surface:
  assumes "tables_ok t" and "in_vocab t x" and "length (tok_str t x) < ob" and "2 \<le> ob"
  shows "decoded t ob prev x = surface (strip_space t prev (tok_str t x))"
proof -
  define p where "p = strip_space t prev (tok_str t x)"
  have l: "length p \<le> length (tok_str t x)" by (simp add: p_def strip_space_def)
  have o: "replicate ob (0::u8) = 0 # replicate (ob - 1) 0" using assms(4) by (cases ob) simp_all
  have mn: "min (length p) (length (replicate ob (0::u8)) - 1) = length p" using l assms(3) by simp
  have d: "tq_decode t prev x (replicate ob 0) = (if byte_form p then Inr (1, (replicate ob 0)[0 := hd (surface p), 1 := 0])
        else Inr (length p, take (length p) p @ [0] @ drop (length p + 1) (replicate ob 0)))"
    using decode_value [OF assms(1,2), of "replicate ob 0" prev] assms(4)
    unfolding p_def [symmetric] Let_def mn by simp
  show ?thesis
  proof (cases "byte_form p")
    case True
    have "take 1 ((replicate ob (0::u8))[0 := v, 1 := 0]) = [v]" for v unfolding o by simp
    then show ?thesis unfolding decoded_def d if_P [OF True] p_def [symmetric] using True by (simp add: surface_def)
  next
    case False
    then show ?thesis unfolding decoded_def d p_def [symmetric] by (simp add: surface_def)
  qed
qed

section \<open>The round trip\<close>

text \<open>
  A vocabulary whose spelling of bytes stays apart from its merges: no byte string is joined
  from or into other tokens, not even behind a space; the bytes of the text and the space have a
  token;
  the begin marker is neither a byte nor a code point and takes part in no merge.
\<close>

definition apart :: "tq_tokenizer \<Rightarrow> int \<Rightarrow> bool" where
  "apart t i \<longleftrightarrow> \<not> byte_form (tok_str t i) \<and> i \<noteq> tk_bos t"

definition plain_vocab :: "tq_tokenizer \<Rightarrow> u8 list \<Rightarrow> bool" where
  "plain_vocab t inp \<longleftrightarrow>
     (\<forall>a b c. in_vocab t a \<longrightarrow> in_vocab t b \<longrightarrow> in_vocab t c \<longrightarrow> tok_str t c = tok_str t a @ tok_str t b \<longrightarrow>
        apart t a \<and> apart t b \<and> apart t c)
     \<and> (\<forall>c. in_vocab t c \<longrightarrow> \<not> byte_form (drop 1 (tok_str t c)))
     \<and> (\<forall>b \<in> set inp. \<exists>i. in_vocab t i \<and> tok_str t i = byte_name b)
     \<and> (\<exists>i. in_vocab t i \<and> tok_str t i = cstr '' '')
     \<and> 1 < length (tok_str t (tk_bos t)) \<and> hd (tok_str t (tk_bos t)) < 0x80 \<and> \<not> byte_form (tok_str t (tk_bos t))"

definition surfaces :: "tq_tokenizer \<Rightarrow> int list \<Rightarrow> u8 list" where
  "surfaces t tokens = concat (map (\<lambda>x. surface (tok_str t x)) tokens)"

lemma surfaces_simps [simp]:
  "surfaces t [] = []" "surfaces t (x # xs) = surface (tok_str t x) @ surfaces t xs"
  "surfaces t (xs @ ys) = surfaces t xs @ surfaces t ys"
  by (simp_all add: surfaces_def)

lemma surface_plain: "\<not> byte_form p \<Longrightarrow> surface p = p"
  by (simp add: surface_def)

lemma surface_merge:
  assumes "surface (tok_str t c) = surface (tok_str t (ts ! k)) @ surface (tok_str t (ts ! (k + 1)))" and "k + 1 < length ts"
  shows "surfaces t (apply_merge c k ts) = surfaces t ts"
proof -
  have "ts = take k ts @ ts ! k # ts ! (k + 1) # drop (k + 2) ts"
    using assms(2) by (simp add: Cons_nth_drop_Suc)
  then have "surfaces t ts = surfaces t (take k ts @ ts ! k # ts ! (k + 1) # drop (k + 2) ts)" by simp
  then show ?thesis using assms(1) by (simp add: apply_merge_def)
qed

lemma utf8_first:
  assumes "1 < utf8_len c"
  shows "0x80 \<le> c"
proof -
  have "bit c 7"
  proof (rule ccontr)
    assume "\<not> bit c 7"
    moreover have "bit (0xC0 :: u8) 7" "bit (0xE0 :: u8) 7" "bit (0xF0 :: u8) 7" by (simp_all add: bit_numeral_rec)
    ultimately have "c AND 0xE0 \<noteq> 0xC0" "c AND 0xF0 \<noteq> 0xE0" "c AND 0xF8 \<noteq> 0xF0"
      by (metis bit_and_iff)+
    then show False using assms by (simp add: utf8_len_def)
  qed
  then have "bit (unat c) 7" by (simp add: bit_unsigned_iff)
  then have "odd (unat c div 2 ^ 7)" by (simp only: bit_iff_odd not_False_eq_True)
  then have "unat c div 2 ^ 7 \<noteq> 0" by (metis even_zero)
  then have "\<not> unat c < 2 ^ 7" using div_less by metis
  then have "128 \<le> unat c" by simp
  then show ?thesis by (simp add: word_le_nat_alt)
qed

text \<open>What the tokens of the text are: of the vocabulary, not the begin marker, spelling the text.\<close>

definition spells :: "tq_tokenizer \<Rightarrow> u8 list \<Rightarrow> int list \<Rightarrow> bool" where
  "spells t s ts \<longleftrightarrow> all_tokens t ts \<and> tk_bos t \<notin> set ts \<and> surfaces t ts = s"

lemma push_bytes_spells:
  assumes "tables_ok t" and "plain_vocab t inp" and "push_bytes t mx cs ts = Inr ts'" and "set cs \<subseteq> set inp"
  shows "\<exists>new. ts' = ts @ new \<and> spells t cs new"
  using assms(3,4)
proof (induction cs arbitrary: ts)
  case Nil
  then show ?case by (simp add: spells_def all_tokens_def)
next
  case (Cons c cs)
  obtain i where i: "in_vocab t i" "tok_str t i = byte_name c"
    using assms(2) Cons.prems(2) unfolding plain_vocab_def by (metis list.set_intros(1) subsetD)
  then have "tq_piece t i = Some (byte_name c)" using tok_str_piece [OF assms(1)] by metis
  then obtain b where b: "tq_lookup t (byte_name c) = Some b" "0 \<le> b" "in_vocab t b" "tq_piece t b = Some (byte_name c)"
    using tok.lookup_found [OF assms(1) i(1)] by blast
  then have "tq_push mx b ts = Inr (ts @ [b])" "push_bytes t mx cs (ts @ [b]) = Inr ts'"
    using Cons.prems(1) by (auto simp: byte_token_lookup tq_push_def split: if_splits)
  from Cons.IH [OF this(2)] Cons.prems(2) obtain new where new: "ts' = ts @ [b] @ new" "spells t cs new" by auto
  have s: "tok_str t b = byte_name c" using b(4) by (simp add: tok_str_def)
  then have "b \<noteq> tk_bos t" using assms(2) byte_name_surface(1) unfolding plain_vocab_def by metis
  then have "spells t (c # cs) (b # new)" using new(2) b(3) s by (simp add: spells_def all_tokens_def byte_name_surface)
  then show ?case using new(1) by auto
qed

lemma split_spells:
  assumes "tables_ok t" and "plain_vocab t inp" and "encode_split t mx inp i ts = Inr ts'"
  shows "\<exists>new. ts' = ts @ new \<and> spells t (drop i inp) new"
  using assms
proof (induction t mx inp i ts rule: encode_split.induct)
  case (1 t mx inp i ts)
  show ?case
  proof (cases "i < length inp")
    case False
    then show ?thesis using "1.prems"(3) by (simp add: encode_split.simps [of t] spells_def all_tokens_def)
  next
    case True
    define len where "len = (if i + utf8_len (inp ! i) > length inp then 1 else utf8_len (inp ! i))"
    define cp where "cp = take len (drop i inp)"
    obtain r where r: "tq_lookup t cp = Some r" "0 \<le> r \<longrightarrow> in_vocab t r \<and> tq_piece t r = Some cp"
      using lookup_ok [OF "1.prems"(1), of cp] by blast
    define q where "q = (if 0 \<le> r then tq_push mx r ts else push_bytes t mx cp ts)"
    have e: "encode_split t mx inp i ts = (case q of Inl e \<Rightarrow> Inl e | Inr ts \<Rightarrow> encode_split t mx inp (i + len) ts)"
      unfolding encode_split.simps [of t mx inp i ts] if_P [OF True] Let_def len_def [symmetric] cp_def [symmetric] r(1)
        option.case q_def ..
    obtain ts1 where ts1: "q = Inr ts1" "encode_split t mx inp (i + len) ts1 = Inr ts'"
      using "1.prems"(3) e by (cases q) auto
    have first: "\<exists>new. ts1 = ts @ new \<and> spells t cp new"
    proof (cases "0 \<le> r")
      case False
      have "set cp \<subseteq> set inp" unfolding cp_def by (meson set_take_subset set_drop_subset subset_trans)
      then show ?thesis using push_bytes_spells [OF "1.prems"(1,2)] ts1(1) False unfolding q_def by auto
    next
      case hit: True
      then have p: "in_vocab t r" "tok_str t r = cp" using r(2) by (auto simp: tok_str_def)
      have len: "1 \<le> len" "len \<le> 4" "cp \<noteq> []" "hd cp = inp ! i" "length cp = len"
        using True by (auto simp: len_def cp_def utf8_len_def hd_drop_conv_nth)
      have "\<not> byte_form cp" using len by (auto simp: byte_form_def)
      moreover have "r \<noteq> tk_bos t"
      proof
        assume "r = tk_bos t"
        then have "1 < length cp" "hd cp < 0x80" using p(2) "1.prems"(2) by (auto simp: plain_vocab_def)
        then show False using utf8_first [of "inp ! i"] len by (auto simp: len_def split: if_splits)
      qed
      ultimately have "spells t cp [r]" using p by (simp add: spells_def all_tokens_def surface_plain)
      then show ?thesis using hit ts1(1) unfolding q_def by (auto simp: tq_push_def split: if_splits)
    qed
    have c: "(if 0 \<le> r then tq_push mx r ts else push_bytes t mx cp ts) = Inr ts1" using ts1(1) by (simp add: q_def)
    from "1.IH" [OF True refl len_def cp_def r(1) c "1.prems"(1,2) ts1(2)] first
    obtain n1 n2 where n: "ts1 = ts @ n1" "spells t cp n1" "ts' = ts1 @ n2" "spells t (drop (i + len) inp) n2" by blast
    have "drop i inp = cp @ drop (i + len) inp" 
      using append_take_drop_id [of len "drop i inp"] unfolding cp_def by (simp add: add.commute)
    then have "spells t (drop i inp) (n1 @ n2)" using n(2,4) by (auto simp: spells_def all_tokens_def)
    then show ?thesis using n by auto
  qed
qed

text \<open>The tokens behind the begin marker: the first one starts with the space.\<close>

definition message :: "tq_tokenizer \<Rightarrow> u8 list \<Rightarrow> int list \<Rightarrow> bool" where
  "message t s ts \<longleftrightarrow> spells t (cstr '' '' @ s) ts \<and> ts \<noteq> []
     \<and> (\<exists>p. tok_str t (hd ts) = cstr '' '' @ p \<and> \<not> byte_form (tok_str t (hd ts)))"

lemma all_tokens_nth: "all_tokens t ts \<Longrightarrow> k < length ts \<Longrightarrow> in_vocab t (ts ! k)"
  by (simp add: all_tokens_def)

lemma plain_vocab_apart:
  "plain_vocab t inp \<Longrightarrow> in_vocab t a \<Longrightarrow> in_vocab t b \<Longrightarrow> in_vocab t c \<Longrightarrow> tok_str t c = tok_str t a @ tok_str t b \<Longrightarrow>
    apart t a \<and> apart t b \<and> apart t c"
  unfolding plain_vocab_def by blast

lemma spells_merge:
  assumes "spells t s ts" and "surfaces t (apply_merge c j ts) = surfaces t ts" and "in_vocab t c" and "c \<noteq> tk_bos t"
  shows "spells t s (apply_merge c j ts)"
  using assms unfolding spells_def
  by (auto intro: all_tokens_merge) (auto simp: apply_merge_def dest: in_set_takeD in_set_dropD)

lemma message_merge:
  assumes "encoder_ok t" and "plain_vocab t inp" and "in_vocab t (tk_bos t)"
    and "message t s ts" and "k + 1 < length (tk_bos t # ts)" and "pair_merge t (tk_bos t # ts) k = Some c"
  shows "\<exists>ts'. apply_merge c k (tk_bos t # ts) = tk_bos t # ts' \<and> message t s ts'"
proof -
  let ?ts = "tk_bos t # ts"
  have ok: "tables_ok t" using assms(1) by (simp add: encoder_ok_def)
  have all: "all_tokens t ?ts" using assms(3,4) by (simp add: message_def spells_def all_tokens_def)
  note c = pair_merge_str [OF ok assms(6)]
  have "k < length ?ts" using assms(5) by simp
  note v = all_tokens_nth [OF all this] all_tokens_nth [OF all assms(5)]
  note ap3 = plain_vocab_apart [OF assms(2) v c]
  then have ap: "apart t (?ts ! k)" "apart t (?ts ! (k + 1))" "apart t c" by simp_all
  have "k \<noteq> 0"
  proof
    assume "k = 0"
    then show False using ap(1) by (simp add: apart_def)
  qed
  then obtain j where j: "k = Suc j" by (cases k) auto
  have m: "apply_merge c k ?ts = tk_bos t # apply_merge c j ts" by (simp add: j apply_merge_def)
  have jl: "j + 1 < length ts" using assms(5) j by simp
  have str: "tok_str t c = tok_str t (ts ! j) @ tok_str t (ts ! (j + 1))" using c(2) by (simp add: j)
  have apj: "\<not> byte_form (tok_str t (ts ! j))" "\<not> byte_form (tok_str t (ts ! (j + 1)))" "\<not> byte_form (tok_str t c)" "c \<noteq> tk_bos t"
    using ap by (simp_all add: j apart_def)
  have "surface (tok_str t c) = surface (tok_str t (ts ! j)) @ surface (tok_str t (ts ! (j + 1)))"
    using str apj by (simp add: surface_plain)
  from surface_merge [OF this jl] have sf: "surfaces t (apply_merge c j ts) = surfaces t ts" .
  have sp: "spells t (cstr '' '' @ s) (apply_merge c j ts)"
    using assms(4) by (intro spells_merge [OF _ sf c(1) apj(4)]) (simp add: message_def)
  have "\<exists>p. tok_str t (hd (apply_merge c j ts)) = cstr '' '' @ p \<and> \<not> byte_form (tok_str t (hd (apply_merge c j ts)))"
  proof (cases "j = 0")
    case True
    then have "hd (apply_merge c j ts) = c" "ts ! j = hd ts" using jl by (cases ts; simp add: apply_merge_def)+
    then show ?thesis using assms(4) str apj(3) by (auto simp: message_def)
  next
    case False
    then have "hd (apply_merge c j ts) = hd ts" using jl by (cases ts; cases j) (simp_all add: apply_merge_def)
    then show ?thesis using assms(4) by (auto simp: message_def)
  qed
  then show ?thesis using m sp by (auto simp: message_def apply_merge_def)
qed

lemma strip_other: "prev \<noteq> tk_bos t \<Longrightarrow> strip_space t prev p = p"
  by (simp add: strip_space_def)

lemma decode_rest:
  assumes "tables_ok t" and "\<forall>x. in_vocab t x \<longrightarrow> length (tok_str t x) < ob" and "2 \<le> ob"
    and "all_tokens t xs" and "tk_bos t \<notin> set xs" and "prev \<noteq> tk_bos t"
  shows "decode_text t ob prev xs = surfaces t xs"
  using assms(4-6)
proof (induction xs arbitrary: prev)
  case (Cons x xs)
  then have "in_vocab t x" by (simp add: all_tokens_def)
  then have "decoded t ob prev x = surface (tok_str t x)"
    using decoded_surface [OF assms(1) _ _ assms(3)] assms(2) strip_other [OF Cons.prems(3)] by metis
  then show ?case using Cons by (simp add: all_tokens_def)
qed simp

lemma decode_message:
  assumes "tables_ok t" and "plain_vocab t inp" and "\<forall>x. in_vocab t x \<longrightarrow> length (tok_str t x) < ob" and "2 \<le> ob"
    and "message t s ts"
  shows "decode_text t ob (tk_bos t) ts = s"
proof -
  obtain x xs where ts: "ts = x # xs" using assms(5) by (cases ts) (auto simp: message_def)
  obtain p where p: "tok_str t x = cstr '' '' @ p" "\<not> byte_form (tok_str t x)" using assms(5) ts by (auto simp: message_def)
  have v: "in_vocab t x" "all_tokens t xs" "x \<noteq> tk_bos t" "tk_bos t \<notin> set xs"
    "surface (tok_str t x) @ surfaces t xs = cstr '' '' @ s"
    using assms(5) ts by (auto simp: message_def spells_def all_tokens_def)
  have "\<not> byte_form (drop 1 (tok_str t x))" using assms(2) v(1) by (auto simp: plain_vocab_def)
  then have np: "\<not> byte_form p" using p(1) by (simp add: cstr_def)
  have "strip_space t (tk_bos t) (tok_str t x) = p" using p(1) by (simp add: strip_space_def cstr_def)
  then have "decoded t ob (tk_bos t) x = p"
    using decoded_surface [OF assms(1) v(1) _ assms(4)] assms(3) v(1) surface_plain [OF np] by metis
  moreover have "decode_text t ob x xs = surfaces t xs" by (rule decode_rest [OF assms(1,3,4) v(2,4,3)])
  moreover have "p @ surfaces t xs = s" using v(5) surface_plain [OF p(2)] p(1) by (simp add: cstr_def)
  ultimately show ?thesis by (simp add: ts)
qed

section \<open>A small vocabulary\<close>

text \<open>The tokens \<^verbatim>\<open><s>\<close>, space, \<^verbatim>\<open>a\<close>, space and \<^verbatim>\<open>a\<close>, and the byte \<^verbatim>\<open><0x62>\<close>.\<close>

definition sample_words :: "nat list" where
  "sample_words = [0, 3, 4, 5, 7, 13,  1, 3, 4, 0, 2,  0, 0, 0, 0x3F800000, 0]"

definition sample_blob :: "u8 list" where
  "sample_blob = [60, 115, 62,  32,  97,  32, 97,  60, 48, 120, 54, 50, 62]"

definition sample_tok :: tq_tokenizer where
  "sample_tok = \<lparr>tk_m = zero_model, tk_base = concat (map (le_bytes 4) sample_words) @ sample_blob,
     tk_scores = 44, tk_offs = 0, tk_sorted = 24, tk_blob = 64, tk_vocab_size = 5, tk_buf_bytes = 64\<rparr>"

lemma sample_table_word:
  assumes "0 \<le> i" and "k + nat i < 16"
  shows "table_word sample_tok (4 * k) i = Some (of_nat (sample_words ! (k + nat i)))"
proof -
  have l: "length sample_words = 16" by (simp add: sample_words_def)
  have "\<forall>n \<in> set sample_words. n < 2 ^ 32" by (simp add: sample_words_def)
  then have "sample_words ! (k + nat i) < 2 ^ 32" using assms(2) l by simp
  from words_le32 [of "k + nat i" sample_words "[]" 0 sample_blob, OF _ this]
  have "le32 (tk_base sample_tok) (4 * (k + nat i)) = of_nat (sample_words ! (k + nat i))"
    using assms(2) l by (simp add: sample_tok_def)
  then show ?thesis using assms l by (simp add: table_word_def sample_tok_def add_mult_distrib2)
qed

lemma sample_tok_offs:
  "table_word sample_tok 0 0 = Some 0" "table_word sample_tok 0 1 = Some 3" "table_word sample_tok 0 2 = Some 4"
  "table_word sample_tok 0 3 = Some 5" "table_word sample_tok 0 4 = Some 7" "table_word sample_tok 0 5 = Some 13"
  using sample_table_word [of 0 0] sample_table_word [of 1 0] sample_table_word [of 2 0] sample_table_word [of 3 0]
    sample_table_word [of 4 0] sample_table_word [of 5 0] by (simp_all add: sample_words_def)

lemma sample_tok_sorted:
  "table_word sample_tok 24 0 = Some 1" "table_word sample_tok 24 1 = Some 3" "table_word sample_tok 24 2 = Some 4"
  "table_word sample_tok 24 3 = Some 0" "table_word sample_tok 24 4 = Some 2"
  using sample_table_word [of 0 6] sample_table_word [of 1 6] sample_table_word [of 2 6] sample_table_word [of 3 6]
    sample_table_word [of 4 6] by (simp_all add: sample_words_def)

lemma sample_tok_scores:
  "0 \<le> i \<Longrightarrow> i < 5 \<Longrightarrow> table_word sample_tok 44 i \<noteq> None"
  using sample_table_word [of i 11] by simp

lemma sample_tok_fields:
  "tk_offs sample_tok = 0" "tk_sorted sample_tok = 24" "tk_scores sample_tok = 44" "tk_blob sample_tok = 64"
  "length (tk_base sample_tok) = 77" "drop (64 + n) (tk_base sample_tok) = drop n sample_blob"
  by (simp_all add: sample_tok_def sample_words_def sample_blob_def del: concat.simps list.map)

lemma sample_tok_pieces:
  "tq_piece sample_tok 0 = Some [60, 115, 62]" "tq_piece sample_tok 1 = Some [32]" "tq_piece sample_tok 2 = Some [97]"
  "tq_piece sample_tok 3 = Some [32, 97]" "tq_piece sample_tok 4 = Some [60, 48, 120, 54, 50, 62]"
  unfolding tq_piece_def sample_tok_fields
  using sample_tok_fields(6) [of 0] sample_tok_fields(6) [of 3] sample_tok_fields(6) [of 4] sample_tok_fields(6) [of 5]
    sample_tok_fields(6) [of 7]
  by (simp_all add: sample_tok_offs sample_tok_fields(5) Let_def sample_blob_def)

lemma sample_in_vocab: "in_vocab sample_tok i \<longleftrightarrow> i = 0 \<or> i = 1 \<or> i = 2 \<or> i = 3 \<or> i = 4"
  by (auto simp: in_vocab_def sample_tok_def)

lemma sample_bos: "tk_bos sample_tok = 0"
  by (simp add: tk_bos_def sample_tok_def zero_model_def zero_header_def header_at_def le32_def)

lemma sample_tok_strs:
  "tok_str sample_tok 0 = [60, 115, 62]" "tok_str sample_tok 1 = [32]" "tok_str sample_tok 2 = [97]"
  "tok_str sample_tok 3 = [32, 97]" "tok_str sample_tok 4 = [60, 48, 120, 54, 50, 62]"
  by (simp_all add: tok_str_def sample_tok_pieces)

lemma sample_sort_ids:
  "sort_id sample_tok 0 = 1" "sort_id sample_tok 1 = 3" "sort_id sample_tok 2 = 4" "sort_id sample_tok 3 = 0" "sort_id sample_tok 4 = 2"
  by (simp_all add: sort_id_def sample_tok_fields sample_tok_sorted)

lemma sample_tables: "tables_ok sample_tok"
  unfolding tables_ok_def
proof (intro conjI allI impI)
  fix i assume "in_vocab sample_tok i"
  then have i: "i = 0 \<or> i = 1 \<or> i = 2 \<or> i = 3 \<or> i = 4" by (simp add: sample_in_vocab)
  show "tq_piece sample_tok i \<noteq> None" using i sample_tok_pieces by auto
  show "table_word sample_tok (tk_scores sample_tok) i \<noteq> None"
    unfolding sample_tok_fields by (rule sample_tok_scores) (use i in auto)
  show "table_word sample_tok (tk_sorted sample_tok) i \<noteq> None"
    unfolding sample_tok_fields using i sample_tok_sorted by auto
  show "in_vocab sample_tok (sort_id sample_tok i)" using i sample_sort_ids by (auto simp: sample_in_vocab)
  show "\<exists>j. in_vocab sample_tok j \<and> sort_id sample_tok j = i" using i sample_sort_ids sample_in_vocab by metis
next
  fix i j assume "in_vocab sample_tok i" "in_vocab sample_tok j" "i \<le> j"
  then show "tok_str sample_tok (sort_id sample_tok i) \<le> tok_str sample_tok (sort_id sample_tok j)"
    unfolding sample_in_vocab by (elim disjE) (simp_all add: sample_sort_ids sample_tok_strs)
qed

lemma sample_encoder: "encoder_ok sample_tok"
  using sample_tables by (simp add: encoder_ok_def sample_tok_def)

lemma sample_byte_form: "byte_form [60, 48, 120, 54, 50, 62]" "byte_name 98 = [60, 48, 120, 54, 50, 62]"
  "byte_name 97 \<noteq> []"
  by code_simp+

lemma byte_form_length: "length p \<noteq> 6 \<Longrightarrow> \<not> byte_form p"
  by (simp add: byte_form_def)

lemma sample_plain: "plain_vocab sample_tok [98]"
  unfolding plain_vocab_def
proof (intro conjI allI impI ballI)
  fix a b c assume v: "in_vocab sample_tok a" "in_vocab sample_tok b" "in_vocab sample_tok c"
    and s: "tok_str sample_tok c = tok_str sample_tok a @ tok_str sample_tok b"
  have "c = 3 \<and> a = 1 \<and> b = 2"
    using v s unfolding sample_in_vocab by (elim disjE) (simp_all add: sample_tok_strs)
  then show "apart sample_tok a" "apart sample_tok b" "apart sample_tok c"
    by (simp_all add: apart_def sample_bos sample_tok_strs byte_form_length)
next
  fix c assume "in_vocab sample_tok c"
  then show "\<not> byte_form (drop 1 (tok_str sample_tok c))"
    unfolding sample_in_vocab by (elim disjE) (simp_all add: sample_tok_strs byte_form_length)
next
  fix b :: u8 assume "b \<in> set [98]"
  then show "\<exists>i. in_vocab sample_tok i \<and> tok_str sample_tok i = byte_name b"
    by (intro exI [of _ 4]) (simp add: sample_in_vocab sample_tok_strs sample_byte_form)
next
  have "cstr '' '' = [32]" by code_simp
  then show "\<exists>i. in_vocab sample_tok i \<and> tok_str sample_tok i = cstr '' ''"
    by (intro exI [of _ 1]) (simp add: sample_in_vocab sample_tok_strs)
qed (simp_all add: sample_bos sample_tok_strs byte_form_length word_less_nat_alt)

lemma sample_lookup:
  "tq_lookup sample_tok s = Some (if s = [60, 115, 62] then 0 else if s = [32] then 1 else if s = [97] then 2
     else if s = [32, 97] then 3 else if s = [60, 48, 120, 54, 50, 62] then 4 else -1)"
proof -
  obtain r where r: "tq_lookup sample_tok s = Some r" "0 \<le> r \<longrightarrow> in_vocab sample_tok r \<and> tq_piece sample_tok r = Some s"
    "\<not> 0 \<le> r \<longrightarrow> r = -1 \<and> (\<forall>i. in_vocab sample_tok i \<longrightarrow> tq_piece sample_tok i \<noteq> Some s)"
    using lookup_ok [OF sample_tables, of s] by blast
  show ?thesis
  proof (cases "0 \<le> r")
    case True
    then have "in_vocab sample_tok r" "tq_piece sample_tok r = Some s" using r(2) by auto
    then show ?thesis unfolding r(1) sample_in_vocab by (elim disjE) (auto simp: sample_tok_pieces)
  next
    case False
    then have "tq_piece sample_tok i \<noteq> Some s" if "in_vocab sample_tok i" for i using r(3) that by blast
    from this [of 0] this [of 1] this [of 2] this [of 3] this [of 4] False r(3)
    show ?thesis unfolding r(1) by (auto simp: sample_in_vocab sample_tok_pieces)
  qed
qed

lemma sample_encode: "tq_encode sample_tok [98] True False 8 = Inr [0, 1, 4]"
proof -
  have sp: "cstr '' '' = [32]" by code_simp
  have st: "encode_start sample_tok [98] True 8 = Inr [0, 1]"
    by (simp add: encode_start_def tq_push_def sample_bos sp sample_lookup)
  have u: "utf8_len 98 = 1" by code_simp
  have bt: "tq_byte_token sample_tok 98 = Some 4"
    by (simp add: byte_token_lookup sample_byte_form sample_lookup)
  have sl: "encode_split sample_tok 8 [98] 0 [0, 1] = Inr [0, 1, 4]"
    by (simp add: encode_split.simps [of sample_tok 8 "[98]"] u Let_def sample_lookup bt tq_push_def)
  have buf: "tk_buf_bytes sample_tok = 64" by (simp add: sample_tok_def)
  have pm: "pair_merge sample_tok [0, 1, 4] 0 = None" "pair_merge sample_tok [0, 1, 4] 1 = None"
    by (simp_all add: pair_merge_def sample_tok_strs sample_lookup)
  have al: "all_tokens sample_tok [0, 1, 4]" by (simp add: all_tokens_def sample_in_vocab)
  have "best_merge sample_tok [0, 1, 4] = Some (0, -1, -1)"
    using pm by (simp add: best_merge_value [OF sample_encoder al] look_value_def upt_rec)
  then have "merge_all sample_tok [0, 1, 4] = Some [0, 1, 4]" by (simp add: merge_all.simps [of _ "[0, 1, 4]"])
  then show ?thesis by (simp add: tq_encode_def st sl)
qed

section \<open>Whole texts\<close>

lemma encode_outcome:
  assumes "encoder_ok t" and "add_bos \<longrightarrow> in_vocab t (tk_bos t)" and "0 \<le> max_tokens"
  shows "case tq_encode t inp add_bos add_eos max_tokens of
      Inl e \<Rightarrow> e = Status TQ_ERR_NOMEM
    | Inr tokens \<Rightarrow> int (length tokens) \<le> max_tokens \<and> (\<forall>x \<in> set tokens. in_vocab t x \<or> add_eos \<and> x = tk_eos t)"
proof -
  have ok: "tables_ok t" using assms(1) by (simp add: encoder_ok_def)
  have s: "push_outcome t max_tokens (encode_start t inp add_bos max_tokens)"
    by (rule encode_start_safe [OF ok assms(2,3)])
  show ?thesis
  proof (cases "encode_start t inp add_bos max_tokens")
    case (Inl e)
    then show ?thesis using s by (simp add: tq_encode_def push_outcome_def)
  next
    case (Inr ts)
    have sp: "push_outcome t max_tokens (encode_split t max_tokens inp 0 ts)"
      using s Inr by (intro encode_split_safe [OF ok]) (simp_all add: push_outcome_def)
    show ?thesis
    proof (cases "encode_split t max_tokens inp 0 ts")
      case (Inl e)
      then show ?thesis using sp Inr by (simp add: tq_encode_def push_outcome_def)
    next
      case (Inr ts1)
      then have t1: "all_tokens t ts1" "int (length ts1) \<le> max_tokens" using sp by (simp_all add: push_outcome_def)
      obtain r where r: "merge_all t ts1 = Some r" "all_tokens t r" "length r \<le> length ts1"
        using merge_all_invariant [OF assms(1) t1(1), of "\<lambda>_. True"] by auto
      then show ?thesis
        using Inr t1 \<open>encode_start t inp add_bos max_tokens = Inr ts\<close>
        by (auto simp: tq_encode_def tq_push_def all_tokens_def)
    qed
  qed
qed

lemma text_survives:
  assumes "encoder_ok t" and "plain_vocab t inp" and "in_vocab t (tk_bos t)"
    and "\<forall>x. in_vocab t x \<longrightarrow> length (tok_str t x) < out_bytes" and "2 \<le> out_bytes"
    and "tq_encode t inp True False max_tokens = Inr tokens"
  shows "\<exists>rest. tokens = tk_bos t # rest \<and> decode_text t out_bytes (tk_bos t) rest = inp"
proof -
  have ok: "tables_ok t" using assms(1) by (simp add: encoder_ok_def)
  obtain ts0 ts1 where e: "encode_start t inp True max_tokens = Inr ts0" "encode_split t max_tokens inp 0 ts0 = Inr ts1"
    "merge_all t ts1 = Some tokens"
    using assms(6) by (auto simp: tq_encode_def split: sum.splits option.splits)
  show ?thesis
  proof (cases "inp = []")
    case True
    have ts0: "ts0 = [tk_bos t]" using e(1) True by (simp add: encode_start_def tq_push_def split: if_splits)
    have ts1: "ts1 = [tk_bos t]" using e(2) True ts0 by (simp add: encode_split.simps)
    have "merge_all t [tk_bos t] = Some [tk_bos t]"
      by (simp add: merge_all.simps [of t "[tk_bos t]"] best_merge_def)
    then show ?thesis using e(3) ts1 True by auto
  next
    case False
    obtain i where "in_vocab t i" "tok_str t i = cstr '' ''" using assms(2) by (auto simp: plain_vocab_def)
    then have "tq_piece t i = Some (cstr '' '')" "in_vocab t i" using tok_str_piece [OF ok] by metis+
    then obtain d where d: "tq_lookup t (cstr '' '') = Some d" "0 \<le> d" "in_vocab t d" "tq_piece t d = Some (cstr '' '')"
      using tok.lookup_found [OF ok] by metis
    have ds: "tok_str t d = cstr '' ''" using d(4) by (simp add: tok_str_def)
    have ts0: "ts0 = [tk_bos t, d]"
      using e(1) False d by (simp add: encode_start_def tq_push_def split: if_splits)
    obtain new where new: "ts1 = tk_bos t # d # new" "spells t inp new"
      using split_spells [OF ok assms(2) e(2)] ts0 by auto
    have db: "d \<noteq> tk_bos t" using assms(2) ds by (auto simp: plain_vocab_def)
    have nb: "\<not> byte_form (cstr '' '')" by (simp add: byte_form_def)
    have "message t inp (d # new)"
      using new(2) d(3) db ds nb by (auto simp: message_def spells_def all_tokens_def surface_plain)
    then have P: "\<exists>ts. ts1 = tk_bos t # ts \<and> message t inp ts" using new(1) by blast
    have "all_tokens t ts1" using P assms(3) by (auto simp: message_def spells_def all_tokens_def)
    from merge_all_invariant [OF assms(1) this, of "\<lambda>l. \<exists>ts. l = tk_bos t # ts \<and> message t inp ts", OF P]
    have "\<exists>r. merge_all t ts1 = Some r \<and> (\<exists>ts. r = tk_bos t # ts \<and> message t inp ts)"
      using message_merge [OF assms(1-3)] by blast
    then show ?thesis using e(3) decode_message [OF ok assms(2,4,5)] by auto
  qed
qed

section \<open>Properties\<close>

text \<open>
  C33: encoding is safe and stays in its array. With tables that lie in the image, every text
  gives either \<^verbatim>\<open>TQ_ERR_NOMEM\<close> or at most \<^verbatim>\<open>max_tokens\<close> tokens, all of the vocabulary but for an
  end marker; no table is read outside the image, and the merging ends.
\<close>

theorem encode_safe:
  assumes "encoder_ok t" and "add_bos \<longrightarrow> in_vocab t (tk_bos t)" and "0 \<le> max_tokens"
  shows "case tq_encode t inp add_bos add_eos max_tokens of
      Inl e \<Rightarrow> e = Status TQ_ERR_NOMEM
    | Inr tokens \<Rightarrow> int (length tokens) \<le> max_tokens \<and> (\<forall>x \<in> set tokens. in_vocab t x \<or> add_eos \<and> x = tk_eos t)"
  using assms by (rule encode_outcome)

theorem encode_safe_witness:
  "\<exists>tokens. tq_encode sample_tok [98] True False 8 = Inr tokens \<and> int (length tokens) \<le> 8"
proof -
  have "True \<longrightarrow> in_vocab sample_tok (tk_bos sample_tok)" by (simp add: sample_bos sample_in_vocab)
  from encode_safe [OF sample_encoder this, where max_tokens = 8 and add_eos = False and inp = "[98]"] sample_encode show ?thesis by auto
qed

text \<open>
  Decoding one token stays in its buffer. The call fails exactly for a token outside the
  vocabulary or a buffer of less than two bytes; otherwise the text ends with its terminator
  inside the buffer, whose size does not change, and nothing outside the tables is read.
\<close>

theorem decode_safe:
  assumes "tables_ok t"
  shows "case tq_decode t prev token out of
      Inl e \<Rightarrow> e = Status TQ_ERR_RANGE \<and> (\<not> in_vocab t token \<or> length out < 2)
    | Inr (n, out') \<Rightarrow> in_vocab t token \<and> length out' = length out \<and> n < length out \<and> out' ! n = 0"
proof (cases "in_vocab t token \<and> 2 \<le> length out")
  case False
  then show ?thesis by (auto simp: tq_decode_def in_vocab_def)
next
  case True
  define p where "p = strip_space t prev (tok_str t token)"
  define n where "n = min (length p) (length out - 1)"
  have n: "n < length out" "n \<le> length p" "Suc 0 < length out" using True unfolding n_def by auto
  show ?thesis
    unfolding decode_value [OF assms conjunct1 [OF True] conjunct2 [OF True]] Let_def p_def [symmetric] n_def [symmetric]
    using True n by (cases "byte_form p") (auto simp: nth_append)
qed

theorem decode_safe_witness:
  "\<exists>n out. tq_decode sample_tok 0 3 [9, 9, 9] = Inr (n, out) \<and> length out = 3 \<and> n < 3"
proof -
  have "in_vocab sample_tok 3" by (simp add: sample_in_vocab)
  with decode_safe [OF sample_tables, where prev = 0 and token = 3 and out = "[9, 9, 9]"] show ?thesis by (auto split: sum.splits)
qed

text \<open>
  C31: text survives the tokenizer. With a vocabulary whose byte spellings stay apart from its
  merges, what \<^verbatim>\<open>tq_encode\<close> makes of any text with a begin marker decodes, token by token as
  the callers print it, to exactly that text: byte fallback, code points cut off at the end,
  the space put in front and dropped again, and every merge included.
\<close>

theorem encode_decode_round_trip:
  assumes "encoder_ok t" and "plain_vocab t inp" and "in_vocab t (tk_bos t)"
    and "\<forall>x. in_vocab t x \<longrightarrow> length (tok_str t x) < out_bytes" and "2 \<le> out_bytes"
    and "tq_encode t inp True False max_tokens = Inr tokens"
  shows "\<exists>rest. tokens = tk_bos t # rest \<and> decode_text t out_bytes (tk_bos t) rest = inp"
  using assms by (rule text_survives)

theorem encode_decode_round_trip_witness:
  "\<exists>rest. tq_encode sample_tok [98] True False 8 = Inr (0 # rest) \<and> decode_text sample_tok 16 0 rest = [98]"
proof -
  have v: "in_vocab sample_tok (tk_bos sample_tok)" by (simp add: sample_bos sample_in_vocab)
  have l: "\<forall>x. in_vocab sample_tok x \<longrightarrow> length (tok_str sample_tok x) < 16"
    unfolding sample_in_vocab by (auto simp: sample_tok_strs)
  from encode_decode_round_trip [OF sample_encoder sample_plain v l _ sample_encode] sample_encode
  show ?thesis by (auto simp: sample_bos)
qed

text \<open>
  The binary search. On sorted tables that lie in the image it reads nothing outside, ends,
  and answers a token of exactly the given string when the vocabulary has one, and \<open>-1\<close> when it
  has none.
\<close>

theorem lookup_exact:
  assumes "tables_ok t"
  shows "\<exists>r. tq_lookup t s = Some r
    \<and> (if \<exists>i. in_vocab t i \<and> tq_piece t i = Some s then in_vocab t r \<and> tq_piece t r = Some s else r = -1)"
  using lookup_ok [OF assms, of s] tok.lookup_found [OF assms] by (metis tok.token_nonneg)

theorem lookup_exact_witness:
  "\<exists>r. tq_lookup sample_tok [32, 97] = Some r \<and> in_vocab sample_tok r \<and> tq_piece sample_tok r = Some [32, 97]"
proof -
  have "\<exists>i. in_vocab sample_tok i \<and> tq_piece sample_tok i = Some [32, 97]"
    by (intro exI [of _ 3]) (simp add: sample_in_vocab sample_tok_pieces)
  with lookup_exact [OF sample_tables, of "[32, 97]"] show ?thesis by auto
qed

text \<open>
  C32: merging ends in a normal form. From any tokens of the vocabulary the greedy merging
  returns tokens that spell the same string, among which no adjacent pair that fits the buffer
  has a joint token, and each step takes a pair no other scores above.
\<close>

theorem merge_all_normal:
  assumes "encoder_ok t" and "all_tokens t tokens"
  shows "\<exists>best r. best_merge t tokens = Some best \<and> best_of t tokens (length tokens - 1) best
    \<and> merge_all t tokens = Some r \<and> all_tokens t r
    \<and> concat (map (tok_str t) r) = concat (map (tok_str t) tokens)
    \<and> (\<forall>k. k + 1 < length r \<longrightarrow> pair_merge t r k = None)"
proof -
  have ok: "tables_ok t" using assms(1) by (simp add: encoder_ok_def)
  let ?P = "\<lambda>ts. concat (map (tok_str t) ts) = concat (map (tok_str t) tokens)"
  have step: "?P (apply_merge c k ts)" if h: "?P ts" "k + 1 < length ts" "pair_merge t ts k = Some c" for ts k c
  proof -
    have "ts = take k ts @ ts ! k # ts ! (k + 1) # drop (k + 2) ts" using h(2) by (simp add: Cons_nth_drop_Suc)
    then have "concat (map (tok_str t) ts) = concat (map (tok_str t) (take k ts @ ts ! k # ts ! (k + 1) # drop (k + 2) ts))"
      by simp
    then show ?thesis using h(1) pair_merge_str(2) [OF ok h(3)] by (simp add: apply_merge_def)
  qed
  from merge_all_invariant [OF assms, of ?P] best_merge_best [OF assms] step show ?thesis by blast
qed

theorem merge_all_normal_witness:
  "\<exists>r. merge_all sample_tok [1, 2] = Some r \<and> concat (map (tok_str sample_tok) r) = [32, 97]"
proof -
  have "all_tokens sample_tok [1, 2]" by (simp add: all_tokens_def sample_in_vocab)
  from merge_all_normal [OF sample_encoder this] show ?thesis by (auto simp: sample_tok_strs)
qed

end
