(* ===== verification/Tq_Generate.thy ===== *)
theory Tq_Generate imports Tq_Session Tq_Sampler Tq_Tokenizer begin

text \<open>
  The generation loop of \<^verbatim>\<open>src/host/tq_run.c\<close>, which the board's \<^verbatim>\<open>gen\<close> command repeats: the
  prompt is encoded, the steps are capped, each step runs the decoder, takes the prompt's next
  token or draws one, stops at an end marker and prints the piece. The lemmas show that a draw
  does not depend on what the scratch arrays held before, that the loop keeps runtime and
  sampler ready, and that two devices in step stay in step.
\<close>

unbundle bit_operations_syntax

section \<open>A draw does not depend on the scratch\<close>

text \<open>Two arrays that agree on their first cells.\<close>

definition agree :: "nat \<Rightarrow> 'a list \<Rightarrow> 'a list \<Rightarrow> bool" where
  "agree n xs ys \<longleftrightarrow> n \<le> length xs \<and> n \<le> length ys \<and> (\<forall>i < n. xs ! i = ys ! i)"

lemma agree_swap: "agree n xs ys \<Longrightarrow> i < n \<Longrightarrow> j < n \<Longrightarrow> agree n (swap_at i j xs) (swap_at i j ys)"
  by (auto simp: agree_def swap_at_def nth_list_update)

lemma agree_take: "agree n xs ys \<longleftrightarrow> n \<le> length xs \<and> n \<le> length ys \<and> take n xs = take n ys"
  by (auto simp: agree_def list_eq_iff_nth_eq)

lemma sift_big_agree:
  assumes "agree n p p'" and "m \<le> n" and "r < n"
  shows "sift_big p r m = sift_big p' r m" and "sift_big p r m < n"
proof -
  have e: "p ! i = p' ! i" if "i < n" for i using assms(1) that by (simp add: agree_def)
  have c: "p ! (2 * r + 1) = p' ! (2 * r + 1)" if "2 * r + 1 < m" using that e assms(2) by simp
  have d: "p ! (2 * r + 1 + 1) = p' ! (2 * r + 1 + 1)" if "2 * r + 1 + 1 < m" using that e assms(2) by simp
  show "sift_big p r m = sift_big p' r m"
    unfolding sift_big_def Let_def using e [OF assms(3)] c d by (cases "2 * r + 1 < m"; cases "2 * r + 1 + 1 < m") simp_all
  show "sift_big p r m < n" using assms(2,3) by (simp add: sift_big_def Let_def)
qed

definition agree_pair :: "nat \<Rightarrow> f32 list \<times> int list \<Rightarrow> f32 list \<times> int list \<Rightarrow> bool" where
  "agree_pair n s s' \<longleftrightarrow> agree n (fst s) (fst s') \<and> agree n (snd s) (snd s')"

lemma sift_agree:
  assumes "agree_pair n (p, x) (p', x')" and "m \<le> n" and "r < n"
  shows "agree_pair n (tq_sift p x r m) (tq_sift p' x' r m)"
  using assms
proof (induction p x r m arbitrary: p' x' rule: tq_sift.induct)
  case (1 p x r m)
  have a: "agree n p p'" "agree n x x'" using "1.prems"(1) by (simp_all add: agree_pair_def)
  note b = sift_big_agree [OF a(1) "1.prems"(2,3)]
  show ?case
  proof (cases "sift_big p r m = r")
    case True
    then show ?thesis using "1.prems"(1) b by (simp add: tq_sift.simps)
  next
    case False
    have "agree_pair n (tq_sift (swap_at r (sift_big p r m) p) (swap_at r (sift_big p r m) x) (sift_big p r m) m)
        (tq_sift (swap_at r (sift_big p r m) p') (swap_at r (sift_big p r m) x') (sift_big p r m) m)"
      using a b "1.prems"(2,3) by (intro "1.IH" [OF refl False]) (simp_all add: agree_pair_def agree_swap)
    then show ?thesis
      using False b(1) tq_sift.simps [of p x r m] tq_sift.simps [of p' x' r m] by (simp add: Let_def)
  qed
qed

lemma foldl_agree:
  assumes "\<And>s s' i. i \<in> set is \<Longrightarrow> agree_pair n s s' \<Longrightarrow> agree_pair n (f s i) (f s' i)" and "agree_pair n s s'"
  shows "agree_pair n (foldl f s is) (foldl f s' is)"
  using assms by (induction "is" arbitrary: s s') auto

lemma heapsort_agree:
  assumes "agree_pair n (p, x) (p', x')"
  shows "agree_pair n (tq_heapsort_desc p x n) (tq_heapsort_desc p' x' n)"
proof -
  let ?f = "\<lambda>(p, x) i. tq_sift p x i n" and ?g = "\<lambda>(p, x) i. tq_sift (swap_at 0 i p) (swap_at 0 i x) 0 i"
  let ?h = "\<lambda>(p, x) i. (swap_at i (n - 1 - i) p, swap_at i (n - 1 - i) x)"
  have 1: "agree_pair n (foldl ?f (p, x) (rev [0..<n div 2])) (foldl ?f (p', x') (rev [0..<n div 2]))"
    using assms by (rule foldl_agree [rotated]) (auto intro!: sift_agree split: prod.splits)
  have 2: "agree_pair n (foldl ?g s (rev [1..<n])) (foldl ?g s' (rev [1..<n]))" if "agree_pair n s s'" for s s'
    using that
  proof (rule foldl_agree [rotated])
    fix s s' :: "f32 list \<times> int list" and i
    assume "i \<in> set (rev [1..<n])" and "agree_pair n s s'"
    then have "agree_pair n (tq_sift (swap_at 0 i (fst s)) (swap_at 0 i (snd s)) 0 i)
        (tq_sift (swap_at 0 i (fst s')) (swap_at 0 i (snd s')) 0 i)"
      by (intro sift_agree) (simp_all add: agree_pair_def agree_swap)
    then show "agree_pair n (?g s i) (?g s' i)" by (simp add: split_beta)
  qed
  have 3: "agree_pair n (foldl ?h s [0..<n div 2]) (foldl ?h s' [0..<n div 2])" if "agree_pair n s s'" for s s'
    using that by (rule foldl_agree [rotated]) (auto intro!: agree_swap simp: agree_pair_def split: prod.splits)
  show ?thesis unfolding tq_heapsort_desc_def Let_def split_beta
    using 3 [OF 2 [OF 1]] by (simp add: split_beta')
qed

lemma draw_from_agree: "agree n p p' \<Longrightarrow> i + k \<le> n \<Longrightarrow> draw_from r cdf p i k = draw_from r cdf p' i k"
  by (induction k arbitrary: cdf i) (auto simp: agree_def Let_def)

lemma nucleus_end_agree: "agree n p p' \<Longrightarrow> i + k \<le> n \<Longrightarrow> nucleus_end topp cum p i k = nucleus_end topp cum p' i k"
  by (induction k arbitrary: cum i) (auto simp: agree_def Let_def)

lemma nucleus_end_range: "nucleus_end topp cum p i k = (c, Some j) \<Longrightarrow> i \<le> j \<and> j < i + k"
  by (induction topp cum p i k rule: nucleus_end.induct) (auto simp: Let_def split: if_splits)

text \<open>Samplers that differ in the contents of the scratch only.\<close>

definition same_sampler :: "tq_sampler \<Rightarrow> tq_sampler \<Rightarrow> bool" where
  "same_sampler s s' \<longleftrightarrow> s' = s\<lparr>sm_idx := sm_idx s', sm_prob := sm_prob s'\<rparr>
     \<and> (sm_idx s' = None \<longleftrightarrow> sm_idx s = None) \<and> (sm_prob s' = None \<longleftrightarrow> sm_prob s = None)"

lemma same_samplerD:
  assumes "same_sampler s s'"
  shows "sm_rng s' = sm_rng s" "sm_temperature s' = sm_temperature s" "sm_topp s' = sm_topp s" "sm_vocab_size s' = sm_vocab_size s"
  using assms unfolding same_sampler_def by (metis tq_sampler.select_convs tq_sampler.surjective tq_sampler.update_convs(5,6))+

lemma same_sampler_iff:
  "same_sampler s s' \<longleftrightarrow> sm_rng s' = sm_rng s \<and> sm_temperature s' = sm_temperature s \<and> sm_topp s' = sm_topp s
     \<and> sm_vocab_size s' = sm_vocab_size s \<and> (sm_idx s' = None \<longleftrightarrow> sm_idx s = None) \<and> (sm_prob s' = None \<longleftrightarrow> sm_prob s = None)"
  by (cases s; cases s') (auto simp: same_sampler_def)

lemma sample_nucleus_same:
  assumes "same_sampler s s'" and "n \<le> length prob" "n \<le> length idx" "n \<le> length prob'" "n \<le> length idx'"
  shows "fst (sample_nucleus s n lg prob idx) = fst (sample_nucleus s' n lg prob' idx')"
    and "same_sampler (fst (snd (sample_nucleus s n lg prob idx))) (fst (snd (sample_nucleus s' n lg prob' idx'))) \<or> sm_idx s = None \<or> sm_prob s = None"
    and "snd (snd (sample_nucleus s n lg prob idx)) = snd (snd (sample_nucleus s' n lg prob' idx'))"
proof -
  note ss = same_samplerD [OF assms(1)]
  define c where "c = nucleus_cutoff (sm_topp s) n"
  define k where "k = length (candidates c lg n)"
  have kn: "k \<le> n" unfolding k_def candidates_def using length_filter_le [of _ "[0..<n]"] by (metis diff_zero length_upt)
  obtain p x where f: "nucleus_filter c lg n prob idx = (p, x, k)" "length p = length prob" "length x = length idx"
    "take k p = map ((!) lg) (candidates c lg n)" "take k x = map int (candidates c lg n)"
    using nucleus_filter_result [OF assms(2,3)] unfolding k_def by blast
  obtain p' x' where f': "nucleus_filter c lg n prob' idx' = (p', x', k)" "length p' = length prob'" "length x' = length idx'"
    "take k p' = map ((!) lg) (candidates c lg n)" "take k x' = map int (candidates c lg n)"
    using nucleus_filter_result [OF assms(4,5)] unfolding k_def by blast
  have "agree_pair k (p, x) (p', x')"
    using f f' kn assms(2-5) by (simp add: agree_pair_def agree_take)
  from heapsort_agree [OF this] obtain q y q' y' where
    h: "tq_heapsort_desc p x k = (q, y)" "tq_heapsort_desc p' x' k = (q', y')" and a: "agree k q q'" "agree k y y'"
    by (metis agree_pair_def surj_pair fst_conv snd_conv)
  obtain cum stop where e: "nucleus_end (sm_topp s) 0 q 0 k = (cum, stop)" by fastforce
  have e': "nucleus_end (sm_topp s) 0 q' 0 k = (cum, stop)" using nucleus_end_agree [OF a(1), of 0 k] e by simp
  obtain g u where u: "tq_rand_f32 (sm_rng s) = (g, u)" by fastforce
  define lst where "lst = (case stop of Some i \<Rightarrow> i | None \<Rightarrow> k - 1)"
  have lst: "lst < k" if "k \<noteq> 0" using that nucleus_end_range [of "sm_topp s" 0 q 0 k] e unfolding lst_def by (auto split: option.splits)
  have d: "draw_from r 0 q 0 (Suc lst) = draw_from r 0 q' 0 (Suc lst)" if "k \<noteq> 0" for r
    by (rule draw_from_agree [OF a(1)]) (use lst [OF that] in simp)
  have y: "y ! i = y' ! i" if "i < k" for i using a(2) that by (simp add: agree_def)
  have r: "draw_from r 0 q' 0 (Suc lst) = Some i \<Longrightarrow> i < k" if "k \<noteq> 0" for r i
    using draw_from_range [of r 0 q' 0 "Suc lst" i] lst [OF that] by simp
  note S = sample_nucleus_def [of s n lg prob idx, folded c_def, unfolded f(1) prod.case h(1) e u Let_def, folded lst_def]
  note S' = sample_nucleus_def [of s' n lg prob' idx', unfolded ss, folded c_def, unfolded f'(1) prod.case h(2) e' u Let_def, folded lst_def]
  show "fst (sample_nucleus s n lg prob idx) = fst (sample_nucleus s' n lg prob' idx')"
    unfolding S S' using d y r lst by (auto split: option.splits)
  show "same_sampler (fst (snd (sample_nucleus s n lg prob idx))) (fst (snd (sample_nucleus s' n lg prob' idx'))) \<or> sm_idx s = None \<or> sm_prob s = None"
    unfolding S S' using assms(1) by (auto simp: same_sampler_iff)
  show "snd (snd (sample_nucleus s n lg prob idx)) = snd (snd (sample_nucleus s' n lg prob' idx'))"
    unfolding S S' by auto
qed

lemma sample_same:
  assumes "same_sampler s s'" and "sampler_ok s" and "sampler_ok s'"
  shows "case tq_sample s lg of
      None \<Rightarrow> tq_sample s' lg = None
    | Some (t, s1, lg1) \<Rightarrow> \<exists>s1'. tq_sample s' lg = Some (t, s1', lg1) \<and> same_sampler s1 s1'"
proof -
  note ss = same_samplerD [OF assms(1)] and iff = assms(1) [unfolded same_sampler_iff]
  have plain: "\<exists>s1'. sample_plain s' n v = (t, s1', lg1) \<and> same_sampler s1 s1'" if "sample_plain s n v = (t, s1, lg1)" for n v t s1 lg1
    using that iff by (auto simp: sample_plain_def ss same_sampler_iff split: prod.splits)
  have nuc: "\<exists>s1'. sample_nucleus s' (sm_vocab_size s) v prob' idx' = (t, s1', lg1) \<and> same_sampler s1 s1'"
    if "sample_nucleus s (sm_vocab_size s) v prob idx = (t, s1, lg1)" "sm_idx s = Some idx" "sm_prob s = Some prob"
      "sm_idx s' = Some idx'" "sm_prob s' = Some prob'" for v t s1 lg1 prob idx prob' idx'
    using sample_nucleus_same [OF assms(1), of "sm_vocab_size s" prob idx prob' idx' v] that assms(2,3)
    by (auto simp: sampler_ok_def ss intro!: prod_eqI)
  show ?thesis
  proof (cases "sample_softmax (sm_temperature s) (sm_vocab_size s) lg")
    case None
    then show ?thesis using assms(1) by (simp add: tq_sample_def Let_def ss)
  next
    case (Some v)
    consider "f32_le (sm_temperature s) 0"
      | "\<not> f32_le (sm_temperature s) 0" "sm_idx s = None \<or> sm_prob s = None"
      | idx prob where "\<not> f32_le (sm_temperature s) 0" "sm_idx s = Some idx" "sm_prob s = Some prob" by fastforce
    then show ?thesis
    proof cases
      case 1
      then show ?thesis using assms(1) by (simp add: tq_sample_def Let_def ss)
    next
      case 2
      obtain t s1 lg1 where p: "sample_plain s (sm_vocab_size s) v = (t, s1, lg1)" by (metis prod_cases3)
      have "sm_idx s' = None \<or> sm_prob s' = None" using 2 iff by simp
      then show ?thesis using 2 Some p plain [OF p] by (auto simp: tq_sample_def Let_def ss split: option.splits)
    next
      case 3
      obtain idx' prob' where 4: "sm_idx s' = Some idx'" "sm_prob s' = Some prob'" using 3 iff by fastforce
      show ?thesis
      proof (cases "f32_le (sm_topp s) 0 \<or> f32_le (f32_of_int 1) (sm_topp s)")
        case True
        obtain t s1 lg1 where p: "sample_plain s (sm_vocab_size s) v = (t, s1, lg1)" by (metis prod_cases3)
        show ?thesis using 3 4 Some p plain [OF p] True by (simp add: tq_sample_def Let_def ss)
      next
        case False
        obtain t s1 lg1 where p: "sample_nucleus s (sm_vocab_size s) v prob idx = (t, s1, lg1)" by (metis prod_cases3)
        show ?thesis using 3 4 Some p nuc [OF p 3(2,3) 4] False by (simp add: tq_sample_def Let_def ss)
      qed
    qed
  qed
qed

section \<open>Generation\<close>

text \<open>What \<^verbatim>\<open>fputs\<close> and \<^verbatim>\<open>%s\<close> print of a buffer: the bytes up to the first NUL.\<close>

definition printed :: "u8 list \<Rightarrow> u8 list" where
  "printed out = takeWhile (\<lambda>b. b \<noteq> 0) out"

fun dec_digits :: "nat \<Rightarrow> u8 list" where
  "dec_digits n = (if n < 10 then [of_nat (48 + n)] else dec_digits (n div 10) @ [of_nat (48 + n mod 10)])"

declare dec_digits.simps [simp del]

text \<open>\<^verbatim>\<open>%d\<close>\<close>

definition dec_int :: "int \<Rightarrow> u8 list" where
  "dec_int i = (if i < 0 then cstr ''-'' @ dec_digits (nat (- i)) else dec_digits (nat i))"

text \<open>
  The text of one token: its piece, whose status the callers do not look at (after an error the
  buffer is printed as it was), or its number where the model has no tokenizer.
\<close>

definition print_piece :: "tq_tokenizer option \<Rightarrow> u8 list \<Rightarrow> int \<Rightarrow> int \<Rightarrow> (u8 list \<times> u8 list) option" where
  "print_piece tok buf token next_tok =
     (case tok of
        None \<Rightarrow> Some (dec_int next_tok @ cstr '' '', buf)
      | Some t \<Rightarrow> (case tq_decode t token next_tok buf of
                     Inl Undefined \<Rightarrow> None
                   | Inl _ \<Rightarrow> Some (printed buf, buf)
                   | Inr (_, out) \<Rightarrow> Some (printed out, out)))"

record 'c gen_state =
  gn_rt :: "'c tq_runtime"
  gn_sm :: tq_sampler
  gn_buf :: "u8 list"

record gen_result =
  gr_rc :: tq_status
  gr_pos :: int
  gr_tokens :: "int list"
  gr_text :: "u8 list"

text \<open>The next token: the prompt's as long as it lasts, then a draw, which consumes the logits.\<close>

definition gen_next :: "int list \<Rightarrow> int \<Rightarrow> 'c gen_state \<Rightarrow> (int \<times> 'c gen_state) option" where
  "gen_next toks pos s =
     (if pos + 1 < int (length toks) then Some (toks ! nat (pos + 1), s)
      else case tq_sample (gn_sm s) (rt_logits (gn_rt s)) of
             None \<Rightarrow> None
           | Some (t, sm, lg) \<Rightarrow> Some (t, s\<lparr>gn_rt := (gn_rt s)\<lparr>rt_logits := lg\<rparr>, gn_sm := sm\<rparr>))"

text \<open>The loop with \<open>k\<close> steps left: the status, the position at its end, and what it put out.\<close>

fun gen_loop :: "bool \<Rightarrow> tq_tokenizer option \<Rightarrow> int list \<Rightarrow> nat \<Rightarrow> int \<Rightarrow> int \<Rightarrow> 'c gen_state \<Rightarrow> (gen_result \<times> 'c gen_state) option" where
  "gen_loop quiet tok toks 0 token pos s = Some (\<lparr>gr_rc = TQ_OK, gr_pos = pos, gr_tokens = [], gr_text = []\<rparr>, s)"
| "gen_loop quiet tok toks (Suc k) token pos s =
     (case tq_forward (gn_rt s) token pos of
        None \<Rightarrow> None
      | Some (rc, rt) \<Rightarrow>
          let s = s\<lparr>gn_rt := rt\<rparr>
          in if rc \<noteq> TQ_OK then Some (\<lparr>gr_rc = rc, gr_pos = pos, gr_tokens = [], gr_text = []\<rparr>, s)
             else case gen_next toks pos s of
                    None \<Rightarrow> None
                  | Some (next_tok, s) \<Rightarrow>
                      if next_tok = sint (h_eos_token (m_hdr (rt_m (gn_rt s))))
                      then Some (\<lparr>gr_rc = TQ_OK, gr_pos = pos + 1, gr_tokens = [], gr_text = []\<rparr>, s)
                      else case (if quiet then Some ([], gn_buf s) else print_piece tok (gn_buf s) token next_tok) of
                             None \<Rightarrow> None
                           | Some (piece, buf) \<Rightarrow>
                               map_option (\<lambda>(r, s). (r\<lparr>gr_tokens := next_tok # gr_tokens r, gr_text := piece @ gr_text r\<rparr>, s))
                                 (gen_loop quiet tok toks k next_tok (pos + 1) (s\<lparr>gn_buf := buf\<rparr>)))"

text \<open>The prompt, the sampler and the loop; \<open>Inl\<close> is the status with which the prompt is refused.\<close>

definition generate ::
  "bool \<Rightarrow> tq_tokenizer option \<Rightarrow> u8 list \<Rightarrow> int \<Rightarrow> f32 \<Rightarrow> f32 \<Rightarrow> u64 \<Rightarrow> int list \<Rightarrow> f32 list \<Rightarrow> u8 list \<Rightarrow> 'c tq_runtime \<Rightarrow>
     (tq_status + gen_result \<times> 'c gen_state) option" where
  "generate quiet tok prompt steps temp topp seed sidx sprob buf rt =
     (case (case tok of
              Some t \<Rightarrow> tq_encode t prompt True False (rt_max_seq rt)
            | None \<Rightarrow> Inr [sint (h_bos_token (m_hdr (rt_m rt)))]) of
        Inl Undefined \<Rightarrow> None
      | Inl (Status rc) \<Rightarrow> Some (Inl rc)
      | Inr toks \<Rightarrow>
          let sm = tq_sampler_init (nat (m_vocab_size (rt_m rt))) temp topp seed (Some sidx) (Some sprob);
              steps = (if steps > rt_max_seq rt then rt_max_seq rt else steps)
          in map_option Inr (gen_loop quiet tok toks (nat steps) (toks ! 0) 0 \<lparr>gn_rt = rt, gn_sm = sm, gn_buf = buf\<rparr>))"

section \<open>Generation does not fail\<close>

definition gen_ok :: "fw_env \<Rightarrow> (kv_cell \<times> kv_cell) list list \<Rightarrow> 'c gen_state \<Rightarrow> bool" where
  "gen_ok E hist s \<longleftrightarrow> env_ok E \<and> rt_ready E hist (gn_rt s) \<and> sampler_ok (gn_sm s) \<and> sm_vocab_size (gn_sm s) = en_vocab E"

lemma gen_next_ok:
  assumes "gen_ok E hist s" and "gen_next toks pos s = Some (t, s')" and "\<forall>t \<in> set toks. valid_token (en_m E) t" and "0 \<le> pos"
  shows "gen_ok E hist s' \<and> valid_token (en_m E) t \<and> gn_buf s' = gn_buf s \<and> (pos + 1 < int (length toks) \<longrightarrow> t = toks ! nat (pos + 1))"
proof (cases "pos + 1 < int (length toks)")
  case True
  then have "toks ! nat (pos + 1) \<in> set toks" using assms(4) by (intro nth_mem) linarith
  then show ?thesis using True assms by (auto simp: gen_next_def)
next
  case False
  then obtain sm lg where d: "tq_sample (gn_sm s) (rt_logits (gn_rt s)) = Some (t, sm, lg)"
      "s' = s\<lparr>gn_rt := (gn_rt s)\<lparr>rt_logits := lg\<rparr>, gn_sm := sm\<rparr>"
    using assms(2) by (auto simp: gen_next_def split: option.splits)
  have r: "rt_ready E hist (gn_rt s)" "sampler_ok (gn_sm s)" "sm_vocab_size (gn_sm s) = en_vocab E" "env_ok E"
    using assms(1) by (simp_all add: gen_ok_def)
  have l: "length (rt_logits (gn_rt s)) = en_vocab E" using ready_vocab [OF r(1)] .
  note k = sample_step [OF d(1) r(2), unfolded r(3) l, OF order_refl]
  have "rt_ready E hist ((gn_rt s)\<lparr>rt_logits := lg\<rparr>)" using k by (intro ready_logits [OF r(1)]) simp
  moreover have "valid_token (en_m E) t" using k by (auto simp: valid_token_def split: if_splits)
  ultimately show ?thesis using k d(2) r False by (simp add: gen_ok_def)
qed

lemma gen_loop_ok:
  assumes "gen_ok E hist s" and "gen_loop quiet tok toks k token pos s = Some (r, s')" and "pos = int (length hist)"
    and "\<forall>t \<in> set toks. valid_token (en_m E) t" and "valid_token (en_m E) token" and "length hist + k \<le> en_slots E"
  shows "gr_rc r = TQ_OK \<and> (\<exists>h. gen_ok E h s')
    \<and> (\<forall>t \<in> set (gr_tokens r). valid_token (en_m E) t \<and> t \<noteq> sint (h_eos_token (m_hdr (en_m E))))
    \<and> (length (gr_tokens r) = k \<and> gr_pos r = pos + int k
       \<or> length (gr_tokens r) < k \<and> gr_pos r = pos + int (length (gr_tokens r)) + 1)
    \<and> (\<forall>j < length (gr_tokens r). length hist + 1 + j < length toks \<longrightarrow> gr_tokens r ! j = toks ! (length hist + 1 + j))"
  using assms
proof (induction k arbitrary: hist s token pos r s')
  case 0
  then show ?case by auto
next
  case (Suc k)
  have e: "env_ok E" "rt_ready E hist (gn_rt s)" using Suc.prems(1) by (simp_all add: gen_ok_def)
  obtain rc rt where f: "tq_forward (gn_rt s) token pos = Some (rc, rt)"
    using Suc.prems(2) by (simp split: option.splits) (metis surj_pair)
  have "rc = TQ_OK" "\<exists>new. rt_ready E (hist @ [new]) rt"
    using forward_keeps [OF e f [unfolded Suc.prems(3)]] Suc.prems(5,6) by auto
  then obtain new where new: "rt_ready E (hist @ [new]) rt" "rc = TQ_OK" by blast
  define s1 where "s1 = s\<lparr>gn_rt := rt\<rparr>"
  have g1: "gen_ok E (hist @ [new]) s1" using Suc.prems(1) new by (simp add: gen_ok_def s1_def)
  note loop = Suc.prems(2) [unfolded gen_loop.simps f option.case prod.case Let_def, folded s1_def]
  obtain t s2 where t: "gen_next toks pos s1 = Some (t, s2)" using loop new(2) by (auto split: option.splits)
  have p: "0 \<le> pos" using Suc.prems(3) by simp
  note n = gen_next_ok [OF g1 t Suc.prems(4) p]
  have m: "rt_m (gn_rt s2) = en_m E" using n ready_fixed unfolding gen_ok_def by blast
  show ?case
  proof (cases "t = sint (h_eos_token (m_hdr (en_m E)))")
    case True
    then show ?thesis using loop new(2) t m n by auto
  next
    case False
    obtain piece buf where b: "(if quiet then Some ([], gn_buf s2) else print_piece tok (gn_buf s2) token t) = Some (piece, buf)"
      using loop new(2) t m False by (auto split: option.splits if_splits)
    obtain r1 where r1: "gen_loop quiet tok toks k t (pos + 1) (s2\<lparr>gn_buf := buf\<rparr>) = Some (r1, s')"
        "r = r1\<lparr>gr_tokens := t # gr_tokens r1, gr_text := piece @ gr_text r1\<rparr>"
      using loop new(2) t m False b by (auto split: option.splits if_splits)
    have g2: "gen_ok E (hist @ [new]) (s2\<lparr>gn_buf := buf\<rparr>)" using n by (simp add: gen_ok_def)
    have q: "pos + 1 = int (length (hist @ [new]))" using Suc.prems(3) by simp
    have l: "length (hist @ [new]) + k \<le> en_slots E" using Suc.prems(6) by simp
    note IH = Suc.IH [OF g2 r1(1) q Suc.prems(4) _ l]
    have IH: "gr_rc r1 = TQ_OK" "\<exists>h. gen_ok E h s'"
      "\<forall>t \<in> set (gr_tokens r1). valid_token (en_m E) t \<and> t \<noteq> sint (h_eos_token (m_hdr (en_m E)))"
      "length (gr_tokens r1) = k \<and> gr_pos r1 = pos + 1 + int k
       \<or> length (gr_tokens r1) < k \<and> gr_pos r1 = pos + 1 + int (length (gr_tokens r1)) + 1"
      "\<forall>j < length (gr_tokens r1). length hist + 2 + j < length toks \<longrightarrow> gr_tokens r1 ! j = toks ! (length hist + 2 + j)"
      using IH n by auto
    have "(t # gr_tokens r1) ! j = toks ! (length hist + 1 + j)"
      if "j < Suc (length (gr_tokens r1))" "length hist + 1 + j < length toks" for j
      using that IH(5) n Suc.prems(3) by (cases j) (auto simp: nat_add_distrib)
    then show ?thesis using IH n False unfolding r1(2) by auto
  qed
qed

section \<open>The same text on two devices\<close>

text \<open>The tokenizer belongs to the model; the buffers have the same size.\<close>

definition tok_fits :: "tq_tokenizer option \<Rightarrow> fw_env \<Rightarrow> bool" where
  "tok_fits tok E \<longleftrightarrow> (\<forall>t. tok = Some t \<longrightarrow> encoder_ok t \<and> tk_m t = en_m E \<and> tk_vocab_size t = m_vocab_size (en_m E))"

definition bufs_fit :: "u8 list \<Rightarrow> u8 list \<Rightarrow> bool" where
  "bufs_fit b b' \<longleftrightarrow> length b = length b' \<and> 2 \<le> length b"

lemma printed_stop: "printed (p @ 0 # q) = printed (p @ [0])"
  by (induction p) (simp_all add: printed_def)

lemma print_piece_same:
  assumes "tok_fits tok E" and "valid_token (en_m E) t" and "bufs_fit b b'"
  shows "\<exists>piece b1 b1'. print_piece tok b prev t = Some (piece, b1) \<and> print_piece tok b' prev t = Some (piece, b1') \<and> bufs_fit b1 b1'"
proof (cases tok)
  case None
  then show ?thesis using assms(3) by (simp add: print_piece_def)
next
  case (Some tk)
  have v: "tables_ok tk" "in_vocab tk t" using assms(1,2) Some by (simp_all add: tok_fits_def encoder_ok_def in_vocab_def valid_token_def)
  have l: "2 \<le> length b" "2 \<le> length b'" "length b' = length b" using assms(3) by (simp_all add: bufs_fit_def)
  note d = decode_value [OF v l(1), of prev] decode_value [OF v l(2), of prev]
  define p where "p = strip_space tk prev (tok_str tk t)"
  show ?thesis
  proof (cases "byte_form p")
    case True
    obtain x y q where b: "b = x # y # q" using l(1) by (cases b; cases "tl b") auto
    obtain x' y' q' where b': "b' = x' # y' # q'" using l(2) by (cases b'; cases "tl b'") auto
    show ?thesis using d l True Some unfolding p_def [symmetric] Let_def
      by (simp add: print_piece_def bufs_fit_def b b' printed_def)
  next
    case False
    define n where "n = min (length p) (length b - 1)"
    have n: "n < length b" "n \<le> length p" using l(1) unfolding n_def by auto
    have s: "printed (take n p @ 0 # q) = printed (take n p @ 0 # q')" for q q'
      using printed_stop [of "take n p" q] printed_stop [of "take n p" q'] by simp
    note d = d [unfolded l(3), folded p_def n_def, unfolded Let_def, folded p_def, unfolded if_not_P [OF False], folded n_def]
    have len: "length (take n p @ [0] @ drop (n + 1) q) = length b" if "length q = length b" for q
      using that n by simp
    let ?b = "take n p @ [0] @ drop (n + 1) b" and ?b' = "take n p @ [0] @ drop (n + 1) b'"
    have "print_piece tok b prev t = Some (printed ?b, ?b)" "print_piece tok b' prev t = Some (printed ?b', ?b')"
      unfolding Some print_piece_def option.case d sum.case prod.case by (rule refl)+
    moreover have "printed ?b' = printed ?b" using s [of "drop (n + 1) b'" "drop (n + 1) b"] by simp
    moreover have "bufs_fit ?b ?b'" using len [OF refl] len [OF l(3)] l(1) unfolding bufs_fit_def by simp
    ultimately show ?thesis by auto
  qed
qed

text \<open>Two loops in step: the same history, draws and tokens over different memories.\<close>

definition gen_pair :: "fw_env \<Rightarrow> fw_env \<Rightarrow> (kv_cell \<times> kv_cell) list list \<Rightarrow> 'c gen_state \<Rightarrow> 'd gen_state \<Rightarrow> bool" where
  "gen_pair E E' hist s s' \<longleftrightarrow> gen_ok E hist s \<and> gen_ok E' hist s' \<and> same_sampler (gn_sm s) (gn_sm s') \<and> bufs_fit (gn_buf s) (gn_buf s')"

definition same_model :: "fw_env \<Rightarrow> fw_env \<Rightarrow> bool" where
  "same_model E E' \<longleftrightarrow> en_img E' = en_img E \<and> en_m E' = en_m E \<and> en_kv E' = en_kv E"

lemma forward_same:
  assumes "same_model E E'" and "env_ok E" "env_ok E'" and "rt_ready E hist rt" "rt_ready E' hist rt'"
    and "length hist < en_slots E" "length hist < en_slots E'" and "valid_token (en_m E) t"
  shows "case tq_forward rt t (int (length hist)) of
      None \<Rightarrow> tq_forward rt' t (int (length hist)) = None
    | Some (rc, rt1) \<Rightarrow> rc = TQ_OK \<and> (\<exists>new rt1'. tq_forward rt' t (int (length hist)) = Some (TQ_OK, rt1') \<and> rt_logits rt1' = rt_logits rt1
        \<and> rt_ready E (hist @ [new]) rt1 \<and> rt_ready E' (hist @ [new]) rt1')"
proof -
  have a: "env_ok E \<and> rt_ready E hist rt" "env_ok E' \<and> rt_ready E' hist rt'" "valid_token (en_m E') t"
    using assms by (simp_all add: same_model_def)
  show ?thesis
    using fwd.step_value [OF a(1) assms(6,8)] fwd.step_value [OF a(2) assms(7) a(3)] assms(1)
    by (auto simp: same_model_def split: option.splits prod.splits)
qed

lemma gen_next_same:
  assumes "gen_pair E E' hist s s'" and "rt_logits (gn_rt s') = rt_logits (gn_rt s)"
  shows "case gen_next toks pos s of
      None \<Rightarrow> gen_next toks pos s' = None
    | Some (t, s1) \<Rightarrow> \<exists>s1'. gen_next toks pos s' = Some (t, s1') \<and> same_sampler (gn_sm s1) (gn_sm s1')"
proof (cases "pos + 1 < int (length toks)")
  case True
  then show ?thesis using assms(1) by (simp add: gen_next_def gen_pair_def)
next
  case False
  have s: "same_sampler (gn_sm s) (gn_sm s')" "sampler_ok (gn_sm s)" "sampler_ok (gn_sm s')"
    using assms(1) by (simp_all add: gen_pair_def gen_ok_def)
  show ?thesis
    using sample_same [OF s, of "rt_logits (gn_rt s)"] False assms(2)
    by (auto simp: gen_next_def split: option.splits)
qed

lemma gen_loop_same:
  assumes "same_model E E'" and "gen_pair E E' hist s s'" and "pos = int (length hist)"
    and "\<forall>t \<in> set toks. valid_token (en_m E) t" and "valid_token (en_m E) token"
    and "length hist + k \<le> en_slots E" "length hist + k \<le> en_slots E'" and "tok_fits tok E"
  shows "case gen_loop quiet tok toks k token pos s of
      None \<Rightarrow> gen_loop quiet tok toks k token pos s' = None
    | Some (r, s1) \<Rightarrow> \<exists>s1'. gen_loop quiet tok toks k token pos s' = Some (r, s1')"
  using assms(2-7)
proof (induction k arbitrary: hist s s' token pos)
  case 0
  then show ?case by simp
next
  case (Suc k)
  have e: "env_ok E" "env_ok E'" "rt_ready E hist (gn_rt s)" "rt_ready E' hist (gn_rt s')"
    using Suc.prems(1) by (simp_all add: gen_pair_def gen_ok_def)
  have h: "length hist < en_slots E" "length hist < en_slots E'" using Suc.prems(5,6) by simp_all
  note f = forward_same [OF assms(1) e h Suc.prems(4), folded Suc.prems(2)]
  have em: "en_m E' = en_m E" using assms(1) by (simp add: same_model_def)
  show ?case
  proof (cases "tq_forward (gn_rt s) token pos")
    case None
    then show ?thesis using f by simp
  next
    case (Some a)
    obtain new rt rt' where g: "tq_forward (gn_rt s) token pos = Some (TQ_OK, rt)" "tq_forward (gn_rt s') token pos = Some (TQ_OK, rt')"
      "rt_logits rt' = rt_logits rt" "rt_ready E (hist @ [new]) rt" "rt_ready E' (hist @ [new]) rt'"
      using f Some by (cases a) auto
    define s1 where "s1 = s\<lparr>gn_rt := rt\<rparr>"
    define s1' where "s1' = s'\<lparr>gn_rt := rt'\<rparr>"
    have p: "gen_pair E E' (hist @ [new]) s1 s1'" using Suc.prems(1) g(4,5) by (simp add: gen_pair_def gen_ok_def s1_def s1'_def)
    have p1: "gen_ok E (hist @ [new]) s1" "gen_ok E' (hist @ [new]) s1'" using p by (simp_all add: gen_pair_def)
    have lg: "rt_logits (gn_rt s1') = rt_logits (gn_rt s1)" using g(3) by (simp add: s1_def s1'_def)
    note n = gen_next_same [OF p lg, of toks pos]
    have L: "gen_loop quiet tok toks (Suc k) token pos s = (case gen_next toks pos s1 of None \<Rightarrow> None | Some (next_tok, s) \<Rightarrow>
        if next_tok = sint (h_eos_token (m_hdr (rt_m (gn_rt s)))) then Some (\<lparr>gr_rc = TQ_OK, gr_pos = pos + 1, gr_tokens = [], gr_text = []\<rparr>, s)
        else case (if quiet then Some ([], gn_buf s) else print_piece tok (gn_buf s) token next_tok) of None \<Rightarrow> None
        | Some (piece, buf) \<Rightarrow> map_option (\<lambda>(r, s). (r\<lparr>gr_tokens := next_tok # gr_tokens r, gr_text := piece @ gr_text r\<rparr>, s))
            (gen_loop quiet tok toks k next_tok (pos + 1) (s\<lparr>gn_buf := buf\<rparr>)))"
      using g(1) by (simp add: s1_def)
    have L': "gen_loop quiet tok toks (Suc k) token pos s' = (case gen_next toks pos s1' of None \<Rightarrow> None | Some (next_tok, s) \<Rightarrow>
        if next_tok = sint (h_eos_token (m_hdr (rt_m (gn_rt s)))) then Some (\<lparr>gr_rc = TQ_OK, gr_pos = pos + 1, gr_tokens = [], gr_text = []\<rparr>, s)
        else case (if quiet then Some ([], gn_buf s) else print_piece tok (gn_buf s) token next_tok) of None \<Rightarrow> None
        | Some (piece, buf) \<Rightarrow> map_option (\<lambda>(r, s). (r\<lparr>gr_tokens := next_tok # gr_tokens r, gr_text := piece @ gr_text r\<rparr>, s))
            (gen_loop quiet tok toks k next_tok (pos + 1) (s\<lparr>gn_buf := buf\<rparr>)))"
      using g(2) by (simp add: s1'_def)
    show ?thesis
    proof (cases "gen_next toks pos s1")
      case None
      then show ?thesis using n unfolding L L' by simp
    next
      case (Some q)
      obtain t s2 where q: "q = (t, s2)" by (cases q)
      obtain s2' where s2': "gen_next toks pos s1' = Some (t, s2')" "same_sampler (gn_sm s2) (gn_sm s2')" using n Some q by auto
      have v': "\<forall>t \<in> set toks. valid_token (en_m E') t" using Suc.prems(3) em by simp
      have pos0: "0 \<le> pos" using Suc.prems(2) by simp
      note o = gen_next_ok [OF p1(1) Some [unfolded q] Suc.prems(3) pos0] and o' = gen_next_ok [OF p1(2) s2'(1) v' pos0]
      have bf: "bufs_fit (gn_buf s2) (gn_buf s2')" using p o o' by (simp add: gen_pair_def)
      have m: "rt_m (gn_rt s2) = en_m E" "rt_m (gn_rt s2') = en_m E"
        using o o' ready_fixed em unfolding gen_ok_def by metis+
      obtain piece b b' where b: "(if quiet then Some ([], gn_buf s2) else print_piece tok (gn_buf s2) token t) = Some (piece, b)"
        "(if quiet then Some ([], gn_buf s2') else print_piece tok (gn_buf s2') token t) = Some (piece, b')" "bufs_fit b b'"
        using print_piece_same [OF assms(8) _ bf, of t token] o bf by (cases quiet) auto
      have pp: "gen_pair E E' (hist @ [new]) (s2\<lparr>gn_buf := b\<rparr>) (s2'\<lparr>gn_buf := b'\<rparr>)"
        using o o' s2'(2) b(3) by (simp add: gen_pair_def gen_ok_def)
      have l: "pos + 1 = int (length (hist @ [new]))" "length (hist @ [new]) + k \<le> en_slots E" "length (hist @ [new]) + k \<le> en_slots E'"
        using Suc.prems(2,5,6) by simp_all
      note IH = Suc.IH [OF pp l(1) Suc.prems(3) _ l(2,3), of t]
      show ?thesis using IH o unfolding L L' Some q s2'(1) option.case prod.case m b
        by (auto split: option.splits)
    qed
  qed
qed

lemma push_bytes_grows: "push_bytes t mx cs tokens = Inr r \<Longrightarrow> length tokens \<le> length r"
  by (induction t mx cs tokens rule: push_bytes.induct) (fastforce simp: tq_push_def split: option.splits sum.splits if_splits)+

lemma encode_split_grows: "encode_split t mx inp i tokens = Inr r \<Longrightarrow> length tokens \<le> length r"
proof (induction t mx inp i tokens rule: encode_split.induct)
  case (1 t mx inp i tokens)
  show ?case
  proof (cases "i < length inp")
    case True
    define len where "len = (if i + utf8_len (inp ! i) > length inp then 1 else utf8_len (inp ! i))"
    obtain tid ts where a: "tq_lookup t (take len (drop i inp)) = Some tid"
      "(if tid \<ge> 0 then tq_push mx tid tokens else push_bytes t mx (take len (drop i inp)) tokens) = Inr ts"
      "encode_split t mx inp (i + len) ts = Inr r"
      using 1(2) True unfolding encode_split.simps [of t mx inp i tokens] Let_def len_def [symmetric]
      by (auto split: option.splits sum.splits)
    have "length ts \<le> length r"
      by (rule "1.IH" [OF True refl len_def refl a(1) a(2) a(3)])
    moreover have "length tokens \<le> length ts"
      using a(2) push_bytes_grows by (auto simp: tq_push_def split: if_splits)
    ultimately show ?thesis by simp
  next
    case False
    then show ?thesis using 1(2) by (simp add: encode_split.simps [of t mx inp i tokens])
  qed
qed

lemma merge_all_nonempty: "merge_all t tokens = Some r \<Longrightarrow> tokens \<noteq> [] \<Longrightarrow> r \<noteq> []"
proof (induction t tokens rule: merge_all.induct)
  case (1 t tokens)
  then show ?case
    by (auto simp: merge_all.simps [of t tokens] apply_merge_def split: option.splits if_splits prod.splits)
qed

lemma encode_nonempty:
  assumes "tq_encode t inp True False mx = Inr toks"
  shows "toks \<noteq> []"
proof -
  obtain ts0 ts1 where e: "encode_start t inp True mx = Inr ts0" "encode_split t mx inp 0 ts0 = Inr ts1" "merge_all t ts1 = Some toks"
    using assms by (auto simp: tq_encode_def split: sum.splits option.splits)
  have "ts0 \<noteq> []" using e(1) by (auto simp: encode_start_def tq_push_def split: if_splits option.splits sum.splits)
  then have "ts1 \<noteq> []" using encode_split_grows [OF e(2)] by auto
  then show ?thesis by (rule merge_all_nonempty [OF e(3)])
qed

lemma generate_run:
  assumes "rt_ready E [] rt" and "env_ok E" and "tok_fits tok E" and "\<forall>t. tok = Some t \<longrightarrow> in_vocab t (tk_bos t)"
    and "valid_token (en_m E) (sint (h_bos_token (m_hdr (en_m E))))" and "0 < en_seq E"
    and "en_vocab E \<le> length sprob" "length sidx = length sprob"
  obtains (full) "generate quiet tok prompt steps temp topp seed sidx sprob buf rt = Some (Inl TQ_ERR_NOMEM)"
      "\<exists>t. tok = Some t \<and> tq_encode t prompt True False (en_seq E) = Inl (Status TQ_ERR_NOMEM)"
    | (run) toks where "toks \<noteq> []" "\<forall>t \<in> set toks. valid_token (en_m E) t" "length toks \<le> en_slots E"
      "case tok of None \<Rightarrow> toks = [sint (h_bos_token (m_hdr (en_m E)))] | Some t \<Rightarrow> tq_encode t prompt True False (en_seq E) = Inr toks"
      "generate quiet tok prompt steps temp topp seed sidx sprob buf rt = map_option Inr (gen_loop quiet tok toks (min (nat steps) (en_slots E)) (toks ! 0) 0
          \<lparr>gn_rt = rt, gn_sm = tq_sampler_init (en_vocab E) temp topp seed (Some sidx) (Some sprob), gn_buf = buf\<rparr>)"
      "gen_ok E [] \<lparr>gn_rt = rt, gn_sm = tq_sampler_init (en_vocab E) temp topp seed (Some sidx) (Some sprob), gn_buf = buf\<rparr>"
proof -
  have m: "rt_m rt = en_m E" "rt_max_seq rt = en_seq E" using ready_fixed [OF assms(1)] by simp_all
  have "0 < en_vocab E" using assms(2) by (simp add: env_ok_def dims_ok_def)
  then have g: "gen_ok E [] \<lparr>gn_rt = rt, gn_sm = tq_sampler_init (en_vocab E) temp topp seed (Some sidx) (Some sprob), gn_buf = buf\<rparr>"
    using assms(1,2,7,8) by (simp add: gen_ok_def sampler_ok_def tq_sampler_init_def)
  have st: "nat (if steps > en_seq E then en_seq E else steps) = min (nat steps) (en_slots E)" by auto
  show ?thesis
  proof (cases tok)
    case None
    show ?thesis
    proof (rule run [OF _ _ _ _ _ g])
      let ?toks = "[sint (h_bos_token (m_hdr (en_m E)))]"
      show "?toks \<noteq> []" by simp
      show "\<forall>t \<in> set ?toks. valid_token (en_m E) t" using assms(5) by simp
      show "length ?toks \<le> en_slots E" using assms(6) by simp
      show "case tok of None \<Rightarrow> ?toks = [sint (h_bos_token (m_hdr (en_m E)))] | Some t \<Rightarrow> tq_encode t prompt True False (en_seq E) = Inr ?toks"
        using None by simp
      show "generate quiet tok prompt steps temp topp seed sidx sprob buf rt = map_option Inr (gen_loop quiet tok ?toks
          (min (nat steps) (en_slots E)) (?toks ! 0) 0
          \<lparr>gn_rt = rt, gn_sm = tq_sampler_init (en_vocab E) temp topp seed (Some sidx) (Some sprob), gn_buf = buf\<rparr>)"
        unfolding generate_def m None option.case sum.case Let_def st ..
    qed
  next
    case (Some tk)
    have tk: "encoder_ok tk" "tk_vocab_size tk = m_vocab_size (en_m E)" "tk_m tk = en_m E" using assms(3) Some by (simp_all add: tok_fits_def)
    have "True \<longrightarrow> in_vocab tk (tk_bos tk)" "0 \<le> en_seq E" using assms(4,6) Some by simp_all
    note out = encode_outcome [OF tk(1) this, where inp = prompt and add_eos = False]
    show ?thesis
    proof (cases "tq_encode tk prompt True False (en_seq E)")
      case (Inl e)
      then have "e = Status TQ_ERR_NOMEM" using out by simp
      then show ?thesis using full Inl Some unfolding generate_def m by simp
    next
      case (Inr toks)
      have o: "int (length toks) \<le> en_seq E" "\<forall>x \<in> set toks. in_vocab tk x" using out Inr by auto
      have ne: "toks \<noteq> []" using encode_nonempty [OF Inr] .
      show ?thesis
      proof (rule run [OF ne _ _ _ _ g])
        show "\<forall>t \<in> set toks. valid_token (en_m E) t" using o(2) tk(2) by (simp add: in_vocab_def valid_token_def)
        show "length toks \<le> en_slots E" using o(1) by simp
        show "case tok of None \<Rightarrow> toks = [sint (h_bos_token (m_hdr (en_m E)))] | Some t \<Rightarrow> tq_encode t prompt True False (en_seq E) = Inr toks"
          using Some Inr by simp
        show "generate quiet tok prompt steps temp topp seed sidx sprob buf rt = map_option Inr (gen_loop quiet tok toks
            (min (nat steps) (en_slots E)) (toks ! 0) 0
            \<lparr>gn_rt = rt, gn_sm = tq_sampler_init (en_vocab E) temp topp seed (Some sidx) (Some sprob), gn_buf = buf\<rparr>)"
          unfolding generate_def m Some option.case Inr sum.case Let_def st ..
      qed
    qed
  qed
qed

section \<open>Two greedy steps of the blank model\<close>

lemma blank_steps:
  assumes "store_shows blank_image 256 st"
  obtains rt1 rt2 where "tq_forward (blank_runtime st z) 0 0 = Some (TQ_OK, rt1)" "rt_logits rt1 = zs 5" "rt_m rt1 = blank_model"
    "tq_forward rt1 0 1 = Some (TQ_OK, rt2)" "rt_logits rt2 = zs 5" "rt_m rt2 = blank_model"
proof -
  have r: "env_ok blank_env \<and> rt_ready blank_env [] (blank_runtime st z)"
    using blank_env_ok ready_fresh [OF blank_fits [OF assms]] by blast
  have v: "valid_token (en_m blank_env) 0" by (simp add: blank_valid)
  obtain rt1 where 1: "tq_forward (blank_runtime st z) 0 (int (length [])) = Some (TQ_OK, rt1)" "rt_logits rt1 = zs 5"
    "env_ok blank_env \<and> rt_ready blank_env ([] @ [[(zero_cell, zero_cell)]]) rt1"
    using fwd.step_some [OF r _ v] blank_forward [of 0 0] by auto
  have h: "length ([] @ [[(zero_cell, zero_cell)]]) < en_slots blank_env" by simp
  have f: "forward_value (en_img blank_env) (en_m blank_env) (en_kv blank_env) ([] @ [[(zero_cell, zero_cell)]]) 0
      = Some (zs 5, [(zero_cell, zero_cell)])" using blank_forward [of 1 0] by simp
  obtain rt2 where 2: "tq_forward rt1 0 (int (length ([] @ [[(zero_cell, zero_cell)]]))) = Some (TQ_OK, rt2)" "rt_logits rt2 = zs 5"
    "env_ok blank_env \<and> rt_ready blank_env (([] @ [[(zero_cell, zero_cell)]]) @ [[(zero_cell, zero_cell)]]) rt2"
    using fwd.step_some [OF 1(3) h v f] by blast
  have m: "rt_m rt1 = blank_model" "rt_m rt2 = blank_model"
    using ready_fixed [of blank_env _ rt1] ready_fixed [of blank_env _ rt2] 1(3) 2(3) by auto
  show ?thesis
    by (rule that [of rt1 rt2]) (use 1 2 m in auto)
qed

lemma blank_generates:
  fixes st :: "'c tq_store"
  assumes "store_shows blank_image 256 st"
  shows "\<exists>r s. generate False None [] 2 0 0 7 [0, 0, 0, 0, 0] [0, 0, 0, 0, 0] (replicate 64 0) (blank_runtime st z) = Some (Inr (r, s))
    \<and> gr_pos r = 2 \<and> gr_tokens r = [0, 0] \<and> gr_text r = cstr ''0 0 ''"
proof -
  obtain rt1 rt2 where s: "tq_forward (blank_runtime st z) 0 0 = Some (TQ_OK, rt1)" "rt_logits rt1 = zs 5" "rt_m rt1 = blank_model"
    "tq_forward rt1 0 1 = Some (TQ_OK, rt2)" "rt_logits rt2 = zs 5" "rt_m rt2 = blank_model"
    by (rule blank_steps [OF assms, of z])
  have a: "tq_argmax (zs 5) 5 = 0" by code_simp
  have d: "dec_int 0 @ cstr '' '' = cstr ''0 ''" by code_simp
  have z: "f32_le 0 0" by code_simp
  have m: "rt_m (blank_runtime st z) = blank_model" "rt_max_seq (blank_runtime st z) = 4" by (simp_all add: blank_runtime_def)
  have upd: "rt_logits r = l \<Longrightarrow> r\<lparr>rt_logits := l\<rparr> = r" for r :: "'c tq_runtime" and l by (cases r) simp
  have u: "rt1\<lparr>rt_logits := zs 5\<rparr> = rt1" "rt2\<lparr>rt_logits := zs 5\<rparr> = rt2" using upd s(2,5) by blast+
  have t: "cstr ''0 '' @ cstr ''0 '' = cstr ''0 0 ''" by code_simp
  show ?thesis
    unfolding generate_def m option.case sum.case Let_def blank_bos
    using s a d z u t
    by (simp add: numeral_2_eq_2 gen_next_def tq_sample_def tq_sampler_init_def blank_bos print_piece_def blank_fields Let_def)
qed

section \<open>Properties\<close>

section \<open>Properties\<close>



text \<open>
  C6: the same seed, the same text. Two devices whose stores show the same image (one may keep
  it in memory, the other read it from a card), with the same model, cache type and context,
  whatever their buffers and scratch arrays held before, generate the same tokens and print the
  same text from the same prompt, seed and settings, or are both undefined.
\<close>

theorem generate_same:
  fixes rt :: "'c tq_runtime" and rt' :: "'d tq_runtime"
  assumes "env_ok E" and "env_ok E'" and "same_model E E'" and "en_seq E' = en_seq E"
    and "rt_ready E [] rt" and "rt_ready E' [] rt'"
    and "tok_fits tok E" and "\<forall>t. tok = Some t \<longrightarrow> in_vocab t (tk_bos t)"
    and "valid_token (en_m E) (sint (h_bos_token (m_hdr (en_m E))))" and "0 < en_seq E"
    and "en_vocab E \<le> length sprob" "length sidx = length sprob"
    and "en_vocab E \<le> length sprob'" "length sidx' = length sprob'" and "bufs_fit buf buf'"
  shows "case generate quiet tok prompt steps temp topp seed sidx sprob buf rt of
      None \<Rightarrow> generate quiet tok prompt steps temp topp seed sidx' sprob' buf' rt' = None
    | Some (Inl rc) \<Rightarrow> generate quiet tok prompt steps temp topp seed sidx' sprob' buf' rt' = Some (Inl rc)
    | Some (Inr (r, s)) \<Rightarrow> \<exists>s'. generate quiet tok prompt steps temp topp seed sidx' sprob' buf' rt' = Some (Inr (r, s'))"
proof -
  have m: "en_m E' = en_m E" using assms(3) by (simp add: same_model_def)
  have e': "tok_fits tok E'" "valid_token (en_m E') (sint (h_bos_token (m_hdr (en_m E'))))" "0 < en_seq E'" "en_vocab E' \<le> length sprob'"
    using assms(4,7,9,10,13) m by (simp_all add: tok_fits_def)
  note two = generate_run [OF assms(6,2) e'(1) assms(8) e'(2,3,4) assms(14), of quiet prompt steps temp topp seed buf']
  show ?thesis
  proof (rule generate_run [OF assms(5,1,7-12), of quiet prompt steps temp topp seed buf], goal_cases)
    case 1
    then show ?case using assms(4) by (auto intro: two)
  next
    case (2 toks)
    show ?case
    proof (rule two, goal_cases)
      case 1
      then show ?case using 2(4) assms(4) by (auto split: option.splits)
    next
      case (2 toks')
      note a = \<open>case tok of None \<Rightarrow> toks = _ | Some t \<Rightarrow> _\<close> and b = 2(4)
      have eq: "toks' = toks" using a b assms(4) m by (cases tok) simp_all
      let ?s = "\<lparr>gn_rt = rt, gn_sm = tq_sampler_init (en_vocab E) temp topp seed (Some sidx) (Some sprob), gn_buf = buf\<rparr>"
      let ?s' = "\<lparr>gn_rt = rt', gn_sm = tq_sampler_init (en_vocab E) temp topp seed (Some sidx') (Some sprob'), gn_buf = buf'\<rparr>"
      have p: "gen_pair E E' [] ?s ?s'"
        using \<open>gen_ok E [] ?s\<close> 2(6) assms(15) m by (simp add: gen_pair_def same_sampler_iff tq_sampler_init_def)
      have v: "valid_token (en_m E) (toks ! 0)" using 2(1,2) m eq by (simp add: nth_mem)
      have "case gen_loop quiet tok toks (min (nat steps) (en_slots E)) (toks ! 0) 0 ?s of
          None \<Rightarrow> gen_loop quiet tok toks (min (nat steps) (en_slots E)) (toks ! 0) 0 ?s' = None
        | Some (r, s1) \<Rightarrow> \<exists>s1'. gen_loop quiet tok toks (min (nat steps) (en_slots E)) (toks ! 0) 0 ?s' = Some (r, s1')"
        using 2(2) assms(4,7) m eq by (intro gen_loop_same [OF assms(3) p _ _ v]) simp_all
      then show ?case using \<open>generate quiet tok prompt steps temp topp seed sidx sprob buf rt = _\<close> 2(5) assms(4) m eq
        by (auto split: option.splits)
    qed
  qed
qed

theorem generate_same_witness:
  "\<exists>r s s'. generate False None [] 2 0 0 7 [0, 0, 0, 0, 0] [0, 0, 0, 0, 0] (replicate 64 0) (blank_runtime blank_streamed 5) = Some (Inr (r, s))
     \<and> generate False None [] 2 0 0 7 [1, 1, 1, 1, 1] [9, 9, 9, 9, 9] (replicate 64 1) (blank_runtime blank_mapped 0) = Some (Inr (r, s'))"
proof -
  have "same_model blank_env blank_env" "tok_fits None blank_env" by (simp_all add: same_model_def tok_fits_def)
  note g = generate_same [OF blank_env_ok blank_env_ok this(1) refl blank_ready(2) [of 5] blank_ready(1) [of 0] this(2),
      where sidx = "[0, 0, 0, 0, 0]" and sprob = "[0, 0, 0, 0, 0]" and sidx' = "[1, 1, 1, 1, 1]" and sprob' = "[9, 9, 9, 9, 9]"
        and quiet = False and prompt = "[]" and steps = 2 and temp = 0 and topp = 0 and seed = 7 and buf = "replicate 64 0"
        and buf' = "replicate 64 1"]
  from g blank_generates [of blank_streamed 5, OF blank_stores(2)] show ?thesis
    by (auto simp: blank_valid blank_bos bufs_fit_def blank_fields(10))
qed

end
