(* ===== verification/Tq_Sem.thy ===== *)
theory Tq_Sem imports Tq_Codec Tq_Generate begin

text \<open>
  The semaphore tool \<^verbatim>\<open>src/host/tq_sem.c\<close>: a text is tokenized, each token is coded against the
  model's own prediction, and the receiver decodes with the same model. The wire carries the
  number of tokens as one symbol of 256 equal ones, then every token behind the begin marker.
  The functions are those of the source; \<^verbatim>\<open>exp\<close> and \<^verbatim>\<open>log2\<close> of the C library, zlib's deflate and the
  clock are parameters, which only the reported figures depend on. The lemmas follow the token
  stream: what the encoder codes is a sequence of symbols (theory \<open>Tq_Codec\<close>) whose tables both
  sides compute from the same logits (theory \<open>Tq_Session\<close>).
\<close>

unbundle bit_operations_syntax

section \<open>The tool\<close>

definition MAX_MSG_TOKENS :: int where "MAX_MSG_TOKENS = 512"

definition MAX_WIRE :: nat where "MAX_WIRE = 4096"

definition SEM_LEN_SYMBOLS :: int where "SEM_LEN_SYMBOLS = 256"

definition SEM_LEN_FREQ :: u32 where "SEM_LEN_FREQ = TQ_AC_TOT div 256"

text \<open>The static state that the modes share.\<close>

record 'c sem_tool =
  tl_rt :: "'c tq_runtime"
  tl_pm :: tq_ac_model
  tl_tok :: tq_tokenizer

text \<open>\<^verbatim>\<open>exp\<close> and \<^verbatim>\<open>log2\<close> of the C library; the figures they give are reported, never sent.\<close>

record libm =
  lm_exp :: "f64 \<Rightarrow> f64"
  lm_log2 :: "f64 \<Rightarrow> f64"

section \<open>Encoding\<close>

text \<open>The bits of a token under the model; \<open>None\<close> when it has no logit.\<close>

definition sem_ideal :: "libm \<Rightarrow> f32 list \<Rightarrow> int \<Rightarrow> int \<Rightarrow> f64 option" where
  "sem_ideal lm lg vocab next_tok =
     (let l = (\<lambda>k. f64_of_f32 (lg ! k));
          mx = foldl (\<lambda>mx k. if f64_lt mx (l k) then l k else mx) (l 0) [1..<nat vocab];
          s = foldl (\<lambda>s k. f64_add s (lm_exp lm (f64_sub (l k) mx))) 0 [0..<nat vocab]
      in if next_tok < 0 \<or> next_tok \<ge> int (length lg) then None
         else Some (lm_log2 lm (f64_div (lm_exp lm (f64_sub (l (nat next_tok)) mx)) s)))"

text \<open>The logarithms of the counts that a coded token was charged.\<close>

definition sem_log2_count :: "libm \<Rightarrow> u32 \<Rightarrow> f64" where
  "sem_log2_count lm c = lm_log2 lm (f64_div (f64_of_int (uint c)) (f64_of_int (uint TQ_AC_TOT)))"

definition sem_bcount :: "tq_ac_model \<Rightarrow> int \<Rightarrow> u32" where
  "sem_bcount pm tok = pm_bcnt pm ! (nat tok div TQ_AC_BUCKET)"

definition sem_scount :: "tq_ac_model \<Rightarrow> int \<Rightarrow> u32" where
  "sem_scount pm tok = pm_scnt pm ! (nat tok mod TQ_AC_BUCKET)"

text \<open>The runtime, the coder and the outputs of \<^verbatim>\<open>sem_encode\<close>; \<^verbatim>\<open>out\<close> is the coder's buffer.\<close>

record 'c sem_enc =
  se_rt :: "'c tq_runtime"
  se_pm :: tq_ac_model
  se_e :: tq_ac_enc
  se_len :: nat
  se_ideal :: f64
  se_charged :: f64
  se_term :: f64

definition sem_encode_step :: "libm \<Rightarrow> int list \<Rightarrow> nat \<Rightarrow> 'c sem_enc \<Rightarrow> (tq_status \<times> 'c sem_enc) option" where
  "sem_encode_step lm toks i s =
     (let next_tok = toks ! (i + 1)
      in case tq_forward (se_rt s) (toks ! i) (int i) of
           None \<Rightarrow> None
         | Some (rc, rt) \<Rightarrow>
             if rc \<noteq> TQ_OK then Some (rc, s\<lparr>se_rt := rt\<rparr>)
             else (case sem_ideal lm (rt_logits rt) (m_vocab_size (rt_m rt)) next_tok of
                     None \<Rightarrow> None
                   | Some bits \<Rightarrow>
                       (case tq_ac_enc_token (se_e s) (se_pm s) (rt_logits rt) next_tok of
                          None \<Rightarrow> None
                        | Some (e, pm, rc) \<Rightarrow>
                            let s = s\<lparr>se_rt := rt, se_ideal := f64_sub (se_ideal s) bits, se_e := e, se_pm := pm\<rparr>
                            in if rc \<noteq> TQ_OK then Some (rc, s)
                               else Some (TQ_OK, s\<lparr>se_charged :=
                                 f64_sub (se_charged s)
                                   (f64_add (sem_log2_count lm (sem_bcount pm next_tok)) (sem_log2_count lm (sem_scount pm next_tok)))\<rparr>))))"

definition sem_encode :: "libm \<Rightarrow> int list \<Rightarrow> int \<Rightarrow> nat \<Rightarrow> 'c sem_enc \<Rightarrow> (tq_status \<times> 'c sem_enc) option" where
  "sem_encode lm toks n cap s =
     (if n < 1 \<or> n - 1 \<ge> SEM_LEN_SYMBOLS then Some (TQ_ERR_RANGE, s)
      else case tq_ac_enc_sym (tq_ac_enc_init cap) (word_of_int (n - 1) * SEM_LEN_FREQ) SEM_LEN_FREQ TQ_AC_TOT of
             None \<Rightarrow> None
           | Some e \<Rightarrow>
               (case run_ok (map (sem_encode_step lm toks) [0..<nat n - 1])
                       (s\<lparr>se_e := e, se_ideal := 0, se_charged := 0, se_term := f64_of_int 8\<rparr>) of
                  None \<Rightarrow> None
                | Some (rc, s) \<Rightarrow>
                    if rc \<noteq> TQ_OK then Some (rc, s)
                    else let (len, e) = tq_ac_enc_finish (se_e s)
                         in Some (if e_overflow e then TQ_ERR_NOMEM else TQ_OK, s\<lparr>se_e := e, se_len := len\<rparr>)))"

section \<open>Decoding\<close>

record 'c sem_dec =
  sd_rt :: "'c tq_runtime"
  sd_pm :: tq_ac_model
  sd_d :: tq_ac_dec

text \<open>The loop; \<open>toks\<close> holds the tokens found so far and \<open>k\<close> is the number still missing.\<close>

fun sem_decode_loop :: "nat \<Rightarrow> int list \<Rightarrow> 'c sem_dec \<Rightarrow> ((tq_status + int list) \<times> 'c sem_dec) option" where
  "sem_decode_loop 0 toks s = Some (Inr toks, s)"
| "sem_decode_loop (Suc k) toks s =
     (case tq_forward (sd_rt s) (toks ! (length toks - 1)) (int (length toks - 1)) of
        None \<Rightarrow> None
      | Some (rc, rt) \<Rightarrow>
          if rc \<noteq> TQ_OK then Some (Inl rc, s\<lparr>sd_rt := rt\<rparr>)
          else (case tq_ac_dec_token (sd_d s) (sd_pm s) (rt_logits rt) of
                  None \<Rightarrow> None
                | Some (d, pm, r) \<Rightarrow>
                    let s = s\<lparr>sd_rt := rt, sd_pm := pm, sd_d := d\<rparr>
                    in (case r of Inl rc \<Rightarrow> Some (Inl rc, s) | Inr next_tok \<Rightarrow> sem_decode_loop k (toks @ [int next_tok]) s)))"

text \<open>The tokens, whose number the code returns; \<^verbatim>\<open>len\<close> is the length of the list of bytes.\<close>

definition sem_decode :: "u8 list \<Rightarrow> int \<Rightarrow> 'c tq_runtime \<Rightarrow> tq_ac_model \<Rightarrow> ((tq_status + int list) \<times> 'c sem_dec) option" where
  "sem_decode inp max_tokens rt pm =
     (let bos = sint (h_bos_token (m_hdr (rt_m rt)));
          (d, target) = tq_ac_dec_target (tq_ac_dec_init inp) TQ_AC_TOT;
          want = target div SEM_LEN_FREQ
      in case tq_ac_dec_update d (want * SEM_LEN_FREQ) SEM_LEN_FREQ of
           None \<Rightarrow> None
         | Some d \<Rightarrow>
             let s = \<lparr>sd_rt = rt, sd_pm = pm, sd_d = d\<rparr>
             in if uint want + 1 > max_tokens then Some (Inl TQ_ERR_NOMEM, s)
                else sem_decode_loop (unat want) [bos] s)"

section \<open>Text\<close>

text \<open>The buffer lives on from token to token; an error prints nothing.\<close>

fun print_tokens :: "tq_tokenizer \<Rightarrow> u8 list \<Rightarrow> int \<Rightarrow> int list \<Rightarrow> u8 list option" where
  "print_tokens t out prev [] = Some []"
| "print_tokens t out prev (x # xs) =
     (case tq_decode t prev x out of
        Inl Undefined \<Rightarrow> None
      | Inl _ \<Rightarrow> print_tokens t out x xs
      | Inr (_, out) \<Rightarrow> map_option ((@) (printed out)) (print_tokens t out x xs))"

definition print_text :: "tq_tokenizer \<Rightarrow> u8 list \<Rightarrow> int list \<Rightarrow> u8 list option" where
  "print_text t buf toks = map_option (\<lambda>s. s @ cstr ''\<newline>'') (print_tokens t buf (hd toks) (tl toks))"

text \<open>\<^verbatim>\<open>%02x\<close> of every byte of the wire.\<close>

definition hex_char :: "nat \<Rightarrow> u8" where
  "hex_char d = (if d < 10 then of_nat (48 + d) else of_nat (87 + d))"

definition hex_byte :: "u8 \<Rightarrow> u8 list" where
  "hex_byte b = [hex_char (unat b div 16), hex_char (unat b mod 16)]"

definition hex_bytes :: "u8 list \<Rightarrow> u8 list" where
  "hex_bytes bs = concat (map hex_byte bs)"

text \<open>
  \<^verbatim>\<open>sscanf(hex, "%2x", &v)\<close>: white space is skipped, then at most two characters are taken, a
  sign among them; \<open>None\<close> is a failed match. A sign alone or \<^verbatim>\<open>0x\<close> does not match.
\<close>

definition is_space :: "u8 \<Rightarrow> bool" where
  "is_space c \<longleftrightarrow> c = 32 \<or> (9 \<le> c \<and> c \<le> 13)"

fun scan_2x :: "u8 list \<Rightarrow> u32 option" where
  "scan_2x (c # rest) =
     (if is_space c then scan_2x rest
      else let next_digit = (case rest of [] \<Rightarrow> -1 | d # _ \<Rightarrow> tq_hexval d)
           in if c = 43 \<or> c = 45
              then (if next_digit < 0 then None else Some (word_of_int (if c = 45 then - next_digit else next_digit)))
              else if tq_hexval c < 0 then None
              else if c = 48 \<and> (case rest of [] \<Rightarrow> False | d # _ \<Rightarrow> d = 120 \<or> d = 88) then None
              else Some (word_of_int (if next_digit < 0 then tq_hexval c else 16 * tq_hexval c + next_digit)))"
| "scan_2x [] = None"

fun scan_hex :: "nat \<Rightarrow> u8 list \<Rightarrow> u8 list" where
  "scan_hex room (a # b # rest) =
     (if room = 0 then []
      else case scan_2x (a # b # rest) of
             None \<Rightarrow> []
           | Some v \<Rightarrow> ucast v # scan_hex (room - 1) rest)"
| "scan_hex room _ = []"

section \<open>The modes\<close>

record msg_result =
  mr_raw :: nat
  mr_deflate :: nat
  mr_defdict :: nat
  mr_wire :: nat
  mr_ideal :: f64
  mr_charged :: f64
  mr_term :: f64
  mr_secs :: f64
  mr_tokens :: int
  mr_ok :: bool

definition zero_result :: msg_result where
  "zero_result = \<lparr>mr_raw = 0, mr_deflate = 0, mr_defdict = 0, mr_wire = 0, mr_ideal = 0, mr_charged = 0, mr_term = 0,
     mr_secs = 0, mr_tokens = 0, mr_ok = False\<rparr>"

text \<open>
  \<open>defl\<close> is the size that zlib's deflate reports (with the dictionary or without) and \<open>secs\<close> the
  time the clock measures. The result is the return code, the figures and the bytes that were
  coded; an undecodable message is one whose tokens differ.
\<close>

definition do_message ::
  "libm \<Rightarrow> (u8 list \<Rightarrow> bool \<Rightarrow> nat) \<Rightarrow> f64 \<Rightarrow> u8 list \<Rightarrow> 'c sem_tool \<Rightarrow> (int \<times> msg_result \<times> u8 list \<times> 'c sem_tool) option" where
  "do_message lm defl secs inp t =
     (let r = zero_result\<lparr>mr_raw := length inp, mr_deflate := defl inp False, mr_defdict := defl inp True\<rparr>
      in case tq_encode (tl_tok t) inp True False MAX_MSG_TOKENS of
           Inl Undefined \<Rightarrow> None
         | Inl _ \<Rightarrow> Some (1, r, [], t)
         | Inr toks \<Rightarrow>
             (case sem_encode lm toks (int (length toks)) MAX_WIRE
                     \<lparr>se_rt = tl_rt t, se_pm = tl_pm t, se_e = tq_ac_enc_init MAX_WIRE, se_len = 0, se_ideal = 0, se_charged = 0, se_term = 0\<rparr> of
                None \<Rightarrow> None
              | Some (rc, s) \<Rightarrow>
                  let t = t\<lparr>tl_rt := se_rt s, tl_pm := se_pm s\<rparr>
                  in if rc \<noteq> TQ_OK then Some (1, r, [], t)
                     else let wire = take (se_len s) (e_buf (se_e s))
                          in (case sem_decode wire MAX_MSG_TOKENS (tl_rt t) (tl_pm t) of
                                None \<Rightarrow> None
                              | Some (back, d) \<Rightarrow>
                                  let ok = (back = Inr toks);
                                      t = t\<lparr>tl_rt := sd_rt d, tl_pm := sd_pm d\<rparr>
                                  in Some (if ok then 0 else 1,
                                       r\<lparr>mr_wire := se_len s, mr_ideal := se_ideal s, mr_charged := se_charged s, mr_term := se_term s,
                                         mr_secs := secs, mr_tokens := int (length toks), mr_ok := ok\<rparr>, wire, t))))"

text \<open>The return code and the text that is printed.\<close>

definition do_decode :: "u8 list \<Rightarrow> u8 list \<Rightarrow> 'c sem_tool \<Rightarrow> (int \<times> u8 list \<times> 'c sem_tool) option" where
  "do_decode buf hex t =
     (case sem_decode (scan_hex MAX_WIRE hex) MAX_MSG_TOKENS (tl_rt t) (tl_pm t) of
        None \<Rightarrow> None
      | Some (r, d) \<Rightarrow>
          let t = t\<lparr>tl_rt := sd_rt d, tl_pm := sd_pm d\<rparr>
          in (case r of
                Inl _ \<Rightarrow> Some (1, [], t)
              | Inr toks \<Rightarrow> map_option (\<lambda>s. (0, s, t)) (print_text (tl_tok t) buf toks)))"

section \<open>The two loops against the transformer\<close>

text \<open>The logits after each token that is fed.\<close>

fun predictions :: "('h list \<Rightarrow> int \<Rightarrow> (f32 list \<times> 'h) option) \<Rightarrow> 'h list \<Rightarrow> int list \<Rightarrow> f32 list list option" where
  "predictions val hist [] = Some []"
| "predictions val hist (t # ts) =
     (case val hist t of
        None \<Rightarrow> None
      | Some (lg, new) \<Rightarrow> map_option ((#) lg) (predictions val (hist @ [new]) ts))"

lemma predictions_length: "predictions val hist ts = Some lgs \<Longrightarrow> length lgs = length ts"
  by (induction ts arbitrary: hist lgs) (auto split: option.splits)

lemma enc_token_ok:
  assumes "tq_ac_enc_token e pm lg tok = Some (e', pm', TQ_OK)"
  shows "0 \<le> tok" and "tok < int (pm_vocab pm)" and "enc_tok (e, pm) (lg, nat tok) = Some (e', pm')"
proof -
  show t: "0 \<le> tok" "tok < int (pm_vocab pm)"
    using assms by (auto simp: tq_ac_enc_token_def split: if_splits)
  show "enc_tok (e, pm) (lg, nat tok) = Some (e', pm')" using assms t(1) by (simp add: enc_tok_def)
qed

lemma encode_step_ok:
  assumes "env_ok E" and "rt_ready E hist (se_rt s)" and "pm_ok (en_vocab E) (se_pm s)"
    and "sem_encode_step lm toks (length hist) s = Some (TQ_OK, s')"
  obtains lg new where "fv E hist (toks ! length hist) = Some (lg, new)" "rt_ready E (hist @ [new]) (se_rt s')"
    "pm_ok (en_vocab E) (se_pm s')" "valid_token (en_m E) (toks ! length hist)" "length hist < en_slots E"
    "enc_tok (se_e s, se_pm s) (lg, nat (toks ! (length hist + 1))) = Some (se_e s', se_pm s')"
    "valid_token (en_m E) (toks ! (length hist + 1))" "se_len s' = se_len s"
proof -
  obtain rt where rt: "tq_forward (se_rt s) (toks ! length hist) (int (length hist)) = Some (TQ_OK, rt)"
    "tq_ac_enc_token (se_e s) (se_pm s) (rt_logits rt) (toks ! (length hist + 1)) = Some (se_e s', se_pm s', TQ_OK)"
    "se_rt s' = rt" "se_len s' = se_len s"
    using assms(4) by (auto simp: sem_encode_step_def Let_def split: option.splits if_splits)
  obtain new where n: "fv E hist (toks ! length hist) = Some (rt_logits rt, new)" "rt_ready E (hist @ [new]) rt"
    "valid_token (en_m E) (toks ! length hist)" "length hist < en_slots E"
    by (rule forward_ok_value [OF assms(1,2) rt(1)])
  note t = enc_token_ok [OF rt(2)]
  have V: "pm_vocab (se_pm s) = en_vocab E" using assms(3) by (simp add: pm_ok_def)
  then have "nat (toks ! (length hist + 1)) < en_vocab E" using t(1,2) by linarith
  from enc_tok_run(2) [OF assms(3) this t(3)] have "pm_ok (en_vocab E) (se_pm s')" .
  then show ?thesis using that n rt(3,4) t V by (auto simp: valid_token_def)
qed

text \<open>The encoder's loop: it codes every token under the prediction that the reference makes.\<close>

lemma encode_steps_ok:
  assumes "env_ok E" and "rt_ready E hist (se_rt s)" and "pm_ok (en_vocab E) (se_pm s)"
    and "run_ok (map (sem_encode_step lm toks) [length hist..<length hist + k]) s = Some (TQ_OK, s')"
  shows "\<exists>lgs. predictions (fv E) hist (map ((!) toks) [length hist..<length hist + k]) = Some lgs
    \<and> run_steps enc_tok (zip lgs (map (\<lambda>j. nat (toks ! (j + 1))) [length hist..<length hist + k])) (se_e s, se_pm s) = Some (se_e s', se_pm s')
    \<and> (\<forall>j. length hist \<le> j \<and> j < length hist + k \<longrightarrow> valid_token (en_m E) (toks ! j) \<and> valid_token (en_m E) (toks ! (j + 1)) \<and> j < en_slots E)
    \<and> pm_ok (en_vocab E) (se_pm s') \<and> se_len s' = se_len s"
  using assms(2-4)
proof (induction k arbitrary: hist s)
  case (Suc k)
  have u: "[length hist..<length hist + Suc k] = length hist # [Suc (length hist)..<Suc (length hist) + k]"
    by (simp add: upt_rec)
  obtain s1 where s1: "sem_encode_step lm toks (length hist) s = Some (TQ_OK, s1)"
    "run_ok (map (sem_encode_step lm toks) [Suc (length hist)..<Suc (length hist) + k]) s1 = Some (TQ_OK, s')"
    using Suc.prems(3) unfolding u by (auto split: option.splits if_splits)
  obtain lg new where p: "fv E hist (toks ! length hist) = Some (lg, new)" "rt_ready E (hist @ [new]) (se_rt s1)"
    "pm_ok (en_vocab E) (se_pm s1)" "valid_token (en_m E) (toks ! length hist)" "length hist < en_slots E"
    "enc_tok (se_e s, se_pm s) (lg, nat (toks ! (length hist + 1))) = Some (se_e s1, se_pm s1)"
    "valid_token (en_m E) (toks ! (length hist + 1))" "se_len s1 = se_len s"
    by (rule encode_step_ok [OF assms(1) Suc.prems(1,2) s1(1)])
  have l: "length (hist @ [new]) = Suc (length hist)" by simp
  obtain lgs where r: "predictions (fv E) (hist @ [new]) (map ((!) toks) [Suc (length hist)..<Suc (length hist) + k]) = Some lgs"
    "run_steps enc_tok (zip lgs (map (\<lambda>j. nat (toks ! (j + 1))) [Suc (length hist)..<Suc (length hist) + k])) (se_e s1, se_pm s1)
       = Some (se_e s', se_pm s')"
    "\<forall>j. Suc (length hist) \<le> j \<and> j < Suc (length hist) + k \<longrightarrow>
       valid_token (en_m E) (toks ! j) \<and> valid_token (en_m E) (toks ! (j + 1)) \<and> j < en_slots E"
    "pm_ok (en_vocab E) (se_pm s')" "se_len s' = se_len s1"
    using Suc.IH [OF p(2,3)] s1(2) unfolding l by blast
  have v: "valid_token (en_m E) (toks ! j) \<and> valid_token (en_m E) (toks ! (j + 1)) \<and> j < en_slots E"
    if "length hist \<le> j" "j < length hist + Suc k" for j
    using that r(3) p(4,5,7) by (cases "j = length hist") auto
  show ?case
    unfolding u using p(1,6,8) r(1,2,4,5) v by (intro exI [of _ "lg # lgs"]) simp
qed simp

text \<open>The decoder's loop, given that the symbols it meets are those of the tokens.\<close>

lemma dec_tok_stream:
  assumes "pm_ok V pm" and "\<forall>lt \<in> set lts. tok_good V lt"
    and "run_steps tq_dec_sym3 (concat (map (\<lambda>(l, t). token_syms V l t) lts)) d = Some d'"
  shows "\<exists>pm'. run_steps dec_tok lts (d, pm) = Some (d', pm')"
  using assms
proof (induction lts arbitrary: d pm)
  case (Cons lt lts)
  obtain lg tok where lt: "lt = (lg, tok)" by (cases lt)
  obtain d1 where d1: "run_steps tq_dec_sym3 (token_syms V lg tok) d = Some d1"
    "run_steps tq_dec_sym3 (concat (map (\<lambda>(l, t). token_syms V l t) lts)) d1 = Some d'"
    using Cons.prems(3) by (auto simp: lt run_steps_append split: option.splits)
  have tok: "tok < V" using Cons.prems(2) by (simp add: lt tok_good_def)
  obtain pm1 where pm1: "pm_ok V pm1" "tq_ac_dec_token d pm lg = Some (d1, pm1, Inr tok)"
    using dec_token_syms [OF Cons.prems(1) tok d1(1)] by blast
  then show ?case using Cons.IH [OF pm1(1) _ d1(2)] Cons.prems(2) by (simp add: lt dec_tok_def)
qed simp

lemma dec_tok_Some: "dec_tok (d, pm) (lg, x) = Some (d', pm') \<longleftrightarrow> tq_ac_dec_token d pm lg = Some (d', pm', Inr x)"
  by (auto simp: dec_tok_def split: option.splits sum.splits if_splits)

lemma decode_loop_run:
  assumes "env_ok E" and "rt_ready E hist (sd_rt s)" and "toks \<noteq> []" and "length hist = length toks - 1"
    and "predictions (fv E) hist (butlast (last toks # map int nexts)) = Some lgs"
    and "run_steps dec_tok (zip lgs nexts) (sd_d s, sd_pm s) = Some (d', pm')"
    and "\<forall>t \<in> set (butlast (last toks # map int nexts)). valid_token (en_m E) t" and "length hist + length nexts \<le> en_slots E"
  shows "\<exists>s'. sem_decode_loop (length nexts) toks s = Some (Inr (toks @ map int nexts), s')"
  using assms(2-8)
proof (induction nexts arbitrary: hist toks lgs s)
  case (Cons x xs)
  let ?t = "last toks"
  have b: "butlast (?t # map int (x # xs)) = ?t # butlast (int x # map int xs)" by simp
  obtain lg new lgs1 where p: "fv E hist ?t = Some (lg, new)"
    "predictions (fv E) (hist @ [new]) (butlast (int x # map int xs)) = Some lgs1" "lgs = lg # lgs1"
    using Cons.prems(4) unfolding b by (auto split: option.splits)
  obtain d1 pm1 where d1: "tq_ac_dec_token (sd_d s) (sd_pm s) lg = Some (d1, pm1, Inr x)"
    "run_steps dec_tok (zip lgs1 xs) (d1, pm1) = Some (d', pm')"
    using Cons.prems(5) by (auto simp: p(3) dec_tok_Some split: option.splits)
  have v: "valid_token (en_m E) ?t" using Cons.prems(6) unfolding b by simp
  have sl: "length hist < en_slots E" using Cons.prems(7) by simp
  have r: "env_ok E \<and> rt_ready E hist (sd_rt s)" using assms(1) Cons.prems(1) by simp
  obtain rt where rt: "tq_forward (sd_rt s) ?t (int (length hist)) = Some (TQ_OK, rt)" "rt_logits rt = lg" "rt_ready E (hist @ [new]) rt"
    using fwd.step_some [OF r sl v p(1)] by blast
  let ?s = "s\<lparr>sd_rt := rt, sd_pm := pm1, sd_d := d1\<rparr>"
  have "\<exists>s'. sem_decode_loop (length xs) (toks @ [int x]) ?s = Some (Inr ((toks @ [int x]) @ map int xs), s')"
    using Cons.prems rt d1 p(2) unfolding b by (intro Cons.IH [where hist = "hist @ [new]" and lgs = lgs1]) simp_all
  moreover have "toks ! (length toks - 1) = ?t" using Cons.prems(2) by (simp add: last_conv_nth)
  ultimately show ?case using rt(1,2) d1(1) Cons.prems(3) by simp
qed simp

section \<open>The length field\<close>

definition len_sym :: "nat \<Rightarrow> ac_sym" where
  "len_sym k = (word_of_int (int k) * SEM_LEN_FREQ, SEM_LEN_FREQ, TQ_AC_TOT)"

lemma sem_words: "unat SEM_LEN_FREQ = 256" "unat TQ_AC_TOT = 65536" "SEM_LEN_FREQ = 256" "TQ_AC_TOT = 65536"
  by (simp_all add: SEM_LEN_FREQ_def TQ_AC_TOT_def)

lemma len_sym_word: "k < 256 \<Longrightarrow> unat (word_of_int (int k) * SEM_LEN_FREQ :: u32) = 256 * k"
  by (simp add: sem_words(3) unat_word_ariths(2) unat_of_nat)

lemma len_sym_ok: "k < 256 \<Longrightarrow> sym_ok (len_sym k)"
  using len_sym_word [of k] by (simp add: len_sym_def sym_ok_def sem_words)

text \<open>A target in the interval of a length gives the length back.\<close>

lemma len_sym_decodes:
  assumes "k < 256" and "tq_dec_sym3 d (len_sym k) = Some d'"
  shows "\<exists>d1 target. tq_ac_dec_target d TQ_AC_TOT = (d1, target) \<and> unat (target div SEM_LEN_FREQ) = k
    \<and> tq_ac_dec_update d1 ((target div SEM_LEN_FREQ) * SEM_LEN_FREQ) SEM_LEN_FREQ = Some d'"
proof -
  obtain d1 target where t: "tq_ac_dec_target d TQ_AC_TOT = (d1, target)" by fastforce
  let ?c = "word_of_int (int k) * SEM_LEN_FREQ :: u32"
  have u: "?c \<le> target" "target < ?c + SEM_LEN_FREQ" "tq_ac_dec_update d1 ?c SEM_LEN_FREQ = Some d'"
    using assms(2) t by (auto simp: tq_dec_sym3_def len_sym_def split: if_splits)
  have c: "unat ?c = 256 * k" by (rule len_sym_word [OF assms(1)])
  have "unat (?c + SEM_LEN_FREQ) = 256 * k + 256"
    using c assms(1) by (simp add: unat_word_ariths(1) sem_words(1))
  then have b: "256 * k \<le> unat target" "unat target < 256 * k + 256"
    using u(1,2) c by (simp_all add: word_le_nat_alt word_less_nat_alt)
  have k: "unat (target div SEM_LEN_FREQ) = k"
    using b by (simp add: unat_div sem_words(1))
  have "target div SEM_LEN_FREQ = word_of_int (int k)"
    unfolding k [symmetric] by simp
  then show ?thesis using t k u(3) by auto
qed

section \<open>Messages\<close>

lemma good_zip: "\<forall>t \<in> set ts. valid_token m t \<Longrightarrow> \<forall>lt \<in> set (zip lgs (map nat ts)). tok_good (nat (m_vocab_size m)) lt"
  by (force simp: tok_good_def valid_token_def dest!: set_zip_rightD)

lemma sem_encode_ok:
  assumes "env_ok E" and "rt_ready E [] (se_rt s)" and "pm_ok (en_vocab E) (se_pm s)" and "n \<le> int (length toks)"
    and "sem_encode lm toks n cap s = Some (TQ_OK, s')"
  shows "\<exists>k lgs e. n = int (Suc k) \<and> k < 256 \<and> k \<le> en_slots E
    \<and> predictions (fv E) [] (take k toks) = Some lgs
    \<and> (\<forall>t \<in> set (take k toks). valid_token (en_m E) t) \<and> (\<forall>t \<in> set (take k (tl toks)). valid_token (en_m E) t)
    \<and> run_steps tq_enc_sym3 (len_sym k # concat (map (\<lambda>(l, t). token_syms (en_vocab E) l t) (zip lgs (map nat (take k (tl toks))))))
        (tq_ac_enc_init cap) = Some e
    \<and> \<not> e_overflow (snd (tq_ac_enc_finish e)) \<and> se_e s' = snd (tq_ac_enc_finish e) \<and> se_len s' = fst (tq_ac_enc_finish e)"
proof -
  define k where "k = nat n - 1"
  have r: "\<not> (n < 1 \<or> n - 1 \<ge> SEM_LEN_SYMBOLS)" using assms(5) by (auto simp: sem_encode_def)
  then have n: "n = int (Suc k)" "k < 256" by (auto simp: k_def SEM_LEN_SYMBOLS_def)
  have tk: "k < length toks" using assms(4) n by simp
  let ?s = "\<lambda>e. s\<lparr>se_e := e, se_ideal := 0, se_charged := 0, se_term := f64_of_int 8\<rparr>"
  have nk: "n - 1 = int k" "nat n - 1 = k" using n by simp_all
  note body = assms(5) [unfolded sem_encode_def if_not_P [OF r], unfolded nk]
  obtain e0 where e0: "tq_ac_enc_sym (tq_ac_enc_init cap) (word_of_int (int k) * SEM_LEN_FREQ) SEM_LEN_FREQ TQ_AC_TOT = Some e0"
    using body by (cases "tq_ac_enc_sym (tq_ac_enc_init cap) (word_of_int (int k) * SEM_LEN_FREQ) SEM_LEN_FREQ TQ_AC_TOT") simp_all
  note body = body [unfolded e0 option.case]
  obtain rc s1 where s1: "run_ok (map (sem_encode_step lm toks) [0..<k]) (?s e0) = Some (rc, s1)"
    using body by (cases "run_ok (map (sem_encode_step lm toks) [0..<k]) (?s e0)") auto
  note body = body [unfolded s1 option.case prod.case]
  have rc: "rc = TQ_OK" using body by (simp split: if_splits)
  note e = e0 s1 [unfolded rc]
  obtain len e1 where f: "tq_ac_enc_finish (se_e s1) = (len, e1)" by (cases "tq_ac_enc_finish (se_e s1)")
  have e3: "\<not> e_overflow (snd (tq_ac_enc_finish (se_e s1)))" "se_e s' = snd (tq_ac_enc_finish (se_e s1))"
    "se_len s' = fst (tq_ac_enc_finish (se_e s1))"
    using body by (auto simp: rc f split: if_splits)
  let ?s = "s\<lparr>se_e := e0, se_ideal := 0, se_charged := 0, se_term := f64_of_int 8\<rparr>"
  have l: "map ((!) toks) [0..<k] = take k toks" using tk by (intro nth_equalityI) simp_all
  have l2: "map (\<lambda>j. nat (toks ! Suc j)) [0..<k] = map nat (take k (tl toks))"
    using tk by (intro nth_equalityI) (simp_all add: nth_tl)
  obtain lgs where g: "predictions (fv E) [] (take k toks) = Some lgs"
    "run_steps enc_tok (zip lgs (map nat (take k (tl toks)))) (e0, se_pm s) = Some (se_e s1, se_pm s1)"
    "\<forall>j < k. valid_token (en_m E) (toks ! j) \<and> valid_token (en_m E) (toks ! (j + 1)) \<and> j < en_slots E"
    using encode_steps_ok [of E "[]" ?s lm toks k s1] assms(1-3) e(2) by (auto simp: l l2)
  have v: "\<forall>t \<in> set (take k toks). valid_token (en_m E) t" "\<forall>t \<in> set (take k (tl toks)). valid_token (en_m E) t"
    using g(3) tk by (auto simp: in_set_conv_nth nth_tl)
  have good: "\<forall>lt \<in> set (zip lgs (map nat (take k (tl toks)))). tok_good (en_vocab E) lt"
    by (rule good_zip [OF v(2)])
  have "run_steps tq_enc_sym3 (concat (map (\<lambda>(l, t). token_syms (en_vocab E) l t) (zip lgs (map nat (take k (tl toks)))))) e0 = Some (se_e s1)"
    by (rule enc_tok_stream [OF assms(3) g(2) good])
  then have "run_steps tq_enc_sym3 (len_sym k # concat (map (\<lambda>(l, t). token_syms (en_vocab E) l t) (zip lgs (map nat (take k (tl toks))))))
        (tq_ac_enc_init cap) = Some (se_e s1)"
    using e(1) by (simp add: tq_enc_sym3_def len_sym_def)
  moreover have "k \<le> en_slots E" using g(3) by (cases k) auto
  ultimately show ?thesis using n g(1) v e3 by blast
qed

text \<open>What one endpoint sends, any other decodes.\<close>

lemma message_decodes:
  assumes "env_ok E1" and "env_ok E2" and "rt_ready E1 [] (se_rt s)" and "rt_ready E2 [] rt2"
    and same: "en_img E1 = en_img E2" "en_m E1 = en_m E2" "en_kv E1 = en_kv E2"
    and pm: "pm_ok (en_vocab E1) (se_pm s)" "pm_ok (en_vocab E2) pm2"
    and n: "n \<le> int (length toks)" "n \<le> max_tokens" "nat n \<le> Suc (en_slots E2)"
    and bos: "hd toks = sint (h_bos_token (m_hdr (en_m E2)))"
    and enc: "sem_encode lm toks n cap s = Some (TQ_OK, s')"
  shows "\<exists>d. sem_decode (e_buf (se_e s')) max_tokens rt2 pm2 = Some (Inr (take (nat n) toks), d)"
proof -
  obtain k lgs e where k: "n = int (Suc k)" "k < 256" "k \<le> en_slots E1"
    "predictions (fv E1) [] (take k toks) = Some lgs"
    "\<forall>t \<in> set (take k toks). valid_token (en_m E1) t" "\<forall>t \<in> set (take k (tl toks)). valid_token (en_m E1) t"
    "run_steps tq_enc_sym3 (len_sym k # concat (map (\<lambda>(l, t). token_syms (en_vocab E1) l t) (zip lgs (map nat (take k (tl toks))))))
        (tq_ac_enc_init cap) = Some e"
    "\<not> e_overflow (snd (tq_ac_enc_finish e))" "se_e s' = snd (tq_ac_enc_finish e)"
    using sem_encode_ok [OF assms(1,3) pm(1) n(1) enc] by blast
  let ?lts = "zip lgs (map nat (take k (tl toks)))"
  let ?ss = "len_sym k # concat (map (\<lambda>(l, t). token_syms (en_vocab E1) l t) ?lts)"
  have tl: "k < length toks" using n(1) k(1) by simp
  have lg: "length lgs = k" using predictions_length [OF k(4)] tl by simp
  have good: "\<forall>lt \<in> set ?lts. tok_good (en_vocab E1) lt"
    by (rule good_zip [OF k(6)])
  note syms = token_stream_syms [OF pm(1) good]
  have ss: "\<forall>s \<in> set ?ss. sym_ok s" using syms(1) len_sym_ok [OF k(2)] by simp
  have sm: "2 * length ?ss + 5 < 2 ^ 64" using syms(2) lg k(2) tl by simp
  have "ac_encode cap ?ss = Some (se_e s')" using k(7,9) by (simp add: ac_encode_def)
  from ac_message_decodes [OF ss sm this] k(8,9)
  obtain d where d: "run_steps tq_dec_sym3 ?ss (tq_ac_dec_init (e_buf (se_e s'))) = Some d" by (auto simp: ac_decode_def)
  then obtain d0 where d0: "tq_dec_sym3 (tq_ac_dec_init (e_buf (se_e s'))) (len_sym k) = Some d0"
    "run_steps tq_dec_sym3 (concat (map (\<lambda>(l, t). token_syms (en_vocab E1) l t) ?lts)) d0 = Some d"
    by (auto split: option.splits)
  obtain d1 target where t: "tq_ac_dec_target (tq_ac_dec_init (e_buf (se_e s'))) TQ_AC_TOT = (d1, target)"
    "unat (target div SEM_LEN_FREQ) = k" "tq_ac_dec_update d1 ((target div SEM_LEN_FREQ) * SEM_LEN_FREQ) SEM_LEN_FREQ = Some d0"
    using len_sym_decodes [OF k(2) d0(1)] by blast
  have "pm_ok (en_vocab E1) pm2" using pm(2) same(2) by simp
  from dec_tok_stream [OF this good d0(2)]
  obtain pm' where pm': "run_steps dec_tok ?lts (d0, pm2) = Some (d, pm')" by blast
  let ?nx = "map nat (take k (tl toks))" and ?s = "\<lparr>sd_rt = rt2, sd_pm = pm2, sd_d = d0\<rparr>"
  have ni: "map int ?nx = take k (tl toks)"
    using k(6) by (auto simp: valid_token_def intro!: map_idI)
  have tt: "hd toks # take k (tl toks) = take (Suc k) toks" using tl by (cases toks) simp_all
  have fd: "butlast (hd toks # map int ?nx) = take k toks"
    unfolding ni tt using tl by (simp add: butlast_take)
  have len: "length ?nx = k" using tl by simp
  have slots: "k \<le> en_slots E2" using n(3) k(1) by linarith
  have pr: "predictions (fv E2) [] (take k toks) = Some lgs" using k(4) unfolding same .
  have "\<exists>s'. sem_decode_loop (length ?nx) [hd toks] ?s = Some (Inr ([hd toks] @ map int ?nx), s')"
    using assms(4) pr k(5) pm' slots len unfolding same(2)
    by (intro decode_loop_run [where E = E2 and hist = "[]" and lgs = lgs, OF assms(2)]) (simp_all only: fd sem_dec.simps last.simps simp_thms if_True list.size length_map, simp_all)
  then obtain sx where sx: "sem_decode_loop k [hd toks] ?s = Some (Inr (take (Suc k) toks), sx)"
    unfolding len ni by (auto simp: tt)
  have m: "m_hdr (rt_m rt2) = m_hdr (en_m E2)" using ready_fixed [OF assms(4)] by simp
  have w: "\<not> uint (target div SEM_LEN_FREQ) + 1 > max_tokens"
    using t(2) n(2) k(1) by (simp flip: unat_eq_nat_uint add: uint_nat)
  have nk: "nat n = Suc k" using k(1) by simp
  show ?thesis unfolding nk using sx w bos t m by (simp add: sem_decode_def Let_def)
qed

section \<open>Decoding bytes that nobody encoded\<close>

definition dec_live :: "tq_ac_dec \<Rightarrow> bool" where
  "dec_live d \<longleftrightarrow> 2 ^ 24 \<le> unat (d_range d)"

lemma dec_norm_live:
  assumes "0 < unat (d_range d)"
  shows "\<exists>d'. tq_ac_dec_norm d = Some d' \<and> dec_live d'"
proof -
  consider "2 ^ 24 \<le> unat (d_range d)" | "2 ^ 16 \<le> unat (d_range d)" "unat (d_range d) < 2 ^ 24"
    | "2 ^ 8 \<le> unat (d_range d)" "unat (d_range d) < 2 ^ 16" | "unat (d_range d) < 2 ^ 8"
    by linarith
  then show ?thesis
    using dec_norm_unroll [OF assms] assms
      dec_step_range [of d] dec_step_range [of "dec_step d"] dec_step_range [of "dec_step (dec_step d)"]
    by cases (simp_all add: norm_count_def funpow2 funpow3 dec_live_def)
qed

lemma dec_target_live:
  assumes "dec_live d" and "tq_ac_dec_target d TQ_AC_TOT = (d', t)" and "0 < unat f" and "unat f \<le> 2 ^ 16"
  shows "unat t < 2 ^ 16" and "\<exists>d1. tq_ac_dec_update d' c f = Some d1 \<and> dec_live d1"
proof -
  have d': "d_r d' = d_range d div TQ_AC_TOT" using assms(2) by (auto simp: tq_ac_dec_target_def Let_def)
  have q: "unat (d_range d div TQ_AC_TOT) = unat (d_range d) div 65536" by (simp add: unat_div sem_words(2))
  have u: "unat (d_range d) < 2 ^ 32" using unsigned_less [of "d_range d", where 'a = nat] by simp
  have lo: "256 \<le> unat (d_range d) div 65536"
    using assms(1) div_le_mono [of "2 ^ 24" "unat (d_range d)" 65536] by (simp add: dec_live_def)
  have "unat (d_range d) div 65536 * unat f \<le> unat (d_range d) div 65536 * 65536" using assms(4) by simp
  also have "\<dots> \<le> unat (d_range d)" by simp
  finally have hi: "unat (d_range d) div 65536 * unat f < 2 ^ 32" using u by linarith
  have "unat (d_r d' * f) = unat (d_range d) div 65536 * unat f"
    using hi unfolding d' by (simp add: unat_word_ariths(2) q)
  then have "0 < unat (d_r d' * f)" using lo assms(3) by simp
  then show "\<exists>d1. tq_ac_dec_update d' c f = Some d1 \<and> dec_live d1"
    unfolding tq_ac_dec_update_def by (intro dec_norm_live) simp
  show "unat t < 2 ^ 16"
    using assms(2) by (auto simp: tq_ac_dec_target_def Let_def sem_words(4) word_le_nat_alt split: if_splits)
qed

text \<open>Every target below the total falls into a symbol.\<close>

lemma find_total:
  assumes "table_ok cnt n" and "unat target < 2 ^ 16"
  shows "\<exists>s < n. \<exists>c. tq_ac_find cnt n target = (s, c)"
proof -
  have "\<exists>s < n. cum_nat cnt s \<le> unat target \<and> unat target < cum_nat cnt (Suc s)"
  proof -
    define P where "P = (\<lambda>s. unat target < cum_nat cnt s)"
    have n: "P n" using assms by (simp add: P_def table_ok_def cum_nat_def)
    have "\<not> P 0" by (simp add: P_def cum_nat_def)
    from ex_least_nat_less [where P = P, OF n this] show ?thesis by (auto simp: P_def not_less)
  qed
  then show ?thesis using find_value [OF assms(1)] by blast
qed

lemma table_entry: "table_ok cnt n \<Longrightarrow> i < n \<Longrightarrow> 0 < unat (cnt ! i) \<and> unat (cnt ! i) \<le> 2 ^ 16"
  using table_symbol [of cnt n i] by (simp add: sym_ok_def sem_words)

lemma dec_token_total:
  assumes pm: "pm_ok V pm" and d: "dec_live d"
  shows "\<exists>d' pm' tok. tq_ac_dec_token d pm logits = Some (d', pm', Inr tok) \<and> tok < V \<and> dec_live d' \<and> pm_ok V pm'"
proof -
  obtain pm1 where p1: "tq_ac_bucket_counts pm logits = Some pm1" "pm_ok V pm1"
    "pm_nbuckets pm1 = pm_nbuckets pm" "table_ok (pm_bcnt pm1) (pm_nbuckets pm)"
    using bucket_counts_value [OF pm] by blast
  obtain d1 t1 where t1: "tq_ac_dec_target d TQ_AC_TOT = (d1, t1)" by fastforce
  have "unat t1 < 2 ^ 16" using dec_target_live(1) [OF d t1, of 1] by simp
  then obtain b c1 where b: "b < pm_nbuckets pm" "tq_ac_find (pm_bcnt pm1) (pm_nbuckets pm) t1 = (b, c1)"
    using find_total [OF p1(4)] by blast
  obtain d2 where d2: "tq_ac_dec_update d1 c1 (pm_bcnt pm1 ! b) = Some d2" "dec_live d2"
    using dec_target_live(2) [OF d t1] table_entry [OF p1(4) b(1)] by blast
  have "b * 128 < V" using b(1) pm by (simp add: pm_ok_def ac_sizes)
  then have bs: "0 < bucket_size V b" by (simp add: bucket_size_def ac_sizes)
  obtain pm2 where p2: "tq_ac_symbol_counts pm1 logits b = Some pm2" "pm_ok V pm2" "table_ok (pm_scnt pm2) (bucket_size V b)"
    using symbol_counts_value [OF p1(2) bs] by blast
  have V: "pm_vocab pm2 = V" using p2(2) by (simp add: pm_ok_def)
  obtain d3 t2 where t2: "tq_ac_dec_target d2 TQ_AC_TOT = (d3, t2)" by fastforce
  have "unat t2 < 2 ^ 16" using dec_target_live(1) [OF d2(2) t2, of 1] by simp
  then obtain s c2 where s: "s < bucket_size V b" "tq_ac_find (pm_scnt pm2) (bucket_size V b) t2 = (s, c2)"
    using find_total [OF p2(3)] by blast
  obtain d4 where d4: "tq_ac_dec_update d3 c2 (pm_scnt pm2 ! s) = Some d4" "dec_live d4"
    using dec_target_live(2) [OF d2(2) t2] table_entry [OF p2(3) s(1)] by blast
  have n: "(if V - b * TQ_AC_BUCKET > TQ_AC_BUCKET then TQ_AC_BUCKET else V - b * TQ_AC_BUCKET) = bucket_size V b"
    by (simp add: bucket_size_def)
  have tok: "b * TQ_AC_BUCKET + s < V" using s(1) \<open>b * 128 < V\<close> by (auto simp: bucket_size_def ac_sizes split: if_splits)
  show ?thesis
    unfolding tq_ac_dec_token_def p1(1,3) option.case t1 prod.case Let_def b(2) d2(1) p2(1) V n t2 s(2) d4(1)
    using tok d4(2) p2(2) by simp
qed

lemma dec_init_live: "dec_live (tq_ac_dec_init inp)"
proof -
  have "d_range ((tq_ac_dec_load ^^ n) d) = d_range d" for n d
    by (induction n) (simp_all add: tq_ac_dec_load_def)
  then show ?thesis by (simp add: tq_ac_dec_init_def dec_live_def)
qed

text \<open>Whatever the bytes are: tokens of the vocabulary, or the context is too short.\<close>

lemma decode_loop_safe:
  assumes "env_ok E" and "rt_ready E hist (sd_rt s)" and "pm_ok (en_vocab E) (sd_pm s)" and "dec_live (sd_d s)"
    and "toks \<noteq> []" and "length hist = length toks - 1" and "\<forall>t \<in> set (tl toks). valid_token (en_m E) t"
    and "sem_decode_loop k toks s = Some (r, s')"
  shows "pm_ok (en_vocab E) (sd_pm s') \<and> (\<exists>h. rt_ready E h (sd_rt s'))
    \<and> (case r of Inl rc \<Rightarrow> rc = TQ_ERR_RANGE \<and> (en_slots E < length hist + k \<or> \<not> valid_token (en_m E) (last toks))
       | Inr ts \<Rightarrow> length ts = length toks + k \<and> take (length toks) ts = toks \<and> (\<forall>t \<in> set (tl ts). valid_token (en_m E) t))"
  using assms(2-8)
proof (induction k arbitrary: hist toks s)
  case (Suc k)
  have lt: "toks ! (length toks - 1) = last toks" using Suc.prems(4) by (simp add: last_conv_nth)
  obtain rc rt where f: "tq_forward (sd_rt s) (last toks) (int (length hist)) = Some (rc, rt)"
    using Suc.prems(5,7) lt by (auto split: option.splits)
  show ?case
    using forward_keeps [OF assms(1) Suc.prems(1) f]
  proof (elim disjE conjE exE)
    assume n: "\<not> (valid_token (en_m E) (last toks) \<and> length hist < en_slots E)" "rc = TQ_ERR_RANGE" "rt = sd_rt s"
    then have r: "r = Inl TQ_ERR_RANGE" "s' = s" using Suc.prems(5,7) f lt by auto
    then show ?thesis using n(1) Suc.prems(1,2) by auto
  next
    fix new
    assume a: "rc = TQ_OK" "valid_token (en_m E) (last toks)" "length hist < en_slots E" "rt_ready E (hist @ [new]) rt"
    obtain d' pm' tok where t: "tq_ac_dec_token (sd_d s) (sd_pm s) (rt_logits rt) = Some (d', pm', Inr tok)" "tok < en_vocab E"
      "dec_live d'" "pm_ok (en_vocab E) pm'"
      using dec_token_total [OF Suc.prems(2,3)] by blast
    have v: "valid_token (en_m E) (int tok)" using t(2) by (auto simp: valid_token_def)
    let ?s = "s\<lparr>sd_rt := rt, sd_pm := pm', sd_d := d'\<rparr>"
    have l: "sem_decode_loop k (toks @ [int tok]) ?s = Some (r, s')"
      using Suc.prems(5,7) f lt a(1) t(1) by simp
    have "pm_ok (en_vocab E) (sd_pm s') \<and> (\<exists>h. rt_ready E h (sd_rt s'))
      \<and> (case r of Inl rc \<Rightarrow> rc = TQ_ERR_RANGE \<and> (en_slots E < length (hist @ [new]) + k \<or> \<not> valid_token (en_m E) (last (toks @ [int tok])))
         | Inr ts \<Rightarrow> length ts = length (toks @ [int tok]) + k \<and> take (length (toks @ [int tok])) ts = toks @ [int tok]
             \<and> (\<forall>t \<in> set (tl ts). valid_token (en_m E) t))"
      using Suc.prems a t(3,4) v l by (intro Suc.IH [where s = ?s]) (auto simp: tl_append split: list.splits)
    moreover have "take (length toks) ts = toks" if "take (length (toks @ [int tok])) ts = toks @ [int tok]" for ts
      using arg_cong [OF that, of "take (length toks)"] by (simp add: min_def)
    ultimately show ?thesis using v by (auto split: sum.splits)
  qed
qed auto

section \<open>The encoder's outcomes\<close>

lemma enc_token_keeps:
  assumes "pm_ok V pm" and "tq_ac_enc_token e pm lg tok = Some (e', pm', rc)"
  shows "pm_ok V pm'"
proof (cases "tok < 0 \<or> int V \<le> tok")
  case True
  then show ?thesis using assms by (auto simp: tq_ac_enc_token_def pm_ok_def)
next
  case False
  then have "nat tok < V" "int (nat tok) = tok" by auto
  obtain pm1 where "pm_ok V pm1" "tq_ac_enc_token e pm lg (int (nat tok)) =
      map_option (\<lambda>e'. (e', pm1, TQ_OK)) (run_steps tq_enc_sym3 (token_syms V lg (nat tok)) e)"
    using enc_token_syms [OF assms(1) \<open>nat tok < V\<close>] by metis
  then show ?thesis using assms(2) \<open>int (nat tok) = tok\<close> by (auto simp: map_option_case split: option.splits)
qed

lemma encode_step_keeps:
  assumes "env_ok E" and "rt_ready E hist (se_rt s)" and "pm_ok (en_vocab E) (se_pm s)"
    and "sem_encode_step lm toks (length hist) s = Some (rc, s')"
  shows "pm_ok (en_vocab E) (se_pm s') \<and> (\<exists>h. rt_ready E h (se_rt s')) \<and> (rc = TQ_OK \<longrightarrow> (\<exists>new. rt_ready E (hist @ [new]) (se_rt s')))
    \<and> se_len s' = se_len s"
proof -
  obtain rc1 rt where f: "tq_forward (se_rt s) (toks ! length hist) (int (length hist)) = Some (rc1, rt)"
    using assms(4) by (auto simp: sem_encode_step_def Let_def split: option.splits)
  show ?thesis
    using forward_keeps [OF assms(1,2) f]
  proof (elim disjE conjE exE)
    fix new
    assume "rc1 = TQ_OK" "rt_ready E (hist @ [new]) rt"
    then show ?thesis
      using assms(4) f enc_token_keeps [OF assms(3)]
      by (auto simp: sem_encode_step_def Let_def split: option.splits if_splits prod.splits)
  next
    assume "rc1 = TQ_ERR_RANGE" "rt = se_rt s"
    then show ?thesis using assms(2-4) f by (auto simp: sem_encode_step_def)
  qed
qed

lemma encode_steps_keep:
  assumes "env_ok E" and "rt_ready E hist (se_rt s)" and "pm_ok (en_vocab E) (se_pm s)"
    and "run_ok (map (sem_encode_step lm toks) [length hist..<length hist + k]) s = Some (rc, s')"
  shows "pm_ok (en_vocab E) (se_pm s') \<and> (\<exists>h. rt_ready E h (se_rt s')) \<and> se_len s' = se_len s"
  using assms(2-4)
proof (induction k arbitrary: hist s)
  case (Suc k)
  have u: "[length hist..<length hist + Suc k] = length hist # [Suc (length hist)..<Suc (length hist) + k]"
    by (simp add: upt_rec)
  obtain rc1 s1 where s1: "sem_encode_step lm toks (length hist) s = Some (rc1, s1)"
    using Suc.prems(3) unfolding u by (auto split: option.splits)
  note keep = encode_step_keeps [OF assms(1) Suc.prems(1,2) s1]
  show ?case
  proof (cases "rc1 = TQ_OK")
    case True
    then obtain new where n: "rt_ready E (hist @ [new]) (se_rt s1)" using keep by blast
    have "run_ok (map (sem_encode_step lm toks) [length (hist @ [new])..<length (hist @ [new]) + k]) s1 = Some (rc, s')"
      using Suc.prems(3) s1 True unfolding u by simp
    from Suc.IH [OF n _ this] keep show ?thesis by simp
  next
    case False
    then show ?thesis using Suc.prems(3) s1 keep unfolding u by auto
  qed
qed auto

lemma encode_step_total:
  assumes "env_ok E" and "rt_ready E hist (se_rt s)" and "tok_ready (en_vocab E) (Suc k) (se_e s, se_pm s)"
    and "valid_token (en_m E) (toks ! length hist)" and "valid_token (en_m E) (toks ! (length hist + 1))" and "length hist < en_slots E"
  shows "case fv E hist (toks ! length hist) of
      None \<Rightarrow> sem_encode_step lm toks (length hist) s = None
    | Some (lg, new) \<Rightarrow> \<exists>s'. sem_encode_step lm toks (length hist) s = Some (TQ_OK, s') \<and> rt_ready E (hist @ [new]) (se_rt s')
        \<and> tok_ready (en_vocab E) k (se_e s', se_pm s') \<and> e_cap (se_e s') = e_cap (se_e s) \<and> se_len s' = se_len s"
proof -
  have r: "env_ok E \<and> rt_ready E hist (se_rt s)" using assms(1,2) by simp
  show ?thesis
  proof (cases "fv E hist (toks ! length hist)")
    case None
    then show ?thesis using fwd.step_none [OF r assms(6,4) None] by (simp add: sem_encode_step_def)
  next
    case (Some p)
    obtain lg new where p: "p = (lg, new)" by (cases p)
    obtain rt where rt: "tq_forward (se_rt s) (toks ! length hist) (int (length hist)) = Some (TQ_OK, rt)" "rt_logits rt = lg"
      "rt_ready E (hist @ [new]) rt"
      using fwd.step_some [OF r assms(6,4)] Some p by blast
    let ?t = "toks ! (length hist + 1)"
    have lg: "length lg = en_vocab E" "rt_m rt = en_m E"
      using rt(2,3) ready_fixed [OF rt(3)] by (simp_all add: rt_ready_def rt_fits_def)
    have v: "0 \<le> ?t" "?t < int (length lg)" "nat ?t < en_vocab E" using assms(5) lg(1) by (auto simp: valid_token_def)
    obtain bits where b: "sem_ideal lm lg (m_vocab_size (en_m E)) ?t = Some bits"
      using v(1,2) by (simp add: sem_ideal_def Let_def)
    have g: "tok_good (en_vocab E) (lg, nat ?t)" using v(3) by (simp add: tok_good_def)
    obtain st where st: "enc_tok (se_e s, se_pm s) (lg, nat ?t) = Some st" using tok_coder.enc_returns [OF assms(3) g] by blast
    obtain e pm where e: "st = (e, pm)" by (cases st)
    have tr: "tok_ready (en_vocab E) k (e, pm)" using tok_coder.ready_step [OF assms(3) g] st e by simp
    have pmv: "pm_ok (en_vocab E) (se_pm s)" using assms(3) by (simp add: tok_ready_def)
    have run: "run_steps tq_enc_sym3 (token_syms (en_vocab E) lg (nat ?t)) (se_e s) = Some e"
      using enc_tok_run(1) [OF pmv v(3)] st e by simp
    have cap: "e_cap e = e_cap (se_e s)"
      using enc_run_keeps [OF run _ token_syms_ok [OF pmv v(3)]] assms(3) by (simp add: tok_ready_def enc_ready_def)
    obtain pm1 where "tq_ac_enc_token (se_e s) (se_pm s) lg (int (nat ?t)) =
        map_option (\<lambda>e'. (e', pm1, TQ_OK)) (run_steps tq_enc_sym3 (token_syms (en_vocab E) lg (nat ?t)) (se_e s))"
      using enc_token_syms [OF pmv v(3)] by metis
    then have "tq_ac_enc_token (se_e s) (se_pm s) lg ?t = Some (e, pm, TQ_OK)"
      using run st v(1) e by (simp add: enc_tok_def)
    then show ?thesis
      using rt b tr cap p by (simp add: Some sem_encode_step_def lg(2) Let_def)
  qed
qed

lemma encode_steps_total:
  assumes "env_ok E" and "rt_ready E hist (se_rt s)" and "tok_ready (en_vocab E) k (se_e s, se_pm s)"
    and "\<forall>j. length hist \<le> j \<and> j \<le> length hist + k \<longrightarrow> valid_token (en_m E) (toks ! j)" and "length hist + k \<le> en_slots E"
  shows "case predictions (fv E) hist (map ((!) toks) [length hist..<length hist + k]) of
      None \<Rightarrow> run_ok (map (sem_encode_step lm toks) [length hist..<length hist + k]) s = None
    | Some _ \<Rightarrow> \<exists>s'. run_ok (map (sem_encode_step lm toks) [length hist..<length hist + k]) s = Some (TQ_OK, s')"
  using assms(2-5)
proof (induction k arbitrary: hist s)
  case (Suc k)
  have u: "[length hist..<length hist + Suc k] = length hist # [Suc (length hist)..<Suc (length hist) + k]"
    by (simp add: upt_rec)
  have v: "valid_token (en_m E) (toks ! length hist)" "valid_token (en_m E) (toks ! (length hist + 1))" "length hist < en_slots E"
    using Suc.prems(3,4) by auto
  note one = encode_step_total [OF assms(1) Suc.prems(1,2) v, of lm]
  show ?case
  proof (cases "fv E hist (toks ! length hist)")
    case None
    then show ?thesis using one unfolding u by simp
  next
    case (Some p)
    obtain lg new where p: "p = (lg, new)" by (cases p)
    obtain s1 where s1: "sem_encode_step lm toks (length hist) s = Some (TQ_OK, s1)" "rt_ready E (hist @ [new]) (se_rt s1)"
      "tok_ready (en_vocab E) k (se_e s1, se_pm s1)"
      using one Some p by auto
    have "case predictions (fv E) (hist @ [new]) (map ((!) toks) [length (hist @ [new])..<length (hist @ [new]) + k]) of
      None \<Rightarrow> run_ok (map (sem_encode_step lm toks) [length (hist @ [new])..<length (hist @ [new]) + k]) s1 = None
    | Some _ \<Rightarrow> \<exists>s'. run_ok (map (sem_encode_step lm toks) [length (hist @ [new])..<length (hist @ [new]) + k]) s1 = Some (TQ_OK, s')"
      using Suc.prems(3,4) by (intro Suc.IH s1(2,3)) auto
    then show ?thesis using s1(1) Some p unfolding u by (auto split: option.splits)
  qed
qed simp

text \<open>With four bytes of room for each token and two more, encoding succeeds wherever the model is defined.\<close>

lemma encode_total:
  assumes "env_ok E" and "rt_ready E [] (se_rt s)" and "pm_ok (en_vocab E) (se_pm s)"
    and "1 \<le> n" and "n \<le> 256" and "n \<le> int (length toks)" and "nat n \<le> Suc (en_slots E)"
    and "\<forall>t \<in> set (take (nat n) toks). valid_token (en_m E) t" and "4 * nat n + 2 \<le> cap"
  shows "case predictions (fv E) [] (take (nat n - 1) toks) of
      None \<Rightarrow> sem_encode lm toks n cap s = None
    | Some _ \<Rightarrow> \<exists>s'. sem_encode lm toks n cap s = Some (TQ_OK, s') \<and> se_len s' \<le> 4 * nat n"
proof -
  define k where "k = nat n - 1"
  have k: "n - 1 = int k" "nat n - 1 = k" "nat n = Suc k" "k < 256" "k \<le> en_slots E" "k < length toks" using assms(4-7) by (auto simp: k_def)
  have r: "\<not> (n < 1 \<or> n - 1 \<ge> SEM_LEN_SYMBOLS)" using assms(4,5) by (simp add: SEM_LEN_SYMBOLS_def)
  have rd: "enc_ready (Suc (2 * k)) (tq_ac_enc_init cap)" using k(4) by (intro enc_ready_init) simp
  note ok = len_sym_ok [OF k(4)]
  obtain e0 where e0: "tq_enc_sym3 (tq_ac_enc_init cap) (len_sym k) = Some e0" using ac_coder.enc_returns [OF rd ok] by blast
  have rd0: "enc_ready (2 * k) e0" by (rule enc_sym_ready [OF rd ok e0])
  let ?s = "s\<lparr>se_e := e0, se_ideal := 0, se_charged := 0, se_term := f64_of_int 8\<rparr>"
  have tr: "tok_ready (en_vocab E) k (se_e ?s, se_pm ?s)" using rd0 assms(3) by (simp add: tok_ready_def)
  have v: "\<forall>j. length [] \<le> j \<and> j \<le> length [] + k \<longrightarrow> valid_token (en_m E) (toks ! j)"
    using assms(8) k(3,6) nth_mem [of _ "take (Suc k) toks"] by auto
  have l: "map ((!) toks) [0..<k] = take k toks" using k(6) by (intro nth_equalityI) simp_all
  note tot = encode_steps_total [OF assms(1) _ tr v, of lm, simplified, OF assms(2) k(5), unfolded l]
  have body: "sem_encode lm toks n cap s =
      (case run_ok (map (sem_encode_step lm toks) [0..<k]) ?s of
         None \<Rightarrow> None
       | Some (rc, s) \<Rightarrow>
           if rc \<noteq> TQ_OK then Some (rc, s)
           else let (len, e) = tq_ac_enc_finish (se_e s)
                in Some (if e_overflow e then TQ_ERR_NOMEM else TQ_OK, s\<lparr>se_e := e, se_len := len\<rparr>))"
    using e0 unfolding sem_encode_def if_not_P [OF r] unfolding k(1,2) tq_enc_sym3_def len_sym_def prod.case by (simp only: option.case)
  show ?thesis
  proof (cases "predictions (fv E) [] (take k toks)")
    case None
    then show ?thesis using tot unfolding k(2) body by simp
  next
    case (Some lgs)
    then obtain s1 where s1: "run_ok (map (sem_encode_step lm toks) [0..<k]) ?s = Some (TQ_OK, s1)" using tot by auto
    have lg: "length lgs = k" using predictions_length [OF Some] k(6) by simp
    let ?ts = "take k (tl toks)"
    have l2: "map (\<lambda>j. nat (toks ! Suc j)) [0..<k] = map nat ?ts" using k(6) by (intro nth_equalityI) (simp_all add: nth_tl)
    have run: "run_steps enc_tok (zip lgs (map nat ?ts)) (e0, se_pm s) = Some (se_e s1, se_pm s1)"
      using encode_steps_ok [of E "[]" ?s lm toks k s1] assms(1-3) s1 Some by (simp add: l l2)
    have vt: "\<forall>t \<in> set ?ts. valid_token (en_m E) t" using v k(6) by (auto simp: in_set_conv_nth nth_tl)
    note good = good_zip [OF vt, of lgs]
    note syms = token_stream_syms [OF assms(3) good]
    let ?ss = "len_sym k # concat (map (\<lambda>(l, t). token_syms (en_vocab E) l t) (zip lgs (map nat ?ts)))"
    have ss: "\<forall>s \<in> set ?ss. sym_ok s" using syms(1) ok by simp
    have len: "length ?ss = 2 * k + 1" using syms(2) lg k(6) by simp
    have all: "run_steps tq_enc_sym3 ?ss (tq_ac_enc_init cap) = Some (se_e s1)"
      using enc_tok_stream [OF assms(3) run good] e0 by simp
    have er: "enc_ready (length ?ss) (tq_ac_enc_init cap)" using rd len by simp
    have i: "enc_clean (tq_ac_enc_init cap)" "enc_shifts (tq_ac_enc_init cap) = 0" "e_cap (tq_ac_enc_init cap) = cap"
      "\<not> e_finished (tq_ac_enc_init cap)" "2 ^ 24 \<le> unat (e_range (tq_ac_enc_init cap))"
      by (simp_all add: enc_clean_def tq_ac_enc_init_def enc_shifts_def)
    have room: "enc_clean (se_e s1) \<and> enc_shifts (se_e s1) \<le> 0 + 2 * length ?ss"
      using enc_run_room [OF er ss i(1) _ all] assms(9) k(3) len i(2,3) by simp
    have keep: "e_cap (se_e s1) = cap" "\<not> e_finished (se_e s1)" using enc_run_keeps [OF all i(5) ss] i(3,4) by simp_all
    have z: "enc_ready 0 (se_e s1)" using ready_run [OF _ ss all, of 0] er by simp
    have o: "\<not> e_overflow (snd (tq_ac_enc_finish (se_e s1)))"
      using z room keep assms(9) k(3) len by (intro finish_room) (simp_all add: enc_ready_def enc_clean_def)
    have "fst (tq_ac_enc_finish (se_e s1)) \<le> 4 * nat n"
      using enc_ready_finish(3) [OF z keep(2) o] room len k(3) by (simp add: finish_length)
    then show ?thesis using Some s1 o unfolding k(2) body by (auto split: prod.split)
  qed
qed

section \<open>The hexadecimal wire\<close>

lemma hex_char_value:
  assumes "d < 16"
  shows "tq_hexval (hex_char d) = int d" "\<not> is_space (hex_char d)" "hex_char d \<noteq> 43" "hex_char d \<noteq> 45"
    "hex_char d \<noteq> 120" "hex_char d \<noteq> 88"
proof -
  have "\<forall>d \<in> set [0..<16]. tq_hexval (hex_char d) = int d \<and> \<not> is_space (hex_char d) \<and> hex_char d \<noteq> 43 \<and> hex_char d \<noteq> 45
      \<and> hex_char d \<noteq> 120 \<and> hex_char d \<noteq> 88"
    by code_simp
  then show "tq_hexval (hex_char d) = int d" "\<not> is_space (hex_char d)" "hex_char d \<noteq> 43" "hex_char d \<noteq> 45"
    "hex_char d \<noteq> 120" "hex_char d \<noteq> 88"
    using assms by simp_all
qed

lemma scan_byte: "scan_2x (hex_byte b @ rest) = Some (ucast b)"
proof -
  have b: "unat b < 256" using unat8_less [of b] by simp
  have h: "unat b div 16 < 16" "unat b mod 16 < 16" using b by (simp_all add: less_mult_imp_div_less)
  have "16 * int (unat b div 16) + int (unat b mod 16) = int (unat b)"
    by (metis mult_div_mod_eq of_nat_add of_nat_mult of_nat_numeral)
  then have "word_of_int (16 * int (unat b div 16) + int (unat b mod 16)) = (ucast b :: u32)"
    by simp
  then show ?thesis
    using hex_char_value [OF h(1)] hex_char_value [OF h(2)] by (simp add: hex_byte_def Let_def)
qed

lemma scan_hex_bytes: "length bs \<le> room \<Longrightarrow> scan_hex room (hex_bytes bs) = bs"
proof (induction bs arbitrary: room)
  case (Cons b bs)
  obtain c d where h: "hex_byte b = [c, d]" by (simp add: hex_byte_def)
  have "scan_2x (c # d # hex_bytes bs) = Some (ucast b)" using scan_byte [of b "hex_bytes bs"] by (simp add: h)
  moreover have "ucast (ucast b :: u32) = b" by (simp add: ucast_down_ucast_id is_down)
  ultimately show ?case using Cons by (simp add: hex_bytes_def h)
qed (simp add: hex_bytes_def)

section \<open>Printing\<close>

lemma printed_list: "0 \<notin> set p \<Longrightarrow> printed (p @ 0 # q) = p"
  by (simp add: printed_def takeWhile_append2 takeWhile_tail) (metis takeWhile_eq_all_conv)

lemma print_tokens_text:
  assumes "tables_ok t" and "\<forall>x. in_vocab t x \<longrightarrow> length (tok_str t x) < ob" and "2 \<le> ob"
    and "\<forall>x \<in> set xs. in_vocab t x" and "0 \<notin> set (decode_text t ob prev xs)" and "length out = ob"
  shows "print_tokens t out prev xs = Some (decode_text t ob prev xs)"
  using assms(4-6)
proof (induction xs arbitrary: prev out)
  case (Cons x xs)
  define p where "p = strip_space t prev (tok_str t x)"
  have v: "in_vocab t x" using Cons.prems(1) by simp
  have l: "length p < ob" using assms(2) v by (auto simp: p_def strip_space_def intro: le_less_trans)
  have d: "decoded t ob prev x = surface p" using decoded_surface [OF assms(1) v _ assms(3)] assms(2) v by (simp add: p_def)
  have nz: "0 \<notin> set (surface p)" using Cons.prems(2) d by simp
  have lo: "2 \<le> length out" using assms(3) Cons.prems(3) by simp
  have val: "tq_decode t prev x out =
      (if byte_form p then Inr (1, out[0 := hd (surface p), 1 := 0]) else Inr (length p, p @ 0 # drop (length p + 1) out))"
  proof -
    have "min (length p) (length out - 1) = length p" using l Cons.prems(3) by simp
    then show ?thesis using decode_value [OF assms(1) v lo, of prev] by (simp add: p_def [symmetric] Let_def)
  qed
  obtain out' n where r: "tq_decode t prev x out = Inr (n, out')" "printed out' = surface p" "length out' = ob"
  proof (cases "byte_form p")
    case True
    obtain a b q where o: "out = a # b # q" using lo by (cases out; cases "tl out") auto
    obtain c where c: "surface p = [c]" using True by (simp add: surface_def)
    have "printed (c # 0 # q) = [c]" using nz c by (simp add: printed_def)
    then show ?thesis using that val True o c Cons.prems(3) by simp
  next
    case False
    then have "surface p = p" by (simp add: surface_def)
    then show ?thesis using that val False nz printed_list l Cons.prems(3) by simp
  qed
  have "print_tokens t out' x xs = Some (decode_text t ob x xs)"
    using Cons.prems r(3) by (intro Cons.IH) simp_all
  then show ?case using r d by simp
qed simp

section \<open>The modes\<close>

text \<open>The tool is between two messages: its runtime may hold anything that a decode step left.\<close>

definition tool_ok :: "fw_env \<Rightarrow> 'c sem_tool \<Rightarrow> bool" where
  "tool_ok E t \<longleftrightarrow> env_ok E \<and> rt_ready E [] (tl_rt t) \<and> pm_ok (en_vocab E) (tl_pm t)
     \<and> tk_m (tl_tok t) = en_m E \<and> tk_vocab_size (tl_tok t) = m_vocab_size (en_m E)"

text \<open>The vocabulary spells the text, and every piece fits the buffer of 64 bytes.\<close>

definition spells_text :: "tq_tokenizer \<Rightarrow> u8 list \<Rightarrow> bool" where
  "spells_text t inp \<longleftrightarrow> encoder_ok t \<and> plain_vocab t inp \<and> in_vocab t (tk_bos t)
     \<and> (\<forall>x. in_vocab t x \<longrightarrow> length (tok_str t x) < 64) \<and> 0 \<notin> set inp"

lemma sem_encode_keeps:
  assumes "env_ok E" and "rt_ready E [] (se_rt s)" and "pm_ok (en_vocab E) (se_pm s)"
    and "sem_encode lm toks n cap s = Some (rc, s')"
  shows "pm_ok (en_vocab E) (se_pm s') \<and> rt_ready E [] (se_rt s')"
proof (cases "n < 1 \<or> n - 1 \<ge> SEM_LEN_SYMBOLS")
  case True
  then show ?thesis using assms by (auto simp: sem_encode_def)
next
  case False
  obtain e where e: "tq_ac_enc_sym (tq_ac_enc_init cap) (word_of_int (n - 1) * SEM_LEN_FREQ) SEM_LEN_FREQ TQ_AC_TOT = Some e"
    using assms(4) unfolding sem_encode_def if_not_P [OF False]
    by (cases "tq_ac_enc_sym (tq_ac_enc_init cap) (word_of_int (n - 1) * SEM_LEN_FREQ) SEM_LEN_FREQ TQ_AC_TOT") simp_all
  let ?s = "s\<lparr>se_e := e, se_ideal := 0, se_charged := 0, se_term := f64_of_int 8\<rparr>"
  note body = assms(4) [unfolded sem_encode_def if_not_P [OF False] e option.case]
  obtain rc1 s1 where s1: "run_ok (map (sem_encode_step lm toks) [0..<nat n - 1]) ?s = Some (rc1, s1)"
    using body by (cases "run_ok (map (sem_encode_step lm toks) [0..<nat n - 1]) ?s") auto
  have k: "pm_ok (en_vocab E) (se_pm s1)" "rt_ready E [] (se_rt s1)"
    using encode_steps_keep [of E "[]" ?s lm toks "nat n - 1" rc1 s1] assms(1-3) s1 ready_nil by auto
  show ?thesis using body [unfolded s1 option.case prod.case] k by (auto split: if_splits prod.splits)
qed

text \<open>Decoding any bytes at all.\<close>

lemma sem_decode_outcome:
  assumes "env_ok E" and "rt_ready E [] rt" and "pm_ok (en_vocab E) pm" and "sem_decode inp max_tokens rt pm = Some (r, s')"
  shows "pm_ok (en_vocab E) (sd_pm s') \<and> rt_ready E [] (sd_rt s')
    \<and> (case r of
         Inl rc \<Rightarrow> rc = TQ_ERR_NOMEM \<or> rc = TQ_ERR_RANGE
       | Inr ts \<Rightarrow> 1 \<le> length ts \<and> length ts \<le> 256 \<and> int (length ts) \<le> max_tokens
           \<and> hd ts = sint (h_bos_token (m_hdr (en_m E))) \<and> (\<forall>t \<in> set (tl ts). valid_token (en_m E) t))"
proof -
  obtain d target where t: "tq_ac_dec_target (tq_ac_dec_init inp) TQ_AC_TOT = (d, target)" by fastforce
  let ?w = "target div SEM_LEN_FREQ"
  note live = dec_target_live [OF dec_init_live t]
  have ub: "unat ?w < 256"
    using live(1) [of 1] by (simp add: unat_div sem_words(1) less_mult_imp_div_less)
  obtain d1 where d1: "tq_ac_dec_update d (?w * SEM_LEN_FREQ) SEM_LEN_FREQ = Some d1" "dec_live d1"
    using live(2) [of SEM_LEN_FREQ "?w * SEM_LEN_FREQ"] by (auto simp: sem_words(1))
  let ?s = "\<lparr>sd_rt = rt, sd_pm = pm, sd_d = d1\<rparr>" and ?bos = "sint (h_bos_token (m_hdr (en_m E)))"
  have m: "rt_m rt = en_m E" using ready_fixed [OF assms(2)] by simp
  have body: "sem_decode inp max_tokens rt pm =
      (if uint ?w + 1 > max_tokens then Some (Inl TQ_ERR_NOMEM, ?s) else sem_decode_loop (unat ?w) [?bos] ?s)"
    by (simp add: sem_decode_def t d1(1) m Let_def)
  show ?thesis
  proof (cases "uint ?w + 1 > max_tokens")
    case True
    then show ?thesis using assms by (auto simp: body)
  next
    case False
    then have l: "sem_decode_loop (unat ?w) [?bos] ?s = Some (r, s')" using assms(4) by (simp add: body)
    note safe = decode_loop_safe [where s = ?s and hist = "[]" and toks = "[?bos]", OF assms(1) _ _ _ _ _ _ l]
    have keep: "pm_ok (en_vocab E) (sd_pm s')" "\<exists>h. rt_ready E h (sd_rt s')"
      using safe assms(2,3) d1(2) by simp_all
    have keep: "pm_ok (en_vocab E) (sd_pm s')" "rt_ready E [] (sd_rt s')" using keep ready_nil by blast+
    show ?thesis
    proof (cases r)
      case (Inl rc)
      then show ?thesis using safe keep assms(2,3) d1(2) by simp
    next
      case (Inr ts)
      then have ts: "length ts = Suc (unat ?w)" "take 1 ts = [?bos]" "\<forall>t \<in> set (tl ts). valid_token (en_m E) t"
        using safe assms(2,3) d1(2) by simp_all
      have "hd ts = ?bos" using ts(2) by (cases ts) simp_all
      moreover have "uint ?w = int (unat ?w)" by (rule uint_nat)
      then have "int (Suc (unat ?w)) \<le> max_tokens" using False by linarith
      ultimately show ?thesis using Inr keep ts ub by simp
    qed
  qed
qed

section \<open>Messages\<close>

lemma wire_is_buffer:
  assumes "env_ok E" and "rt_ready E [] (se_rt s)" and "pm_ok (en_vocab E) (se_pm s)" and "n \<le> int (length toks)"
    and "sem_encode lm toks n cap s = Some (TQ_OK, s')"
  shows "take (se_len s') (e_buf (se_e s')) = e_buf (se_e s')" and "1 \<le> n" "n \<le> 256" "nat n \<le> Suc (en_slots E)"
proof -
  obtain k e where k: "n = int (Suc k)" "k < 256" "k \<le> en_slots E" "se_e s' = snd (tq_ac_enc_finish e)" "se_len s' = fst (tq_ac_enc_finish e)"
    using sem_encode_ok [OF assms] by blast
  then show "nat n \<le> Suc (en_slots E)" "1 \<le> n" "n \<le> 256" by simp_all
  show "take (se_len s') (e_buf (se_e s')) = e_buf (se_e s')" by (simp add: k finish_length)
qed

lemma wire_length:
  assumes "env_ok E" and "rt_ready E [] (se_rt s)" and "pm_ok (en_vocab E) (se_pm s)" and "n \<le> int (length toks)"
    and "\<forall>t \<in> set (take (nat n) toks). valid_token (en_m E) t" and "4 * nat n + 2 \<le> cap"
    and "sem_encode lm toks n cap s = Some (TQ_OK, s')"
  shows "length (e_buf (se_e s')) \<le> 4 * nat n"
proof -
  note w = wire_is_buffer [OF assms(1-4,7)]
  have "se_len s' \<le> 4 * nat n"
    using encode_total [OF assms(1-3) w(2,3) assms(4) w(4) assms(5,6), of lm] assms(7) by (auto split: option.splits)
  moreover obtain e where "se_e s' = snd (tq_ac_enc_finish e)" "se_len s' = fst (tq_ac_enc_finish e)"
    using sem_encode_ok [OF assms(1-4,7)] by blast
  ultimately show ?thesis by (simp add: finish_length)
qed

text \<open>A message on the host: what was coded is decoded, and the wire fits.\<close>

lemma message_verified:
  assumes t: "tool_ok E t" and inp: "spells_text (tl_tok t) inp" and m: "do_message lm defl secs inp t = Some (rc, r, wire, t')"
  shows "tool_ok E t' \<and> tl_tok t' = tl_tok t
    \<and> (rc = 1 \<and> wire = [] \<or>
       rc = 0 \<and> mr_ok r \<and> mr_tokens r \<le> 256 \<and> nat (mr_tokens r) \<le> Suc (en_slots E) \<and> mr_wire r = length wire \<and> int (length wire) \<le> 4 * mr_tokens r
       \<and> (\<exists>toks. tq_encode (tl_tok t) inp True False MAX_MSG_TOKENS = Inr toks \<and>
            (\<forall>E2 (rt2 :: 'd tq_runtime) pm2 max_tokens. env_ok E2 \<and> rt_ready E2 [] rt2 \<and> en_img E2 = en_img E \<and> en_m E2 = en_m E \<and> en_kv E2 = en_kv E \<and>
              pm_ok (en_vocab E2) pm2 \<and> mr_tokens r \<le> max_tokens \<and> nat (mr_tokens r) \<le> Suc (en_slots E2) \<longrightarrow>
              (\<exists>d. sem_decode wire max_tokens rt2 pm2 = Some (Inr toks, d)))))"
proof -
  let ?t = "tl_tok t"
  have ok: "env_ok E" "rt_ready E [] (tl_rt t)" "pm_ok (en_vocab E) (tl_pm t)" "tk_m ?t = en_m E" "tk_vocab_size ?t = m_vocab_size (en_m E)"
    using t by (simp_all add: tool_ok_def)
  have sp: "encoder_ok ?t" "plain_vocab ?t inp" "in_vocab ?t (tk_bos ?t)" "\<forall>x. in_vocab ?t x \<longrightarrow> length (tok_str ?t x) < 64"
    using inp by (simp_all add: spells_text_def)
  note out = encode_outcome [OF sp(1), where add_bos = True and max_tokens = MAX_MSG_TOKENS and inp = inp and add_eos = False]
  show ?thesis
  proof (cases "tq_encode ?t inp True False MAX_MSG_TOKENS")
    case (Inl e)
    then have "e = Status TQ_ERR_NOMEM" using out sp(3) by (simp add: MAX_MSG_TOKENS_def)
    then have "rc = 1 \<and> wire = [] \<and> t' = t" using m Inl by (auto simp: do_message_def Let_def)
    then show ?thesis using t by simp
  next
    case (Inr toks)
    have vt: "\<forall>x \<in> set toks. valid_token (en_m E) x"
      using out sp(3) ok(5) Inr by (simp add: MAX_MSG_TOKENS_def in_vocab_def valid_token_def)
    obtain rest where bos: "toks = tk_bos ?t # rest" using text_survives [OF sp(1-4) _ Inr] by auto
    let ?s = "\<lparr>se_rt = tl_rt t, se_pm = tl_pm t, se_e = tq_ac_enc_init MAX_WIRE, se_len = 0, se_ideal = 0, se_charged = 0, se_term = 0\<rparr>"
    let ?n = "int (length toks)"
    obtain rc1 s where s: "sem_encode lm toks ?n MAX_WIRE ?s = Some (rc1, s)"
      using m Inr by (cases "sem_encode lm toks ?n MAX_WIRE ?s") (auto simp: do_message_def Let_def)
    have sk: "pm_ok (en_vocab E) (se_pm s)" "rt_ready E [] (se_rt s)"
      using sem_encode_keeps [OF ok(1) _ _ s] ok(2,3) by simp_all
    show ?thesis
    proof (cases "rc1 = TQ_OK")
      case False
      then have "rc = 1" "wire = []" "t' = t\<lparr>tl_rt := se_rt s, tl_pm := se_pm s\<rparr>" using m Inr s by (auto simp: do_message_def Let_def)
      then show ?thesis using sk ok by (simp add: tool_ok_def)
    next
      case True
      note enc = s [unfolded True]
      have pre: "rt_ready E [] (se_rt ?s)" "pm_ok (en_vocab E) (se_pm ?s)" "?n \<le> int (length toks)" using ok(2,3) by simp_all
      note w = wire_is_buffer [OF ok(1) pre enc]
      have len: "length (e_buf (se_e s)) \<le> 4 * length toks"
        using wire_length [OF ok(1) pre _ _ enc] vt w(3) by (simp add: MAX_WIRE_def)
      have hd: "hd toks = sint (h_bos_token (m_hdr (en_m E)))" by (simp add: bos tk_bos_def ok(4))
      have dec: "\<exists>d. sem_decode (e_buf (se_e s)) max_tokens rt2 pm2 = Some (Inr toks, d)"
        if "env_ok E2" "rt_ready E2 [] rt2" "en_img E2 = en_img E" "en_m E2 = en_m E" "en_kv E2 = en_kv E" "pm_ok (en_vocab E2) pm2"
          "?n \<le> max_tokens" "nat ?n \<le> Suc (en_slots E2)" for E2 pm2 max_tokens and rt2 :: "'d tq_runtime"
        using message_decodes [OF ok(1) that(1) pre(1) that(2) _ _ _ pre(2) that(6) pre(3) that(7,8) _ enc] that(3-5) hd by simp
      obtain d where d: "sem_decode (e_buf (se_e s)) MAX_MSG_TOKENS (se_rt s) (se_pm s) = Some (Inr toks, d)"
        using message_decodes [OF ok(1) ok(1) pre(1) sk(2) refl refl refl pre(2) sk(1) pre(3) _ _ hd enc, of MAX_MSG_TOKENS] w(3,4)
        by (auto simp: MAX_MSG_TOKENS_def)
      have dk: "pm_ok (en_vocab E) (sd_pm d)" "rt_ready E [] (sd_rt d)" using sem_decode_outcome [OF ok(1) sk(2,1) d] by simp_all
      have r: "rc = 0" "wire = e_buf (se_e s)" "mr_ok r" "mr_tokens r = ?n" "mr_wire r = se_len s" "t' = t\<lparr>tl_rt := sd_rt d, tl_pm := sd_pm d\<rparr>"
        using m Inr s True d w(1) by (auto simp: do_message_def Let_def)
      have l: "se_len s = length wire" using sem_encode_ok [OF ok(1) pre enc] r(2) by (auto simp: finish_length)
      have "\<forall>E2 (rt2 :: 'd tq_runtime) pm2 max_tokens. env_ok E2 \<and> rt_ready E2 [] rt2 \<and> en_img E2 = en_img E \<and> en_m E2 = en_m E \<and> en_kv E2 = en_kv E \<and>
              pm_ok (en_vocab E2) pm2 \<and> mr_tokens r \<le> max_tokens \<and> nat (mr_tokens r) \<le> Suc (en_slots E2) \<longrightarrow>
              (\<exists>d. sem_decode wire max_tokens rt2 pm2 = Some (Inr toks, d))"
        unfolding r(2,4) by (intro allI impI, elim conjE, rule dec)
      moreover have "tool_ok E t'" "tl_tok t' = tl_tok t" using ok dk by (simp_all add: tool_ok_def r(6))
      moreover have "mr_tokens r \<le> 256" "nat (mr_tokens r) \<le> Suc (en_slots E)" "int (length wire) \<le> 4 * mr_tokens r"
        using w(3,4) len by (simp_all add: r)
      moreover have "mr_wire r = length wire" using r(5) l by simp
      ultimately show ?thesis using r(1,3) Inr by (intro conjI disjI2 exI [of _ toks]) assumption+
    qed
  qed
qed

text \<open>The other end prints the text.\<close>

lemma message_read:
  assumes t: "tool_ok E t" and inp: "spells_text (tl_tok t) inp" and m: "do_message lm defl secs inp t = Some (0, r, wire, t')"
    and t2: "tool_ok E2 t2" "en_img E2 = en_img E" "en_m E2 = en_m E" "en_kv E2 = en_kv E" "tl_tok t2 = tl_tok t"
    and room: "nat (mr_tokens r) \<le> Suc (en_slots E2)" and buf: "length buf = 64"
  shows "\<exists>t2'. do_decode buf (hex_bytes wire) t2 = Some (0, inp @ cstr ''\<newline>'', t2') \<and> tool_ok E2 t2'"
proof -
  let ?t = "tl_tok t"
  have ok2: "env_ok E2" "rt_ready E2 [] (tl_rt t2)" "pm_ok (en_vocab E2) (tl_pm t2)" using t2(1) by (simp_all add: tool_ok_def)
  have sp: "encoder_ok ?t" "plain_vocab ?t inp" "in_vocab ?t (tk_bos ?t)" "\<forall>x. in_vocab ?t x \<longrightarrow> length (tok_str ?t x) < 64" "0 \<notin> set inp"
    using inp by (simp_all add: spells_text_def)
  have tab: "tables_ok ?t" using sp(1) by (simp add: encoder_ok_def)
  note v = message_verified [OF t inp m]
  have len: "length wire \<le> MAX_WIRE" "mr_tokens r \<le> MAX_MSG_TOKENS" using v by (auto simp: MAX_WIRE_def MAX_MSG_TOKENS_def)
  obtain toks d where d: "tq_encode ?t inp True False MAX_MSG_TOKENS = Inr toks" "sem_decode wire MAX_MSG_TOKENS (tl_rt t2) (tl_pm t2) = Some (Inr toks, d)"
    using v ok2 t2(2-4) room len(2) by (metis zero_neq_one)
  obtain rest where bos: "toks = tk_bos ?t # rest" "decode_text ?t 64 (tk_bos ?t) rest = inp" using text_survives [OF sp(1-4) _ d(1)] by auto
  have "\<forall>x \<in> set rest. in_vocab ?t x"
    using encode_outcome [OF sp(1), where add_bos = True and max_tokens = MAX_MSG_TOKENS and inp = inp and add_eos = False] sp(3) d(1) bos(1) by (simp add: MAX_MSG_TOKENS_def)
  then have "print_tokens ?t buf (tk_bos ?t) rest = Some inp"
    using print_tokens_text [OF tab sp(4), of rest "tk_bos ?t" buf] bos(2) sp(5) buf by simp
  then have p: "print_text (tl_tok t2) buf toks = Some (inp @ cstr ''\<newline>'')" by (simp add: print_text_def bos(1) t2(5))
  have k: "pm_ok (en_vocab E2) (sd_pm d)" "rt_ready E2 [] (sd_rt d)" using sem_decode_outcome [OF ok2 d(2)] by simp_all
  have "do_decode buf (hex_bytes wire) t2 = Some (0, inp @ cstr ''\<newline>'', t2\<lparr>tl_rt := sd_rt d, tl_pm := sd_pm d\<rparr>)"
    by (simp add: do_decode_def scan_hex_bytes [OF len(1)] d(2) p Let_def)
  then show ?thesis using k t2(1) by (simp add: tool_ok_def)
qed

section \<open>Opening the tool\<close>

text \<open>The tokenizer that lies in the static zeroed memory when the model has none.\<close>

definition no_tokenizer :: tq_tokenizer where
  "no_tokenizer = \<lparr>tk_m = zero_model, tk_base = [], tk_scores = 0, tk_offs = 0, tk_sorted = 0, tk_blob = 0, tk_vocab_size = 0,
     tk_buf_bytes = 0\<rparr>"

text \<open>
  \<open>img\<close> is the mapped file; \<open>marena\<close>, \<open>fast\<close> and \<open>cache\<close> are the addresses that \<^verbatim>\<open>malloc\<close> gives and
  \<open>mem\<close> what lies there. The result is the status, or the tool and whether it has a tokenizer.
\<close>

definition sem_open ::
  "arena_mem \<Rightarrow> 64 word \<Rightarrow> 64 word \<Rightarrow> 64 word \<Rightarrow> u8 list \<Rightarrow> tq_status + 'c sem_tool \<times> bool" where
  "sem_open mem marena fast cache img =
     (let st = tq_store_init_mapped img (of_nat (length img))
      in case tq_model_open st marena (64 * 1024) of
           (rc, m, st) \<Rightarrow>
             if rc \<noteq> TQ_OK then Inl rc
             else let ctx = (if MAX_MSG_TOKENS < m_seq_len m then MAX_MSG_TOKENS else m_seq_len m)
                  in case runtime_start mem m st ctx TQ_KV_F32 fast (tq_runtime_bytes m ctx) cache (tq_kv_bytes m ctx TQ_KV_F32) of
                       Inl rc \<Rightarrow> Inl rc
                     | Inr rt \<Rightarrow>
                         (case tq_ac_model_init (m_vocab_size m) of
                            Inl rc \<Rightarrow> Inl rc
                          | Inr pm \<Rightarrow>
                              (case tq_tokenizer_init st m 64 of
                                 Inl _ \<Rightarrow> Inr (\<lparr>tl_rt = rt, tl_pm = pm, tl_tok = no_tokenizer\<rparr>, False)
                               | Inr t \<Rightarrow> Inr (\<lparr>tl_rt = rt, tl_pm = pm, tl_tok = t\<rparr>, True))))"

lemma sem_open_ready:
  fixes t :: "'c sem_tool"
  assumes "sem_open mem marena fast cache img = Inr (t, True)" and "length img < 2 ^ 64" and "honest_file img"
    and "2048 \<le> lmt" and "tile_takes lmt (rt_m (tl_rt t))"
  shows "\<exists>E. en_img E = img \<and> en_m E = rt_m (tl_rt t) \<and> en_kv E = TQ_KV_F32
    \<and> en_seq E = min MAX_MSG_TOKENS (m_seq_len (en_m E)) \<and> tool_ok E t"
proof -
  define st where "st = (tq_store_init_mapped img (of_nat (length img)) :: 'c tq_store)"
  obtain rc m st' where o: "tq_model_open st marena (64 * 1024) = (rc, m, st')" by (metis prod_cases3)
  define ctx where "ctx = (if MAX_MSG_TOKENS < m_seq_len m then MAX_MSG_TOKENS else m_seq_len m)"
  note op = assms(1) [unfolded sem_open_def st_def [symmetric] o Let_def prod.case ctx_def [symmetric]]
  have rc: "rc = TQ_OK" using op by (auto split: if_splits)
  obtain rt where rt: "runtime_start mem m st' ctx TQ_KV_F32 fast (tq_runtime_bytes m ctx) cache (tq_kv_bytes m ctx TQ_KV_F32) = Inr rt"
    using op rc by (auto split: sum.splits)
  obtain pm where pm: "tq_ac_model_init (m_vocab_size m) = Inr pm" using op rc rt by (auto split: sum.splits)
  obtain tk where tk: "tq_tokenizer_init st' m 64 = Inr tk" "t = \<lparr>tl_rt = rt, tl_pm = pm, tl_tok = tk\<rparr>"
    using op rc rt pm by (auto split: sum.splits)
  have sh: "store_shows img lmt st" unfolding st_def by (rule store_init_shows(1) [OF assms(2)])
  have rm: "rt_m rt = m" using rt by (auto simp: runtime_start_def carved_runtime_def Let_def split: sum.splits)
  note r = session_ready [OF o [unfolded rc] sh assms(4,3) _ rt]
  have tt: "tile_takes lmt m" using assms(5) tk(2) rm by simp
  have "pm_ok (nat (m_vocab_size m)) pm" using model_init_ok' [OF pm] by simp
  moreover have "tk_m tk = m" "tk_vocab_size tk = m_vocab_size m"
    using tk(1) by (auto simp: tq_tokenizer_init_def split: option.splits if_splits)
  ultimately have "tool_ok (session_env img lmt m ctx TQ_KV_F32) t"
    using r(1,2) [OF tt] tk(2) by (simp add: tool_ok_def)
  then show ?thesis
    using tk(2) rm by (intro exI [of _ "session_env img lmt m ctx TQ_KV_F32"]) (simp add: ctx_def)
qed

section \<open>The logit fingerprint\<close>

definition SEM_HASH_STEPS :: nat where "SEM_HASH_STEPS = 8"

text \<open>FNV-1a over the bytes of a float, in memory order.\<close>

definition fnv_byte :: "u64 \<Rightarrow> u8 \<Rightarrow> u64" where
  "fnv_byte h b = (h XOR ucast b) * 1099511628211"

definition fnv_float :: "u64 \<Rightarrow> f32 \<Rightarrow> u64" where
  "fnv_float h f = foldl (\<lambda>h k. fnv_byte h (ucast (drop_bit (8 * k) f))) h [0..<4]"

fun hash_steps :: "nat list \<Rightarrow> u64 \<Rightarrow> 'c tq_runtime \<Rightarrow> ((tq_status + u64) \<times> 'c tq_runtime) option" where
  "hash_steps [] h rt = Some (Inr h, rt)"
| "hash_steps (step # steps) h rt =
     (case tq_forward rt ((int step * 4099 + 17) mod m_vocab_size (rt_m rt)) (int step) of
        None \<Rightarrow> None
      | Some (rc, rt) \<Rightarrow>
          if rc \<noteq> TQ_OK then Some (Inl rc, rt)
          else hash_steps steps (foldl fnv_float h (take (nat (m_vocab_size (rt_m rt))) (rt_logits rt))) rt)"

definition do_hash :: "'c tq_runtime \<Rightarrow> ((tq_status + u64) \<times> 'c tq_runtime) option" where
  "do_hash rt = hash_steps [0..<SEM_HASH_STEPS] 1469598103934665603 rt"

lemma hash_steps_same:
  assumes m: "same_model E E'" and ok: "env_ok E" "env_ok E'" and "rt_ready E hist rt" "rt_ready E' hist rt'"
    and "length hist + k \<le> en_slots E" "length hist + k \<le> en_slots E'"
  shows "case hash_steps [length hist..<length hist + k] h rt of
      None \<Rightarrow> hash_steps [length hist..<length hist + k] h rt' = None
    | Some (r, rt1) \<Rightarrow> (\<exists>v. r = Inr v \<and> (\<exists>rt1'. hash_steps [length hist..<length hist + k] h rt' = Some (Inr v, rt1')))"
  using assms(4-7)
proof (induction k arbitrary: hist rt rt' h)
  case 0
  then show ?case by simp
next
  case (Suc k)
  let ?t = "(int (length hist) * 4099 + 17) mod m_vocab_size (en_m E)"
  have em: "en_m E' = en_m E" using m by (simp add: same_model_def)
  have rm: "rt_m rt = en_m E" "rt_m rt' = en_m E" using ready_fixed Suc.prems(1,2) em by metis+
  have "0 < m_vocab_size (en_m E)" using ok(1) by (simp add: env_ok_def dims_ok_def)
  then have v: "valid_token (en_m E) ?t" by (simp add: valid_token_def)
  have l: "length hist < en_slots E" "length hist < en_slots E'" using Suc.prems(3,4) by simp_all
  note f = forward_same [OF m ok Suc.prems(1,2) l v]
  have u: "[length hist..<length hist + Suc k] = length hist # [Suc (length hist)..<Suc (length hist) + k]"
    by (simp add: upt_conv_Cons)
  show ?case
  proof (cases "tq_forward rt ?t (int (length hist))")
    case None
    then show ?thesis using f unfolding u hash_steps.simps rm by simp
  next
    case (Some p)
    obtain new rt1 rt1' where g: "tq_forward rt ?t (int (length hist)) = Some (TQ_OK, rt1)"
      "tq_forward rt' ?t (int (length hist)) = Some (TQ_OK, rt1')" "rt_logits rt1' = rt_logits rt1"
      "rt_ready E (hist @ [new]) rt1" "rt_ready E' (hist @ [new]) rt1'"
      using f Some by (cases p) auto
    have m1: "rt_m rt1 = en_m E" "rt_m rt1' = en_m E" using ready_fixed g(4,5) em by metis+
    have p1: "length (hist @ [new]) + k \<le> en_slots E" "length (hist @ [new]) + k \<le> en_slots E'" using Suc.prems(3,4) by simp_all
    have IH: "case hash_steps [Suc (length hist)..<Suc (length hist) + k] h' rt1 of
        None \<Rightarrow> hash_steps [Suc (length hist)..<Suc (length hist) + k] h' rt1' = None
      | Some (r, rt2) \<Rightarrow> (\<exists>v. r = Inr v \<and> (\<exists>rt2'. hash_steps [Suc (length hist)..<Suc (length hist) + k] h' rt1' = Some (Inr v, rt2')))" for h'
      using Suc.IH [OF g(4,5) p1, of h'] by (simp only: length_append_singleton)
    show ?thesis
      unfolding u hash_steps.simps rm g(1,2) option.case prod.case m1 g(3)
      by (simp only: simp_thms if_False) (rule IH)
  qed
qed

section \<open>Corpora\<close>

text \<open>\<^verbatim>\<open>fgets\<close>: at most \<open>n - 1\<close> bytes, up to and including a newline; and the rest of the file.\<close>

fun fgets :: "nat \<Rightarrow> u8 list \<Rightarrow> u8 list \<times> u8 list" where
  "fgets (Suc (Suc n)) (c # cs) = (if c = 10 then ([c], cs) else (case fgets (Suc n) cs of (l, rest) \<Rightarrow> (c # l, rest)))"
| "fgets _ cs = ([], cs)"

lemma fgets_shorter: "length (snd (fgets n cs)) \<le> length cs"
  by (induction n cs rule: fgets.induct) (auto split: prod.splits)

lemma fgets_progress: "length (snd (fgets 1024 (c # cs))) < Suc (length cs)"
proof -
  have "fgets 1024 (c # cs) = (if c = 10 then ([c], cs) else (case fgets (Suc 1022) cs of (l, rest) \<Rightarrow> (c # l, rest)))"
    using fgets.simps(1) [of 1022 c cs] by simp
  then show ?thesis using fgets_shorter [of "Suc 1022" cs] by (auto split: prod.splits)
qed

text \<open>The line as a C string, without the trailing line ends.\<close>

definition strip_eol :: "u8 list \<Rightarrow> u8 list" where
  "strip_eol line = rev (dropWhile (\<lambda>c. c = 10 \<or> c = 13) (rev (takeWhile (\<lambda>c. c \<noteq> 0) line)))"

record bench_totals =
  bt_raw :: nat
  bt_def :: nat
  bt_dict :: nat
  bt_sem :: nat
  bt_ideal :: f64
  bt_term :: f64
  bt_secs :: f64
  bt_n :: nat
  bt_bad :: nat

definition bench_add :: "int \<Rightarrow> msg_result \<Rightarrow> bench_totals \<Rightarrow> bench_totals" where
  "bench_add rc r b =
     \<lparr>bt_raw = bt_raw b + mr_raw r, bt_def = bt_def b + mr_deflate r, bt_dict = bt_dict b + mr_defdict r,
      bt_sem = bt_sem b + mr_wire r, bt_ideal = f64_add (bt_ideal b) (mr_ideal r), bt_term = f64_add (bt_term b) (mr_term r),
      bt_secs = f64_add (bt_secs b) (mr_secs r), bt_n = bt_n b + 1, bt_bad = (if rc \<noteq> 0 then bt_bad b + 1 else bt_bad b)\<rparr>"

text \<open>\<open>secs i\<close> is the time that the clock measures for message \<open>i\<close>.\<close>

function bench_lines ::
  "libm \<Rightarrow> (u8 list \<Rightarrow> bool \<Rightarrow> nat) \<Rightarrow> (nat \<Rightarrow> f64) \<Rightarrow> u8 list \<Rightarrow> bench_totals \<Rightarrow> 'c sem_tool \<Rightarrow> (bench_totals \<times> 'c sem_tool) option" where
  "bench_lines lm defl secs [] b t = Some (b, t)"
| "bench_lines lm defl secs (c # cs) b t =
     (let line = strip_eol (fst (fgets 1024 (c # cs))); rest = snd (fgets 1024 (c # cs))
      in if line = [] then bench_lines lm defl secs rest b t
         else case do_message lm defl (secs (bt_n b)) line t of
                None \<Rightarrow> None
              | Some (rc, r, wire, t) \<Rightarrow> bench_lines lm defl secs rest (bench_add rc r b) t)"
  by pat_completeness auto

termination
  by (relation "measure (\<lambda>(lm, defl, secs, cs, b, t). length cs)") (simp_all only: in_measure prod.case fgets_progress list.size, simp_all add: fgets_progress)

declare bench_lines.simps(2) [simp del]

definition zero_totals :: bench_totals where
  "zero_totals = \<lparr>bt_raw = 0, bt_def = 0, bt_dict = 0, bt_sem = 0, bt_ideal = 0, bt_term = 0, bt_secs = 0, bt_n = 0, bt_bad = 0\<rparr>"

text \<open>The return code and the totals that are printed; a file without a message is an error.\<close>

definition do_bench ::
  "libm \<Rightarrow> (u8 list \<Rightarrow> bool \<Rightarrow> nat) \<Rightarrow> (nat \<Rightarrow> f64) \<Rightarrow> u8 list \<Rightarrow> 'c sem_tool \<Rightarrow> (int \<times> bench_totals \<times> 'c sem_tool) option" where
  "do_bench lm defl secs file t =
     map_option (\<lambda>(b, t). (if bt_n b = 0 then 1 else if bt_bad b \<noteq> 0 then 1 else 0, b, t))
       (bench_lines lm defl secs file zero_totals t)"

section \<open>Explaining a message\<close>

text \<open>A quote and a backslash get a backslash in front; nothing else is escaped.\<close>

definition json_escape :: "u8 list \<Rightarrow> u8 list" where
  "json_escape s = concat (map (\<lambda>c. if c = 34 \<or> c = 92 then [92, c] else [c]) s)"

record 'c sem_expl =
  ex_rt :: "'c tq_runtime"
  ex_pm :: tq_ac_model
  ex_e :: tq_ac_enc
  ex_total :: f64
  ex_buf :: "u8 list"
  ex_rows :: "(u8 list \<times> f64) list"

text \<open>One row: the escaped piece and its bits. The coder's status is not looked at.\<close>

definition explain_step :: "libm \<Rightarrow> tq_tokenizer \<Rightarrow> int list \<Rightarrow> nat \<Rightarrow> 'c sem_expl \<Rightarrow> (tq_status \<times> 'c sem_expl) option" where
  "explain_step lm tok toks i s =
     (let next_tok = toks ! (i + 1)
      in case tq_forward (ex_rt s) (toks ! i) (int i) of
           None \<Rightarrow> None
         | Some (rc, rt) \<Rightarrow>
             if rc \<noteq> TQ_OK then Some (rc, s\<lparr>ex_rt := rt\<rparr>)
             else (case tq_ac_enc_token (ex_e s) (ex_pm s) (rt_logits rt) next_tok of
                     None \<Rightarrow> None
                   | Some (e, pm, _) \<Rightarrow>
                       let bits = f64_sub (f64_neg (sem_log2_count lm (sem_bcount pm next_tok))) (sem_log2_count lm (sem_scount pm next_tok));
                           piece = (case tq_decode tok (toks ! i) next_tok (ex_buf s) of
                                      Inl Undefined \<Rightarrow> None
                                    | Inl _ \<Rightarrow> Some ((ex_buf s)[0 := 0])
                                    | Inr (_, out) \<Rightarrow> Some out)
                       in map_option (\<lambda>out. (TQ_OK, s\<lparr>ex_rt := rt, ex_e := e, ex_pm := pm, ex_total := f64_add (ex_total s) bits,
                              ex_buf := out, ex_rows := ex_rows s @ [(json_escape (printed out), bits)]\<rparr>)) piece))"

text \<open>The return code, the rows and the total, and the bytes on the wire.\<close>

definition do_explain :: "libm \<Rightarrow> u8 list \<Rightarrow> u8 list \<Rightarrow> 'c sem_tool \<Rightarrow> (int \<times> (u8 list \<times> f64) list \<times> f64 \<times> nat \<times> 'c sem_tool) option" where
  "do_explain lm buf inp t =
     (case tq_encode (tl_tok t) inp True False MAX_MSG_TOKENS of
        Inl Undefined \<Rightarrow> None
      | Inl _ \<Rightarrow> Some (1, [], 0, 0, t)
      | Inr toks \<Rightarrow>
          let n = int (length toks)
          in if n < 1 \<or> n - 1 \<ge> SEM_LEN_SYMBOLS then Some (1, [], 0, 0, t)
             else case tq_ac_enc_sym (tq_ac_enc_init MAX_WIRE) (word_of_int (n - 1) * SEM_LEN_FREQ) SEM_LEN_FREQ TQ_AC_TOT of
                    None \<Rightarrow> None
                  | Some e \<Rightarrow>
                      (case run_ok (map (explain_step lm (tl_tok t) toks) [0..<length toks - 1])
                              \<lparr>ex_rt = tl_rt t, ex_pm = tl_pm t, ex_e = e, ex_total = 0, ex_buf = buf, ex_rows = []\<rparr> of
                         None \<Rightarrow> None
                       | Some (rc, s) \<Rightarrow>
                           let t = t\<lparr>tl_rt := ex_rt s, tl_pm := ex_pm s\<rparr>
                           in if rc \<noteq> TQ_OK then Some (1, ex_rows s, ex_total s, 0, t)
                              else Some (0, ex_rows s, ex_total s, fst (tq_ac_enc_finish (ex_e s)), t)))"

section \<open>A tool that runs\<close>

text \<open>The tables of a tokenizer do not depend on its model; only the special tokens do.\<close>

lemma model_table: "table_word (t\<lparr>tk_m := m\<rparr>) = table_word t" "in_vocab (t\<lparr>tk_m := m\<rparr>) = in_vocab t"
  by (intro ext; simp add: table_word_def in_vocab_def)+

lemma model_piece: "tq_piece (t\<lparr>tk_m := m\<rparr>) = tq_piece t"
  by (intro ext) (simp add: tq_piece_def model_table Let_def split: option.split)

lemma model_strs: "tok_str (t\<lparr>tk_m := m\<rparr>) = tok_str t" "sort_id (t\<lparr>tk_m := m\<rparr>) = sort_id t"
  by (intro ext; simp add: tok_str_def sort_id_def model_piece model_table)+

lemma model_lookup_from: "lookup_from (t\<lparr>tk_m := m\<rparr>) s lo hi = lookup_from t s lo hi"
proof (induction t s lo hi rule: lookup_from.induct)
  case (1 t s lo hi)
  show ?case
    using 1 by (simp add: lookup_from.simps [of "t\<lparr>tk_m := m\<rparr>" s lo hi] lookup_from.simps [of t s lo hi] model_table model_piece Let_def
        split: option.splits)
qed

lemma model_lookup: "tq_lookup (t\<lparr>tk_m := m\<rparr>) = tq_lookup t" "tq_byte_token (t\<lparr>tk_m := m\<rparr>) = tq_byte_token t"
  by (intro ext; simp add: tq_byte_token_def tq_lookup_def model_lookup_from)+

lemma model_push_bytes: "push_bytes (t\<lparr>tk_m := m\<rparr>) mx cs tokens = push_bytes t mx cs tokens"
  by (induction t mx cs tokens rule: push_bytes.induct) (auto simp: model_lookup split: option.splits sum.splits)

lemma model_split: "encode_split (t\<lparr>tk_m := m\<rparr>) mx inp i tokens = encode_split t mx inp i tokens"
proof (induction t mx inp i tokens rule: encode_split.induct)
  case (1 t mx inp i tokens)
  define len where "len = (if i + utf8_len (inp ! i) > length inp then 1 else utf8_len (inp ! i))"
  note S = encode_split.simps [of "t\<lparr>tk_m := m\<rparr>" mx inp i tokens] encode_split.simps [of t mx inp i tokens]
  show ?case
  proof (cases "i < length inp")
    case True
    show ?thesis
      unfolding S Let_def len_def [symmetric] model_lookup model_push_bytes
      using "1.IH" [OF True refl len_def refl] True by (simp split: option.split sum.split)
  next
    case False
    then show ?thesis unfolding S by simp
  qed
qed

lemma model_best: "best_merge (t\<lparr>tk_m := m\<rparr>) = best_merge t"
proof -
  have "merge_look (t\<lparr>tk_m := m\<rparr>) = merge_look t"
    by (intro ext) (simp add: merge_look_def model_piece model_lookup model_table split: prod.splits option.splits cong: option.case_cong if_cong)
  then show ?thesis by (intro ext) (simp add: best_merge_def)
qed

lemma model_merge: "merge_all (t\<lparr>tk_m := m\<rparr>) tokens = merge_all t tokens"
proof (induction t tokens rule: merge_all.induct)
  case (1 t tokens)
  show ?case
    using 1 by (auto simp: merge_all.simps [of "t\<lparr>tk_m := m\<rparr>" tokens] merge_all.simps [of t tokens] model_best split: option.splits)
qed

lemma model_encode:
  "tk_bos (t\<lparr>tk_m := m\<rparr>) = tk_bos t \<Longrightarrow> tq_encode (t\<lparr>tk_m := m\<rparr>) inp True False mx = tq_encode t inp True False mx"
  by (simp add: tq_encode_def encode_start_def model_lookup model_split model_merge split: sum.split option.split)

lemma model_encoder: "encoder_ok (t\<lparr>tk_m := m\<rparr>) = encoder_ok t"
  by (simp add: encoder_ok_def tables_ok_def model_table model_piece model_strs)

lemma model_plain: "tk_bos (t\<lparr>tk_m := m\<rparr>) = tk_bos t \<Longrightarrow> plain_vocab (t\<lparr>tk_m := m\<rparr>) inp = plain_vocab t inp"
  by (simp add: plain_vocab_def apart_def model_table model_strs)

text \<open>The blank model with the sample tokenizer, whose vocabulary has the same size.\<close>

definition blank_tok :: tq_tokenizer where
  "blank_tok = sample_tok\<lparr>tk_m := blank_model\<rparr>"

definition blank_pm :: tq_ac_model where
  "blank_pm = \<lparr>pm_vocab = 5, pm_nbuckets = 1, pm_bucket = -1, pm_bcnt = replicate TQ_AC_MAX_BUCKETS 0,
     pm_scnt = replicate TQ_AC_BUCKET 0, pm_w = replicate TQ_AC_MAX_BUCKETS 0\<rparr>"

definition blank_tool :: "'c tq_store \<Rightarrow> f32 \<Rightarrow> 'c sem_tool" where
  "blank_tool st z = \<lparr>tl_rt = blank_runtime st z, tl_pm = blank_pm, tl_tok = blank_tok\<rparr>"

lemma blank_tok_bos: "tk_bos (sample_tok\<lparr>tk_m := blank_model\<rparr>) = tk_bos sample_tok"
  using blank_bos by (simp add: tk_bos_def [of "sample_tok\<lparr>tk_m := blank_model\<rparr>"] sample_bos)

lemma blank_pm_ok: "pm_ok 5 blank_pm"
  by (simp add: pm_ok_def blank_pm_def ac_sizes)

lemma blank_tool_ok: "store_shows blank_image 256 st \<Longrightarrow> tool_ok blank_env (blank_tool st z)"
  using blank_env_ok blank_pm_ok ready_fresh [OF blank_fits]
  by (simp add: tool_ok_def blank_tool_def blank_tok_def blank_fields sample_tok_def)

lemma sample_encode_room: "tq_encode sample_tok [98] True False 512 = Inr [0, 1, 4]"
proof -
  have sp: "cstr '' '' = [32]" by code_simp
  have st: "encode_start sample_tok [98] True 512 = Inr [0, 1]"
    by (simp add: encode_start_def tq_push_def sample_bos sp sample_lookup)
  have u: "utf8_len 98 = 1" by code_simp
  have bt: "tq_byte_token sample_tok 98 = Some 4"
    by (simp add: byte_token_lookup sample_byte_form sample_lookup)
  have sl: "encode_split sample_tok 512 [98] 0 [0, 1] = Inr [0, 1, 4]"
    by (simp add: encode_split.simps [of sample_tok 512 "[98]"] u Let_def sample_lookup bt tq_push_def)
  have "merge_all sample_tok [0, 1, 4] = Some [0, 1, 4]" using sample_encode st u bt
    by (auto simp: tq_encode_def encode_start_def tq_push_def sample_bos sp sample_lookup encode_split.simps [of sample_tok 8 "[98]"] Let_def
        split: option.splits)
  then show ?thesis by (simp add: tq_encode_def st sl)
qed

lemma blank_encode: "tq_encode blank_tok [98] True False 512 = Inr [0, 1, 4]"
  unfolding blank_tok_def model_encode [OF blank_tok_bos] by (rule sample_encode_room)

lemma blank_spells: "spells_text blank_tok [98]"
proof -
  have l: "\<forall>x. in_vocab sample_tok x \<longrightarrow> length (tok_str sample_tok x) < 64"
    unfolding sample_in_vocab by (auto simp: sample_tok_strs)
  show ?thesis
    using l sample_encoder sample_plain
    by (simp add: spells_text_def blank_tok_def model_encoder model_plain [OF blank_tok_bos] model_table model_strs blank_tok_bos sample_bos sample_in_vocab)
qed

lemma blank_predictions: "predictions (fv blank_env) [] [0, 1] = Some [zs 5, zs 5]"
  using blank_forward [of 0 0] blank_forward [of 1 1] by simp

text \<open>Its message of three tokens is coded and decoded.\<close>

lemma blank_codes:
  assumes "rt_ready blank_env [] (se_rt s)" and "pm_ok 5 (se_pm s)" and "14 \<le> cap"
  obtains s' where "sem_encode lm [0, 1, 4] 3 cap s = Some (TQ_OK, s')" and "se_len s' \<le> 12"
  using encode_total [OF blank_env_ok assms(1), of 3 "[0, 1, 4]" cap lm] assms(2,3) blank_predictions
  by (auto simp: blank_fields blank_valid numeral_3_eq_3)

lemma blank_message:
  "\<exists>r wire t'. do_message lm defl secs [98] (blank_tool blank_mapped 0) = Some (0, r, wire, t') \<and> mr_tokens r = 3"
proof -
  let ?s = "\<lparr>se_rt = blank_runtime blank_mapped 0, se_pm = blank_pm, se_e = tq_ac_enc_init MAX_WIRE, se_len = 0, se_ideal = 0,
    se_charged = 0, se_term = 0\<rparr>"
  have r: "rt_ready blank_env [] (se_rt ?s)" "pm_ok (en_vocab blank_env) (se_pm ?s)"
    using blank_ready(1) [of 0] blank_pm_ok by (simp_all add: blank_fields)
  obtain s' where e: "sem_encode lm [0, 1, 4] 3 MAX_WIRE ?s = Some (TQ_OK, s')"
    using blank_codes [OF r(1), of MAX_WIRE lm] blank_pm_ok by (auto simp: MAX_WIRE_def)
  have n: "3 \<le> int (length [0 :: int, 1, 4])" by simp
  note k = sem_encode_keeps [OF blank_env_ok r e]
  have b: "take (se_len s') (e_buf (se_e s')) = e_buf (se_e s')" by (rule wire_is_buffer(1) [OF blank_env_ok r n e])
  have "\<exists>d. sem_decode (e_buf (se_e s')) MAX_MSG_TOKENS (se_rt s') (se_pm s') = Some (Inr (take (nat 3) [0, 1, 4]), d)"
    by (rule message_decodes [OF blank_env_ok blank_env_ok r(1) _ refl refl refl r(2) _ n _ _ _ e])
      (use k in \<open>simp_all add: blank_bos MAX_MSG_TOKENS_def\<close>)
  then obtain d where d: "sem_decode (e_buf (se_e s')) MAX_MSG_TOKENS (se_rt s') (se_pm s') = Some (Inr [0, 1, 4], d)" by auto
  have t: "tl_tok (blank_tool blank_mapped 0) = blank_tok" "tl_rt (blank_tool blank_mapped 0) = blank_runtime blank_mapped 0"
    "tl_pm (blank_tool blank_mapped 0) = blank_pm" by (simp_all add: blank_tool_def)
  have x: "tq_encode blank_tok [98] True False MAX_MSG_TOKENS = Inr [0, 1, 4]" using blank_encode by (simp add: MAX_MSG_TOKENS_def)
  have l: "int (length [0 :: int, 1, 4]) = 3" by simp
  show ?thesis
    unfolding do_message_def t x Let_def sum.case l e option.case prod.case
    using d b by simp
qed

text \<open>A context of eight positions, for the fingerprint.\<close>

definition long_model :: tq_model where
  "long_model = blank_model\<lparr>m_seq_len := 8\<rparr>"

definition long_env :: fw_env where
  "long_env = \<lparr>en_img = blank_image, en_limit = 256, en_m = long_model, en_seq = 8, en_kv = TQ_KV_F32\<rparr>"

definition long_runtime :: "'c tq_store \<Rightarrow> f32 \<Rightarrow> 'c tq_runtime" where
  "long_runtime st z = (blank_runtime st z)\<lparr>rt_m := long_model, rt_max_seq := 8, rt_att := replicate 256 z,
     rt_k_f32 := replicate 8 z, rt_v_f32 := replicate 8 z\<rparr>"

lemma long_env_ok: "env_ok long_env"
  by (simp add: env_ok_def long_env_def long_model_def dims_ok_def blank_model_def quantized_def tensors_inside_def mat_inside_def
      vec_inside_def block_bytes_def dtypes blank_image_def no_offsets_def zero_model_def Let_def less_Suc_eq)

lemma long_ready: "store_shows blank_image 256 st \<Longrightarrow> rt_ready long_env [] (long_runtime st z)"
  by (rule ready_fresh)
    (simp add: rt_fits_def rt_fixed_def long_env_def long_runtime_def blank_runtime_def long_model_def blank_model_def cache_fits_def Let_def)

lemma long_forward:
  assumes "n < 8" and "0 \<le> t" and "t < 5"
  shows "forward_value blank_image long_model TQ_KV_F32 (replicate n [(zero_cell, zero_cell)]) t = Some (zs 5, [(zero_cell, zero_cell)])"
proof -
  have "forward_value blank_image long_model TQ_KV_F32 = forward_value blank_image blank_model TQ_KV_F32"
    by (intro ext) (simp add: forward_value_def layer_value_def attention_value_def long_model_def Let_def)
  then show ?thesis using blank_forward [OF assms] by simp
qed

lemma long_hash:
  assumes "rt_ready long_env (replicate n [(zero_cell, zero_cell)]) rt" and "n + k \<le> 8"
  shows "hash_steps [n..<n + k] h rt \<noteq> None"
  using assms
proof (induction k arbitrary: n rt h)
  case 0
  then show ?case by simp
next
  case (Suc k)
  let ?t = "(int n * 4099 + 17) mod m_vocab_size long_model" and ?c = "[(zero_cell, zero_cell)]"
  have m: "rt_m rt = long_model" using ready_fixed [OF Suc.prems(1)] by (simp add: long_env_def)
  have l: "m_vocab_size long_model = 5" by (simp add: long_model_def blank_fields)
  have r: "env_ok long_env \<and> rt_ready long_env (replicate n ?c) rt" using long_env_ok Suc.prems(1) by simp
  have v: "valid_token (en_m long_env) ?t" by (simp add: long_env_def valid_token_def l)
  have n: "length (replicate n ?c) < en_slots long_env" using Suc.prems(2) by (simp add: long_env_def)
  have f: "forward_value (en_img long_env) (en_m long_env) (en_kv long_env) (replicate n ?c) ?t = Some (zs 5, ?c)"
    using long_forward [of n ?t] Suc.prems(2) by (simp add: long_env_def l)
  obtain rt1 where s: "tq_forward rt ?t (int n) = Some (TQ_OK, rt1)" "rt_ready long_env (replicate n ?c @ [?c]) rt1"
    using fwd.step_some [OF r n v f] by auto
  have "hash_steps [Suc n..<Suc n + k] h' rt1 \<noteq> None" for h'
    using s(2) Suc.prems(2) by (intro Suc.IH) (simp_all add: replicate_append_same)
  moreover have "[n..<n + Suc k] = n # [Suc n..<Suc n + k]" by (simp add: upt_conv_Cons)
  ultimately show ?case using s(1) m by (simp only: hash_steps.simps option.case prod.case simp_thms if_False)
qed

section \<open>Properties\<close>

section \<open>Properties\<close>

text \<open>
  C2: the semaphore round trip. What \<^verbatim>\<open>sem_encode\<close> puts on the wire, \<^verbatim>\<open>sem_decode\<close> turns back into
  exactly the tokens, on another device: it shares the bytes of the model file, the model and
  the cache type; its buffers, its store, its count tables and the length of its context are its
  own, as long as the message fits the context.
\<close>

theorem semaphore_round_trip:
  fixes s :: "'c sem_enc" and rt2 :: "'d tq_runtime"
  assumes "env_ok E1" and "env_ok E2" and "rt_ready E1 [] (se_rt s)" and "rt_ready E2 [] rt2"
    and "en_img E1 = en_img E2" and "en_m E1 = en_m E2" and "en_kv E1 = en_kv E2"
    and "pm_ok (en_vocab E1) (se_pm s)" and "pm_ok (en_vocab E2) pm2"
    and "n \<le> int (length toks)" and "n \<le> max_tokens" and "nat n \<le> Suc (en_slots E2)"
    and "hd toks = sint (h_bos_token (m_hdr (en_m E2)))"
    and "sem_encode lm toks n cap s = Some (TQ_OK, s')"
  shows "\<exists>d. sem_decode (e_buf (se_e s')) max_tokens rt2 pm2 = Some (Inr (take (nat n) toks), d)"
  by (rule message_decodes [OF assms])

theorem semaphore_round_trip_witness:
  "\<exists>s' d. sem_encode \<lparr>lm_exp = id, lm_log2 = id\<rparr> [0, 1, 4] 3 4096
      \<lparr>se_rt = blank_runtime blank_mapped 0, se_pm = blank_pm, se_e = tq_ac_enc_init 4096, se_len = 0, se_ideal = 0, se_charged = 0,
       se_term = 0\<rparr> = Some (TQ_OK, s')
    \<and> sem_decode (e_buf (se_e s')) 512 (blank_runtime blank_streamed 7) blank_pm = Some (Inr [0, 1, 4], d)"
proof -
  let ?s = "\<lparr>se_rt = blank_runtime blank_mapped 0, se_pm = blank_pm, se_e = tq_ac_enc_init 4096, se_len = 0, se_ideal = 0,
    se_charged = 0, se_term = 0\<rparr>"
  have r: "rt_ready blank_env [] (se_rt ?s)" "pm_ok (en_vocab blank_env) (se_pm ?s)" "pm_ok (en_vocab blank_env) blank_pm"
    using blank_ready(1) [of 0] blank_pm_ok by (simp_all add: blank_fields)
  obtain s' where e: "sem_encode \<lparr>lm_exp = id, lm_log2 = id\<rparr> [0, 1, 4] 3 4096 ?s = Some (TQ_OK, s')"
    using blank_codes [OF r(1), of 4096 "\<lparr>lm_exp = id, lm_log2 = id\<rparr>"] blank_pm_ok by auto
  from semaphore_round_trip [OF blank_env_ok blank_env_ok r(1) blank_ready(2) [of 7] refl refl refl r(2,3) _ _ _ _ e, of 512] e
  show ?thesis by (auto simp: blank_bos)
qed

text \<open>
  C16: encoding never runs out. A message of at most 255 tokens of the vocabulary behind the
  begin marker, inside the context, is coded with \<^verbatim>\<open>TQ_OK\<close> into at most four bytes for each
  token, provided the buffer has two bytes more than that; it is undefined exactly where the
  model's own predictions are (a NaN).
\<close>

theorem sem_encode_total:
  assumes "env_ok E" and "rt_ready E [] (se_rt s)" and "pm_ok (en_vocab E) (se_pm s)"
    and "1 \<le> n" and "n \<le> 256" and "n \<le> int (length toks)" and "nat n \<le> Suc (en_slots E)"
    and "\<forall>t \<in> set (take (nat n) toks). valid_token (en_m E) t" and "4 * nat n + 2 \<le> cap"
  shows "case predictions (fv E) [] (take (nat n - 1) toks) of
      None \<Rightarrow> sem_encode lm toks n cap s = None
    | Some _ \<Rightarrow> \<exists>s'. sem_encode lm toks n cap s = Some (TQ_OK, s') \<and> se_len s' \<le> 4 * nat n"
  by (rule encode_total [OF assms])

theorem sem_encode_total_witness:
  "\<exists>s'. sem_encode \<lparr>lm_exp = id, lm_log2 = id\<rparr> [0, 1, 4] 3 14
      \<lparr>se_rt = blank_runtime blank_streamed 7, se_pm = blank_pm, se_e = tq_ac_enc_init 14, se_len = 0, se_ideal = 0, se_charged = 0,
       se_term = 0\<rparr> = Some (TQ_OK, s') \<and> se_len s' \<le> 12"
proof -
  let ?s = "\<lparr>se_rt = blank_runtime blank_streamed 7, se_pm = blank_pm, se_e = tq_ac_enc_init 14, se_len = 0, se_ideal = 0,
    se_charged = 0, se_term = 0\<rparr>"
  have r: "rt_ready blank_env [] (se_rt ?s)" "pm_ok (en_vocab blank_env) (se_pm ?s)"
    using blank_ready(2) [of 7] blank_pm_ok by (simp_all add: blank_fields)
  from sem_encode_total [OF blank_env_ok r, of 3 "[0, 1, 4]" 14 "\<lparr>lm_exp = id, lm_log2 = id\<rparr>"] blank_predictions
  show ?thesis by (simp add: blank_valid numeral_3_eq_3)
qed



text \<open>
  C19: a decoded token is always a token. In every state a decoder can be in (its range is at
  least \<open>2^24\<close>, as after \<^verbatim>\<open>tq_ac_dec_init\<close> on any bytes), \<^verbatim>\<open>tq_ac_dec_token\<close> returns a token of the
  vocabulary and is again in such a state: past the end of the input it keeps producing tokens,
  and the \<^verbatim>\<open>TQ_ERR_TRUNCATED\<close> that the headers announce never comes.
\<close>

theorem dec_token_never_fails:
  assumes "pm_ok V pm" and "dec_live d"
  shows "\<exists>d' pm' tok. tq_ac_dec_token d pm logits = Some (d', pm', Inr tok) \<and> tok < V \<and> dec_live d' \<and> pm_ok V pm'"
  by (rule dec_token_total [OF assms])

theorem dec_token_never_fails_witness:
  "\<exists>d' pm' tok. tq_ac_dec_token (tq_ac_dec_init []) blank_pm [0, 0, 0, 0, 0] = Some (d', pm', Inr tok) \<and> tok < 5"
  using dec_token_never_fails [OF blank_pm_ok dec_init_live] by blast

text \<open>
  C1: a sent message is read. What \<^verbatim>\<open>tq_sem encode\<close> prints in hex for a text that the vocabulary
  spells, \<^verbatim>\<open>tq_sem decode\<close> on a tool with the same model file and tokenizer prints as exactly that
  text and a newline: tokenizer, transformer, count tables, range coder and hex form together.
\<close>

theorem semaphore_end_to_end:
  assumes "tool_ok E t" and "spells_text (tl_tok t) inp" and "do_message lm defl secs inp t = Some (0, r, wire, t')"
    and "tool_ok E2 t2" and "en_img E2 = en_img E" and "en_m E2 = en_m E" and "en_kv E2 = en_kv E" and "tl_tok t2 = tl_tok t"
    and "nat (mr_tokens r) \<le> Suc (en_slots E2)" and "length buf = 64"
  shows "\<exists>t2'. do_decode buf (hex_bytes wire) t2 = Some (0, inp @ cstr ''\<newline>'', t2') \<and> tool_ok E2 t2'"
  by (rule message_read [OF assms])

text \<open>The text \<^verbatim>\<open>b\<close>, coded as three tokens by one blank tool and read by another.\<close>

theorem semaphore_end_to_end_witness:
  "\<exists>r wire t' t2'. do_message \<lparr>lm_exp = id, lm_log2 = id\<rparr> (\<lambda>_ _. 0) 0 [98] (blank_tool blank_mapped 0) = Some (0, r, wire, t')
    \<and> do_decode (replicate 64 9) (hex_bytes wire) (blank_tool blank_streamed 7) = Some (0, [98, 10], t2')"
proof -
  obtain r wire t' where m: "do_message \<lparr>lm_exp = id, lm_log2 = id\<rparr> (\<lambda>_ _. 0) 0 [98] (blank_tool blank_mapped 0) = Some (0, r, wire, t')"
      "mr_tokens r = 3"
    using blank_message [of "\<lparr>lm_exp = id, lm_log2 = id\<rparr>" "\<lambda>_ _. 0" 0] by blast
  have sp: "spells_text (tl_tok (blank_tool blank_mapped 0)) [98]" by (simp add: blank_tool_def blank_spells)
  have n: "cstr ''\<newline>'' = [10]" by code_simp
  from semaphore_end_to_end [OF blank_tool_ok [OF blank_stores(1)] sp m(1) blank_tool_ok [OF blank_stores(2), of 7] refl refl refl _ _ _,
      of "replicate 64 9"] m
  show ?thesis by (auto simp: blank_tool_def n)
qed



text \<open>
  C18: the fingerprints agree. Two devices with the same model file and cache type and a context
  of at least eight positions compute the same 64-bit hash of their logits, bit for bit, and
  neither is refused a step; or both are undefined.
\<close>

theorem hash_same:
  fixes rt :: "'c tq_runtime" and rt' :: "'d tq_runtime"
  assumes "same_model E E'" and "env_ok E" and "env_ok E'" and "rt_ready E [] rt" and "rt_ready E' [] rt'"
    and "8 \<le> en_slots E" and "8 \<le> en_slots E'"
  shows "case do_hash rt of
      None \<Rightarrow> do_hash rt' = None
    | Some (r, rt1) \<Rightarrow> (\<exists>h rt1'. r = Inr h \<and> do_hash rt' = Some (Inr h, rt1'))"
  using hash_steps_same [OF assms(1-5), of 8 1469598103934665603] assms(6,7)
  by (auto simp: do_hash_def SEM_HASH_STEPS_def split: option.splits)

theorem hash_same_witness:
  "\<exists>h rt1 rt2. do_hash (long_runtime blank_mapped 0) = Some (Inr h, rt1) \<and> do_hash (long_runtime blank_streamed 7) = Some (Inr h, rt2)"
proof -
  have "same_model long_env long_env" by (simp add: same_model_def)
  note same = hash_same [OF this long_env_ok long_env_ok long_ready [OF blank_stores(1), of 0] long_ready [OF blank_stores(2), of 7]]
  have "do_hash (long_runtime blank_mapped 0) \<noteq> None"
    using long_hash [of 0 "long_runtime blank_mapped 0" 8] long_ready [OF blank_stores(1), of 0] by (simp add: do_hash_def SEM_HASH_STEPS_def)
  then obtain p where p: "do_hash (long_runtime blank_mapped 0) = Some p" by blast
  have "8 \<le> en_slots long_env" by (simp add: long_env_def)
  from same [OF this this] show ?thesis unfolding p by (cases p) auto
qed

end
