(* ===== verification/Tq_Psram.thy ===== *)
theory Tq_Psram imports Tq_Prelude "HOL-Library.Multiset" begin

text \<open>
  The PSRAM driver \<^verbatim>\<open>src/firmware/teensy41-tinyllm/src/psram_flexspi2.c\<close>: clock table, bring-up of the
  FlexSPI2 controller, identification of the chips, bandwidth, memory test and clock sweep. The
  hardware is a parameter: a \<open>board\<close> says what a 32-bit read or write of an address does to its
  state, and what the kernel's tick counter shows. Registers and PSRAM are both such addresses.
  The waiting loops of the driver need not end; a function that waits returns \<open>None\<close> when they do
  not. The lemmas show what the memory test proves about the memory behind it, and which clock
  the sweep settles on.
\<close>

unbundle bit_operations_syntax

section \<open>The board\<close>

record 'h board =
  bd_read :: "u32 \<Rightarrow> 'h \<Rightarrow> u32 \<times> 'h"
  bd_write :: "u32 \<Rightarrow> u32 \<Rightarrow> 'h \<Rightarrow> 'h"
  bd_ticks :: "'h \<Rightarrow> int \<times> 'h"
  bd_us :: "int \<Rightarrow> int"

text \<open>\<^verbatim>\<open>R = v\<close> and \<^verbatim>\<open>R = f(R)\<close> for a register \<^verbatim>\<open>R\<close>, and statements one after the other.\<close>

definition set_reg :: "'h board \<Rightarrow> u32 \<Rightarrow> u32 \<Rightarrow> 'h \<Rightarrow> 'h" where
  "set_reg b a v h = bd_write b a v h"

definition mod_reg :: "'h board \<Rightarrow> u32 \<Rightarrow> (u32 \<Rightarrow> u32) \<Rightarrow> 'h \<Rightarrow> 'h" where
  "mod_reg b a f h = (case bd_read b a h of (v, h) \<Rightarrow> bd_write b a (f v) h)"

definition in_turn :: "('h \<Rightarrow> 'h) list \<Rightarrow> 'h \<Rightarrow> 'h" where
  "in_turn fs h = foldl (\<lambda>h f. f h) h fs"

text \<open>\<^verbatim>\<open>while (!cond(R)) {}\<close>\<close>

partial_function (option) wait_for :: "'h board \<Rightarrow> u32 \<Rightarrow> (u32 \<Rightarrow> bool) \<Rightarrow> 'h \<Rightarrow> 'h option" where
  "wait_for b a p h = (case bd_read b a h of (v, h) \<Rightarrow> if p v then Some h else wait_for b a p h)"

text \<open>The error numbers that the firmware returns, negated.\<close>

definition EIO :: int where "EIO = 5"

definition EINVAL :: int where "EINVAL = 22"

section \<open>Registers\<close>

definition PSRAM_BASE :: u32 where "PSRAM_BASE = 0x70000000"

definition CCM_CBCMR :: u32 where "CCM_CBCMR = 0x400FC000 + 0x018"

definition CCM_CCGR7 :: u32 where "CCM_CCGR7 = 0x400FC000 + 0x084"

definition CCMA_PFD_480 :: u32 where "CCMA_PFD_480 = 0x400D8000 + 0x0F0"

definition CCMA_PFD_528 :: u32 where "CCMA_PFD_528 = 0x400D8000 + 0x100"

definition IOMUXC_MUX_EMC22 :: u32 where "IOMUXC_MUX_EMC22 = 0x401F8000 + 0x06C"

definition IOMUXC_PAD_EMC22 :: u32 where "IOMUXC_PAD_EMC22 = 0x401F8000 + 0x25C"

definition IOMUXC_SEL_BASE :: u32 where "IOMUXC_SEL_BASE = 0x401F8000 + 0x400"

definition FLEXSPI2_BASE :: u32 where "FLEXSPI2_BASE = 0x402A4000"

definition FS2_MCR0 :: u32 where "FS2_MCR0 = FLEXSPI2_BASE + 0x000"

definition FS2_MCR1 :: u32 where "FS2_MCR1 = FLEXSPI2_BASE + 0x004"

definition FS2_MCR2 :: u32 where "FS2_MCR2 = FLEXSPI2_BASE + 0x008"

definition FS2_AHBCR :: u32 where "FS2_AHBCR = FLEXSPI2_BASE + 0x00C"

definition FS2_INTEN :: u32 where "FS2_INTEN = FLEXSPI2_BASE + 0x010"

definition FS2_INTR :: u32 where "FS2_INTR = FLEXSPI2_BASE + 0x014"

definition FS2_LUTKEY :: u32 where "FS2_LUTKEY = FLEXSPI2_BASE + 0x018"

definition FS2_LUTCR :: u32 where "FS2_LUTCR = FLEXSPI2_BASE + 0x01C"

definition FS2_AHBRXBUFCR0 :: "nat \<Rightarrow> u32" where "FS2_AHBRXBUFCR0 n = FLEXSPI2_BASE + 0x020 + 4 * of_nat n"

definition FS2_FLSHA1CR0 :: u32 where "FS2_FLSHA1CR0 = FLEXSPI2_BASE + 0x060"

definition FS2_FLSHA2CR0 :: u32 where "FS2_FLSHA2CR0 = FLEXSPI2_BASE + 0x064"

definition FS2_FLSHA1CR1 :: u32 where "FS2_FLSHA1CR1 = FLEXSPI2_BASE + 0x070"

definition FS2_FLSHA2CR1 :: u32 where "FS2_FLSHA2CR1 = FLEXSPI2_BASE + 0x074"

definition FS2_FLSHA1CR2 :: u32 where "FS2_FLSHA1CR2 = FLEXSPI2_BASE + 0x080"

definition FS2_FLSHA2CR2 :: u32 where "FS2_FLSHA2CR2 = FLEXSPI2_BASE + 0x084"

definition FS2_IPCR0 :: u32 where "FS2_IPCR0 = FLEXSPI2_BASE + 0x0A0"

definition FS2_IPCR1 :: u32 where "FS2_IPCR1 = FLEXSPI2_BASE + 0x0A4"

definition FS2_IPCMD :: u32 where "FS2_IPCMD = FLEXSPI2_BASE + 0x0B0"

definition FS2_IPRXFCR :: u32 where "FS2_IPRXFCR = FLEXSPI2_BASE + 0x0B8"

definition FS2_IPTXFCR :: u32 where "FS2_IPTXFCR = FLEXSPI2_BASE + 0x0BC"

definition FS2_RFDR0 :: u32 where "FS2_RFDR0 = FLEXSPI2_BASE + 0x100"

definition FS2_LUT :: "nat \<Rightarrow> u32" where "FS2_LUT n = FLEXSPI2_BASE + 0x200 + 4 * of_nat n"

lemmas registers = CCM_CBCMR_def CCM_CCGR7_def CCMA_PFD_480_def CCMA_PFD_528_def IOMUXC_MUX_EMC22_def
  IOMUXC_PAD_EMC22_def IOMUXC_SEL_BASE_def FLEXSPI2_BASE_def FS2_MCR0_def FS2_MCR1_def FS2_MCR2_def
  FS2_AHBCR_def FS2_INTEN_def FS2_INTR_def FS2_LUTKEY_def FS2_LUTCR_def FS2_AHBRXBUFCR0_def
  FS2_FLSHA1CR0_def FS2_FLSHA2CR0_def FS2_FLSHA1CR1_def FS2_FLSHA2CR1_def FS2_FLSHA1CR2_def
  FS2_FLSHA2CR2_def FS2_IPCR0_def FS2_IPCR1_def FS2_IPCMD_def FS2_IPRXFCR_def FS2_IPTXFCR_def
  FS2_RFDR0_def FS2_LUT_def

section \<open>Register fields\<close>

definition MCR0_AHBGRANTWAIT :: "u32 \<Rightarrow> u32" where "MCR0_AHBGRANTWAIT n = push_bit 24 (n AND 0xFF)"

definition MCR0_IPGRANTWAIT :: "u32 \<Rightarrow> u32" where "MCR0_IPGRANTWAIT n = push_bit 16 (n AND 0xFF)"

definition MCR0_SCKFREERUNEN :: u32 where "MCR0_SCKFREERUNEN = push_bit 14 1"

definition MCR0_COMBINATIONEN :: u32 where "MCR0_COMBINATIONEN = push_bit 13 1"

definition MCR0_DOZEEN :: u32 where "MCR0_DOZEEN = push_bit 12 1"

definition MCR0_HSEN :: u32 where "MCR0_HSEN = push_bit 11 1"

definition MCR0_ATDFEN :: u32 where "MCR0_ATDFEN = push_bit 7 1"

definition MCR0_ARDFEN :: u32 where "MCR0_ARDFEN = push_bit 6 1"

definition MCR0_RXCLKSRC :: "u32 \<Rightarrow> u32" where "MCR0_RXCLKSRC n = push_bit 4 (n AND 3)"

definition MCR0_MDIS :: u32 where "MCR0_MDIS = push_bit 1 1"

definition MCR0_SWRESET :: u32 where "MCR0_SWRESET = push_bit 0 1"

definition MCR1_SEQWAIT :: "u32 \<Rightarrow> u32" where "MCR1_SEQWAIT n = push_bit 16 (n AND 0xFFFF)"

definition MCR1_AHBBUSWAIT :: "u32 \<Rightarrow> u32" where "MCR1_AHBBUSWAIT n = n AND 0xFFFF"

definition MCR2_RESUMEWAIT :: "u32 \<Rightarrow> u32" where "MCR2_RESUMEWAIT n = push_bit 24 (n AND 0xFF)"

definition AHBCR_READADDROPT :: u32 where "AHBCR_READADDROPT = push_bit 6 1"

definition AHBCR_PREFETCHEN :: u32 where "AHBCR_PREFETCHEN = push_bit 5 1"

definition AHBCR_BUFFERABLEEN :: u32 where "AHBCR_BUFFERABLEEN = push_bit 4 1"

definition AHBCR_CACHABLEEN :: u32 where "AHBCR_CACHABLEEN = push_bit 3 1"

definition RXBUFCR0_PREFETCHEN :: u32 where "RXBUFCR0_PREFETCHEN = push_bit 31 1"

definition RXBUFCR0_BUFSZ :: "u32 \<Rightarrow> u32" where "RXBUFCR0_BUFSZ n = n AND 0xFF"

definition FLSHCR1_TCSH :: "u32 \<Rightarrow> u32" where "FLSHCR1_TCSH n = push_bit 5 (n AND 0x1F)"

definition FLSHCR1_TCSS :: "u32 \<Rightarrow> u32" where "FLSHCR1_TCSS n = n AND 0x1F"

definition FLSHCR2_AWRSEQID :: "u32 \<Rightarrow> u32" where "FLSHCR2_AWRSEQID n = push_bit 8 (n AND 0x0F)"

definition FLSHCR2_ARDSEQID :: "u32 \<Rightarrow> u32" where "FLSHCR2_ARDSEQID n = n AND 0x0F"

definition IPCR1_ISEQID :: "u32 \<Rightarrow> u32" where "IPCR1_ISEQID n = push_bit 16 (n AND 0x0F)"

definition IPCR1_IDATSZ :: "u32 \<Rightarrow> u32" where "IPCR1_IDATSZ n = n AND 0xFFFF"

definition IPCMD_TRG :: u32 where "IPCMD_TRG = push_bit 0 1"

definition INTR_IPCMDDONE :: u32 where "INTR_IPCMDDONE = push_bit 0 1"

definition INTR_IPRXWA :: u32 where "INTR_IPRXWA = push_bit 5 1"

definition LUTKEY_VALUE :: u32 where "LUTKEY_VALUE = 0x5AF05AF0"

definition LUTCR_UNLOCK :: u32 where "LUTCR_UNLOCK = push_bit 1 1"

text \<open>Two instructions of a look-up table word: opcode, pads and operand.\<close>

definition LUT_LO :: "u32 \<Rightarrow> u32 \<Rightarrow> u32 \<Rightarrow> u32" where
  "LUT_LO opc pads oper = push_bit 10 (opc AND 0x3F) OR push_bit 8 (pads AND 3) OR (oper AND 0xFF)"

definition LUT_HI :: "u32 \<Rightarrow> u32 \<Rightarrow> u32 \<Rightarrow> u32" where
  "LUT_HI opc pads oper = push_bit 16 (LUT_LO opc pads oper)"

definition OP_CMD :: u32 where "OP_CMD = 1"

definition OP_RADDR :: u32 where "OP_RADDR = 2"

definition OP_WRITE :: u32 where "OP_WRITE = 8"

definition OP_READ :: u32 where "OP_READ = 9"

definition OP_DUMMY :: u32 where "OP_DUMMY = 12"

definition PADS1 :: u32 where "PADS1 = 0"

definition PADS4 :: u32 where "PADS4 = 2"

definition SEQ_EXIT_QPI :: nat where "SEQ_EXIT_QPI = 0"

definition SEQ_RST_ENABLE :: nat where "SEQ_RST_ENABLE = 1"

definition SEQ_RESET :: nat where "SEQ_RESET = 2"

definition SEQ_READ_ID :: nat where "SEQ_READ_ID = 3"

definition SEQ_ENTER_QPI :: nat where "SEQ_ENTER_QPI = 4"

definition SEQ_READ_QPI :: nat where "SEQ_READ_QPI = 5"

definition SEQ_WRITE_QPI :: nat where "SEQ_WRITE_QPI = 6"

section \<open>Clocks\<close>

text \<open>\<open>podf\<close> and \<open>sel\<close> of every clock.\<close>

definition clk_table :: "(u8 \<times> u8) list" where
  "clk_table = [(5, 3), (3, 0), (6, 1), (4, 3), (5, 2), (5, 1), (3, 3), (4, 1), (3, 2), (2, 3)]"

definition PSRAM_CLK_COUNT :: nat where "PSRAM_CLK_COUNT = 10"

definition fs2_source_hz :: "'h board \<Rightarrow> u8 \<Rightarrow> 'h \<Rightarrow> u32 \<times> 'h" where
  "fs2_source_hz b sel h =
     (let scaled = (\<lambda>frac. if frac = 0 then 0
            else ucast (((if sel = 0 then 528000000 else 480000000) * 18 :: u64) div ucast (frac :: u32)))
      in if sel = 0 then (case bd_read b CCMA_PFD_528 h of (v, h) \<Rightarrow> (scaled (drop_bit 16 v AND 0x3F), h))
         else if sel = 1 then (case bd_read b CCMA_PFD_480 h of (v, h) \<Rightarrow> (scaled (v AND 0x3F), h))
         else if sel = 2 then (case bd_read b CCMA_PFD_480 h of (v, h) \<Rightarrow> (scaled (drop_bit 8 v AND 0x3F), h))
         else (528000000, h))"

definition psram_clock_hz :: "'h board \<Rightarrow> int \<Rightarrow> 'h \<Rightarrow> u32 \<times> 'h" where
  "psram_clock_hz b index h =
     (if index < 0 \<or> index \<ge> int PSRAM_CLK_COUNT then (0, h)
      else case clk_table ! nat index of
             (podf, sel) \<Rightarrow> (case fs2_source_hz b sel h of (hz, h) \<Rightarrow> (hz div (ucast podf + 1), h)))"

section \<open>Commands\<close>

definition fs2_command :: "'h board \<Rightarrow> nat \<Rightarrow> u32 \<Rightarrow> 'h \<Rightarrow> 'h option" where
  "fs2_command b sq addr h =
     map_option (set_reg b FS2_INTR INTR_IPCMDDONE)
       (wait_for b FS2_INTR (\<lambda>v. v AND INTR_IPCMDDONE \<noteq> 0)
          (in_turn [set_reg b FS2_IPCR0 addr, set_reg b FS2_IPCR1 (IPCR1_ISEQID (of_nat sq)), set_reg b FS2_IPCMD IPCMD_TRG] h))"

definition fs2_read_id :: "'h board \<Rightarrow> u32 \<Rightarrow> 'h \<Rightarrow> (u32 \<times> 'h) option" where
  "fs2_read_id b addr h =
     map_option (\<lambda>h. case bd_read b FS2_RFDR0 h of (v, h) \<Rightarrow> (v, set_reg b FS2_INTR (INTR_IPCMDDONE OR INTR_IPRXWA) h))
       (wait_for b FS2_INTR (\<lambda>v. v AND INTR_IPCMDDONE \<noteq> 0)
          (in_turn [set_reg b FS2_IPCR0 addr, set_reg b FS2_IPCR1 (IPCR1_ISEQID (of_nat SEQ_READ_ID) OR IPCR1_IDATSZ 4),
             set_reg b FS2_IPCMD IPCMD_TRG] h))"

text \<open>The capacity in MB that an identification word stands for.\<close>

definition id_mbytes :: "u32 \<Rightarrow> u8" where
  "id_mbytes i =
     (let part = i AND 0xFFFF
      in if part = 0x5D0D then 8
         else if part = 0x5D9D
              then (let size_bits = drop_bit 21 i AND 7 in if size_bits = 3 then 8 else if size_bits = 4 then 16 else 0)
              else 0)"

text \<open>The capacity and the raw identification of the part at an address.\<close>

definition fs2_probe :: "'h board \<Rightarrow> u32 \<Rightarrow> 'h \<Rightarrow> (u8 \<times> u32 \<times> 'h) option" where
  "fs2_probe b addr h =
     (case fs2_command b SEQ_EXIT_QPI addr h of None \<Rightarrow> None | Some h \<Rightarrow>
      (case fs2_command b SEQ_RST_ENABLE addr h of None \<Rightarrow> None | Some h \<Rightarrow>
       (case fs2_command b SEQ_RESET addr h of None \<Rightarrow> None | Some h \<Rightarrow>
          map_option (\<lambda>(i, h). (id_mbytes i, i, h)) (fs2_read_id b addr h))))"

section \<open>Bring-up\<close>

definition pad_cfg :: "u32 list" where
  "pad_cfg = [0x1B0F9, 0x110F9, 0x1B0F9, 0x100F9, 0x170F9, 0x170F9, 0x170F9, 0x170F9]"

definition fs2_pins :: "'h board \<Rightarrow> 'h \<Rightarrow> 'h" where
  "fs2_pins b h =
     in_turn (concat (map (\<lambda>i. [set_reg b (IOMUXC_PAD_EMC22 + 4 * of_nat i) (pad_cfg ! i),
                                set_reg b (IOMUXC_MUX_EMC22 + 4 * of_nat i) (8 OR 0x10)]) [0..<8])
       @ map (\<lambda>off. set_reg b (IOMUXC_SEL_BASE + off) 1) [0x32C, 0x330, 0x334, 0x338, 0x33C, 0x350]) h"

definition fs2_clock :: "'h board \<Rightarrow> nat \<Rightarrow> 'h \<Rightarrow> 'h" where
  "fs2_clock b index h =
     (case clk_table ! index of
        (podf, sel) \<Rightarrow>
          in_turn
            [mod_reg b CCM_CBCMR (\<lambda>v. v AND NOT (push_bit 29 7 OR push_bit 8 3) OR push_bit 29 (ucast podf) OR push_bit 8 (ucast sel)),
             mod_reg b CCM_CCGR7 (\<lambda>v. v OR push_bit 2 3)] h)"

definition fs2_controller :: "'h board \<Rightarrow> 'h \<Rightarrow> 'h" where
  "fs2_controller b h =
     in_turn
       [mod_reg b FS2_MCR0 (\<lambda>v. v OR MCR0_MDIS),
        mod_reg b FS2_MCR0 (\<lambda>v.
          v AND NOT (MCR0_AHBGRANTWAIT 0xFF OR MCR0_IPGRANTWAIT 0xFF OR MCR0_SCKFREERUNEN OR MCR0_COMBINATIONEN OR MCR0_DOZEEN
               OR MCR0_HSEN OR MCR0_ATDFEN OR MCR0_ARDFEN OR MCR0_RXCLKSRC 3 OR MCR0_SWRESET)
            OR MCR0_AHBGRANTWAIT 0xFF OR MCR0_IPGRANTWAIT 0xFF OR MCR0_RXCLKSRC 1 OR MCR0_MDIS),
        set_reg b FS2_MCR1 (MCR1_SEQWAIT 0xFFFF OR MCR1_AHBBUSWAIT 0xFFFF),
        mod_reg b FS2_MCR2 (\<lambda>v. v AND NOT (MCR2_RESUMEWAIT 0xFF) OR MCR2_RESUMEWAIT 0x20),
        mod_reg b FS2_AHBCR (\<lambda>v. v AND NOT (AHBCR_READADDROPT OR AHBCR_PREFETCHEN OR AHBCR_BUFFERABLEEN OR AHBCR_CACHABLEEN)),
        set_reg b (FS2_AHBRXBUFCR0 0) (RXBUFCR0_PREFETCHEN OR RXBUFCR0_BUFSZ 64),
        set_reg b (FS2_AHBRXBUFCR0 1) (RXBUFCR0_PREFETCHEN OR RXBUFCR0_BUFSZ 64),
        set_reg b (FS2_AHBRXBUFCR0 2) 0,
        set_reg b (FS2_AHBRXBUFCR0 3) 0,
        mod_reg b FS2_IPRXFCR (\<lambda>v. v AND 0xFFFFFFC0 OR 1),
        mod_reg b FS2_IPTXFCR (\<lambda>v. v AND 0xFFFFFFC0 OR 1),
        set_reg b FS2_INTEN 0,
        set_reg b FS2_FLSHA1CR1 (FLSHCR1_TCSH 1 OR FLSHCR1_TCSS 1),
        set_reg b FS2_FLSHA2CR1 (FLSHCR1_TCSH 1 OR FLSHCR1_TCSS 1),
        set_reg b FS2_FLSHA1CR2 (FLSHCR2_AWRSEQID (of_nat SEQ_WRITE_QPI) OR FLSHCR2_ARDSEQID (of_nat SEQ_READ_QPI)),
        set_reg b FS2_FLSHA2CR2 (FLSHCR2_AWRSEQID (of_nat SEQ_WRITE_QPI) OR FLSHCR2_ARDSEQID (of_nat SEQ_READ_QPI)),
        mod_reg b FS2_MCR0 (\<lambda>v. v AND NOT MCR0_MDIS)] h"

text \<open>The words of the look-up table that are not zero.\<close>

definition lut_words :: "(nat \<times> u32) list" where
  "lut_words =
     [(SEQ_EXIT_QPI * 4, LUT_LO OP_CMD PADS4 0xF5),
      (SEQ_RST_ENABLE * 4, LUT_LO OP_CMD PADS1 0x66),
      (SEQ_RESET * 4, LUT_LO OP_CMD PADS1 0x99),
      (SEQ_READ_ID * 4 + 0, LUT_LO OP_CMD PADS1 0x9F OR LUT_HI OP_DUMMY PADS1 24),
      (SEQ_READ_ID * 4 + 1, LUT_LO OP_READ PADS1 1),
      (SEQ_ENTER_QPI * 4, LUT_LO OP_CMD PADS1 0x35),
      (SEQ_READ_QPI * 4 + 0, LUT_LO OP_CMD PADS4 0xEB OR LUT_HI OP_RADDR PADS4 24),
      (SEQ_READ_QPI * 4 + 1, LUT_LO OP_DUMMY PADS4 6 OR LUT_HI OP_READ PADS4 1),
      (SEQ_WRITE_QPI * 4 + 0, LUT_LO OP_CMD PADS4 0x38 OR LUT_HI OP_RADDR PADS4 24),
      (SEQ_WRITE_QPI * 4 + 1, LUT_LO OP_WRITE PADS4 1)]"

definition fs2_lut :: "'h board \<Rightarrow> 'h \<Rightarrow> 'h option" where
  "fs2_lut b h =
     map_option (in_turn ([set_reg b FS2_LUTKEY LUTKEY_VALUE, set_reg b FS2_LUTCR LUTCR_UNLOCK]
          @ map (\<lambda>(n, v). set_reg b (FS2_LUT n) v) lut_words))
       (wait_for b FS2_MCR0 (\<lambda>v. v AND MCR0_SWRESET = 0)
          (in_turn ([set_reg b FS2_LUTKEY LUTKEY_VALUE, set_reg b FS2_LUTCR LUTCR_UNLOCK]
             @ map (\<lambda>i. set_reg b (FS2_LUT i) 0) [0..<64] @ [mod_reg b FS2_MCR0 (\<lambda>v. v OR MCR0_SWRESET)]) h))"

record psram_info =
  pi_chips :: u8
  pi_mbytes :: u32
  pi_chip_mbytes :: "u32 list"
  pi_chip_id :: "u32 list"
  pi_clock_hz :: u32
  pi_clock_index :: u8

definition no_psram :: psram_info where
  "no_psram = \<lparr>pi_chips = 0, pi_mbytes = 0, pi_chip_mbytes = [0, 0], pi_chip_id = [0, 0], pi_clock_hz = 0, pi_clock_index = 0\<rparr>"

text \<open>The return value, \<^verbatim>\<open>g_info\<close> and the board.\<close>

definition psram_init :: "'h board \<Rightarrow> int \<Rightarrow> psram_info \<times> 'h \<Rightarrow> (int \<times> psram_info \<times> 'h) option" where
  "psram_init b clock_index s =
     (case s of (info, h) \<Rightarrow>
        if clock_index < 0 \<or> clock_index \<ge> int PSRAM_CLK_COUNT then Some (- EINVAL, info, h)
        else case psram_clock_hz b clock_index h of
          (hz, h) \<Rightarrow>
            let info = no_psram\<lparr>pi_clock_index := word_of_int clock_index, pi_clock_hz := hz\<rparr>
            in (case fs2_lut b (fs2_controller b (fs2_clock b (nat clock_index) (fs2_pins b h))) of
                  None \<Rightarrow> None
                | Some h \<Rightarrow>
                    (case fs2_probe b 0 h of
                       None \<Rightarrow> None
                     | Some (size1, id1, h) \<Rightarrow>
                         if size1 = 0 then Some (0, info, h)
                         else
                           let addr2 = push_bit 20 (ucast size1)
                           in (case fs2_command b SEQ_ENTER_QPI 0 (set_reg b FS2_FLSHA1CR0 (push_bit 10 (ucast size1)) h) of
                                 None \<Rightarrow> None
                               | Some h \<Rightarrow>
                                   (case fs2_probe b addr2 h of
                                      None \<Rightarrow> None
                                    | Some (size2, id2, h) \<Rightarrow>
                                        map_option (\<lambda>h.
                                          let mb = ucast size1 + ucast size2
                                          in (uint mb, info\<lparr>pi_chips := 1 + (if size2 > 0 then 1 else 0),
                                                pi_chip_mbytes := [ucast size1, ucast size2], pi_chip_id := [id1, id2], pi_mbytes := mb\<rparr>, h))
                                          (if size2 > 0
                                           then fs2_command b SEQ_ENTER_QPI addr2 (set_reg b FS2_FLSHA2CR0 (push_bit 10 (ucast size2)) h)
                                           else Some (set_reg b FS2_FLSHA2CR0 0 h)))))))"

section \<open>Bandwidth\<close>

definition word_addr :: "u32 \<Rightarrow> nat \<Rightarrow> u32" where
  "word_addr off i = PSRAM_BASE + off + 4 * of_nat i"

definition kb_per_s :: "nat \<Rightarrow> int \<Rightarrow> u32" where
  "kb_per_s bytes dt_us = (if dt_us \<le> 0 then 0 else ucast ((of_nat bytes * 1000 :: u64) div word_of_int dt_us))"

text \<open>
  The indices of a loop \<^verbatim>\<open>for (i = 0; i < words; i += stride)\<close>. The benchmarks touch eight words
  each time round; what they read is summed into a local variable that nothing uses.
\<close>

definition strided :: "nat \<Rightarrow> nat \<Rightarrow> nat list" where
  "strided n stride = map (\<lambda>k. k * stride) [0..<(n + stride - 1) div stride]"

definition bench_words :: "nat \<Rightarrow> nat list" where
  "bench_words bytes = concat (map (\<lambda>i. map ((+) i) [0..<8]) (strided (bytes div 4) 8))"

definition psram_bench_read :: "'h board \<Rightarrow> u32 \<Rightarrow> nat \<Rightarrow> 'h \<Rightarrow> u32 \<times> 'h" where
  "psram_bench_read b off bytes h =
     (case bd_ticks b h of
        (t0, h) \<Rightarrow> (case bd_ticks b (foldl (\<lambda>h i. snd (bd_read b (word_addr off i) h)) h (bench_words bytes)) of
                     (t1, h) \<Rightarrow> (kb_per_s bytes (bd_us b (t1 - t0)), h)))"

definition psram_bench_write :: "'h board \<Rightarrow> u32 \<Rightarrow> nat \<Rightarrow> 'h \<Rightarrow> u32 \<times> 'h" where
  "psram_bench_write b off bytes h =
     (case bd_ticks b h of
        (t0, h) \<Rightarrow> (case bd_ticks b (foldl (\<lambda>h i. bd_write b (word_addr off i) (of_nat i) h) h (bench_words bytes)) of
                     (t1, h) \<Rightarrow> (kb_per_s bytes (bd_us b (t1 - t0)), h)))"

section \<open>Memory test\<close>

definition write_pass :: "'h board \<Rightarrow> u32 \<Rightarrow> (nat \<Rightarrow> u32) \<Rightarrow> nat list \<Rightarrow> 'h \<Rightarrow> 'h" where
  "write_pass b off f is h = foldl (\<lambda>h i. bd_write b (word_addr off i) (f i) h) h is"

definition check_pass :: "'h board \<Rightarrow> u32 \<Rightarrow> (nat \<Rightarrow> u32) \<Rightarrow> nat list \<Rightarrow> u32 \<times> 'h \<Rightarrow> u32 \<times> 'h" where
  "check_pass b off f is s =
     foldl (\<lambda>(bad, h) i. case bd_read b (word_addr off i) h of (v, h) \<Rightarrow> (if v \<noteq> f i then bad + 1 else bad, h)) s is"

definition test_pattern :: "nat \<Rightarrow> u32" where
  "test_pattern i = of_nat i XOR 0xA5A5A5A5"

definition psram_memtest :: "'h board \<Rightarrow> u32 \<Rightarrow> nat \<Rightarrow> bool \<Rightarrow> 'h \<Rightarrow> u32 \<times> 'h" where
  "psram_memtest b off bytes quick h =
     (let is = strided (bytes div 4) (if quick then 1024 else 1)
      in case check_pass b off test_pattern is (0, write_pass b off test_pattern is h) of
           (bad, h) \<Rightarrow>
             check_pass b off (\<lambda>i. NOT (test_pattern i)) is (bad, write_pass b off (\<lambda>i. NOT (test_pattern i)) is h))"

section \<open>Clock sweep\<close>

text \<open>The inner loop of the insertion sort: the entry at \<open>j\<close> moves down past faster ones.\<close>

fun sink_clock :: "'h board \<Rightarrow> nat \<Rightarrow> int list \<times> 'h \<Rightarrow> int list \<times> 'h" where
  "sink_clock b 0 s = s"
| "sink_clock b (Suc j) (order, h) =
     (case psram_clock_hz b (order ! Suc j) h of
        (x, h) \<Rightarrow> (case psram_clock_hz b (order ! j) h of
                    (y, h) \<Rightarrow> if x < y then sink_clock b j (order[Suc j := order ! j, j := order ! Suc j], h) else (order, h)))"

definition sort_clocks :: "'h board \<Rightarrow> nat \<Rightarrow> 'h \<Rightarrow> int list \<times> 'h" where
  "sort_clocks b max_index h = foldl (\<lambda>s i. sink_clock b i s) (map int [0..<Suc max_index], h) [1..<Suc max_index]"

definition SWEEP_BYTES :: nat where "SWEEP_BYTES = 1024 * 1024"

text \<open>The loop over the clocks in order; \<^verbatim>\<open>break\<close> leaves with the best one found.\<close>

fun sweep_from :: "'h board \<Rightarrow> int list \<Rightarrow> int \<Rightarrow> u32 \<Rightarrow> psram_info \<times> 'h \<Rightarrow> (int \<times> psram_info \<times> 'h) option" where
  "sweep_from b [] best best_mb s = Some (best, s)"
| "sweep_from b (idx # rest) best best_mb (info, h) =
     (case psram_clock_hz b idx h of
        (hz, h) \<Rightarrow>
          (case psram_init b idx (info, h) of
             None \<Rightarrow> None
           | Some (rc, info, h) \<Rightarrow>
               let mb = word_of_int rc
               in if mb = 0 \<or> mb < best_mb
                  then (if best \<ge> 0 then Some (best, info, h) else sweep_from b rest best best_mb (info, h))
                  else case psram_memtest b (push_bit 20 mb - of_nat SWEEP_BYTES) SWEEP_BYTES False h of
                         (bad, h) \<Rightarrow>
                           (case psram_bench_read b 0 (512 * 1024) h of
                              (kbps, h) \<Rightarrow>
                                if bad = 0 then sweep_from b rest idx mb (info, h)
                                else if best \<ge> 0 then Some (best, info, h)
                                else sweep_from b rest best best_mb (info, h))))"

definition psram_clock_sweep :: "'h board \<Rightarrow> int \<Rightarrow> psram_info \<times> 'h \<Rightarrow> (int \<times> psram_info \<times> 'h) option" where
  "psram_clock_sweep b max_index s =
     (let top_index = (if max_index < 0 \<or> max_index \<ge> int PSRAM_CLK_COUNT then PSRAM_CLK_COUNT - 1 else nat max_index)
      in case s of (info, h) \<Rightarrow>
        (case sort_clocks b top_index h of
           (order, h) \<Rightarrow>
             (case sweep_from b order (-1) 0 (info, h) of
                None \<Rightarrow> None
              | Some (best, info, h) \<Rightarrow>
                  if best < 0 then Some (- EIO, info, h)
                  else map_option (\<lambda>(rc, info, h). (best, info, h)) (psram_init b best (info, h)))))"

section \<open>What the memory test proves\<close>

text \<open>
  A memory that may be damaged: word \<open>i\<close> is kept in cell \<open>line i\<close> (two words share a cell where an
  address line is mis-decoded), the bits \<open>lo c\<close> of cell \<open>c\<close> always read as 0 and the bits \<open>hi c\<close> as
  1 (stuck or shorted data lines). \<open>P\<close> holds of the states in which it behaves like that.
\<close>

definition seen :: "(nat \<Rightarrow> u32) \<Rightarrow> (nat \<Rightarrow> u32) \<Rightarrow> nat \<Rightarrow> u32 \<Rightarrow> u32" where
  "seen lo hi c v = (v AND NOT (lo c)) OR hi c"

definition memory_is ::
  "('h \<Rightarrow> bool) \<Rightarrow> 'h board \<Rightarrow> u32 \<Rightarrow> nat \<Rightarrow> ('h \<Rightarrow> nat \<Rightarrow> u32) \<Rightarrow> (nat \<Rightarrow> nat) \<Rightarrow> (nat \<Rightarrow> u32) \<Rightarrow> (nat \<Rightarrow> u32) \<Rightarrow> bool" where
  "memory_is P b off n cells line lo hi \<longleftrightarrow>
     (\<forall>h i. P h \<longrightarrow> i < n \<longrightarrow>
        bd_read b (word_addr off i) h = (seen lo hi (line i) (cells h (line i)), h)
        \<and> (\<forall>v. P (bd_write b (word_addr off i) v h) \<and> cells (bd_write b (word_addr off i) v h) = (cells h)(line i := v)))"

text \<open>The words that a test of \<open>bytes\<close> bytes touches.\<close>

definition tested :: "nat \<Rightarrow> bool \<Rightarrow> nat set" where
  "tested bytes quick = {i. i < bytes div 4 \<and> (quick \<longrightarrow> 1024 dvd i)}"

lemma strided_bound: "0 < s \<Longrightarrow> k < (n + s - 1) div s \<longleftrightarrow> k * s < n" for n k s :: nat
proof -
  assume s: "0 < s"
  have "k < (n + s - 1) div s \<longleftrightarrow> Suc k * s \<le> n + s - 1"
    by (simp only: less_eq_div_iff_mult_less_eq [OF s] Suc_le_eq [symmetric])
  then show ?thesis using s by auto
qed

lemma set_strided: "0 < s \<Longrightarrow> set (strided n s) = {i. i < n \<and> s dvd i}"
proof (rule set_eqI)
  fix i assume s: "0 < s"
  have "i \<in> set (strided n s) \<longleftrightarrow> (\<exists>k. i = k * s \<and> k * s < n)"
    using strided_bound [OF s] by (auto simp: strided_def simp del: One_nat_def)
  also have "\<dots> \<longleftrightarrow> i < n \<and> s dvd i" by (metis dvd_def mult.commute)
  finally show "i \<in> set (strided n s) \<longleftrightarrow> i \<in> {i. i < n \<and> s dvd i}" by simp
qed

lemma set_tested: "set (strided (bytes div 4) (if quick then 1024 else 1)) = tested bytes quick"
  using set_strided [of "if quick then 1024 else 1" "bytes div 4"] by (cases quick) (auto simp: tested_def)

lemma strided_distinct: "0 < s \<Longrightarrow> distinct (strided n s)"
  by (simp add: strided_def distinct_map inj_on_def)

lemma strided_length: "0 < s \<Longrightarrow> length (strided n s) \<le> n"
proof -
  assume s: "0 < s"
  have "card (set (strided n s)) \<le> card {..<n}" by (rule card_mono) (auto simp: set_strided [OF s])
  then show ?thesis using distinct_card [OF strided_distinct [OF s]] by simp
qed

lemma write_pass_cells:
  assumes "memory_is P b off n cells line lo hi" and "P h" and "set is \<subseteq> {..<n}"
  shows "P (write_pass b off f is h) \<and> cells (write_pass b off f is h) = foldl (\<lambda>m i. m(line i := f i)) (cells h) is"
  using assms(2,3)
proof (induction "is" arbitrary: h)
  case (Cons i "is")
  then have "P (bd_write b (word_addr off i) (f i) h)" "cells (bd_write b (word_addr off i) (f i) h) = (cells h)(line i := f i)"
    using assms(1) by (simp_all add: memory_is_def)
  with Cons show ?case unfolding write_pass_def foldl_Cons by (simp del: fun_upd_apply)
qed (simp add: write_pass_def)

lemma check_pass_count:
  assumes "memory_is P b off n cells line lo hi" and "P h" and "set is \<subseteq> {..<n}"
  shows "check_pass b off f is (bad, h) =
    (bad + of_nat (length (filter (\<lambda>i. seen lo hi (line i) (cells h (line i)) \<noteq> f i) is)), h)"
  using assms(3)
proof (induction "is" arbitrary: bad)
  case (Cons i "is")
  then have "bd_read b (word_addr off i) h = (seen lo hi (line i) (cells h (line i)), h)"
    using assms(1,2) by (simp add: memory_is_def)
  with Cons show ?case by (simp add: check_pass_def)
qed (simp add: check_pass_def)

text \<open>After a pass every cell holds the value of one of the words that share it.\<close>

lemma last_write:
  assumes "i \<in> set is"
  shows "\<exists>j \<in> set is. line j = line i \<and> foldl (\<lambda>m i. m(line i := f i)) m is (line i) = f j"
  using assms
proof (induction "is" rule: rev_induct)
  case (snoc k ks)
  then show ?case by (cases "line k = line i") auto
qed simp

lemma word_of_small: "k < 2 ^ 32 \<Longrightarrow> unat (of_nat k :: u32) = k"
  using unat_of_nat_id [of k, where 'w = 32] by simp

lemma pattern_inj: "i < 2 ^ 32 \<Longrightarrow> j < 2 ^ 32 \<Longrightarrow> test_pattern i = test_pattern j \<longleftrightarrow> i = j"
proof -
  assume "i < 2 ^ 32" "j < 2 ^ 32"
  moreover have "test_pattern k XOR 0xA5A5A5A5 = of_nat k" for k by (simp add: test_pattern_def xor.assoc)
  ultimately show ?thesis using word_of_small by metis
qed

lemma count_both:
  assumes "length xs + length ys < 2 ^ 32"
  shows "(0 :: u32) + of_nat (length (filter p xs)) + of_nat (length (filter q ys)) = 0 \<longleftrightarrow> (\<forall>x \<in> set xs. \<not> p x) \<and> (\<forall>y \<in> set ys. \<not> q y)"
proof -
  define k where "k = length (filter p xs) + length (filter q ys)"
  have "k < 2 ^ 32" using assms length_filter_le [of p xs] length_filter_le [of q ys] unfolding k_def by linarith
  then have "(of_nat k :: u32) = 0 \<longleftrightarrow> k = 0" using word_of_small [of k] by auto
  also have "\<dots> \<longleftrightarrow> filter p xs = [] \<and> filter q ys = []" by (simp add: k_def)
  finally show ?thesis unfolding filter_empty_conv k_def by simp
qed

lemma seen_both:
  assumes "seen lo hi c v = v" and "seen lo hi c (NOT v) = NOT v"
  shows "lo c = 0 \<and> hi c = 0"
proof -
  have b: "\<not> bit (lo c) k \<and> \<not> bit (hi c) k" if "k < 32" for k
    using arg_cong [OF assms(1), of "\<lambda>w. bit w k"] arg_cong [OF assms(2), of "\<lambda>w. bit w k"] that
    by (auto simp: seen_def bit_simps)
  show ?thesis using b by (auto intro!: bit_word_eqI)
qed

lemma memtest_finds:
  assumes m: "memory_is P b off (bytes div 4) cells line lo hi" and P: "P h" and n: "bytes < 2 ^ 32"
  shows "fst (psram_memtest b off bytes quick h) = 0 \<longleftrightarrow>
    inj_on line (tested bytes quick) \<and> (\<forall>i \<in> tested bytes quick. lo (line i) = 0 \<and> hi (line i) = 0)"
proof -
  let ?is = "strided (bytes div 4) (if quick then 1024 else 1)" and ?T = "tested bytes quick"
  let ?g = "\<lambda>i. NOT (test_pattern i)"
  have T: "set ?is = ?T" by (rule set_tested)
  have s: "set ?is \<subseteq> {..<bytes div 4}" unfolding T by (auto simp: tested_def)
  have len: "length ?is + length ?is < 2 ^ 32" 
    using strided_length [of 1024 "bytes div 4"] strided_length [of 1 "bytes div 4"] n by (cases quick) simp_all
  define m1 where "m1 = foldl (\<lambda>m i. m(line i := test_pattern i)) (cells h) ?is"
  define m2 where "m2 = foldl (\<lambda>m i. m(line i := ?g i)) m1 ?is"
  note w1 = write_pass_cells [OF m P s, of test_pattern, folded m1_def]
  note w2 = write_pass_cells [OF m conjunct1 [OF w1] s, of ?g, unfolded conjunct2 [OF w1], folded m2_def]
  note c1 = check_pass_count [OF m conjunct1 [OF w1] s, of test_pattern, unfolded conjunct2 [OF w1]]
  note c2 = check_pass_count [OF m conjunct1 [OF w2] s, of ?g, unfolded conjunct2 [OF w2]]
  have "fst (psram_memtest b off bytes quick h) = 0 \<longleftrightarrow>
      (\<forall>i \<in> ?T. seen lo hi (line i) (m1 (line i)) = test_pattern i) \<and> (\<forall>i \<in> ?T. seen lo hi (line i) (m2 (line i)) = ?g i)"
    unfolding psram_memtest_def Let_def c1 prod.case c2 fst_conv count_both [OF len] T by blast
  also have "\<dots> \<longleftrightarrow> inj_on line ?T \<and> (\<forall>i \<in> ?T. lo (line i) = 0 \<and> hi (line i) = 0)" (is "?L \<longleftrightarrow> ?R")
  proof
    have v1: "\<exists>j \<in> ?T. line j = line i \<and> m1 (line i) = test_pattern j" and v2: "\<exists>j \<in> ?T. line j = line i \<and> m2 (line i) = ?g j" if "i \<in> ?T" for i
      using last_write [of i ?is line test_pattern "cells h"] last_write [of i ?is line ?g m1] that
      unfolding T m1_def [symmetric] m2_def [symmetric] by blast+
    have small: "i < 2 ^ 32" if "i \<in> ?T" for i
    proof -
      have "i < bytes div 4" using that by (simp add: tested_def)
      then show ?thesis using n div_le_dividend [of bytes 4] by linarith
    qed
    {
      assume L: ?L
      have inj: "i = j" if "i \<in> ?T" "j \<in> ?T" "line i = line j" for i j
        using L that pattern_inj [OF small small] by metis
      have "lo (line i) = 0 \<and> hi (line i) = 0" if i: "i \<in> ?T" for i
        using seen_both [of lo hi "line i" "test_pattern i"] L v1 [OF i] v2 [OF i] inj i by metis
      with inj show ?R by (auto intro!: inj_onI)
    }
    assume R: ?R
    have "m1 (line i) = test_pattern i \<and> m2 (line i) = ?g i" if "i \<in> ?T" for i
      using v1 [OF that] v2 [OF that] R that by (metis inj_on_eq_iff)
    then show ?L using R by (simp add: seen_def)
  qed
  finally show ?thesis .
qed

section \<open>What the bring-up reports\<close>

text \<open>
  The controller finishes: however often the interrupt register was read, some later read shows a
  finished command, and some later read of \<^verbatim>\<open>MCR0\<close> shows that the software reset is over.
\<close>

definition shows_up :: "'h board \<Rightarrow> u32 \<Rightarrow> (u32 \<Rightarrow> bool) \<Rightarrow> bool" where
  "shows_up b a p \<longleftrightarrow> (\<forall>h. \<exists>n. p (fst (bd_read b a (((\<lambda>h. snd (bd_read b a h)) ^^ n) h))))"

definition responds :: "'h board \<Rightarrow> bool" where
  "responds b \<longleftrightarrow> shows_up b FS2_INTR (\<lambda>v. v AND INTR_IPCMDDONE \<noteq> 0) \<and> shows_up b FS2_MCR0 (\<lambda>v. v AND MCR0_SWRESET = 0)"

lemma wait_for_step: "wait_for b a p h = (if p (fst (bd_read b a h)) then Some (snd (bd_read b a h)) else wait_for b a p (snd (bd_read b a h)))"
  by (subst wait_for.simps) (simp add: split_def)

lemma wait_for_returns: "shows_up b a p \<Longrightarrow> \<exists>h'. wait_for b a p h = Some h'"
proof -
  assume "shows_up b a p"
  then obtain n where "p (fst (bd_read b a (((\<lambda>h. snd (bd_read b a h)) ^^ n) h)))" unfolding shows_up_def by blast
  then show ?thesis
  proof (induction n arbitrary: h)
    case 0
    then show ?case by (subst wait_for_step) simp
  next
    case (Suc n)
    from Suc.IH [OF Suc.prems [unfolded funpow_Suc_right o_apply]] show ?case by (subst wait_for_step) simp
  qed
qed

lemma commands_return:
  assumes "responds b"
  shows "\<exists>h'. fs2_command b sq addr h = Some h'" and "\<exists>i h'. fs2_read_id b addr h = Some (i, h')"
    and "\<exists>i h'. fs2_probe b addr h = Some (id_mbytes i, i, h')" and "\<exists>h'. fs2_lut b h = Some h'"
proof -
  have c: "\<exists>h'. fs2_command b sq addr h = Some h'" for sq h
    using wait_for_returns [of b FS2_INTR "\<lambda>v. v AND INTR_IPCMDDONE \<noteq> 0"] assms
    unfolding fs2_command_def responds_def by fastforce
  have i: "\<exists>i h'. fs2_read_id b addr h = Some (i, h')" for h
    using wait_for_returns [of b FS2_INTR "\<lambda>v. v AND INTR_IPCMDDONE \<noteq> 0"] assms
    unfolding fs2_read_id_def responds_def by (fastforce simp: split_def)
  show "\<exists>h'. fs2_command b sq addr h = Some h'" "\<exists>i h'. fs2_read_id b addr h = Some (i, h')" by (fact c i)+
  show "\<exists>i h'. fs2_probe b addr h = Some (id_mbytes i, i, h')"
  proof -
    obtain h1 where 1: "fs2_command b SEQ_EXIT_QPI addr h = Some h1" using c by blast
    obtain h2 where 2: "fs2_command b SEQ_RST_ENABLE addr h1 = Some h2" using c by blast
    obtain h3 where 3: "fs2_command b SEQ_RESET addr h2 = Some h3" using c by blast
    obtain v h4 where 4: "fs2_read_id b addr h3 = Some (v, h4)" using i by blast
    show ?thesis by (simp add: fs2_probe_def 1 2 3 4)
  qed
  show "\<exists>h'. fs2_lut b h = Some h'"
    using wait_for_returns [of b FS2_MCR0 "\<lambda>v. v AND MCR0_SWRESET = 0"] assms
    unfolding fs2_lut_def responds_def by fastforce
qed

lemma id_mbytes_cases: "id_mbytes i = 0 \<or> id_mbytes i = 8 \<or> id_mbytes i = 16"
  by (simp add: id_mbytes_def Let_def)

text \<open>What \<^verbatim>\<open>g_info\<close> says after a bring-up at clock \<open>idx\<close> that returned \<open>rc\<close>.\<close>

definition info_sound :: "int \<Rightarrow> int \<Rightarrow> psram_info \<Rightarrow> bool" where
  "info_sound idx rc info \<longleftrightarrow>
     (\<exists>m1 m2. pi_chip_mbytes info = [m1, m2] \<and> m1 \<in> {0, 8, 16} \<and> m2 \<in> {0, 8, 16} \<and> (m1 = 0 \<longrightarrow> m2 = 0)
        \<and> pi_mbytes info = m1 + m2 \<and> uint (pi_mbytes info) = uint m1 + uint m2 \<and> rc = uint (pi_mbytes info)
        \<and> unat (pi_chips info) = (if m1 = 0 then 0 else if m2 = 0 then 1 else 2))
     \<and> uint (pi_clock_index info) = idx"

lemma init_reports:
  assumes "responds b" and "0 \<le> idx" and "idx < int PSRAM_CLK_COUNT"
  shows "\<exists>rc info h'. psram_init b idx s = Some (rc, info, h') \<and> info_sound idx rc info"
proof -
  obtain info h where s: "s = (info, h)" by (cases s)
  obtain hz h0 where hz: "psram_clock_hz b idx h = (hz, h0)" by fastforce
  let ?info = "no_psram\<lparr>pi_clock_index := word_of_int idx, pi_clock_hz := hz\<rparr>"
  obtain h1 where 1: "fs2_lut b (fs2_controller b (fs2_clock b (nat idx) (fs2_pins b h0))) = Some h1"
    using commands_return(4) [OF assms(1)] by blast
  obtain i1 h2 where 2: "fs2_probe b 0 h1 = Some (id_mbytes i1, i1, h2)" using commands_return(3) [OF assms(1)] by blast
  have ix: "uint (word_of_int idx :: u8) = idx" using assms(2,3) by (simp add: uint_word_of_int PSRAM_CLK_COUNT_def)
  note d = psram_init_def s prod.case hz Let_def 1 2
  have g: "\<not> (idx < 0 \<or> int PSRAM_CLK_COUNT \<le> idx)" using assms(2,3) by simp
  show ?thesis
  proof (cases "id_mbytes i1 = 0")
    case True
    then have "psram_init b idx s = Some (0, ?info, h2)" by (simp add: d g)
    moreover have "info_sound idx 0 ?info" using ix by (simp add: info_sound_def no_psram_def)
    ultimately show ?thesis by blast
  next
    case False
    obtain h3 where 3: "fs2_command b SEQ_ENTER_QPI 0 (set_reg b FS2_FLSHA1CR0 (push_bit 10 (ucast (id_mbytes i1))) h2) = Some h3"
      using commands_return(1) [OF assms(1)] by blast
    let ?a = "push_bit 20 (ucast (id_mbytes i1)) :: u32"
    obtain i2 h4 where 4: "fs2_probe b ?a h3 = Some (id_mbytes i2, i2, h4)" using commands_return(3) [OF assms(1)] by blast
    have "\<exists>h5. (if id_mbytes i2 > 0
        then fs2_command b SEQ_ENTER_QPI ?a (set_reg b FS2_FLSHA2CR0 (push_bit 10 (ucast (id_mbytes i2))) h4)
        else Some (set_reg b FS2_FLSHA2CR0 0 h4)) = Some h5"
      using commands_return(1) [OF assms(1)] by auto
    then obtain h5 where 5: "(if id_mbytes i2 > 0
        then fs2_command b SEQ_ENTER_QPI ?a (set_reg b FS2_FLSHA2CR0 (push_bit 10 (ucast (id_mbytes i2))) h4)
        else Some (set_reg b FS2_FLSHA2CR0 0 h4)) = Some h5" by blast
    let ?mb = "ucast (id_mbytes i1) + ucast (id_mbytes i2) :: u32"
    let ?r = "?info\<lparr>pi_chips := 1 + (if id_mbytes i2 > 0 then 1 else 0), pi_chip_mbytes := [ucast (id_mbytes i1), ucast (id_mbytes i2)],
      pi_chip_id := [i1, i2], pi_mbytes := ?mb\<rparr>"
    have "psram_init b idx s = Some (uint ?mb, ?r, h5)"
      unfolding d if_not_P [OF g] if_not_P [OF False] 3 option.case 4 prod.case 5 by simp
    moreover have "info_sound idx (uint ?mb) ?r"
      using id_mbytes_cases [of i1] id_mbytes_cases [of i2] False ix by (auto simp: info_sound_def)
    ultimately show ?thesis by blast
  qed
qed

section \<open>The clock that the sweep settles on\<close>

text \<open>The fractions of the two PLLs stay as they are; then every clock has its frequency.\<close>

definition steady_plls :: "'h board \<Rightarrow> u32 \<Rightarrow> u32 \<Rightarrow> bool" where
  "steady_plls b p480 p528 \<longleftrightarrow> (\<forall>h. bd_read b CCMA_PFD_480 h = (p480, h) \<and> bd_read b CCMA_PFD_528 h = (p528, h))"

definition clock_at :: "u32 \<Rightarrow> u32 \<Rightarrow> int \<Rightarrow> nat" where
  "clock_at p480 p528 idx =
     (case clk_table ! nat idx of
        (podf, sel) \<Rightarrow>
          (let frac = unat (if sel = 0 then drop_bit 16 p528 AND 0x3F else if sel = 1 then p480 AND 0x3F else drop_bit 8 p480 AND 0x3F)
           in (if sel = 3 then 528000000 else if frac = 0 then 0
               else (if sel = 0 then 528000000 else 480000000) * 18 div frac mod 2 ^ 32) div (unat podf + 1)))"

lemma table_entry_cases:
  assumes "idx < 10"
  shows "clk_table ! idx \<in> {(5, 3), (3, 0), (6, 1), (4, 3), (5, 2), (5, 1), (3, 3), (4, 1), (3, 2), (2, 3)}"
proof -
  have "length clk_table = 10" by (simp add: clk_table_def)
  with assms have "clk_table ! idx \<in> set clk_table" by simp
  then show ?thesis by (simp add: clk_table_def)
qed

lemma unat_clock_div: "unat (v div (ucast (p :: u8) + 1) :: u32) = unat v div (unat p + 1)"
proof -
  have "unat (ucast p + 1 :: u32) = unat p + 1"
    using unat8_less [of p] by (simp add: unat_add_small unat_ucast_mod)
  then show ?thesis by (simp add: unat_div)
qed

lemma scaled_clock:
  assumes "f \<noteq> (0 :: u32)"
  shows "unat (ucast ((c :: u64) div ucast f) :: u32) = unat c div unat f mod 2 ^ 32"
  using unat32_less [of f] by (simp add: unat_ucast_mod unat_div)

lemma clock_hz_value:
  assumes p: "steady_plls b p480 p528" and i: "0 \<le> idx" "idx < int PSRAM_CLK_COUNT"
  shows "\<exists>hz. psram_clock_hz b idx h = (hz, h) \<and> unat hz = clock_at p480 p528 idx"
proof -
  have ix: "nat idx < 10" using i by (simp add: PSRAM_CLK_COUNT_def)
  obtain podf sel where e: "clk_table ! nat idx = (podf, sel)" by fastforce
  have sel: "sel = 0 \<or> sel = 1 \<or> sel = 2 \<or> sel = 3" using table_entry_cases [OF ix] unfolding e by auto
  have r: "bd_read b CCMA_PFD_480 h = (p480, h)" "bd_read b CCMA_PFD_528 h = (p528, h)" using p by (simp_all add: steady_plls_def)
  have z: "unat f = 0 \<longleftrightarrow> f = 0" for f :: u32 by (simp add: unat_eq_0)
  have g: "\<not> (idx < 0 \<or> int PSRAM_CLK_COUNT \<le> idx)" using i by simp
  show ?thesis
    unfolding psram_clock_hz_def if_not_P [OF g] e prod.case fs2_source_hz_def clock_at_def Let_def r
    using sel by (elim disjE) (simp_all add: unat_clock_div scaled_clock z)
qed

text \<open>The insertion sort, over frequencies that do not change.\<close>

lemma sink_clock_sorts:
  assumes p: "steady_plls b p480 p528" and "j < length xs" and "\<forall>x \<in> set xs. 0 \<le> x \<and> x < int PSRAM_CLK_COUNT"
    and "sorted (map (clock_at p480 p528) (take j xs))"
  shows "\<exists>ys. sink_clock b j (xs, h) = (ys, h) \<and> mset ys = mset xs \<and> length ys = length xs \<and> drop (Suc j) ys = drop (Suc j) xs
    \<and> sorted (map (clock_at p480 p528) (take (Suc j) ys))"
  using assms(2-4)
proof (induction j arbitrary: xs)
  case 0
  then show ?case by (cases xs) auto
next
  case (Suc j)
  let ?k = "clock_at p480 p528"
  have in_range: "xs ! i \<in> set xs" if "i < length xs" for i using that by simp
  obtain x where x: "psram_clock_hz b (xs ! Suc j) h = (x, h)" "unat x = ?k (xs ! Suc j)"
    using clock_hz_value [OF p, of "xs ! Suc j"] Suc.prems(1,2) in_range by (metis Suc_lessD)
  obtain y where y: "psram_clock_hz b (xs ! j) h = (y, h)" "unat y = ?k (xs ! j)"
    using clock_hz_value [OF p, of "xs ! j"] Suc.prems(1,2) in_range by (metis Suc_lessD)
  have t: "take (Suc j) xs = take j xs @ [xs ! j]" using Suc.prems(1) by (simp add: take_Suc_conv_app_nth)
  show ?case
  proof (cases "x < y")
    case False
    have "take (Suc (Suc j)) xs = take j xs @ [xs ! j, xs ! Suc j]" using Suc.prems(1) by (simp add: take_Suc_conv_app_nth)
    moreover have "?k (xs ! j) \<le> ?k (xs ! Suc j)" using False x(2) y(2) by (simp add: word_less_nat_alt)
    ultimately have "sorted (map ?k (take (Suc (Suc j)) xs))"
      using Suc.prems(3) unfolding t by (auto simp: sorted_append)
    then show ?thesis using False x y by simp
  next
    case True
    let ?zs = "xs[Suc j := xs ! j, j := xs ! Suc j]"
    have zs: "length ?zs = length xs" "take j ?zs = take j xs" "mset ?zs = mset xs" "set ?zs = set xs"
      "drop (Suc (Suc j)) ?zs = drop (Suc (Suc j)) xs" "?zs ! Suc j = xs ! j" "?zs ! j = xs ! Suc j"
      using Suc.prems(1) by (simp_all add: mset_swap set_swap)
    have s: "sorted (map ?k (take j ?zs))" using Suc.prems(3) unfolding zs(2) t by (simp add: sorted_append)
    obtain ys where ys: "sink_clock b j (?zs, h) = (ys, h)" "mset ys = mset ?zs" "length ys = length ?zs"
        "drop (Suc j) ys = drop (Suc j) ?zs" "sorted (map ?k (take (Suc j) ys))"
      using Suc.IH [of ?zs] Suc.prems(1,2) s zs(1,4) by auto
    have "drop (Suc j) ys = xs ! j # drop (Suc (Suc j)) ?zs"
      using Suc.prems(1) zs(1,6) unfolding ys(4) by (metis Cons_nth_drop_Suc)
    then have d: "ys ! Suc j = xs ! j" "drop (Suc (Suc j)) ys = drop (Suc (Suc j)) xs"
      using Suc.prems(1) ys(3) zs(1,5) by (metis Cons_nth_drop_Suc list.inject)+
    have "mset (take (Suc j) ys) = mset (take (Suc j) ?zs)"
      by (metis (no_types) append_take_drop_id mset_append add_right_cancel ys(2,4))
    moreover have "take (Suc j) ?zs = take j xs @ [xs ! Suc j]"
      using Suc.prems(1) zs(1,2,7) by (metis Suc_lessD take_Suc_conv_app_nth)
    ultimately have st: "set (take (Suc j) ys) = set (take j xs) \<union> {xs ! Suc j}"
      by (metis set_mset_mset set_append list.set(1,2))
    have "?k a \<le> ?k (xs ! j)" if "a \<in> set (take (Suc j) ys)" for a
      using that Suc.prems(3) True x(2) y(2) unfolding st t by (auto simp: sorted_append word_less_nat_alt)
    moreover have "take (Suc (Suc j)) ys = take (Suc j) ys @ [xs ! j]"
      using Suc.prems(1) ys(3) zs(1) d(1) by (simp add: take_Suc_conv_app_nth)
    ultimately have "sorted (map ?k (take (Suc (Suc j)) ys))" using ys(5) by (simp add: sorted_append)
    then show ?thesis using True x y ys zs d by simp
  qed
qed

lemma sort_clocks_sorts:
  assumes p: "steady_plls b p480 p528" and m: "m < PSRAM_CLK_COUNT"
  shows "\<exists>ys. sort_clocks b m h = (ys, h) \<and> mset ys = mset (map int [0..<Suc m]) \<and> sorted (map (clock_at p480 p528) ys)"
proof -
  let ?k = "clock_at p480 p528" and ?xs = "map int [0..<Suc m]"
  have "\<exists>ys. foldl (\<lambda>s i. sink_clock b i s) (?xs, h) [1..<Suc n] = (ys, h) \<and> mset ys = mset ?xs \<and> sorted (map ?k (take (Suc n) ys))"
    if "n \<le> m" for n
    using that
  proof (induction n)
    case 0
    have "sorted (map ?k (take (Suc 0) ?xs))" by (cases "?xs") simp_all
    then show ?case by simp
  next
    case (Suc n)
    then obtain ys where ys: "foldl (\<lambda>s i. sink_clock b i s) (?xs, h) [1..<Suc n] = (ys, h)" "mset ys = mset ?xs"
      "sorted (map ?k (take (Suc n) ys))" by auto
    have "length ys = Suc m" using arg_cong [OF ys(2), of size] by simp
    moreover have "set ys = set ?xs" using ys(2) by (metis set_mset_mset)
    ultimately obtain zs where "sink_clock b (Suc n) (ys, h) = (zs, h)" "mset zs = mset ys" "sorted (map ?k (take (Suc (Suc n)) zs))"
      using sink_clock_sorts [OF p, of "Suc n" ys] ys(3) Suc.prems m by (auto simp: less_Suc_eq_le)
    then show ?case using ys by simp
  qed
  from this [of m] obtain ys where ys: "sort_clocks b m h = (ys, h)" "mset ys = mset ?xs" "sorted (map ?k (take (Suc m) ys))"
    by (auto simp: sort_clocks_def simp del: upt_Suc)
  moreover have "length ys = Suc m" using arg_cong [OF ys(2), of size] by simp
  ultimately show ?thesis by simp
qed

text \<open>
  A board on which the clocks \<open>ok\<close> work: at those all \<open>full\<close> MB answer and pass the memory test, at
  the others some memory is missing or fails it. Whatever the state, a bring-up returns.
\<close>

definition sweep_window :: "int \<Rightarrow> u32" where
  "sweep_window mb = push_bit 20 (word_of_int mb) - of_nat SWEEP_BYTES"

definition board_runs :: "'h board \<Rightarrow> int \<Rightarrow> (int \<Rightarrow> bool) \<Rightarrow> bool" where
  "board_runs b full ok \<longleftrightarrow> 0 < full \<and> full \<le> 32 \<and>
     (\<forall>idx s. 0 \<le> idx \<and> idx < int PSRAM_CLK_COUNT \<longrightarrow>
        (\<exists>rc info h. psram_init b idx s = Some (rc, info, h) \<and> 0 \<le> rc \<and> rc \<le> full \<and>
           (if ok idx then rc = full \<and> fst (psram_memtest b (sweep_window full) SWEEP_BYTES False h) = 0
            else rc < full \<or> fst (psram_memtest b (sweep_window full) SWEEP_BYTES False h) \<noteq> 0)))"

lemma board_runs_ok:
  assumes "board_runs b full ok" and "0 \<le> idx" and "idx < int PSRAM_CLK_COUNT" and "ok idx"
  shows "\<exists>rc info h. psram_init b idx s = Some (rc, info, h) \<and> rc = full
    \<and> fst (psram_memtest b (sweep_window full) SWEEP_BYTES False h) = 0"
  using assms unfolding board_runs_def by (metis (no_types, lifting))

lemma mb_word: "0 \<le> mb \<Longrightarrow> mb \<le> 32 \<Longrightarrow> uint (word_of_int mb :: u32) = mb"
  by (simp add: uint_word_of_int)

lemma mb_compare:
  assumes "0 \<le> mb" "mb \<le> 32" "0 \<le> mb'" "mb' \<le> 32"
  shows "(word_of_int mb :: u32) < word_of_int mb' \<longleftrightarrow> mb < mb'" and "(word_of_int mb :: u32) = 0 \<longleftrightarrow> mb = 0"
  using mb_word [OF assms(1,2)] mb_word [OF assms(3,4)] by (simp_all add: word_less_def) (metis uint_0_iff)

lemma sweep_ok_step:
  assumes r: "board_runs b full ok" and i: "0 \<le> idx" "idx < int PSRAM_CLK_COUNT" "ok idx" and m: "mb = 0 \<or> mb = full"
  shows "\<exists>s'. sweep_from b (idx # rest) best (word_of_int mb) s = sweep_from b rest idx (word_of_int full) s'"
proof -
  obtain info h where s: "s = (info, h)" by (cases s)
  obtain hz h0 where hz: "psram_clock_hz b idx h = (hz, h0)" by fastforce
  have f: "0 < full" "full \<le> 32" using r by (simp_all add: board_runs_def)
  obtain info1 h1 where 1: "psram_init b idx (info, h0) = Some (full, info1, h1)"
    "fst (psram_memtest b (sweep_window full) SWEEP_BYTES False h1) = 0"
    using r i unfolding board_runs_def by (metis (no_types, lifting))
  obtain h2 where 2: "psram_memtest b (push_bit 20 (word_of_int full) - of_nat SWEEP_BYTES) SWEEP_BYTES False h1 = (0, h2)"
    using 1(2) unfolding sweep_window_def by (cases "psram_memtest b (push_bit 20 (word_of_int full) - of_nat SWEEP_BYTES) SWEEP_BYTES False h1") simp
  obtain kb h3 where 3: "psram_bench_read b 0 (512 * 1024) h2 = (kb, h3)" by fastforce
  have n: "\<not> ((word_of_int full :: u32) = 0 \<or> (word_of_int full :: u32) < word_of_int mb)"
    using mb_compare [of full mb] f m by auto
  have "sweep_from b (idx # rest) best (word_of_int mb) s = sweep_from b rest idx (word_of_int full) (info1, h3)"
    unfolding s sweep_from.simps(2) hz prod.case 1(1) option.case Let_def if_not_P [OF n] 2 3 by simp
  then show ?thesis by blast
qed

lemma sweep_bad_step:
  assumes r: "board_runs b full ok" and i: "0 \<le> idx" "idx < int PSRAM_CLK_COUNT" "\<not> ok idx" and "0 \<le> best"
  shows "\<exists>s'. sweep_from b (idx # rest) best (word_of_int full) s = Some (best, s')"
proof -
  obtain info h where s: "s = (info, h)" by (cases s)
  obtain hz h0 where hz: "psram_clock_hz b idx h = (hz, h0)" by fastforce
  have f: "0 < full" "full \<le> 32" using r by (simp_all add: board_runs_def)
  obtain rc info1 h1 where 1: "psram_init b idx (info, h0) = Some (rc, info1, h1)" "0 \<le> rc" "rc \<le> full"
    "rc < full \<or> fst (psram_memtest b (sweep_window full) SWEEP_BYTES False h1) \<noteq> 0"
    using r i unfolding board_runs_def by (metis (no_types, lifting))
  show ?thesis
  proof (cases "rc < full")
    case True
    then have "(word_of_int rc :: u32) = 0 \<or> (word_of_int rc :: u32) < word_of_int full" using mb_compare [of rc full] f 1(2) by simp
    then show ?thesis unfolding s sweep_from.simps(2) hz prod.case 1(1) option.case Let_def using assms(5) by simp
  next
    case False
    then have rc: "rc = full" using 1(3) by simp
    have n: "\<not> ((word_of_int full :: u32) = 0 \<or> (word_of_int full :: u32) < word_of_int full)" using mb_compare [of full full] f by simp
    obtain bad h2 where 2: "psram_memtest b (push_bit 20 (word_of_int full) - of_nat SWEEP_BYTES) SWEEP_BYTES False h1 = (bad, h2)" "bad \<noteq> 0"
      using 1(4) unfolding sweep_window_def rc
      by (cases "psram_memtest b (push_bit 20 (word_of_int full) - of_nat SWEEP_BYTES) SWEEP_BYTES False h1") auto
    obtain kb h3 where 3: "psram_bench_read b 0 (512 * 1024) h2 = (kb, h3)" by fastforce
    show ?thesis
      unfolding s sweep_from.simps(2) hz prod.case 1(1) [unfolded rc] option.case Let_def if_not_P [OF n] 2(1) 3 using assms(5) 2(2) by simp
  qed
qed

lemma sweep_run:
  assumes r: "board_runs b full ok" and "\<forall>i \<in> set (xs @ ys). 0 \<le> i \<and> i < int PSRAM_CLK_COUNT"
    and "\<forall>i \<in> set xs. ok i" and "ys \<noteq> [] \<longrightarrow> \<not> ok (hd ys)" and "0 \<le> best \<and> mb = full \<or> xs \<noteq> [] \<and> mb = 0"
  shows "\<exists>s'. sweep_from b (xs @ ys) best (word_of_int mb) s = Some (last (best # xs), s')"
  using assms(2-5)
proof (induction xs arbitrary: best mb s)
  case Nil
  then show ?case
  proof (cases ys)
    case (Cons y zs)
    then show ?thesis using sweep_bad_step [OF r, of y best zs s] Nil by auto
  qed simp
next
  case (Cons x xs)
  obtain s' where "sweep_from b (x # xs @ ys) best (word_of_int mb) s = sweep_from b (xs @ ys) x (word_of_int full) s'"
    using sweep_ok_step [OF r, of x mb "xs @ ys" best s] Cons.prems by auto
  moreover obtain s'' where "sweep_from b (xs @ ys) x (word_of_int full) s' = Some (last (x # xs), s'')"
    using Cons.IH [of x full s'] Cons.prems by auto
  ultimately show ?case by simp
qed

text \<open>In a list that is sorted by \<open>k\<close>, a set that is closed downwards is a prefix.\<close>

lemma sorted_prefix:
  assumes "sorted (map k xs)" and "\<forall>i \<in> set xs. \<forall>j \<in> set xs. p i \<longrightarrow> k j \<le> k i \<longrightarrow> p j"
  shows "filter p xs = takeWhile p xs"
  using assms
proof (induction xs)
  case (Cons x xs)
  have "\<forall>i \<in> set xs. \<forall>j \<in> set xs. p i \<longrightarrow> k j \<le> k i \<longrightarrow> p j"
    using Cons.prems(2) by (meson list.set_intros(2))
  moreover have "sorted (map k xs)" using Cons.prems(1) by simp
  ultimately have IH: "filter p xs = takeWhile p xs" by (rule Cons.IH [rotated])
  show ?case
  proof (cases "p x")
    case True
    then show ?thesis by (simp only: filter.simps takeWhile.simps if_True IH)
  next
    case False
    have "\<not> p y" if "y \<in> set xs" for y
    proof
      assume "p y"
      moreover have "k x \<le> k y" using Cons.prems(1) that by simp
      ultimately show False using Cons.prems(2) that False by (meson list.set_intros)
    qed
    then have "filter p xs = []" by (intro filter_False ballI)
    then show ?thesis using False by (simp only: filter.simps takeWhile.simps if_False)
  qed
qed simp

definition sweep_top :: "int \<Rightarrow> int" where
  "sweep_top max_index = (if max_index < 0 \<or> max_index \<ge> int PSRAM_CLK_COUNT then int PSRAM_CLK_COUNT - 1 else max_index)"

lemma sweep_fastest:
  assumes p: "steady_plls b p480 p528" and r: "board_runs b full ok" and d: "responds b"
    and ne: "\<exists>i \<in> {0..sweep_top max_index}. ok i"
    and mono: "\<forall>i \<in> {0..sweep_top max_index}. \<forall>j \<in> {0..sweep_top max_index}.
      ok i \<longrightarrow> clock_at p480 p528 j \<le> clock_at p480 p528 i \<longrightarrow> ok j"
  shows "\<exists>best info h. psram_clock_sweep b max_index s = Some (best, info, h) \<and> best \<in> {0..sweep_top max_index} \<and> ok best
    \<and> (\<forall>i \<in> {0..sweep_top max_index}. ok i \<longrightarrow> clock_at p480 p528 i \<le> clock_at p480 p528 best) \<and> info_sound best full info"
proof -
  let ?k = "clock_at p480 p528"
  obtain info h where s: "s = (info, h)" by (cases s)
  define n where "n = (if max_index < 0 \<or> max_index \<ge> int PSRAM_CLK_COUNT then PSRAM_CLK_COUNT - 1 else nat max_index)"
  have n: "n < PSRAM_CLK_COUNT" "int n = sweep_top max_index" by (auto simp: n_def sweep_top_def PSRAM_CLK_COUNT_def)
  obtain xs where xs: "sort_clocks b n h = (xs, h)" "mset xs = mset (map int [0..<Suc n])" "sorted (map ?k xs)"
    using sort_clocks_sorts [OF p n(1)] by blast
  have "set xs = int ` {0..<Suc n}" using mset_eq_setD [OF xs(2)] by (simp only: set_map set_upt)
  also have "\<dots> = {0..<int n + 1}" by (simp only: image_int_atLeastLessThan of_nat_Suc add.commute) simp
  also have "\<dots> = {0..sweep_top max_index}" unfolding n(2) by (rule atLeastLessThanPlusOne_atLeastAtMost_int)
  finally have X: "set xs = {0..sweep_top max_index}" .
  have top_less: "sweep_top max_index < int PSRAM_CLK_COUNT" using n by linarith
  have rng: "\<forall>i \<in> set xs. 0 \<le> i \<and> i < int PSRAM_CLK_COUNT"
  proof
    fix i assume "i \<in> set xs"
    then have "0 \<le> i" "i \<le> sweep_top max_index" unfolding X by simp_all
    then show "0 \<le> i \<and> i < int PSRAM_CLK_COUNT" using top_less by linarith
  qed
  have f: "filter ok xs = takeWhile ok xs" by (rule sorted_prefix [OF xs(3) mono [folded X]])
  have ne': "takeWhile ok xs \<noteq> []" using ne unfolding f [symmetric] filter_empty_conv X by blast
  define best where "best = last (takeWhile ok xs)"
  have F: "set (takeWhile ok xs) = {i \<in> {0..sweep_top max_index}. ok i}" unfolding f [symmetric] set_filter X ..
  have hd: "dropWhile ok xs \<noteq> [] \<longrightarrow> \<not> ok (hd (dropWhile ok xs))" using hd_dropWhile by blast
  have a: "\<forall>i \<in> set (takeWhile ok xs @ dropWhile ok xs). 0 \<le> i \<and> i < int PSRAM_CLK_COUNT" using rng by simp
  have o: "\<forall>i \<in> set (takeWhile ok xs). ok i" using F by blast
  have m: "0 \<le> (-1 :: int) \<and> (0 :: int) = full \<or> takeWhile ok xs \<noteq> [] \<and> (0 :: int) = 0" using ne' by blast
  obtain s' where "sweep_from b xs (-1) 0 (info, h) = Some (last (-1 # takeWhile ok xs), s')"
    using sweep_run [OF r a o hd m, of "(info, h)"] unfolding takeWhile_dropWhile_id of_int_0 by blast
  then obtain info1 h1 where 1: "sweep_from b xs (-1) 0 (info, h) = Some (best, info1, h1)"
    using ne' unfolding best_def by (cases s') simp
  have "best \<in> set (takeWhile ok xs)" unfolding best_def by (rule last_in_set [OF ne'])
  then have best: "best \<in> {0..sweep_top max_index}" "ok best" unfolding F by blast+
  have srt: "sorted (map ?k (takeWhile ok xs))"
    unfolding f [symmetric] by (rule sorted_filter [OF xs(3)])
  then have mx: "\<forall>i \<in> set (takeWhile ok xs). ?k i \<le> ?k best"
  proof -
    obtain zs where z: "takeWhile ok xs = zs @ [best]" using append_butlast_last_id [OF ne', symmetric] unfolding best_def by blast
    show ?thesis using srt unfolding z by (auto simp: sorted_append)
  qed
  have bi: "0 \<le> best" "best < int PSRAM_CLK_COUNT" using best(1) top_less by simp_all
  obtain rc info2 h2 where 2: "psram_init b best (info1, h1) = Some (rc, info2, h2)" "info_sound best rc info2"
    using init_reports [OF d bi] by blast
  obtain rc' info' h' where "psram_init b best (info1, h1) = Some (rc', info', h')" "rc' = full"
    using board_runs_ok [OF r bi best(2)] by blast
  with 2(1) have "rc = full" by simp
  moreover have "psram_clock_sweep b max_index s = Some (best, info2, h2)"
    using bi(1) unfolding psram_clock_sweep_def s n_def [symmetric] Let_def prod.case xs(1) 1 option.case by (simp add: 2(1))
  moreover have "\<forall>i \<in> {0..sweep_top max_index}. ok i \<longrightarrow> ?k i \<le> ?k best" using mx unfolding F by blast
  ultimately show ?thesis using best 2(2) by blast
qed

section \<open>A sample board\<close>

text \<open>
  Two 8 MB parts behind a controller that is always done. The state is \<^verbatim>\<open>CCM_CBCMR\<close> and the
  memory; at the clocks 6, 8 and 9 (more than 110 MHz with these fractions) bit 0 of every word
  reads as 1.
\<close>

definition clock_bits :: "u32 \<Rightarrow> u32" where
  "clock_bits c = c AND (push_bit 29 7 OR push_bit 8 3)"

definition demo_fast :: "u32 \<Rightarrow> bool" where
  "demo_fast c \<longleftrightarrow> clock_bits c = 0x60000300 \<or> clock_bits c = 0x60000200 \<or> clock_bits c = 0x40000300"

definition demo_board :: "(u32 \<times> (u32 \<Rightarrow> u32)) board" where
  "demo_board =
     \<lparr>bd_read = (\<lambda>a (c, m). (if a = CCM_CBCMR then c else if a = FS2_INTR then 1 else if a = FS2_RFDR0 then 0x5D0D
        else if a = CCMA_PFD_480 then 0x1021 else if a = CCMA_PFD_528 then 0x180000
        else if a \<ge> PSRAM_BASE then (if demo_fast c then m a OR 1 else m a) else 0, (c, m))),
      bd_write = (\<lambda>a v (c, m). if a = CCM_CBCMR then (v, m) else if a \<ge> PSRAM_BASE then (c, m(a := v)) else (c, m)),
      bd_ticks = (\<lambda>s. (0, s)), bd_us = id\<rparr>"

lemma in_turn_calm: "\<forall>f \<in> set fs. f h = h \<Longrightarrow> in_turn fs h = h"
  by (induction fs) (auto simp: in_turn_def)

lemma in_turn_Cons: "in_turn (f # fs) h = in_turn fs (f h)" "in_turn [] h = h"
  by (simp_all add: in_turn_def)

definition calm_reg :: "u32 \<Rightarrow> bool" where
  "calm_reg a \<longleftrightarrow> a \<noteq> CCM_CBCMR \<and> a < PSRAM_BASE"

lemma demo_calm:
  "calm_reg a \<Longrightarrow> set_reg demo_board a v s = s" "calm_reg a \<Longrightarrow> mod_reg demo_board a f s = s"
  by (cases s; simp add: set_reg_def mod_reg_def demo_board_def calm_reg_def not_le [symmetric])+

lemma demo_regs:
  "calm_reg FS2_INTR" "calm_reg FS2_IPCR0" "calm_reg FS2_IPCR1" "calm_reg FS2_IPCMD" "calm_reg FS2_FLSHA1CR0" "calm_reg FS2_FLSHA2CR0"
  "calm_reg FS2_LUTKEY" "calm_reg FS2_LUTCR" "calm_reg FS2_MCR0" "calm_reg FS2_MCR1" "calm_reg FS2_MCR2" "calm_reg FS2_AHBCR"
  "calm_reg FS2_INTEN" "calm_reg FS2_IPRXFCR" "calm_reg FS2_IPTXFCR" "calm_reg FS2_FLSHA1CR1" "calm_reg FS2_FLSHA2CR1"
  "calm_reg FS2_FLSHA1CR2" "calm_reg FS2_FLSHA2CR2" "calm_reg CCM_CCGR7" "calm_reg (FS2_AHBRXBUFCR0 0)" "calm_reg (FS2_AHBRXBUFCR0 1)"
  "calm_reg (FS2_AHBRXBUFCR0 2)" "calm_reg (FS2_AHBRXBUFCR0 3)"
  by (simp_all add: calm_reg_def registers PSRAM_BASE_def)

lemma demo_lists:
  "list_all (\<lambda>i. calm_reg (FS2_LUT i)) [0..<64]"
  "list_all (\<lambda>i. calm_reg (IOMUXC_PAD_EMC22 + 4 * of_nat i) \<and> calm_reg (IOMUXC_MUX_EMC22 + 4 * of_nat i)) [0..<8]"
  "list_all (\<lambda>off. calm_reg (IOMUXC_SEL_BASE + off)) [0x32C, 0x330, 0x334, 0x338, 0x33C, 0x350]"
  "list_all (\<lambda>(n, v). calm_reg (FS2_LUT n)) lut_words"
  by code_simp+

lemma demo_pins: "fs2_pins demo_board s = s"
  unfolding fs2_pins_def using demo_lists(2,3)
  by (intro in_turn_calm) (auto simp: demo_calm list_all_iff simp del: upt_Suc)

lemma demo_controller: "fs2_controller demo_board s = s"
  unfolding fs2_controller_def by (intro in_turn_calm) (simp add: demo_calm demo_regs demo_regs(22) [unfolded One_nat_def])

lemma demo_wait: "wait_for demo_board FS2_INTR (\<lambda>v. v AND INTR_IPCMDDONE \<noteq> 0) s = Some s"
    "wait_for demo_board FS2_MCR0 (\<lambda>v. v AND MCR0_SWRESET = 0) s = Some s"
  by (cases s; subst wait_for_step; simp add: demo_board_def registers PSRAM_BASE_def INTR_IPCMDDONE_def MCR0_SWRESET_def)+

lemma demo_lut: "fs2_lut demo_board s = Some s"
proof -
  have "in_turn ([set_reg demo_board FS2_LUTKEY LUTKEY_VALUE, set_reg demo_board FS2_LUTCR LUTCR_UNLOCK]
      @ map (\<lambda>i. set_reg demo_board (FS2_LUT i) 0) [0..<64] @ [mod_reg demo_board FS2_MCR0 (\<lambda>v. v OR MCR0_SWRESET)]) s = s"
    by (intro in_turn_calm) (use demo_lists(1) in \<open>auto simp: demo_calm demo_regs list_all_iff simp del: upt_Suc\<close>)
  moreover have "in_turn ([set_reg demo_board FS2_LUTKEY LUTKEY_VALUE, set_reg demo_board FS2_LUTCR LUTCR_UNLOCK]
      @ map (\<lambda>(n, v). set_reg demo_board (FS2_LUT n) v) lut_words) s = s"
    by (intro in_turn_calm) (use demo_lists(4) in \<open>auto simp: demo_calm demo_regs list_all_iff\<close>)
  ultimately show ?thesis by (simp only: fs2_lut_def demo_wait option.map)
qed

lemma demo_command: "fs2_command demo_board sq addr s = Some s"
  by (simp add: fs2_command_def in_turn_Cons demo_calm demo_regs demo_wait)

lemma demo_probe: "fs2_probe demo_board addr s = Some (8, 0x5D0D, s)"
proof -
  have "bd_read demo_board FS2_RFDR0 s = (0x5D0D, s)" by (cases s) (simp add: demo_board_def registers)
  then have "fs2_read_id demo_board addr s = Some (0x5D0D, s)"
    by (simp add: fs2_read_id_def in_turn_Cons demo_calm demo_regs demo_wait)
  then show ?thesis by (simp add: fs2_probe_def demo_command id_mbytes_def)
qed

text \<open>The table's bits, which \<^verbatim>\<open>fs2_clock\<close> writes and nothing else changes.\<close>

definition table_bits :: "nat \<Rightarrow> u32" where
  "table_bits idx = (case clk_table ! idx of (podf, sel) \<Rightarrow> push_bit 29 (ucast podf) OR push_bit 8 (ucast sel))"

lemma fs2_clock_bits:
  assumes "idx < 10"
  shows "clock_bits (v AND NOT (push_bit 29 7 OR push_bit 8 3) OR push_bit 29 (ucast (fst (clk_table ! idx)))
      OR push_bit 8 (ucast (snd (clk_table ! idx)))) = table_bits idx"
proof -
  have d: "(v AND NOT M OR A) AND M = A" if "A AND M = A" for A M :: u32
    using that by (simp add: bit.conj_disj_distrib2 bit_eq_iff bit_simps)
  have "\<forall>i \<in> set [0..<10]. table_bits i AND (push_bit 29 7 OR push_bit 8 3) = table_bits i" by code_simp
  then have "table_bits idx AND (push_bit 29 7 OR push_bit 8 3) = table_bits idx" using assms by simp
  from d [OF this] show ?thesis by (simp add: clock_bits_def table_bits_def split_def or.assoc)
qed

lemma demo_clock:
  assumes "idx < 10"
  shows "\<exists>c'. fs2_clock demo_board idx (c, m) = (c', m) \<and> clock_bits c' = table_bits idx"
proof -
  have "mod_reg demo_board CCM_CBCMR f (c, m) = (f c, m)" for f by (simp add: mod_reg_def demo_board_def)
  then show ?thesis
    using fs2_clock_bits [OF assms, of c] by (simp add: fs2_clock_def split_def in_turn_Cons demo_calm demo_regs)
qed

lemma demo_steady: "steady_plls demo_board 0x1021 0x180000"
  by (auto simp: steady_plls_def demo_board_def registers)

lemma demo_init:
  assumes "0 \<le> idx" and "idx < int PSRAM_CLK_COUNT"
  shows "\<exists>info c'. psram_init demo_board idx (info0, (c, m)) = Some (16, info, (c', m)) \<and> clock_bits c' = table_bits (nat idx)"
proof -
  obtain hz where hz: "psram_clock_hz demo_board idx (c, m) = (hz, (c, m))"
    using clock_hz_value [OF demo_steady assms] by blast
  have ix: "nat idx < 10" using assms by (simp add: PSRAM_CLK_COUNT_def)
  obtain c' where c: "fs2_clock demo_board (nat idx) (c, m) = (c', m)" "clock_bits c' = table_bits (nat idx)"
    using demo_clock [OF ix] by blast
  have g: "\<not> (idx < 0 \<or> int PSRAM_CLK_COUNT \<le> idx)" using assms by simp
  show ?thesis
    unfolding psram_init_def prod.case if_not_P [OF g] hz Let_def demo_pins c(1) demo_controller demo_lut option.case demo_probe
      demo_calm [OF demo_regs(5)] demo_calm [OF demo_regs(6)] demo_command
    using c(2) by (simp add: demo_calm demo_regs)
qed

lemma demo_responds: "responds demo_board"
proof -
  have "fst (bd_read demo_board FS2_INTR h) = 1" "fst (bd_read demo_board FS2_MCR0 h) = 0" for h
    by (cases h; simp add: demo_board_def registers PSRAM_BASE_def)+
  then show ?thesis by (auto simp: responds_def shows_up_def INTR_IPCMDDONE_def)
qed

lemma window_addr: "i < 2 ^ 18 \<Longrightarrow> uint (word_addr 0xF00000 i) = 0x70F00000 + 4 * int i"
proof -
  assume i: "i < 2 ^ 18"
  have w: "word_addr 0xF00000 i = of_nat (0x70F00000 + 4 * i)" by (simp add: word_addr_def PSRAM_BASE_def)
  have "0x70F00000 + 4 * i < 2 ^ 32" using i by simp
  from word_of_small [OF this] have "uint (word_addr 0xF00000 i) = int (0x70F00000 + 4 * i)" unfolding w by (simp only: uint_nat)
  then show ?thesis by simp
qed

lemma demo_window:
  assumes "i < 2 ^ 18"
  shows "bd_read demo_board (word_addr 0xF00000 i) (c, m) =
      (if demo_fast c then m (word_addr 0xF00000 i) OR 1 else m (word_addr 0xF00000 i), (c, m))"
    and "bd_write demo_board (word_addr 0xF00000 i) v (c, m) = (c, m(word_addr 0xF00000 i := v))"
proof -
  have big: "PSRAM_BASE \<le> word_addr 0xF00000 i" using window_addr [OF assms] by (simp add: word_le_def PSRAM_BASE_def)
  have ne: "word_addr 0xF00000 i \<noteq> a" if "a < PSRAM_BASE" for a using big that by auto
  have low: "CCM_CBCMR < PSRAM_BASE" "FS2_INTR < PSRAM_BASE" "FS2_RFDR0 < PSRAM_BASE" "CCMA_PFD_480 < PSRAM_BASE" "CCMA_PFD_528 < PSRAM_BASE"
    by (simp_all add: registers PSRAM_BASE_def)
  note n = ne [OF low(1)] ne [OF low(2)] ne [OF low(3)] ne [OF low(4)] ne [OF low(5)]
  show "bd_read demo_board (word_addr 0xF00000 i) (c, m) =
      (if demo_fast c then m (word_addr 0xF00000 i) OR 1 else m (word_addr 0xF00000 i), (c, m))"
    "bd_write demo_board (word_addr 0xF00000 i) v (c, m) = (c, m(word_addr 0xF00000 i := v))"
    by (simp_all add: demo_board_def n big)
qed

definition demo_cells :: "u32 \<times> (u32 \<Rightarrow> u32) \<Rightarrow> nat \<Rightarrow> u32" where
  "demo_cells h i = (if i < 2 ^ 18 then snd h (word_addr 0xF00000 i) else 0)"

definition demo_stuck :: "u32 \<Rightarrow> nat \<Rightarrow> u32" where
  "demo_stuck k i = (if k = 0x60000300 \<or> k = 0x60000200 \<or> k = 0x40000300 then 1 else 0)"

lemma demo_memory:
  "memory_is (\<lambda>h. clock_bits (fst h) = k) demo_board 0xF00000 (2 ^ 18) demo_cells id (\<lambda>_. 0) (demo_stuck k)"
  unfolding memory_is_def
proof (intro allI impI)
  fix h :: "u32 \<times> (u32 \<Rightarrow> u32)" and i :: nat
  assume h: "clock_bits (fst h) = k" and i: "i < 2 ^ 18"
  obtain c m where cm: "h = (c, m)" by (cases h)
  have inj: "word_addr 0xF00000 j = word_addr 0xF00000 i \<longleftrightarrow> j = i" if "j < 2 ^ 18" for j
  proof
    assume "word_addr 0xF00000 j = word_addr 0xF00000 i"
    then have "0x70F00000 + 4 * int j = 0x70F00000 + 4 * int i" using window_addr [OF that] window_addr [OF i] by metis
    then show "j = i" by simp
  qed simp
  have w: "demo_cells (c, m(word_addr 0xF00000 i := v)) = (demo_cells h)(id i := v)" for v
  proof
    fix j
    show "demo_cells (c, m(word_addr 0xF00000 i := v)) j = ((demo_cells h)(id i := v)) j"
      using inj [of j] i by (cases "j < 2 ^ 18") (auto simp: demo_cells_def cm)
  qed
  have r: "(if demo_fast c then m (word_addr 0xF00000 i) OR 1 else m (word_addr 0xF00000 i))
      = seen (\<lambda>_. 0) (demo_stuck k) (id i) (demo_cells h (id i))"
    using h i by (simp add: demo_cells_def cm seen_def demo_fast_def demo_stuck_def)
  have f: "clock_bits (fst (c, m(word_addr 0xF00000 i := v))) = k" for v using h by (simp add: cm)
  show "bd_read demo_board (word_addr 0xF00000 i) h = (seen (\<lambda>_. 0) (demo_stuck k) (id i) (demo_cells h (id i)), h) \<and>
      (\<forall>v. clock_bits (fst (bd_write demo_board (word_addr 0xF00000 i) v h)) = k \<and>
        demo_cells (bd_write demo_board (word_addr 0xF00000 i) v h) = (demo_cells h)(id i := v))"
    unfolding cm demo_window [OF i] r [unfolded cm] fst_conv using w [unfolded cm] f [unfolded fst_conv] by blast
qed

definition demo_works :: "int \<Rightarrow> bool" where
  "demo_works idx \<longleftrightarrow> idx \<noteq> 6 \<and> idx \<noteq> 8 \<and> idx \<noteq> 9"

lemma demo_table: "\<forall>i \<in> set [0..<10]. (table_bits i = 0x60000300 \<or> table_bits i = 0x60000200 \<or> table_bits i = 0x40000300) \<longleftrightarrow> \<not> demo_works (int i)"
  by code_simp

lemma demo_test:
  assumes "idx < 10" and "clock_bits c = table_bits idx"
  shows "fst (psram_memtest demo_board (sweep_window 16) SWEEP_BYTES False (c, m)) = 0 \<longleftrightarrow> demo_works (int idx)"
proof -
  have w: "sweep_window 16 = 0xF00000" "SWEEP_BYTES div 4 = 2 ^ 18" by (simp_all add: sweep_window_def SWEEP_BYTES_def)
  have z: "0 \<in> tested SWEEP_BYTES False" by (simp add: tested_def SWEEP_BYTES_def)
  have t: "(table_bits idx = 0x60000300 \<or> table_bits idx = 0x60000200 \<or> table_bits idx = 0x40000300) \<longleftrightarrow> \<not> demo_works (int idx)"
    using demo_table assms(1) by simp
  show ?thesis
    unfolding w(1)
    using memtest_finds [OF demo_memory [of "table_bits idx", folded w(2)], where h = "(c, m)" and quick = False] assms(2) z t
    by (auto simp: SWEEP_BYTES_def demo_stuck_def)
qed

lemma demo_runs: "board_runs demo_board 16 demo_works"
  unfolding board_runs_def
proof (intro conjI allI impI)
  fix idx :: int and s :: "psram_info \<times> (u32 \<times> (u32 \<Rightarrow> u32))"
  assume i: "0 \<le> idx \<and> idx < int PSRAM_CLK_COUNT"
  obtain info0 c m where s: "s = (info0, (c, m))" by (cases s) auto
  obtain info c' where 1: "psram_init demo_board idx s = Some (16, info, (c', m))" "clock_bits c' = table_bits (nat idx)"
    using demo_init [of idx info0 c m] i unfolding s by auto
  have "fst (psram_memtest demo_board (sweep_window 16) SWEEP_BYTES False (c', m)) = 0 \<longleftrightarrow> demo_works idx"
    using demo_test [of "nat idx" c' m] 1(2) i by (auto simp: PSRAM_CLK_COUNT_def)
  then show "\<exists>rc info h. psram_init demo_board idx s = Some (rc, info, h) \<and> 0 \<le> rc \<and> rc \<le> 16 \<and>
      (if demo_works idx then rc = 16 \<and> fst (psram_memtest demo_board (sweep_window 16) SWEEP_BYTES False h) = 0
       else rc < 16 \<or> fst (psram_memtest demo_board (sweep_window 16) SWEEP_BYTES False h) \<noteq> 0)"
    using 1(1) by auto
qed simp_all

lemma demo_clocks:
  "clock_at 0x1021 0x180000 0 = 88000000" "clock_at 0x1021 0x180000 1 = 99000000" "clock_at 0x1021 0x180000 2 = 37402597"
  "clock_at 0x1021 0x180000 3 = 105600000" "clock_at 0x1021 0x180000 4 = 90000000" "clock_at 0x1021 0x180000 5 = 43636363"
  "clock_at 0x1021 0x180000 6 = 132000000" "clock_at 0x1021 0x180000 7 = 52363636" "clock_at 0x1021 0x180000 8 = 135000000"
  by (simp_all add: clock_at_def clk_table_def Let_def)

section \<open>Properties\<close>

text \<open>
  C26: the memory test is exact. On any memory with mis-decoded address lines and stuck data
  bits, \<^verbatim>\<open>psram_memtest\<close> counts no bad word exactly when no two of the tested words share a cell
  and no bit of their cells is stuck.
\<close>

theorem memtest_exact:
  assumes "memory_is P b off (bytes div 4) cells line lo hi" and "P h" and "bytes < 2 ^ 32"
  shows "fst (psram_memtest b off bytes quick h) = 0 \<longleftrightarrow>
    inj_on line (tested bytes quick) \<and> (\<forall>i \<in> tested bytes quick. lo (line i) = 0 \<and> hi (line i) = 0)"
  by (rule memtest_finds [OF assms])

text \<open>The sample board at a clock that is too fast for it: bit 0 is stuck in every word.\<close>

theorem memtest_exact_witness:
  "fst (psram_memtest demo_board 0xF00000 SWEEP_BYTES True (table_bits 6, \<lambda>_. 0)) \<noteq> 0"
proof -
  have n: "SWEEP_BYTES div 4 = 2 ^ 18" by (simp add: SWEEP_BYTES_def)
  have k: "clock_bits (table_bits 6) = 0x60000300" by code_simp
  have "0 \<in> tested SWEEP_BYTES True" by (simp add: tested_def SWEEP_BYTES_def)
  with memtest_exact [OF demo_memory [of "0x60000300", folded n], where h = "(table_bits 6, \<lambda>_. 0)" and quick = True] k
  show ?thesis by (auto simp: SWEEP_BYTES_def demo_stuck_def)
qed

text \<open>
  C25: the sweep settles on the fastest clock that works. If the clocks that work on a board are
  those up to some frequency, and one of those allowed does, \<^verbatim>\<open>psram_clock_sweep\<close> returns the one
  with the highest real frequency (not the highest index), and leaves the board initialised at
  it with the full capacity reported.
\<close>

theorem sweep_finds_fastest:
  assumes "steady_plls b p480 p528" and "board_runs b full ok" and "responds b"
    and "\<exists>i \<in> {0..sweep_top max_index}. ok i"
    and "\<forall>i \<in> {0..sweep_top max_index}. \<forall>j \<in> {0..sweep_top max_index}.
      ok i \<longrightarrow> clock_at p480 p528 j \<le> clock_at p480 p528 i \<longrightarrow> ok j"
  shows "\<exists>best info h. psram_clock_sweep b max_index s = Some (best, info, h) \<and> best \<in> {0..sweep_top max_index} \<and> ok best
    \<and> (\<forall>i \<in> {0..sweep_top max_index}. ok i \<longrightarrow> clock_at p480 p528 i \<le> clock_at p480 p528 best) \<and> info_sound best full info"
  by (rule sweep_fastest [OF assms])

text \<open>The sample board, whose fastest working clock is number 3, in the middle of the table.\<close>

theorem sweep_finds_fastest_witness:
  "\<exists>info h. psram_clock_sweep demo_board 8 (no_psram, (0, \<lambda>_. 0)) = Some (3, info, h) \<and> info_sound 3 16 info"
proof -
  let ?k = "clock_at 0x1021 0x180000"
  have t: "sweep_top 8 = 8" by (simp add: sweep_top_def PSRAM_CLK_COUNT_def)
  note k = demo_clocks
  have c: "i = 0 \<or> i = 1 \<or> i = 2 \<or> i = 3 \<or> i = 4 \<or> i = 5 \<or> i = 6 \<or> i = 7 \<or> i = 8" if "i \<in> {0..8}" for i :: int
    using that by auto
  have mono: "\<forall>i \<in> {0..8}. \<forall>j \<in> {0..8}. demo_works i \<longrightarrow> ?k j \<le> ?k i \<longrightarrow> demo_works j"
  proof (intro ballI impI)
    fix i j :: int
    assume ij: "i \<in> {0..8}" "j \<in> {0..8}" "demo_works i" "?k j \<le> ?k i"
    have "?k i \<le> 105600000" using c [OF ij(1)] ij(3) k by (auto simp: demo_works_def)
    then show "demo_works j" using c [OF ij(2)] ij(2,4) k by (auto simp: demo_works_def)
  qed
  have "demo_works 3" by (simp add: demo_works_def)
  then have "\<exists>i \<in> {0..8}. demo_works i" by (intro bexI [of _ 3]) simp_all
  from sweep_finds_fastest [OF demo_steady demo_runs demo_responds, of 8, unfolded t, OF this mono]
  obtain best info h where b: "psram_clock_sweep demo_board 8 (no_psram, (0, \<lambda>_. 0)) = Some (best, info, h)" "best \<in> {0..8}" "demo_works best"
    "\<forall>i \<in> {0..8}. demo_works i \<longrightarrow> ?k i \<le> ?k best" "info_sound best 16 info" by blast
  have "?k 3 \<le> ?k best" using b(4) \<open>demo_works 3\<close> by simp
  then have "best = 3" using c [OF b(2)] b(3) k by (auto simp: demo_works_def)
  then show ?thesis using b by blast
qed


end
