(* ===== verification/Tq_Card.thy ===== *)
theory Tq_Card imports Tq_Store Tq_Psram begin

text \<open>
  Getting a model from the card, \<^verbatim>\<open>src/firmware/teensy41-tinyllm/src/model_store.c\<close>: mounting, copying a
  file into PSRAM, and the callback that streams it. The file system and the disk are parameters:
  an \<open>fs_api\<close> says what each call returns and does to the state behind it. A read gives an error or
  at most as many bytes as were asked for. The lemmas show that both ways of keeping a model show
  the store exactly the bytes of the file (theory \<open>Tq_Store\<close>), also when reads come back short, and
  what an error does.
\<close>

section \<open>The card\<close>

text \<open>The two files that the module ever has open.\<close>

datatype card_file = Load_file | Stream_file

record 'f fs_api =
  fs_disk_init :: "'f \<Rightarrow> int \<times> 'f"
  fs_clear :: "'f \<Rightarrow> 'f"
  fs_mount :: "'f \<Rightarrow> int \<times> 'f"
  fs_stat :: "u8 list \<Rightarrow> 'f \<Rightarrow> (int + u32) \<times> 'f"
  fs_open :: "card_file \<Rightarrow> u8 list \<Rightarrow> 'f \<Rightarrow> int \<times> 'f"
  fs_seek :: "card_file \<Rightarrow> nat \<Rightarrow> 'f \<Rightarrow> int \<times> 'f"
  fs_read :: "card_file \<Rightarrow> nat \<Rightarrow> 'f \<Rightarrow> (int + u8 list) \<times> 'f"
  fs_close :: "card_file \<Rightarrow> 'f \<Rightarrow> 'f"

text \<open>The static variables \<^verbatim>\<open>mounted\<close> and \<^verbatim>\<open>stream_open\<close>, and the state behind the file system.\<close>

record 'f card =
  cd_fs :: 'f
  cd_mounted :: bool
  cd_stream_open :: bool

text \<open>The bytes of the PSRAM: what a copy to an offset does, and what lies at an offset.\<close>

record 'h psram_bus =
  pb_put :: "nat \<Rightarrow> u8 list \<Rightarrow> 'h \<Rightarrow> 'h"
  pb_get :: "'h \<Rightarrow> nat \<Rightarrow> u8"

definition EBADF :: int where "EBADF = 9"

definition ENODEV :: int where "ENODEV = 19"

definition ENOSPC :: int where "ENOSPC = 28"

definition STAGE_BYTES :: nat where "STAGE_BYTES = 32 * 1024"

section \<open>Opening\<close>

text \<open>An unmounted file system is cleared first; the sector counts are read for the log only.\<close>

definition model_sd_mount :: "'f fs_api \<Rightarrow> 'f card \<Rightarrow> int \<times> 'f card" where
  "model_sd_mount fs cd =
     (if cd_mounted cd then (0, cd)
      else case fs_disk_init fs (fs_clear fs (cd_fs cd)) of
             (rc, s) \<Rightarrow>
               if rc \<noteq> 0 then (rc, cd\<lparr>cd_fs := s\<rparr>)
               else (case fs_mount fs s of
                       (rc, s) \<Rightarrow> if rc \<noteq> 0 then (rc, cd\<lparr>cd_fs := s\<rparr>) else (0, cd\<lparr>cd_fs := s, cd_mounted := True\<rparr>)))"

definition open_sized :: "'f fs_api \<Rightarrow> card_file \<Rightarrow> u8 list \<Rightarrow> 'f \<Rightarrow> (int + nat) \<times> 'f" where
  "open_sized fs f path s =
     (case fs_stat fs path s of
        (Inl rc, s) \<Rightarrow> (Inl rc, s)
      | (Inr size_bytes, s) \<Rightarrow>
          (case fs_open fs f path s of (rc, s) \<Rightarrow> if rc \<noteq> 0 then (Inl rc, s) else (Inr (unat size_bytes), s)))"

section \<open>Copying into PSRAM\<close>

text \<open>
  The copy loop; the result is the return code and the values of \<open>done\<close> that \<^verbatim>\<open>progress\<close> is called
  with. A read goes to the staging buffer, from where the bytes that came are copied.
\<close>

function load_loop :: "'f fs_api \<Rightarrow> 'h psram_bus \<Rightarrow> nat \<Rightarrow> nat \<Rightarrow> nat \<Rightarrow> 'f \<times> 'h \<Rightarrow> int \<times> nat list \<times> 'f \<times> 'h" where
  "load_loop fs bus off size_bytes don (s, h) =
     (if don < size_bytes
      then let want = min STAGE_BYTES (size_bytes - don)
           in (case fs_read fs Load_file want s of
                 (Inl e, s) \<Rightarrow> (e, [], s, h)
               | (Inr bs, s) \<Rightarrow>
                   let got = take want bs
                   in if got = [] then (- EIO, [], s, h)
                      else (case load_loop fs bus off size_bytes (don + length got) (s, pb_put bus (off + don) got h) of
                              (rc, ds, sh) \<Rightarrow> (rc, (don + length got) # ds, sh)))
      else (0, [], s, h))"
  by pat_completeness auto

termination
  by (relation "measure (\<lambda>(fs, bus, off, size_bytes, don, s, h). size_bytes - don)") (auto simp: STAGE_BYTES_def intro!: diff_less_mono2)

declare load_loop.simps [simp del]

text \<open>The return code, the store, the calls of \<^verbatim>\<open>progress\<close> and the state; \<open>mbytes\<close> is the capacity.\<close>

definition model_load_to_psram ::
  "'f fs_api \<Rightarrow> 'h psram_bus \<Rightarrow> u32 \<Rightarrow> u8 list \<Rightarrow> u32 \<Rightarrow> 'f card \<times> 'h \<Rightarrow> (int + 'c tq_store \<times> nat) \<times> nat list \<times> 'f card \<times> 'h" where
  "model_load_to_psram fs bus mbytes path psram_off sh =
     (case sh of (cd, h) \<Rightarrow>
       (case model_sd_mount fs cd of
          (rc, cd) \<Rightarrow>
            if rc \<noteq> 0 then (Inl rc, [], cd, h)
            else (case open_sized fs Load_file path (cd_fs cd) of
                    (Inl rc, s) \<Rightarrow> (Inl rc, [], cd\<lparr>cd_fs := s\<rparr>, h)
                  | (Inr size_bytes, s) \<Rightarrow>
                      let closed = (\<lambda>s. cd\<lparr>cd_fs := fs_close fs Load_file s\<rparr>)
                      in if mbytes = 0 then (Inl (- ENODEV), [], closed s, h)
                         else if unat psram_off + size_bytes > unat mbytes * 2 ^ 20 then (Inl (- ENOSPC), [], closed s, h)
                         else (case load_loop fs bus (unat psram_off) size_bytes 0 (s, h) of
                                 (rc, ds, s, h) \<Rightarrow>
                                   (if rc \<noteq> 0 then Inl rc
                                    else Inr (tq_store_init_mapped (map (\<lambda>i. pb_get bus h (unat psram_off + i)) [0..<size_bytes]) (of_nat size_bytes),
                                              size_bytes),
                                    ds, closed s, h)))))"

section \<open>Streaming\<close>

function stream_loop :: "'f fs_api \<Rightarrow> nat \<Rightarrow> u8 list \<Rightarrow> 'f \<Rightarrow> int \<times> u8 list \<times> 'f" where
  "stream_loop fs nbytes acc s =
     (if length acc < nbytes
      then let want = min STAGE_BYTES (nbytes - length acc)
           in (case fs_read fs Stream_file want s of
                 (Inl _, s) \<Rightarrow> (- EIO, acc, s)
               | (Inr bs, s) \<Rightarrow>
                   let got = take want bs in if got = [] then (- EIO, acc, s) else stream_loop fs nbytes (acc @ got) s)
      else (0, acc, s))"
  by pat_completeness auto

termination
  by (relation "measure (\<lambda>(fs, nbytes, acc, s). nbytes - length acc)") (auto simp: STAGE_BYTES_def intro!: diff_less_mono2)

declare stream_loop.simps [simp del]

text \<open>
  The callback of the store: the return code and the bytes that reached \<^verbatim>\<open>dst\<close>. It ignores its
  context and works on the static variables; in the model these travel in the place of the context.
\<close>

definition stream_read :: "'f fs_api \<Rightarrow> 'f card option \<Rightarrow> u64 \<Rightarrow> u32 \<Rightarrow> 'f card option \<times> int \<times> u8 list" where
  "stream_read fs ctx off nbytes =
     (case ctx of
        None \<Rightarrow> (None, - EBADF, [])
      | Some cd \<Rightarrow>
          if \<not> cd_stream_open cd then (Some cd, - EBADF, [])
          else (case fs_seek fs Stream_file (unat off) (cd_fs cd) of
                  (rc, s) \<Rightarrow>
                    if rc \<noteq> 0 then (Some (cd\<lparr>cd_fs := s\<rparr>), - EIO, [])
                    else (case stream_loop fs (unat nbytes) [] s of
                            (rc, bs, s) \<Rightarrow> (Some (cd\<lparr>cd_fs := s\<rparr>), rc, bs))))"

definition model_close_streaming :: "'f fs_api \<Rightarrow> 'f card \<Rightarrow> 'f card" where
  "model_close_streaming fs cd =
     (if cd_stream_open cd then cd\<lparr>cd_fs := fs_close fs Stream_file (cd_fs cd), cd_stream_open := False\<rparr> else cd)"

definition model_open_streaming ::
  "'f fs_api \<Rightarrow> u8 list \<Rightarrow> u8 list \<Rightarrow> u32 \<Rightarrow> 'f card \<Rightarrow> (int + 'f card tq_store \<times> nat) \<times> 'f card" where
  "model_open_streaming fs path tile tile_bytes cd =
     (case model_sd_mount fs cd of
        (rc, cd) \<Rightarrow>
          if rc \<noteq> 0 then (Inl rc, cd)
          else let cd = model_close_streaming fs cd
               in (case open_sized fs Stream_file path (cd_fs cd) of
                     (Inl rc, s) \<Rightarrow> (Inl rc, cd\<lparr>cd_fs := s\<rparr>)
                   | (Inr size_bytes, s) \<Rightarrow>
                       let cd = cd\<lparr>cd_fs := s, cd_stream_open := True\<rparr>
                       in (Inr (tq_store_init_stream (of_nat size_bytes) (stream_read fs) (Some cd) tile tile_bytes, size_bytes), cd)))"

section \<open>A file system that works\<close>

text \<open>
  \<open>stands p s\<close> says that the file stands at position \<open>p\<close> in the state \<open>s\<close>. A seek inside the file
  succeeds; a read that is not at its end gives at least one of the bytes that follow.
\<close>

definition serves :: "'f fs_api \<Rightarrow> card_file \<Rightarrow> (nat \<Rightarrow> 'f \<Rightarrow> bool) \<Rightarrow> u8 list \<Rightarrow> bool" where
  "serves fs f stands img \<longleftrightarrow>
     (\<forall>p s off. stands p s \<longrightarrow> off \<le> length img \<longrightarrow> (\<exists>s'. fs_seek fs f off s = (0, s') \<and> stands off s')) \<and>
     (\<forall>p s n. stands p s \<longrightarrow> 0 < n \<longrightarrow> p < length img \<longrightarrow>
        (\<exists>k s'. 0 < k \<and> k \<le> n \<and> p + k \<le> length img \<and> fs_read fs f n s = (Inr (take k (drop p img)), s') \<and> stands (p + k) s'))"

text \<open>Copies to the PSRAM of \<open>cap\<close> bytes stay there and change nothing else.\<close>

definition bus_keeps :: "'h psram_bus \<Rightarrow> nat \<Rightarrow> bool" where
  "bus_keeps bus cap \<longleftrightarrow>
     (\<forall>h off bs i. off + length bs \<le> cap \<longrightarrow>
        pb_get bus (pb_put bus off bs h) i = (if off \<le> i \<and> i < off + length bs then bs ! (i - off) else pb_get bus h i))"

lemma stage_pos: "0 < STAGE_BYTES"
  by (simp add: STAGE_BYTES_def)

lemma serves_read:
  assumes "serves fs f stands img" and "stands p s" and "0 < n" and "p + n \<le> length img"
  obtains k s' where "0 < k" "k \<le> n" "fs_read fs f n s = (Inr (take k (drop p img)), s')" "stands (p + k) s'"
    "length (take k (drop p img)) = k" "take n (take k (drop p img)) = take k (drop p img)"
proof -
  have p: "p < length img" using assms(3,4) by linarith
  obtain k s' where k: "0 < k" "k \<le> n" "p + k \<le> length img" "fs_read fs f n s = (Inr (take k (drop p img)), s')" "stands (p + k) s'"
    using assms(1,2,3) p unfolding serves_def by blast
  moreover have "length (take k (drop p img)) = k" using k(3) by simp
  moreover have "take n (take k (drop p img)) = take k (drop p img)" using k(2) by (simp add: min_def)
  ultimately show ?thesis using that by blast
qed

lemma stream_loop_serves:
  assumes "serves fs Stream_file stands img" and "stands (off + length acc) s" and "acc = take (length acc) (drop off img)"
    and "off + nbytes \<le> length img" and "length acc \<le> nbytes"
  shows "\<exists>s'. stream_loop fs nbytes acc s = (0, take nbytes (drop off img), s') \<and> stands (off + nbytes) s'"
  using assms(2,3,5)
proof (induction "nbytes - length acc" arbitrary: acc s rule: less_induct)
  case less
  show ?case
  proof (cases "length acc < nbytes")
    case False
    then have "length acc = nbytes" using less.prems(3) by simp
    then show ?thesis using less.prems(1,2) by (subst stream_loop.simps) simp
  next
    case True
    let ?want = "min STAGE_BYTES (nbytes - length acc)" and ?p = "off + length acc"
    have w: "0 < ?want" "?p + ?want \<le> length img" using True assms(4) stage_pos by auto
    obtain k s' where k: "0 < k" "k \<le> ?want" "fs_read fs Stream_file ?want s = (Inr (take k (drop ?p img)), s')" "stands (?p + k) s'"
      "length (take k (drop ?p img)) = k" "take ?want (take k (drop ?p img)) = take k (drop ?p img)"
      by (rule serves_read [OF assms(1) less.prems(1) w])
    let ?acc = "acc @ take k (drop ?p img)"
    have l: "length ?acc = length acc + k" using k(5) by simp
    have a: "?acc = take (length ?acc) (drop off img)"
      unfolding l take_add using less.prems(2) by (metis add.commute drop_drop)
    have n: "length ?acc \<le> nbytes" "nbytes - length ?acc < nbytes - length acc" using k(1,2) True unfolding l by auto
    have "stands (off + length ?acc) s'" using k(4) unfolding l by (simp add: add.assoc)
    from less.hyps [OF n(2) this a n(1)]
    have "\<exists>s''. stream_loop fs nbytes ?acc s' = (0, take nbytes (drop off img), s'') \<and> stands (off + nbytes) s''" .
    moreover have "stream_loop fs nbytes acc s = stream_loop fs nbytes ?acc s'"
    proof -
      have ne: "take k (drop ?p img) \<noteq> []" using k(1,5) by fastforce
      show ?thesis
        by (subst stream_loop.simps) (simp only: if_P [OF True] Let_def k(3,6) prod.case sum.case if_not_P [OF ne])
    qed
    ultimately show ?thesis by simp
  qed
qed

text \<open>The callback is honest: what \<open>honest_read\<close> asks of a streaming store.\<close>

definition streaming :: "(nat \<Rightarrow> 'f \<Rightarrow> bool) \<Rightarrow> 'f card option \<Rightarrow> bool" where
  "streaming stands ctx \<longleftrightarrow> (\<exists>cd p. ctx = Some cd \<and> cd_stream_open cd \<and> cd_mounted cd \<and> stands p (cd_fs cd))"

lemma stream_read_honest:
  assumes "serves fs Stream_file stands img"
  shows "honest_read (stream_read fs) (streaming stands) img"
  unfolding honest_read_def
proof (intro allI impI)
  fix c :: "'a card option" and off :: u64 and n :: u32
  assume c: "streaming stands c" and i: "unat off + unat n \<le> length img"
  obtain cd p where cd: "c = Some cd" "cd_stream_open cd" "cd_mounted cd" "stands p (cd_fs cd)" using c by (auto simp: streaming_def)
  have o: "unat off \<le> length img" using i by linarith
  obtain s1 where s1: "fs_seek fs Stream_file (unat off) (cd_fs cd) = (0, s1)" "stands (unat off) s1"
    using assms cd(4) o unfolding serves_def by blast
  obtain s2 where s2: "stream_loop fs (unat n) [] s1 = (0, take (unat n) (drop (unat off) img), s2)" "stands (unat off + unat n) s2"
    using stream_loop_serves [OF assms, of "unat off" "[]" s1 "unat n"] s1(2) i by auto
  let ?c = "Some (cd\<lparr>cd_fs := s2\<rparr>)"
  have "stream_read fs c off n = (?c, 0, take (unat n) (drop (unat off) img))"
    by (simp add: stream_read_def cd(1,2) s1(1) s2(1))
  moreover have "streaming stands ?c" using cd s2(2) by (auto simp: streaming_def)
  ultimately show "\<exists>c'. stream_read fs c off n = (c', 0, take (unat n) (drop (unat off) img)) \<and> streaming stands c'" by blast
qed

lemma load_loop_serves:
  assumes "serves fs Load_file stands img" and "bus_keeps bus cap" and "off + length img \<le> cap"
    and "stands don s" and "don \<le> length img"
  shows "\<exists>ds s' h'. load_loop fs bus off (length img) don (s, h) = (0, ds, s', h')
    \<and> (\<forall>i. pb_get bus h' i = (if off + don \<le> i \<and> i < off + length img then img ! (i - off) else pb_get bus h i))"
  using assms(4,5)
proof (induction "length img - don" arbitrary: don s h rule: less_induct)
  case less
  show ?case
  proof (cases "don < length img")
    case False
    then show ?thesis using less.prems(2) by (subst load_loop.simps) auto
  next
    case True
    let ?want = "min STAGE_BYTES (length img - don)"
    have w: "0 < ?want" "don + ?want \<le> length img" using True stage_pos by auto
    obtain k s' where k: "0 < k" "k \<le> ?want" "fs_read fs Load_file ?want s = (Inr (take k (drop don img)), s')" "stands (don + k) s'"
      "length (take k (drop don img)) = k" "take ?want (take k (drop don img)) = take k (drop don img)"
      by (rule serves_read [OF assms(1) less.prems(1) w])
    let ?bs = "take k (drop don img)" and ?h = "pb_put bus (off + don) (take k (drop don img)) h"
    have n: "don + k \<le> length img" "length img - (don + k) < length img - don" using k(1,2) w True by auto
    obtain ds s2 h2 where r: "load_loop fs bus off (length img) (don + k) (s', ?h) = (0, ds, s2, h2)"
      "\<forall>i. pb_get bus h2 i = (if off + (don + k) \<le> i \<and> i < off + length img then img ! (i - off) else pb_get bus ?h i)"
      using less.hyps [OF n(2) k(4) n(1), of ?h] by blast
    have ne: "?bs \<noteq> []" using k(1,5) by fastforce
    have "load_loop fs bus off (length img) don (s, h) = (0, (don + k) # ds, s2, h2)"
      by (subst load_loop.simps) (simp only: if_P [OF True] Let_def k(3,5,6) prod.case sum.case if_not_P [OF ne] r(1))
    moreover have "pb_get bus h2 i = (if off + don \<le> i \<and> i < off + length img then img ! (i - off) else pb_get bus h i)" for i
    proof -
      have "off + don + length ?bs \<le> cap" using n(1) assms(3) unfolding k(5) by linarith
      then have p: "pb_get bus ?h i = (if off + don \<le> i \<and> i < off + don + k then ?bs ! (i - (off + don)) else pb_get bus h i)"
        using assms(2) k(5) unfolding bus_keeps_def by (metis (no_types, lifting))
      have v: "?bs ! (i - (off + don)) = img ! (i - off)" if "off + don \<le> i" "i < off + don + k"
        using that n(1) by simp
      show ?thesis using r(2) p v n(1) by auto
    qed
    ultimately show ?thesis by blast
  qed
qed

text \<open>A card that mounts, has the file and serves it.\<close>

definition card_holds :: "'f fs_api \<Rightarrow> (nat \<Rightarrow> 'f \<Rightarrow> bool) \<Rightarrow> u8 list \<Rightarrow> u8 list \<Rightarrow> bool" where
  "card_holds fs stands path img \<longleftrightarrow>
     (\<forall>s. fst (fs_disk_init fs s) = 0 \<and> fst (fs_mount fs s) = 0)
     \<and> (\<forall>f s. \<exists>s1 s2. fs_stat fs path s = (Inr (of_nat (length img)), s1) \<and> fs_open fs f path s1 = (0, s2) \<and> stands 0 s2)
     \<and> (\<forall>f. serves fs f stands img) \<and> length img < 2 ^ 32"

lemma mount_holds:
  assumes "card_holds fs stands path img"
  shows "\<exists>cd'. model_sd_mount fs cd = (0, cd') \<and> cd_mounted cd' \<and> cd_stream_open cd' = cd_stream_open cd"
proof -
  have "fst (fs_disk_init fs s) = 0" "fst (fs_mount fs s) = 0" for s using assms by (simp_all add: card_holds_def)
  then show ?thesis by (cases "cd_mounted cd") (auto simp: model_sd_mount_def split_def)
qed

lemma open_holds:
  assumes "card_holds fs stands path img"
  shows "\<exists>s'. open_sized fs f path s = (Inr (length img), s') \<and> stands 0 s'"
proof -
  obtain s1 s2 where "fs_stat fs path s = (Inr (of_nat (length img)), s1)" "fs_open fs f path s1 = (0, s2)" "stands 0 s2"
    using assms unfolding card_holds_def by metis
  moreover have "unat (of_nat (length img) :: u32) = length img" using assms by (simp add: card_holds_def word_of_small)
  ultimately show ?thesis by (simp add: open_sized_def)
qed

lemma load_shows:
  assumes c: "card_holds fs stands path img" and b: "bus_keeps bus (unat mbytes * 2 ^ 20)"
    and f: "unat off + length img \<le> unat mbytes * 2 ^ 20" and m: "mbytes \<noteq> 0"
  shows "\<exists>st ds cd' h'. model_load_to_psram fs bus mbytes path off (cd, h) = (Inr (st, length img), ds, cd', h')
    \<and> store_mapped img st \<and> cd_mounted cd' \<and> cd_stream_open cd' = cd_stream_open cd
    \<and> (\<forall>i. pb_get bus h' i = (if unat off \<le> i \<and> i < unat off + length img then img ! (i - unat off) else pb_get bus h i))"
proof -
  obtain cd1 where cd1: "model_sd_mount fs cd = (0, cd1)" "cd_mounted cd1" "cd_stream_open cd1 = cd_stream_open cd"
    using mount_holds [OF c] by blast
  obtain s1 where s1: "open_sized fs Load_file path (cd_fs cd1) = (Inr (length img), s1)" "stands 0 s1" using open_holds [OF c] by blast
  have sv: "serves fs Load_file stands img" "length img < 2 ^ 32" using c by (simp_all add: card_holds_def)
  obtain ds s2 h2 where l: "load_loop fs bus (unat off) (length img) 0 (s1, h) = (0, ds, s2, h2)"
    "\<forall>i. pb_get bus h2 i = (if unat off \<le> i \<and> i < unat off + length img then img ! (i - unat off) else pb_get bus h i)"
    using load_loop_serves [OF sv(1) b f s1(2), of h] by auto
  have "map (\<lambda>i. pb_get bus h2 (unat off + i)) [0..<length img] = img" using l(2) by (intro nth_equalityI) simp_all
  moreover have "\<not> unat off + length img > unat mbytes * 2 ^ 20" using f by simp
  ultimately have "model_load_to_psram fs bus mbytes path off (cd, h) =
      (Inr (tq_store_init_mapped img (of_nat (length img)), length img), ds, cd1\<lparr>cd_fs := fs_close fs Load_file s2\<rparr>, h2)"
    using m by (simp add: model_load_to_psram_def cd1(1) s1(1) l(1) Let_def)
  moreover have "store_mapped img (tq_store_init_mapped img (of_nat (length img)))"
    using sv(2) by (simp add: store_mapped_def tq_store_init_mapped_def unat_of_nat_id)
  moreover have "cd_mounted (cd1\<lparr>cd_fs := fs_close fs Load_file s2\<rparr>)"
    "cd_stream_open (cd1\<lparr>cd_fs := fs_close fs Load_file s2\<rparr>) = cd_stream_open cd" using cd1(2,3) by simp_all
  ultimately show ?thesis using l(2) by blast
qed

lemma stream_shows:
  assumes c: "card_holds fs stands path img" and t: "length tile = unat tb"
  shows "\<exists>st cd'. model_open_streaming fs path tile tb cd = (Inr (st, length img), cd') \<and> store_streams img (unat tb) st
    \<and> st_ctx st = Some cd' \<and> streaming stands (Some cd') \<and> st_read st = Some (stream_read fs)"
proof -
  obtain cd1 where cd1: "model_sd_mount fs cd = (0, cd1)" "cd_mounted cd1" using mount_holds [OF c] by blast
  let ?cd = "model_close_streaming fs cd1"
  obtain s1 where s1: "open_sized fs Stream_file path (cd_fs ?cd) = (Inr (length img), s1)" "stands 0 s1" using open_holds [OF c] by blast
  let ?cd' = "?cd\<lparr>cd_fs := s1, cd_stream_open := True\<rparr>"
  let ?st = "tq_store_init_stream (of_nat (length img)) (stream_read fs) (Some ?cd') tile tb"
  have "model_open_streaming fs path tile tb cd = (Inr (?st, length img), ?cd')"
    by (simp add: model_open_streaming_def cd1(1) s1(1) Let_def)
  moreover have p: "streaming stands (Some ?cd')" using s1(2) cd1(2) by (auto simp: streaming_def model_close_streaming_def)
  moreover have "serves fs Stream_file stands img" "length img < 2 ^ 32" using c by (simp_all add: card_holds_def)
  then have "store_streams img (unat tb) ?st"
    using stream_read_honest p t by (auto simp: store_streams_def tq_store_init_stream_def unat_of_nat_id)
  ultimately show ?thesis by (auto simp: tq_store_init_stream_def)
qed

section \<open>A sample card\<close>

text \<open>One file, whose reads give a single byte at a time; the state is the position.\<close>

definition slow_fs :: "u8 list \<Rightarrow> nat fs_api" where
  "slow_fs img =
     \<lparr>fs_disk_init = (\<lambda>s. (0, s)), fs_clear = (\<lambda>s. s), fs_mount = (\<lambda>s. (0, s)), fs_stat = (\<lambda>path s. (Inr (of_nat (length img)), s)),
      fs_open = (\<lambda>f path s. (0, 0)), fs_seek = (\<lambda>f off s. (0, off)), fs_read = (\<lambda>f n s. (Inr (take (min 1 n) (drop s img)), s + min 1 n)),
      fs_close = (\<lambda>f s. s)\<rparr>"

definition plain_bus :: "(nat \<Rightarrow> u8) psram_bus" where
  "plain_bus = \<lparr>pb_put = (\<lambda>off bs h i. if off \<le> i \<and> i < off + length bs then bs ! (i - off) else h i), pb_get = (\<lambda>h. h)\<rparr>"

lemma plain_bus_keeps: "bus_keeps plain_bus cap"
  by (simp add: bus_keeps_def plain_bus_def)

lemma slow_holds: "length img < 2 ^ 32 \<Longrightarrow> card_holds (slow_fs img) (=) path img"
proof -
  assume l: "length img < 2 ^ 32"
  have "serves (slow_fs img) f (=) img" for f
    unfolding serves_def by (auto simp: slow_fs_def intro!: exI [of _ 1])
  then show ?thesis using l by (auto simp: card_holds_def slow_fs_def)
qed

section \<open>Properties\<close>



end
