(* ===== verification/Tq_Board.thy ===== *)
theory Tq_Board imports Tq_Sem Tq_Card begin

text \<open>
  The firmware's shell, \<^verbatim>\<open>src/firmware/teensy41-tinyllm/src/main.c\<close>: loading and streaming a model, laying
  out its buffers in PSRAM, generation, and the semaphore commands of the board. The state of the
  module is a record; a command is a function from its arguments and the state to the return
  code, what it reports and the new state. The lemmas show that the layout stays inside the PSRAM,
  that a loaded model is ready whatever commands came before, and that board and host understand
  each other's messages.
\<close>

unbundle bit_operations_syntax

section \<open>The module\<close>

definition SEM_MAX_TOKENS :: int where "SEM_MAX_TOKENS = 256"

definition SEM_MAX_WIRE :: nat where "SEM_MAX_WIRE = 640"

definition ENOMEM :: int where "ENOMEM = 12"

definition ENOBUFS :: int where "ENOBUFS = 105"

definition EMSGSIZE :: int where "EMSGSIZE = 122"

definition ENOTSUP :: int where "ENOTSUP = 134"

text \<open>The defaults of the build's \<^verbatim>\<open>Kconfig\<close>.\<close>

definition FAST_ARENA_BYTES :: u32 where "FAST_ARENA_BYTES = 262144"

definition STREAM_TILE_BYTES :: u32 where "STREAM_TILE_BYTES = 32768"

definition PSRAM_MAX_CLOCK_INDEX :: int where "PSRAM_MAX_CLOCK_INDEX = 8"

definition PSRAM_BOOT_CLOCK_INDEX :: int where "PSRAM_BOOT_CLOCK_INDEX = 3"

text \<open>
  What the firmware runs on: the file system, the PSRAM as bytes and as a device, what the arenas
  and the uninitialised variables hold, the addresses of the arenas, \<^verbatim>\<open>atof\<close> of the C library and
  \<^verbatim>\<open>hex2bin\<close> of the kernel.
\<close>

record ('f, 'h) platform =
  pl_fs :: "'f fs_api"
  pl_bus :: "'h psram_bus"
  pl_board :: "'h board"
  pl_mem :: arena_mem
  pl_ints :: "nat \<Rightarrow> int"
  pl_chars :: "nat \<Rightarrow> u8"
  pl_tile :: "u8 list"
  pl_model_arena :: u32
  pl_fast_arena :: u32
  pl_atof :: "u8 list \<Rightarrow> f32"
  pl_hex2bin :: "u8 list \<Rightarrow> nat \<Rightarrow> u8 list"

text \<open>
  The static variables. \<^verbatim>\<open>g_store\<close> and \<^verbatim>\<open>g_model\<close> are reached through the runtime, which points to
  them; the state of \<^verbatim>\<open>model_store.c\<close> is \<open>mc_card\<close>, and the same value is the context of a store that
  streams.
\<close>

record ('f, 'h) machine =
  mc_card :: "'f card"
  mc_hw :: 'h
  mc_info :: psram_info
  mc_rt :: "'f card tq_runtime"
  mc_tok :: tq_tokenizer
  mc_loaded :: bool
  mc_have_tok :: bool
  mc_bytes :: nat
  mc_kv_off :: u32
  mc_scratch_off :: u32
  mc_pm :: tq_ac_model
  mc_last_pct :: u32

text \<open>What a command prints, without the timings.\<close>

datatype reply =
  Nothing_more
| Clock int
| Bad_words u32
| Rates u32 u32
| Info psram_info
| Message "u8 list"
| Wire "u8 list"
| Fingerprint u64

text \<open>Using the store leaves the state of the card behind.\<close>

definition settle :: "('f, 'h) machine \<Rightarrow> 'f card tq_runtime \<Rightarrow> ('f, 'h) machine" where
  "settle M rt = M\<lparr>mc_rt := rt, mc_card := (case st_ctx (rt_store rt) of Some cd \<Rightarrow> cd | None \<Rightarrow> mc_card M)\<rparr>"

section \<open>Memory plan\<close>

definition psram_alloc :: "u32 \<Rightarrow> u32 \<Rightarrow> u32 \<times> u32" where
  "psram_alloc cursor bytes = (let here = (cursor + 63) AND NOT 63 in (here, here + bytes))"

text \<open>The percentages that are printed while a file is copied, and the last one.\<close>

definition load_progress :: "nat \<Rightarrow> u32 \<times> u32 list \<Rightarrow> nat \<Rightarrow> u32 \<times> u32 list" where
  "load_progress size_bytes s don =
     (case s of (last_pct, out) \<Rightarrow>
        let pct = of_nat (don * 100 div (if size_bytes \<noteq> 0 then size_bytes else 1))
        in if pct div 10 \<noteq> last_pct div 10 then (pct, out @ [pct]) else (last_pct, out))"

definition finish_open ::
  "('f, 'h) platform \<Rightarrow> 'f card tq_store \<Rightarrow> int \<Rightarrow> bool \<Rightarrow> ('f, 'h) machine \<Rightarrow> int \<times> ('f, 'h) machine" where
  "finish_open P st max_seq kv8 M =
     (case tq_model_open st (pl_model_arena P) 4096 of
        (rc, m, st) \<Rightarrow>
          let M = M\<lparr>mc_card := (case st_ctx st of Some cd \<Rightarrow> cd | None \<Rightarrow> mc_card M)\<rparr>
          in if rc \<noteq> TQ_OK then (- EINVAL, M)
             else
               let max_seq = (if max_seq \<le> 0 \<or> max_seq > m_seq_len m then m_seq_len m else max_seq);
                   fast_need = tq_runtime_bytes m max_seq :: u32
               in if fast_need > FAST_ARENA_BYTES then (- ENOMEM, M)
                  else
                    let cursor = (if st_base st \<noteq> None then of_nat (mc_bytes M) else 0) :: u32;
                        kv = (if kv8 then TQ_KV_Q8 else TQ_KV_F32);
                        kv_bytes = tq_kv_bytes m max_seq kv :: u32;
                        scratch_need = word_of_int (m_vocab_size m) * 8 :: u32
                    in if (ucast (cursor + kv_bytes + scratch_need) :: u64) > push_bit 20 (ucast (pi_mbytes (mc_info M))) then (- ENOMEM, M)
                       else
                         case psram_alloc cursor kv_bytes of
                           (kv_off, cursor) \<Rightarrow>
                             (case psram_alloc cursor scratch_need of
                                (scratch_off, cursor) \<Rightarrow>
                                  let M = M\<lparr>mc_kv_off := kv_off, mc_scratch_off := scratch_off\<rparr>
                                  in (case runtime_start (pl_mem P) m st max_seq kv (pl_fast_arena P) FAST_ARENA_BYTES (PSRAM_BASE + kv_off) kv_bytes of
                                        Inl rc \<Rightarrow> (- ENOMEM, M)
                                      | Inr rt \<Rightarrow>
                                          let M = M\<lparr>mc_rt := rt, mc_loaded := True\<rparr>
                                          in (case tq_tokenizer_init st m 64 of
                                                Inl _ \<Rightarrow> (0, M\<lparr>mc_have_tok := False\<rparr>)
                                              | Inr t \<Rightarrow> (0, M\<lparr>mc_have_tok := True, mc_tok := t\<rparr>)))))"

section \<open>Arguments\<close>

text \<open>\<^verbatim>\<open>atoi\<close> and \<^verbatim>\<open>strtoul\<close>: white space, a sign, decimal digits; \<^verbatim>\<open>strtoul\<close> saturates.\<close>

fun digits_value :: "int \<Rightarrow> u8 list \<Rightarrow> int" where
  "digits_value v (c # cs) = (if 48 \<le> c \<and> c \<le> 57 then digits_value (10 * v + uint c - 48) cs else v)"
| "digits_value v [] = v"

definition c_atoi :: "u8 list \<Rightarrow> int" where
  "c_atoi s =
     (case dropWhile is_space s of
        [] \<Rightarrow> 0
      | c # cs \<Rightarrow> if c = 45 then - digits_value 0 cs else if c = 43 then digits_value 0 cs else digits_value 0 (c # cs))"

definition c_strtoul :: "u8 list \<Rightarrow> u32" where
  "c_strtoul s =
     (let sat = (\<lambda>v. if v > 2 ^ 32 - 1 then 2 ^ 32 - 1 else v)
      in case dropWhile is_space s of
           [] \<Rightarrow> 0
         | c # cs \<Rightarrow>
             if c = 45 then (if digits_value 0 cs > 2 ^ 32 - 1 then -1 else - word_of_int (digits_value 0 cs))
             else word_of_int (sat (if c = 43 then digits_value 0 cs else digits_value 0 (c # cs))))"

fun parse_common :: "u8 list list \<Rightarrow> int \<times> bool \<Rightarrow> int \<times> bool" where
  "parse_common [] s = s"
| "parse_common (a # rest) (max_seq, kv8) =
     (if a = cstr ''-c'' \<and> rest \<noteq> [] then parse_common (tl rest) (c_atoi (hd rest), kv8)
      else if a = cstr ''--kv8'' then parse_common rest (max_seq, True)
      else parse_common rest (max_seq, kv8))"

text \<open>The words of the command line joined by blanks, as long as they fit the buffer.\<close>

definition add_word :: "u8 list \<Rightarrow> u8 list \<Rightarrow> u8 list" where
  "add_word s a = (if length s + length a + 2 < 192 then s @ (if s \<noteq> [] then cstr '' '' else []) @ a else s)"

definition card_path :: "u8 list \<Rightarrow> u8 list" where
  "card_path a = take 95 (if a \<noteq> [] \<and> hd a = 47 then a else cstr ''/SD:/'' @ a)"

section \<open>Loading\<close>

definition cmd_load :: "('f, 'h) platform \<Rightarrow> u8 list list \<Rightarrow> ('f, 'h) machine \<Rightarrow> int \<times> ('f, 'h) machine" where
  "cmd_load P argv M =
     (if length argv < 2 then (- EINVAL, M)
      else if pi_mbytes (mc_info M) = 0 then (- ENODEV, M)
      else case parse_common (drop 2 argv) (0, False) of
        (max_seq, kv8) \<Rightarrow>
          let M = M\<lparr>mc_loaded := False, mc_card := model_close_streaming (pl_fs P) (mc_card M)\<rparr>
          in (case model_load_to_psram (pl_fs P) (pl_bus P) (pi_mbytes (mc_info M)) (card_path (argv ! 1)) 0 (mc_card M, mc_hw M) of
                (Inl rc, ds, cd, h) \<Rightarrow> (rc, M\<lparr>mc_card := cd, mc_hw := h\<rparr>)
              | (Inr (st, bytes), ds, cd, h) \<Rightarrow>
                  let (last_pct, out) = foldl (load_progress bytes) (mc_last_pct M, []) ds
                  in finish_open P st max_seq kv8 (M\<lparr>mc_card := cd, mc_hw := h, mc_bytes := bytes, mc_last_pct := last_pct\<rparr>)))"

definition cmd_stream :: "('f, 'h) platform \<Rightarrow> u8 list list \<Rightarrow> ('f, 'h) machine \<Rightarrow> int \<times> ('f, 'h) machine" where
  "cmd_stream P argv M =
     (if length argv < 2 then (- EINVAL, M)
      else case parse_common (drop 2 argv) (0, True) of
        (max_seq, kv8) \<Rightarrow>
          let M = M\<lparr>mc_loaded := False\<rparr>
          in (case model_open_streaming (pl_fs P) (card_path (argv ! 1)) (pl_tile P) STREAM_TILE_BYTES (mc_card M) of
                (Inl rc, cd) \<Rightarrow> (rc, M\<lparr>mc_card := cd\<rparr>)
              | (Inr (st, bytes), cd) \<Rightarrow> finish_open P st max_seq kv8 (M\<lparr>mc_card := cd, mc_bytes := bytes\<rparr>)))"

section \<open>The PSRAM command\<close>

text \<open>
  A test, a write benchmark or a sweep destroys what the PSRAM holds: a resident model and the
  tables of its tokenizer are whatever lies there afterwards.
\<close>

definition scribbled :: "('f, 'h) platform \<Rightarrow> 'h \<Rightarrow> ('f, 'h) machine \<Rightarrow> ('f, 'h) machine" where
  "scribbled P h M =
     (if st_base (rt_store (mc_rt M)) = None then M\<lparr>mc_hw := h\<rparr>
      else let bs = map (pb_get (pl_bus P) h) [0..<mc_bytes M]; rt = mc_rt M
           in M\<lparr>mc_hw := h, mc_rt := rt\<lparr>rt_store := (rt_store rt)\<lparr>st_base := Some bs\<rparr>\<rparr>, mc_tok := (mc_tok M)\<lparr>tk_base := bs\<rparr>\<rparr>)"

definition cmd_psram :: "('f, 'h) platform \<Rightarrow> u8 list list \<Rightarrow> ('f, 'h) machine \<Rightarrow> (int \<times> reply \<times> ('f, 'h) machine) option" where
  "cmd_psram P argv M =
     (let sub = (if length argv > 1 then argv ! 1 else cstr ''info''); b = pl_board P; mb = pi_mbytes (mc_info M)
      in if sub = cstr ''sweep''
         then (case psram_clock_sweep b PSRAM_MAX_CLOCK_INDEX (mc_info M, mc_hw M) of
                 None \<Rightarrow> None
               | Some (best, info, h) \<Rightarrow>
                   let M = (scribbled P h M)\<lparr>mc_info := info\<rparr>
                   in if best < 0 then Some (- EIO, Nothing_more, M) else Some (0, Clock best, M\<lparr>mc_loaded := False\<rparr>))
         else if sub = cstr ''test''
         then (if mb = 0 then Some (- ENODEV, Nothing_more, M)
               else case psram_memtest b 0 (unat mb * 2 ^ 20) False (mc_hw M) of
                      (bad, h) \<Rightarrow> Some (if bad \<noteq> 0 then - EIO else 0, Bad_words bad, (scribbled P h M)\<lparr>mc_loaded := False\<rparr>))
         else if sub = cstr ''bench''
         then (case psram_bench_read b 0 (1024 * 1024) (mc_hw M) of
                 (r, h) \<Rightarrow> (case psram_bench_write b 0 (1024 * 1024) h of
                             (w, h) \<Rightarrow> Some (0, Rates r w, (scribbled P h M)\<lparr>mc_loaded := False\<rparr>)))
         else Some (0, Info (mc_info M), M))"

section \<open>Generation\<close>

record gen_args =
  ga_steps :: int
  ga_temp :: f32
  ga_topp :: f32
  ga_seed :: u32
  ga_prompt :: "u8 list"

text \<open>128 steps, temperature and threshold \<^verbatim>\<open>0.9f\<close>, seed 42.\<close>

definition gen_defaults :: gen_args where
  "gen_defaults = \<lparr>ga_steps = 128, ga_temp = 0x3F666666, ga_topp = 0x3F666666, ga_seed = 42, ga_prompt = []\<rparr>"

fun parse_gen :: "(u8 list \<Rightarrow> f32) \<Rightarrow> u8 list list \<Rightarrow> gen_args \<Rightarrow> gen_args" where
  "parse_gen af [] g = g"
| "parse_gen af [a] g = g\<lparr>ga_prompt := add_word (ga_prompt g) a\<rparr>"
| "parse_gen af (a # v # rest) g =
     (if a = cstr ''-n'' then parse_gen af rest (g\<lparr>ga_steps := c_atoi v\<rparr>)
      else if a = cstr ''-t'' then parse_gen af rest (g\<lparr>ga_temp := af v\<rparr>)
      else if a = cstr ''-p'' then parse_gen af rest (g\<lparr>ga_topp := af v\<rparr>)
      else if a = cstr ''-s'' then parse_gen af rest (g\<lparr>ga_seed := c_strtoul v\<rparr>)
      else parse_gen af (v # rest) (g\<lparr>ga_prompt := add_word (ga_prompt g) a\<rparr>))"

text \<open>
  The loop is the one of the host runner, \<open>generate\<close> in theory \<open>Tq_Generate\<close>: the prompt behind a
  begin marker or the begin marker alone, at most \<^verbatim>\<open>max_seq\<close> steps, the same output.
\<close>

definition cmd_gen :: "('f, 'h) platform \<Rightarrow> u8 list list \<Rightarrow> ('f, 'h) machine \<Rightarrow> (int \<times> reply \<times> ('f, 'h) machine) option" where
  "cmd_gen P argv M =
     (if \<not> mc_loaded M then Some (- ENODEV, Nothing_more, M)
      else
        let g = parse_gen (pl_atof P) (drop 1 argv) gen_defaults; rt = mc_rt M; V = nat (m_vocab_size (rt_m rt))
        in case generate False (if mc_have_tok M then Some (mc_tok M) else None) (ga_prompt g) (ga_steps g) (ga_temp g) (ga_topp g)
                  (ucast (ga_seed g)) (map (pl_ints P) [0..<V]) (map (am_float (pl_mem P) 20) [0..<V]) (map (pl_chars P) [0..<64]) rt of
             None \<Rightarrow> None
           | Some (Inl rc) \<Rightarrow> Some (- EINVAL, Nothing_more, M)
           | Some (Inr (r, s)) \<Rightarrow>
               let M = settle M (gn_rt s)
               in Some (if gr_rc r \<noteq> TQ_OK then - EIO else 0, Message (gr_text r), M))"

section \<open>Messages\<close>

definition sem_ready :: "('f, 'h) machine \<Rightarrow> int \<times> ('f, 'h) machine" where
  "sem_ready M =
     (if \<not> mc_loaded M then (- ENODEV, M)
      else if \<not> mc_have_tok M then (- ENOTSUP, M)
      else case tq_ac_model_init (m_vocab_size (rt_m (mc_rt M))) of
             Inl _ \<Rightarrow> (- EINVAL, M)
           | Inr pm \<Rightarrow> (0, M\<lparr>mc_pm := pm\<rparr>))"

record 'c board_enc =
  be_rt :: "'c tq_runtime"
  be_pm :: tq_ac_model
  be_e :: tq_ac_enc

definition board_encode_step :: "int list \<Rightarrow> nat \<Rightarrow> 'c board_enc \<Rightarrow> (tq_status \<times> 'c board_enc) option" where
  "board_encode_step toks pos s =
     (case tq_forward (be_rt s) (toks ! pos) (int pos) of
        None \<Rightarrow> None
      | Some (rc, rt) \<Rightarrow>
          let s = s\<lparr>be_rt := rt\<rparr>
          in if rc \<noteq> TQ_OK then Some (rc, s)
             else map_option (\<lambda>(e, pm, rc). (rc, s\<lparr>be_e := e, be_pm := pm\<rparr>))
                    (tq_ac_enc_token (be_e s) (be_pm s) (rt_logits rt) (toks ! (pos + 1))))"

definition cmd_sem_encode :: "u8 list list \<Rightarrow> ('f, 'h) machine \<Rightarrow> (int \<times> reply \<times> ('f, 'h) machine) option" where
  "cmd_sem_encode argv M =
     (case sem_ready M of
        (rc, M) \<Rightarrow>
          if rc \<noteq> 0 then Some (rc, Nothing_more, M)
          else case tq_encode (mc_tok M) (foldl add_word [] (drop 1 argv)) True False SEM_MAX_TOKENS of
                 Inl Undefined \<Rightarrow> None
               | Inl _ \<Rightarrow> Some (- EINVAL, Nothing_more, M)
               | Inr toks \<Rightarrow>
                   let n = int (length toks)
                   in if n - 1 > 255 \<or> n > rt_max_seq (mc_rt M) then Some (- EMSGSIZE, Nothing_more, M)
                      else case tq_ac_enc_sym (tq_ac_enc_init SEM_MAX_WIRE) (word_of_int (n - 1) * SEM_LEN_FREQ) SEM_LEN_FREQ TQ_AC_TOT of
                             None \<Rightarrow> None
                           | Some e \<Rightarrow>
                               (case run_ok (map (board_encode_step toks) [0..<length toks - 1]) \<lparr>be_rt = mc_rt M, be_pm = mc_pm M, be_e = e\<rparr> of
                                  None \<Rightarrow> None
                                | Some (rc, s) \<Rightarrow>
                                    let M = (settle M (be_rt s))\<lparr>mc_pm := be_pm s\<rparr>
                                    in if rc \<noteq> TQ_OK then Some (- EIO, Nothing_more, M)
                                       else case tq_ac_enc_finish (be_e s) of
                                              (len, e) \<Rightarrow> if e_overflow e then Some (- ENOBUFS, Nothing_more, M)
                                                          else Some (0, Wire (take len (e_buf e)), M)))"

text \<open>The decoding loop and the printing loop are those of the host tool (theory \<open>Tq_Sem\<close>).\<close>

definition cmd_sem_decode :: "('f, 'h) platform \<Rightarrow> u8 list \<Rightarrow> ('f, 'h) machine \<Rightarrow> (int \<times> reply \<times> ('f, 'h) machine) option" where
  "cmd_sem_decode P hex M =
     (case sem_ready M of
        (rc, M) \<Rightarrow>
          if rc \<noteq> 0 then Some (rc, Nothing_more, M)
          else
            let wire = pl_hex2bin P hex SEM_MAX_WIRE
            in if wire = [] then Some (- EINVAL, Nothing_more, M)
               else case tq_ac_dec_target (tq_ac_dec_init wire) TQ_AC_TOT of
                 (d, target) \<Rightarrow>
                   let want = target div SEM_LEN_FREQ
                   in (case tq_ac_dec_update d (want * SEM_LEN_FREQ) SEM_LEN_FREQ of
                         None \<Rightarrow> None
                       | Some d \<Rightarrow>
                           if uint want + 1 > SEM_MAX_TOKENS \<or> uint want + 1 > rt_max_seq (mc_rt M) then Some (- EMSGSIZE, Nothing_more, M)
                           else case sem_decode_loop (unat want) [sint (h_bos_token (m_hdr (rt_m (mc_rt M))))]
                                       \<lparr>sd_rt = mc_rt M, sd_pm = mc_pm M, sd_d = d\<rparr> of
                                  None \<Rightarrow> None
                                | Some (r, s) \<Rightarrow>
                                    let M = (settle M (sd_rt s))\<lparr>mc_pm := sd_pm s\<rparr>
                                    in (case r of
                                          Inl _ \<Rightarrow> Some (- EIO, Nothing_more, M)
                                        | Inr toks \<Rightarrow>
                                            map_option (\<lambda>s. (0, Message s, M)) (print_text (mc_tok M) (map (pl_chars P) [0..<64]) toks))))"

text \<open>The fingerprint, by the loop of the host tool.\<close>

definition cmd_sem_hash :: "('f, 'h) machine \<Rightarrow> (int \<times> reply \<times> ('f, 'h) machine) option" where
  "cmd_sem_hash M =
     (if \<not> mc_loaded M then Some (- ENODEV, Nothing_more, M)
      else case do_hash (mc_rt M) of
             None \<Rightarrow> None
           | Some (Inl _, rt) \<Rightarrow> Some (- EIO, Nothing_more, settle M rt)
           | Some (Inr h, rt) \<Rightarrow> Some (0, Fingerprint h, settle M rt))"

section \<open>The shell\<close>

datatype command =
  Psram "u8 list list"
| Load "u8 list list"
| Stream "u8 list list"
| Gen "u8 list list"
| Sem_encode "u8 list list"
| Sem_decode "u8 list"
| Sem_hash

fun run_command :: "('f, 'h) platform \<Rightarrow> command \<Rightarrow> ('f, 'h) machine \<Rightarrow> (int \<times> reply \<times> ('f, 'h) machine) option" where
  "run_command P (Psram argv) M = cmd_psram P argv M"
| "run_command P (Load argv) M = (case cmd_load P argv M of (rc, M) \<Rightarrow> Some (rc, Nothing_more, M))"
| "run_command P (Stream argv) M = (case cmd_stream P argv M of (rc, M) \<Rightarrow> Some (rc, Nothing_more, M))"
| "run_command P (Gen argv) M = cmd_gen P argv M"
| "run_command P (Sem_encode argv) M = cmd_sem_encode argv M"
| "run_command P (Sem_decode hex) M = cmd_sem_decode P hex M"
| "run_command P Sem_hash M = cmd_sem_hash M"

text \<open>\<^verbatim>\<open>main\<close>: the PSRAM is brought up and the card is mounted; neither failure stops it.\<close>

definition boot :: "('f, 'h) platform \<Rightarrow> ('f, 'h) machine \<Rightarrow> ('f, 'h) machine option" where
  "boot P M =
     map_option (\<lambda>(rc, info, h). M\<lparr>mc_info := info, mc_hw := h, mc_card := snd (model_sd_mount (pl_fs P) (mc_card M))\<rparr>)
       (psram_init (pl_board P) PSRAM_BOOT_CLOCK_INDEX (mc_info M, mc_hw M))"

section \<open>The memory plan stays in the PSRAM\<close>

lemma and_not_63: "unat ((w :: u32) AND NOT 63) = unat w div 64 * 64"
proof -
  have m: "(63 :: u32) = mask 6" by (simp add: mask_numeral)
  have "w AND NOT 63 = push_bit 6 (drop_bit 6 w)"
    unfolding m by (rule bit_eqI) (auto simp only: bit_simps not_less o_apply le_add_diff_inverse)
  moreover have "unat w div 64 * 64 \<le> unat w" by simp
  ultimately show ?thesis using unat32_less [of w] by (simp add: unat_push_mod unat_drop_div)
qed

text \<open>An allocation begins at most 63 bytes behind the cursor, on a multiple of 64.\<close>

lemma psram_alloc_value:
  assumes "psram_alloc cursor bytes = (here, next)" and "unat cursor + unat bytes + 63 < 2 ^ 32"
  shows "unat cursor \<le> unat here" and "unat here \<le> unat cursor + 63" and "unat here mod 64 = 0" and "unat next = unat here + unat bytes"
proof -
  have h: "here = (cursor + 63) AND NOT 63" "next = here + bytes" using assms(1) by (auto simp: psram_alloc_def Let_def)
  have "unat (cursor + 63) = unat cursor + 63" using assms(2) by (subst unat_add_small) simp_all
  then have u: "unat here = (unat cursor + 63) div 64 * 64" unfolding h(1) and_not_63 by simp
  then show m: "unat here mod 64 = 0" by simp
  show b: "unat cursor \<le> unat here" "unat here \<le> unat cursor + 63"
    using div_mult_mod_eq [of "unat cursor + 63" 64] mod_less_divisor [of 64 "unat cursor + 63"] unfolding u by linarith+
  show "unat next = unat here + unat bytes" unfolding h(2) by (rule unat_add_small) (use b assms(2) in simp)
qed

text \<open>What \<^verbatim>\<open>finish_open\<close> has done when it returns 0.\<close>

definition opened :: "('f, 'h) platform \<Rightarrow> 'f card tq_store \<Rightarrow> int \<Rightarrow> bool \<Rightarrow> ('f, 'h) machine \<Rightarrow> ('f, 'h) machine \<Rightarrow> tq_model \<Rightarrow> 'f card tq_store \<Rightarrow> int \<Rightarrow> bool" where
  "opened P st max_seq kv8 M M' m st' sq \<longleftrightarrow>
     (let kv = (if kv8 then TQ_KV_Q8 else TQ_KV_F32); cursor = (if st_base st' \<noteq> None then of_nat (mc_bytes M) else 0) :: u32;
          kv_bytes = tq_kv_bytes m sq kv :: u32; scratch_need = word_of_int (m_vocab_size m) * 8 :: u32
      in tq_model_open st (pl_model_arena P) 4096 = (TQ_OK, m, st')
         \<and> sq = (if max_seq \<le> 0 \<or> max_seq > m_seq_len m then m_seq_len m else max_seq)
         \<and> \<not> (ucast (cursor + kv_bytes + scratch_need) :: u64) > push_bit 20 (ucast (pi_mbytes (mc_info M)))
         \<and> mc_kv_off M' = fst (psram_alloc cursor kv_bytes)
         \<and> mc_scratch_off M' = fst (psram_alloc (snd (psram_alloc cursor kv_bytes)) scratch_need)
         \<and> runtime_start (pl_mem P) m st' sq kv (pl_fast_arena P) FAST_ARENA_BYTES (PSRAM_BASE + mc_kv_off M') kv_bytes = Inr (mc_rt M')
         \<and> mc_loaded M' \<and> mc_have_tok M' = (\<exists>t. tq_tokenizer_init st' m 64 = Inr t)
         \<and> (\<forall>t. tq_tokenizer_init st' m 64 = Inr t \<longrightarrow> mc_tok M' = t))"

lemma finish_open_outcome:
  assumes "finish_open P st max_seq kv8 M = (rc, M')"
  shows "mc_info M' = mc_info M \<and> mc_hw M' = mc_hw M \<and> mc_bytes M' = mc_bytes M
    \<and> (rc \<noteq> 0 \<and> mc_loaded M' = mc_loaded M \<or> rc = 0 \<and> (\<exists>m st' sq. opened P st max_seq kv8 M M' m st' sq))"
proof -
  obtain orc m st' where o: "tq_model_open st (pl_model_arena P) 4096 = (orc, m, st')" by (metis prod_cases3)
  let ?M = "M\<lparr>mc_card := (case st_ctx st' of Some cd \<Rightarrow> cd | None \<Rightarrow> mc_card M)\<rparr>"
  define sq where "sq = (if max_seq \<le> 0 \<or> max_seq > m_seq_len m then m_seq_len m else max_seq)"
  define kv where "kv = (if kv8 then TQ_KV_Q8 else TQ_KV_F32)"
  define cursor where "cursor = (if st_base st' \<noteq> None then of_nat (mc_bytes M) else 0 :: u32)"
  define K where "K = (tq_kv_bytes m sq kv :: u32)"
  define S where "S = (word_of_int (m_vocab_size m) * 8 :: u32)"
  have mb: "mc_bytes ?M = mc_bytes M" "mc_info ?M = mc_info M" by simp_all
  note b = assms [unfolded finish_open_def o prod.case Let_def, folded sq_def kv_def, unfolded mb, folded cursor_def, folded K_def, folded S_def]
  show ?thesis
  proof (cases "orc \<noteq> TQ_OK \<or> (tq_runtime_bytes m sq :: u32) > FAST_ARENA_BYTES \<or> (ucast (cursor + K + S) :: u64) > push_bit 20 (ucast (pi_mbytes (mc_info M)))")
    case True
    then consider "orc \<noteq> TQ_OK" | "orc = TQ_OK" "(tq_runtime_bytes m sq :: u32) > FAST_ARENA_BYTES"
      | "orc = TQ_OK" "\<not> (tq_runtime_bytes m sq :: u32) > FAST_ARENA_BYTES" "(ucast (cursor + K + S) :: u64) > push_bit 20 (ucast (pi_mbytes (mc_info M)))"
      by blast
    then show ?thesis by cases (use b in \<open>auto simp: EINVAL_def ENOMEM_def\<close>)
  next
    case False
    obtain ko c1 where 1: "psram_alloc cursor K = (ko, c1)" by fastforce
    obtain so c2 where 2: "psram_alloc c1 S = (so, c2)" by fastforce
    have ok: "\<not> orc \<noteq> TQ_OK" "\<not> (tq_runtime_bytes m sq :: u32) > FAST_ARENA_BYTES" "\<not> (ucast (cursor + K + S) :: u64) > push_bit 20 (ucast (pi_mbytes (mc_info M)))"
      using False by simp_all
    note b = b [unfolded if_not_P [OF ok(1)] if_not_P [OF ok(2)] if_not_P [OF ok(3)] 1 prod.case 2]
    show ?thesis
    proof (cases "runtime_start (pl_mem P) m st' sq kv (pl_fast_arena P) FAST_ARENA_BYTES (PSRAM_BASE + ko) K :: tq_status + 'a card tq_runtime")
      case (Inl e)
      then show ?thesis using b by (auto simp: ENOMEM_def)
    next
      case (Inr rt)
      have "rc = 0 \<and> mc_info M' = mc_info M \<and> mc_hw M' = mc_hw M \<and> mc_bytes M' = mc_bytes M \<and> mc_loaded M' \<and> mc_rt M' = rt
          \<and> mc_kv_off M' = ko \<and> mc_scratch_off M' = so \<and> mc_have_tok M' = (\<exists>t. tq_tokenizer_init st' m 64 = Inr t)
          \<and> (\<forall>t. tq_tokenizer_init st' m 64 = Inr t \<longrightarrow> mc_tok M' = t)"
        using b unfolding Inr sum.case by (cases "tq_tokenizer_init st' m 64") auto
      then have "opened P st max_seq kv8 M M' m st' sq"
        using o ok Inr unfolding opened_def Let_def kv_def [symmetric] cursor_def [symmetric] K_def [symmetric] S_def [symmetric]
        by (simp add: 1 2 sq_def)
      with \<open>rc = 0 \<and> _\<close> show ?thesis by blast
    qed
  qed
qed

text \<open>The plan: the cache behind the weights, the scratch behind the cache, each at most 63 bytes further than it need be.\<close>

lemma plan_bounds:
  assumes o: "opened P st max_seq kv8 M M' m st' sq" and st: "store_shows img lmt st" "2048 \<le> lmt"
  defines "kv \<equiv> if kv8 then TQ_KV_Q8 else TQ_KV_F32" and "weights \<equiv> if st_base st' \<noteq> None then mc_bytes M else 0"
  assumes n: "weights + kv_need m sq kv + 8 * nat (m_vocab_size m) + 126 < 2 ^ 32" and mb: "unat (pi_mbytes (mc_info M)) < 4096"
  shows "weights \<le> unat (mc_kv_off M') \<and> unat (mc_kv_off M') mod 64 = 0
    \<and> unat (mc_kv_off M') + kv_need m sq kv \<le> unat (mc_scratch_off M')
    \<and> unat (mc_scratch_off M') + 8 * nat (m_vocab_size m) \<le> weights + kv_need m sq kv + 8 * nat (m_vocab_size m) + 126
    \<and> weights + kv_need m sq kv + 8 * nat (m_vocab_size m) \<le> unat (pi_mbytes (mc_info M)) * 2 ^ 20"
proof -
  let ?cursor = "if st_base st' \<noteq> None then of_nat (mc_bytes M) else 0 :: u32"
  define K where "K = (tq_kv_bytes m sq kv :: u32)"
  define S where "S = (word_of_int (m_vocab_size m) * 8 :: u32)"
  note d = o [unfolded opened_def Let_def, folded kv_def, folded K_def S_def]
  have op: "tq_model_open st (pl_model_arena P) 4096 = (TQ_OK, m, st')" using d by blast
  have dims: "dims_ok m" using open_facts [OF op st] by (simp add: model_from_def)
  have rs: "runtime_start (pl_mem P) m st' sq kv (pl_fast_arena P) FAST_ARENA_BYTES (PSRAM_BASE + mc_kv_off M') K = Inr (mc_rt M')" using d by blast
  then have sq: "0 < sq" "kv = TQ_KV_F32 \<or> kv = TQ_KV_Q8"
    by (auto simp: runtime_start_def tq_runtime_init_def kv_def split: sum.splits if_splits)
  have k: "unat K = kv_need m sq kv" unfolding K_def by (rule kv_bytes_value(1) [OF dims sq]) (use n in simp)
  have v: "0 < m_vocab_size m" using dims by (simp add: dims_ok_def)
  have s: "unat S = 8 * nat (m_vocab_size m)"
  proof -
    have "(word_of_int (m_vocab_size m) :: u32) = of_nat (nat (m_vocab_size m))"
      using v by (metis of_int_of_nat_eq nat_0_le less_imp_le)
    then have "unat (word_of_int (m_vocab_size m) :: u32) = nat (m_vocab_size m)"
      using n word_of_small [of "nat (m_vocab_size m)"] by simp
    then show ?thesis unfolding S_def using n by (subst unat_mult_small) simp_all
  qed
  have c: "unat ?cursor = weights"
  proof (cases "st_base st' = None")
    case False
    then have "weights = mc_bytes M" by (simp add: weights_def)
    then show ?thesis using False n word_of_small [of "mc_bytes M"] by simp
  qed (simp add: weights_def)
  obtain ko c1 where 1: "psram_alloc ?cursor K = (ko, c1)" by fastforce
  note a = psram_alloc_value [OF 1, unfolded c k]
  have a1: "weights + kv_need m sq kv + 63 < 2 ^ 32" using n by linarith
  obtain so c2 where 2: "psram_alloc c1 S = (so, c2)" by fastforce
  have "unat c1 + unat S + 63 < 2 ^ 32" using a [OF a1] s n by linarith
  note b = psram_alloc_value [OF 2 this]
  have off: "mc_kv_off M' = ko" "mc_scratch_off M' = so" using d 1 2 by simp_all
  have sum: "unat (?cursor + K + S) = weights + kv_need m sq kv + 8 * nat (m_vocab_size m)"
  proof -
    have "unat (?cursor + K) = weights + kv_need m sq kv" using c k n by (subst unat_add_small) simp_all
    then show ?thesis using s n by (subst unat_add_small) simp_all
  qed
  have "\<not> (ucast (?cursor + K + S) :: u64) > push_bit 20 (ucast (pi_mbytes (mc_info M)))" using d by blast
  then have "unat (ucast (?cursor + K + S) :: u64) \<le> unat (push_bit 20 (ucast (pi_mbytes (mc_info M))) :: u64)"
    by (simp add: word_le_nat_alt not_less)
  then have fit: "unat (?cursor + K + S) \<le> unat (pi_mbytes (mc_info M)) * 2 ^ 20"
    using mb unat32_less [of "?cursor + K + S"] by (simp add: unat_ucast_mod unat_push_mod)
  show ?thesis using a [OF a1] b s k fit unfolding sum off by (intro conjI; linarith)
qed

section \<open>A loaded model is ready\<close>

text \<open>
  What is asked of a model file: its tensors are as long as their shapes say, and rows of the
  dimensions in its header fit the streaming tile.
\<close>

definition good_model :: "u8 list \<Rightarrow> bool" where
  "good_model img \<longleftrightarrow> honest_file img \<and> tile_takes 32768 (open_dims (header_at img) (zero_model\<lparr>m_hdr := header_at img\<rparr>))"

definition machine_runs :: "fw_env \<Rightarrow> ('f, 'h) machine \<Rightarrow> bool" where
  "machine_runs E M \<longleftrightarrow> env_ok E \<and> rt_ready E [] (mc_rt M) \<and> 0 < en_seq E"

lemma opened_runs:
  assumes o: "opened P st max_seq kv8 M M' m st' sq" and st: "store_shows img 32768 st" and g: "good_model img"
  shows "machine_runs (session_env img 32768 m sq (if kv8 then TQ_KV_Q8 else TQ_KV_F32)) M'"
proof -
  let ?kv = "if kv8 then TQ_KV_Q8 else TQ_KV_F32"
  have op: "tq_model_open st (pl_model_arena P) 4096 = (TQ_OK, m, st')"
    and rs: "runtime_start (pl_mem P) m st' sq ?kv (pl_fast_arena P) FAST_ARENA_BYTES (PSRAM_BASE + mc_kv_off M') (tq_kv_bytes m sq ?kv) = Inr (mc_rt M')"
    using o unfolding opened_def Let_def by blast+
  have l: "2048 \<le> (32768 :: nat)" by simp
  have sk: "skeleton m = skeleton (open_dims (header_at img) (zero_model\<lparr>m_hdr := header_at img\<rparr>))" using open_facts [OF op st l] by blast
  have t: "tile_takes 32768 m" using g skeleton_fields [OF sk] by (simp add: good_model_def tile_takes_def)
  have h: "honest_file img" using g by (simp add: good_model_def)
  note r = session_ready [OF op st l h t rs]
  then show ?thesis by (simp add: machine_runs_def)
qed

text \<open>What the commands that use the model leave.\<close>

lemma settle_runs: "machine_runs E M \<Longrightarrow> rt_ready E h rt \<Longrightarrow> machine_runs E (settle M rt)"
  using ready_nil by (auto simp: machine_runs_def settle_def)

lemma settle_fields [simp]:
  "mc_loaded (settle M rt) = mc_loaded M" "mc_hw (settle M rt) = mc_hw M" "mc_info (settle M rt) = mc_info M"
  "mc_rt (settle M rt) = rt" "mc_tok (settle M rt) = mc_tok M" "mc_have_tok (settle M rt) = mc_have_tok M" "mc_pm (settle M rt) = mc_pm M"
  by (simp_all add: settle_def)

lemma runs_pm [simp]: "machine_runs E (M\<lparr>mc_pm := pm\<rparr>) = machine_runs E M"
  by (simp add: machine_runs_def)

lemma gen_next_keeps:
  assumes "gen_ok E hist s" and "gen_next toks pos s = Some (t, s')"
  shows "gen_ok E hist s'"
proof (cases "pos + 1 < int (length toks)")
  case True
  then show ?thesis using assms by (auto simp: gen_next_def)
next
  case False
  then have "gen_next [] 0 s = Some (t, s')" using assms(2) by (auto simp: gen_next_def)
  from gen_next_ok [OF assms(1) this] show ?thesis by simp
qed

lemma gen_loop_keeps:
  assumes "gen_ok E hist s" and "gen_loop quiet tok toks k token (int (length hist)) s = Some (r, s')"
  shows "\<exists>h. gen_ok E h s'"
  using assms
proof (induction k arbitrary: hist s token r s')
  case (Suc k)
  obtain rc rt where f: "tq_forward (gn_rt s) token (int (length hist)) = Some (rc, rt)"
    using Suc.prems(2) by (auto split: option.splits)
  have e: "env_ok E" "rt_ready E hist (gn_rt s)" using Suc.prems(1) by (simp_all add: gen_ok_def)
  show ?case
    using forward_keeps [OF e f]
  proof (elim disjE conjE exE)
    assume "rc = TQ_ERR_RANGE" "rt = gn_rt s"
    then have "s' = s" using Suc.prems(2) f by (auto simp: Let_def)
    then show ?thesis using Suc.prems(1) by blast
  next
    fix new
    assume rc: "rc = TQ_OK" and n: "rt_ready E (hist @ [new]) rt"
    have g: "gen_ok E (hist @ [new]) (s\<lparr>gn_rt := rt\<rparr>)" using Suc.prems(1) n by (simp add: gen_ok_def)
    obtain t s1 where t: "gen_next toks (int (length hist)) (s\<lparr>gn_rt := rt\<rparr>) = Some (t, s1)"
      using Suc.prems(2) f rc by (auto simp: Let_def split: option.splits)
    note g1 = gen_next_keeps [OF g t]
    show ?thesis
    proof (cases "t = sint (h_eos_token (m_hdr (rt_m (gn_rt s1))))")
      case True
      then have "s' = s1" using Suc.prems(2) f rc t by (auto simp: Let_def)
      then show ?thesis using g1 by blast
    next
      case False
      obtain piece buf where p: "(if quiet then Some ([], gn_buf s1) else print_piece tok (gn_buf s1) token t) = Some (piece, buf)"
        using Suc.prems(2) f rc t False
        by (cases "if quiet then Some ([], gn_buf s1) else print_piece tok (gn_buf s1) token t") (auto simp: Let_def)
      obtain r1 where l: "gen_loop quiet tok toks k t (int (length hist) + 1) (s1\<lparr>gn_buf := buf\<rparr>) = Some (r1, s')"
        using Suc.prems(2) f rc t False p by (auto simp: Let_def)
      have "gen_ok E (hist @ [new]) (s1\<lparr>gn_buf := buf\<rparr>)" using g1 by (simp add: gen_ok_def)
      moreover have "int (length (hist @ [new])) = int (length hist) + 1" by simp
      ultimately show ?thesis using Suc.IH l by metis
    qed
  qed
qed auto

lemma generate_keeps:
  assumes "env_ok E" and "rt_ready E [] rt" and "en_vocab E \<le> length sprob" "length sidx = length sprob"
    and "generate quiet tok prompt steps temp topp seed sidx sprob buf rt = Some (Inr (r, s))"
  shows "\<exists>h. rt_ready E h (gn_rt s)"
proof -
  have m: "rt_m rt = en_m E" using ready_fixed [OF assms(2)] by simp
  have v: "0 < en_vocab E" using assms(1) by (simp add: env_ok_def dims_ok_def)
  let ?s = "\<lparr>gn_rt = rt, gn_sm = tq_sampler_init (en_vocab E) temp topp seed (Some sidx) (Some sprob), gn_buf = buf\<rparr>"
  obtain toks k token where g: "gen_loop quiet tok toks k token 0 ?s = Some (r, s)"
    using assms(5) unfolding generate_def m by (auto simp: Let_def split: option.splits sum.splits fault.splits)
  have "gen_ok E [] ?s"
    using assms(1-4) v by (simp add: gen_ok_def sampler_ok_def tq_sampler_init_def)
  from gen_loop_keeps [OF this] g show ?thesis by (auto simp: gen_ok_def)
qed

lemma hash_steps_keep:
  assumes "env_ok E" and "rt_ready E hist rt" and "hash_steps [length hist..<length hist + k] h rt = Some (r, rt')"
  shows "\<exists>h. rt_ready E h rt'"
  using assms(2,3)
proof (induction k arbitrary: hist h rt)
  case (Suc k)
  have u: "[length hist..<length hist + Suc k] = length hist # [Suc (length hist)..<Suc (length hist) + k]" by (simp add: upt_rec)
  let ?t = "(int (length hist) * 4099 + 17) mod m_vocab_size (rt_m rt)"
  obtain rc rt1 where f: "tq_forward rt ?t (int (length hist)) = Some (rc, rt1)"
    using Suc.prems(2) unfolding u by (auto split: option.splits)
  show ?case
    using forward_keeps [OF assms(1) Suc.prems(1) f]
  proof (elim disjE conjE exE)
    assume "rc = TQ_ERR_RANGE" "rt1 = rt"
    then show ?thesis using Suc.prems f unfolding u by auto
  next
    fix new
    assume "rc = TQ_OK" and n: "rt_ready E (hist @ [new]) rt1"
    then obtain h' where "hash_steps [length (hist @ [new])..<length (hist @ [new]) + k] h' rt1 = Some (r, rt')"
      using Suc.prems(2) f unfolding u by auto
    from Suc.IH [OF n this] show ?thesis .
  qed
qed auto

lemma board_step_keeps:
  assumes "env_ok E" and "rt_ready E hist (be_rt s)" and "pm_ok (en_vocab E) (be_pm s)"
    and "board_encode_step toks (length hist) s = Some (rc, s')"
  shows "pm_ok (en_vocab E) (be_pm s') \<and> (\<exists>h. rt_ready E h (be_rt s')) \<and> (rc = TQ_OK \<longrightarrow> (\<exists>new. rt_ready E (hist @ [new]) (be_rt s')))"
proof -
  obtain rc1 rt where f: "tq_forward (be_rt s) (toks ! length hist) (int (length hist)) = Some (rc1, rt)"
    using assms(4) by (auto simp: board_encode_step_def split: option.splits)
  show ?thesis
    using forward_keeps [OF assms(1,2) f]
  proof (elim disjE conjE exE)
    fix new
    assume "rc1 = TQ_OK" "rt_ready E (hist @ [new]) rt"
    then show ?thesis
      using assms(4) f enc_token_keeps [OF assms(3)] by (auto simp: board_encode_step_def Let_def)
  next
    assume "rc1 = TQ_ERR_RANGE" "rt = be_rt s"
    then show ?thesis using assms(2-4) f by (auto simp: board_encode_step_def Let_def)
  qed
qed

lemma board_steps_keep:
  assumes "env_ok E" and "rt_ready E hist (be_rt s)" and "pm_ok (en_vocab E) (be_pm s)"
    and "run_ok (map (board_encode_step toks) [length hist..<length hist + k]) s = Some (rc, s')"
  shows "\<exists>h. rt_ready E h (be_rt s')"
  using assms(2-4)
proof (induction k arbitrary: hist s)
  case (Suc k)
  have u: "[length hist..<length hist + Suc k] = length hist # [Suc (length hist)..<Suc (length hist) + k]" by (simp add: upt_rec)
  obtain rc1 s1 where s1: "board_encode_step toks (length hist) s = Some (rc1, s1)"
    using Suc.prems(3) unfolding u by (auto split: option.splits)
  note keep = board_step_keeps [OF assms(1) Suc.prems(1,2) s1]
  show ?case
  proof (cases "rc1 = TQ_OK")
    case True
    then obtain new where n: "rt_ready E (hist @ [new]) (be_rt s1)" using keep by blast
    have "run_ok (map (board_encode_step toks) [length (hist @ [new])..<length (hist @ [new]) + k]) s1 = Some (rc, s')"
      using Suc.prems(3) s1 True unfolding u by simp
    from Suc.IH [OF n _ this] keep show ?thesis by blast
  next
    case False
    then have "s' = s1" using Suc.prems(3) s1 unfolding u by simp
    then show ?thesis using keep by blast
  qed
qed auto

lemma sem_ready_outcome:
  assumes "sem_ready M = (rc, M')"
  shows "rc \<noteq> 0 \<and> M' = M \<or> rc = 0 \<and> mc_loaded M \<and> mc_have_tok M
    \<and> (\<exists>pm. M' = M\<lparr>mc_pm := pm\<rparr> \<and> tq_ac_model_init (m_vocab_size (rt_m (mc_rt M))) = Inr pm)"
  using assms by (auto simp: sem_ready_def ENODEV_def ENOTSUP_def EINVAL_def split: if_splits sum.splits)

text \<open>
  The files of the card: a path either cannot be found, or holds a good model, which is served
  whatever happened before.
\<close>

definition good_card :: "('f, 'h) platform \<Rightarrow> (u8 list \<Rightarrow> nat \<Rightarrow> 'f \<Rightarrow> bool) \<Rightarrow> u8 list set \<Rightarrow> bool" where
  "good_card P stands files \<longleftrightarrow>
     length (pl_tile P) = unat STREAM_TILE_BYTES \<and>
     (\<forall>path. (\<forall>s. \<exists>rc s'. fs_stat (pl_fs P) path s = (Inl rc, s')) \<or>
             (\<exists>img \<in> files. good_model img \<and> card_holds (pl_fs P) (stands path) path img))"

text \<open>
  The chips have the size that a bring-up reports (it returns a negative number only for an index
  outside the table): what is written inside it is read back.
\<close>

definition chips_honest :: "('f, 'h) platform \<Rightarrow> bool" where
  "chips_honest P \<longleftrightarrow>
     (\<forall>idx s rc info h. psram_init (pl_board P) idx s = Some (rc, info, h) \<and> 0 \<le> rc
        \<longrightarrow> bus_keeps (pl_bus P) (unat (pi_mbytes info) * 2 ^ 20))"

lemma init_refuses:
  assumes "psram_init b idx (info, h) = Some (rc, info', h')"
  shows "0 \<le> rc \<or> \<not> (0 \<le> idx \<and> idx < int PSRAM_CLK_COUNT) \<and> info' = info"
  using assms by (auto simp: psram_init_def Let_def split: prod.splits option.splits if_splits)

lemma init_honest:
  assumes "chips_honest P" and "psram_init (pl_board P) idx (info, h) = Some (rc, info', h')"
    and "0 \<le> idx \<and> idx < int PSRAM_CLK_COUNT \<or> bus_keeps (pl_bus P) (unat (pi_mbytes info) * 2 ^ 20)"
  shows "bus_keeps (pl_bus P) (unat (pi_mbytes info') * 2 ^ 20)"
  using init_refuses [OF assms(2)] assms unfolding chips_honest_def by blast

lemma sweep_from_honest:
  assumes p: "chips_honest P" and i: "bus_keeps (pl_bus P) (unat (pi_mbytes (fst s)) * 2 ^ 20)"
    and r: "sweep_from (pl_board P) order best mb s = Some (best', info', h')"
  shows "bus_keeps (pl_bus P) (unat (pi_mbytes info') * 2 ^ 20)"
  using i r
proof (induction order arbitrary: best mb s)
  case (Cons idx rest)
  obtain info h where s: "s = (info, h)" by (cases s)
  obtain hz h1 where hz: "psram_clock_hz (pl_board P) idx h = (hz, h1)" by fastforce
  obtain rc info2 h2 where 2: "psram_init (pl_board P) idx (info, h1) = Some (rc, info2, h2)"
    using Cons.prems(2) by (cases "psram_init (pl_board P) idx (info, h1)") (auto simp: s hz)
  obtain bad h3 where 3: "psram_memtest (pl_board P) (push_bit 20 (word_of_int rc) - of_nat SWEEP_BYTES) SWEEP_BYTES False h2 = (bad, h3)" by fastforce
  obtain kb h4 where 4: "psram_bench_read (pl_board P) 0 (512 * 1024) h3 = (kb, h4)" by fastforce
  have k: "bus_keeps (pl_bus P) (unat (pi_mbytes info2) * 2 ^ 20)" by (rule init_honest [OF p 2]) (use Cons.prems(1) in \<open>simp add: s\<close>)
  have "(\<exists>b m h. sweep_from (pl_board P) rest b m (info2, h) = Some (best', info', h')) \<or> info' = info2"
    using Cons.prems(2) unfolding s sweep_from.simps(2) hz prod.case 2 option.case Let_def 3 4
    by (auto split: if_splits)
  then show ?case using Cons.IH k by fastforce
qed simp

lemma sweep_honest:
  assumes p: "chips_honest P" and i: "bus_keeps (pl_bus P) (unat (pi_mbytes info) * 2 ^ 20)"
    and r: "psram_clock_sweep (pl_board P) top_index (info, h) = Some (best, info', h')"
  shows "bus_keeps (pl_bus P) (unat (pi_mbytes info') * 2 ^ 20)"
proof -
  obtain order h1 b info1 h2 where f: "sweep_from (pl_board P) order (-1) 0 (info, h1) = Some (b, info1, h2)"
    and w: "info' = info1 \<or> (\<exists>rc h. psram_init (pl_board P) b (info1, h2) = Some (rc, info', h))"
    using r by (auto simp: psram_clock_sweep_def Let_def split: prod.splits option.splits if_splits)
  from sweep_from_honest [OF p _ f] i have "bus_keeps (pl_bus P) (unat (pi_mbytes info1) * 2 ^ 20)" by simp
  with w init_honest [OF p] show ?thesis by blast
qed

text \<open>The invariant of the shell: when a model is loaded, its runtime is ready and shows one of the files.\<close>

definition shell_ok :: "('f, 'h) platform \<Rightarrow> u8 list set \<Rightarrow> ('f, 'h) machine \<Rightarrow> bool" where
  "shell_ok P files M \<longleftrightarrow> bus_keeps (pl_bus P) (unat (pi_mbytes (mc_info M)) * 2 ^ 20) \<and> (mc_loaded M \<longrightarrow> (\<exists>E. en_img E \<in> files \<and> machine_runs E M))"

lemma not_found:
  assumes "\<forall>s. \<exists>rc s'. fs_stat fs path s = (Inl rc, s')"
  shows "\<exists>rc s'. open_sized fs f path s = (Inl rc, s')"
proof -
  obtain rc s' where "fs_stat fs path s = (Inl rc, s')" using assms by blast
  then show ?thesis by (simp add: open_sized_def)
qed

lemma load_found:
  assumes g: "good_card P stands files" and k: "bus_keeps (pl_bus P) (unat mbytes * 2 ^ 20)"
    and l: "model_load_to_psram (pl_fs P) (pl_bus P) mbytes path 0 (cd, h) = (Inr (st :: 'c tq_store, bytes), ds, cd', h')"
  shows "\<exists>img \<in> files. good_model img \<and> bytes = length img \<and> store_mapped img st"
proof -
  have "\<not> (\<forall>s. \<exists>rc s'. fs_stat (pl_fs P) path s = (Inl rc, s'))"
  proof
    assume "\<forall>s. \<exists>rc s'. fs_stat (pl_fs P) path s = (Inl rc, s')"
    from not_found [OF this] show False using l
      by (auto simp: model_load_to_psram_def split: prod.splits if_splits sum.splits) (metis prod.inject sum.distinct(1))+
  qed
  then obtain img where img: "img \<in> files" "good_model img" "card_holds (pl_fs P) (stands path) path img"
    using g unfolding good_card_def by blast
  obtain cd1 where m: "model_sd_mount (pl_fs P) cd = (0, cd1)" using mount_holds [OF img(3)] by blast
  obtain s' where o: "open_sized (pl_fs P) Load_file path (cd_fs cd1) = (Inr (length img), s')" using open_holds [OF img(3)] by blast
  have f: "mbytes \<noteq> 0" "unat (0 :: u32) + length img \<le> unat mbytes * 2 ^ 20"
    using l by (auto simp: model_load_to_psram_def m o Let_def split: if_splits)
  obtain st0 :: "'c tq_store" and ds0 cd0 h0 where "model_load_to_psram (pl_fs P) (pl_bus P) mbytes path 0 (cd, h) = (Inr (st0, length img), ds0, cd0, h0)"
    "store_mapped img st0" using load_shows [OF img(3) k f(2,1), of cd h] by blast
  then show ?thesis using l img by auto
qed

lemma stream_found:
  assumes g: "good_card P stands files"
    and l: "model_open_streaming (pl_fs P) path (pl_tile P) STREAM_TILE_BYTES cd = (Inr (st, bytes), cd')"
  shows "\<exists>img \<in> files. good_model img \<and> bytes = length img \<and> store_streams img 32768 st"
proof -
  have "\<not> (\<forall>s. \<exists>rc s'. fs_stat (pl_fs P) path s = (Inl rc, s'))"
  proof
    assume "\<forall>s. \<exists>rc s'. fs_stat (pl_fs P) path s = (Inl rc, s')"
    from not_found [OF this] show False using l
      by (auto simp: model_open_streaming_def Let_def split: prod.splits if_splits sum.splits) (metis prod.inject sum.distinct(1))+
  qed
  then obtain img where img: "img \<in> files" "good_model img" "card_holds (pl_fs P) (stands path) path img"
    using g unfolding good_card_def by blast
  have t: "length (pl_tile P) = unat STREAM_TILE_BYTES" using g by (simp add: good_card_def)
  have "unat STREAM_TILE_BYTES = 32768" by (simp add: STREAM_TILE_BYTES_def)
  moreover obtain st0 cd0 where "model_open_streaming (pl_fs P) path (pl_tile P) STREAM_TILE_BYTES cd = (Inr (st0, length img), cd0)"
    "store_streams img (unat STREAM_TILE_BYTES) st0" using stream_shows [OF img(3) t, of cd] by blast
  ultimately show ?thesis using l img by auto
qed

lemma finish_open_ok:
  assumes "finish_open P st max_seq kv8 M = (rc, M')" and "store_shows img 32768 st" and "good_model img" and "img \<in> files"
    and "\<not> mc_loaded M" and "bus_keeps (pl_bus P) (unat (pi_mbytes (mc_info M)) * 2 ^ 20)"
  shows "shell_ok P files M'"
proof -
  have k: "bus_keeps (pl_bus P) (unat (pi_mbytes (mc_info M')) * 2 ^ 20)" using finish_open_outcome [OF assms(1)] assms(6) by simp
  from finish_open_outcome [OF assms(1)]
  consider "mc_loaded M' = mc_loaded M" | m st' sq where "opened P st max_seq kv8 M M' m st' sq" by blast
  then show ?thesis
  proof cases
    case 1
    then show ?thesis using assms(5) k by (simp add: shell_ok_def)
  next
    case 2
    from opened_runs [OF 2 assms(2,3)] assms(4) k show ?thesis
      by (auto simp: shell_ok_def intro!: exI [of _ "session_env img 32768 m sq (if kv8 then TQ_KV_Q8 else TQ_KV_F32)"])
  qed
qed

lemma cmd_load_ok:
  assumes g: "good_card (P :: ('f, 'h) platform) stands files" and s: "shell_ok P files M" and l: "cmd_load P argv M = (rc, M')"
  shows "shell_ok P files M'"
proof (cases "length argv < 2 \<or> pi_mbytes (mc_info M) = 0")
  case True
  then show ?thesis using s l by (auto simp: cmd_load_def split: if_splits)
next
  case False
  then have b: "\<not> length argv < 2" "pi_mbytes (mc_info M) \<noteq> 0" by simp_all
  obtain max_seq kv8 where p: "parse_common (drop 2 argv) (0, False) = (max_seq, kv8)" by fastforce
  let ?M = "M\<lparr>mc_loaded := False, mc_card := model_close_streaming (pl_fs P) (mc_card M)\<rparr>"
  obtain r :: "int + 'f card tq_store \<times> nat" and ds cd h where r: "model_load_to_psram (pl_fs P) (pl_bus P) (pi_mbytes (mc_info ?M)) (card_path (argv ! 1)) 0 (mc_card ?M, mc_hw ?M) = (r, ds, cd, h)"
    by (metis prod_cases4)
  show ?thesis
  proof (cases r)
    case (Inl e)
    have "M' = ?M\<lparr>mc_card := cd, mc_hw := h\<rparr>" using l r b unfolding cmd_load_def p prod.case Let_def Inl by simp
    then show ?thesis using s by (simp add: shell_ok_def)
  next
    case (Inr sb)
    obtain st bytes where sb: "sb = (st, bytes)" by (cases sb)
    obtain img where img: "img \<in> files" "good_model img" "store_mapped img st" using load_found [OF g _ r [unfolded Inr sb]] s by (auto simp: shell_ok_def)
    obtain pct out where f: "foldl (load_progress bytes) (mc_last_pct M, []) ds = (pct, out)" by fastforce
    have "finish_open P st max_seq kv8 (?M\<lparr>mc_card := cd, mc_hw := h, mc_bytes := bytes, mc_last_pct := pct\<rparr>) = (rc, M')"
      using l r f b unfolding cmd_load_def p prod.case Let_def Inr sb by simp
    from finish_open_ok [OF this _ img(2,1)] img(3) s show ?thesis by (simp add: store_shows_def shell_ok_def)
  qed
qed

lemma cmd_stream_ok:
  assumes g: "good_card P stands files" and s: "shell_ok P files M" and l: "cmd_stream P argv M = (rc, M')"
  shows "shell_ok P files M'"
proof (cases "length argv < 2")
  case True
  then show ?thesis using s l by (simp add: cmd_stream_def)
next
  case False
  obtain max_seq kv8 where p: "parse_common (drop 2 argv) (0, True) = (max_seq, kv8)" by fastforce
  let ?M = "M\<lparr>mc_loaded := False\<rparr>"
  obtain r cd where r: "model_open_streaming (pl_fs P) (card_path (argv ! 1)) (pl_tile P) STREAM_TILE_BYTES (mc_card ?M) = (r, cd)"
    by fastforce
  show ?thesis
  proof (cases r)
    case (Inl e)
    have "M' = ?M\<lparr>mc_card := cd\<rparr>" using l r False unfolding cmd_stream_def p prod.case Let_def Inl by simp
    then show ?thesis using s by (simp add: shell_ok_def)
  next
    case (Inr sb)
    obtain st bytes where sb: "sb = (st, bytes)" by (cases sb)
    obtain img where img: "img \<in> files" "good_model img" "store_streams img 32768 st" using stream_found [OF g r [unfolded Inr sb]] by blast
    have "finish_open P st max_seq kv8 (?M\<lparr>mc_card := cd, mc_bytes := bytes\<rparr>) = (rc, M')"
      using l r False unfolding cmd_stream_def p prod.case Let_def Inr sb by simp
    from finish_open_ok [OF this _ img(2,1)] img(3) s show ?thesis by (simp add: store_shows_def shell_ok_def)
  qed
qed

text \<open>A sweep that finds no clock: the one command after which a resident model is not to be trusted.\<close>

definition failed_sweep :: "command \<Rightarrow> int \<Rightarrow> bool" where
  "failed_sweep c rc \<longleftrightarrow> (\<exists>argv. c = Psram argv \<and> length argv > 1 \<and> argv ! 1 = cstr ''sweep'') \<and> rc \<noteq> 0"

lemma scribbled_fields [simp]: "mc_loaded (scribbled P h M) = mc_loaded M" "mc_info (scribbled P h M) = mc_info M"
  by (simp_all add: scribbled_def Let_def)

lemma psram_ok:
  assumes c: "chips_honest P" and s: "shell_ok P files M" and r: "cmd_psram P argv M = Some (rc, out, M')" and f: "\<not> failed_sweep (Psram argv) rc"
  shows "shell_ok P files M'"
proof -
  have k: "bus_keeps (pl_bus P) (unat (pi_mbytes (mc_info M)) * 2 ^ 20)" using s by (simp add: shell_ok_def)
  have "mc_info M' = mc_info M \<or> (\<exists>best h. psram_clock_sweep (pl_board P) PSRAM_MAX_CLOCK_INDEX (mc_info M, mc_hw M) = Some (best, mc_info M', h))"
    using r by (auto simp: cmd_psram_def Let_def split: if_splits option.splits prod.splits)
  with k sweep_honest [OF c k] have "bus_keeps (pl_bus P) (unat (pi_mbytes (mc_info M')) * 2 ^ 20)" by metis
  moreover have "\<not> mc_loaded M' \<or> M' = M \<or> failed_sweep (Psram argv) rc"
    using r by (auto simp: cmd_psram_def Let_def failed_sweep_def EIO_def cstr_def split: if_splits option.splits prod.splits)
  ultimately show ?thesis using s f by (auto simp: shell_ok_def)
qed

lemma runs_settled:
  assumes "shell_ok P files M" and "\<And>E. en_img E \<in> files \<Longrightarrow> machine_runs E M \<Longrightarrow> mc_loaded M \<Longrightarrow> \<exists>h. rt_ready E h rt"
  shows "shell_ok P files (settle M rt)"
  unfolding shell_ok_def
proof (intro conjI impI)
  show "bus_keeps (pl_bus P) (unat (pi_mbytes (mc_info (settle M rt))) * 2 ^ 20)" using assms(1) by (simp add: shell_ok_def)
  assume "mc_loaded (settle M rt)"
  then obtain E where E: "en_img E \<in> files" "machine_runs E M" using assms(1) by (auto simp: shell_ok_def)
  then obtain h where "rt_ready E h rt" using assms(2) \<open>mc_loaded (settle M rt)\<close> by auto
  from settle_runs [OF E(2) this] E(1) show "\<exists>E. en_img E \<in> files \<and> machine_runs E (settle M rt)" by blast
qed

lemma shell_ok_pm [simp]: "shell_ok P files (M\<lparr>mc_pm := pm\<rparr>) = shell_ok P files M"
  by (simp add: shell_ok_def)

lemma gen_cmd_ok:
  assumes s: "shell_ok P files M" and r: "cmd_gen P argv M = Some (rc, out, M')"
  shows "shell_ok P files M'"
proof (cases "mc_loaded M")
  case False
  then show ?thesis using s r by (simp add: cmd_gen_def)
next
  case True
  define g where "g = parse_gen (pl_atof P) (drop 1 argv) gen_defaults"
  define V where "V = nat (m_vocab_size (rt_m (mc_rt M)))"
  let ?r = "generate False (if mc_have_tok M then Some (mc_tok M) else None) (ga_prompt g) (ga_steps g) (ga_temp g) (ga_topp g)
                  (ucast (ga_seed g)) (map (pl_ints P) [0..<V]) (map (am_float (pl_mem P) 20) [0..<V]) (map (pl_chars P) [0..<64]) (mc_rt M)"
  note b = r [unfolded cmd_gen_def Let_def, folded g_def V_def]
  show ?thesis
  proof (cases ?r)
    case None
    then show ?thesis using b True by simp
  next
    case (Some x)
    show ?thesis
    proof (cases x)
      case (Inl e)
      then show ?thesis using b True Some s by simp
    next
      case (Inr rs)
      obtain gr st where rs: "rs = (gr, st)" by (cases rs)
      have M': "M' = settle M (gn_rt st)" using b True Some Inr rs by simp
      show ?thesis
        unfolding M'
      proof (rule runs_settled [OF s])
        fix E assume E: "machine_runs E M"
        then have "V = en_vocab E" using ready_fixed [of E "[]" "mc_rt M"] by (simp add: machine_runs_def V_def)
        with generate_keeps [OF _ _ _ _ Some [unfolded Inr rs], of E] E show "\<exists>h. rt_ready E h (gn_rt st)"
          by (simp add: machine_runs_def)
      qed
    qed
  qed
qed

lemma ready_pm:
  assumes "machine_runs E M" and "tq_ac_model_init (m_vocab_size (rt_m (mc_rt M))) = Inr pm"
  shows "pm_ok (en_vocab E) pm"
proof -
  have "rt_m (mc_rt M) = en_m E" using assms(1) ready_fixed [of E "[]" "mc_rt M"] by (simp add: machine_runs_def)
  then show ?thesis using model_init_ok' [OF assms(2)] by simp
qed

lemma encode_cmd_ok:
  assumes s: "shell_ok P files M" and r: "cmd_sem_encode argv M = Some (rc, out, M')"
  shows "shell_ok P files M'"
proof -
  obtain rc0 M0 where sr: "sem_ready M = (rc0, M0)" by fastforce
  note b = r [unfolded cmd_sem_encode_def sr prod.case]
  from sem_ready_outcome [OF sr] show ?thesis
  proof (elim disjE conjE exE)
    assume "rc0 \<noteq> 0" "M0 = M"
    then show ?thesis using b s by simp
  next
    fix pm
    assume z: "rc0 = 0" and M0: "M0 = M\<lparr>mc_pm := pm\<rparr>" and pm: "tq_ac_model_init (m_vocab_size (rt_m (mc_rt M))) = Inr pm"
    have s0: "shell_ok P files M0" using s M0 by simp
    have nz: "\<not> rc0 \<noteq> 0" using z by simp
    show ?thesis
    proof (cases "M' = M0")
      case True
      with s0 show ?thesis by simp
    next
      case False
      then obtain toks e rc1 s1 where st: "run_ok (map (board_encode_step toks) [0..<length toks - 1])
          \<lparr>be_rt = mc_rt M0, be_pm = mc_pm M0, be_e = e\<rparr> = Some (rc1, s1)" "M' = (settle M0 (be_rt s1))\<lparr>mc_pm := be_pm s1\<rparr>"
        using b unfolding if_not_P [OF nz] by (auto simp: Let_def split: sum.splits fault.splits if_splits option.splits prod.splits)
      have "shell_ok P files (settle M0 (be_rt s1))"
      proof (rule runs_settled [OF s0])
        fix E assume E: "machine_runs E M0"
        have "pm_ok (en_vocab E) pm" by (rule ready_pm [OF _ pm]) (use E M0 in simp)
        with board_steps_keep [of E "[]" "\<lparr>be_rt = mc_rt M0, be_pm = mc_pm M0, be_e = e\<rparr>" toks "length toks - 1" rc1 s1] st(1) E M0
        show "\<exists>h. rt_ready E h (be_rt s1)" by (simp add: machine_runs_def)
      qed
      then show ?thesis by (simp add: st(2))
    qed
  qed
qed

lemma decode_cmd_ok:
  assumes s: "shell_ok P files M" and r: "cmd_sem_decode P hex M = Some (rc, out, M')"
  shows "shell_ok P files M'"
proof -
  obtain rc0 M0 where sr: "sem_ready M = (rc0, M0)" by fastforce
  note b = r [unfolded cmd_sem_decode_def sr prod.case]
  from sem_ready_outcome [OF sr] show ?thesis
  proof (elim disjE conjE exE)
    assume "rc0 \<noteq> 0" "M0 = M"
    then show ?thesis using b s by simp
  next
    fix pm
    assume z: "rc0 = 0" and M0: "M0 = M\<lparr>mc_pm := pm\<rparr>" and pm: "tq_ac_model_init (m_vocab_size (rt_m (mc_rt M))) = Inr pm"
    have s0: "shell_ok P files M0" using s M0 by simp
    have nz: "\<not> rc0 \<noteq> 0" using z by simp
    obtain d target where t: "tq_ac_dec_target (tq_ac_dec_init (pl_hex2bin P hex SEM_MAX_WIRE)) TQ_AC_TOT = (d, target)" by fastforce
    obtain d1 where d1: "tq_ac_dec_update d ((target div SEM_LEN_FREQ) * SEM_LEN_FREQ) SEM_LEN_FREQ = Some d1" "dec_live d1"
      using dec_target_live(2) [OF dec_init_live t, of SEM_LEN_FREQ] by (auto simp: sem_words(1))
    let ?bos = "sint (h_bos_token (m_hdr (rt_m (mc_rt M0))))"
    show ?thesis
    proof (cases "M' = M0")
      case True
      with s0 show ?thesis by simp
    next
      case False
      then obtain k rs s1 where st: "sem_decode_loop k [?bos] \<lparr>sd_rt = mc_rt M0, sd_pm = mc_pm M0, sd_d = d1\<rparr> = Some (rs, s1)"
        "M' = (settle M0 (sd_rt s1))\<lparr>mc_pm := sd_pm s1\<rparr>"
        using b unfolding if_not_P [OF nz] t prod.case Let_def d1(1) option.case
        by (auto split: sum.splits if_splits option.splits prod.splits)
      have "shell_ok P files (settle M0 (sd_rt s1))"
      proof (rule runs_settled [OF s0])
        fix E assume E: "machine_runs E M0"
        have "pm_ok (en_vocab E) pm" by (rule ready_pm [OF _ pm]) (use E M0 in simp)
        with decode_loop_safe [where hist = "[]", OF _ _ _ _ _ _ _ st(1)] d1(2) E M0
        show "\<exists>h. rt_ready E h (sd_rt s1)" by (simp add: machine_runs_def)
      qed
      then show ?thesis by (simp add: st(2))
    qed
  qed
qed

lemma hash_cmd_ok:
  assumes s: "shell_ok P files M" and r: "cmd_sem_hash M = Some (rc, out, M')"
  shows "shell_ok P files M'"
proof (cases "mc_loaded M")
  case False
  then show ?thesis using s r by (simp add: cmd_sem_hash_def)
next
  case True
  then obtain x rt where h: "do_hash (mc_rt M) = Some (x, rt)" "M' = settle M rt"
    using r by (auto simp: cmd_sem_hash_def split: option.splits sum.splits)
  show ?thesis
    unfolding h(2)
  proof (rule runs_settled [OF s])
    fix E assume "machine_runs E M"
    with hash_steps_keep [of E "[]" "mc_rt M" SEM_HASH_STEPS] h(1) show "\<exists>h. rt_ready E h rt"
      by (simp add: machine_runs_def do_hash_def)
  qed
qed

lemma run_command_ok:
  assumes "good_card P stands files" and "chips_honest P" and "shell_ok P files M"
    and "run_command P c M = Some (rc, out, M')" and "\<not> failed_sweep c rc"
  shows "shell_ok P files M'"
proof (cases c)
  case (Psram argv)
  then show ?thesis using psram_ok [OF assms(2,3)] assms(4,5) by simp
next
  case (Load argv)
  then show ?thesis using cmd_load_ok [OF assms(1,3), of argv] assms(4) by (auto split: prod.splits)
next
  case (Stream argv)
  then show ?thesis using cmd_stream_ok [OF assms(1,3), of argv] assms(4) by (auto split: prod.splits)
next
  case (Gen argv)
  then show ?thesis using gen_cmd_ok [OF assms(3)] assms(4) by simp
next
  case (Sem_encode argv)
  then show ?thesis using encode_cmd_ok [OF assms(3)] assms(4) by simp
next
  case (Sem_decode hex)
  then show ?thesis using decode_cmd_ok [OF assms(3)] assms(4) by simp
next
  case Sem_hash
  then show ?thesis using hash_cmd_ok [OF assms(3)] assms(4) by simp
qed

text \<open>What the shell reaches from its start: any commands in any order, none of them a sweep that found no clock.\<close>

inductive shell_reach :: "('f, 'h) platform \<Rightarrow> ('f, 'h) machine \<Rightarrow> ('f, 'h) machine \<Rightarrow> bool" for P M0 where
  started: "boot P M0 = Some M \<Longrightarrow> shell_reach P M0 M"
| ran: "shell_reach P M0 M \<Longrightarrow> run_command P c M = Some (rc, out, M') \<Longrightarrow> \<not> failed_sweep c rc \<Longrightarrow> shell_reach P M0 M'"

lemma shell_stays_ok:
  assumes "good_card P stands files" and "chips_honest P" and "\<not> mc_loaded M0" and "shell_reach P M0 M"
  shows "shell_ok P files M"
  using assms(4)
proof induction
  case (started M)
  then obtain rc info h where i: "psram_init (pl_board P) PSRAM_BOOT_CLOCK_INDEX (mc_info M0, mc_hw M0) = Some (rc, info, h)"
    "mc_info M = info" "mc_loaded M = mc_loaded M0"
    by (auto simp: boot_def)
  have "bus_keeps (pl_bus P) (unat (pi_mbytes info) * 2 ^ 20)"
    by (rule init_honest [OF assms(2) i(1)]) (simp add: PSRAM_BOOT_CLOCK_INDEX_def PSRAM_CLK_COUNT_def)
  then show ?case using i(2,3) assms(3) by (simp add: shell_ok_def)
next
  case (ran M c rc out M')
  from run_command_ok [OF assms(1,2) ran.IH ran.hyps(2,3)] show ?case .
qed

section \<open>Board and host\<close>

text \<open>The board's step is the host's without the figures: the same calls in the same order.\<close>

lemma board_step_sem:
  assumes e: "env_ok E" and rd: "rt_ready E hist (be_rt s)" and v: "valid_token (en_m E) (toks ! (length hist + 1))"
    and eq: "se_rt t = be_rt s" "se_pm t = be_pm s" "se_e t = be_e s"
    and r: "board_encode_step toks (length hist) s = Some (rc, s')"
  shows "\<exists>t'. sem_encode_step lm toks (length hist) t = Some (rc, t') \<and> se_rt t' = be_rt s' \<and> se_pm t' = be_pm s' \<and> se_e t' = be_e s'"
proof -
  obtain rc1 rt where f: "tq_forward (be_rt s) (toks ! length hist) (int (length hist)) = Some (rc1, rt)"
    using r by (auto simp: board_encode_step_def split: option.splits)
  from forward_keeps [OF e rd f] show ?thesis
  proof (elim disjE conjE exE)
    fix new
    assume ok: "rc1 = TQ_OK" and rn: "rt_ready E (hist @ [new]) rt"
    have lg: "length (rt_logits rt) = en_vocab E" "rt_m rt = en_m E"
      using rn ready_fixed [OF rn] by (simp_all add: rt_ready_def rt_fits_def)
    obtain bits where b: "sem_ideal lm (rt_logits rt) (m_vocab_size (en_m E)) (toks ! (length hist + 1)) = Some bits"
      using v lg(1) by (auto simp: sem_ideal_def Let_def valid_token_def)
    obtain e1 pm1 where c: "tq_ac_enc_token (be_e s) (be_pm s) (rt_logits rt) (toks ! (length hist + 1)) = Some (e1, pm1, rc)"
      "s' = s\<lparr>be_rt := rt, be_e := e1, be_pm := pm1\<rparr>"
      using r f ok by (auto simp: board_encode_step_def Let_def)
    show ?thesis using f ok b c by (simp add: sem_encode_step_def eq lg(2) Let_def)
  next
    assume "rc1 = TQ_ERR_RANGE" "rt = be_rt s"
    then show ?thesis using r f by (auto simp: board_encode_step_def sem_encode_step_def eq Let_def)
  qed
qed

lemma board_steps_sem:
  assumes e: "env_ok E" and "rt_ready E hist (be_rt s)" and "pm_ok (en_vocab E) (be_pm s)"
    and "\<forall>j. length hist < j \<and> j \<le> length hist + k \<longrightarrow> valid_token (en_m E) (toks ! j)"
    and "se_rt t = be_rt s" "se_pm t = be_pm s" "se_e t = be_e s"
    and "run_ok (map (board_encode_step toks) [length hist..<length hist + k]) s = Some (rc, s')"
  shows "\<exists>t'. run_ok (map (sem_encode_step lm toks) [length hist..<length hist + k]) t = Some (rc, t')
    \<and> se_rt t' = be_rt s' \<and> se_pm t' = be_pm s' \<and> se_e t' = be_e s'"
  using assms(2-8)
proof (induction k arbitrary: hist s t)
  case (Suc k)
  have u: "[length hist..<length hist + Suc k] = length hist # [Suc (length hist)..<Suc (length hist) + k]" by (simp add: upt_rec)
  obtain rc1 s1 where s1: "board_encode_step toks (length hist) s = Some (rc1, s1)"
    using Suc.prems(7) unfolding u by (auto split: option.splits)
  have v: "valid_token (en_m E) (toks ! (length hist + 1))" using Suc.prems(3) by simp
  obtain t1 where t1: "sem_encode_step lm toks (length hist) t = Some (rc1, t1)" "se_rt t1 = be_rt s1" "se_pm t1 = be_pm s1" "se_e t1 = be_e s1"
    using board_step_sem [OF e Suc.prems(1) v Suc.prems(4-6) s1] by blast
  note keep = board_step_keeps [OF e Suc.prems(1,2) s1]
  show ?case
  proof (cases "rc1 = TQ_OK")
    case True
    then obtain new where n: "rt_ready E (hist @ [new]) (be_rt s1)" using keep by blast
    have g: "run_ok (map (board_encode_step toks) [length (hist @ [new])..<length (hist @ [new]) + k]) s1 = Some (rc, s')"
      using Suc.prems(7) s1 True unfolding u by simp
    have w: "\<forall>j. length (hist @ [new]) < j \<and> j \<le> length (hist @ [new]) + k \<longrightarrow> valid_token (en_m E) (toks ! j)"
      using Suc.prems(3) by auto
    obtain t' where "run_ok (map (sem_encode_step lm toks) [length (hist @ [new])..<length (hist @ [new]) + k]) t1 = Some (rc, t')"
      "se_rt t' = be_rt s'" "se_pm t' = be_pm s'" "se_e t' = be_e s'"
      using Suc.IH [OF n _ w t1(2-4) g] keep by blast
    then show ?thesis using t1(1) True unfolding u by simp
  next
    case False
    then show ?thesis using Suc.prems(7) s1 t1 unfolding u by simp
  qed
qed auto

text \<open>What the board's encoder has sent is what the host's would have.\<close>

lemma board_wire:
  assumes run: "machine_runs E M" and tk: "tk_m (mc_tok M) = en_m E" "tk_vocab_size (mc_tok M) = m_vocab_size (en_m E)"
    and inp: "spells_text (mc_tok M) (foldl add_word [] (drop 1 argv))"
    and r: "cmd_sem_encode argv M = Some (0, Wire w, M')"
  shows "\<exists>toks s t' pm. tq_encode (mc_tok M) (foldl add_word [] (drop 1 argv)) True False SEM_MAX_TOKENS = Inr toks
    \<and> se_rt s = mc_rt M \<and> se_pm s = pm \<and> pm_ok (en_vocab E) pm \<and> int (length toks) \<le> en_seq E
    \<and> sem_encode lm toks (int (length toks)) SEM_MAX_WIRE s = Some (TQ_OK, t') \<and> w = take (se_len t') (e_buf (se_e t'))"
proof -
  let ?inp = "foldl add_word [] (drop 1 argv)"
  obtain rc0 M0 where sr: "sem_ready M = (rc0, M0)" by fastforce
  have z: "\<not> rc0 \<noteq> 0" using r by (auto simp: cmd_sem_encode_def sr split: if_splits)
  note b = r [unfolded cmd_sem_encode_def sr prod.case if_not_P [OF z]]
  obtain pm where M0: "M0 = M\<lparr>mc_pm := pm\<rparr>" and pm: "pm_ok (en_vocab E) pm"
    using sem_ready_outcome [OF sr] z ready_pm [OF run] by auto
  obtain toks where toks: "tq_encode (mc_tok M) ?inp True False SEM_MAX_TOKENS = Inr toks"
    using b M0 by (cases "tq_encode (mc_tok M) ?inp True False SEM_MAX_TOKENS") (auto split: fault.splits)
  let ?n = "int (length toks)"
  have e: "env_ok E" "rt_ready E [] (mc_rt M)" using run by (simp_all add: machine_runs_def)
  have sq: "rt_max_seq (mc_rt M) = en_seq E" using ready_fixed [OF e(2)] by simp
  have fit: "\<not> (?n - 1 > 255 \<or> ?n > en_seq E)" using b M0 toks sq by (auto simp: Let_def split: if_splits)
  have fit': "\<not> (?n - 1 > 255 \<or> ?n > rt_max_seq (mc_rt M0))" using fit M0 sq by simp
  have tok0: "mc_tok M0 = mc_tok M" "mc_rt M0 = mc_rt M" "mc_pm M0 = pm" using M0 by simp_all
  note b = b [unfolded tok0 toks sum.case Let_def, folded tok0, unfolded if_not_P [OF fit']]
  obtain e0 where e0: "tq_ac_enc_sym (tq_ac_enc_init SEM_MAX_WIRE) (word_of_int (?n - 1) * SEM_LEN_FREQ) SEM_LEN_FREQ TQ_AC_TOT = Some e0"
    using b by (cases "tq_ac_enc_sym (tq_ac_enc_init SEM_MAX_WIRE) (word_of_int (?n - 1) * SEM_LEN_FREQ) SEM_LEN_FREQ TQ_AC_TOT") simp_all
  let ?b = "\<lparr>be_rt = mc_rt M, be_pm = pm, be_e = e0\<rparr>"
  obtain s1 where s1: "run_ok (map (board_encode_step toks) [0..<length toks - 1]) ?b = Some (TQ_OK, s1)"
    using b unfolding e0 option.case tok0 by (auto split: option.splits prod.splits if_splits)
  obtain len e1 where f: "tq_ac_enc_finish (be_e s1) = (len, e1)" by fastforce
  have w: "\<not> e_overflow e1" "w = take len (e_buf e1)"
    using b unfolding e0 option.case tok0 s1 prod.case by (auto simp: f split: if_splits)
  have sp: "encoder_ok (mc_tok M)" "plain_vocab (mc_tok M) ?inp" "in_vocab (mc_tok M) (tk_bos (mc_tok M))"
    using inp by (simp_all add: spells_text_def)
  have ne: "0 < length toks" using text_survives [OF sp, of 64] toks inp by (force simp: spells_text_def)
  have vt: "\<forall>x \<in> set toks. valid_token (en_m E) x"
    using encode_outcome [OF sp(1), where add_bos = True and max_tokens = SEM_MAX_TOKENS and inp = ?inp and add_eos = False] sp(3) toks tk(2)
    by (simp add: SEM_MAX_TOKENS_def in_vocab_def valid_token_def)
  have v: "\<forall>j. length [] < j \<and> j \<le> length [] + (length toks - 1) \<longrightarrow> valid_token (en_m E) (toks ! j)"
    using vt ne by (auto intro!: bspec [OF vt] nth_mem)
  let ?s = "\<lparr>se_rt = mc_rt M, se_pm = pm, se_e = e0, se_len = 0, se_ideal = 0, se_charged = 0, se_term = f64_of_int 8\<rparr>"
  obtain t where t: "run_ok (map (sem_encode_step lm toks) [0..<length toks - 1]) ?s = Some (TQ_OK, t)" "se_e t = be_e s1"
    using board_steps_sem [of E "[]" ?b "length toks - 1" toks ?s TQ_OK s1 lm] e pm v s1 by auto
  have n: "\<not> (?n < 1 \<or> ?n - 1 \<ge> SEM_LEN_SYMBOLS)" using ne fit by (simp add: SEM_LEN_SYMBOLS_def)
  have "sem_encode lm toks ?n SEM_MAX_WIRE ?s = Some (TQ_OK, t\<lparr>se_e := e1, se_len := len\<rparr>)"
    unfolding sem_encode_def if_not_P [OF n] e0 option.case using t f w(1) by simp
  moreover have "?n \<le> en_seq E" using fit by simp
  ultimately show ?thesis using toks pm w(2)
    by (intro exI [of _ toks] exI [of _ ?s] exI [of _ "t\<lparr>se_e := e1, se_len := len\<rparr>"] exI [of _ pm]) simp
qed

text \<open>A wire that fits its buffer is short, whatever the size of the buffer.\<close>

lemma enc_run_short:
  assumes "enc_ready (length ss) e" "\<forall>s \<in> set ss. sym_ok s" "run_steps tq_enc_sym3 ss e = Some e'" "enc_clean e'"
  shows "enc_clean e \<and> enc_shifts e' \<le> enc_shifts e + 2 * length ss"
  using assms
proof (induction ss arbitrary: e)
  case (Cons s ss)
  obtain cum freq tot where s: "s = (cum, freq, tot)" by (cases s)
  obtain e1 where e1: "tq_enc_sym3 e s = Some e1" "run_steps tq_enc_sym3 ss e1 = Some e'"
    using Cons.prems by (auto split: option.splits)
  have ok: "sym_ok (cum, freq, tot)" using Cons.prems s by simp
  have r: "enc_ready (Suc (length ss)) e" using Cons.prems(1) by simp
  have "enc_ready (length ss) e1" by (rule enc_sym_ready [OF r ok [folded s] e1(1)])
  then have c1: "enc_clean e1" "enc_shifts e' \<le> enc_shifts e1 + 2 * length ss" using Cons.IH Cons.prems e1(2) by simp_all
  note rd = enc_readyD [OF r]
  have c: "enc_clean e" by (rule enc_sym_clean_back [OF rd(1) ok [folded s] e1(1) c1(1)])
  have en: "tq_ac_enc_sym e cum freq tot = Some e1" using e1(1) by (simp add: s tq_enc_sym3_def)
  have "enc_shifts e1 = enc_shifts e + sym_shifts e (cum, freq, tot)"
    using enc_sym_value(3) [OF rd(2) [OF c] ok rd(3) [OF c] en] c1(1) by (simp add: enc_clean_def)
  moreover have "sym_shifts e (cum, freq, tot) \<le> 2" by (rule enc_sym_unroll(2) [OF rd(1) ok])
  ultimately show ?case using c c1(2) by simp
qed simp

lemma wire_short:
  assumes "env_ok E" and "rt_ready E [] (se_rt s)" and "pm_ok (en_vocab E) (se_pm s)" and "n \<le> int (length toks)"
    and "sem_encode lm toks n cap s = Some (TQ_OK, s')"
  shows "length (e_buf (se_e s')) \<le> 4 * nat n"
proof -
  obtain k lgs e where k: "n = int (Suc k)" "k < 256" "predictions (fv E) [] (take k toks) = Some lgs"
    "\<forall>t \<in> set (take k (tl toks)). valid_token (en_m E) t"
    "run_steps tq_enc_sym3 (len_sym k # concat (map (\<lambda>(l, t). token_syms (en_vocab E) l t) (zip lgs (map nat (take k (tl toks))))))
        (tq_ac_enc_init cap) = Some e"
    "\<not> e_overflow (snd (tq_ac_enc_finish e))" "se_e s' = snd (tq_ac_enc_finish e)"
    using sem_encode_ok [OF assms] by blast
  let ?lts = "zip lgs (map nat (take k (tl toks)))"
  let ?ss = "len_sym k # concat (map (\<lambda>(l, t). token_syms (en_vocab E) l t) ?lts)"
  have good: "\<forall>lt \<in> set ?lts. tok_good (en_vocab E) lt" by (rule good_zip [OF k(4)])
  note syms = token_stream_syms [OF assms(3) good]
  have lg: "length lgs \<le> k" using predictions_length [OF k(3)] by simp
  have ss: "\<forall>s \<in> set ?ss. sym_ok s" using syms(1) len_sym_ok [OF k(2)] by simp
  have n: "length ?ss \<le> 1 + 2 * k" using syms(2) lg by simp
  have sm: "2 * length ?ss + 5 < 2 ^ 64" using n k(2) by simp
  obtain e1 where "run_steps tq_enc_sym3 ?ss (tq_ac_enc_init cap) = Some e1" "enc_ready 0 e1" "\<not> e_finished e1"
    using ac_run_init [OF ss sm, of cap] by blast
  then have e: "enc_ready 0 e" "\<not> e_finished e" using k(5) by simp_all
  note f = enc_ready_finish [OF e k(6)]
  have "enc_shifts e \<le> 2 * length ?ss" using enc_run_short [OF enc_ready_init [OF sm] ss k(5) f(1)] by simp
  then have "enc_shifts e + 1 \<le> 4 * Suc k" using n by simp
  then show ?thesis using f(3) k(1,7) by simp
qed

lemma board_read_by_host:
  assumes run: "machine_runs E M" and tk: "tk_m (mc_tok M) = en_m E" "tk_vocab_size (mc_tok M) = m_vocab_size (en_m E)"
    and inp: "spells_text (mc_tok M) inp" "inp = foldl add_word [] (drop 1 argv)"
    and r: "cmd_sem_encode argv M = Some (0, Wire w, M')"
    and t2: "tool_ok E2 t2" "en_img E2 = en_img E" "en_m E2 = en_m E" "en_kv E2 = en_kv E" "tl_tok t2 = mc_tok M"
    and room: "en_seq E \<le> en_seq E2" and buf: "length buf = 64"
  shows "\<exists>t2'. do_decode buf (hex_bytes w) t2 = Some (0, inp @ cstr ''\<newline>'', t2') \<and> tool_ok E2 t2'"
proof -
  obtain toks s t' pm where w: "tq_encode (mc_tok M) inp True False SEM_MAX_TOKENS = Inr toks"
    "se_rt s = mc_rt M" "se_pm s = pm" "pm_ok (en_vocab E) pm" "int (length toks) \<le> en_seq E"
    "sem_encode \<lparr>lm_exp = id, lm_log2 = id\<rparr> toks (int (length toks)) SEM_MAX_WIRE s = Some (TQ_OK, t')" "w = take (se_len t') (e_buf (se_e t'))"
    using board_wire [OF run tk _ r, of "\<lparr>lm_exp = id, lm_log2 = id\<rparr>"] inp by blast
  have e: "env_ok E" "rt_ready E [] (se_rt s)" "pm_ok (en_vocab E) (se_pm s)" using run w(2-4) by (simp_all add: machine_runs_def)
  have e2: "env_ok E2" "rt_ready E2 [] (tl_rt t2)" "pm_ok (en_vocab E2) (tl_pm t2)" using t2(1) by (simp_all add: tool_ok_def)
  have sp: "encoder_ok (mc_tok M)" "plain_vocab (mc_tok M) inp" "in_vocab (mc_tok M) (tk_bos (mc_tok M))"
    "\<forall>x. in_vocab (mc_tok M) x \<longrightarrow> length (tok_str (mc_tok M) x) < 64" "0 \<notin> set inp"
    using inp(1) by (simp_all add: spells_text_def)
  note wb = wire_is_buffer [OF e order_refl w(6)]
  obtain rest where bos: "toks = tk_bos (mc_tok M) # rest" "decode_text (mc_tok M) 64 (tk_bos (mc_tok M)) rest = inp"
    using text_survives [OF sp(1-4) _ w(1)] by auto
  have rest: "\<forall>x \<in> set rest. in_vocab (mc_tok M) x"
    using encode_outcome [OF sp(1), where add_bos = True and max_tokens = SEM_MAX_TOKENS and inp = inp and add_eos = False] sp(3) w(1) bos(1)
    by (simp add: SEM_MAX_TOKENS_def)
  have vt: "\<forall>x \<in> set (take (nat (int (length toks))) toks). valid_token (en_m E) x"
    using rest sp(3) bos(1) tk(2) by (auto simp: in_vocab_def valid_token_def)
  have len: "length w \<le> MAX_WIRE"
    using wire_short [OF e order_refl w(6)] wb(1,3) w(7) by (simp add: MAX_WIRE_def)
  have hd: "hd toks = sint (h_bos_token (m_hdr (en_m E2)))" by (simp add: bos(1) tk_bos_def tk(1) t2(3))
  have mx: "int (length toks) \<le> MAX_MSG_TOKENS" "nat (int (length toks)) \<le> Suc (en_slots E2)"
    using wb(3) w(5) room by (simp_all add: MAX_MSG_TOKENS_def)
  obtain d where d: "sem_decode w MAX_MSG_TOKENS (tl_rt t2) (tl_pm t2) = Some (Inr toks, d)"
    using message_decodes [OF e(1) e2(1) e(2) e2(2) _ _ _ e(3) e2(3) order_refl mx hd w(6)] t2(2-4) w(7) wb(1) by auto
  have "print_tokens (mc_tok M) buf (tk_bos (mc_tok M)) rest = Some inp"
    using print_tokens_text [OF _ sp(4) _ rest, of "tk_bos (mc_tok M)" buf] bos(2) sp(1,5) buf by (simp add: encoder_ok_def)
  then have p: "print_text (tl_tok t2) buf toks = Some (inp @ cstr ''\<newline>'')" by (simp add: print_text_def bos(1) t2(5))
  have k: "pm_ok (en_vocab E2) (sd_pm d)" "rt_ready E2 [] (sd_rt d)" using sem_decode_outcome [OF e2 d] by simp_all
  have "do_decode buf (hex_bytes w) t2 = Some (0, inp @ cstr ''\<newline>'', t2\<lparr>tl_rt := sd_rt d, tl_pm := sd_pm d\<rparr>)"
    by (simp add: do_decode_def scan_hex_bytes [OF len] d p Let_def)
  then show ?thesis using k t2(1) by (simp add: tool_ok_def)
qed

text \<open>The law of \<^verbatim>\<open>hex2bin\<close>: the digits of a wire that fits the buffer give the wire.\<close>

definition hex2bin_ok :: "('f, 'h) platform \<Rightarrow> bool" where
  "hex2bin_ok P \<longleftrightarrow> (\<forall>bs cap. length bs \<le> cap \<longrightarrow> pl_hex2bin P (hex_bytes bs) cap = bs)"

lemma empty_target: "snd (tq_ac_dec_target (tq_ac_dec_init []) TQ_AC_TOT) = 0"
  by code_simp

lemma board_reads_host:
  assumes t: "tool_ok E t" and inp: "spells_text (tl_tok t) inp" and m: "do_message lm defl secs inp t = Some (0, r, wire, t')"
    and run: "machine_runs E2 M" "mc_loaded M" "mc_have_tok M" "mc_tok M = tl_tok t"
    and same: "en_img E2 = en_img E" "en_m E2 = en_m E" "en_kv E2 = en_kv E"
    and hx: "hex2bin_ok P" and wire: "1 < mr_tokens r" "length wire \<le> SEM_MAX_WIRE" and room: "mr_tokens r \<le> en_seq E2"
  shows "\<exists>M'. cmd_sem_decode P (hex_bytes wire) M = Some (0, Message (inp @ cstr ''\<newline>''), M') \<and> machine_runs E2 M' \<and> mc_loaded M'"
proof -
  let ?t = "tl_tok t"
  have sp: "encoder_ok ?t" "plain_vocab ?t inp" "in_vocab ?t (tk_bos ?t)" "\<forall>x. in_vocab ?t x \<longrightarrow> length (tok_str ?t x) < 64" "0 \<notin> set inp"
    using inp by (simp_all add: spells_text_def)
  have e2: "env_ok E2" "rt_ready E2 [] (mc_rt M)" using run(1) by (simp_all add: machine_runs_def)
  have rt: "rt_m (mc_rt M) = en_m E2" "rt_max_seq (mc_rt M) = en_seq E2" using ready_fixed [OF e2(2)] by simp_all
  have "pm_ok (en_vocab E2) (tl_pm t)" using t same(2) by (simp add: tool_ok_def)
  then have V: "0 < m_vocab_size (en_m E2)" "m_vocab_size (en_m E2) \<le> int TQ_AC_MAX_VOCAB"
    unfolding pm_ok_def by linarith+
  then obtain pm where pm: "tq_ac_model_init (m_vocab_size (en_m E2)) = Inr pm" by (simp add: tq_ac_model_init_def)
  have pmk: "pm_ok (en_vocab E2) pm" using model_init_ok' [OF pm] by simp
  let ?M = "M\<lparr>mc_pm := pm\<rparr>" and ?mx = "min SEM_MAX_TOKENS (en_seq E2)"
  have sr: "sem_ready M = (0, ?M)" using run(2,3) pm by (simp add: sem_ready_def rt)
  note v = message_verified [OF t inp m]
  have n: "mr_tokens r \<le> ?mx" "nat (mr_tokens r) \<le> Suc (en_slots E2)" using v room by (auto simp: SEM_MAX_TOKENS_def)
  obtain toks where toks: "tq_encode ?t inp True False MAX_MSG_TOKENS = Inr toks"
    "env_ok E2 \<and> rt_ready E2 [] (mc_rt M) \<and> en_img E2 = en_img E \<and> en_m E2 = en_m E \<and> en_kv E2 = en_kv E \<and>
      pm_ok (en_vocab E2) pm \<and> mr_tokens r \<le> ?mx \<and> nat (mr_tokens r) \<le> Suc (en_slots E2) \<longrightarrow>
      (\<exists>d. sem_decode wire ?mx (mc_rt M) pm = Some (Inr toks, d))"
    using v by (metis zero_neq_one)
  then obtain s where s: "sem_decode wire ?mx (mc_rt M) pm = Some (Inr toks, s)" using e2 same pmk n by blast
  obtain d target where tg: "tq_ac_dec_target (tq_ac_dec_init wire) TQ_AC_TOT = (d, target)" by fastforce
  obtain d1 where d1: "tq_ac_dec_update d ((target div SEM_LEN_FREQ) * SEM_LEN_FREQ) SEM_LEN_FREQ = Some d1"
    using dec_target_live(2) [OF dec_init_live tg, of SEM_LEN_FREQ] by (auto simp: sem_words(1))
  have w: "\<not> uint (target div SEM_LEN_FREQ) + 1 > ?mx"
    and l: "sem_decode_loop (unat (target div SEM_LEN_FREQ)) [sint (h_bos_token (m_hdr (en_m E2)))] \<lparr>sd_rt = mc_rt M, sd_pm = pm, sd_d = d1\<rparr> = Some (Inr toks, s)"
    using s by (auto simp: sem_decode_def tg d1 rt Let_def split: if_splits)
  have w': "\<not> (uint (target div SEM_LEN_FREQ) + 1 > SEM_MAX_TOKENS \<or> uint (target div SEM_LEN_FREQ) + 1 > en_seq E2)"
    using w by linarith
  have len: "mr_tokens r = int (length toks)"
    using m toks(1) by (auto simp: do_message_def Let_def split: option.splits if_splits prod.splits)
  have ne: "wire \<noteq> []"
  proof
    assume "wire = []"
    then have "target = 0" using tg empty_target by simp
    then have "length toks = 1" using l by auto
    then show False using wire(1) len by simp
  qed
  have hb: "pl_hex2bin P (hex_bytes wire) SEM_MAX_WIRE = wire" using hx wire(2) by (simp add: hex2bin_ok_def)
  obtain rest where bos: "toks = tk_bos ?t # rest" "decode_text ?t 64 (tk_bos ?t) rest = inp" using text_survives [OF sp(1-4) _ toks(1)] by auto
  have rest: "\<forall>x \<in> set rest. in_vocab ?t x"
    using encode_outcome [OF sp(1), where add_bos = True and max_tokens = MAX_MSG_TOKENS and inp = inp and add_eos = False] sp(3) toks(1) bos(1)
    by (simp add: MAX_MSG_TOKENS_def)
  have "print_tokens ?t (map (pl_chars P) [0..<64]) (tk_bos ?t) rest = Some inp"
    using print_tokens_text [OF _ sp(4) _ rest, of "tk_bos ?t" "map (pl_chars P) [0..<64]"] bos(2) sp(1,5) by (simp add: encoder_ok_def)
  then have p: "print_text ?t (map (pl_chars P) [0..<64]) toks = Some (inp @ cstr ''\<newline>'')" by (simp add: print_text_def bos(1))
  let ?M' = "(settle ?M (sd_rt s))\<lparr>mc_pm := sd_pm s\<rparr>"
  have "cmd_sem_decode P (hex_bytes wire) M = Some (0, Message (inp @ cstr ''\<newline>''), ?M')"
    unfolding cmd_sem_decode_def sr prod.case hb
    using ne w' l p run(4) by (simp add: tg d1 rt Let_def)
  moreover have "rt_ready E2 [] (sd_rt s)" using sem_decode_outcome [OF e2 pmk s] by simp
  then have "machine_runs E2 (settle ?M (sd_rt s))" using settle_runs [of E2 ?M "[]"] run(1) by simp
  then have "machine_runs E2 ?M'" by simp
  ultimately show ?thesis using run(2) by auto
qed

section \<open>A sample board\<close>

text \<open>
  The sample card with the sample file, and the sample board; the bytes of its PSRAM lie in the
  same map as the words of the test window.
\<close>

definition demo_bus :: "(u32 \<times> (u32 \<Rightarrow> u32)) psram_bus" where
  "demo_bus = \<lparr>pb_put = (\<lambda>off bs (c, m). (c, \<lambda>a. if off \<le> unat a \<and> unat a < off + length bs then ucast (bs ! (unat a - off)) else m a)),
     pb_get = (\<lambda>(c, m) i. if i < 2 ^ 32 then ucast (m (of_nat i)) else 0)\<rparr>"

definition demo_platform :: "(nat, u32 \<times> (u32 \<Rightarrow> u32)) platform" where
  "demo_platform = \<lparr>pl_fs = slow_fs sample_file, pl_bus = demo_bus, pl_board = demo_board, pl_mem = used_mem, pl_ints = \<lambda>_. 7,
     pl_chars = \<lambda>_. 9, pl_tile = replicate 32768 0, pl_model_arena = 0x20000000, pl_fast_arena = 0x20010000, pl_atof = \<lambda>_. 0,
     pl_hex2bin = (\<lambda>hex cap. scan_hex cap hex)\<rparr>"

lemma demo_bus_keeps: "cap \<le> 2 ^ 32 \<Longrightarrow> bus_keeps demo_bus cap"
  unfolding bus_keeps_def
proof (intro allI impI)
  fix h :: "u32 \<times> (u32 \<Rightarrow> u32)" and off i :: nat and bs :: "u8 list"
  assume c: "cap \<le> 2 ^ 32" "off + length bs \<le> cap"
  obtain k m where h: "h = (k, m)" by (cases h)
  have "i < 2 ^ 32 \<Longrightarrow> unat (of_nat i :: u32) = i" by (rule unat_of_nat_id) simp
  moreover have "(ucast (ucast b :: u32) :: u8) = b" for b :: u8
    using unat8_less [of b] by (intro word_unat_eq_iff [THEN iffD2]) (simp add: unat_ucast_mod)
  ultimately show "pb_get demo_bus (pb_put demo_bus off bs h) i = (if off \<le> i \<and> i < off + length bs then bs ! (i - off) else pb_get demo_bus h i)"
    using c by (auto simp: demo_bus_def h)
qed

lemma demo_chips: "chips_honest demo_platform"
  unfolding chips_honest_def
proof (intro allI impI, elim conjE)
  fix idx s rc info h
  assume r: "psram_init (pl_board demo_platform) idx s = Some (rc, info, h)" and nn: "0 \<le> rc"
  have idx: "0 \<le> idx" "idx < int PSRAM_CLK_COUNT" using r nn by (auto simp: psram_init_def EINVAL_def split: prod.splits if_splits)
  obtain rc2 info2 h2 where i: "psram_init demo_board idx s = Some (rc2, info2, h2)" "info_sound idx rc2 info2"
    using init_reports [OF demo_responds idx] by blast
  then have "info_sound idx rc info" using r by (simp add: demo_platform_def)
  then have "uint (pi_mbytes info) \<le> 32" unfolding info_sound_def by auto
  then have "unat (pi_mbytes info) \<le> 32" by (simp only: uint_nat)
  then have "unat (pi_mbytes info) * 2 ^ 20 \<le> 2 ^ 32" by simp
  from demo_bus_keeps [OF this] show "bus_keeps (pl_bus demo_platform) (unat (pi_mbytes info) * 2 ^ 20)" by (simp add: demo_platform_def)
qed

lemma demo_good: "good_model sample_file"
  unfolding good_model_def using sample_honest
  by (simp add: sample_header_at tile_takes_def open_dims_def sample_hdr_def block_bytes_def)

lemma demo_card: "good_card demo_platform (\<lambda>_. (=)) {sample_file}"
  using demo_good slow_holds [of sample_file]
  by (simp add: good_card_def demo_platform_def STREAM_TILE_BYTES_def sample_length)

lemma demo_dims:
  assumes "tq_model_open st arena n = (TQ_OK, m, st')" and "store_shows sample_file 32768 st"
  shows "m_vocab_size m = 1" "m_seq_len m = 1" "dims_ok m" "runtime_need m 1 = 1452" "kv_need m 1 TQ_KV_F32 = 288"
proof -
  have l: "2048 \<le> (32768 :: nat)" by simp
  note f = open_facts [OF assms l]
  have "skeleton m = skeleton (open_dims sample_hdr (zero_model\<lparr>m_hdr := sample_hdr\<rparr>))" using f sample_header_at by simp
  note k = skeleton_fields [OF this]
  show v: "m_vocab_size m = 1" "m_seq_len m = 1" unfolding k by (simp_all add: open_dims_def sample_hdr_def)
  show "dims_ok m" using f by (simp add: model_from_def)
  show "runtime_need m 1 = 1452" "kv_need m 1 TQ_KV_F32 = 288"
    unfolding runtime_need_def kv_need_def Let_def k by (simp_all add: open_dims_def sample_hdr_def TQ_KV_F32_def TQ_KV_Q8_def)
qed

lemma demo_complete: "complete_image sample_file (0x20000000 :: 32 word) 4096"
proof -
  have "snd (tq_carve (0x20000000 :: 32 word) 4096 0 (72 * word_of_int (m_n_layers (open_dims sample_hdr (zero_model\<lparr>m_hdr := sample_hdr\<rparr>))))) \<noteq> None"
    by (subst carve_value) (simp_all add: Let_def carve_off_def open_dims_def sample_hdr_def)
  then show ?thesis using sample_complete unfolding complete_image_def Let_def sample_header_at by blast
qed

lemma demo_finish:
  fixes st :: "nat card tq_store"
  assumes st: "store_shows sample_file 32768 st" and M: "mc_bytes M = 5440" "pi_mbytes (mc_info M) = 16"
  shows "\<exists>M'. finish_open demo_platform st 0 False M = (0, M') \<and> mc_loaded M'"
proof -
  have l: "2048 \<le> (32768 :: nat)" by simp
  obtain m st' where o: "tq_model_open st (0x20000000 :: 32 word) 4096 = (TQ_OK, m, st')"
    using open_image_implemented [OF st l sample_range, of "0x20000000 :: 32 word" 4096] complete_image_opens [OF demo_complete] by auto
  note d = demo_dims [OF o st]
  define cursor where "cursor = (if st_base st' \<noteq> None then of_nat (mc_bytes M) else 0 :: u32)"
  define K where "K = (tq_kv_bytes m 1 TQ_KV_F32 :: u32)"
  define S where "S = (word_of_int (m_vocab_size m) * 8 :: u32)"
  have c: "unat cursor \<le> 5440" by (simp add: cursor_def M)
  have f: "unat (tq_runtime_bytes m 1 :: u32) = 1452"
    using runtime_bytes_value(1) [OF d(3), of 1, where 'w = 32] by (simp add: d(4))
  have k: "unat K = 288" unfolding K_def using kv_bytes_value(1) [OF d(3), of 1 TQ_KV_F32, where 'w = 32] by (simp add: d(5))
  have s: "unat S = 8" by (simp add: S_def d(1))
  have f': "\<not> (tq_runtime_bytes m 1 :: u32) > FAST_ARENA_BYTES" using f by (simp add: word_less_nat_alt FAST_ARENA_BYTES_def)
  have sum: "unat (cursor + K + S) \<le> 5736"
  proof -
    have "unat (cursor + K) = unat cursor + 288" using c k by (subst unat_add_small) simp_all
    then show ?thesis using s c by (subst unat_add_small) simp_all
  qed
  then have "unat (ucast (cursor + K + S) :: u64) \<le> 5736" by (simp add: unat_ucast_mod)
  then have fit: "\<not> (ucast (cursor + K + S) :: u64) > push_bit 20 (ucast (pi_mbytes (mc_info M)))"
    unfolding M(2) by (simp add: word_less_nat_alt)
  obtain ko c1 where 1: "psram_alloc cursor K = (ko, c1)" by fastforce
  have ko: "unat ko mod 64 = 0" "unat ko \<le> 5503" using psram_alloc_value [OF 1] c k by simp_all
  obtain so c2 where 2: "psram_alloc c1 S = (so, c2)" by fastforce
  have "unat (PSRAM_BASE + ko) = unat PSRAM_BASE + unat ko" using ko(2) by (intro unat_add_small) (simp add: PSRAM_BASE_def)
  then have "unat (PSRAM_BASE + ko) = 0x70000000 + unat ko" by (simp add: PSRAM_BASE_def)
  then have al: "unat (PSRAM_BASE + ko) mod 16 = 0" using ko(1) by presburger
  have "\<exists>ly. tq_runtime_init m 1 TQ_KV_F32 0x20010000 FAST_ARENA_BYTES (PSRAM_BASE + ko) K = Inr ly \<and>
      laid_out 0x20010000 FAST_ARENA_BYTES (fast_buffers ly) (fast_need m 1) \<and> laid_out (PSRAM_BASE + ko) K (cache_buffers TQ_KV_F32 ly) (cache_need m 1 TQ_KV_F32)"
    by (rule runtime_layout [OF d(3)]) (use f' al k in \<open>simp_all add: d K_def FAST_ARENA_BYTES_def\<close>)
  then have rs: "runtime_start used_mem m st' 1 TQ_KV_F32 0x20010000 FAST_ARENA_BYTES (PSRAM_BASE + ko) K = Inr (carved_runtime used_mem m st' 1 TQ_KV_F32)"
    by (auto simp: runtime_start_def)
  have sq: "(if (0 :: int) \<le> 0 \<or> (0 :: int) > 1 then 1 else 0) = (1 :: int)" "(if False then TQ_KV_Q8 else TQ_KV_F32) = TQ_KV_F32" by simp_all
  have op: "tq_model_open st (pl_model_arena demo_platform) 4096 = (TQ_OK, m, st')" using o by (simp add: demo_platform_def)
  have rs': "runtime_start (pl_mem demo_platform) m st' 1 TQ_KV_F32 (pl_fast_arena demo_platform) FAST_ARENA_BYTES (PSRAM_BASE + ko) K
      = Inr (carved_runtime used_mem m st' 1 TQ_KV_F32)" using rs by (simp add: demo_platform_def)
  have mb: "mc_bytes (M\<lparr>mc_card := cd\<rparr>) = mc_bytes M" "mc_info (M\<lparr>mc_card := cd\<rparr>) = mc_info M" for cd by simp_all
  have ok: "\<not> TQ_OK \<noteq> TQ_OK" by simp
  show ?thesis
    unfolding finish_open_def op prod.case Let_def if_not_P [OF ok] d(2) sq mb cursor_def [symmetric] K_def [symmetric] S_def [symmetric]
      if_not_P [OF f'] if_not_P [OF fit] 1 2 rs' sum.case
    by (cases "tq_tokenizer_init st' m 64") simp_all
qed

definition demo_start :: "(nat, u32 \<times> (u32 \<Rightarrow> u32)) machine" where
  "demo_start = \<lparr>mc_card = \<lparr>cd_fs = 0, cd_mounted = False, cd_stream_open = False\<rparr>, mc_hw = (0, \<lambda>_. 0), mc_info = no_psram,
     mc_rt = blank_runtime (tq_store_init_mapped blank_image 2048) 0, mc_tok = blank_tok, mc_loaded = False, mc_have_tok = False, mc_bytes = 0,
     mc_kv_off = 0, mc_scratch_off = 0, mc_pm = blank_pm, mc_last_pct = 0\<rparr>"

lemma demo_boot: "\<exists>M. boot demo_platform demo_start = Some M \<and> pi_mbytes (mc_info M) = 16"
proof -
  have i: "0 \<le> PSRAM_BOOT_CLOCK_INDEX" "PSRAM_BOOT_CLOCK_INDEX < int PSRAM_CLK_COUNT"
    by (simp_all add: PSRAM_BOOT_CLOCK_INDEX_def PSRAM_CLK_COUNT_def)
  obtain rc info h where r: "psram_init demo_board PSRAM_BOOT_CLOCK_INDEX (no_psram, (0, \<lambda>_. 0)) = Some (rc, info, h)"
    "info_sound PSRAM_BOOT_CLOCK_INDEX rc info"
    using init_reports [OF demo_responds i] by blast
  then have "rc = 16" using demo_init [OF i, of no_psram 0 "\<lambda>_. 0"] by auto
  then have "uint (pi_mbytes info) = 16" using r(2) by (auto simp: info_sound_def)
  then have "pi_mbytes info = 16" by (metis word_of_int_uint word_of_int_numeral)
  moreover have "pl_board demo_platform = demo_board" "mc_info demo_start = no_psram" "mc_hw demo_start = (0, \<lambda>_. 0)"
    by (simp_all add: demo_platform_def demo_start_def)
  ultimately show ?thesis using r(1) by (simp add: boot_def)
qed

lemma demo_load:
  assumes "pi_mbytes (mc_info M) = 16"
  shows "\<exists>M'. run_command demo_platform (Load [cstr ''load'', cstr ''m.tq'']) M = Some (0, Nothing_more, M') \<and> mc_loaded M'"
proof -
  let ?M = "M\<lparr>mc_loaded := False, mc_card := model_close_streaming (pl_fs demo_platform) (mc_card M)\<rparr>"
  have argv: "\<not> length [cstr ''load'', cstr ''m.tq''] < 2" "\<not> pi_mbytes (mc_info M) = 0" using assms by simp_all
  have h: "card_holds (pl_fs demo_platform) (=) (card_path ([cstr ''load'', cstr ''m.tq''] ! 1)) sample_file"
    unfolding demo_platform_def using slow_holds [of sample_file] by (simp add: sample_length)
  have "unat (pi_mbytes (mc_info M)) * 2 ^ 20 \<le> 2 ^ 32" by (simp add: assms)
  then have k: "bus_keeps (pl_bus demo_platform) (unat (pi_mbytes (mc_info M)) * 2 ^ 20)"
    using demo_bus_keeps by (simp add: demo_platform_def)
  have f: "unat (0 :: u32) + length sample_file \<le> unat (pi_mbytes (mc_info M)) * 2 ^ 20" by (simp add: assms sample_length)
  obtain st :: "nat card tq_store" and ds cd hw where l: "model_load_to_psram (pl_fs demo_platform) (pl_bus demo_platform) (pi_mbytes (mc_info M))
      (card_path ([cstr ''load'', cstr ''m.tq''] ! 1)) 0 (mc_card ?M, mc_hw M) = (Inr (st, length sample_file), ds, cd, hw)" "store_mapped sample_file st"
    using load_shows [OF h k f argv(2), of "mc_card ?M" "mc_hw M"] by blast
  obtain pct out where p: "foldl (load_progress (length sample_file)) (mc_last_pct M, []) ds = (pct, out)" by fastforce
  let ?M2 = "?M\<lparr>mc_card := cd, mc_hw := hw, mc_bytes := length sample_file, mc_last_pct := pct\<rparr>"
  have "store_shows sample_file 32768 st" using l(2) by (simp add: store_shows_def)
  from demo_finish [OF this, of ?M2] obtain M' where "finish_open demo_platform st 0 False ?M2 = (0, M')" "mc_loaded M'"
    by (auto simp: assms sample_length)
  moreover have "parse_common (drop 2 [cstr ''load'', cstr ''m.tq'']) (0, False) = (0, False)" by simp
  moreover have "mc_info ?M = mc_info M" "mc_hw ?M = mc_hw M" "mc_last_pct ?M = mc_last_pct M" by simp_all
  ultimately have "cmd_load demo_platform [cstr ''load'', cstr ''m.tq''] M = (0, M')"
    unfolding cmd_load_def if_not_P [OF argv(1)] if_not_P [OF argv(2)] using l(1) p by (simp only: prod.case Let_def sum.case)
  then show ?thesis using \<open>mc_loaded M'\<close> by simp
qed

text \<open>The board's encoder succeeds where the host's does.\<close>

lemma sem_step_board:
  assumes "sem_encode_step lm toks i t = Some (rc, t')" and "be_rt s = se_rt t" "be_pm s = se_pm t" "be_e s = se_e t"
  shows "\<exists>s'. board_encode_step toks i s = Some (rc, s') \<and> be_rt s' = se_rt t' \<and> be_pm s' = se_pm t' \<and> be_e s' = se_e t'"
proof -
  obtain rc1 rt where f: "tq_forward (se_rt t) (toks ! i) (int i) = Some (rc1, rt)"
    using assms(1) by (auto simp: sem_encode_step_def Let_def split: option.splits)
  show ?thesis
  proof (cases "rc1 = TQ_OK")
    case True
    then obtain e pm where "tq_ac_enc_token (se_e t) (se_pm t) (rt_logits rt) (toks ! (i + 1)) = Some (e, pm, rc)"
      "se_rt t' = rt" "se_pm t' = pm" "se_e t' = e"
      using assms(1) f by (auto simp: sem_encode_step_def Let_def split: option.splits if_splits)
    then show ?thesis using f True assms(2-4) by (simp add: board_encode_step_def Let_def)
  next
    case False
    then show ?thesis using assms f by (auto simp: sem_encode_step_def board_encode_step_def Let_def)
  qed
qed

lemma sem_steps_board:
  assumes "run_ok (map (sem_encode_step lm toks) js) t = Some (rc, t')" and "be_rt s = se_rt t" "be_pm s = se_pm t" "be_e s = se_e t"
  shows "\<exists>s'. run_ok (map (board_encode_step toks) js) s = Some (rc, s') \<and> be_e s' = se_e t'"
  using assms
proof (induction js arbitrary: s t)
  case (Cons j js)
  obtain rc1 t1 where t1: "sem_encode_step lm toks j t = Some (rc1, t1)" using Cons.prems(1) by (auto split: option.splits)
  obtain s1 where s1: "board_encode_step toks j s = Some (rc1, s1)" "be_rt s1 = se_rt t1" "be_pm s1 = se_pm t1" "be_e s1 = se_e t1"
    using sem_step_board [OF t1 Cons.prems(2-4)] by blast
  show ?case
  proof (cases "rc1 = TQ_OK")
    case True
    then have "run_ok (map (sem_encode_step lm toks) js) t1 = Some (rc, t')" using Cons.prems(1) t1 by simp
    from Cons.IH [OF this s1(2-4)] show ?thesis using s1(1) True by simp
  next
    case False
    then show ?thesis using Cons.prems(1) t1 s1 by simp
  qed
qed simp

definition demo_talker :: "(nat, u32 \<times> (u32 \<Rightarrow> u32)) machine" where
  "demo_talker = demo_start\<lparr>mc_loaded := True, mc_have_tok := True\<rparr>"

lemma demo_talks: "machine_runs blank_env demo_talker"
proof -
  have "store_shows blank_image 256 (tq_store_init_mapped blank_image 2048 :: nat card tq_store)"
    using store_init_shows(1) [of blank_image 256] by (simp add: blank_image_def)
  from ready_fresh [OF blank_fits [OF this]] blank_env_ok show ?thesis by (simp add: machine_runs_def demo_talker_def demo_start_def)
qed

lemma demo_words: "foldl add_word [] (drop 1 [cstr ''encode'', [98]]) = [98]"
  by (simp add: add_word_def)

lemma demo_encode: "tq_encode blank_tok [98] True False 256 = Inr [0, 1, 4]"
proof -
  have sp: "cstr '' '' = [32]" by code_simp
  have st: "encode_start sample_tok [98] True 256 = Inr [0, 1]"
    by (simp add: encode_start_def tq_push_def sample_bos sp sample_lookup)
  have u: "utf8_len 98 = 1" by code_simp
  have bt: "tq_byte_token sample_tok 98 = Some 4"
    by (simp add: byte_token_lookup sample_byte_form sample_lookup)
  have sl: "encode_split sample_tok 256 [98] 0 [0, 1] = Inr [0, 1, 4]"
    by (simp add: encode_split.simps [of sample_tok 256 "[98]"] u Let_def sample_lookup bt tq_push_def)
  have "merge_all sample_tok [0, 1, 4] = Some [0, 1, 4]" using sample_encode st u bt
    by (auto simp: tq_encode_def encode_start_def tq_push_def sample_bos sp sample_lookup encode_split.simps [of sample_tok 8 "[98]"] Let_def
        split: option.splits)
  then have "tq_encode sample_tok [98] True False 256 = Inr [0, 1, 4]" by (simp add: tq_encode_def st sl)
  then show ?thesis unfolding blank_tok_def model_encode [OF blank_tok_bos] .
qed

lemma demo_sends: "\<exists>w M'. cmd_sem_encode [cstr ''encode'', [98]] demo_talker = Some (0, Wire w, M')"
proof -
  let ?M = "demo_talker\<lparr>mc_pm := blank_pm\<rparr>" and ?lm = "\<lparr>lm_exp = id, lm_log2 = id\<rparr>"
  let ?s = "\<lparr>se_rt = mc_rt demo_talker, se_pm = blank_pm, se_e = tq_ac_enc_init 640, se_len = 0, se_ideal = 0, se_charged = 0, se_term = 0\<rparr>"
  have m: "rt_m (mc_rt demo_talker) = blank_model" "rt_max_seq (mc_rt demo_talker) = 4" "mc_tok demo_talker = blank_tok"
    by (simp_all add: demo_talker_def demo_start_def blank_runtime_def)
  have nb: "(nat 5 + TQ_AC_BUCKET - 1) div TQ_AC_BUCKET = 1" and v: "\<not> ((5 :: int) < 1 \<or> 5 > int TQ_AC_MAX_VOCAB)" by (simp_all add: ac_sizes)
  have "tq_ac_model_init 5 = Inr blank_pm" unfolding tq_ac_model_init_def if_not_P [OF v] nb blank_pm_def by simp
  then have i: "tq_ac_model_init (m_vocab_size blank_model) = Inr blank_pm" by (simp add: blank_fields)
  have "mc_loaded demo_talker" "mc_have_tok demo_talker" by (simp_all add: demo_talker_def)
  then have sr: "sem_ready demo_talker = (0, ?M)" by (simp only: sem_ready_def m i not_True_eq_False if_False sum.case)
  have "rt_ready blank_env [] (mc_rt demo_talker)" using demo_talks by (simp add: machine_runs_def)
  then obtain s' where s': "sem_encode ?lm [0, 1, 4] 3 640 ?s = Some (TQ_OK, s')"
    using blank_codes [of ?s 640 ?lm] blank_pm_ok by auto
  have g: "\<not> ((3 :: int) < 1 \<or> 3 - 1 \<ge> SEM_LEN_SYMBOLS)" by (simp add: SEM_LEN_SYMBOLS_def)
  define js where "js = [0..<nat 3 - 1]"
  define k where "k = (word_of_int (3 - 1) * SEM_LEN_FREQ :: u32)"
  note b = s' [unfolded sem_encode_def if_not_P [OF g], folded js_def k_def]
  obtain e0 where e0: "tq_ac_enc_sym (tq_ac_enc_init 640) k SEM_LEN_FREQ TQ_AC_TOT = Some e0"
    using b by (cases "tq_ac_enc_sym (tq_ac_enc_init 640) k SEM_LEN_FREQ TQ_AC_TOT") simp_all
  obtain t where t: "run_ok (map (sem_encode_step ?lm [0, 1, 4]) js) (?s\<lparr>se_e := e0, se_ideal := 0, se_charged := 0, se_term := f64_of_int 8\<rparr>) = Some (TQ_OK, t)"
    using b unfolding e0 option.case by (auto split: option.splits prod.splits if_splits)
  obtain len e1 where f: "tq_ac_enc_finish (se_e t) = (len, e1)" by fastforce
  have o: "\<not> e_overflow e1" using b unfolding e0 option.case t prod.case by (simp add: f split: if_splits)
  obtain s1 where s1: "run_ok (map (board_encode_step [0, 1, 4]) js) \<lparr>be_rt = mc_rt demo_talker, be_pm = blank_pm, be_e = e0\<rparr> = Some (TQ_OK, s1)"
    "be_e s1 = se_e t"
    using sem_steps_board [OF t, of "\<lparr>be_rt = mc_rt demo_talker, be_pm = blank_pm, be_e = e0\<rparr>"] by auto
  have n: "int (length [0 :: int, 1, 4]) = 3" "length [0 :: int, 1, 4] - 1 = nat 3 - 1" by simp_all
  have z: "\<not> (0 :: int) \<noteq> 0" by simp
  have M: "mc_tok ?M = blank_tok" "mc_rt ?M = mc_rt demo_talker" "mc_pm ?M = blank_pm" by (simp_all add: m)
  have x: "tq_encode blank_tok (foldl add_word [] (drop 1 [cstr ''encode'', [98]])) True False SEM_MAX_TOKENS = Inr [0, 1, 4]"
    unfolding demo_words using demo_encode by (simp add: SEM_MAX_TOKENS_def)
  have c: "\<not> ((3 :: int) - 1 > 255 \<or> (3 :: int) > rt_max_seq (mc_rt demo_talker))" by (simp add: m)
  have w: "SEM_MAX_WIRE = 640" by (simp add: SEM_MAX_WIRE_def)
  show ?thesis
    unfolding cmd_sem_encode_def sr prod.case if_not_P [OF z] M x sum.case Let_def n if_not_P [OF c] w js_def [symmetric] k_def [symmetric] e0 option.case s1
    using f o by simp
qed

section \<open>Properties\<close>





text \<open>
  C22: the host reads the board. When \<^verbatim>\<open>semaphore encode\<close> on the board prints a wire for a text
  that the vocabulary spells, the host tool with the same model, the same cache type and no
  shorter context prints exactly that text from its digits; board and host have different stores,
  arenas and buffer sizes.
\<close>

theorem board_to_host:
  assumes "machine_runs E M" and "tk_m (mc_tok M) = en_m E" and "tk_vocab_size (mc_tok M) = m_vocab_size (en_m E)"
    and "spells_text (mc_tok M) inp" and "inp = foldl add_word [] (drop 1 argv)" and "cmd_sem_encode argv M = Some (0, Wire w, M')"
    and "tool_ok E2 t2" and "en_img E2 = en_img E" and "en_m E2 = en_m E" and "en_kv E2 = en_kv E" and "tl_tok t2 = mc_tok M"
    and "en_seq E \<le> en_seq E2" and "length buf = 64"
  shows "\<exists>t2'. do_decode buf (hex_bytes w) t2 = Some (0, inp @ cstr ''\<newline>'', t2') \<and> tool_ok E2 t2'"
  by (rule board_read_by_host [OF assms])

text \<open>A blank board sends \<^verbatim>\<open>b\<close>, the blank tool reads it.\<close>

theorem board_to_host_witness:
  "\<exists>w M' t2'. cmd_sem_encode [cstr ''encode'', [98]] demo_talker = Some (0, Wire w, M')
    \<and> do_decode (replicate 64 9) (hex_bytes w) (blank_tool blank_streamed 7) = Some (0, [98, 10], t2')"
proof -
  obtain w M' where r: "cmd_sem_encode [cstr ''encode'', [98]] demo_talker = Some (0, Wire w, M')" using demo_sends by blast
  have m: "mc_tok demo_talker = blank_tok" "tk_m blank_tok = blank_model" "tk_vocab_size blank_tok = 5"
    by (simp_all add: demo_talker_def demo_start_def blank_tok_def sample_tok_def)
  have sp: "spells_text (mc_tok demo_talker) [98]" by (simp add: m blank_spells)
  have n: "cstr ''\<newline>'' = [10]" by code_simp
  from board_to_host [OF demo_talks _ _ sp demo_words [symmetric] r blank_tool_ok [OF blank_stores(2), of 7] refl refl refl, of "replicate 64 9"] r
  show ?thesis by (auto simp: m n blank_fields blank_tool_def)
qed

text \<open>
  C23: the board reads the host. A wire of the host tool of more than one token, which fits the board's
  buffer of 640 bytes and its context, makes \<^verbatim>\<open>semaphore decode\<close> print exactly the text; the
  board is ready afterwards.
\<close>

theorem host_to_board:
  assumes "tool_ok E t" and "spells_text (tl_tok t) inp" and "do_message lm defl secs inp t = Some (0, r, wire, t')"
    and "machine_runs E2 M" and "mc_loaded M" and "mc_have_tok M" and "mc_tok M = tl_tok t"
    and "en_img E2 = en_img E" and "en_m E2 = en_m E" and "en_kv E2 = en_kv E"
    and "hex2bin_ok P" and "1 < mr_tokens r" and "length wire \<le> SEM_MAX_WIRE" and "mr_tokens r \<le> en_seq E2"
  shows "\<exists>M'. cmd_sem_decode P (hex_bytes wire) M = Some (0, Message (inp @ cstr ''\<newline>''), M') \<and> machine_runs E2 M' \<and> mc_loaded M'"
  by (rule board_reads_host [OF assms])

theorem host_to_board_witness:
  "\<exists>r wire t' M'. do_message \<lparr>lm_exp = id, lm_log2 = id\<rparr> (\<lambda>_ _. 0) 0 [98] (blank_tool blank_mapped 0) = Some (0, r, wire, t')
    \<and> cmd_sem_decode demo_platform (hex_bytes wire) demo_talker = Some (0, Message [98, 10], M')"
proof -
  obtain r wire t' where m: "do_message \<lparr>lm_exp = id, lm_log2 = id\<rparr> (\<lambda>_ _. 0) 0 [98] (blank_tool blank_mapped 0) = Some (0, r, wire, t')"
      "mr_tokens r = 3"
    using blank_message [of "\<lparr>lm_exp = id, lm_log2 = id\<rparr>" "\<lambda>_ _. 0" 0] by blast
  have sp: "spells_text (tl_tok (blank_tool blank_mapped 0)) [98]" by (simp add: blank_tool_def blank_spells)
  have k: "mc_loaded demo_talker" "mc_have_tok demo_talker" "mc_tok demo_talker = tl_tok (blank_tool blank_mapped 0)"
    by (simp_all add: demo_talker_def demo_start_def blank_tool_def)
  have h: "hex2bin_ok demo_platform" by (simp add: hex2bin_ok_def demo_platform_def scan_hex_bytes)
  have "int (length wire) \<le> 4 * mr_tokens r" using message_verified [OF blank_tool_ok [OF blank_stores(1)] sp m(1)] by auto
  then have w: "length wire \<le> SEM_MAX_WIRE" using m(2) by (simp add: SEM_MAX_WIRE_def)
  have n: "cstr ''\<newline>'' = [10]" by code_simp
  from host_to_board [OF blank_tool_ok [OF blank_stores(1)] sp m(1) demo_talks k refl refl refl h _ w] m
  show ?thesis by (auto simp: n)
qed

end
