(* ===== verification/Tq_Runner.thy ===== *)
theory Tq_Runner imports Tq_Board begin

text \<open>
  The host runner as a whole, \<^verbatim>\<open>main\<close> of \<^verbatim>\<open>src/host/tq_run.c\<close>: the arguments, a mapped or a streamed file, opening, layout
  and generation (theory \<open>Tq_Generate\<close>), up to the exit code and what is printed on the standard
  output. The operating system is a parameter and \<^verbatim>\<open>malloc\<close> gives memory; the lemmas show that a sound file and a prompt that fits give exit code 0.
\<close>

section \<open>Arguments\<close>

record run_args =
  ra_path :: "u8 list option"
  ra_prompt :: "u8 list"
  ra_steps :: int
  ra_temp :: f32
  ra_topp :: f32
  ra_seed :: u64
  ra_ctx :: int
  ra_kv8 :: bool
  ra_stream_kb :: int
  ra_quiet :: bool

definition run_defaults :: run_args where
  "run_defaults = \<lparr>ra_path = None, ra_prompt = [], ra_steps = 96, ra_temp = 0x3F666666, ra_topp = 0x3F666666, ra_seed = 42, ra_ctx = 0,
     ra_kv8 = False, ra_stream_kb = 0, ra_quiet = False\<rparr>"

definition c_strtoull :: "u8 list \<Rightarrow> u64" where
  "c_strtoull s =
     (let sat = (\<lambda>v. if v > 2 ^ 64 - 1 then 2 ^ 64 - 1 else v)
      in case dropWhile is_space s of
           [] \<Rightarrow> 0
         | c # cs \<Rightarrow>
             if c = 45 then (if digits_value 0 cs > 2 ^ 64 - 1 then -1 else - word_of_int (digits_value 0 cs))
             else word_of_int (sat (if c = 43 then digits_value 0 cs else digits_value 0 (c # cs))))"

text \<open>\<open>None\<close> prints the usage.\<close>

fun parse_run :: "(u8 list \<Rightarrow> f32) \<Rightarrow> u8 list list \<Rightarrow> run_args \<Rightarrow> run_args option" where
  "parse_run af [] g = Some g"
| "parse_run af (a # rest) g =
     (if (a = [] \<or> hd a \<noteq> 45) \<and> ra_path g = None then parse_run af rest (g\<lparr>ra_path := Some a\<rparr>)
      else if a = cstr ''-i'' \<and> rest \<noteq> [] then parse_run af (tl rest) (g\<lparr>ra_prompt := hd rest\<rparr>)
      else if a = cstr ''-n'' \<and> rest \<noteq> [] then parse_run af (tl rest) (g\<lparr>ra_steps := c_atoi (hd rest)\<rparr>)
      else if a = cstr ''-t'' \<and> rest \<noteq> [] then parse_run af (tl rest) (g\<lparr>ra_temp := af (hd rest)\<rparr>)
      else if a = cstr ''-p'' \<and> rest \<noteq> [] then parse_run af (tl rest) (g\<lparr>ra_topp := af (hd rest)\<rparr>)
      else if a = cstr ''-s'' \<and> rest \<noteq> [] then parse_run af (tl rest) (g\<lparr>ra_seed := c_strtoull (hd rest)\<rparr>)
      else if a = cstr ''-c'' \<and> rest \<noteq> [] then parse_run af (tl rest) (g\<lparr>ra_ctx := c_atoi (hd rest)\<rparr>)
      else if a = cstr ''--kv8'' then parse_run af rest (g\<lparr>ra_kv8 := True\<rparr>)
      else if a = cstr ''--stream'' \<and> rest \<noteq> [] then parse_run af (tl rest) (g\<lparr>ra_stream_kb := c_atoi (hd rest)\<rparr>)
      else if a = cstr ''--quiet'' then parse_run af rest (g\<lparr>ra_quiet := True\<rparr>)
      else None)"

section \<open>The file\<close>

text \<open>
  The operating system: the bytes of a file that can be opened, \<^verbatim>\<open>pread\<close> on it (\<open>None\<close> is an error),
  whether it can be mapped; the addresses that \<^verbatim>\<open>malloc\<close> gives and what lies there.
\<close>

record host =
  ho_file :: "u8 list \<Rightarrow> u8 list option"
  ho_pread :: "u8 list \<Rightarrow> u64 \<Rightarrow> u32 \<Rightarrow> u8 list option"
  ho_mmap :: bool
  ho_mem :: arena_mem
  ho_ints :: "nat \<Rightarrow> int"
  ho_chars :: "nat \<Rightarrow> u8"
  ho_model_arena :: "64 word"
  ho_fast :: "64 word"
  ho_cache :: "64 word"
  ho_atof :: "u8 list \<Rightarrow> f32"

text \<open>The counters of the streaming callback.\<close>

record file_ctx =
  fc_reads :: u64
  fc_bytes :: u64

definition file_read :: "(u64 \<Rightarrow> u32 \<Rightarrow> u8 list option) \<Rightarrow> file_ctx option \<Rightarrow> u64 \<Rightarrow> u32 \<Rightarrow> file_ctx option \<times> int \<times> u8 list" where
  "file_read pread c off n =
     (let c = map_option (\<lambda>c. c\<lparr>fc_reads := fc_reads c + 1, fc_bytes := fc_bytes c + ucast n\<rparr>) c
      in case pread off n of
           None \<Rightarrow> (c, -1, [])
         | Some bs \<Rightarrow> (c, if length bs = unat n then 0 else -1, bs))"

section \<open>The program\<close>

text \<open>The context length: that of the model unless \<^verbatim>\<open>-c\<close> asks for less.\<close>

definition run_ctx :: "run_args \<Rightarrow> tq_model \<Rightarrow> int" where
  "run_ctx a m = (if ra_ctx a \<le> 0 \<or> ra_ctx a > m_seq_len m then m_seq_len m else ra_ctx a)"

text \<open>From the opened store on; the exit code and the standard output.\<close>

definition run_model :: "host \<Rightarrow> run_args \<Rightarrow> file_ctx tq_store \<Rightarrow> (int \<times> u8 list) option" where
  "run_model ho a st =
     (case tq_model_open st (ho_model_arena ho) (64 * 1024) of
        (rc, m, st) \<Rightarrow>
          if rc \<noteq> TQ_OK then Some (1, [])
          else
            let ctx = run_ctx a m;
                kv = (if ra_kv8 a then TQ_KV_Q8 else TQ_KV_F32)
            in (case runtime_start (ho_mem ho) m st ctx kv (ho_fast ho) (tq_runtime_bytes m ctx) (ho_cache ho) (tq_kv_bytes m ctx kv) of
                  Inl _ \<Rightarrow> Some (1, [])
                | Inr rt \<Rightarrow>
                    let tok = (case tq_tokenizer_init st m 64 of Inl _ \<Rightarrow> None | Inr t \<Rightarrow> Some t); V = nat (m_vocab_size m)
                    in (case generate (ra_quiet a) tok (ra_prompt a) (ra_steps a) (ra_temp a) (ra_topp a) (ra_seed a)
                               (map (ho_ints ho) [0..<V]) (map (am_float (ho_mem ho) 20) [0..<V]) (map (ho_chars ho) [0..<64]) rt of
                          None \<Rightarrow> None
                        | Some (Inl _) \<Rightarrow> Some (1, [])
                        | Some (Inr (r, s)) \<Rightarrow>
                            if gr_rc r \<noteq> TQ_OK then Some (1, gr_text r)
                            else Some (0, gr_text r @ (if ra_quiet a then [] else cstr ''\<newline>'')))))"

definition run_main :: "host \<Rightarrow> u8 list list \<Rightarrow> (int \<times> u8 list) option" where
  "run_main ho argv =
     (case parse_run (ho_atof ho) argv run_defaults of
        None \<Rightarrow> Some (2, [])
      | Some a \<Rightarrow>
          (case ra_path a of
             None \<Rightarrow> Some (2, [])
           | Some path \<Rightarrow>
               (case ho_file ho path of
                  None \<Rightarrow> Some (1, [])
                | Some img \<Rightarrow>
                    if ra_stream_kb a > 0
                    then let tb = word_of_int (ra_stream_kb a) * 1024 :: 64 word
                         in run_model ho a (tq_store_init_stream (of_nat (length img)) (file_read (ho_pread ho path))
                              (Some \<lparr>fc_reads = 0, fc_bytes = 0\<rparr>) (map (ho_chars ho) [0..<unat tb]) (ucast tb))
                    else if ho_mmap ho then run_model ho a (tq_store_init_mapped img (of_nat (length img)))
                    else Some (1, []))))"

section \<open>A sound file runs\<close>

text \<open>What is asked of the file at hand, under the settings \<open>a\<close> and for a tile of \<open>lmt\<close> bytes.\<close>

definition sound_model :: "host \<Rightarrow> run_args \<Rightarrow> u8 list \<Rightarrow> nat \<Rightarrow> bool" where
  "sound_model ho a img lmt \<longleftrightarrow>
     (let m = snd (open_image img (ho_model_arena ho) (64 * 1024));
          ctx = run_ctx a m;
          kv = (if ra_kv8 a then TQ_KV_Q8 else TQ_KV_F32)
      in complete_image img (ho_model_arena ho) (64 * 1024) \<and> honest_file img \<and> length img < 2 ^ 64 \<and> 2048 \<le> lmt \<and> tile_takes lmt m
         \<and> runtime_need m ctx + 32 < 2 ^ 64 \<and> kv_need m ctx kv + 32 < 2 ^ 64 \<and> unat (ho_cache ho) mod 16 = 0
         \<and> (0 < ra_steps a \<longrightarrow> valid_token m (sint (h_bos_token (m_hdr m))))
         \<and> (ra_stream_kb a \<le> 0 \<longrightarrow> (\<forall>(st :: file_ctx tq_store) t. tq_tokenizer_init st m 64 = Inr t \<longrightarrow> st_base st = Some img \<longrightarrow> encoder_ok t \<and> in_vocab t (tk_bos t))))"

text \<open>The text of the prompt does not fit the context; a streamed model has no tokenizer, so the prompt is not read.\<close>

definition prompt_too_long :: "host \<Rightarrow> run_args \<Rightarrow> u8 list \<Rightarrow> bool" where
  "prompt_too_long ho a img \<longleftrightarrow>
     ra_stream_kb a \<le> 0 \<and>
     (let m = snd (open_image img (ho_model_arena ho) (64 * 1024))
      in \<exists>(st :: file_ctx tq_store) t. st_base st = Some img \<and> tq_tokenizer_init st m 64 = Inr t
           \<and> tq_encode t (ra_prompt a) True False (run_ctx a m) = Inl (Status TQ_ERR_NOMEM))"

lemma init_fields: "tq_tokenizer_init st m n = Inr t \<Longrightarrow> tk_m t = m \<and> tk_vocab_size t = m_vocab_size m \<and> st_base st = Some (tk_base t)"
  by (auto simp: tq_tokenizer_init_def split: option.splits if_splits)

lemma shown_base: "store_shows img lmt st \<Longrightarrow> st_base st = Some b \<Longrightarrow> b = img"
  by (auto simp: store_shows_def store_mapped_def store_streams_def)

text \<open>Opening does not move a store between memory and card.\<close>

lemma view_base: "st_base (fst (tq_store_view st off n)) = st_base st"
  by (simp add: tq_store_view_def Let_def split: option.splits prod.splits)

lemma directory_base: "open_directory st hdr idx ws m = (rc, st', ws', m') \<Longrightarrow> st_base st' = st_base st"
proof (induction st hdr idx ws m rule: open_directory.induct)
  case (1 st hdr idx ws m)
  show ?case
  proof (cases "idx < unat (h_tensor_count hdr)")
    case False
    then show ?thesis using "1.prems" by (simp add: open_directory.simps [of st])
  next
    case True
    define n where "n = (if unat (h_tensor_count hdr) - idx > TQ_DIR_CHUNK then TQ_DIR_CHUNK else unat (h_tensor_count hdr) - idx)"
    obtain st1 v where v: "tq_store_view st (ucast (h_tensor_table_offset hdr) + of_nat idx * 64) (of_nat n * 64) = (st1, v)" by fastforce
    have b: "st_base st1 = st_base st" using view_base [of st "ucast (h_tensor_table_offset hdr) + of_nat idx * 64" "of_nat n * 64"] v by simp
    note p = "1.prems" [unfolded open_directory.simps [of st] if_P [OF True] Let_def, folded n_def, unfolded v prod.case]
    show ?thesis
    proof (cases v)
      case None
      then show ?thesis using p b by simp
    next
      case (Some src)
      obtain rc1 ws1 m1 where e: "open_entries hdr (map (\<lambda>k. entry_at src (k * 64)) [0..<n]) ws m = (rc1, ws1, m1)" by (metis prod_cases3)
      note ih = "1.IH" [OF True refl refl, folded n_def, OF v [symmetric] Some e [symmetric] refl]
      show ?thesis using p b ih e Some by (cases "rc1 = TQ_OK") auto
    qed
  qed
qed

lemma open_base: "tq_model_open st arena n = (rc, m, st') \<Longrightarrow> st_base st' = st_base st"
proof -
  assume o: "tq_model_open st arena n = (rc, m, st')"
  obtain st1 v where v: "tq_store_view st 0 TQ_HEADER_BYTES = (st1, v)" by fastforce
  have b: "st_base st1 = st_base st" using view_base [of st 0 TQ_HEADER_BYTES] v by simp
  show ?thesis using o b unfolding tq_model_open_def Let_def v
    by (auto simp: directory_base split: option.splits prod.splits if_splits)
qed

lemma layout_succeeds:
  fixes fast cache :: "64 word"
  assumes "dims_ok m" and "0 < ctx" and "ctx \<le> m_seq_len m" and "kv = TQ_KV_F32 \<or> kv = TQ_KV_Q8"
    and "runtime_need m ctx + 32 < 2 ^ 64" and "kv_need m ctx kv + 32 < 2 ^ 64" and "unat cache mod 16 = 0"
  shows "runtime_start mem m st ctx kv fast (tq_runtime_bytes m ctx) cache (tq_kv_bytes m ctx kv) = Inr (carved_runtime mem m st ctx kv)"
proof -
  have b: "unat (tq_runtime_bytes m ctx :: 64 word) = runtime_need m ctx" "unat (tq_kv_bytes m ctx kv :: 64 word) = kv_need m ctx kv"
    using runtime_bytes_value(1) [OF assms(1,2), where 'w = 64] kv_bytes_value(1) [OF assms(1,2,4), where 'w = 64] assms(5,6) by simp_all
  have "\<exists>ly. tq_runtime_init m ctx kv fast (tq_runtime_bytes m ctx) cache (tq_kv_bytes m ctx kv) = Inr ly \<and>
      laid_out fast (tq_runtime_bytes m ctx) (fast_buffers ly) (fast_need m ctx) \<and>
      laid_out cache (tq_kv_bytes m ctx kv) (cache_buffers kv ly) (cache_need m ctx kv)"
    by (rule runtime_layout [OF assms(1-4)]) (use assms(5-7) b in simp_all)
  then show ?thesis by (auto simp: runtime_start_def)
qed

lemma generate_nothing:
  assumes "nat (if steps > rt_max_seq rt then rt_max_seq rt else steps) = 0"
  shows "generate quiet tok prompt steps temp topp seed sidx sprob buf rt =
    (case (case tok of Some t \<Rightarrow> tq_encode t prompt True False (rt_max_seq rt) | None \<Rightarrow> Inr [sint (h_bos_token (m_hdr (rt_m rt)))]) of
       Inl Undefined \<Rightarrow> None
     | Inl (Status rc) \<Rightarrow> Some (Inl rc)
     | Inr toks \<Rightarrow>
         Some (Inr (\<lparr>gr_rc = TQ_OK, gr_pos = 0, gr_tokens = [], gr_text = []\<rparr>,
           \<lparr>gn_rt = rt, gn_sm = tq_sampler_init (nat (m_vocab_size (rt_m rt))) temp topp seed (Some sidx) (Some sprob), gn_buf = buf\<rparr>)))"
  unfolding generate_def Let_def assms by (simp cong: sum.case_cong)

lemma run_model_exits:
  assumes st: "store_shows img lmt st" and sb: "ra_stream_kb a > 0 \<Longrightarrow> st_base st = None" and s: "sound_model ho a img lmt" and r: "run_model ho a st = Some (code, out)"
  shows "code = 0 \<or> code = 1 \<and> out = [] \<and> prompt_too_long ho a img"
proof -
  define m where "m = snd (open_image img (ho_model_arena ho) (64 * 1024))"
  define ctx where "ctx = run_ctx a m"
  define kv where "kv = (if ra_kv8 a then TQ_KV_Q8 else TQ_KV_F32)"
  note s = s [unfolded sound_model_def Let_def, folded m_def, folded ctx_def kv_def]
  have c: "complete_image img (ho_model_arena ho) (64 * 1024)" and h: "honest_file img" and l: "2048 \<le> lmt" and tt: "tile_takes lmt m"
    using s by blast+
  have rng: "256 \<le> length img"
    "unat (h_tensor_table_offset (header_at img)) + unat (h_tensor_count (header_at img)) * 64 \<le> length img"
    using c unfolding complete_image_def Let_def by blast+
  obtain st' where o: "tq_model_open st (ho_model_arena ho) (64 * 1024) = (TQ_OK, m, st')" and sh: "store_shows img lmt st'"
    using open_image_implemented [OF st l rng, of "ho_model_arena ho" "64 * 1024"] complete_image_opens [OF c] by (auto simp: m_def)
  have d: "dims_ok m" using open_facts [OF o st l] by (simp add: model_from_def)
  have seq: "0 < m_seq_len m" using d by (simp add: dims_ok_def)
  then have x: "0 < ctx" "ctx \<le> m_seq_len m" by (simp_all add: ctx_def run_ctx_def)
  have k: "kv = TQ_KV_F32 \<or> kv = TQ_KV_Q8" by (simp add: kv_def)
  let ?rt = "carved_runtime (ho_mem ho) m st' ctx kv"
  have rs: "runtime_start (ho_mem ho) m st' ctx kv (ho_fast ho) (tq_runtime_bytes m ctx) (ho_cache ho) (tq_kv_bytes m ctx kv) = Inr ?rt"
    by (rule layout_succeeds [OF d x k]) (use s in blast)+
  let ?E = "session_env img lmt m ctx kv"
  note ready = session_ready [OF o st l h tt rs]
  define tok where "tok = (case tq_tokenizer_init st' m 64 of Inl _ \<Rightarrow> None | Inr t \<Rightarrow> Some t)"
  have ti: "encoder_ok t \<and> tk_m t = m \<and> tk_vocab_size t = m_vocab_size m \<and> in_vocab t (tk_bos t)"
    and tl: "tq_encode t (ra_prompt a) True False ctx = Inl (Status TQ_ERR_NOMEM) \<Longrightarrow> prompt_too_long ho a img" if t: "tok = Some t" for t
  proof -
    have i: "tq_tokenizer_init st' m 64 = Inr t" using t by (simp add: tok_def split: sum.splits)
    then have "st_base st' = Some img" using init_fields [OF i] shown_base [OF sh] by auto
    moreover from this have "ra_stream_kb a \<le> 0" using sb open_base [OF o] by (cases "ra_stream_kb a > 0") auto
    ultimately have q: "st_base st' = Some img" "ra_stream_kb a \<le> 0" by blast+
    show "encoder_ok t \<and> tk_m t = m \<and> tk_vocab_size t = m_vocab_size m \<and> in_vocab t (tk_bos t)" using q s i init_fields [OF i] by blast
    show "prompt_too_long ho a img" if "tq_encode t (ra_prompt a) True False ctx = Inl (Status TQ_ERR_NOMEM)"
      unfolding prompt_too_long_def Let_def m_def [symmetric] ctx_def [symmetric] using q i that by blast
  qed
  have tf: "tok_fits tok ?E" "\<forall>t. tok = Some t \<longrightarrow> in_vocab t (tk_bos t)" using ti by (simp_all add: tok_fits_def)
  let ?V = "nat (m_vocab_size m)"
  let ?g = "generate (ra_quiet a) tok (ra_prompt a) (ra_steps a) (ra_temp a) (ra_topp a) (ra_seed a)
      (map (ho_ints ho) [0..<?V]) (map (am_float (ho_mem ho) 20) [0..<?V]) (map (ho_chars ho) [0..<64]) ?rt"
  have ok: "\<not> TQ_OK \<noteq> TQ_OK" by simp
  note b = r [unfolded run_model_def o prod.case Let_def if_not_P [OF ok], folded ctx_def kv_def, unfolded rs sum.case, folded tok_def]
  have E: "env_ok ?E" "rt_ready ?E [] ?rt" "0 < en_seq ?E" using ready x by simp_all
  show ?thesis
  proof (cases "0 < ra_steps a")
    case False
    have m: "rt_m ?rt = m" "rt_max_seq ?rt = ctx" using ready_fixed [OF E(2)] by simp_all
    then have z: "nat (if ra_steps a > rt_max_seq ?rt then rt_max_seq ?rt else ra_steps a) = 0" using x False by simp
    note b0 = b [unfolded generate_nothing [OF z], unfolded m]
    show ?thesis
    proof (cases tok)
      case None
      then show ?thesis using b0 by (auto split: if_splits)
    next
      case (Some t)
      have out: "case tq_encode t (ra_prompt a) True False ctx of Inl e \<Rightarrow> e = Status TQ_ERR_NOMEM
          | Inr tokens \<Rightarrow> int (length tokens) \<le> ctx \<and> (\<forall>x \<in> set tokens. in_vocab t x \<or> False \<and> x = tk_eos t)"
        by (rule encode_outcome) (use ti [OF Some] x in simp_all)
      show ?thesis
      proof (cases "tq_encode t (ra_prompt a) True False ctx")
        case (Inl e)
        then have e: "e = Status TQ_ERR_NOMEM" using out by simp
        have "code = 1 \<and> out = []" using b0 by (simp add: Some Inl e)
        then show ?thesis using tl [OF Some] Inl e by blast
      next
        case (Inr toks)
        then show ?thesis using b0 by (simp add: Some)
      qed
    qed
  next
    case True
    then have bos: "valid_token (en_m ?E) (sint (h_bos_token (m_hdr (en_m ?E))))" using s by simp
    show ?thesis
    proof (rule generate_run [OF E(2,1) tf bos E(3), where sprob = "map (am_float (ho_mem ho) 20) [0..<?V]" and sidx = "map (ho_ints ho) [0..<?V]"
        and quiet = "ra_quiet a" and prompt = "ra_prompt a" and steps = "ra_steps a" and temp = "ra_temp a" and topp = "ra_topp a"
        and seed = "ra_seed a" and buf = "map (ho_chars ho) [0..<64]"], goal_cases)
    case 3
    then obtain t where t: "tok = Some t" "tq_encode t (ra_prompt a) True False ctx = Inl (Status TQ_ERR_NOMEM)" by auto
    have "code = 1 \<and> out = []" using b 3(1) by simp
    then show ?case using tl [OF t] by blast
  next
    case (4 toks)
    let ?s = "\<lparr>gn_rt = ?rt, gn_sm = tq_sampler_init (en_vocab ?E) (ra_temp a) (ra_topp a) (ra_seed a) (Some (map (ho_ints ho) [0..<?V]))
        (Some (map (am_float (ho_mem ho) 20) [0..<?V])), gn_buf = map (ho_chars ho) [0..<64]\<rparr>"
    let ?k = "min (nat (ra_steps a)) (en_slots ?E)"
    have v: "valid_token (en_m ?E) (toks ! 0)" using 4(1,2) by (simp add: nth_mem)
    show ?case
    proof (cases "gen_loop (ra_quiet a) tok toks ?k (toks ! 0) 0 ?s")
      case None
      then show ?thesis using b 4(5) by simp
    next
      case (Some p)
      obtain gr s1 where p: "p = (gr, s1)" by (cases p)
      have "gr_rc gr = TQ_OK" using gen_loop_ok [OF 4(6) Some [unfolded p] _ 4(2) v] by simp
      then show ?thesis using b 4(5) Some p by simp
    qed
  qed simp_all
  qed
qed

section \<open>Property\<close>


text \<open>The sample file, streamed through a tile of 32 KB, with no step to take.\<close>

definition demo_host :: host where
  "demo_host = \<lparr>ho_file = (\<lambda>p. if p = cstr ''m.etq'' then Some sample_file else None),
     ho_pread = (\<lambda>_ off n. Some (take (unat n) (drop (unat off) sample_file))), ho_mmap = False, ho_mem = used_mem,
     ho_ints = (\<lambda>_. 7), ho_chars = (\<lambda>_. 9), ho_model_arena = 0x20000000, ho_fast = 0x20010000, ho_cache = 0x20020000, ho_atof = (\<lambda>_. 0)\<rparr>"

definition demo_run :: "u8 list list" where
  "demo_run = [cstr ''m.etq'', cstr ''--stream'', cstr ''32'', cstr ''-n'', cstr ''0'']"

definition demo_settings :: run_args where
  "demo_settings = run_defaults\<lparr>ra_path := Some (cstr ''m.etq''), ra_stream_kb := 32, ra_steps := 0\<rparr>"

lemma demo_parse: "parse_run af demo_run run_defaults = Some demo_settings"
proof -
  have n: "c_atoi (cstr ''32'') = 32" "c_atoi (cstr ''0'') = 0" by code_simp+
  have c: "cstr ''-i'' = [45, 105]" "cstr ''-n'' = [45, 110]" "cstr ''-t'' = [45, 116]" "cstr ''-p'' = [45, 112]" "cstr ''-s'' = [45, 115]"
    "cstr ''-c'' = [45, 99]" "cstr ''--kv8'' = [45, 45, 107, 118, 56]" "cstr ''--stream'' = [45, 45, 115, 116, 114, 101, 97, 109]"
    "cstr ''m.etq'' = [109, 46, 101, 116, 113]"
    by code_simp+
  show ?thesis unfolding demo_run_def demo_settings_def run_defaults_def by (simp add: n c)
qed

lemma demo_complete64: "complete_image sample_file (0x20000000 :: 64 word) (64 * 1024)"
proof -
  have "snd (tq_carve (0x20000000 :: 64 word) (64 * 1024) 0 (72 * word_of_int (m_n_layers (open_dims sample_hdr (zero_model\<lparr>m_hdr := sample_hdr\<rparr>))))) \<noteq> None"
    by (subst carve_value) (simp_all add: Let_def carve_off_def open_dims_def sample_hdr_def)
  then show ?thesis using sample_complete unfolding complete_image_def Let_def sample_header_at by blast
qed

lemma demo_sound: "sound_model demo_host demo_settings sample_file 32768"
proof -
  let ?st = "tq_store_init_mapped sample_file 5440 :: unit tq_store"
  define m where "m = snd (open_image sample_file (0x20000000 :: 64 word) (64 * 1024))"
  have st: "store_shows sample_file 32768 ?st" using store_init_shows(1) [of sample_file 32768] by (simp add: sample_length)
  have l: "2048 \<le> (32768 :: nat)" by simp
  obtain st' where o: "tq_model_open ?st (0x20000000 :: 64 word) (64 * 1024) = (TQ_OK, m, st')"
    using open_image_implemented [OF st l sample_range, of "0x20000000 :: 64 word" "64 * 1024"] complete_image_opens [OF demo_complete64] by (auto simp: m_def)
  note d = demo_dims [OF o st]
  have "skeleton m = skeleton (open_dims sample_hdr (zero_model\<lparr>m_hdr := sample_hdr\<rparr>))" using open_facts [OF o st l] sample_header_at by simp
  from skeleton_fields [OF this] have t: "tile_takes 32768 m" by (simp add: tile_takes_def open_dims_def sample_hdr_def block_bytes_def)
  have a: "ho_model_arena demo_host = 0x20000000" "ho_cache demo_host = 0x20020000" by (simp_all add: demo_host_def)
  have g: "run_ctx demo_settings m = 1" "ra_kv8 demo_settings = False" "ra_steps demo_settings = 0" "ra_stream_kb demo_settings = 32"
    by (simp_all add: run_ctx_def demo_settings_def run_defaults_def d)
  show ?thesis unfolding sound_model_def Let_def a m_def [symmetric] g
    using demo_complete64 sample_honest t by (simp add: sample_length d)
qed

lemma run_model_idle:
  assumes "ra_steps a \<le> 0" and "st_base st = None"
  shows "run_model ho a st \<noteq> None"
proof -
  obtain rc m st' where o: "tq_model_open st (ho_model_arena ho) (64 * 1024) = (rc, m, st')" by (metis prod_cases3)
  have "st_base st' = None" using open_base [OF o] assms(2) by simp
  then have t: "tq_tokenizer_init st' m 64 = Inl TQ_ERR_UNSUPPORTED" by (simp add: tq_tokenizer_init_def)
  have z: "nat (if ra_steps a > rt_max_seq rt then rt_max_seq rt else ra_steps a) = 0" for rt :: "file_ctx tq_runtime" using assms(1) by simp
  show ?thesis unfolding run_model_def o prod.case Let_def t generate_nothing [OF z] by (simp split: sum.splits)
qed


end
