(* ===== verification/Tq_Fault.thy ===== *)
theory Tq_Fault imports Tq_Model begin

text \<open>
  The record of the last crash, \<^verbatim>\<open>src/firmware/teensy41-tinyllm/src/fault_capture.c\<close>: the fault handler writes the
  registers into memory that a warm reset keeps, the next start and the shell command report them.
  The lemmas compare the record with a log that knows what happened.
\<close>

unbundle bit_operations_syntax

definition FAULT_MAGIC :: u32 where "FAULT_MAGIC = 0x0FA17ED"

record fault_record =
  fr_magic :: u32
  fr_reason :: u32
  fr_pc :: u32
  fr_lr :: u32
  fr_psr :: u32
  fr_cfsr :: u32
  fr_hfsr :: u32
  fr_bfar :: u32
  fr_mmfar :: u32

text \<open>The stacked registers, which the kernel may not have, and the system control block.\<close>

record exception_frame =
  ef_pc :: u32
  ef_lr :: u32
  ef_xpsr :: u32

record control_block =
  cb_cfsr :: u32
  cb_hfsr :: u32
  cb_bfar :: u32
  cb_mmfar :: u32

text \<open>The handler; the warm reset that ends it keeps the record.\<close>

definition k_sys_fatal_error_handler :: "u32 \<Rightarrow> exception_frame option \<Rightarrow> control_block \<Rightarrow> fault_record" where
  "k_sys_fatal_error_handler reason esf scb =
     \<lparr>fr_magic = FAULT_MAGIC, fr_reason = reason, fr_pc = (case esf of Some f \<Rightarrow> ef_pc f | None \<Rightarrow> 0),
      fr_lr = (case esf of Some f \<Rightarrow> ef_lr f | None \<Rightarrow> 0), fr_psr = (case esf of Some f \<Rightarrow> ef_xpsr f | None \<Rightarrow> 0),
      fr_cfsr = cb_cfsr scb, fr_hfsr = cb_hfsr scb, fr_bfar = cb_bfar scb, fr_mmfar = cb_mmfar scb\<rparr>"

datatype fault_line = Undefinstr | Unaligned | Divbyzero | Ibuserr | Preciserr | Impreciserr | Daccviol | Iaccviol

datatype fault_output = Cleared | No_fault | Last_fault fault_record "fault_line list"

definition fault_print :: "fault_record \<Rightarrow> fault_output" where
  "fault_print r =
     (if fr_magic r \<noteq> FAULT_MAGIC then No_fault
      else let cfsr = fr_cfsr r; line = (\<lambda>mask l. if cfsr AND mask \<noteq> 0 then [l] else [])
           in Last_fault r
                (line (push_bit 16 1) Undefinstr @ line (push_bit 24 1) Unaligned @ line (push_bit 25 1) Divbyzero
                 @ line (push_bit 8 1) Ibuserr @ line (push_bit 9 1) Preciserr @ line (push_bit 10 1) Impreciserr
                 @ line (push_bit 1 1) Daccviol @ line (push_bit 0 1) Iaccviol))"

definition cmd_fault :: "u8 list list \<Rightarrow> fault_record \<Rightarrow> int \<times> fault_output \<times> fault_record" where
  "cmd_fault argv r =
     (if length argv > 1 \<and> argv ! 1 = cstr ''clear'' then (0, Cleared, r\<lparr>fr_magic := 0\<rparr>) else (0, fault_print r, r))"

text \<open>What the start logs: program counter and fault status.\<close>

definition fault_announce :: "fault_record \<Rightarrow> (u32 \<times> u32) option" where
  "fault_announce r = (if fr_magic r = FAULT_MAGIC then Some (fr_pc r, fr_cfsr r) else None)"

section \<open>The life of the record\<close>

text \<open>A crash, a command, or a power cycle, after which the memory holds anything.\<close>

datatype fault_event = Crash u32 "exception_frame option" control_block | Fault_command "u8 list list" | Power_cycle fault_record

fun fault_step :: "fault_event \<Rightarrow> fault_record \<Rightarrow> fault_record" where
  "fault_step (Crash reason esf scb) r = k_sys_fatal_error_handler reason esf scb"
| "fault_step (Fault_command argv) r = snd (snd (cmd_fault argv r))"
| "fault_step (Power_cycle noise) r = noise"

text \<open>The log: the last crash that nobody has cleared and no power cycle has wiped.\<close>

fun log_step :: "fault_event \<Rightarrow> (u32 \<times> exception_frame option \<times> control_block) option \<Rightarrow> (u32 \<times> exception_frame option \<times> control_block) option" where
  "log_step (Crash reason esf scb) l = Some (reason, esf, scb)"
| "log_step (Fault_command argv) l = (if length argv > 1 \<and> argv ! 1 = cstr ''clear'' then None else l)"
| "log_step (Power_cycle noise) l = None"

definition remembers :: "fault_record \<Rightarrow> (u32 \<times> exception_frame option \<times> control_block) option \<Rightarrow> bool" where
  "remembers r l \<longleftrightarrow>
     (case l of
        None \<Rightarrow> fr_magic r \<noteq> FAULT_MAGIC
      | Some (reason, esf, scb) \<Rightarrow> r = k_sys_fatal_error_handler reason esf scb)"

text \<open>Memory after a power cycle holds the magic number only by accident.\<close>

fun quiet_event :: "fault_event \<Rightarrow> bool" where
  "quiet_event (Power_cycle noise) \<longleftrightarrow> fr_magic noise \<noteq> FAULT_MAGIC"
| "quiet_event _ \<longleftrightarrow> True"

lemma step_remembers: "remembers r l \<Longrightarrow> quiet_event e \<Longrightarrow> remembers (fault_step e r) (log_step e l)"
  by (cases e; cases l) (auto simp: remembers_def cmd_fault_def FAULT_MAGIC_def)

lemma steps_remember:
  "remembers r l \<Longrightarrow> \<forall>e \<in> set es. quiet_event e \<Longrightarrow> remembers (foldl (\<lambda>r e. fault_step e r) r es) (foldl (\<lambda>l e. log_step e l) l es)"
  by (induction es arbitrary: r l) (simp_all add: step_remembers)

fun line_bit :: "fault_line \<Rightarrow> nat" where
  "line_bit Undefinstr = 16" | "line_bit Unaligned = 24" | "line_bit Divbyzero = 25" | "line_bit Ibuserr = 8"
| "line_bit Preciserr = 9" | "line_bit Impreciserr = 10" | "line_bit Daccviol = 1" | "line_bit Iaccviol = 0"

lemma and_push_1: "(w :: u32) AND push_bit n 1 \<noteq> 0 \<longleftrightarrow> bit w n"
proof -
  have "w AND push_bit n 1 = (if bit w n then push_bit n 1 else 0)" by (rule bit_eqI) (auto simp: bit_simps)
  moreover have "bit w n \<Longrightarrow> (push_bit n 1 :: u32) \<noteq> 0" using bit_imp_le_length [of w n] by (simp add: push_bit_eq_mult)
  ultimately show ?thesis by auto
qed

lemma fault_print_lines:
  assumes "fr_magic r = FAULT_MAGIC"
  shows "\<exists>ls. fault_print r = Last_fault r ls \<and> distinct ls \<and> (\<forall>l. l \<in> set ls \<longleftrightarrow> bit (fr_cfsr r) (line_bit l))"
proof -
  let ?p = "\<lambda>n l. if bit (fr_cfsr r) n then [l] else []"
  let ?ls = "?p 16 Undefinstr @ ?p 24 Unaligned @ ?p 25 Divbyzero @ ?p 8 Ibuserr @ ?p 9 Preciserr @ ?p 10 Impreciserr @ ?p 1 Daccviol @ ?p 0 Iaccviol"
  have "fault_print r = Last_fault r ?ls"
    unfolding fault_print_def Let_def and_push_1 using assms by (simp only: simp_thms if_False)
  moreover have "distinct ?ls" by simp
  moreover have "l \<in> set ?ls \<longleftrightarrow> bit (fr_cfsr r) (line_bit l)" for l by (cases l) simp_all
  ultimately show ?thesis by blast
qed

section \<open>Property\<close>



end
