(* ===== verification/Tq_Usb.thy ===== *)
theory Tq_Usb imports Tq_Prelude "HOL-Library.Sublist" begin

text \<open>
  The two USB files of the firmware: \<^verbatim>\<open>usb_console.c\<close> brings the console up before \<^verbatim>\<open>main\<close> runs,
  \<^verbatim>\<open>usb_reboot.c\<close> jumps into the boot loader when the host asks for it. Zephyr's USB stack and serial driver are
  parameters: what each call answers, which may depend on all calls before it.
\<close>

section \<open>The console\<close>

datatype usbd_desc = Desc_lang | Desc_mfr | Desc_product | Desc_sn

datatype usbd_speed = Speed_FS | Speed_HS

text \<open>The calls into the stack; the code triple is the miscellaneous class with subclass and protocol.\<close>

datatype usbd_call =
  Add_descriptor usbd_desc
| Add_configuration usbd_speed
| Register_all_classes usbd_speed int
| Set_code_triple usbd_speed int int
| Usbd_init
| Usbd_enable

type_synonym usbd_stack = "usbd_call list \<Rightarrow> usbd_call \<Rightarrow> int"

definition usbd_call :: "usbd_stack \<Rightarrow> usbd_call \<Rightarrow> usbd_call list \<Rightarrow> int \<times> usbd_call list" where
  "usbd_call S c calls = (S calls c, calls @ [c])"

definition add_speed :: "usbd_stack \<Rightarrow> usbd_speed \<Rightarrow> usbd_call list \<Rightarrow> int \<times> usbd_call list" where
  "add_speed S speed calls =
     (case usbd_call S (Add_configuration speed) calls of
        (err, calls) \<Rightarrow>
          if err \<noteq> 0 then (err, calls)
          else (case usbd_call S (Register_all_classes speed 1) calls of
                  (err, calls) \<Rightarrow>
                    if err \<noteq> 0 then (err, calls)
                    else (0, snd (usbd_call S (Set_code_triple speed 2 1) calls))))"

fun add_descriptors :: "usbd_stack \<Rightarrow> usbd_desc list \<Rightarrow> usbd_call list \<Rightarrow> int \<times> usbd_call list" where
  "add_descriptors S [] calls = (0, calls)"
| "add_descriptors S (d # ds) calls =
     (case usbd_call S (Add_descriptor d) calls of
        (err, calls) \<Rightarrow> if err \<noteq> 0 then (err, calls) else add_descriptors S ds calls)"

text \<open>\<open>hs\<close> says that the controller is capable of high speed.\<close>

definition usb_console_enable :: "usbd_stack \<Rightarrow> bool \<Rightarrow> usbd_call list \<Rightarrow> int \<times> usbd_call list" where
  "usb_console_enable S hs calls =
     (case add_descriptors S [Desc_lang, Desc_mfr, Desc_product, Desc_sn] calls of
        (err, calls) \<Rightarrow>
          if err \<noteq> 0 then (err, calls)
          else (case (if hs then add_speed S Speed_HS calls else (0, calls)) of
                  (err, calls) \<Rightarrow>
                    if err \<noteq> 0 then (err, calls)
                    else (case add_speed S Speed_FS calls of
                            (err, calls) \<Rightarrow>
                              if err \<noteq> 0 then (err, calls)
                              else (case usbd_call S Usbd_init calls of
                                      (err, calls) \<Rightarrow>
                                        if err \<noteq> 0 then (err, calls)
                                        else (case usbd_call S Usbd_enable calls of
                                                (err, calls) \<Rightarrow> if err \<noteq> 0 then (err, calls) else (0, calls))))))"

text \<open>The specification: one plan, left at the first call that fails. The code triple cannot fail.\<close>

definition speed_plan :: "usbd_speed \<Rightarrow> usbd_call list" where
  "speed_plan v = [Add_configuration v, Register_all_classes v 1, Set_code_triple v 2 1]"

definition console_plan :: "bool \<Rightarrow> usbd_call list" where
  "console_plan hs =
     map Add_descriptor [Desc_lang, Desc_mfr, Desc_product, Desc_sn] @ (if hs then speed_plan Speed_HS else []) @ speed_plan Speed_FS
     @ [Usbd_init, Usbd_enable]"

fun can_fail :: "usbd_call \<Rightarrow> bool" where
  "can_fail (Set_code_triple _ _ _) \<longleftrightarrow> False"
| "can_fail _ \<longleftrightarrow> True"

fun follow_plan :: "usbd_stack \<Rightarrow> usbd_call list \<Rightarrow> usbd_call list \<Rightarrow> int \<times> usbd_call list" where
  "follow_plan S [] calls = (0, calls)"
| "follow_plan S (c # cs) calls =
     (if can_fail c \<and> S calls c \<noteq> 0 then (S calls c, calls @ [c]) else follow_plan S cs (calls @ [c]))"

lemma follow_append:
  "follow_plan S (xs @ ys) calls =
     (case follow_plan S xs calls of (err, calls) \<Rightarrow> if err \<noteq> 0 then (err, calls) else follow_plan S ys calls)"
  by (induction xs arbitrary: calls) auto

lemma descriptors_follow: "add_descriptors S ds calls = follow_plan S (map Add_descriptor ds) calls"
  by (induction ds arbitrary: calls) (simp_all add: usbd_call_def)

lemma speed_follows: "add_speed S v calls = follow_plan S (speed_plan v) calls"
  by (simp add: add_speed_def speed_plan_def usbd_call_def)

lemma console_follows_plan: "usb_console_enable S hs calls = follow_plan S (console_plan hs) calls"
  unfolding usb_console_enable_def console_plan_def follow_append descriptors_follow speed_follows usbd_call_def
  by (cases hs) (simp_all split: prod.splits)

lemma follow_outcome:
  "case follow_plan S plan calls of
     (rc, calls') \<Rightarrow>
       \<exists>made rest. plan = made @ rest \<and> calls' = calls @ made \<and>
         (if rc = 0 then rest = [] \<and> (\<forall>i < length made. can_fail (made ! i) \<longrightarrow> S (calls @ take i made) (made ! i) = 0)
          else made \<noteq> [] \<and> can_fail (last made) \<and> rc = S (calls @ butlast made) (last made)
            \<and> (\<forall>i < length made - 1. can_fail (made ! i) \<longrightarrow> S (calls @ take i made) (made ! i) = 0))"
proof (induction plan arbitrary: calls)
  case Nil
  show ?case by simp
next
  case (Cons c cs)
  show ?case
  proof (cases "can_fail c \<and> S calls c \<noteq> 0")
    case True
    then have f: "follow_plan S (c # cs) calls = (S calls c, calls @ [c])" by simp
    show ?thesis unfolding f prod.case by (rule exI [of _ "[c]"], rule exI [of _ cs]) (simp add: True)
  next
    case False
    obtain rc calls' where f: "follow_plan S cs (calls @ [c]) = (rc, calls')" by fastforce
    then obtain made rest where m: "cs = made @ rest" "calls' = (calls @ [c]) @ made"
      "if rc = 0 then rest = [] \<and> (\<forall>i < length made. can_fail (made ! i) \<longrightarrow> S ((calls @ [c]) @ take i made) (made ! i) = 0)
       else made \<noteq> [] \<and> can_fail (last made) \<and> rc = S ((calls @ [c]) @ butlast made) (last made)
         \<and> (\<forall>i < length made - 1. can_fail (made ! i) \<longrightarrow> S ((calls @ [c]) @ take i made) (made ! i) = 0)"
      using Cons.IH [of "calls @ [c]"] by auto
    have ok: "\<forall>i < n. can_fail ((c # made) ! i) \<longrightarrow> S (calls @ take i (c # made)) ((c # made) ! i) = 0"
      if "\<forall>i < n - 1. can_fail (made ! i) \<longrightarrow> S ((calls @ [c]) @ take i made) (made ! i) = 0" for n
    proof (intro allI impI)
      fix i assume i: "i < n" "can_fail ((c # made) ! i)"
      then show "S (calls @ take i (c # made)) ((c # made) ! i) = 0" using that False by (cases i) auto
    qed
    have fp: "follow_plan S (c # cs) calls = (rc, calls')" unfolding follow_plan.simps if_not_P [OF False] by (rule f)
    show ?thesis unfolding fp prod.case
    proof (rule exI [of _ "c # made"], rule exI [of _ rest], intro conjI)
      show "c # cs = (c # made) @ rest" "calls' = calls @ c # made" using m(1,2) by simp_all
      show "if rc = 0 then rest = [] \<and> (\<forall>i < length (c # made). can_fail ((c # made) ! i) \<longrightarrow> S (calls @ take i (c # made)) ((c # made) ! i) = 0)
        else c # made \<noteq> [] \<and> can_fail (last (c # made)) \<and> rc = S (calls @ butlast (c # made)) (last (c # made))
          \<and> (\<forall>i < length (c # made) - 1. can_fail ((c # made) ! i) \<longrightarrow> S (calls @ take i (c # made)) ((c # made) ! i) = 0)"
        using m(3) ok [of "length (c # made)"] ok [of "length (c # made) - 1"] by (cases "rc = 0") simp_all
    qed
  qed
qed

text \<open>
  The start-up of the console makes the planned calls in order and no others; it ends with 0 exactly when
  it has made all of them and none failed, and otherwise with the error of the last call it made.
\<close>

lemma console_enable_exact:
  "case usb_console_enable S hs [] of
     (rc, calls) \<Rightarrow> prefix calls (console_plan hs) \<and>
       (if rc = 0 then calls = console_plan hs else calls \<noteq> [] \<and> rc = S (butlast calls) (last calls))"
  using follow_outcome [where S = S and plan = "console_plan hs" and calls = "[]"] unfolding console_follows_plan
  by (auto simp: prefix_def split: prod.splits if_splits)

section \<open>The boot loader\<close>

definition REBOOT_BAUD :: u32 where "REBOOT_BAUD = 134"

definition POLL_MS :: nat where "POLL_MS = 100"

text \<open>A poll breaks into the boot loader, from which nothing returns, or asks to be run again after a while.\<close>

datatype poll_end = Halfkay | Again nat

definition reboot_poll :: "int \<times> u32 \<Rightarrow> poll_end" where
  "reboot_poll r = (case r of (rc, baud) \<Rightarrow> if rc = 0 \<and> baud = REBOOT_BAUD then Halfkay else Again POLL_MS)"

definition usb_reboot_init :: "int \<times> poll_end" where
  "usb_reboot_init = (0, Again POLL_MS)"

text \<open>The polls of a run, with what the line control answers at each: the time of the jump, if there is one.\<close>

fun polls :: "poll_end \<Rightarrow> nat \<Rightarrow> (int \<times> u32) list \<Rightarrow> nat option" where
  "polls Halfkay now rs = Some now"
| "polls (Again ms) now [] = None"
| "polls (Again ms) now (r # rs) = polls (reboot_poll r) (now + ms) rs"

lemma polls_from:
  "polls (Again POLL_MS) now rs =
     (if \<exists>r \<in> set rs. r = (0, REBOOT_BAUD) then Some (now + POLL_MS * (length (takeWhile (\<lambda>r. r \<noteq> (0, REBOOT_BAUD)) rs) + 1)) else None)"
proof (induction rs arbitrary: now)
  case Nil
  show ?case by simp
next
  case (Cons r rs)
  show ?case
  proof (cases "r = (0, REBOOT_BAUD)")
    case True
    then have "reboot_poll r = Halfkay" by (simp add: reboot_poll_def)
    then show ?thesis using True by (cases rs) simp_all
  next
    case False
    then have "reboot_poll r = Again POLL_MS" by (auto simp: reboot_poll_def split: prod.splits)
    then show ?thesis using False Cons.IH [of "now + POLL_MS"] by (auto simp: algebra_simps)
  qed
qed

text \<open>The board is in the boot loader at most one period after the host has set the baud rate, and never without it.\<close>

lemma reboot_on_request:
  "polls (snd usb_reboot_init) 0 rs =
     (if \<exists>r \<in> set rs. r = (0, REBOOT_BAUD) then Some (POLL_MS * (length (takeWhile (\<lambda>r. r \<noteq> (0, REBOOT_BAUD)) rs) + 1)) else None)"
  by (simp add: usb_reboot_init_def polls_from)

end
