(* ===== verification/Spec2Isabelle.thy ===== *)
theory Spec2Isabelle imports Tq_Runner Tq_Fault Tq_Usb begin

text \<open>
  A verification development for teensy-tinyllm: a transformer with quantized weights that runs on a
  Teensy 4.1 and on a host, and a message coder (Semaphore) in which both ends share the model.

  \<^bold>\<open>The program.\<close> A model file is opened and checked (\<^verbatim>\<open>core/src/tq_model.c\<close>), its weights are read through a store
  that lies in memory or streams from a card (\<^verbatim>\<open>core/src/tq_kernels.c\<close>), a runtime is laid out in two arenas,
  and each token that is fed (\<^verbatim>\<open>core/src/tq_forward.c\<close>) gives logits. The logits are sampled
  (\<^verbatim>\<open>core/src/tq_sample.c\<close>) to generate text, or turned into integer count tables with which a range
  coder (\<^verbatim>\<open>core/src/tq_ac.c\<close>) codes the tokens of a message; texts become tokens in
  \<^verbatim>\<open>core/src/tq_tokenizer.c\<close>. The host has a runner and the semaphore tool (\<^verbatim>\<open>host/tq_run.c\<close>, \<^verbatim>\<open>host/tq_sem.c\<close>); the
  board has a PSRAM driver, the card and a shell (\<^verbatim>\<open>psram_flexspi2.c\<close>, \<^verbatim>\<open>model_store.c\<close> and \<^verbatim>\<open>main.c\<close> under
  \<^verbatim>\<open>firmware/teensy41-tinyllm/src\<close>). Host and board must compute the same bits, or no message can be read.

  \<^bold>\<open>Numbers and memory.\<close>
  \<^item> \<open>Tq_Prelude\<close>: type synonyms, status codes, results as sums, little-endian and big-endian numbers, runs of
    fallible steps, word lemmas.
  \<^item> \<open>Tq_Ieee\<close>, \<open>Tq_Rounding\<close>: executable binary32 and binary64 operations on bit patterns, round to nearest
    even; what they compute over the reals, order and bounds.
  \<^item> \<open>Tq_Half\<close>, \<open>Tq_Kernels\<close> (\<^verbatim>\<open>tq_kernels.c\<close>, \<^verbatim>\<open>tq_format.h\<close>): half precision conversions are exact and correctly
    rounded; quantization stays in its range; the DSP backend equals the generic one, over the three
    ARM instructions as parameters.
  \<^item> \<open>Tq_Math\<close> (\<^verbatim>\<open>tq_math.c\<close>): the transcendentals as fixed sequences of double operations.
  \<^item> \<open>Tq_Store\<close> (\<^verbatim>\<open>tq_kernels.c\<close>): the store as a record with its callback; the locale
    \<open>weight_source\<close> states what any store promises (a view shows the bytes of the image), and the
    products and rows of the code are exact over it, tile by tile.

  \<^bold>\<open>The engine.\<close>
  \<^item> \<open>Tq_Model\<close>, \<open>Tq_Open\<close>, \<open>Tq_Image\<close> (\<^verbatim>\<open>tq_model.c\<close>): carving (aligned, disjoint, inside), header and
    directory, opening. Opening refines a one-pass parser of images, is sound (every offset is a tensor of the right
    name, type and shape) and complete (every complete image opens).
  \<^item> \<open>Tq_Forward\<close>, \<open>Tq_Vectors\<close>, \<open>Tq_Decode\<close> (\<^verbatim>\<open>tq_forward.c\<close>): the decode step as its calls on the runtime; the
    transformer as functions on vectors (\<open>forward_value\<close>); each call simulates a step on the vectors,
    so the step computes exactly the reference, whatever the buffers held (locale \<open>predictor\<close>).
  \<^item> \<open>Tq_Session\<close>: opening, layout and feeding composed. \<open>Tq_Blank\<close>: a model of zeros, evaluated to the
    end, for concrete instances.
  \<^item> \<open>Tq_Sampler\<close> (\<^verbatim>\<open>tq_sample.c\<close>): generator, heap sort of two parallel arrays, nucleus draws.
  \<^item> \<open>Tq_Tokenizer\<close> (\<^verbatim>\<open>tq_tokenizer.c\<close>): tables in the image, search (locale \<open>vocabulary\<close>), merging to a
    normal form, decoding; the round trip of texts.
  \<^item> \<open>Tq_Generate\<close> (\<^verbatim>\<open>tq_run.c\<close>): the generation loop is safe, and the same on two devices.
  \<^item> \<open>Tq_Runner\<close> (\<^verbatim>\<open>tq_run.c\<close>): the host runner as a whole, from its arguments to its exit code, over an operating
    system as a parameter.

  \<^bold>\<open>Messages.\<close>
  \<^item> \<open>Tq_Range\<close> (\<^verbatim>\<open>tq_ac.c\<close>): the range coder with carries, flush and trimming. The locale \<open>paired_coder\<close> is the
    contract of a coder and its decoder in step, interpreted for symbols here and for tokens in \<open>Tq_Codec\<close>.
  \<^item> \<open>Tq_Prob\<close>, \<open>Tq_Codec\<close> (\<^verbatim>\<open>tq_ac.c\<close>): integer count tables that sum exactly, two symbols a token, round trips.
  \<^item> \<open>Tq_Sem\<close> (\<^verbatim>\<open>tq_sem.c\<close>): encoding, decoding and the modes. A message decodes to its text on every device
    with the same image, model and cache type; no bytes make the receiver misbehave.

  \<^bold>\<open>The board.\<close>
  \<^item> \<open>Tq_Psram\<close> (\<^verbatim>\<open>psram_flexspi2.c\<close>): registers are reads and writes of a board whose state may change with
    every access. The memory test is exact for mis-decoded lines and stuck bits; the bring-up returns on a controller that
    answers and reports what answered; the sweep ends at the fastest clock that works.
  \<^item> \<open>Tq_Card\<close> (\<^verbatim>\<open>model_store.c\<close>): copying to PSRAM and streaming show the same bytes, whatever the
    single reads give.
  \<^item> \<open>Tq_Board\<close> (\<^verbatim>\<open>main.c\<close>): the shell's state and commands; \<open>shell_reach\<close> is what any commands in any order
    reach, with the invariant that a loaded model is ready; the memory plan; messages between board and host.

  \<^item> \<open>Tq_Fault\<close> (\<^verbatim>\<open>fault_capture.c\<close>): the crash record that survives a reset agrees with a log of what happened.
  \<^item> \<open>Tq_Usb\<close> (\<^verbatim>\<open>usb_console.c\<close>, \<^verbatim>\<open>usb_reboot.c\<close>): the console's start-up makes its calls in order and stops at the
    first that fails; the board jumps into the boot loader when it is asked to, and not otherwise.

  \<^bold>\<open>Conventions.\<close> A C function is a definition of the same name on explicit state; an error code is a value; a read
  outside a buffer, an undefined conversion or a loop that need not end is \<open>None\<close> (or the fault \<open>Undefined\<close>). Loops are
  structural recursion or folds over the index range of the code; those whose end depends on values are
  \<open>partial_function (option)\<close> with theorems that they return. Fuel is used only where the code has a
  bound of its own (the steps of generation, the tokens of a message). The range coder's
  renormalisation takes at most three turns from any range above zero.

  \<^bold>\<open>Assumptions, as named hypotheses.\<close> \<open>honest_file\<close>: the tensors of a file are as long as their shapes
  say (the opening checks only the length the directory states). \<open>tile_takes\<close>: rows fit the streaming tile. \<open>tables_ok\<close>, \<open>encoder_ok\<close>,
  \<open>spells_text\<close>: the tokenizer's tables are sound and its vocabulary covers the text. \<open>serves\<close>, \<open>card_holds\<close>, \<open>bus_keeps\<close>,
  \<open>chips_honest\<close>: the file system and the memory keep what they are given. \<open>hex2bin_ok\<close>: the kernel's routine
  inverts the printed digits.

  \<^bold>\<open>Not modelled.\<close> Floating point is IEEE-754 without excess precision or contraction (the build sets
  \<^verbatim>\<open>-ffp-contract=off\<close>), NaN payloads are one NaN, plain \<^verbatim>\<open>char\<close> is unsigned as on ARM. The buffers of a runtime are
  separate lists and the cache keeps to its planned region, which the layout theorems justify; the addresses
  themselves occur only in the layout. Parameters stand for \<^verbatim>\<open>exp\<close> and \<^verbatim>\<open>log2\<close> of the C library (reported figures only),
  \<^verbatim>\<open>atof\<close>, zlib, the clock, the operating system of the host, the file system, the disk, the PSRAM, the USB stack and the peripherals. Left out are the
  statistics of \<^verbatim>\<open>tq_run.c\<close>, usage and layout of the printed reports of \<^verbatim>\<open>tq_sem.c\<close>, \<^verbatim>\<open>cmd_info\<close>, log lines and
  timings of the firmware, the descriptors of the USB device (data for Zephyr's stack), the Python tools that
  make models, and the tests.
\<close>

end
